(* ===== verification/Prelude.thy ===== *)
theory Prelude
  imports Main "HOL-Library.Word" "HOL-Library.Monad_Syntax"
begin

text \<open>
  Shared vocabulary of the development: the machine integer types of the C sources, the
  memory representation of a 64-bit integer as bytes, the writing of a run of bytes into a
  buffer, and the collections of simplification rules that the component theories extend.
\<close>

unbundle bit_operations_syntax

named_theorems host_simps \<open>equations of the primitive operations on the host memory\<close>
named_theorems invariant_intros \<open>preservation of the component invariants\<close>

type_synonym u8 = "8 word"
type_synonym u16 = "16 word"
type_synonym u32 = "32 word"
type_synonym u64 = "64 word"
type_synonym byte = u8

section \<open>Runs of bytes inside a buffer\<close>

text \<open>\<open>splice_at i ys xs\<close> is \<open>xs\<close> after \<open>memcpy (xs + i, ys, length ys)\<close>.\<close>

definition splice_at :: "nat \<Rightarrow> 'a list \<Rightarrow> 'a list \<Rightarrow> 'a list" where
  "splice_at i ys xs = take i xs @ ys @ drop (i + length ys) xs"

definition segment :: "nat \<Rightarrow> nat \<Rightarrow> 'a list \<Rightarrow> 'a list" where
  "segment i n xs = take n (drop i xs)"

lemma length_segment [simp]: "i + n \<le> length xs \<Longrightarrow> length (segment i n xs) = n"
  by (simp add: segment_def)

lemma length_splice_at [simp]:
  "i + length ys \<le> length xs \<Longrightarrow> length (splice_at i ys xs) = length xs"
  by (simp add: splice_at_def)

lemma segment_splice_same [simp]:
  "i + length ys \<le> length xs \<Longrightarrow> n = length ys \<Longrightarrow> segment i n (splice_at i ys xs) = ys"
  by (simp add: splice_at_def segment_def)

lemma segment_splice_before:
  assumes "j + n \<le> i" and "i + length ys \<le> length xs"
  shows "segment j n (splice_at i ys xs) = segment j n xs"
proof -
  have "take n (drop j (take i xs)) = take n (drop j xs)"
    using assms by (simp add: drop_take min_def)
  moreover have "n \<le> length (drop j (take i xs))" and "j \<le> length (take i xs)"
    using assms by auto
  ultimately show ?thesis by (simp add: splice_at_def segment_def)
qed

lemma segment_splice_after:
  "i + length ys \<le> j \<Longrightarrow> i + length ys \<le> length xs \<Longrightarrow>
   segment j n (splice_at i ys xs) = segment j n xs"
  by (simp add: splice_at_def segment_def)

lemma take_splice_at:
  "i + length ys \<le> length xs \<Longrightarrow> take (i + length ys) (splice_at i ys xs) = take i xs @ ys"
  by (simp add: splice_at_def)

lemma take_splice_at_le:
  "j \<le> i \<Longrightarrow> i \<le> length xs \<Longrightarrow> take j (splice_at i ys xs) = take j xs"
  by (simp add: splice_at_def min_def)

lemma segment_append_take: "segment i n xs = drop i (take (i + n) xs)"
  by (simp add: segment_def take_drop add.commute)

section \<open>Integers as bytes\<close>

text \<open>The \<open>n\<close> low bytes of a word, least significant first, and back.\<close>

primrec le_bytes :: "nat \<Rightarrow> 'a::len word \<Rightarrow> byte list" where
  "le_bytes 0 w = []"
| "le_bytes (Suc n) w = ucast w # le_bytes n (drop_bit 8 w)"

primrec le_word :: "byte list \<Rightarrow> 'a::len word" where
  "le_word [] = 0"
| "le_word (b # bs) = ucast b OR push_bit 8 (le_word bs)"

lemma length_le_bytes [simp]: "length (le_bytes n w) = n"
  by (induction n arbitrary: w) auto

lemma le_word_le_bytes_mask: "le_word (le_bytes n w) = take_bit (8 * n) w"
proof (induction n arbitrary: w)
  case 0
  then show ?case by simp
next
  case (Suc n)
  show ?case
    by (rule bit_word_eqI)
      (auto simp: Suc bit_or_iff bit_push_bit_iff bit_take_bit_iff bit_drop_bit_eq bit_ucast_iff not_le)
qed

lemma le_word_le_bytes: "LENGTH('a) \<le> 8 * n \<Longrightarrow> le_word (le_bytes n w) = (w :: 'a::len word)"
  by (rule bit_word_eqI) (simp add: le_word_le_bytes_mask bit_take_bit_iff)

lemma le_bytes_le_word:
  "8 * length bs \<le> LENGTH('a) \<Longrightarrow> le_bytes (length bs) (le_word bs :: 'a::len word) = bs"
proof (induction bs)
  case Nil
  then show ?case by simp
next
  case (Cons b bs)
  have "ucast (ucast b OR push_bit 8 (le_word bs) :: 'a word) = b"
    using Cons.prems
    by (intro bit_word_eqI)
      (auto simp: bit_or_iff bit_push_bit_iff bit_ucast_iff dest: bit_imp_le_length)
  moreover have "drop_bit 8 (ucast b OR push_bit 8 (le_word bs) :: 'a word)
      = take_bit (LENGTH('a) - 8) (le_word bs)"
    by (intro bit_word_eqI)
      (auto simp: bit_or_iff bit_push_bit_iff bit_ucast_iff bit_drop_bit_eq bit_take_bit_iff
        dest: bit_imp_le_length)
  moreover have "take_bit (LENGTH('a) - 8) (le_word bs) = (le_word bs :: 'a word)"
  proof (rule bit_word_eqI)
    fix n assume "n < LENGTH('a)"
    have high: "\<not> bit (le_word cs :: 'a word) m" if "8 * length cs \<le> m" for cs m
      using that
    proof (induction cs arbitrary: m)
      case (Cons c cs)
      then have "8 * length cs \<le> m - 8" and "8 \<le> m" by auto
      with Cons.IH [of "m - 8"] show ?case
        by (auto simp: bit_or_iff bit_push_bit_iff bit_ucast_iff dest: bit_imp_le_length)
    qed simp
    from Cons.prems have "8 * length bs \<le> LENGTH('a) - 8" by simp
    then show "bit (take_bit (LENGTH('a) - 8) (le_word bs :: 'a word)) n = bit (le_word bs :: 'a word) n"
      using high [of bs n] by (cases "8 * length bs \<le> n") (auto simp: bit_take_bit_iff)
  qed
  ultimately show ?case using Cons by simp
qed

section \<open>Unsigned arithmetic without wrap-around\<close>

lemma unat_add_nowrap:
  "unat a + unat b < 2 ^ LENGTH('a) \<Longrightarrow> unat (a + b) = unat a + unat (b :: 'a::len word)"
  by (simp add: unat_word_ariths)

lemma unat_sub_nowrap: "b \<le> a \<Longrightarrow> unat (a - b) = unat a - unat (b :: 'a::len word)"
  by (simp add: unat_sub)

lemma unat_le_max64: "unat (x :: u64) < 18446744073709551616"
  using unsigned_less [of x] by simp

lemma unat_le_max32: "unat (x :: u32) < 4294967296"
  using unsigned_less [of x] by simp

lemma unat32: "n < 4294967296 \<Longrightarrow> unat (of_nat n :: u32) = n"
  by (simp add: unat_of_nat take_bit_nat_def)

lemma unat64: "n < 18446744073709551616 \<Longrightarrow> unat (of_nat n :: u64) = n"
  by (simp add: unat_of_nat take_bit_nat_def)

lemma of_nat_sub: "b \<le> a \<Longrightarrow> (of_nat a - of_nat b :: 'a::len word) = of_nat (a - b)"
  by (rule of_nat_diff [symmetric])

lemma ucast_of_nat32: "n < 4294967296 \<Longrightarrow> (ucast (of_nat n :: u32) :: u64) = of_nat n"
  by (simp add: unsigned_of_nat take_bit_nat_def)

lemma ucast_of_nat64: "(ucast (of_nat n :: u64) :: u32) = of_nat n"
  by (simp add: unsigned_of_nat word_of_nat_eq_iff)

lemma of_nat_word_eq32: "m < 4294967296 \<Longrightarrow> n < 4294967296 \<Longrightarrow> (of_nat m :: u32) = of_nat n \<longleftrightarrow> m = n"
  by (simp add: word_of_nat_eq_iff take_bit_nat_def)

section \<open>Small non-negative values of the C type int\<close>

lemma sint_small: "t < 2147483648 \<Longrightarrow> sint (of_nat t :: u32) = int t"
  by (simp add: signed_of_nat signed_take_bit_int_eq_self)

lemma scast_small: "t < 2147483648 \<Longrightarrow> (scast (of_nat t :: u32) :: u64) = of_nat t"
  by (simp add: scast_eq sint_small)

lemma scast_small_le: "t < 2147483648 \<Longrightarrow> (scast (of_nat t :: u32) :: u64) < w \<longleftrightarrow> t < unat w"
  by (simp add: scast_small word_less_nat_alt unat_of_nat take_bit_nat_eq_self)

lemma of_nat_not_m1: "t < 2147483648 \<Longrightarrow> (of_nat t :: u32) \<noteq> - 1"
proof
  assume "t < 2147483648" and "(of_nat t :: u32) = - 1"
  then have "int t = sint (- 1 :: u32)" using sint_small [of t] by simp
  then show False by simp
qed

section \<open>Signed readings\<close>

lemma unat_ucast_up: "unat (ucast (x :: u32) :: u64) = unat x"
proof -
  have "unat x < 2 ^ LENGTH(32)" by (rule unsigned_less)
  then show ?thesis by (simp add: unsigned_ucast_eq take_bit_nat_def)
qed

lemma sint_cases:
  "sint (w :: 'a::len word) = (if uint w < 2 ^ (LENGTH('a) - 1) then uint w else uint w - 2 ^ LENGTH('a))"
proof -
  obtain n where n: "LENGTH('a) = Suc n" by (metis len_not_eq_0 not0_implies_Suc)
  have b: "0 \<le> uint w" "uint w < 2 ^ Suc n" unfolding n [symmetric] by (simp, rule unsigned_less)
  have "sint w = take_bit (Suc n) (uint w + 2 ^ n) - 2 ^ n"
    by (simp add: sint_uint n signed_take_bit_eq_take_bit_shift)
  moreover have "(uint w + 2 ^ n) mod 2 ^ Suc n = (if uint w < 2 ^ n then uint w + 2 ^ n else uint w - 2 ^ n)"
  proof (cases "uint w < 2 ^ n")
    case False
    have "(uint w + 2 ^ n) mod 2 ^ Suc n = (uint w + 2 ^ n - 2 ^ Suc n) mod 2 ^ Suc n"
      by (simp only: minus_mod_self2)
    also have "\<dots> = uint w - 2 ^ n" using False b by (subst mod_pos_pos_trivial) simp_all
    finally show ?thesis using False by simp
  qed (use b in simp)
  ultimately show ?thesis by (simp add: n take_bit_eq_mod)
qed

lemma sint_neg_unat: "sint (w :: 'a::len word) < 0 \<Longrightarrow> nat (- sint w) = unat (- w)"
proof -
  assume neg: "sint w < 0"
  have b: "0 \<le> uint w" "uint w < 2 ^ LENGTH('a)" by (simp, rule unsigned_less)
  have s: "sint w = uint w - 2 ^ LENGTH('a)" "uint w \<noteq> 0" using neg b by (auto simp: sint_cases split: if_splits)
  have "uint (- w) = (- uint w) mod 2 ^ LENGTH('a)" by (simp add: uint_word_ariths)
  also have "\<dots> = (2 ^ LENGTH('a) - uint w) mod 2 ^ LENGTH('a)"
    using minus_mod_self1 [of "- uint w" "2 ^ LENGTH('a)"] by simp
  also have "\<dots> = 2 ^ LENGTH('a) - uint w" using b s(2) by (intro mod_pos_pos_trivial) linarith+
  finally show ?thesis using s by (simp add: unat_eq_nat_uint)
qed

lemma sint_nonneg_unat: "0 \<le> sint (w :: 'a::len word) \<Longrightarrow> nat (sint w) = unat w"
proof -
  assume pos: "0 \<le> sint w"
  have b: "0 \<le> uint w" "uint w < 2 ^ LENGTH('a)" by (simp, rule unsigned_less)
  have neg: "uint w - 2 ^ LENGTH('a) < 0" using b(2) by linarith
  have "sint w = uint w \<or> sint w = uint w - 2 ^ LENGTH('a)" unfolding sint_cases by simp
  with pos neg have "sint w = uint w" by linarith
  then show ?thesis by simp
qed

end
