(* ===== verification/Host.thy ===== *)
theory Host
  imports Prelude
begin

text \<open>
  The host memory that the C library RSApi runs on. A pointer is NULL, the base address of
  an allocated cell, or the indeterminate contents of a pointer field that was never
  assigned. A cell is what one \<open>malloc\<close> returned: a run of bytes, a
  \<open>struct _RSA_Byte_Stream\<close> or a \<open>struct _RSA_Mem_Data\<close> (RSApi/structs.h).

  The surroundings of the program are data of the state: which calls of \<open>malloc\<close> fail
  (\<open>hp_plan\<close>; after the plan is used up every call succeeds), what fresh memory contains
  (\<open>hp_junk\<close>) and the byte order of the processor (\<open>big_endian\<close>).

  An operation returns \<open>None\<close> where the C code has undefined behaviour: reading or
  writing outside a cell, following NULL or an indeterminate pointer, freeing what is not
  allocated. Every other outcome, error codes included, is \<open>Some\<close>.
\<close>

section \<open>Pointers, structures, cells\<close>

datatype ptr = Null | Ptr nat | Wild

record byte_stream =
  pBuffer :: ptr
  szWriteCur :: u64
  szReadCur :: u64
  szMaxSize :: u64

record mem_data =
  unVirtAddr :: u64
  pPageData :: ptr

datatype cell = Bytes "byte list" | StreamCell byte_stream | MemCell mem_data

record host =
  hp_next :: nat
  hp_cells :: "nat \<Rightarrow> cell option"
  hp_plan :: "bool list"
  hp_junk :: "nat \<Rightarrow> nat \<Rightarrow> byte"
  big_endian :: bool

section \<open>Primitive operations\<close>

definition junk_u64 :: "host \<Rightarrow> nat \<Rightarrow> u64" where
  "junk_u64 h off = le_word (map (\<lambda>i. hp_junk h (hp_next h) (off + i)) [0..<8])"

definition junk_bytes :: "host \<Rightarrow> nat \<Rightarrow> byte list" where
  "junk_bytes h n = map (hp_junk h (hp_next h)) [0..<n]"

definition halloc :: "cell \<Rightarrow> host \<Rightarrow> ptr \<times> host" where
  "halloc c h =
     (case hp_plan h of
        False # fs \<Rightarrow> (Null, h\<lparr>hp_plan := fs\<rparr>)
      | fs \<Rightarrow> (Ptr (hp_next h),
               h\<lparr>hp_plan := tl fs, hp_next := Suc (hp_next h),
                 hp_cells := (hp_cells h)(hp_next h \<mapsto> c)\<rparr>))"

definition malloc_bytes :: "u64 \<Rightarrow> host \<Rightarrow> ptr \<times> host" where
  "malloc_bytes n h = halloc (Bytes (junk_bytes h (unat n))) h"

definition malloc_stream :: "host \<Rightarrow> ptr \<times> host" where
  "malloc_stream h =
     halloc (StreamCell \<lparr>pBuffer = Wild, szWriteCur = junk_u64 h 8, szReadCur = junk_u64 h 16,
       szMaxSize = junk_u64 h 24\<rparr>) h"

definition malloc_mem :: "host \<Rightarrow> ptr \<times> host" where
  "malloc_mem h = halloc (MemCell \<lparr>unVirtAddr = junk_u64 h 0, pPageData = Wild\<rparr>) h"

fun hfree :: "ptr \<Rightarrow> host \<Rightarrow> host option" where
  "hfree Null h = Some h"
| "hfree (Ptr a) h =
     (case hp_cells h a of
        None \<Rightarrow> None
      | Some _ \<Rightarrow> Some (h\<lparr>hp_cells := (hp_cells h)(a := None)\<rparr>))"
| "hfree Wild h = None"

text \<open>The truth value of a pointer in a C condition; an indeterminate pointer has none.\<close>

fun ptr_true :: "ptr \<Rightarrow> bool option" where
  "ptr_true Null = Some False"
| "ptr_true (Ptr a) = Some True"
| "ptr_true Wild = None"

fun get_stream :: "host \<Rightarrow> ptr \<Rightarrow> byte_stream option" where
  "get_stream h (Ptr a) = (case hp_cells h a of Some (StreamCell s) \<Rightarrow> Some s | _ \<Rightarrow> None)"
| "get_stream h p = None"

fun get_mem :: "host \<Rightarrow> ptr \<Rightarrow> mem_data option" where
  "get_mem h (Ptr a) = (case hp_cells h a of Some (MemCell m) \<Rightarrow> Some m | _ \<Rightarrow> None)"
| "get_mem h p = None"

fun get_bytes :: "host \<Rightarrow> ptr \<Rightarrow> byte list option" where
  "get_bytes h (Ptr a) = (case hp_cells h a of Some (Bytes bs) \<Rightarrow> Some bs | _ \<Rightarrow> None)"
| "get_bytes h p = None"

fun put_cell :: "ptr \<Rightarrow> cell \<Rightarrow> host \<Rightarrow> host" where
  "put_cell (Ptr a) c h = h\<lparr>hp_cells := (hp_cells h)(a \<mapsto> c)\<rparr>"
| "put_cell p c h = h"

definition set_stream :: "ptr \<Rightarrow> byte_stream \<Rightarrow> host \<Rightarrow> host option" where
  "set_stream p s h = do { _ \<leftarrow> get_stream h p; Some (put_cell p (StreamCell s) h) }"

definition set_mem :: "ptr \<Rightarrow> mem_data \<Rightarrow> host \<Rightarrow> host option" where
  "set_mem p m h = do { _ \<leftarrow> get_mem h p; Some (put_cell p (MemCell m) h) }"

definition load_bytes :: "host \<Rightarrow> ptr \<Rightarrow> nat \<Rightarrow> nat \<Rightarrow> byte list option" where
  "load_bytes h p off n =
     do { bs \<leftarrow> get_bytes h p; if off + n \<le> length bs then Some (segment off n bs) else None }"

definition store_bytes :: "ptr \<Rightarrow> nat \<Rightarrow> byte list \<Rightarrow> host \<Rightarrow> host option" where
  "store_bytes p off xs h =
     do { bs \<leftarrow> get_bytes h p;
          if off + length xs \<le> length bs then Some (put_cell p (Bytes (splice_at off xs bs)) h)
          else None }"

text \<open>
  Objects with automatic or static storage: they take an address of their own and no call
  of \<open>malloc\<close>. \<open>drop_locals\<close> ends their lifetime.
\<close>

definition local_cell :: "cell \<Rightarrow> host \<Rightarrow> ptr \<times> host" where
  "local_cell c h = (Ptr (hp_next h),
     h\<lparr>hp_next := Suc (hp_next h), hp_cells := (hp_cells h)(hp_next h \<mapsto> c)\<rparr>)"

fun drop_local :: "ptr \<Rightarrow> host \<Rightarrow> host" where
  "drop_local (Ptr a) h = h\<lparr>hp_cells := (hp_cells h)(a := None)\<rparr>"
| "drop_local p h = h"

text \<open>\<open>printf ("%s", p)\<close> reads up to a NUL byte, which must lie inside the cell.\<close>

definition prints_string :: "ptr \<Rightarrow> host \<Rightarrow> unit option" where
  "prints_string p h = do { bs \<leftarrow> get_bytes h p; if 0 \<in> set bs then Some () else None }"

text \<open>The bytes of a \<open>uint64_t\<close> object as this host stores them.\<close>

definition repr64 :: "bool \<Rightarrow> u64 \<Rightarrow> byte list" where
  "repr64 big w = (if big then rev (le_bytes 8 w) else le_bytes 8 w)"

definition value64 :: "bool \<Rightarrow> byte list \<Rightarrow> u64" where
  "value64 big bs = (if big then le_word (rev bs) else le_word bs)"

section \<open>Facts about the primitives\<close>

lemma value64_repr64 [simp]: "value64 big (repr64 big w) = w"
  by (simp add: value64_def repr64_def le_word_le_bytes)

lemma repr64_value64: "length bs = 8 \<Longrightarrow> repr64 big (value64 big bs) = bs"
proof -
  assume l: "length bs = 8"
  have "le_bytes 8 (le_word bs :: u64) = bs" and "le_bytes 8 (le_word (rev bs) :: u64) = rev bs"
    using le_bytes_le_word [of bs, where 'a = 64] le_bytes_le_word [of "rev bs", where 'a = 64] l
    by simp_all
  then show ?thesis by (simp add: repr64_def value64_def)
qed

lemma length_repr64 [simp]: "length (repr64 big w) = 8"
  by (simp add: repr64_def)

lemma length_junk_bytes [simp]: "length (junk_bytes h n) = n"
  by (simp add: junk_bytes_def)

lemma get_stream_Some:
  "get_stream h p = Some s \<longleftrightarrow> (\<exists>a. p = Ptr a \<and> hp_cells h a = Some (StreamCell s))"
  by (cases p) (auto split: option.splits cell.splits)

lemma get_mem_Some:
  "get_mem h p = Some m \<longleftrightarrow> (\<exists>a. p = Ptr a \<and> hp_cells h a = Some (MemCell m))"
  by (cases p) (auto split: option.splits cell.splits)

lemma get_bytes_Some:
  "get_bytes h p = Some bs \<longleftrightarrow> (\<exists>a. p = Ptr a \<and> hp_cells h a = Some (Bytes bs))"
  by (cases p) (auto split: option.splits cell.splits)

lemmas get_Some = get_stream_Some get_mem_Some get_bytes_Some

text \<open>Writing one kind of cell leaves the cells of the other kinds as they were.\<close>

lemma put_cell_other [host_simps]:
  "get_bytes h q = Some bs \<Longrightarrow> get_stream h p = Some s \<Longrightarrow>
     get_bytes (put_cell p (StreamCell s') h) q = Some bs"
  "get_bytes h q = Some bs \<Longrightarrow> get_mem h p = Some m \<Longrightarrow>
     get_bytes (put_cell p (MemCell m') h) q = Some bs"
  "get_stream h q = Some s \<Longrightarrow> get_bytes h p = Some bs \<Longrightarrow>
     get_stream (put_cell p (Bytes bs') h) q = Some s"
  "get_stream h q = Some s \<Longrightarrow> get_mem h p = Some m \<Longrightarrow>
     get_stream (put_cell p (MemCell m') h) q = Some s"
  "get_mem h q = Some m \<Longrightarrow> get_bytes h p = Some bs \<Longrightarrow>
     get_mem (put_cell p (Bytes bs') h) q = Some m"
  "get_mem h q = Some m \<Longrightarrow> get_stream h p = Some s \<Longrightarrow>
     get_mem (put_cell p (StreamCell s') h) q = Some m"
  by (auto simp: get_Some)

lemma put_cell_same [host_simps]:
  "get_stream h p = Some s \<Longrightarrow> get_stream (put_cell p (StreamCell s') h) p = Some s'"
  "get_mem h p = Some m \<Longrightarrow> get_mem (put_cell p (MemCell m') h) p = Some m'"
  "get_bytes h p = Some bs \<Longrightarrow> get_bytes (put_cell p (Bytes bs') h) p = Some bs'"
  by (auto simp: get_Some)

lemma put_cell_frame [simp]:
  "hp_next (put_cell p c h) = hp_next h" "hp_plan (put_cell p c h) = hp_plan h"
  "hp_junk (put_cell p c h) = hp_junk h" "big_endian (put_cell p c h) = big_endian h"
  by (cases p; simp)+

text \<open>The cells in use lie below \<open>hp_next\<close>, so that a fresh address is fresh.\<close>

definition host_ok :: "host \<Rightarrow> bool" where
  "host_ok h \<longleftrightarrow> (\<forall>a \<ge> hp_next h. hp_cells h a = None)"

definition live :: "host \<Rightarrow> nat set" where
  "live h = dom (hp_cells h)"

lemma halloc_ok [invariant_intros]: "host_ok h \<Longrightarrow> halloc c h = (p, h') \<Longrightarrow> host_ok h'"
  by (auto simp: halloc_def host_ok_def split: list.splits bool.splits)

lemma hfree_ok [invariant_intros]: "host_ok h \<Longrightarrow> hfree p h = Some h' \<Longrightarrow> host_ok h'"
  by (cases p) (auto simp: host_ok_def split: option.splits)

lemma put_cell_ok [invariant_intros]:
  "host_ok h \<Longrightarrow> p = Ptr a \<Longrightarrow> hp_cells h a = Some c' \<Longrightarrow> host_ok (put_cell p c h)"
  by (auto simp: host_ok_def)

lemma halloc_cases:
  assumes "halloc c h = (p, h')"
  obtains (failed) "p = Null" "hp_cells h' = hp_cells h" "hp_next h' = hp_next h"
      "hp_junk h' = hp_junk h" "big_endian h' = big_endian h" "hp_plan h = False # hp_plan h'"
    | (fresh) "p = Ptr (hp_next h)" "hp_cells h' = (hp_cells h)(hp_next h \<mapsto> c)"
      "hp_next h' = Suc (hp_next h)" "hp_junk h' = hp_junk h" "big_endian h' = big_endian h"
      "hp_plan h' = tl (hp_plan h)"
  using assms by (auto simp: halloc_def split: list.splits bool.splits)

lemma halloc_not_Wild: "halloc c h = (p, h') \<Longrightarrow> p \<noteq> Wild"
  by (erule halloc_cases) auto

lemma halloc_success:
  "hp_plan h = [] \<Longrightarrow> halloc c h =
     (Ptr (hp_next h), h\<lparr>hp_next := Suc (hp_next h), hp_cells := (hp_cells h)(hp_next h \<mapsto> c)\<rparr>)"
  by (simp add: halloc_def)

lemma halloc_frame:
  assumes "halloc c h = (p, h')" and "host_ok h"
  shows "get_stream h q = Some s \<Longrightarrow> get_stream h' q = Some s"
    and "get_mem h q = Some m \<Longrightarrow> get_mem h' q = Some m"
    and "get_bytes h q = Some bs \<Longrightarrow> get_bytes h' q = Some bs"
  using assms by (auto simp: get_Some host_ok_def elim!: halloc_cases)

text \<open>Whether the next call of \<open>malloc\<close> succeeds, and what it does either way.\<close>

definition malloc_ok :: "host \<Rightarrow> bool" where
  "malloc_ok h \<longleftrightarrow> hp_plan h = [] \<or> hd (hp_plan h)"

lemma halloc_malloc_ok [host_simps]:
  "malloc_ok h \<Longrightarrow> halloc c h =
     (Ptr (hp_next h), h\<lparr>hp_plan := tl (hp_plan h), hp_next := Suc (hp_next h),
        hp_cells := (hp_cells h)(hp_next h \<mapsto> c)\<rparr>)"
  by (auto simp: halloc_def malloc_ok_def split: list.splits bool.splits)

lemma halloc_malloc_fail [host_simps]:
  "\<not> malloc_ok h \<Longrightarrow> halloc c h = (Null, h\<lparr>hp_plan := tl (hp_plan h)\<rparr>)"
  by (auto simp: halloc_def malloc_ok_def split: list.splits bool.splits)

lemma host_ok_fresh: "host_ok h \<Longrightarrow> hp_cells h (hp_next h) = None"
  by (simp add: host_ok_def)

text \<open>Two hosts that differ at most in the cells \<open>A\<close>.\<close>

definition frame :: "nat set \<Rightarrow> host \<Rightarrow> host \<Rightarrow> bool" where
  "frame A h h' \<longleftrightarrow> (\<forall>a. a \<notin> A \<longrightarrow> hp_cells h' a = hp_cells h a) \<and> hp_next h' = hp_next h \<and>
     hp_plan h' = hp_plan h \<and> hp_junk h' = hp_junk h \<and> big_endian h' = big_endian h"

lemma frame_refl [simp]: "frame A h h"
  by (simp add: frame_def)

lemma frame_trans: "frame A h h' \<Longrightarrow> frame A h' h'' \<Longrightarrow> frame A h h''"
  by (simp add: frame_def)

lemma frame_put_cell: "a \<in> A \<Longrightarrow> frame A h (put_cell (Ptr a) c h)"
  by (auto simp: frame_def)

lemma frame_host_ok:
  "frame A h h' \<Longrightarrow> host_ok h \<Longrightarrow> (\<And>a. a \<in> A \<Longrightarrow> a < hp_next h) \<Longrightarrow> host_ok h'"
  unfolding frame_def host_ok_def by (metis not_le)

end
