(* ===== verification/ByteStream.thy ===== *)
theory ByteStream
  imports Host
begin

text \<open>
  The byte streams of RSApi/rsa_buffer_utils.c: creation and release, serialisation of
  64-bit integers and blobs in network byte order, and the transfer over a socket.
  Each function takes its pointer arguments (\<open>None\<close> for an out-parameter that is NULL,
  \<open>Some v\<close> for one whose target holds \<open>v\<close>) and returns the C return code, the new
  targets and the new host, or \<open>None\<close> where the C code has undefined behaviour.
\<close>

section \<open>Return codes (RSApi/defines.h)\<close>

type_synonym rc = int

definition NO_ERROR :: rc where [simp]: "NO_ERROR = 0"
definition ARG_ERROR :: rc where [simp]: "ARG_ERROR = -100"
definition PTR_ERROR :: rc where [simp]: "PTR_ERROR = -200"
definition COM_ERROR :: rc where [simp]: "COM_ERROR = -300"
definition RSA_MAX_BUFFER_LENGTH :: u64 where "RSA_MAX_BUFFER_LENGTH = NOT 0"
definition PAGESIZE :: nat where "PAGESIZE = 4096"

section \<open>Creation and release\<close>

definition rsa_buffer_cleanup_buffer :: "ptr \<Rightarrow> host \<Rightarrow> host option" where
  "rsa_buffer_cleanup_buffer p h = do {
     t \<leftarrow> ptr_true p;
     if \<not> t then Some h
     else do {
       s \<leftarrow> get_stream h p;
       u \<leftarrow> ptr_true (pBuffer s);
       h1 \<leftarrow> (if u then do { h' \<leftarrow> hfree (pBuffer s) h; set_stream p (s\<lparr>pBuffer := Null\<rparr>) h' }
             else Some h);
       hfree p h1 } }"

definition rsa_buffer_init_buffer ::
  "u64 \<Rightarrow> ptr option \<Rightarrow> host \<Rightarrow> (rc \<times> ptr option \<times> host) option" where
  "rsa_buffer_init_buffer szMaxSize0 ppByteStream h =
     (let fail = (\<lambda>rc p h. do { h' \<leftarrow> rsa_buffer_cleanup_buffer p h;
                               Some (rc, map_option (\<lambda>_. Null) ppByteStream, h') })
      in if ppByteStream = None \<or> szMaxSize0 < 1 \<or> szMaxSize0 > RSA_MAX_BUFFER_LENGTH
         then fail ARG_ERROR Null h
         else let (p, h1) = malloc_stream h
              in if p = Null then fail PTR_ERROR Null h1
                 else let (q, h2) = malloc_bytes szMaxSize0 h1
                      in do {
                        s \<leftarrow> get_stream h2 p;
                        h3 \<leftarrow> set_stream p (s\<lparr>pBuffer := q\<rparr>) h2;
                        if q = Null then fail PTR_ERROR p h3
                        else do {
                          h4 \<leftarrow> set_stream p \<lparr>pBuffer = q, szWriteCur = 0, szReadCur = 0,
                                             szMaxSize = szMaxSize0\<rparr> h3;
                          Some (NO_ERROR, Some p, h4) } })"

section \<open>Room checks and byte order\<close>

definition rsa_buffer_can_write_to_buffer :: "byte_stream \<Rightarrow> u64 \<Rightarrow> bool" where
  "rsa_buffer_can_write_to_buffer s szDataLen \<longleftrightarrow> szWriteCur s + szDataLen \<le> szMaxSize s"

definition rsa_buffer_can_read_from_buffer :: "byte_stream \<Rightarrow> u64 \<Rightarrow> bool" where
  "rsa_buffer_can_read_from_buffer s szDataLen \<longleftrightarrow> szReadCur s + szDataLen \<le> szMaxSize s"

text \<open>
  \<open>EndianDetect.cData[0] == 1\<close>: the first byte in memory of the \<open>uint32_t\<close>
  \<open>0x01020304\<close>.
\<close>

definition rsa_is_big_endian :: "bool \<Rightarrow> bool" where
  "rsa_is_big_endian big \<longleftrightarrow>
     (let bs = le_bytes 4 (0x01020304 :: u32) in (if big then rev bs else bs) ! 0 = 1)"

text \<open>The loop \<open>for (uInIdx = szSize; uOutIdx < szSize && uInIdx--; ++uOutIdx)\<close>.\<close>

function ntohll_loop :: "byte list \<Rightarrow> nat \<Rightarrow> byte list \<Rightarrow> nat \<Rightarrow> nat \<Rightarrow> byte list" where
  "ntohll_loop pIn szSize pOut uInIdx uOutIdx =
     (if uOutIdx < szSize \<and> uInIdx \<noteq> 0
      then ntohll_loop pIn szSize (pOut[uOutIdx := pIn ! (uInIdx - 1)]) (uInIdx - 1) (uOutIdx + 1)
      else pOut)"
  by pat_completeness auto
termination
  by (relation "measure (\<lambda>(pIn, szSize, pOut, uInIdx, uOutIdx). uInIdx)") auto

declare ntohll_loop.simps [simp del]

definition rsa_ntohll :: "bool \<Rightarrow> byte list option \<Rightarrow> byte list option \<Rightarrow> rc \<times> byte list option" where
  "rsa_ntohll big pIn pOut =
     (case (pIn, pOut) of
        (Some i, Some out) \<Rightarrow>
          (NO_ERROR, Some (if \<not> rsa_is_big_endian big then ntohll_loop i 8 out 8 0 else i))
      | _ \<Rightarrow> (ARG_ERROR, pOut))"

section \<open>Serialisation\<close>

definition rsa_buffer_serialize_uint64 :: "u64 \<Rightarrow> ptr \<Rightarrow> host \<Rightarrow> (rc \<times> host) option" where
  "rsa_buffer_serialize_uint64 unData pByteStream h = do {
     t \<leftarrow> ptr_true pByteStream;
     if \<not> t then Some (ARG_ERROR, h)
     else do {
       s \<leftarrow> get_stream h pByteStream;
       if \<not> rsa_buffer_can_write_to_buffer s 8 then Some (COM_ERROR, h)
       else case rsa_ntohll (big_endian h) (Some (repr64 (big_endian h) unData))
                   (Some (repr64 (big_endian h) 0)) of
         (rc, unHtoNsData) \<Rightarrow>
           if rc \<noteq> 0 then Some (rc, h)
           else do {
             bytes \<leftarrow> unHtoNsData;
             h1 \<leftarrow> store_bytes (pBuffer s) (unat (szWriteCur s)) bytes h;
             h2 \<leftarrow> set_stream pByteStream (s\<lparr>szWriteCur := szWriteCur s + 8\<rparr>) h1;
             Some (rc, h2) } } }"

definition rsa_buffer_serialize_blob ::
  "ptr \<Rightarrow> u64 \<Rightarrow> ptr \<Rightarrow> host \<Rightarrow> (rc \<times> host) option" where
  "rsa_buffer_serialize_blob pData unSize pByteStream h = do {
     t \<leftarrow> ptr_true pByteStream;
     u \<leftarrow> (if t then ptr_true pData else Some True);
     if \<not> t \<or> \<not> u \<or> unSize < 0 then Some (ARG_ERROR, h)
     else do {
       s \<leftarrow> get_stream h pByteStream;
       if \<not> rsa_buffer_can_write_to_buffer s unSize then Some (COM_ERROR, h)
       else do {
         bytes \<leftarrow> load_bytes h pData 0 (unat unSize);
         h1 \<leftarrow> store_bytes (pBuffer s) (unat (szWriteCur s)) bytes h;
         h2 \<leftarrow> set_stream pByteStream (s\<lparr>szWriteCur := szWriteCur s + unSize\<rparr>) h1;
         Some (NO_ERROR, h2) } } }"

definition rsa_buffer_deserialize_uint64 ::
  "ptr \<Rightarrow> u64 option \<Rightarrow> host \<Rightarrow> (rc \<times> u64 option \<times> host) option" where
  "rsa_buffer_deserialize_uint64 pByteStream punData h =
     (let fail = (\<lambda>rc h. Some (rc, map_option (\<lambda>_. 0) punData, h))
      in do {
        t \<leftarrow> ptr_true pByteStream;
        if \<not> t \<or> punData = None then fail ARG_ERROR h
        else do {
          s \<leftarrow> get_stream h pByteStream;
          if \<not> rsa_buffer_can_read_from_buffer s 8 then fail COM_ERROR h
          else do {
            uNsToHData \<leftarrow> load_bytes h (pBuffer s) (unat (szReadCur s)) 8;
            h1 \<leftarrow> set_stream pByteStream (s\<lparr>szReadCur := szReadCur s + 8\<rparr>) h;
            case rsa_ntohll (big_endian h) (Some uNsToHData) (Some (repr64 (big_endian h) 0)) of
              (rc, unData) \<Rightarrow>
                if rc \<noteq> 0 then fail rc h1
                else Some (rc, map_option (value64 (big_endian h)) unData, h1) } } })"

definition rsa_buffer_deserialize_blob ::
  "ptr \<Rightarrow> u64 \<Rightarrow> ptr option \<Rightarrow> host \<Rightarrow> (rc \<times> ptr option \<times> host) option" where
  "rsa_buffer_deserialize_blob pByteStream unSize ppData h =
     (let fail = (\<lambda>rc h. Some (rc, map_option (\<lambda>_. Null) ppData, h))
      in do {
        t \<leftarrow> ptr_true pByteStream;
        if \<not> t \<or> ppData = None \<or> unSize < 0 then fail ARG_ERROR h
        else do {
          s \<leftarrow> get_stream h pByteStream;
          if \<not> rsa_buffer_can_read_from_buffer s unSize then fail COM_ERROR h
          else case malloc_bytes unSize h of
            (pData, h1) \<Rightarrow>
              if pData = Null then fail PTR_ERROR h1
              else do {
                bytes \<leftarrow> load_bytes h1 (pBuffer s) (unat (szReadCur s)) (unat unSize);
                h2 \<leftarrow> store_bytes pData 0 bytes h1;
                h3 \<leftarrow> set_stream pByteStream (s\<lparr>szReadCur := szReadCur s + unSize\<rparr>) h2;
                Some (NO_ERROR, Some pData, h3) } } })"

section \<open>Transfer over a socket\<close>

text \<open>
  The kernel's side of a connected socket: \<open>nt_send\<close> says how the coming calls of
  \<open>send\<close> go (an error, or how many bytes it is willing to take; once the list is used up
  it takes all it is offered), \<open>nt_recv\<close> the chunks that arrive (\<open>None\<close> for an error;
  once the list is used up the peer has closed), \<open>nt_sent\<close> the bytes accepted so far.
\<close>

datatype send_step = SendFails | SendUpTo nat

record net =
  nt_send :: "send_step list"
  nt_recv :: "byte list option list"
  nt_sent :: "byte list"

fun sys_send :: "byte list \<Rightarrow> net \<Rightarrow> int \<times> net" where
  "sys_send data nt =
     (case nt_send nt of
        [] \<Rightarrow> (int (length data), nt\<lparr>nt_sent := nt_sent nt @ data\<rparr>)
      | SendFails # r \<Rightarrow> (-1, nt\<lparr>nt_send := r\<rparr>)
      | SendUpTo k # r \<Rightarrow>
          (int (min k (length data)), nt\<lparr>nt_send := r, nt_sent := nt_sent nt @ take k data\<rparr>))"

fun sys_recv :: "nat \<Rightarrow> net \<Rightarrow> int \<times> byte list \<times> net" where
  "sys_recv n nt =
     (case nt_recv nt of
        [] \<Rightarrow> (0, [], nt)
      | None # r \<Rightarrow> (-1, [], nt\<lparr>nt_recv := r\<rparr>)
      | Some c # r \<Rightarrow>
          if length c \<le> n then (int (length c), c, nt\<lparr>nt_recv := r\<rparr>)
          else (int n, take n c, nt\<lparr>nt_recv := Some (drop n c) # r\<rparr>))"

text \<open>
  The \<open>while\<close> loop of \<open>rsa_buffer_write_to_socket\<close>. The counters are C \<open>int\<close>s, and the
  comparison with the \<open>size_t\<close> write cursor converts them to 64 bits. The result is
  \<open>(iTotalSent, iSent)\<close>; \<open>None\<close> covers undefined behaviour and a loop that never ends.
\<close>

partial_function (option) send_loop ::
  "ptr \<Rightarrow> u64 \<Rightarrow> host \<Rightarrow> u32 \<Rightarrow> u32 \<Rightarrow> u32 \<Rightarrow> net \<Rightarrow> (u32 \<times> u32 \<times> net) option" where
  "send_loop buf wcur h iTotalSent iBytesLeft iSent nt =
     (if (scast iTotalSent :: u64) < wcur
      then if sint iTotalSent < 0 then None
           else Option.bind
             (load_bytes h buf (nat (sint iTotalSent)) (unat (scast iBytesLeft :: u64)))
             (\<lambda>data. case sys_send data nt of (r, nt') \<Rightarrow>
                let iSent' = word_of_int r in
                if iSent' = -1 then Some (iTotalSent, iSent', nt')
                else send_loop buf wcur h (iTotalSent + iSent') (iBytesLeft - iSent') iSent' nt')
      else Some (iTotalSent, iSent, nt))"

definition rsa_buffer_write_to_socket ::
  "int \<Rightarrow> ptr \<Rightarrow> u32 option \<Rightarrow> host \<Rightarrow> net \<Rightarrow> (rc \<times> u32 option \<times> net) option" where
  "rsa_buffer_write_to_socket sockfd pByteStream piBytesSent h nt =
     (let finish = (\<lambda>rc iTotalSent nt.
        if piBytesSent = None then None else Some (rc, Some iTotalSent, nt))
      in do {
        t \<leftarrow> (if sockfd < 0 then Some False else ptr_true pByteStream);
        if \<not> t \<or> piBytesSent = None then finish ARG_ERROR 0 nt
        else do {
          s \<leftarrow> get_stream h pByteStream;
          (iTotalSent, iSent, nt') \<leftarrow>
            send_loop (pBuffer s) (szWriteCur s) h 0 (ucast (szWriteCur s)) 0 nt;
          finish (if iSent = -1 then COM_ERROR else NO_ERROR) iTotalSent nt' } })"

definition rsa_buffer_read_from_socket ::
  "int \<Rightarrow> ptr \<Rightarrow> u32 option \<Rightarrow> host \<Rightarrow> net \<Rightarrow> (rc \<times> u32 option \<times> host \<times> net) option" where
  "rsa_buffer_read_from_socket sockfd pByteStream piBytesRead h nt =
     (let finish = (\<lambda>rc iBytesRead h nt.
        if piBytesRead = None then None else Some (rc, Some iBytesRead, h, nt))
      in do {
        t \<leftarrow> (if sockfd < 0 then Some False else ptr_true pByteStream);
        if \<not> t \<or> piBytesRead = None then finish ARG_ERROR 0 h nt
        else do {
          s \<leftarrow> get_stream h pByteStream;
          case sys_recv (unat (szMaxSize s)) nt of (r, data, nt') \<Rightarrow> do {
            h1 \<leftarrow> store_bytes (pBuffer s) 0 data h;
            let iBytesRead = (word_of_int r :: u32);
            if iBytesRead = -1 then finish COM_ERROR iBytesRead h1 nt'
            else do {
              h2 \<leftarrow> set_stream pByteStream (s\<lparr>szWriteCur := scast iBytesRead\<rparr>) h1;
              finish NO_ERROR iBytesRead h2 nt' } } } })"

section \<open>The stream invariant\<close>

text \<open>
  Pointer \<open>p\<close> is a stream with fields \<open>s\<close> whose buffer holds \<open>bs\<close>: the buffer has the
  capacity the structure says (below \<open>PTRDIFF_MAX\<close>, as every C object is) and both
  cursors stay within it.
\<close>

definition stream_at :: "host \<Rightarrow> ptr \<Rightarrow> byte_stream \<Rightarrow> byte list \<Rightarrow> bool" where
  "stream_at h p s bs \<longleftrightarrow>
     get_stream h p = Some s \<and> get_bytes h (pBuffer s) = Some bs \<and>
     length bs = unat (szMaxSize s) \<and> length bs < 2 ^ 63 \<and>
     unat (szWriteCur s) \<le> length bs \<and> unat (szReadCur s) \<le> length bs"

definition appended :: "ptr \<Rightarrow> byte_stream \<Rightarrow> byte list \<Rightarrow> byte list \<Rightarrow> host \<Rightarrow> host" where
  "appended p s bs xs h =
     put_cell p (StreamCell (s\<lparr>szWriteCur := szWriteCur s + of_nat (length xs)\<rparr>))
       (put_cell (pBuffer s) (Bytes (splice_at (unat (szWriteCur s)) xs bs)) h)"

lemma appended_frame:
  "pBuffer s = Ptr b \<Longrightarrow> frame {a, b} h (appended (Ptr a) s bs xs h)"
  by (simp add: appended_def frame_def)

lemma stream_at_simps:
  assumes "stream_at h p s bs"
  shows "get_stream h p = Some s" "get_bytes h (pBuffer s) = Some bs" "ptr_true p = Some True"
    "ptr_true (pBuffer s) = Some True"
  using assms by (auto simp: stream_at_def get_Some)

lemma unat_plus_of_nat:
  "unat c + n < 2 ^ 64 \<Longrightarrow> unat (c + of_nat n :: u64) = unat c + n"
  by (simp add: unat_add_nowrap unat_of_nat take_bit_nat_eq_self)

lemma stream_at_appended [invariant_intros]:
  assumes "stream_at h p s bs" and "unat (szWriteCur s) + length xs \<le> length bs"
  shows "stream_at (appended p s bs xs h) p
           (s\<lparr>szWriteCur := szWriteCur s + of_nat (length xs)\<rparr>)
           (splice_at (unat (szWriteCur s)) xs bs)"
proof -
  let ?h1 = "put_cell (pBuffer s) (Bytes (splice_at (unat (szWriteCur s)) xs bs)) h"
  from assms(1) have g: "get_stream h p = Some s" "get_bytes h (pBuffer s) = Some bs"
    by (simp_all add: stream_at_simps)
  then have g1: "get_stream ?h1 p = Some s"
    "get_bytes ?h1 (pBuffer s) = Some (splice_at (unat (szWriteCur s)) xs bs)"
    by (simp_all add: host_simps)
  moreover have "unat (szWriteCur s + of_nat (length xs)) = unat (szWriteCur s) + length xs"
    using assms by (intro unat_plus_of_nat) (simp add: stream_at_def)
  ultimately show ?thesis
    using assms by (simp add: stream_at_def appended_def put_cell_same put_cell_other(1) [OF g1(2,1)])
qed

section \<open>Byte order\<close>

definition net_bytes :: "u64 \<Rightarrow> byte list" where
  "net_bytes w = rev (le_bytes 8 w)"

lemma length_net_bytes [simp]: "length (net_bytes w) = 8"
  by (simp add: net_bytes_def)

lemma le_bytes_probe: "le_bytes 4 (0x01020304 :: u32) = [4, 3, 2, 1]"
  by code_simp

lemma rsa_is_big_endian_host: "rsa_is_big_endian big = big"
  by (simp add: rsa_is_big_endian_def le_bytes_probe)

lemma ntohll_loop_rev:
  "k + j = length pIn \<Longrightarrow> length pOut = length pIn \<Longrightarrow>
   ntohll_loop pIn (length pIn) pOut k j = take j pOut @ rev (take k pIn)"
proof (induction k arbitrary: j pOut)
  case 0
  then show ?case by (simp add: ntohll_loop.simps)
next
  case (Suc k)
  then have "j < length pIn" by simp
  then have "ntohll_loop pIn (length pIn) pOut (Suc k) j
      = ntohll_loop pIn (length pIn) (pOut[j := pIn ! k]) k (j + 1)"
    by (simp add: ntohll_loop.simps [of _ _ _ "Suc k"])
  also have "\<dots> = take (j + 1) (pOut[j := pIn ! k]) @ rev (take k pIn)"
    using Suc.prems by (intro Suc.IH) simp_all
  also have "\<dots> = take j pOut @ rev (take (Suc k) pIn)"
    using Suc.prems by (simp add: take_Suc_conv_app_nth take_update_cancel)
  finally show ?case .
qed

lemma rsa_ntohll_rev:
  assumes "length i = 8" and "length out = 8"
  shows "rsa_ntohll big (Some i) (Some out) = (NO_ERROR, Some (if big then i else rev i))"
  using ntohll_loop_rev [of 8 0 i out] assms
  by (simp add: rsa_ntohll_def rsa_is_big_endian_host)

lemma rsa_ntohll_to_net [simp]:
  "rsa_ntohll big (Some (repr64 big w)) (Some (repr64 big v)) = (NO_ERROR, Some (net_bytes w))"
  by (simp add: rsa_ntohll_rev) (simp add: repr64_def net_bytes_def)

lemma rsa_ntohll_to_host [simp]:
  "rsa_ntohll big (Some (net_bytes w)) (Some (repr64 big v)) = (NO_ERROR, Some (repr64 big w))"
  by (simp add: rsa_ntohll_rev) (simp add: repr64_def net_bytes_def)

section \<open>Room checks\<close>

lemma can_write_iff:
  "unat (szWriteCur s) + unat n < 2 ^ 64 \<Longrightarrow>
   rsa_buffer_can_write_to_buffer s n \<longleftrightarrow> unat (szWriteCur s) + unat n \<le> unat (szMaxSize s)"
  by (simp add: rsa_buffer_can_write_to_buffer_def word_le_nat_alt unat_add_nowrap)

lemma can_read_iff:
  "unat (szReadCur s) + unat n < 2 ^ 64 \<Longrightarrow>
   rsa_buffer_can_read_from_buffer s n \<longleftrightarrow> unat (szReadCur s) + unat n \<le> unat (szMaxSize s)"
  by (simp add: rsa_buffer_can_read_from_buffer_def word_le_nat_alt unat_add_nowrap)

section \<open>Writers\<close>

text \<open>
  What the message layer relies on when it writes a value to a stream: where the value fits
  its encoding is appended, where it does not the stream is left as it was and the call
  reports \<open>COM_ERROR\<close>.
\<close>

locale wire_writer =
  fixes put :: "'v \<Rightarrow> ptr \<Rightarrow> host \<Rightarrow> (rc \<times> host) option"
    and enc :: "'v \<Rightarrow> byte list"
    and valid :: "host \<Rightarrow> ptr \<Rightarrow> 'v \<Rightarrow> bool"
  assumes put_room: "stream_at h p s bs \<Longrightarrow> valid h (pBuffer s) v \<Longrightarrow>
      unat (szWriteCur s) + length (enc v) \<le> length bs \<Longrightarrow>
      put v p h = Some (NO_ERROR, appended p s bs (enc v) h)"
    and put_full: "stream_at h p s bs \<Longrightarrow> valid h (pBuffer s) v \<Longrightarrow>
      length bs < unat (szWriteCur s) + length (enc v) \<Longrightarrow>
      put v p h = Some (COM_ERROR, h)"
    and valid_appended: "stream_at h p s bs \<Longrightarrow> valid h (pBuffer s) v \<Longrightarrow>
      valid (appended p s bs xs h) (pBuffer s) v"
begin

text \<open>A write never has undefined behaviour and keeps the stream invariant.\<close>

lemma put_total:
  assumes "stream_at h p s bs" and "valid h (pBuffer s) v"
  shows "\<exists>rc h' s' bs'. put v p h = Some (rc, h') \<and> stream_at h' p s' bs' \<and>
           rc \<in> {NO_ERROR, COM_ERROR} \<and> pBuffer s' = pBuffer s \<and> length bs' = length bs"
proof (cases "unat (szWriteCur s) + length (enc v) \<le> length bs")
  case True
  then show ?thesis
    using put_room [OF assms True] stream_at_appended [OF assms(1) True]
    by (fastforce simp: length_splice_at)
next
  case False
  then show ?thesis using put_full [OF assms] assms(1) by fastforce
qed

end

text \<open>
  \<open>rc = a; BAIL_ERROR(rc);\<close> followed by the rest of the function: a return code other
  than 0 ends the sequence.
\<close>

definition bail_then :: "(rc \<times> 's) option \<Rightarrow> ('s \<Rightarrow> (rc \<times> 's) option) \<Rightarrow> (rc \<times> 's) option" where
  "bail_then a f = do { (rc, s) \<leftarrow> a; if rc \<noteq> 0 then Some (rc, s) else f s }"

lemma bail_then_simps [simp]:
  "bail_then (Some (0, s)) f = f s"
  "rc \<noteq> 0 \<Longrightarrow> bail_then (Some (rc, s)) f = Some (rc, s)"
  "bail_then None f = None"
  by (simp_all add: bail_then_def)

lemma bail_then_assoc: "bail_then a (\<lambda>s. bail_then (b s) f) = bail_then (bail_then a b) f"
  by (cases a) (auto simp: bail_then_def)

locale wire_pair =
  a: wire_writer put1 enc1 valid1 + b: wire_writer put2 enc2 valid2
  for put1 :: "'v \<Rightarrow> ptr \<Rightarrow> host \<Rightarrow> (rc \<times> host) option" and enc1 valid1
    and put2 :: "'w \<Rightarrow> ptr \<Rightarrow> host \<Rightarrow> (rc \<times> host) option" and enc2 valid2
begin

lemma put_both:
  assumes st: "stream_at h p s bs" and v: "valid1 h (pBuffer s) v" and w: "valid2 h (pBuffer s) w"
    and room: "unat (szWriteCur s) + length (enc1 v) + length (enc2 w) \<le> length bs"
  shows "\<exists>h'. bail_then (put1 v p h) (put2 w p) = Some (NO_ERROR, h') \<and>
    stream_at h' p (s\<lparr>szWriteCur := szWriteCur s + of_nat (length (enc1 v) + length (enc2 w))\<rparr>)
      (splice_at (unat (szWriteCur s)) (enc1 v @ enc2 w) bs) \<and>
    (\<forall>a b. p = Ptr a \<longrightarrow> pBuffer s = Ptr b \<longrightarrow> frame {a, b} h h')"
proof -
  let ?s1 = "s\<lparr>szWriteCur := szWriteCur s + of_nat (length (enc1 v))\<rparr>"
  let ?b1 = "splice_at (unat (szWriteCur s)) (enc1 v) bs"
  let ?h1 = "appended p s bs (enc1 v) h"
  have fits: "unat (szWriteCur s) + length (enc1 v) \<le> length bs" using room by simp
  have p1: "put1 v p h = Some (NO_ERROR, ?h1)" using a.put_room [OF st v fits] .
  have st1: "stream_at ?h1 p ?s1 ?b1" using st fits by (rule stream_at_appended)
  have w1: "valid2 ?h1 (pBuffer ?s1) w" using b.valid_appended [OF st w] by simp
  have u1: "unat (szWriteCur ?s1) = unat (szWriteCur s) + length (enc1 v)"
    using st fits by (simp add: unat_plus_of_nat stream_at_def)
  have fits2: "unat (szWriteCur ?s1) + length (enc2 w) \<le> length ?b1"
    using room fits u1 by simp
  have "splice_at (unat (szWriteCur ?s1)) (enc2 w) ?b1
      = splice_at (unat (szWriteCur s)) (enc1 v @ enc2 w) bs"
    using fits room u1 by (simp add: splice_at_def ac_simps)
  moreover have "frame {a, b} h (appended p ?s1 ?b1 (enc2 w) ?h1)" if "p = Ptr a" "pBuffer s = Ptr b" for a b
    using that appended_frame [of s b a h bs "enc1 v"] appended_frame [of ?s1 b a ?h1 ?b1 "enc2 w"]
    by (auto intro: frame_trans)
  ultimately show ?thesis
    using b.put_room [OF st1 w1 fits2] stream_at_appended [OF st1 fits2] p1 by (simp add: add.assoc)
qed

lemma put_both_full:
  assumes st: "stream_at h p s bs" and v: "valid1 h (pBuffer s) v" and w: "valid2 h (pBuffer s) w"
    and full: "length bs < unat (szWriteCur s) + length (enc1 v) + length (enc2 w)"
  shows "\<exists>h' s' bs'. bail_then (put1 v p h) (put2 w p) = Some (COM_ERROR, h') \<and>
    stream_at h' p s' bs'"
proof (cases "unat (szWriteCur s) + length (enc1 v) \<le> length bs")
  case True
  let ?s1 = "s\<lparr>szWriteCur := szWriteCur s + of_nat (length (enc1 v))\<rparr>"
  let ?b1 = "splice_at (unat (szWriteCur s)) (enc1 v) bs"
  let ?h1 = "appended p s bs (enc1 v) h"
  have p1: "put1 v p h = Some (NO_ERROR, ?h1)" using a.put_room [OF st v True] .
  have st1: "stream_at ?h1 p ?s1 ?b1" using st True by (rule stream_at_appended)
  have w1: "valid2 ?h1 (pBuffer ?s1) w" using b.valid_appended [OF st w] by simp
  have u1: "unat (szWriteCur ?s1) = unat (szWriteCur s) + length (enc1 v)"
    using st True by (simp add: unat_plus_of_nat stream_at_def)
  have "length ?b1 < unat (szWriteCur ?s1) + length (enc2 w)"
    using full u1 True by simp
  from b.put_full [OF st1 w1 this] p1 st1 show ?thesis by auto
next
  case False
  then have "put1 v p h = Some (COM_ERROR, h)" using a.put_full [OF st v] by simp
  with st show ?thesis by (auto simp: bail_then_def)
qed

end

section \<open>The library's writers keep the contract\<close>

text \<open>
  A blob is a pointer together with the bytes it is known to point to; it must not lie in
  the stream's own buffer, since \<open>memcpy\<close> takes no overlapping operands.
\<close>

definition put_blob :: "ptr \<times> byte list \<Rightarrow> ptr \<Rightarrow> host \<Rightarrow> (rc \<times> host) option" where
  "put_blob v p h = rsa_buffer_serialize_blob (fst v) (of_nat (length (snd v))) p h"

definition blob_valid :: "host \<Rightarrow> ptr \<Rightarrow> ptr \<times> byte list \<Rightarrow> bool" where
  "blob_valid h b v \<longleftrightarrow> fst v \<noteq> b \<and> length (snd v) < 2 ^ 63 \<and>
     (\<exists>bs. get_bytes h (fst v) = Some bs \<and> length (snd v) \<le> length bs \<and>
        take (length (snd v)) bs = snd v)"

lemma blob_valid_load:
  "blob_valid h b (q, d) \<Longrightarrow> load_bytes h q 0 (length d) = Some d \<and> ptr_true q = Some True"
  by (auto simp: blob_valid_def load_bytes_def segment_def get_bytes_Some)

lemma set_stream_after_put:
  "stream_at h p s bs \<Longrightarrow>
   set_stream p s' (put_cell (pBuffer s) (Bytes bs') h) =
     Some (put_cell p (StreamCell s') (put_cell (pBuffer s) (Bytes bs') h))"
  using put_cell_other(3) [of h p s "pBuffer s" bs bs'] by (simp add: set_stream_def stream_at_simps)

interpretation u64_writer: wire_writer rsa_buffer_serialize_uint64 net_bytes "\<lambda>h b v. True"
proof
  fix h p s bs v
  assume st: "stream_at h p s bs" and room: "unat (szWriteCur s) + length (net_bytes v) \<le> length bs"
  then have "rsa_buffer_can_write_to_buffer s 8"
    by (subst can_write_iff) (auto simp: stream_at_def)
  with st room show "rsa_buffer_serialize_uint64 v p h = Some (NO_ERROR, appended p s bs (net_bytes v) h)"
    by (simp add: rsa_buffer_serialize_uint64_def stream_at_simps store_bytes_def
        set_stream_after_put appended_def)
next
  fix h p s bs v
  assume st: "stream_at h p s bs" and full: "length bs < unat (szWriteCur s) + length (net_bytes v)"
  then have "\<not> rsa_buffer_can_write_to_buffer s 8"
    by (subst can_write_iff) (auto simp: stream_at_def)
  with st show "rsa_buffer_serialize_uint64 v p h = Some (COM_ERROR, h)"
    by (simp add: rsa_buffer_serialize_uint64_def stream_at_simps)
qed simp

lemma appended_get_bytes:
  assumes "stream_at h p s bs" and "q \<noteq> pBuffer s" and "get_bytes h q = Some ds"
  shows "get_bytes (appended p s bs xs h) q = Some ds"
proof -
  have "get_bytes (put_cell (pBuffer s) (Bytes bs') h) q = Some ds" for bs'
    using assms(2,3) by (cases "pBuffer s") (auto simp: get_bytes_Some)
  moreover have "get_stream (put_cell (pBuffer s) (Bytes bs') h) p = Some s" for bs'
    using assms(1) by (simp add: host_simps stream_at_simps)
  ultimately show ?thesis by (simp add: appended_def put_cell_other(1))
qed

interpretation blob_writer: wire_writer put_blob snd blob_valid
proof
  fix h p s bs and v :: "ptr \<times> byte list"
  assume st: "stream_at h p s bs" and v: "blob_valid h (pBuffer s) v"
    and room: "unat (szWriteCur s) + length (snd v) \<le> length bs"
  from st v have n: "unat (of_nat (length (snd v)) :: u64) = length (snd v)"
    by (simp add: blob_valid_def unat_of_nat take_bit_nat_eq_self)
  have "rsa_buffer_can_write_to_buffer s (of_nat (length (snd v)))"
    using st v room n by (subst can_write_iff) (auto simp: stream_at_def blob_valid_def)
  moreover have "load_bytes h (fst v) 0 (length (snd v)) = Some (snd v)" "ptr_true (fst v) = Some True"
    using blob_valid_load [of h "pBuffer s" "fst v" "snd v"] v by simp_all
  ultimately show "put_blob v p h = Some (NO_ERROR, appended p s bs (snd v) h)"
    using st room n
    by (simp add: put_blob_def rsa_buffer_serialize_blob_def stream_at_simps store_bytes_def
        set_stream_after_put appended_def)
next
  fix h p s bs and v :: "ptr \<times> byte list"
  assume st: "stream_at h p s bs" and v: "blob_valid h (pBuffer s) v"
    and full: "length bs < unat (szWriteCur s) + length (snd v)"
  from st v have n: "unat (of_nat (length (snd v)) :: u64) = length (snd v)"
    by (simp add: blob_valid_def unat_of_nat take_bit_nat_eq_self)
  have "\<not> rsa_buffer_can_write_to_buffer s (of_nat (length (snd v)))"
    using st v full n by (subst can_write_iff) (auto simp: stream_at_def blob_valid_def)
  moreover have "ptr_true (fst v) = Some True"
    using blob_valid_load [of h "pBuffer s" "fst v" "snd v"] v by simp
  ultimately show "put_blob v p h = Some (COM_ERROR, h)"
    using st by (simp add: put_blob_def rsa_buffer_serialize_blob_def stream_at_simps)
next
  fix h p s bs xs and v :: "ptr \<times> byte list"
  assume "stream_at h p s bs" and "blob_valid h (pBuffer s) v"
  then show "blob_valid (appended p s bs xs h) (pBuffer s) v"
    by (auto simp: blob_valid_def intro!: appended_get_bytes)
qed

interpretation message_writer:
  wire_pair rsa_buffer_serialize_uint64 net_bytes "\<lambda>h b v. True" put_blob snd blob_valid
  by unfold_locales

section \<open>Readers\<close>

lemma deserialize_uint64_ok:
  assumes st: "stream_at h p s bs" and room: "unat (szReadCur s) + 8 \<le> length bs"
  shows "\<exists>v. net_bytes v = segment (unat (szReadCur s)) 8 bs \<and>
    rsa_buffer_deserialize_uint64 p (Some w) h =
      Some (NO_ERROR, Some v, put_cell p (StreamCell (s\<lparr>szReadCur := szReadCur s + 8\<rparr>)) h)"
proof -
  let ?raw = "segment (unat (szReadCur s)) 8 bs"
  define v :: u64 where "v = le_word (rev ?raw)"
  have l: "length ?raw = 8" using room by simp
  have nb: "net_bytes v = ?raw"
    using le_bytes_le_word [of "rev ?raw", where 'a = 64] l by (simp add: v_def net_bytes_def)
  have "rsa_buffer_can_read_from_buffer s 8"
    using st room by (subst can_read_iff) (auto simp: stream_at_def)
  moreover have "load_bytes h (pBuffer s) (unat (szReadCur s)) 8 = Some (net_bytes v)"
    using st room nb by (simp add: load_bytes_def stream_at_simps)
  moreover have "rsa_ntohll (big_endian h) (Some ?raw) (Some (repr64 (big_endian h) 0)) =
      (NO_ERROR, Some (repr64 (big_endian h) v))"
    using rsa_ntohll_to_host [of "big_endian h" v 0] nb by simp
  ultimately show ?thesis using st nb
    by (intro exI [of _ v])
      (simp add: rsa_buffer_deserialize_uint64_def stream_at_simps set_stream_def)
qed

lemma deserialize_uint64_short:
  assumes st: "stream_at h p s bs" and short: "length bs < unat (szReadCur s) + 8"
  shows "rsa_buffer_deserialize_uint64 p (Some w) h = Some (COM_ERROR, Some 0, h)"
proof -
  have "\<not> rsa_buffer_can_read_from_buffer s 8"
    using st short by (subst can_read_iff) (auto simp: stream_at_def)
  then show ?thesis using st by (simp add: rsa_buffer_deserialize_uint64_def stream_at_simps)
qed

lemma net_bytes_inject [simp]: "net_bytes v = net_bytes w \<longleftrightarrow> v = w"
proof
  assume "net_bytes v = net_bytes w"
  then have "le_word (le_bytes 8 v) = (le_word (le_bytes 8 w) :: u64)" by (simp add: net_bytes_def)
  then show "v = w" by (simp add: le_word_le_bytes)
qed simp


lemma stream_atE:
  assumes "stream_at h p s bs"
  obtains a b where "p = Ptr a" "pBuffer s = Ptr b" "hp_cells h a = Some (StreamCell s)"
    "hp_cells h b = Some (Bytes bs)" "a \<noteq> b"
proof -
  from assms obtain a b where f: "p = Ptr a" "pBuffer s = Ptr b"
    "hp_cells h a = Some (StreamCell s)" "hp_cells h b = Some (Bytes bs)"
    by (auto simp: stream_at_def get_Some)
  then have "a \<noteq> b" by auto
  with f show thesis by (rule that)
qed

lemma deserialize_blob_ok:
  assumes st: "stream_at h (Ptr a) s bs" and ok: "host_ok h" and mal: "malloc_ok h"
    and room: "unat (szReadCur s) + unat n \<le> length bs"
  shows "rsa_buffer_deserialize_blob (Ptr a) n (Some w) h =
    Some (NO_ERROR, Some (Ptr (hp_next h)),
      h\<lparr>hp_plan := tl (hp_plan h), hp_next := Suc (hp_next h),
        hp_cells := (hp_cells h)(hp_next h \<mapsto> Bytes (segment (unat (szReadCur s)) (unat n) bs),
                                a \<mapsto> StreamCell (s\<lparr>szReadCur := szReadCur s + n\<rparr>))\<rparr>)"
proof -
  from st obtain b where b: "pBuffer s = Ptr b" "hp_cells h a = Some (StreamCell s)"
    "hp_cells h b = Some (Bytes bs)" "a \<noteq> b"
    by (auto elim: stream_atE)
  have fresh: "hp_next h \<noteq> a" "hp_next h \<noteq> b"
    using b host_ok_fresh [OF ok] by auto
  have "rsa_buffer_can_read_from_buffer s n"
    using st room by (subst can_read_iff) (auto simp: stream_at_def)
  moreover have "length (segment (unat (szReadCur s)) (unat n) bs) = unat n"
    using room by simp
  ultimately show ?thesis
    using b fresh mal room
    by (simp add: rsa_buffer_deserialize_blob_def malloc_bytes_def host_simps load_bytes_def
        store_bytes_def set_stream_def splice_at_def)
qed

lemma deserialize_blob_no_memory:
  assumes st: "stream_at h p s bs" and mal: "\<not> malloc_ok h"
    and room: "unat (szReadCur s) + unat n \<le> length bs"
  shows "rsa_buffer_deserialize_blob p n (Some w) h =
    Some (PTR_ERROR, Some Null, h\<lparr>hp_plan := tl (hp_plan h)\<rparr>)"
proof -
  have "rsa_buffer_can_read_from_buffer s n"
    using st room by (subst can_read_iff) (auto simp: stream_at_def)
  then show ?thesis using st mal
    by (simp add: rsa_buffer_deserialize_blob_def malloc_bytes_def host_simps stream_at_simps)
qed

lemma deserialize_blob_short:
  assumes st: "stream_at h p s bs" and short: "length bs < unat (szReadCur s) + unat n"
    and n: "unat n < 2 ^ 63"
  shows "rsa_buffer_deserialize_blob p n (Some w) h = Some (COM_ERROR, Some Null, h)"
proof -
  have "\<not> rsa_buffer_can_read_from_buffer s n"
    using st short n by (subst can_read_iff) (auto simp: stream_at_def)
  then show ?thesis using st by (simp add: rsa_buffer_deserialize_blob_def stream_at_simps)
qed

section \<open>Creation and release\<close>

lemma cleanup_buffer_null [simp]: "rsa_buffer_cleanup_buffer Null h = Some h"
  by (simp add: rsa_buffer_cleanup_buffer_def)

lemma cleanup_buffer_ok:
  assumes "stream_at h (Ptr a) s bs" and "pBuffer s = Ptr b"
  shows "rsa_buffer_cleanup_buffer (Ptr a) h =
    Some (h\<lparr>hp_cells := (hp_cells h)(a := None, b := None)\<rparr>)"
proof -
  have "a \<noteq> b" "hp_cells h a = Some (StreamCell s)" "hp_cells h b = Some (Bytes bs)"
    using assms by (auto elim: stream_atE)
  then show ?thesis using assms
    by (simp add: rsa_buffer_cleanup_buffer_def set_stream_def fun_upd_twist)
qed

text \<open>The host after a successful \<open>rsa_buffer_init_buffer\<close>: two cells and nothing else.\<close>

definition fresh_stream :: "u64 \<Rightarrow> nat \<Rightarrow> byte_stream" where
  "fresh_stream n b = \<lparr>pBuffer = Ptr b, szWriteCur = 0, szReadCur = 0, szMaxSize = n\<rparr>"

definition stream_created :: "u64 \<Rightarrow> host \<Rightarrow> host" where
  "stream_created n h = h\<lparr>hp_plan := tl (tl (hp_plan h)), hp_next := hp_next h + 2,
     hp_cells := (hp_cells h)(hp_next h \<mapsto> StreamCell (fresh_stream n (Suc (hp_next h))),
       Suc (hp_next h) \<mapsto> Bytes (map (hp_junk h (Suc (hp_next h))) [0..<unat n]))\<rparr>"

lemma one_le_word: "0 < n \<Longrightarrow> 1 \<le> (n :: u64)"
  by (simp add: word_le_nat_alt word_less_nat_alt Suc_le_eq)

lemma init_buffer_ok:
  assumes n: "0 < n" and m1: "malloc_ok h" and m2: "malloc_ok (h\<lparr>hp_plan := tl (hp_plan h)\<rparr>)"
  shows "rsa_buffer_init_buffer n (Some w) h =
    Some (NO_ERROR, Some (Ptr (hp_next h)), stream_created n h)"
proof -
  have "1 \<le> n" using n by (rule one_le_word)
  moreover have "n \<le> RSA_MAX_BUFFER_LENGTH" by (simp add: RSA_MAX_BUFFER_LENGTH_def)
  ultimately show ?thesis using m1 m2
    by (auto simp: rsa_buffer_init_buffer_def malloc_stream_def malloc_bytes_def host_simps
        malloc_ok_def [of "h\<lparr>hp_plan := _, hp_next := _, hp_cells := _\<rparr>"]
        malloc_ok_def [of "h\<lparr>hp_plan := _\<rparr>"] set_stream_def not_less fun_eq_iff
        stream_created_def fresh_stream_def junk_bytes_def)
qed

lemma stream_at_created:
  assumes "unat n < 2 ^ 63"
  shows "stream_at (stream_created n h) (Ptr (hp_next h)) (fresh_stream n (Suc (hp_next h)))
    (map (hp_junk h (Suc (hp_next h))) [0..<unat n])"
  using assms by (simp add: stream_at_def stream_created_def fresh_stream_def)

lemma init_buffer_no_memory:
  assumes n: "0 < n" and ok: "host_ok h"
    and m: "\<not> malloc_ok h \<or> \<not> malloc_ok (h\<lparr>hp_plan := tl (hp_plan h)\<rparr>)"
  shows "\<exists>h'. rsa_buffer_init_buffer n (Some w) h = Some (PTR_ERROR, Some Null, h') \<and>
    hp_cells h' = hp_cells h"
proof -
  have "1 \<le> n" using n by (rule one_le_word)
  moreover have "n \<le> RSA_MAX_BUFFER_LENGTH" by (simp add: RSA_MAX_BUFFER_LENGTH_def)
  moreover have "hp_cells h (hp_next h) = None" using ok by (rule host_ok_fresh)
  ultimately show ?thesis using m
    by (cases "malloc_ok h")
      (auto simp: rsa_buffer_init_buffer_def malloc_stream_def malloc_bytes_def host_simps
        malloc_ok_def [of "h\<lparr>hp_plan := _, hp_next := _, hp_cells := _\<rparr>"]
        malloc_ok_def [of "h\<lparr>hp_plan := _\<rparr>"] set_stream_def not_less
        rsa_buffer_cleanup_buffer_def fun_upd_idem)
qed

section \<open>Transfer over a socket\<close>

lemma sys_send_cases:
  assumes "sys_send data nt = (r, nt')"
  obtains (fails) rest where "nt_send nt = SendFails # rest" "r = -1" "nt' = nt\<lparr>nt_send := rest\<rparr>"
    | (sends) k where "r = int k" "k \<le> length data" "nt_sent nt' = nt_sent nt @ take k data"
        "nt_recv nt' = nt_recv nt" "nt_send nt' = tl (nt_send nt)"
        "nt_send nt = [] \<Longrightarrow> k = length data"
  using assms
  by (auto split: list.splits send_step.splits)
    (metis append.right_neutral min.cobounded2 min.commute min_def take_all_iff linear)+

lemma send_loop_done:
  "t \<le> 2147483647 \<Longrightarrow> unat wcur \<le> t \<Longrightarrow>
   send_loop buf wcur h (of_nat t) l i nt = Some (of_nat t, i, nt)"
  by (simp add: send_loop.simps [of _ _ _ "of_nat t"] scast_small_le)

lemma send_loop_step:
  assumes b: "get_bytes h buf = Some bs" and w: "unat wcur \<le> length bs" "unat wcur < 2147483648"
    and t: "t < unat wcur"
  shows "send_loop buf wcur h (of_nat t) (of_nat (unat wcur - t)) i nt =
    (case sys_send (segment t (unat wcur - t) bs) nt of (r, nt') \<Rightarrow>
       if word_of_int r = (-1 :: u32) then Some (of_nat t, -1, nt')
       else send_loop buf wcur h (of_nat t + word_of_int r) (of_nat (unat wcur - t) - word_of_int r)
              (word_of_int r) nt')"
proof -
  have "(scast (of_nat t :: u32) :: u64) < wcur" using t w by (simp add: scast_small_le)
  moreover have "unat (scast (of_nat (unat wcur - t) :: u32) :: u64) = unat wcur - t"
    using w by (simp add: scast_small unat_of_nat take_bit_nat_eq_self)
  moreover have "sint (of_nat t :: u32) = int t" using t w by (simp add: sint_small)
  moreover have "load_bytes h buf t (unat wcur - t) = Some (segment t (unat wcur - t) bs)"
    using b w t by (simp add: load_bytes_def)
  ultimately show ?thesis
    by (simp add: send_loop.simps [of _ _ _ "of_nat t"] Let_def del: sys_send.simps split: prod.splits)
qed

definition send_done ::
  "byte list \<Rightarrow> u64 \<Rightarrow> nat \<Rightarrow> net \<Rightarrow> (u32 \<times> u32 \<times> net) option \<Rightarrow> bool" where
  "send_done bs wcur t nt r \<longleftrightarrow> (\<exists>t' i nt'. r = Some (of_nat t', i, nt') \<and> t \<le> t' \<and> t' \<le> unat wcur \<and>
     nt_sent nt' = nt_sent nt @ segment t (t' - t) bs \<and> nt_recv nt' = nt_recv nt \<and>
     (i = -1 \<longleftrightarrow> t' < unat wcur) \<and> (i = -1 \<longrightarrow> SendFails \<in> set (nt_send nt)))"

lemma segment_add: "segment t k bs @ segment (t + k) m bs = segment t (k + m) bs"
  by (simp add: segment_def take_add ac_simps)

lemma take_segment: "k \<le> n \<Longrightarrow> take k (segment t n bs) = segment t k bs"
  by (simp add: segment_def min_def)

lemma send_done_extend:
  assumes "send_done bs wcur (t + k) nt' r" and "nt_sent nt' = nt_sent nt @ segment t k bs"
    and "nt_recv nt' = nt_recv nt" and "set (nt_send nt') \<subseteq> set (nt_send nt)"
  shows "send_done bs wcur t nt r"
proof -
  from assms(1) obtain t' i nt'' where r: "r = Some (of_nat t', i, nt'')" "t + k \<le> t'" "t' \<le> unat wcur"
    "nt_sent nt'' = nt_sent nt' @ segment (t + k) (t' - (t + k)) bs" "nt_recv nt'' = nt_recv nt'"
    "i = -1 \<longleftrightarrow> t' < unat wcur" "i = -1 \<longrightarrow> SendFails \<in> set (nt_send nt')"
    by (auto simp: send_done_def)
  have "segment t k bs @ segment (t + k) (t' - (t + k)) bs = segment t (t' - t) bs"
    using r(2) by (simp add: segment_add)
  with r assms(2-4) show ?thesis unfolding send_done_def
    by (intro exI [of _ t'] exI [of _ i] exI [of _ nt'']) auto
qed

lemma send_loop_correct:
  assumes b: "get_bytes h buf = Some bs" and w: "unat wcur \<le> length bs" "unat wcur < 2147483648"
  shows "t \<le> unat wcur \<Longrightarrow> i \<noteq> -1 \<Longrightarrow>
    send_done bs wcur t nt (send_loop buf wcur h (of_nat t) (of_nat (unat wcur - t)) i nt)"
proof (induction "length (nt_send nt) + (if t < unat wcur then 1 else 0)" arbitrary: t i nt
    rule: less_induct)
  case less
  show ?case
  proof (cases "t < unat wcur")
    case False
    with w have "send_loop buf wcur h (of_nat t) (of_nat (unat wcur - t)) i nt = Some (of_nat t, i, nt)"
      by (intro send_loop_done) (use less.prems in simp_all)
    with less.prems False show ?thesis unfolding send_done_def
      by (intro exI [of _ t] exI [of _ i] exI [of _ nt]) (simp add: segment_def)
  next
    case True
    let ?data = "segment t (unat wcur - t) bs"
    obtain r nt' where s: "sys_send ?data nt = (r, nt')" by force
    from s show ?thesis
    proof (cases rule: sys_send_cases)
      case (fails rest)
      have "send_loop buf wcur h (of_nat t) (of_nat (unat wcur - t)) i nt = Some (of_nat t, -1, nt')"
        by (subst send_loop_step [OF b w True]) (simp add: s fails(2) del: sys_send.simps)
      with True fails(1,3) show ?thesis unfolding send_done_def
        by (intro exI [of _ t] exI [of _ "-1"] exI [of _ nt']) (simp add: segment_def)
    next
      case (sends k)
      have ld: "length ?data = unat wcur - t" using True w by simp
      with sends True w have k: "t + k \<le> unat wcur" "k < 2147483648" by simp_all
      have sub: "set (nt_send nt') \<subseteq> set (nt_send nt)"
        using sends(5) by (cases "nt_send nt") auto
      have acc: "of_nat t + word_of_int r = (of_nat (t + k) :: u32)"
        "of_nat (unat wcur - t) - word_of_int r = (of_nat (unat wcur - (t + k)) :: u32)"
        using sends(1) k by (simp_all add: of_nat_diff)
      have i': "(word_of_int r :: u32) \<noteq> -1" using sends(1) k of_nat_not_m1 [of k] by simp
      have "length (nt_send nt') + (if t + k < unat wcur then 1 else 0)
          < length (nt_send nt) + (if t < unat wcur then 1 else 0)"
        using sends(5,6) True ld by (cases "nt_send nt") auto
      then have "send_done bs wcur (t + k) nt'
          (send_loop buf wcur h (of_nat (t + k)) (of_nat (unat wcur - (t + k))) (word_of_int r) nt')"
        using k(1) i' by (rule less.hyps)
      moreover have "nt_sent nt' = nt_sent nt @ segment t k bs"
        using sends(2,3) ld by (simp add: take_segment)
      ultimately have "send_done bs wcur t nt
          (send_loop buf wcur h (of_nat (t + k)) (of_nat (unat wcur - (t + k))) (word_of_int r) nt')"
        using sends(4) sub by (rule send_done_extend)
      then show ?thesis
        by (subst send_loop_step [OF b w True]) (simp only: s prod.case i' if_False acc)
    qed
  qed
qed

lemma write_to_socket_ok:
  assumes st: "stream_at h p s bs" and w: "unat (szWriteCur s) < 2147483648" and fd: "0 \<le> fd"
  shows "\<exists>t nt'. rsa_buffer_write_to_socket fd p (Some x) h nt =
      Some (if t < unat (szWriteCur s) then COM_ERROR else NO_ERROR, Some (of_nat t), nt') \<and>
    t \<le> unat (szWriteCur s) \<and> nt_sent nt' = nt_sent nt @ take t bs \<and> nt_recv nt' = nt_recv nt \<and>
    (SendFails \<notin> set (nt_send nt) \<longrightarrow> t = unat (szWriteCur s))"
proof -
  have b: "get_bytes h (pBuffer s) = Some bs" and le: "unat (szWriteCur s) \<le> length bs"
    using st by (simp_all add: stream_at_def)
  have "send_done bs (szWriteCur s) 0 nt
      (send_loop (pBuffer s) (szWriteCur s) h (of_nat 0) (of_nat (unat (szWriteCur s) - 0)) 0 nt)"
    by (rule send_loop_correct [OF b le w]) simp_all
  then obtain t i nt' where r: "send_loop (pBuffer s) (szWriteCur s) h 0 (ucast (szWriteCur s)) 0 nt
      = Some (of_nat t, i, nt')" "t \<le> unat (szWriteCur s)"
    "nt_sent nt' = nt_sent nt @ segment 0 t bs" "nt_recv nt' = nt_recv nt"
    "i = -1 \<longleftrightarrow> t < unat (szWriteCur s)" "i = -1 \<longrightarrow> SendFails \<in> set (nt_send nt)"
    by (auto simp: send_done_def)
  then show ?thesis using st fd
    by (intro exI [of _ t] exI [of _ nt'])
      (auto simp: rsa_buffer_write_to_socket_def stream_at_simps segment_def)
qed

text \<open>
  One \<open>recv\<close>: the first chunk that arrived (or as much of it as the buffer holds) is
  stored at the start of the buffer, and the write cursor is its length.
\<close>

lemma read_from_socket_chunk:
  assumes st: "stream_at h p s bs" and fd: "0 \<le> fd" and len: "length bs < 2147483648"
    and r: "nt_recv nt = Some c # rest"
  defines "d \<equiv> take (length bs) c"
  shows "\<exists>nt'. rsa_buffer_read_from_socket fd p (Some x) h nt =
    Some (NO_ERROR, Some (of_nat (length d)),
      put_cell p (StreamCell (s\<lparr>szWriteCur := of_nat (length d)\<rparr>))
        (put_cell (pBuffer s) (Bytes (splice_at 0 d bs)) h), nt') \<and>
    nt_sent nt' = nt_sent nt \<and> nt_send nt' = nt_send nt"
proof -
  have sz: "unat (szMaxSize s) = length bs" using st by (simp add: stream_at_def)
  have ld: "length d \<le> length bs" by (simp add: d_def)
  obtain nt' where recv: "sys_recv (length bs) nt = (int (length d), d, nt')"
    "nt_sent nt' = nt_sent nt" "nt_send nt' = nt_send nt"
    using r by (cases "length c \<le> length bs") (auto simp: d_def min_def)
  have "length d < 2147483648" using ld len by simp
  then have "(of_nat (length d) :: u32) \<noteq> -1" "(scast (of_nat (length d) :: u32) :: u64) = of_nat (length d)"
    by (rule of_nat_not_m1, intro scast_small)
  then show ?thesis using st fd recv ld
    by (intro exI [of _ nt'])
      (simp add: rsa_buffer_read_from_socket_def stream_at_simps sz store_bytes_def
        set_stream_after_put [OF st] del: sys_recv.simps)
qed

section \<open>Properties\<close>

text \<open>A small host for the witnesses: one stream of 16 bytes, and a cell of 4 bytes.\<close>

definition sample_stream :: byte_stream where
  "sample_stream = \<lparr>pBuffer = Ptr 1, szWriteCur = 3, szReadCur = 0, szMaxSize = 16\<rparr>"

definition sample_host :: host where
  "sample_host = \<lparr>hp_next = 3,
     hp_cells = [0 \<mapsto> StreamCell sample_stream, 1 \<mapsto> Bytes (replicate 16 5), 2 \<mapsto> Bytes [1, 2, 3, 4]],
     hp_plan = [], hp_junk = (\<lambda>a i. 0), big_endian = False\<rparr>"

lemma sample_host_ok: "host_ok sample_host"
  by (auto simp: host_ok_def sample_host_def)

lemma sample_stream_at: "stream_at sample_host (Ptr 0) sample_stream (replicate 16 5)"
  by (simp add: stream_at_def sample_host_def sample_stream_def)

text \<open>
  Creating a byte stream of \<open>n\<close> bytes either succeeds with an empty stream of
  exactly that capacity, which \<open>rsa_buffer_cleanup_buffer\<close> gives back completely, or, where
  one of its two allocations fails, reports \<open>PTR_ERROR\<close>, clears the caller's pointer and
  leaves nothing allocated.
\<close>

theorem init_buffer_spec:
  assumes "host_ok h" and "0 < n" and "unat n < 2 ^ 63"
  shows "\<exists>rc p h'. rsa_buffer_init_buffer n (Some w) h = Some (rc, Some p, h') \<and>
    (if malloc_ok h \<and> malloc_ok (h\<lparr>hp_plan := tl (hp_plan h)\<rparr>)
     then rc = NO_ERROR \<and>
       (\<exists>s bs h''. stream_at h' p s bs \<and> length bs = unat n \<and> szWriteCur s = 0 \<and> szReadCur s = 0 \<and>
          rsa_buffer_cleanup_buffer p h' = Some h'' \<and> hp_cells h'' = hp_cells h)
     else rc = PTR_ERROR \<and> p = Null \<and> hp_cells h' = hp_cells h)"
proof (cases "malloc_ok h \<and> malloc_ok (h\<lparr>hp_plan := tl (hp_plan h)\<rparr>)")
  case True
  let ?n = "hp_next h" and ?h = "stream_created n h"
  have new: "hp_cells h ?n = None" "hp_cells h (Suc ?n) = None"
    using assms(1) by (simp_all add: host_ok_def)
  have st: "stream_at ?h (Ptr ?n) (fresh_stream n (Suc ?n)) (map (hp_junk h (Suc ?n)) [0..<unat n])"
    using assms(3) by (rule stream_at_created)
  have "rsa_buffer_cleanup_buffer (Ptr ?n) ?h = Some (?h\<lparr>hp_cells := (hp_cells ?h)(?n := None, Suc ?n := None)\<rparr>)"
    using st by (rule cleanup_buffer_ok) (simp add: fresh_stream_def)
  moreover have "(hp_cells ?h)(?n := None, Suc ?n := None) = hp_cells h"
    using new by (auto simp: stream_created_def fun_eq_iff)
  ultimately show ?thesis
    using init_buffer_ok [OF assms(2), of h w] True st
    by (intro exI [of _ NO_ERROR] exI [of _ "Ptr ?n"] exI [of _ ?h]) (fastforce simp: fresh_stream_def)
next
  case False
  then show ?thesis using init_buffer_no_memory [OF assms(2,1), of w] by auto
qed

theorem init_buffer_spec_witness:
  "host_ok sample_host \<and> (0 :: u64) < 4104 \<and> (\<exists>rc p h'. rsa_buffer_init_buffer 4104 (Some Null) sample_host
     = Some (rc, Some p, h') \<and> rc = NO_ERROR)"
  using init_buffer_spec [OF sample_host_ok, of 4104 Null] sample_host_ok
  by (auto simp: malloc_ok_def sample_host_def)

text \<open>
  Writing a 64-bit integer to a stream appends its eight bytes in network order on
  either kind of host when they fit, keeping the stream invariant and every other cell; when
  they do not fit it reports \<open>COM_ERROR\<close> and changes nothing.
\<close>

theorem serialize_uint64_spec:
  assumes "stream_at h (Ptr a) s bs" and "pBuffer s = Ptr b"
  shows "if unat (szWriteCur s) + 8 \<le> length bs
    then \<exists>h'. rsa_buffer_serialize_uint64 v (Ptr a) h = Some (NO_ERROR, h') \<and> frame {a, b} h h' \<and>
      stream_at h' (Ptr a) (s\<lparr>szWriteCur := szWriteCur s + 8\<rparr>)
        (splice_at (unat (szWriteCur s)) (rev (le_bytes 8 v)) bs)
    else rsa_buffer_serialize_uint64 v (Ptr a) h = Some (COM_ERROR, h)"
  using u64_writer.put_room [OF assms(1), of v] u64_writer.put_full [OF assms(1), of v]
    stream_at_appended [OF assms(1), of "net_bytes v"] appended_frame [OF assms(2), of a h bs "net_bytes v"]
  by (auto simp: net_bytes_def)

theorem serialize_uint64_spec_witness:
  "\<exists>h'. rsa_buffer_serialize_uint64 1 (Ptr 0) sample_host = Some (NO_ERROR, h')"
  using serialize_uint64_spec [OF sample_stream_at, of 1 1] by (auto simp: sample_stream_def)

text \<open>
  Claim C4. Writing a blob of at most \<open>2^63 - 1\<close> bytes that lies outside the stream's buffer
  appends exactly these bytes when they fit and reports \<open>COM_ERROR\<close> without any change when
  they do not.
\<close>

theorem serialize_blob_spec:
  assumes "stream_at h (Ptr a) s bs" and "pBuffer s = Ptr b" and "q \<noteq> b"
    and "get_bytes h (Ptr q) = Some ds" and "unat n \<le> length ds" and "unat n < 2 ^ 63"
  shows "if unat (szWriteCur s) + unat n \<le> length bs
    then \<exists>h'. rsa_buffer_serialize_blob (Ptr q) n (Ptr a) h = Some (NO_ERROR, h') \<and> frame {a, b} h h' \<and>
      stream_at h' (Ptr a) (s\<lparr>szWriteCur := szWriteCur s + n\<rparr>)
        (splice_at (unat (szWriteCur s)) (take (unat n) ds) bs)
    else rsa_buffer_serialize_blob (Ptr q) n (Ptr a) h = Some (COM_ERROR, h)"
proof -
  let ?v = "(Ptr q, take (unat n) ds)"
  have v: "blob_valid h (pBuffer s) ?v" using assms by (auto simp: blob_valid_def min_def)
  have l: "length (snd ?v) = unat n" using assms(5) by simp
  have p: "put_blob ?v (Ptr a) h = rsa_buffer_serialize_blob (Ptr q) n (Ptr a) h"
    using l by (simp add: put_blob_def)
  show ?thesis
    using blob_writer.put_room [OF assms(1) v] blob_writer.put_full [OF assms(1) v]
      stream_at_appended [OF assms(1), of "snd ?v"] appended_frame [OF assms(2), of a h bs "snd ?v"] l p
    by auto
qed

theorem serialize_blob_spec_witness:
  "\<exists>h'. rsa_buffer_serialize_blob (Ptr 2) 4 (Ptr 0) sample_host = Some (NO_ERROR, h')"
  using serialize_blob_spec [OF sample_stream_at, of 1 2 "[1, 2, 3, 4]" 4]
  by (auto simp: sample_stream_def sample_host_def)

text \<open>
  Claim C9. The room check of a blob computes in \<open>size_t\<close>, so a size near \<open>2^64\<close> wraps
  around: on a stream that already holds data there is a size, far beyond the capacity, that
  passes the check, and the copy then runs out of the buffer.
\<close>

theorem serialize_blob_wraps:
  assumes "stream_at h p s bs" and "0 < szWriteCur s" and "get_bytes h q = Some ds" and "length ds < 2 ^ 63"
  shows "rsa_buffer_can_write_to_buffer s (- szWriteCur s) \<and> unat (szMaxSize s) < unat (- szWriteCur s) \<and>
    rsa_buffer_serialize_blob q (- szWriteCur s) p h = None"
proof -
  have w: "unat (szWriteCur s) < 2 ^ 63" "unat (szMaxSize s) < 2 ^ 63"
    using assms(1) by (auto simp: stream_at_def)
  have "(unat (szWriteCur s) + unat (- szWriteCur s)) mod 2 ^ 64 = 0"
    using unat_word_ariths(1) [of "szWriteCur s" "- szWriteCur s"] by simp
  moreover have "0 < unat (szWriteCur s)" using assms(2) by (simp add: word_less_nat_alt)
  ultimately have "2 ^ 64 \<le> unat (szWriteCur s) + unat (- szWriteCur s)"
    by (metis add_is_0 mod_less not_less less_irrefl)
  then have big: "2 ^ 63 < unat (- szWriteCur s)" using w by simp
  have can: "rsa_buffer_can_write_to_buffer s (- szWriteCur s)"
    by (simp add: rsa_buffer_can_write_to_buffer_def)
  moreover have "ptr_true q = Some True" "load_bytes h q 0 (unat (- szWriteCur s)) = None"
    using assms(3,4) big by (auto simp: load_bytes_def get_bytes_Some)
  ultimately show ?thesis using assms(1) w big
    by (simp add: rsa_buffer_serialize_blob_def stream_at_simps)
qed

theorem serialize_blob_wraps_witness:
  "rsa_buffer_serialize_blob (Ptr 2) (- 3) (Ptr 0) sample_host = None"
  using serialize_blob_wraps [OF sample_stream_at, of "Ptr 2" "[1, 2, 3, 4]"]
  by (simp add: sample_stream_def sample_host_def)

text \<open>
  Claim C5. Sending a stream over a socket ends for every behaviour of the kernel: the bytes
  that were accepted are a prefix of the stream, their number is reported, and the call
  succeeds exactly when nothing is missing; it can only fail where \<open>send\<close> failed.
\<close>

theorem write_to_socket_spec:
  assumes "stream_at h p s bs" and "unat (szWriteCur s) < 2 ^ 31" and "0 \<le> fd"
  shows "\<exists>t nt'. rsa_buffer_write_to_socket fd p (Some x) h nt =
      Some (if t < unat (szWriteCur s) then COM_ERROR else NO_ERROR, Some (of_nat t), nt') \<and>
    t \<le> unat (szWriteCur s) \<and> nt_sent nt' = nt_sent nt @ take t bs \<and>
    (SendFails \<notin> set (nt_send nt) \<longrightarrow> t = unat (szWriteCur s))"
  using write_to_socket_ok [OF assms(1) _ assms(3), of x nt] assms(2) by auto

theorem write_to_socket_spec_witness:
  "\<exists>t nt'. rsa_buffer_write_to_socket 4 (Ptr 0) (Some 0) sample_host
       \<lparr>nt_send = [SendUpTo 1, SendUpTo 0], nt_recv = [], nt_sent = [9]\<rparr> =
     Some (if t < 3 then COM_ERROR else NO_ERROR, Some (of_nat t), nt') \<and> nt_sent nt' = [9, 5, 5, 5]"
proof -
  let ?nt = "\<lparr>nt_send = [SendUpTo 1, SendUpTo 0], nt_recv = [], nt_sent = [9]\<rparr> :: net"
  obtain t nt' where "rsa_buffer_write_to_socket 4 (Ptr 0) (Some 0) sample_host ?nt =
      Some (if t < 3 then COM_ERROR else NO_ERROR, Some (of_nat t), nt')"
    "nt_sent nt' = [9] @ take t (replicate 16 5)" "t = 3"
    using write_to_socket_spec [OF sample_stream_at, of 4 0 ?nt] by (auto simp: sample_stream_def)
  then show ?thesis by (intro exI [of _ t] exI [of _ nt']) (simp add: numeral_eq_Suc)
qed

text \<open>
  The checks of the two socket calls for a NULL counter are void: with the counter
  NULL both calls take the error path and then store through it at \<open>cleanup\<close>, whatever
  the other arguments are.
\<close>

theorem null_counter_undefined:
  "rsa_buffer_write_to_socket fd p None h nt = None \<and> rsa_buffer_read_from_socket fd p None h nt = None"
  by (cases p) (auto simp: rsa_buffer_write_to_socket_def rsa_buffer_read_from_socket_def)

end
