(* ===== verification/NetHelper.thy ===== *)
theory NetHelper
  imports ByteStream
begin

text \<open>
  RSApi/rsa_network_helper.c. The results of the socket system calls are data of the
  state (\<open>sy_gai\<close>, \<open>sy_socket\<close>, \<open>sy_bind\<close>, \<open>sy_connect\<close>); the state records
  how many address lists of \<open>getaddrinfo\<close> are alive and which descriptors were closed.
  A \<open>struct addrinfo *\<close> is \<open>True\<close> where it is not NULL.
\<close>

record sysenv =
  sy_gai :: int
  sy_socket :: int
  sy_bind :: int
  sy_connect :: int
  sy_ai_live :: nat
  sy_closed :: "int list"

definition RSA_PROC_SERVER :: int where [simp]: "RSA_PROC_SERVER = 0"
definition RSA_PROC_CLIENT :: int where [simp]: "RSA_PROC_CLIENT = 1"

definition sys_freeaddrinfo :: "bool \<Rightarrow> sysenv \<Rightarrow> sysenv" where
  "sys_freeaddrinfo ai sy = (if ai then sy\<lparr>sy_ai_live := sy_ai_live sy - 1\<rparr> else sy)"

definition sys_close :: "int \<Rightarrow> sysenv \<Rightarrow> sysenv" where
  "sys_close fd sy = sy\<lparr>sy_closed := sy_closed sy @ [fd]\<rparr>"

definition rsa_net_create_socket ::
  "bool option \<Rightarrow> int option \<Rightarrow> sysenv \<Rightarrow> rc \<times> bool option \<times> int option \<times> sysenv" where
  "rsa_net_create_socket ppServerInfo pSockFd sy =
     (let fail = (\<lambda>rc ai sy. (rc, map_option (\<lambda>_. False) ppServerInfo, map_option (\<lambda>_. 0) pSockFd,
                              sys_freeaddrinfo ai sy))
      in if ppServerInfo = None \<or> pSockFd = None then fail ARG_ERROR False sy
         else if sy_gai sy \<noteq> 0 then fail (sy_gai sy) False sy
         else let sy1 = sy\<lparr>sy_ai_live := sy_ai_live sy + 1\<rparr>; iSockFd = sy_socket sy1
              in if iSockFd = -1 then fail COM_ERROR True sy1
                 else (NO_ERROR, Some True, Some iSockFd, sy1))"

definition rsa_net_connect_socket :: "int \<Rightarrow> bool \<Rightarrow> int \<Rightarrow> sysenv \<Rightarrow> rc" where
  "rsa_net_connect_socket iProcType pServerInfo iSockFd sy =
     (if \<not> pServerInfo \<or> iSockFd < 1 then ARG_ERROR
      else if iProcType = RSA_PROC_SERVER then sy_bind sy
      else if iProcType = RSA_PROC_CLIENT then sy_connect sy
      else COM_ERROR)"

text \<open>
  The outcome of \<open>rsa_net_create_socket\<close>: either both out-parameters are set and one
  address list more is alive, or both are cleared and the lists alive are as before.
\<close>

lemma create_socket_cases:
  assumes "rsa_net_create_socket (Some a) (Some f) sy = (rc, ai, fd, sy')"
  obtains (created) "rc = 0" "ai = Some True" "fd = Some (sy_socket sy)" "sy_socket sy \<noteq> -1"
      "sy_gai sy = 0" "sy' = sy\<lparr>sy_ai_live := sy_ai_live sy + 1\<rparr>"
    | (failed) "rc \<noteq> 0" "ai = Some False" "fd = Some 0" "sy' = sy"
  using assms
  by (auto simp: rsa_net_create_socket_def sys_freeaddrinfo_def Let_def split: if_splits)

end
