(* ===== verification/MemData.thy ===== *)
theory MemData
  imports NetHelper
begin

text \<open>
  RSApi/rsa_api.c: the pages of memory that travel between an application and the memory
  server, and the client call \<open>rsa_download_more_ram\<close> that exchanges one page for another.
\<close>

section \<open>Creation and release\<close>

definition page_size64 :: u64 where
  "page_size64 = of_nat PAGESIZE"

definition rsa_cleanup_mem_data :: "ptr \<Rightarrow> host \<Rightarrow> host option" where
  "rsa_cleanup_mem_data p h = do {
     t \<leftarrow> ptr_true p;
     if \<not> t then Some h
     else do {
       m \<leftarrow> get_mem h p;
       u \<leftarrow> ptr_true (pPageData m);
       h1 \<leftarrow> (if u then do { h' \<leftarrow> hfree (pPageData m) h; set_mem p (m\<lparr>pPageData := Null\<rparr>) h' }
             else Some h);
       hfree p h1 } }"

definition rsa_init_mem_data ::
  "u64 \<Rightarrow> ptr \<Rightarrow> ptr option \<Rightarrow> host \<Rightarrow> (rc \<times> ptr option \<times> host) option" where
  "rsa_init_mem_data unVirtAddr0 pData ppMemData h =
     (let fail = (\<lambda>rc p h. do { h' \<leftarrow> rsa_cleanup_mem_data p h;
                               Some (rc, map_option (\<lambda>_. Null) ppMemData, h') })
      in do {
        t \<leftarrow> (if ppMemData = None then Some False else ptr_true pData);
        if \<not> t \<or> unVirtAddr0 < 0 then fail ARG_ERROR Null h
        else case malloc_mem h of
          (p, h1) \<Rightarrow>
            if p = Null then fail PTR_ERROR Null h1
            else case malloc_bytes page_size64 h1 of
              (q, h2) \<Rightarrow> do {
                m \<leftarrow> get_mem h2 p;
                h3 \<leftarrow> set_mem p (m\<lparr>pPageData := q\<rparr>) h2;
                if q = Null then fail PTR_ERROR p h3
                else do {
                  h4 \<leftarrow> set_mem p \<lparr>unVirtAddr = unVirtAddr0, pPageData = q\<rparr> h3;
                  bytes \<leftarrow> load_bytes h4 pData 0 PAGESIZE;
                  h5 \<leftarrow> store_bytes q 0 bytes h4;
                  Some (NO_ERROR, Some p, h5) } } })"

section \<open>The message of one page\<close>

definition rsa_serialize_mem_data :: "ptr \<Rightarrow> ptr \<Rightarrow> host \<Rightarrow> (rc \<times> host) option" where
  "rsa_serialize_mem_data pMemData pByteStream h = do {
     t \<leftarrow> ptr_true pMemData;
     u \<leftarrow> (if t then ptr_true pByteStream else Some True);
     if \<not> t \<or> \<not> u then Some (ARG_ERROR, h)
     else do {
       m \<leftarrow> get_mem h pMemData;
       bail_then (rsa_buffer_serialize_uint64 (unVirtAddr m) pByteStream h)
         (\<lambda>h1. do { m1 \<leftarrow> get_mem h1 pMemData;
                    rsa_buffer_serialize_blob (pPageData m1) page_size64 pByteStream h1 }) } }"

definition rsa_deserialize_mem_data ::
  "ptr \<Rightarrow> ptr option \<Rightarrow> host \<Rightarrow> (rc \<times> ptr option \<times> host) option" where
  "rsa_deserialize_mem_data pByteStream ppMemData h =
     (let fail = (\<lambda>rc p h. do { h' \<leftarrow> rsa_cleanup_mem_data p h;
                               Some (rc, map_option (\<lambda>_. Null) ppMemData, h') })
      in do {
        t \<leftarrow> ptr_true pByteStream;
        if \<not> t \<or> ppMemData = None then fail ARG_ERROR Null h
        else case malloc_mem h of
          (p, h1) \<Rightarrow>
            if p = Null then fail PTR_ERROR Null h1
            else do {
              m \<leftarrow> get_mem h1 p;
              (rc, addr, h2) \<leftarrow> rsa_buffer_deserialize_uint64 pByteStream (Some (unVirtAddr m)) h1;
              addr' \<leftarrow> addr;
              h3 \<leftarrow> set_mem p (m\<lparr>unVirtAddr := addr'\<rparr>) h2;
              if rc \<noteq> 0 then fail rc p h3
              else case malloc_bytes page_size64 h3 of
                (q, h4) \<Rightarrow> do {
                  m4 \<leftarrow> get_mem h4 p;
                  h5 \<leftarrow> set_mem p (m4\<lparr>pPageData := q\<rparr>) h4;
                  if q = Null then fail PTR_ERROR p h5
                  else do {
                    (rc, pd, h6) \<leftarrow> rsa_buffer_deserialize_blob pByteStream page_size64 (Some q) h5;
                    q' \<leftarrow> pd;
                    m6 \<leftarrow> get_mem h6 p;
                    h7 \<leftarrow> set_mem p (m6\<lparr>pPageData := q'\<rparr>) h6;
                    if rc \<noteq> 0 then fail rc p h7
                    else Some (NO_ERROR, Some p, h7) } } } })"

section \<open>Exchanging a page with the server\<close>

text \<open>The locals of \<open>rsa_download_more_ram\<close> and what it works on.\<close>

record dl_state =
  dl_host :: host
  dl_net :: net
  dl_sys :: sysenv
  dl_info :: bool
  dl_fd :: int
  dl_send :: ptr
  dl_recv :: ptr
  dl_ret :: ptr

definition dl_create :: "dl_state \<Rightarrow> (rc \<times> dl_state) option" where
  "dl_create d =
     (case rsa_net_create_socket (Some (dl_info d)) (Some (dl_fd d)) (dl_sys d) of
        (rc, ai, fd, sy) \<Rightarrow> do { ai' \<leftarrow> ai; fd' \<leftarrow> fd;
          Some (rc, d\<lparr>dl_info := ai', dl_fd := fd', dl_sys := sy\<rparr>) })"

definition dl_connect :: "dl_state \<Rightarrow> (rc \<times> dl_state) option" where
  "dl_connect d = Some (rsa_net_connect_socket RSA_PROC_CLIENT (dl_info d) (dl_fd d) (dl_sys d), d)"

definition dl_init_send :: "dl_state \<Rightarrow> (rc \<times> dl_state) option" where
  "dl_init_send d = do {
     (rc, p, h) \<leftarrow> rsa_buffer_init_buffer (page_size64 + 8) (Some (dl_send d)) (dl_host d);
     p' \<leftarrow> p; Some (rc, d\<lparr>dl_send := p', dl_host := h\<rparr>) }"

definition dl_init_recv :: "dl_state \<Rightarrow> (rc \<times> dl_state) option" where
  "dl_init_recv d = do {
     (rc, p, h) \<leftarrow> rsa_buffer_init_buffer (page_size64 + 8) (Some (dl_recv d)) (dl_host d);
     p' \<leftarrow> p; Some (rc, d\<lparr>dl_recv := p', dl_host := h\<rparr>) }"

definition dl_serialize :: "ptr \<Rightarrow> dl_state \<Rightarrow> (rc \<times> dl_state) option" where
  "dl_serialize pMemData d = do {
     (rc, h) \<leftarrow> rsa_serialize_mem_data pMemData (dl_send d) (dl_host d);
     Some (rc, d\<lparr>dl_host := h\<rparr>) }"

text \<open>\<open>BAIL_IF_ERROR(pSendStream->szWriteCur != temp, COM_ERROR, rc)\<close> after the write.\<close>

definition dl_write :: "dl_state \<Rightarrow> (rc \<times> dl_state) option" where
  "dl_write d = do {
     (rc, sent, nt) \<leftarrow> rsa_buffer_write_to_socket (dl_fd d) (dl_send d) (Some 0) (dl_host d) (dl_net d);
     sent' \<leftarrow> sent;
     s \<leftarrow> get_stream (dl_host d) (dl_send d);
     Some (if szWriteCur s \<noteq> scast sent' then COM_ERROR else NO_ERROR, d\<lparr>dl_net := nt\<rparr>) }"

definition dl_read :: "dl_state \<Rightarrow> (rc \<times> dl_state) option" where
  "dl_read d = do {
     (rc, got, h, nt) \<leftarrow>
       rsa_buffer_read_from_socket (dl_fd d) (dl_recv d) (Some 0) (dl_host d) (dl_net d);
     Some (rc, d\<lparr>dl_host := h, dl_net := nt\<rparr>) }"

definition dl_deserialize :: "dl_state \<Rightarrow> (rc \<times> dl_state) option" where
  "dl_deserialize d = do {
     (rc, p, h) \<leftarrow> rsa_deserialize_mem_data (dl_recv d) (Some (dl_ret d)) (dl_host d);
     p' \<leftarrow> p; Some (rc, d\<lparr>dl_ret := p', dl_host := h\<rparr>) }"

definition dl_body :: "ptr \<Rightarrow> dl_state \<Rightarrow> (rc \<times> dl_state) option" where
  "dl_body pMemData d =
     bail_then (dl_create d) (\<lambda>d. bail_then (dl_connect d) (\<lambda>d. bail_then (dl_init_send d) (\<lambda>d.
     bail_then (dl_init_recv d) (\<lambda>d. bail_then (dl_serialize pMemData d) (\<lambda>d.
     bail_then (dl_write d) (\<lambda>d. bail_then (dl_read d) dl_deserialize))))))"

text \<open>
  The whole call: the body, the \<open>error\<close> and \<open>cleanup\<close> labels, and \<open>return 0\<close>.
\<close>

definition rsa_download_more_ram ::
  "ptr \<Rightarrow> ptr option \<Rightarrow> host \<Rightarrow> net \<Rightarrow> sysenv \<Rightarrow>
   (rc \<times> ptr option \<times> host \<times> net \<times> sysenv) option" where
  "rsa_download_more_ram pMemData ppRetData h nt sy =
     (let d0 = \<lparr>dl_host = h, dl_net = nt, dl_sys = sy, dl_info = False, dl_fd = 0,
                dl_send = Null, dl_recv = Null, dl_ret = Null\<rparr>
      in do {
        t \<leftarrow> (if ppRetData = None then Some False else ptr_true pMemData);
        (rc, d) \<leftarrow> (if \<not> t then Some (ARG_ERROR, d0) else dl_body pMemData d0);
        (out, h1) \<leftarrow> (if rc \<noteq> 0
           then do { h' \<leftarrow> rsa_cleanup_mem_data (dl_ret d) (dl_host d);
                     Some (map_option (\<lambda>_. Null) ppRetData, h') }
           else Some (map_option (\<lambda>_. dl_ret d) ppRetData, dl_host d));
        let sy1 = sys_close (dl_fd d) (sys_freeaddrinfo (dl_info d) (dl_sys d));
        h2 \<leftarrow> rsa_buffer_cleanup_buffer (dl_send d) h1;
        h3 \<leftarrow> rsa_buffer_cleanup_buffer (dl_recv d) h2;
        Some (0, out, h3, dl_net d, sy1) })"

section \<open>Writing a message\<close>

text \<open>\<open>p\<close> is a page record for address \<open>v\<close> whose page data starts with \<open>page\<close>.\<close>

definition mem_at :: "host \<Rightarrow> ptr \<Rightarrow> u64 \<Rightarrow> ptr \<Rightarrow> byte list \<Rightarrow> bool" where
  "mem_at h p v q page \<longleftrightarrow>
     get_mem h p = Some \<lparr>unVirtAddr = v, pPageData = q\<rparr> \<and>
     (\<exists>pg. get_bytes h q = Some pg \<and> PAGESIZE \<le> length pg \<and> page = take PAGESIZE pg)"

lemma mem_at_length: "mem_at h p v q page \<Longrightarrow> length page = PAGESIZE"
  by (auto simp: mem_at_def)

lemma mem_at_blob: "mem_at h p v q page \<Longrightarrow> q \<noteq> b \<Longrightarrow> blob_valid h b (q, page)"
  by (auto simp: mem_at_def blob_valid_def PAGESIZE_def)

lemma appended_get_mem:
  "stream_at h p s bs \<Longrightarrow> get_mem h q = Some m \<Longrightarrow> get_mem (appended p s bs xs h) q = Some m"
  using put_cell_other(5) [of h q m "pBuffer s" bs] put_cell_other(3) [of h p s "pBuffer s" bs]
  by (simp add: appended_def stream_at_simps put_cell_other(6))

lemma unat_page_size64 [simp]: "unat page_size64 = PAGESIZE"
  by (simp add: page_size64_def PAGESIZE_def)

lemma serialize_is_pair:
  assumes st: "stream_at h p s bs" and m: "mem_at h pm v q page"
    and fits: "unat (szWriteCur s) + 8 \<le> length bs"
  shows "rsa_serialize_mem_data pm p h =
    bail_then (rsa_buffer_serialize_uint64 v p h) (put_blob (q, page) p)"
proof -
  have g: "get_mem h pm = Some \<lparr>unVirtAddr = v, pPageData = q\<rparr>" "ptr_true pm = Some True"
    using m by (auto simp: mem_at_def get_mem_Some)
  have "rsa_buffer_serialize_uint64 v p h = Some (NO_ERROR, appended p s bs (net_bytes v) h)"
    using st fits by (intro u64_writer.put_room) simp_all
  then show ?thesis using g st
    by (simp add: rsa_serialize_mem_data_def stream_at_simps appended_get_mem put_blob_def
        mem_at_length [OF m] page_size64_def)
qed

lemma serialize_mem_data_room:
  assumes st: "stream_at h (Ptr a) s bs" and b: "pBuffer s = Ptr b" and m: "mem_at h pm v q page"
    and q: "q \<noteq> Ptr b" and room: "unat (szWriteCur s) + (8 + PAGESIZE) \<le> length bs"
  shows "\<exists>h'. rsa_serialize_mem_data pm (Ptr a) h = Some (NO_ERROR, h') \<and>
    stream_at h' (Ptr a) (s\<lparr>szWriteCur := szWriteCur s + of_nat (8 + PAGESIZE)\<rparr>)
      (splice_at (unat (szWriteCur s)) (net_bytes v @ page) bs) \<and> frame {a, b} h h'"
proof -
  have "blob_valid h (pBuffer s) (q, page)" using m q b by (simp add: mem_at_blob)
  then show ?thesis
    using message_writer.put_both [OF st _ _, of "(q, page)" v] room b serialize_is_pair [OF st m]
    by (simp add: mem_at_length [OF m])
qed

text \<open>A page pointer whose bytes are fewer than a page is read past its end.\<close>

lemma serialize_mem_data_short_page:
  assumes st: "stream_at h (Ptr a) s bs" and b: "pBuffer s = Ptr b"
    and m: "get_mem h pm = Some \<lparr>unVirtAddr = v, pPageData = Ptr q\<rparr>"
    and d: "get_bytes h (Ptr q) = Some ds" "length ds < PAGESIZE" "q \<noteq> b"
    and cur: "szWriteCur s = 0" and len: "length bs = PAGESIZE + 8"
  shows "rsa_serialize_mem_data pm (Ptr a) h = None"
proof -
  let ?h1 = "appended (Ptr a) s bs (net_bytes v) h"
  have ser: "rsa_buffer_serialize_uint64 v (Ptr a) h = Some (NO_ERROR, ?h1)"
    using st len cur by (intro u64_writer.put_room) simp_all
  have g1: "get_mem ?h1 pm = Some \<lparr>unVirtAddr = v, pPageData = Ptr q\<rparr>" "get_bytes ?h1 (Ptr q) = Some ds"
    using appended_get_mem [OF st m] appended_get_bytes [OF st _ d(1)] b d(3) by simp_all
  let ?s1 = "s\<lparr>szWriteCur := szWriteCur s + of_nat (length (net_bytes v))\<rparr>"
  have "stream_at ?h1 (Ptr a) ?s1 (splice_at (unat (szWriteCur s)) (net_bytes v) bs)"
    using st len cur by (intro stream_at_appended) simp_all
  then have "rsa_buffer_serialize_blob (Ptr q) page_size64 (Ptr a) ?h1 = None"
    if "rsa_buffer_can_write_to_buffer ?s1 page_size64"
    using that d(2) g1(2) by (simp add: rsa_buffer_serialize_blob_def stream_at_simps load_bytes_def
        del: get_stream.simps get_bytes.simps)
  moreover have "rsa_buffer_can_write_to_buffer ?s1 page_size64"
    using st len cur by (subst can_write_iff) (simp_all add: stream_at_def PAGESIZE_def)
  moreover have "ptr_true pm = Some True" using m by (auto simp: get_mem_Some)
  ultimately show ?thesis using m g1 ser by (simp add: rsa_serialize_mem_data_def del: get_mem.simps)
qed

section \<open>Reading a message\<close>

text \<open>What a reader finds in a buffer: an address and the page after it.\<close>

definition read_addr :: "nat \<Rightarrow> byte list \<Rightarrow> u64" where
  "read_addr r bs = le_word (rev (segment r 8 bs))"

lemma read_addr_net_bytes: "r + 8 \<le> length bs \<Longrightarrow> net_bytes (read_addr r bs) = segment r 8 bs"
  using le_bytes_le_word [of "rev (segment r 8 bs)", where 'a = 64]
  by (simp add: read_addr_def net_bytes_def)

lemma read_addr_unique: "net_bytes v = segment r 8 bs \<Longrightarrow> read_addr r bs = v"
proof -
  assume "net_bytes v = segment r 8 bs"
  then have "rev (segment r 8 bs) = le_bytes 8 v" by (metis net_bytes_def rev_rev_ident)
  then show ?thesis by (simp add: read_addr_def le_word_le_bytes)
qed

text \<open>
  The host after a successful \<open>rsa_deserialize_mem_data\<close>: \<open>n\<close> is the new record,
  \<open>n + 2\<close> its page data, and \<open>n + 1\<close> the page allocated first and never used.
\<close>

definition message_read :: "nat \<Rightarrow> byte_stream \<Rightarrow> byte list \<Rightarrow> host \<Rightarrow> host \<Rightarrow> bool" where
  "message_read a s bs h h' \<longleftrightarrow> (let r = unat (szReadCur s); n = hp_next h in
     hp_cells h' n = Some (MemCell \<lparr>unVirtAddr = read_addr r bs, pPageData = Ptr (n + 2)\<rparr>) \<and>
     hp_cells h' (n + 2) = Some (Bytes (segment (r + 8) PAGESIZE bs)) \<and>
     (\<exists>junk. hp_cells h' (n + 1) = Some (Bytes junk) \<and> length junk = PAGESIZE) \<and>
     hp_cells h' a = Some (StreamCell (s\<lparr>szReadCur := szReadCur s + of_nat (8 + PAGESIZE)\<rparr>)) \<and>
     (\<forall>c. c \<notin> {a, n, n + 1, n + 2} \<longrightarrow> hp_cells h' c = hp_cells h c) \<and>
     hp_next h' = n + 3 \<and> hp_plan h' = [] \<and> big_endian h' = big_endian h)"

lemma stream_at_cells:
  assumes "stream_at h (Ptr a) s bs" and "pBuffer s = Ptr b"
    and "hp_cells h' a = hp_cells h a" and "hp_cells h' b = hp_cells h b"
  shows "stream_at h' (Ptr a) s bs"
  using assms by (simp add: stream_at_def)

lemma deserialize_uint64_at:
  assumes st: "stream_at h (Ptr a) s bs" and room: "unat (szReadCur s) + 8 \<le> length bs"
  shows "rsa_buffer_deserialize_uint64 (Ptr a) (Some w) h =
    Some (NO_ERROR, Some (read_addr (unat (szReadCur s)) bs),
      h\<lparr>hp_cells := (hp_cells h)(a \<mapsto> StreamCell (s\<lparr>szReadCur := szReadCur s + 8\<rparr>))\<rparr>)"
  using deserialize_uint64_ok [OF assms, of w] by (auto dest: read_addr_unique)

lemma deserialize_mem_data_ok:
  assumes st: "stream_at h (Ptr a) s bs" and ok: "host_ok h" and plan: "hp_plan h = []"
    and room: "unat (szReadCur s) + (8 + PAGESIZE) \<le> length bs"
  shows "\<exists>h'. rsa_deserialize_mem_data (Ptr a) (Some w) h = Some (NO_ERROR, Some (Ptr (hp_next h)), h') \<and>
    message_read a s bs h h'"
proof -
  obtain b where b: "pBuffer s = Ptr b" "hp_cells h a = Some (StreamCell s)"
    "hp_cells h b = Some (Bytes bs)" "a \<noteq> b"
    using st by (auto elim: stream_atE)
  define n r v where "n = hp_next h" and "r = unat (szReadCur s)"
    and "v = read_addr (unat (szReadCur s)) bs"
  have fresh: "a < n" "b < n" "hp_cells h n = None"
    using b ok by (auto simp: host_ok_def n_def intro: ccontr)
  define m0 where "m0 = \<lparr>unVirtAddr = junk_u64 h 0, pPageData = Wild\<rparr>"
  define h1 where "h1 = h\<lparr>hp_next := Suc n, hp_cells := (hp_cells h)(n \<mapsto> MemCell m0)\<rparr>"
  define s1 where "s1 = s\<lparr>szReadCur := szReadCur s + 8\<rparr>"
  define h3 where "h3 = h1\<lparr>hp_cells := (hp_cells h1)(a \<mapsto> StreamCell s1,
      n \<mapsto> MemCell (m0\<lparr>unVirtAddr := v\<rparr>))\<rparr>"
  define h5 where "h5 = h3\<lparr>hp_next := Suc (Suc n),
      hp_cells := (hp_cells h3)(Suc n \<mapsto> Bytes (junk_bytes h3 PAGESIZE),
        n \<mapsto> MemCell \<lparr>unVirtAddr = v, pPageData = Ptr (Suc n)\<rparr>)\<rparr>"
  have alloc1: "malloc_mem h = (Ptr n, h1)"
    using plan by (simp add: malloc_mem_def halloc_success h1_def m0_def n_def)
  have st1: "stream_at h1 (Ptr a) s bs"
    using st b(1) by (rule stream_at_cells) (use fresh in \<open>simp_all add: h1_def\<close>)
  have d64: "rsa_buffer_deserialize_uint64 (Ptr a) (Some (unVirtAddr m0)) h1 =
      Some (NO_ERROR, Some v, h1\<lparr>hp_cells := (hp_cells h1)(a \<mapsto> StreamCell s1)\<rparr>)"
    using deserialize_uint64_at [OF st1] room by (simp add: v_def s1_def)
  have alloc2: "malloc_bytes page_size64 h3 =
      (Ptr (Suc n), h3\<lparr>hp_next := Suc (Suc n),
         hp_cells := (hp_cells h3)(Suc n \<mapsto> Bytes (junk_bytes h3 PAGESIZE))\<rparr>)"
    using plan by (simp add: malloc_bytes_def halloc_success h3_def h1_def)
  have u1: "unat (szReadCur s1) = r + 8"
    using st room by (simp add: s1_def r_def unat_add_nowrap stream_at_def)
  have st5: "stream_at h5 (Ptr a) s1 bs"
    using st b fresh u1 room by (simp add: stream_at_def h5_def h3_def h1_def s1_def r_def)
  have ok5: "host_ok h5"
    using ok fresh by (auto simp: host_ok_def h5_def h3_def h1_def n_def)
  have blob: "rsa_buffer_deserialize_blob (Ptr a) page_size64 (Some (Ptr (Suc n))) h5 =
      Some (NO_ERROR, Some (Ptr (Suc (Suc n))),
        h5\<lparr>hp_plan := tl (hp_plan h5), hp_next := Suc (Suc (Suc n)),
          hp_cells := (hp_cells h5)(Suc (Suc n) \<mapsto> Bytes (segment (r + 8) PAGESIZE bs),
            a \<mapsto> StreamCell (s1\<lparr>szReadCur := szReadCur s1 + page_size64\<rparr>))\<rparr>)"
    using deserialize_blob_ok [OF st5 ok5, of page_size64 "Ptr (Suc n)"] room u1 plan
    by (simp add: h5_def h3_def h1_def malloc_ok_def r_def)
  have cur: "szReadCur s1 + page_size64 = szReadCur s + of_nat (8 + PAGESIZE)"
    by (simp add: s1_def page_size64_def)
  define h6 where "h6 = h5\<lparr>hp_plan := tl (hp_plan h5), hp_next := Suc (Suc (Suc n)),
      hp_cells := (hp_cells h5)(Suc (Suc n) \<mapsto> Bytes (segment (r + 8) PAGESIZE bs),
        a \<mapsto> StreamCell (s1\<lparr>szReadCur := szReadCur s1 + page_size64\<rparr>))\<rparr>"
  define h7 where "h7 = h6\<lparr>hp_cells := (hp_cells h6)(n \<mapsto>
      MemCell \<lparr>unVirtAddr = v, pPageData = Ptr (Suc (Suc n))\<rparr>)\<rparr>"
  have steps: "get_mem h1 (Ptr n) = Some m0"
    "set_mem (Ptr n) (m0\<lparr>unVirtAddr := v\<rparr>)
       (h1\<lparr>hp_cells := (hp_cells h1)(a \<mapsto> StreamCell s1)\<rparr>) = Some h3"
    "get_mem (h3\<lparr>hp_next := Suc (Suc n),
         hp_cells := (hp_cells h3)(Suc n \<mapsto> Bytes (junk_bytes h3 PAGESIZE))\<rparr>) (Ptr n) =
       Some (m0\<lparr>unVirtAddr := v\<rparr>)"
    "set_mem (Ptr n) (m0\<lparr>unVirtAddr := v, pPageData := Ptr (Suc n)\<rparr>)
       (h3\<lparr>hp_next := Suc (Suc n),
         hp_cells := (hp_cells h3)(Suc n \<mapsto> Bytes (junk_bytes h3 PAGESIZE))\<rparr>) = Some h5"
    "get_mem h6 (Ptr n) = Some \<lparr>unVirtAddr = v, pPageData = Ptr (Suc n)\<rparr>"
    "set_mem (Ptr n) \<lparr>unVirtAddr = v, pPageData = Ptr (Suc (Suc n))\<rparr> h6 = Some h7"
    using fresh by (simp_all add: set_mem_def h1_def h3_def h5_def h6_def h7_def m0_def)
  have run: "rsa_deserialize_mem_data (Ptr a) (Some w) h = Some (NO_ERROR, Some (Ptr n), h7)"
    by (simp add: rsa_deserialize_mem_data_def alloc1 d64 alloc2 steps blob [folded h6_def]
        del: get_mem.simps)
  have "message_read a s bs h h7"
    unfolding message_read_def Let_def using fresh plan cur
    by (simp add: h7_def h6_def h5_def h3_def h1_def n_def r_def v_def s1_def)
  with run show ?thesis by (auto simp: n_def)
qed

text \<open>
  Where not even the address can be read, the record just allocated is released through its
  page pointer, which was never assigned.
\<close>

lemma deserialize_mem_data_short_address:
  assumes st: "stream_at h (Ptr a) s bs" and ok: "host_ok h" and mal: "malloc_ok h"
    and short: "length bs < unat (szReadCur s) + 8"
  shows "rsa_deserialize_mem_data (Ptr a) (Some w) h = None"
proof -
  obtain b where b: "pBuffer s = Ptr b" "hp_cells h a = Some (StreamCell s)"
    "hp_cells h b = Some (Bytes bs)" "a \<noteq> b"
    using st by (auto elim: stream_atE)
  define n m0 where "n = hp_next h" and "m0 = \<lparr>unVirtAddr = junk_u64 h 0, pPageData = Wild\<rparr>"
  have fresh: "a < n" "b < n"
    using b ok by (auto simp: host_ok_def n_def intro: ccontr)
  define h1 where "h1 = h\<lparr>hp_plan := tl (hp_plan h), hp_next := Suc n,
      hp_cells := (hp_cells h)(n \<mapsto> MemCell m0)\<rparr>"
  have alloc: "malloc_mem h = (Ptr n, h1)"
    using mal by (simp add: malloc_mem_def host_simps h1_def m0_def n_def)
  have "stream_at h1 (Ptr a) s bs"
    using st b(1) by (rule stream_at_cells) (use fresh in \<open>simp_all add: h1_def\<close>)
  then have "rsa_buffer_deserialize_uint64 (Ptr a) (Some (unVirtAddr m0)) h1 = Some (COM_ERROR, Some 0, h1)"
    using short by (rule deserialize_uint64_short)
  then show ?thesis
    by (simp add: rsa_deserialize_mem_data_def alloc) (simp add: h1_def set_mem_def m0_def rsa_cleanup_mem_data_def)
qed

section \<open>Exchanging a page with the server\<close>

abbreviation "msg_size \<equiv> page_size64 + 8"

lemma unat_msg_size [simp]: "unat msg_size = PAGESIZE + 8"
  by (simp add: page_size64_def PAGESIZE_def)

lemma cleanup_mem_null [simp]: "rsa_cleanup_mem_data Null h = Some h"
  by (simp add: rsa_cleanup_mem_data_def)

lemma mem_at_cells:
  "mem_at h (Ptr x) v (Ptr y) page \<Longrightarrow> hp_cells h' x = hp_cells h x \<Longrightarrow> hp_cells h' y = hp_cells h y \<Longrightarrow>
   mem_at h' (Ptr x) v (Ptr y) page"
  by (simp add: mem_at_def)

lemma mem_atE:
  assumes "mem_at h p v q page" and "host_ok h"
  obtains x y where "p = Ptr x" "q = Ptr y" "x < hp_next h" "y < hp_next h"
  using assms by (auto simp: mem_at_def get_Some host_ok_def) (metis not_le option.distinct(1))

text \<open>The connection is set up and the server is reached.\<close>

definition reachable_server :: "sysenv \<Rightarrow> bool" where
  "reachable_server sy \<longleftrightarrow> sy_gai sy = 0 \<and> 0 < sy_socket sy \<and> sy_connect sy = 0"

definition exchanged ::
  "host \<Rightarrow> net \<Rightarrow> sysenv \<Rightarrow> u64 \<Rightarrow> byte list \<Rightarrow> byte list \<Rightarrow> host \<Rightarrow> net \<Rightarrow> sysenv \<Rightarrow> bool" where
  "exchanged h nt sy v page c h' nt' sy' \<longleftrightarrow> (\<exists>bs n. n = hp_next h \<and>
     length bs = PAGESIZE + 8 \<and> take (length c) bs = take (PAGESIZE + 8) c \<and>
     nt_sent nt' = nt_sent nt @ net_bytes v @ page \<and>
     mem_at h' (Ptr (n + 4)) (read_addr 0 bs) (Ptr (n + 6)) (segment 8 PAGESIZE bs) \<and>
     live h' = live h \<union> {n + 4, n + 5, n + 6} \<and>
     (\<forall>a. a \<notin> {n + 4, n + 5, n + 6} \<longrightarrow> hp_cells h' a = hp_cells h a) \<and>
     hp_next h' = n + 7 \<and> hp_plan h' = [] \<and> sy' = sys_close (sy_socket sy) sy)"

text \<open>
  The state between the steps of \<open>dl_body\<close>, started on the host \<open>h\<close>: the two buffers
  occupy the four cells from \<open>n = hp_next h\<close> on, and nothing else has changed.
\<close>

definition dl_streams ::
  "host \<Rightarrow> dl_state \<Rightarrow> byte_stream \<Rightarrow> byte list \<Rightarrow> byte_stream \<Rightarrow> byte list \<Rightarrow> bool" where
  "dl_streams h d s1 b1 s2 b2 \<longleftrightarrow> (let n = hp_next h; g = dl_host d in
     host_ok h \<and> dl_send d = Ptr n \<and> dl_recv d = Ptr (n + 2) \<and> dl_info d \<and> dl_ret d = Null \<and>
     stream_at g (Ptr n) s1 b1 \<and> pBuffer s1 = Ptr (n + 1) \<and>
     stream_at g (Ptr (n + 2)) s2 b2 \<and> pBuffer s2 = Ptr (n + 3) \<and>
     (\<forall>a. a \<notin> {n, n + 1, n + 2, n + 3} \<longrightarrow> hp_cells g a = hp_cells h a) \<and>
     hp_next g = n + 4 \<and> hp_plan g = [])"

lemma page_sizes: "PAGESIZE + 8 < 2 ^ 63" "PAGESIZE + 8 < 2147483648"
  by (simp_all add: PAGESIZE_def)

lemma scast_msg: "(scast (of_nat (PAGESIZE + 8) :: u32) :: u64) = of_nat (8 + PAGESIZE)"
  by (subst scast_small [OF page_sizes(2)]) (simp add: add.commute)

lemma dl_buffers:
  assumes ok: "host_ok (dl_host d)" and plan: "hp_plan (dl_host d) = []"
    and d: "dl_info d" "dl_send d = Null" "dl_recv d = Null" "dl_ret d = Null"
  shows "\<exists>d2 b1 b2 s1 s2. bail_then (dl_init_send d) dl_init_recv = Some (0, d2) \<and>
    dl_streams (dl_host d) d2 s1 b1 s2 b2 \<and> length b1 = PAGESIZE + 8 \<and> length b2 = PAGESIZE + 8 \<and>
    szWriteCur s1 = 0 \<and> szReadCur s2 = 0 \<and> dl_net d2 = dl_net d \<and> dl_sys d2 = dl_sys d \<and>
    dl_fd d2 = dl_fd d"
proof -
  define h n where "h = dl_host d" and "n = hp_next (dl_host d)"
  have gt: "0 < msg_size" by (simp add: word_less_nat_alt)
  define h1 h2 where "h1 = stream_created msg_size h" and "h2 = stream_created msg_size h1"
  define s1 s2 where "s1 = fresh_stream msg_size (n + 1)" and "s2 = fresh_stream msg_size (n + 3)"
  define b1 b2 where "b1 = map (hp_junk h (n + 1)) [0..<PAGESIZE + 8]"
    and "b2 = map (hp_junk h (n + 3)) [0..<PAGESIZE + 8]"
  have nx: "hp_next h1 = n + 2" "hp_plan h1 = []" "hp_next h2 = n + 4" "hp_plan h2 = []"
    using plan by (simp_all add: h1_def h2_def stream_created_def n_def h_def)
  have mk: "rsa_buffer_init_buffer msg_size (Some Null) h = Some (NO_ERROR, Some (Ptr n), h1)"
    "rsa_buffer_init_buffer msg_size (Some Null) h1 = Some (NO_ERROR, Some (Ptr (n + 2)), h2)"
    using init_buffer_ok [OF gt, of h] init_buffer_ok [OF gt, of h1] plan nx
    by (simp_all add: malloc_ok_def h1_def h2_def n_def h_def)
  have cells: "hp_cells h2 = (hp_cells h)(n \<mapsto> StreamCell s1, n + 1 \<mapsto> Bytes b1,
      n + 2 \<mapsto> StreamCell s2, n + 3 \<mapsto> Bytes b2)"
    by (simp add: h2_def h1_def stream_created_def s1_def s2_def n_def h_def b1_def b2_def numeral_3_eq_3)
  have len: "length b1 = PAGESIZE + 8" "length b2 = PAGESIZE + 8" by (simp_all add: b1_def b2_def)
  have "stream_at h2 (Ptr n) s1 b1" "stream_at h2 (Ptr (n + 2)) s2 b2"
    using cells len page_sizes by (simp_all add: stream_at_def s1_def s2_def fresh_stream_def)
  then have "dl_streams h (d\<lparr>dl_send := Ptr n, dl_recv := Ptr (n + 2), dl_host := h2\<rparr>) s1 b1 s2 b2"
    using ok d nx cells by (simp add: dl_streams_def n_def h_def s1_def s2_def fresh_stream_def)
  moreover have "bail_then (dl_init_send d) dl_init_recv =
      Some (0, d\<lparr>dl_send := Ptr n, dl_recv := Ptr (n + 2), dl_host := h2\<rparr>)"
    using mk d by (simp add: dl_init_send_def dl_init_recv_def h_def)
  ultimately show ?thesis using len
    by (intro exI [of _ "d\<lparr>dl_send := Ptr n, dl_recv := Ptr (n + 2), dl_host := h2\<rparr>"]
        exI [of _ b1] exI [of _ b2] exI [of _ s1] exI [of _ s2])
      (simp add: h_def s1_def s2_def fresh_stream_def)
qed

lemma dl_request:
  assumes st: "dl_streams h d s1 b1 s2 b2" and m: "mem_at h pm v q page"
    and s1: "szWriteCur s1 = 0" "length b1 = PAGESIZE + 8"
    and fd: "0 \<le> dl_fd d" and sends: "SendFails \<notin> set (nt_send (dl_net d))"
  shows "\<exists>d2 s1'. bail_then (dl_serialize pm d) dl_write = Some (0, d2) \<and>
    dl_streams h d2 s1' (net_bytes v @ page) s2 b2 \<and>
    nt_sent (dl_net d2) = nt_sent (dl_net d) @ net_bytes v @ page \<and>
    nt_recv (dl_net d2) = nt_recv (dl_net d) \<and> dl_sys d2 = dl_sys d \<and> dl_fd d2 = dl_fd d"
proof -
  define n where "n = hp_next h"
  have D: "host_ok h" "dl_send d = Ptr n" "stream_at (dl_host d) (Ptr n) s1 b1" "pBuffer s1 = Ptr (n + 1)"
    "stream_at (dl_host d) (Ptr (n + 2)) s2 b2" "pBuffer s2 = Ptr (n + 3)"
    "\<forall>a. a \<notin> {n, n + 1, n + 2, n + 3} \<longrightarrow> hp_cells (dl_host d) a = hp_cells h a"
    using st by (simp_all add: dl_streams_def n_def Let_def)
  obtain x y where xy: "pm = Ptr x" "q = Ptr y" "x < n" "y < n"
    using m D(1) unfolding n_def by (rule mem_atE)
  then have m2: "mem_at (dl_host d) pm v q page" using m D(7) by (auto intro: mem_at_cells)
  define s1' where "s1' = s1\<lparr>szWriteCur := of_nat (8 + PAGESIZE)\<rparr>"
  obtain g where ser: "rsa_serialize_mem_data pm (Ptr n) (dl_host d) = Some (NO_ERROR, g)"
    and st1: "stream_at g (Ptr n) s1' (net_bytes v @ page)" and fr: "frame {n, n + 1} (dl_host d) g"
    using serialize_mem_data_room [OF D(3,4) m2] xy s1
    by (auto simp: s1'_def splice_at_def mem_at_length [OF m])
  have wcur: "unat (szWriteCur s1') = PAGESIZE + 8" by (simp add: s1'_def PAGESIZE_def)
  obtain nt where wr: "rsa_buffer_write_to_socket (dl_fd d) (Ptr n) (Some 0) g (dl_net d) =
      Some (NO_ERROR, Some (of_nat (PAGESIZE + 8)), nt)"
    and nt: "nt_sent nt = nt_sent (dl_net d) @ net_bytes v @ page" "nt_recv nt = nt_recv (dl_net d)"
    using write_to_socket_ok [OF st1, of "dl_fd d" 0 "dl_net d"] wcur page_sizes sends fd
    by (auto simp: mem_at_length [OF m])
  have "stream_at g (Ptr (n + 2)) s2 b2"
    using D(5,6) by (rule stream_at_cells) (use fr in \<open>simp_all add: frame_def\<close>)
  then have "dl_streams h (d\<lparr>dl_host := g, dl_net := nt\<rparr>) s1' (net_bytes v @ page) s2 b2"
    using st st1 fr D(7) by (simp add: dl_streams_def n_def [symmetric] frame_def s1'_def Let_def)
  moreover have "(scast (of_nat (PAGESIZE + 8) :: u32) :: u64) = szWriteCur s1'"
    by (subst scast_msg) (simp add: s1'_def)
  then have "bail_then (dl_serialize pm d) dl_write = Some (0, d\<lparr>dl_host := g, dl_net := nt\<rparr>)"
    using ser wr D(2) stream_at_simps(1) [OF st1] by (simp add: dl_serialize_def dl_write_def)
  ultimately show ?thesis using nt by fastforce
qed

lemma dl_reply:
  assumes st: "dl_streams h d s1 b1 s2 b2" and s2: "szReadCur s2 = 0" "length b2 = PAGESIZE + 8"
    and fd: "0 \<le> dl_fd d" and recv: "nt_recv (dl_net d) = Some c # rest"
  defines "bs \<equiv> splice_at 0 (take (PAGESIZE + 8) c) b2"
  shows "\<exists>d2 s2'. dl_read d = Some (0, d2) \<and> dl_streams h d2 s1 b1 s2' bs \<and> szReadCur s2' = 0 \<and>
    nt_sent (dl_net d2) = nt_sent (dl_net d) \<and> dl_sys d2 = dl_sys d \<and> dl_fd d2 = dl_fd d"
proof -
  define n where "n = hp_next h"
  have D: "dl_recv d = Ptr (n + 2)" "stream_at (dl_host d) (Ptr n) s1 b1" "pBuffer s1 = Ptr (n + 1)"
    "stream_at (dl_host d) (Ptr (n + 2)) s2 b2" "pBuffer s2 = Ptr (n + 3)"
    using st by (simp_all add: dl_streams_def n_def Let_def)
  define x where "x = take (PAGESIZE + 8) c"
  define s2' where "s2' = s2\<lparr>szWriteCur := of_nat (length x)\<rparr>"
  define g where "g = put_cell (Ptr (n + 2)) (StreamCell s2') (put_cell (pBuffer s2) (Bytes bs) (dl_host d))"
  obtain nt where rd: "rsa_buffer_read_from_socket (dl_fd d) (Ptr (n + 2)) (Some 0) (dl_host d) (dl_net d) =
      Some (NO_ERROR, Some (of_nat (length x)), g, nt)" and nt: "nt_sent nt = nt_sent (dl_net d)"
    using read_from_socket_chunk [OF D(4), of "dl_fd d" "dl_net d" c rest 0] recv s2 page_sizes fd
    by (auto simp: x_def g_def s2'_def bs_def)
  have lx: "length x \<le> PAGESIZE + 8" by (simp add: x_def)
  then have "unat (of_nat (length x) :: u64) = length x"
    using page_sizes by (simp add: unat_of_nat take_bit_nat_eq_self)
  then have "stream_at g (Ptr (n + 2)) s2' bs" "stream_at g (Ptr n) s1 b1"
    using D s2 lx by (simp_all add: g_def stream_at_def s2'_def bs_def x_def)
  then have "dl_streams h (d\<lparr>dl_host := g, dl_net := nt\<rparr>) s1 b1 s2' bs"
    using st D(5) by (simp add: dl_streams_def n_def [symmetric] Let_def g_def s2'_def)
  moreover have "dl_read d = Some (0, d\<lparr>dl_host := g, dl_net := nt\<rparr>)"
    using rd D(1) by (simp add: dl_read_def)
  ultimately show ?thesis using nt s2 by (fastforce simp: s2'_def)
qed

text \<open>The last step of the body and the release of both buffers at \<open>cleanup\<close>.\<close>

lemma dl_finish:
  assumes st: "dl_streams h d s1 b1 s2 b2" and s2: "szReadCur s2 = 0" "length b2 = PAGESIZE + 8"
  defines "n \<equiv> hp_next h"
  shows "\<exists>g g'. dl_deserialize d = Some (0, d\<lparr>dl_ret := Ptr (n + 4), dl_host := g\<rparr>) \<and>
    do { g1 \<leftarrow> rsa_buffer_cleanup_buffer (Ptr n) g; rsa_buffer_cleanup_buffer (Ptr (n + 2)) g1 } = Some g' \<and>
    mem_at g' (Ptr (n + 4)) (read_addr 0 b2) (Ptr (n + 6)) (segment 8 PAGESIZE b2) \<and>
    live g' = live h \<union> {n + 4, n + 5, n + 6} \<and>
    (\<forall>a. a \<notin> {n + 4, n + 5, n + 6} \<longrightarrow> hp_cells g' a = hp_cells h a) \<and>
    hp_next g' = n + 7 \<and> hp_plan g' = []"
proof -
  have D: "host_ok h" "dl_recv d = Ptr (n + 2)" "dl_ret d = Null" "stream_at (dl_host d) (Ptr n) s1 b1"
    "pBuffer s1 = Ptr (n + 1)" "stream_at (dl_host d) (Ptr (n + 2)) s2 b2" "pBuffer s2 = Ptr (n + 3)"
    "\<forall>a. a \<notin> {n, n + 1, n + 2, n + 3} \<longrightarrow> hp_cells (dl_host d) a = hp_cells h a"
    "hp_next (dl_host d) = n + 4" "hp_plan (dl_host d) = []"
    using st by (simp_all add: dl_streams_def n_def Let_def)
  have old: "hp_cells h a = None" if "n \<le> a" for a using D(1) that by (simp add: host_ok_def n_def)
  have ok: "host_ok (dl_host d)" unfolding host_ok_def using D(8,9) old by auto
  obtain g where des: "rsa_deserialize_mem_data (Ptr (n + 2)) (Some Null) (dl_host d) =
      Some (NO_ERROR, Some (Ptr (n + 4)), g)" and rd: "message_read (n + 2) s2 b2 (dl_host d) g"
    using deserialize_mem_data_ok [OF D(6) ok D(10)] s2 D(9) by auto
  define s2' where "s2' = s2\<lparr>szReadCur := of_nat (8 + PAGESIZE)\<rparr>"
  obtain junk where new: "hp_cells g (n + 4) = Some (MemCell \<lparr>unVirtAddr = read_addr 0 b2, pPageData = Ptr (n + 6)\<rparr>)"
    "hp_cells g (n + 6) = Some (Bytes (segment 8 PAGESIZE b2))" "hp_cells g (n + 5) = Some (Bytes junk)"
    "hp_cells g (n + 2) = Some (StreamCell s2')"
    and same: "\<forall>c. c \<notin> {n + 2, n + 4, n + 5, n + 6} \<longrightarrow> hp_cells g c = hp_cells (dl_host d) c"
    and nx: "hp_next g = n + 7" "hp_plan g = []"
    using rd s2 D(9) by (auto simp: message_read_def s2'_def Let_def ac_simps)
  have "stream_at g (Ptr n) s1 b1"
    using D(4,5) by (rule stream_at_cells) (use same in simp_all)
  then have c1: "rsa_buffer_cleanup_buffer (Ptr n) g = Some (g\<lparr>hp_cells := (hp_cells g)(n := None, n + 1 := None)\<rparr>)"
    using D(5) by (rule cleanup_buffer_ok)
  have "unat (of_nat (8 + PAGESIZE) :: u64) = PAGESIZE + 8"
    using page_sizes by (simp add: PAGESIZE_def)
  then have "stream_at (g\<lparr>hp_cells := (hp_cells g)(n := None, n + 1 := None)\<rparr>) (Ptr (n + 2)) s2' b2"
    using D(6,7) s2 new(4) same by (simp add: stream_at_def s2'_def)
  then have c2: "rsa_buffer_cleanup_buffer (Ptr (n + 2)) (g\<lparr>hp_cells := (hp_cells g)(n := None, n + 1 := None)\<rparr>)
      = Some (g\<lparr>hp_cells := (hp_cells g)(n := None, n + 1 := None, n + 2 := None, n + 3 := None)\<rparr>)"
    using cleanup_buffer_ok [of _ "n + 2" s2' b2 "n + 3"] D(7) by (simp add: s2'_def)
  define g' where "g' = g\<lparr>hp_cells := (hp_cells g)(n := None, n + 1 := None, n + 2 := None, n + 3 := None)\<rparr>"
  have cells: "hp_cells g' a = hp_cells h a" if "a \<notin> {n + 4, n + 5, n + 6}" for a
    using that old [of a] same D(8) by (cases "a \<in> {n, n + 1, n + 2, n + 3}") (auto simp: g'_def)
  have "hp_cells g' a \<noteq> None" if "a \<in> {n + 4, n + 5, n + 6}" for a
    using that new by (auto simp: g'_def)
  then have "hp_cells g' a = None \<longleftrightarrow> hp_cells h a = None \<and> a \<notin> {n + 4, n + 5, n + 6}" for a
    using cells [of a] old [of a] by (cases "a \<in> {n + 4, n + 5, n + 6}") auto
  then have "live g' = live h \<union> {n + 4, n + 5, n + 6}" by (auto simp: live_def dom_def)
  moreover have "mem_at g' (Ptr (n + 4)) (read_addr 0 b2) (Ptr (n + 6)) (segment 8 PAGESIZE b2)"
    using new s2 by (simp add: mem_at_def g'_def)
  moreover have "hp_next g' = n + 7" "hp_plan g' = []" using nx by (simp_all add: g'_def)
  ultimately show ?thesis using des c1 c2 D(2,3) cells
    by (intro exI [of _ g] exI [of _ g']) (simp add: dl_deserialize_def g'_def)
qed

lemma download_exchanges:
  assumes ok: "host_ok h" and plan: "hp_plan h = []" and m: "mem_at h pm v q page"
    and srv: "reachable_server sy" and sends: "SendFails \<notin> set (nt_send nt)"
    and recv: "nt_recv nt = Some c # rest"
  shows "\<exists>h' nt' sy'. rsa_download_more_ram pm (Some w) h nt sy =
      Some (0, Some (Ptr (hp_next h + 4)), h', nt', sy') \<and> exchanged h nt sy v page c h' nt' sy'"
proof -
  define d0 where "d0 = \<lparr>dl_host = h, dl_net = nt, dl_sys = sy, dl_info = False, dl_fd = 0,
      dl_send = Null, dl_recv = Null, dl_ret = Null\<rparr>"
  define sy1 where "sy1 = sy\<lparr>sy_ai_live := sy_ai_live sy + 1\<rparr>"
  define d1 where "d1 = d0\<lparr>dl_info := True, dl_fd := sy_socket sy, dl_sys := sy1\<rparr>"
  have c1: "dl_create d0 = Some (0, d1)" "dl_connect d1 = Some (0, d1)"
    using srv by (auto simp: dl_create_def dl_connect_def d0_def d1_def sy1_def Let_def
        reachable_server_def rsa_net_create_socket_def rsa_net_connect_socket_def)
  obtain d2 b1 b2 s1 s2 where c2: "bail_then (dl_init_send d1) dl_init_recv = Some (0, d2)"
    and D2: "dl_streams h d2 s1 b1 s2 b2" "length b1 = PAGESIZE + 8" "length b2 = PAGESIZE + 8"
      "szWriteCur s1 = 0" "szReadCur s2 = 0" "dl_net d2 = nt" "dl_sys d2 = sy1" "dl_fd d2 = sy_socket sy"
    using dl_buffers [of d1] ok plan by (auto simp: d1_def d0_def)
  have fd: "0 \<le> dl_fd d2" using srv D2(8) by (simp add: reachable_server_def)
  obtain d3 s1' where c3: "bail_then (dl_serialize pm d2) dl_write = Some (0, d3)"
    and D3: "dl_streams h d3 s1' (net_bytes v @ page) s2 b2"
      "nt_sent (dl_net d3) = nt_sent nt @ net_bytes v @ page" "nt_recv (dl_net d3) = nt_recv nt"
      "dl_sys d3 = sy1" "dl_fd d3 = sy_socket sy"
    using dl_request [OF D2(1) m D2(4,2) fd] sends D2 by auto
  define bs where "bs = splice_at 0 (take (PAGESIZE + 8) c) b2"
  obtain d4 s2' where c4: "dl_read d3 = Some (0, d4)"
    and D4: "dl_streams h d4 s1' (net_bytes v @ page) s2' bs" "szReadCur s2' = 0"
      "nt_sent (dl_net d4) = nt_sent nt @ net_bytes v @ page" "dl_sys d4 = sy1" "dl_fd d4 = sy_socket sy"
    using dl_reply [OF D3(1) D2(5,3)] D3 recv fd D2(8) by (auto simp: bs_def)
  have lbs: "length bs = PAGESIZE + 8" using D2(3) by (simp add: bs_def)
  obtain g g' where c5: "dl_deserialize d4 = Some (0, d4\<lparr>dl_ret := Ptr (hp_next h + 4), dl_host := g\<rparr>)"
    and c6: "do { g1 \<leftarrow> rsa_buffer_cleanup_buffer (Ptr (hp_next h)) g;
                  rsa_buffer_cleanup_buffer (Ptr (hp_next h + 2)) g1 } = Some g'"
    and G: "mem_at g' (Ptr (hp_next h + 4)) (read_addr 0 bs) (Ptr (hp_next h + 6)) (segment 8 PAGESIZE bs)"
      "live g' = live h \<union> {hp_next h + 4, hp_next h + 5, hp_next h + 6}"
      "\<forall>a. a \<notin> {hp_next h + 4, hp_next h + 5, hp_next h + 6} \<longrightarrow> hp_cells g' a = hp_cells h a"
      "hp_next g' = hp_next h + 7" "hp_plan g' = []"
    using dl_finish [OF D4(1,2) lbs] by auto
  have body: "dl_body pm d0 = Some (0, d4\<lparr>dl_ret := Ptr (hp_next h + 4), dl_host := g\<rparr>)"
    unfolding dl_body_def bail_then_assoc by (simp add: c1 c2 c3 c4 c5)
  have pm: "ptr_true pm = Some True" using m by (auto simp: mem_at_def get_mem_Some)
  have ptrs: "dl_send d4 = Ptr (hp_next h)" "dl_recv d4 = Ptr (hp_next h + 2)" "dl_info d4"
    using D4(1) by (simp_all add: dl_streams_def Let_def)
  have "rsa_download_more_ram pm (Some w) h nt sy = Some (0, Some (Ptr (hp_next h + 4)), g', dl_net d4,
      sys_close (sy_socket sy) (sys_freeaddrinfo True sy1))"
    using c6 by (simp add: rsa_download_more_ram_def d0_def [symmetric] pm body ptrs D4 bind_eq_Some_conv)
  moreover have "exchanged h nt sy v page c g' (dl_net d4)
      (sys_close (sy_socket sy) (sys_freeaddrinfo True sy1))"
    unfolding exchanged_def using G lbs D4(3) D2(3)
    by (intro exI [of _ bs] exI [of _ "hp_next h"])
      (simp add: sys_close_def sys_freeaddrinfo_def sy1_def bs_def splice_at_def min_def)
  ultimately show ?thesis by blast
qed

text \<open>Where the server cannot be reached the call does nothing and still returns 0.\<close>

lemma download_unreachable:
  assumes "\<not> reachable_server sy" and "ptr_true pm = Some True"
  shows "\<exists>sy' fd. rsa_download_more_ram pm (Some w) h nt sy = Some (0, Some Null, h, nt, sy') \<and>
    sy_closed sy' = sy_closed sy @ [fd] \<and> sy_ai_live sy' = sy_ai_live sy \<and>
    (sy_gai sy \<noteq> 0 \<or> sy_socket sy = -1 \<longrightarrow> fd = 0)"
  using assms
  by (auto simp: rsa_download_more_ram_def dl_body_def dl_create_def dl_connect_def Let_def
      reachable_server_def rsa_net_create_socket_def rsa_net_connect_socket_def sys_close_def
      sys_freeaddrinfo_def not_less)

lemma download_returns_zero:
  "rsa_download_more_ram pm out h nt sy = Some (rc, out', h', nt', sy') \<Longrightarrow> rc = 0"
  by (auto simp: rsa_download_more_ram_def Let_def bind_eq_Some_conv)

lemma download_short_page:
  assumes ok: "host_ok h" and plan: "hp_plan h = []" and srv: "reachable_server sy"
    and m: "get_mem h pm = Some \<lparr>unVirtAddr = v, pPageData = Ptr q\<rparr>"
    and d: "get_bytes h (Ptr q) = Some ds" "length ds < PAGESIZE"
  shows "rsa_download_more_ram pm (Some w) h nt sy = None"
proof -
  define d0 where "d0 = \<lparr>dl_host = h, dl_net = nt, dl_sys = sy, dl_info = False, dl_fd = 0,
      dl_send = Null, dl_recv = Null, dl_ret = Null\<rparr>"
  define sy1 where "sy1 = sy\<lparr>sy_ai_live := sy_ai_live sy + 1\<rparr>"
  define d1 where "d1 = d0\<lparr>dl_info := True, dl_fd := sy_socket sy, dl_sys := sy1\<rparr>"
  have c1: "dl_create d0 = Some (0, d1)" "dl_connect d1 = Some (0, d1)"
    using srv by (auto simp: dl_create_def dl_connect_def d0_def d1_def sy1_def Let_def
        reachable_server_def rsa_net_create_socket_def rsa_net_connect_socket_def)
  obtain d2 b1 b2 s1 s2 where c2: "bail_then (dl_init_send d1) dl_init_recv = Some (0, d2)"
    and D2: "dl_streams h d2 s1 b1 s2 b2" "length b1 = PAGESIZE + 8" "szWriteCur s1 = 0"
    using dl_buffers [of d1] ok plan by (auto simp: d1_def d0_def)
  have D: "dl_send d2 = Ptr (hp_next h)" "stream_at (dl_host d2) (Ptr (hp_next h)) s1 b1"
    "pBuffer s1 = Ptr (hp_next h + 1)"
    and same: "\<And>a. a < hp_next h \<Longrightarrow> hp_cells (dl_host d2) a = hp_cells h a"
    using D2(1) by (simp_all add: dl_streams_def Let_def)
  obtain x where x: "pm = Ptr x" "hp_cells h x = Some (MemCell \<lparr>unVirtAddr = v, pPageData = Ptr q\<rparr>)"
    "hp_cells h q = Some (Bytes ds)"
    using m d(1) by (auto simp: get_mem_Some split: option.splits cell.splits)
  have lt: "x < hp_next h" "q < hp_next h"
    using x(2,3) ok by (auto simp: host_ok_def intro: ccontr)
  have "get_mem (dl_host d2) pm = Some \<lparr>unVirtAddr = v, pPageData = Ptr q\<rparr>"
    "get_bytes (dl_host d2) (Ptr q) = Some ds" "q \<noteq> hp_next h + 1"
    using x lt same [OF lt(1)] same [OF lt(2)] by auto
  then have "rsa_serialize_mem_data pm (Ptr (hp_next h)) (dl_host d2) = None"
    using serialize_mem_data_short_page [OF D(2,3)] d(2) D2(2,3) by blast
  then have "dl_serialize pm d2 = None" using D(1) by (simp add: dl_serialize_def)
  then have "dl_body pm d0 = None"
    unfolding dl_body_def bail_then_assoc by (simp add: c1 c2)
  then show ?thesis using x(1) by (simp add: rsa_download_more_ram_def d0_def [symmetric])
qed

section \<open>Properties\<close>

text \<open>
  The host of the witnesses: a page record, its page, and two streams of the message size,
  the second holding a message.
\<close>

definition sample_page :: "byte list" where
  "sample_page = replicate PAGESIZE 7"

definition page_host :: "bool \<Rightarrow> host" where
  "page_host big = \<lparr>hp_next = 6, hp_cells = [0 \<mapsto> MemCell \<lparr>unVirtAddr = 0x7000, pPageData = Ptr 1\<rparr>,
     1 \<mapsto> Bytes sample_page, 2 \<mapsto> StreamCell (fresh_stream msg_size 3), 3 \<mapsto> Bytes (replicate (PAGESIZE + 8) 0),
     4 \<mapsto> StreamCell (fresh_stream msg_size 5), 5 \<mapsto> Bytes (net_bytes 0x7000 @ sample_page)],
     hp_plan = [], hp_junk = (\<lambda>a i. 0), big_endian = big\<rparr>"

lemma page_host_facts:
  "host_ok (page_host big)" "hp_plan (page_host big) = []"
  "mem_at (page_host big) (Ptr 0) 0x7000 (Ptr 1) sample_page"
  "stream_at (page_host big) (Ptr 2) (fresh_stream msg_size 3) (replicate (PAGESIZE + 8) 0)"
  "stream_at (page_host big) (Ptr 4) (fresh_stream msg_size 5) (net_bytes 0x7000 @ sample_page)"
  using page_sizes
  by (auto simp: host_ok_def page_host_def mem_at_def sample_page_def stream_at_def fresh_stream_def)

text \<open>
  Claim C1. A page survives the trip: a record serialised into a fresh stream on one host and
  deserialised from the same bytes on another, of either byte order each, gives a record with
  the same address and the same page.
\<close>

theorem page_roundtrip:
  assumes "stream_at h (Ptr a) s bs" and "pBuffer s = Ptr b" and "szWriteCur s = 0"
    and "length bs = PAGESIZE + 8" and "mem_at h pm v (Ptr q) page" and "q \<noteq> b"
  shows "\<exists>h' ds. rsa_serialize_mem_data pm (Ptr a) h = Some (NO_ERROR, h') \<and>
    get_bytes h' (Ptr b) = Some ds \<and>
    (\<forall>g c t w. stream_at g (Ptr c) t ds \<and> szReadCur t = 0 \<and> host_ok g \<and> hp_plan g = [] \<longrightarrow>
      (\<exists>g'. rsa_deserialize_mem_data (Ptr c) (Some w) g = Some (NO_ERROR, Some (Ptr (hp_next g)), g') \<and>
         mem_at g' (Ptr (hp_next g)) v (Ptr (hp_next g + 2)) page))"
proof -
  let ?ds = "net_bytes v @ page"
  obtain h' where ser: "rsa_serialize_mem_data pm (Ptr a) h = Some (NO_ERROR, h')"
    and st: "stream_at h' (Ptr a) (s\<lparr>szWriteCur := of_nat (8 + PAGESIZE)\<rparr>) ?ds"
    using serialize_mem_data_room [OF assms(1,2,5)] assms(3,4,6)
    by (auto simp: splice_at_def mem_at_length [OF assms(5)])
  have vals: "read_addr 0 ?ds = v" "segment 8 PAGESIZE ?ds = page"
    using mem_at_length [OF assms(5)] by (auto intro!: read_addr_unique simp: segment_def)
  have "\<exists>g'. rsa_deserialize_mem_data (Ptr c) (Some w) g = Some (NO_ERROR, Some (Ptr (hp_next g)), g') \<and>
      mem_at g' (Ptr (hp_next g)) v (Ptr (hp_next g + 2)) page"
    if g: "stream_at g (Ptr c) t ?ds" "szReadCur t = 0" "host_ok g" "hp_plan g = []" for g c t w
  proof -
    obtain g' where "rsa_deserialize_mem_data (Ptr c) (Some w) g = Some (NO_ERROR, Some (Ptr (hp_next g)), g')"
      and "message_read c t ?ds g g'"
      using deserialize_mem_data_ok [OF g(1,3,4)] g(2) mem_at_length [OF assms(5)] by auto
    then show ?thesis
      using g(2) vals mem_at_length [OF assms(5)] by (simp add: message_read_def mem_at_def Let_def)
  qed
  moreover have "get_bytes h' (Ptr b) = Some ?ds"
    using st assms(2) by (simp add: stream_at_def)
  ultimately show ?thesis using ser by blast
qed

theorem page_roundtrip_witness:
  "\<exists>h' g'. rsa_serialize_mem_data (Ptr 0) (Ptr 2) (page_host False) = Some (NO_ERROR, h') \<and>
    rsa_deserialize_mem_data (Ptr 4) (Some Null) (page_host True) = Some (NO_ERROR, Some (Ptr 6), g') \<and>
    mem_at g' (Ptr 6) 0x7000 (Ptr 8) sample_page"
proof -
  note F = page_host_facts [of False] and G = page_host_facts [of True]
  have p: "pBuffer (fresh_stream msg_size 3) = Ptr 3" "szWriteCur (fresh_stream msg_size 3) = 0"
    "szReadCur (fresh_stream msg_size 5) = 0" "hp_next (page_host True) = 6"
    by (simp_all add: fresh_stream_def page_host_def)
  obtain h' ds where ser: "rsa_serialize_mem_data (Ptr 0) (Ptr 2) (page_host False) = Some (NO_ERROR, h')"
    and ds: "get_bytes h' (Ptr 3) = Some ds"
    and rt: "\<forall>g c t w. stream_at g (Ptr c) t ds \<and> szReadCur t = 0 \<and> host_ok g \<and> hp_plan g = [] \<longrightarrow>
      (\<exists>g'. rsa_deserialize_mem_data (Ptr c) (Some w) g = Some (NO_ERROR, Some (Ptr (hp_next g)), g') \<and>
         mem_at g' (Ptr (hp_next g)) 0x7000 (Ptr (hp_next g + 2)) sample_page)"
    using page_roundtrip [OF F(4) p(1,2) _ F(3)] by auto
  have "ds = net_bytes 0x7000 @ sample_page"
    using serialize_mem_data_room [OF F(4) p(1) F(3)] ser ds p(1,2)
    by (auto simp: splice_at_def sample_page_def stream_at_def)
  then show ?thesis
    using ser rt [rule_format, of "page_host True" 4 "fresh_stream msg_size 5" Null] G p by simp
qed

text \<open>
  Claim C2. The whole exchange of \<open>rsa_download_more_ram\<close>: with the server reachable, memory
  available and a \<open>send\<close> that does not fail, the server is sent the address and the page in
  wire format, and the caller gets a record built from what arrived: the first chunk of the
  reply, padded with whatever the receive buffer held where the chunk is short. The socket
  and the address list are released, the two stream buffers as well; one page, allocated and
  then forgotten by \<open>rsa_deserialize_mem_data\<close>, stays allocated beside the result.
\<close>

theorem download_exchange:
  assumes "host_ok h" and "hp_plan h = []" and "mem_at h pm v q page" and "reachable_server sy"
    and "SendFails \<notin> set (nt_send nt)" and "nt_recv nt = Some c # rest"
  shows "\<exists>h' nt' sy' bs. let n = hp_next h in
    rsa_download_more_ram pm (Some w) h nt sy = Some (0, Some (Ptr (n + 4)), h', nt', sy') \<and>
    nt_sent nt' = nt_sent nt @ net_bytes v @ page \<and>
    length bs = PAGESIZE + 8 \<and> take (length c) bs = take (PAGESIZE + 8) c \<and>
    mem_at h' (Ptr (n + 4)) (read_addr 0 bs) (Ptr (n + 6)) (segment 8 PAGESIZE bs) \<and>
    live h' = live h \<union> {n + 4, n + 5, n + 6} \<and>
    sy_ai_live sy' = sy_ai_live sy \<and> sy_closed sy' = sy_closed sy @ [sy_socket sy]"
proof -
  obtain h' nt' sy' where "rsa_download_more_ram pm (Some w) h nt sy =
      Some (0, Some (Ptr (hp_next h + 4)), h', nt', sy')" and "exchanged h nt sy v page c h' nt' sy'"
    using download_exchanges [OF assms, of w] by blast
  then show ?thesis unfolding exchanged_def Let_def sys_close_def by fastforce
qed

definition sample_env :: sysenv where
  "sample_env = \<lparr>sy_gai = 0, sy_socket = 5, sy_bind = 0, sy_connect = 0, sy_ai_live = 0, sy_closed = []\<rparr>"

theorem download_exchange_witness:
  "\<exists>h' nt' sy'. rsa_download_more_ram (Ptr 0) (Some Null) (page_host False)
      \<lparr>nt_send = [SendUpTo 1000], nt_recv = [Some (net_bytes 9 @ replicate PAGESIZE 1)], nt_sent = []\<rparr> sample_env
    = Some (0, Some (Ptr 10), h', nt', sy') \<and> nt_sent nt' = net_bytes 0x7000 @ sample_page"
proof -
  let ?nt = "\<lparr>nt_send = [SendUpTo 1000], nt_recv = [Some (net_bytes 9 @ replicate PAGESIZE 1)], nt_sent = []\<rparr> :: net"
  have "hp_next (page_host False) = 6" by (simp add: page_host_def)
  then show ?thesis
    using download_exchange [OF page_host_facts(1,2,3) [of False], of sample_env ?nt
        "net_bytes 9 @ replicate PAGESIZE 1" "[]" Null]
    by (auto simp: sample_env_def reachable_server_def Let_def)
qed

text \<open>
  Claim C6. \<open>rsa_download_more_ram\<close> never reports a failure: every call that returns, returns
  0. Where the server cannot be reached the caller's pointer is NULL all the same, and if no
  socket was made the call closes descriptor 0.
\<close>

theorem download_never_fails:
  shows "(\<forall>rc out'. rsa_download_more_ram pm out h nt sy = Some (rc, out') \<longrightarrow> rc = 0) \<and>
    (\<not> reachable_server sy \<and> ptr_true pm = Some True \<longrightarrow>
      (\<exists>sy' fd. rsa_download_more_ram pm (Some w) h nt sy = Some (0, Some Null, h, nt, sy') \<and>
        sy_closed sy' = sy_closed sy @ [fd] \<and>
        (sy_gai sy \<noteq> 0 \<or> sy_socket sy = -1 \<longrightarrow> fd = 0)))"
  using download_returns_zero [of pm out h nt sy] download_unreachable [of sy pm w h nt] by auto

theorem download_never_fails_witness:
  "\<exists>sy'. rsa_download_more_ram (Ptr 0) (Some Null) (page_host False) \<lparr>nt_send = [], nt_recv = [], nt_sent = []\<rparr>
      (sample_env\<lparr>sy_gai := -2\<rparr>) =
     Some (0, Some Null, page_host False, \<lparr>nt_send = [], nt_recv = [], nt_sent = []\<rparr>, sy') \<and>
   sy_closed sy' = [0]"
  using download_never_fails [of "Ptr 0" None "page_host False" _ "sample_env\<lparr>sy_gai := -2\<rparr>" Null]
  by (auto simp: sample_env_def reachable_server_def)

text \<open>
  Claim C10. Deserialising a record from a stream with fewer than eight bytes left has undefined
  behaviour: the error path releases the page pointer of a record that was never filled in.
\<close>

theorem deserialize_short_undefined:
  assumes "stream_at h (Ptr a) s bs" and "host_ok h" and "malloc_ok h"
    and "length bs < unat (szReadCur s) + 8"
  shows "rsa_deserialize_mem_data (Ptr a) (Some w) h = None"
  using assms by (rule deserialize_mem_data_short_address)

definition short_host :: host where
  "short_host = \<lparr>hp_next = 2, hp_cells = [0 \<mapsto> StreamCell (fresh_stream 4 1), 1 \<mapsto> Bytes [1, 2, 3, 4]],
     hp_plan = [], hp_junk = (\<lambda>a i. 0), big_endian = False\<rparr>"

theorem deserialize_short_undefined_witness:
  "rsa_deserialize_mem_data (Ptr 0) (Some Null) short_host = None"
  by (rule deserialize_short_undefined [where s = "fresh_stream 4 1" and bs = "[1, 2, 3, 4]"])
    (auto simp: stream_at_def short_host_def fresh_stream_def host_ok_def malloc_ok_def)

end
