(* ===== verification/MemServer.thy ===== *)
theory MemServer
  imports MemData
begin

text \<open>
  The memory server RSA_Mem_Server/rsa_mem_server.c and its test client
  rsa_test_client.c. The clients that connect are a list: for each \<open>accept\<close> the
  descriptor it returns (-1 for a failure), the socket behind it and the signals that are
  delivered while it is served. \<open>Blocked\<close> is the server waiting in \<open>accept\<close>.
\<close>

section \<open>Signals\<close>

definition SIGINT :: int where [simp]: "SIGINT = 2"
definition SIGTERM :: int where [simp]: "SIGTERM = 15"

definition signal_handler :: "int \<Rightarrow> bool \<Rightarrow> bool" where
  "signal_handler sig death = (if sig = SIGINT \<or> sig = SIGTERM then True else death)"

section \<open>One pass of the server loop\<close>

record client =
  cl_fd :: int
  cl_net :: net
  cl_signals :: "int list"

record server =
  sv_host :: host
  sv_sys :: sysenv
  sv_death :: bool
  sv_replies :: "byte list list"
  sv_recv :: ptr
  sv_send :: ptr
  sv_mem :: ptr

datatype srv_result = Next server | Stop rc server

definition srv_bail :: "(rc \<times> server) option \<Rightarrow> (server \<Rightarrow> srv_result option) \<Rightarrow> srv_result option" where
  "srv_bail a f = do { (rc, s) \<leftarrow> a; if rc \<noteq> 0 then Some (Stop rc s) else f s }"

definition sv_init_recv :: "server \<Rightarrow> (rc \<times> server) option" where
  "sv_init_recv s = do {
     (rc, p, h) \<leftarrow> rsa_buffer_init_buffer (page_size64 + 8) (Some (sv_recv s)) (sv_host s);
     p' \<leftarrow> p; Some (rc, s\<lparr>sv_recv := p', sv_host := h\<rparr>) }"

definition sv_init_send :: "server \<Rightarrow> (rc \<times> server) option" where
  "sv_init_send s = do {
     (rc, p, h) \<leftarrow> rsa_buffer_init_buffer (page_size64 + 8) (Some (sv_send s)) (sv_host s);
     p' \<leftarrow> p; Some (rc, s\<lparr>sv_send := p', sv_host := h\<rparr>) }"

definition sv_deserialize :: "server \<Rightarrow> (rc \<times> server) option" where
  "sv_deserialize s = do {
     (rc, p, h) \<leftarrow> rsa_deserialize_mem_data (sv_recv s) (Some (sv_mem s)) (sv_host s);
     p' \<leftarrow> p; Some (rc, s\<lparr>sv_mem := p', sv_host := h\<rparr>) }"

text \<open>The three lines that print what was received.\<close>

definition sv_print :: "server \<Rightarrow> unit option" where
  "sv_print s = do { m \<leftarrow> get_mem (sv_host s) (sv_mem s); prints_string (pPageData m) (sv_host s) }"

text \<open>
  The reply under \<open>#ifdef TEST\<close>: a record on the stack whose page pointer is the string
  literal \<open>dummy\<close>.
\<close>

definition ascii_bytes :: "string \<Rightarrow> byte list" where
  "ascii_bytes s = map (\<lambda>c. of_nat (of_char c)) s"

definition server_dummy :: "byte list" where
  "server_dummy = ascii_bytes ''Memory Downloaded! :)'' @ [10, 0]"

definition sv_reply :: "server \<Rightarrow> (rc \<times> server) option" where
  "sv_reply s =
     (case local_cell (Bytes server_dummy) (sv_host s) of (q, h1) \<Rightarrow>
      case local_cell (MemCell \<lparr>unVirtAddr = 0x01020304, pPageData = q\<rparr>) h1 of (p, h2) \<Rightarrow>
        do { (rc, h3) \<leftarrow> rsa_serialize_mem_data p (sv_send s) h2;
             Some (rc, s\<lparr>sv_host := drop_local q (drop_local p h3)\<rparr>) })"

definition sv_release :: "server \<Rightarrow> server option" where
  "sv_release s = do {
     h1 \<leftarrow> rsa_cleanup_mem_data (sv_mem s) (sv_host s);
     h2 \<leftarrow> rsa_buffer_cleanup_buffer (sv_recv s) h1;
     h3 \<leftarrow> rsa_buffer_cleanup_buffer (sv_send s) h2;
     Some (s\<lparr>sv_host := h3, sv_recv := Null, sv_send := Null, sv_mem := Null\<rparr>) }"

definition srv_iteration :: "client \<Rightarrow> server \<Rightarrow> srv_result option" where
  "srv_iteration c s0 =
     (if cl_fd c = -1 then Some (Stop COM_ERROR s0)
      else srv_bail (sv_init_recv s0) (\<lambda>s. do {
        (rc, got, h, nt) \<leftarrow>
          rsa_buffer_read_from_socket (cl_fd c) (sv_recv s) (Some 0) (sv_host s) (cl_net c);
        bytes_read \<leftarrow> got;
        let s = s\<lparr>sv_host := h\<rparr>;
        if rc \<noteq> 0 then Some (Stop rc s)
        else if bytes_read = 0
        then Some (Next (s\<lparr>sv_death := fold signal_handler (cl_signals c) (sv_death s)\<rparr>))
        else srv_bail (sv_deserialize s) (\<lambda>s. do {
          _ \<leftarrow> sv_print s;
          srv_bail (sv_init_send s) (\<lambda>s. srv_bail (sv_reply s) (\<lambda>s. do {
            (rc, sent, nt') \<leftarrow>
              rsa_buffer_write_to_socket (cl_fd c) (sv_send s) (Some 0) (sv_host s) nt;
            let s = s\<lparr>sv_replies := sv_replies s @ [nt_sent nt']\<rparr>;
            if rc \<noteq> 0 then Some (Stop rc s)
            else do {
              s \<leftarrow> sv_release s;
              let s = s\<lparr>sv_sys := sys_close (cl_fd c) (sv_sys s),
                       sv_death := fold signal_handler (cl_signals c) (sv_death s)\<rparr>;
              Some (if sv_death s then Stop NO_ERROR s else Next s) } })) }) }))"

datatype srv_end = Exited rc server | Blocked server

fun srv_loop :: "client list \<Rightarrow> server \<Rightarrow> srv_end option" where
  "srv_loop [] s = Some (Blocked s)"
| "srv_loop (c # cs) s = do {
     r \<leftarrow> srv_iteration c s;
     case r of Next s' \<Rightarrow> srv_loop cs s' | Stop rc s' \<Rightarrow> Some (Exited rc s') }"

section \<open>The whole server\<close>

text \<open>
  \<open>do_networking\<close>: \<open>opt\<close> is the result of \<open>setsockopt\<close>. The result of
  \<open>rsa_net_connect_socket\<close> is not assigned, so the \<open>BAIL_ERROR\<close> after it tests the
  \<open>rc\<close> of \<open>setsockopt\<close>, which is 0 there.
\<close>

definition do_networking :: "int \<Rightarrow> client list \<Rightarrow> host \<Rightarrow> sysenv \<Rightarrow> srv_end option" where
  "do_networking opt cs h sy =
     (let start = (\<lambda>sy. \<lparr>sv_host = h, sv_sys = sy, sv_death = False, sv_replies = [],
                        sv_recv = Null, sv_send = Null, sv_mem = Null\<rparr>);
          leave = (\<lambda>ai fd rc s. Exited rc (s\<lparr>sv_sys := sys_close fd (sys_freeaddrinfo ai (sv_sys s))\<rparr>))
      in case rsa_net_create_socket (Some False) (Some 0) sy of
        (rc, ai, fd, sy1) \<Rightarrow> do {
          ai' \<leftarrow> ai; fd' \<leftarrow> fd;
          if rc \<noteq> 0 then Some (leave ai' fd' rc (start sy1))
          else if opt \<noteq> 0 then Some (leave ai' fd' opt (start sy1))
          else do {
            let ignored = rsa_net_connect_socket RSA_PROC_SERVER ai' fd' sy1;
            r \<leftarrow> srv_loop cs (start sy1);
            Some (case r of Exited rc s \<Rightarrow> leave ai' fd' rc s | Blocked s \<Rightarrow> Blocked s) } })"

definition rsa_mem_server_main :: "int \<Rightarrow> client list \<Rightarrow> host \<Rightarrow> sysenv \<Rightarrow> srv_end option" where
  "rsa_mem_server_main opt cs h sy = do_networking opt cs h sy"

section \<open>The test client\<close>

definition client_dummy :: "byte list" where
  "client_dummy = ascii_bytes ''Who are you?'' @ [0]"

text \<open>
  \<open>main\<close> of rsa_test_client.c, for a given string literal; the return value of the program.
\<close>

definition test_client :: "byte list \<Rightarrow> host \<Rightarrow> net \<Rightarrow> sysenv \<Rightarrow> (rc \<times> host) option" where
  "test_client dummy h nt sy =
     (case local_cell (Bytes dummy) h of (q, h1) \<Rightarrow>
      case local_cell (MemCell \<lparr>unVirtAddr = 0x04030201, pPageData = q\<rparr>) h1 of (p, h2) \<Rightarrow> do {
        (rc, out, h3, nt', sy') \<leftarrow> rsa_download_more_ram p (Some Null) h2 nt sy;
        r \<leftarrow> out;
        _ \<leftarrow> (if rc \<noteq> 0 then Some () else do { m \<leftarrow> get_mem h3 r; prints_string (pPageData m) h3 });
        h4 \<leftarrow> rsa_cleanup_mem_data r h3;
        Some (rc, drop_local q (drop_local p h4)) })"

definition rsa_test_client_main :: "host \<Rightarrow> net \<Rightarrow> sysenv \<Rightarrow> (rc \<times> host) option" where
  "rsa_test_client_main h nt sy = test_client client_dummy h nt sy"

section \<open>Serving a request\<close>

text \<open>Two hosts that agree outside the addresses \<open>A\<close>.\<close>

definition agree :: "nat set \<Rightarrow> host \<Rightarrow> host \<Rightarrow> bool" where
  "agree A h h' \<longleftrightarrow> (\<forall>a. a \<notin> A \<longrightarrow> hp_cells h' a = hp_cells h a)"

lemma agree_trans: "agree A h g \<Longrightarrow> agree B g k \<Longrightarrow> agree (A \<union> B) h k"
  by (simp add: agree_def)

lemma frame_agree: "frame A h h' \<Longrightarrow> agree A h h'"
  by (simp add: frame_def agree_def)

lemma stream_at_agree:
  "stream_at h (Ptr a) s bs \<Longrightarrow> pBuffer s = Ptr b \<Longrightarrow> agree A h h' \<Longrightarrow> a \<notin> A \<Longrightarrow> b \<notin> A \<Longrightarrow>
   stream_at h' (Ptr a) s bs"
  by (rule stream_at_cells [of h a s bs b]) (simp_all add: agree_def)

lemma agree_host_ok:
  "agree A h h' \<Longrightarrow> host_ok h \<Longrightarrow> hp_next h \<le> hp_next h' \<Longrightarrow> (\<And>a. a \<in> A \<Longrightarrow> a < hp_next h') \<Longrightarrow> host_ok h'"
  unfolding agree_def host_ok_def by (metis le_trans not_le)

lemma new_buffer:
  assumes ok: "host_ok h" and plan: "hp_plan h = []" and n: "n = hp_next h"
  obtains h' b where "rsa_buffer_init_buffer msg_size (Some w) h = Some (0, Some (Ptr n), h')"
    "stream_at h' (Ptr n) (fresh_stream msg_size (n + 1)) b" "length b = PAGESIZE + 8"
    "agree {n, n + 1} h h'" "host_ok h'" "hp_plan h' = []" "hp_next h' = n + 2"
proof -
  have gt: "0 < msg_size" by (simp add: word_less_nat_alt)
  let ?h = "stream_created msg_size h" and ?b = "map (hp_junk h (n + 1)) [0..<PAGESIZE + 8]"
  have "rsa_buffer_init_buffer msg_size (Some w) h = Some (0, Some (Ptr n), ?h)"
    using init_buffer_ok [OF gt, of h w] plan n by (simp add: malloc_ok_def)
  moreover have "stream_at ?h (Ptr n) (fresh_stream msg_size (n + 1)) ?b"
    using stream_at_created [of msg_size h] page_sizes n by simp
  moreover have ag: "agree {n, n + 1} h ?h" using n by (simp add: agree_def stream_created_def)
  moreover have "host_ok ?h"
    using ag ok by (rule agree_host_ok) (auto simp: stream_created_def n)
  ultimately show thesis
    using that [of ?h ?b] plan n by (simp add: stream_created_def)
qed

text \<open>Reading the request: the stream buffer, the page record and the page that is lost.\<close>

lemma serve_request:
  assumes ok: "host_ok (sv_host s0)" and plan: "hp_plan (sv_host s0) = []" and n: "n = hp_next (sv_host s0)"
    and fd: "0 \<le> cl_fd c" and recv: "nt_recv (cl_net c) = Some x # rest" and x: "x \<noteq> []"
  obtains s1 h2 s2 bs st2 got nt where "sv_init_recv s0 = Some (0, s1)"
    "rsa_buffer_read_from_socket (cl_fd c) (sv_recv s1) (Some 0) (sv_host s1) (cl_net c) =
       Some (0, Some got, h2, nt)" "got \<noteq> 0" "nt_sent nt = nt_sent (cl_net c)" "nt_send nt = nt_send (cl_net c)"
    "sv_deserialize (s1\<lparr>sv_host := h2\<rparr>) = Some (0, s2)"
    "s2 = s0\<lparr>sv_recv := Ptr n, sv_mem := Ptr (n + 2), sv_host := sv_host s2\<rparr>"
    "stream_at (sv_host s2) (Ptr n) st2 bs" "pBuffer st2 = Ptr (n + 1)"
    "mem_at (sv_host s2) (Ptr (n + 2)) (read_addr 0 bs) (Ptr (n + 4)) (segment 8 PAGESIZE bs)"
    "length bs = PAGESIZE + 8" "take (length x) bs = take (PAGESIZE + 8) x"
    "agree {n, n + 1, n + 2, n + 3, n + 4} (sv_host s0) (sv_host s2)"
    "host_ok (sv_host s2)" "hp_plan (sv_host s2) = []" "hp_next (sv_host s2) = n + 5"
    "hp_cells (sv_host s2) (n + 3) \<noteq> None"
    "get_bytes (sv_host s2) (Ptr (n + 4)) = Some (segment 8 PAGESIZE bs)"
proof -
  obtain h1 b where mk: "rsa_buffer_init_buffer msg_size (Some (sv_recv s0)) (sv_host s0) = Some (0, Some (Ptr n), h1)"
    and B: "stream_at h1 (Ptr n) (fresh_stream msg_size (n + 1)) b" "length b = PAGESIZE + 8"
    "agree {n, n + 1} (sv_host s0) h1" "host_ok h1" "hp_plan h1 = []" "hp_next h1 = n + 2"
    using new_buffer [OF ok plan n] by blast
  define y where "y = take (PAGESIZE + 8) x"
  define bs where "bs = splice_at 0 y b"
  define s1' where "s1' = (fresh_stream msg_size (n + 1))\<lparr>szWriteCur := of_nat (length y)\<rparr>"
  define h2 where "h2 = put_cell (Ptr n) (StreamCell s1') (put_cell (Ptr (n + 1)) (Bytes bs) h1)"
  have ly: "length y \<le> PAGESIZE + 8" "y \<noteq> []" using x by (simp_all add: y_def)
  have lbs: "length bs = PAGESIZE + 8" using B(2) ly by (simp add: bs_def)
  obtain nt where rd: "rsa_buffer_read_from_socket (cl_fd c) (Ptr n) (Some 0) h1 (cl_net c) =
      Some (0, Some (of_nat (length y)), h2, nt)" "nt_sent nt = nt_sent (cl_net c)" "nt_send nt = nt_send (cl_net c)"
    using read_from_socket_chunk [OF B(1) fd _ recv, of 0] B(2) page_sizes
    by (auto simp: y_def h2_def bs_def s1'_def fresh_stream_def)
  have got: "(of_nat (length y) :: u32) \<noteq> 0"
    using ly page_sizes by (simp add: word_unat_eq_iff unat_of_nat take_bit_nat_eq_self)
  have uy: "unat (of_nat (length y) :: u64) = length y"
    using ly page_sizes by (simp add: unat_of_nat take_bit_nat_eq_self)
  have st: "stream_at h2 (Ptr n) s1' bs"
    using B(1) ly lbs uy by (simp add: stream_at_def h2_def s1'_def fresh_stream_def)
  have ok2: "host_ok h2" "hp_plan h2 = []" "hp_next h2 = n + 2"
    using B(4-6) by (auto simp: h2_def host_ok_def)
  obtain h3 where des: "rsa_deserialize_mem_data (Ptr n) (Some (sv_mem s0)) h2 = Some (0, Some (Ptr (n + 2)), h3)"
    and mr: "message_read n s1' bs h2 h3"
    using deserialize_mem_data_ok [OF st ok2(1,2), of "sv_mem s0"] lbs ok2(3)
    by (auto simp: s1'_def fresh_stream_def)
  define st2 where "st2 = s1'\<lparr>szReadCur := of_nat (8 + PAGESIZE)\<rparr>"
  obtain junk where M: "hp_cells h3 (n + 2) = Some (MemCell \<lparr>unVirtAddr = read_addr 0 bs, pPageData = Ptr (n + 4)\<rparr>)"
    "hp_cells h3 (n + 4) = Some (Bytes (segment 8 PAGESIZE bs))" "hp_cells h3 (n + 3) = Some (Bytes junk)"
    "hp_cells h3 n = Some (StreamCell st2)" "hp_next h3 = n + 5" "hp_plan h3 = []"
    and same: "\<forall>c. c \<notin> {n, n + 2, n + 3, n + 4} \<longrightarrow> hp_cells h3 c = hp_cells h2 c"
    using mr ok2(3) by (auto simp: message_read_def st2_def s1'_def fresh_stream_def Let_def ac_simps
        eval_nat_numeral)
  have rc: "unat (of_nat (8 + PAGESIZE) :: u64) = PAGESIZE + 8" by (simp add: PAGESIZE_def)
  have "stream_at h3 (Ptr n) st2 bs"
    using st M(4) same lbs rc by (simp add: stream_at_def st2_def s1'_def fresh_stream_def)
  moreover have "mem_at h3 (Ptr (n + 2)) (read_addr 0 bs) (Ptr (n + 4)) (segment 8 PAGESIZE bs)"
    using M lbs by (simp add: mem_at_def)
  moreover have ag: "agree {n, n + 1, n + 2, n + 3, n + 4} (sv_host s0) h3"
    using B(3) same by (simp add: agree_def h2_def)
  moreover have "host_ok h3" using ag ok by (rule agree_host_ok) (auto simp: M n)
  moreover have "take (length x) bs = take (PAGESIZE + 8) x"
    using B(2) by (simp add: bs_def splice_at_def y_def min_def)
  ultimately show thesis
    using that [of "s0\<lparr>sv_recv := Ptr n, sv_host := h1\<rparr>" "of_nat (length y)" h2 nt
        "s0\<lparr>sv_recv := Ptr n, sv_mem := Ptr (n + 2), sv_host := h3\<rparr>" st2 bs] mk rd got des lbs M
    by (simp add: sv_init_recv_def sv_deserialize_def st2_def s1'_def fresh_stream_def)
qed

text \<open>Writing the reply reads past the end of the literal.\<close>

lemma reply_cells:
  assumes ok: "host_ok h"
  defines "n \<equiv> hp_next h"
  shows "\<exists>g. local_cell (Bytes dummy) h = (Ptr n, g) \<and>
    local_cell (MemCell \<lparr>unVirtAddr = v, pPageData = Ptr n\<rparr>) g =
      (Ptr (n + 1), h\<lparr>hp_next := n + 2, hp_cells := (hp_cells h)(n \<mapsto> Bytes dummy,
         n + 1 \<mapsto> MemCell \<lparr>unVirtAddr = v, pPageData = Ptr n\<rparr>)\<rparr>)"
  by (simp add: local_cell_def n_def)

lemma host_ok_bound: "host_ok h \<Longrightarrow> hp_cells h a = Some c \<Longrightarrow> a < hp_next h"
  by (rule ccontr) (simp add: host_ok_def not_less)

lemma stream_at_bound:
  assumes "stream_at h (Ptr a) s bs" and "pBuffer s = Ptr b" and "host_ok h"
  shows "a < hp_next h \<and> b < hp_next h"
  using assms by (auto elim!: stream_atE dest: host_ok_bound)

lemma length_ascii_bytes [simp]: "length (ascii_bytes s) = length s"
  by (simp add: ascii_bytes_def)

lemma server_dummy_short: "length server_dummy < PAGESIZE" and client_dummy_short: "length client_dummy < PAGESIZE"
  by (simp_all add: server_dummy_def client_dummy_def PAGESIZE_def)

lemma sv_reply_short:
  assumes st: "stream_at (sv_host s) (Ptr a) st b" and a: "sv_send s = Ptr a" "pBuffer st = Ptr c"
    and cur: "szWriteCur st = 0" and len: "length b = PAGESIZE + 8" and ok: "host_ok (sv_host s)"
  shows "sv_reply s = None"
proof -
  let ?h = "sv_host s" and ?n = "hp_next (sv_host s)"
  define h2 where "h2 = ?h\<lparr>hp_next := ?n + 2, hp_cells := (hp_cells ?h)(?n \<mapsto> Bytes server_dummy,
      ?n + 1 \<mapsto> MemCell \<lparr>unVirtAddr = 0x01020304, pPageData = Ptr ?n\<rparr>)\<rparr>"
  have lt: "a < ?n" "c < ?n"
    using stream_at_bound [OF st a(2) ok] by simp_all
  have st2: "stream_at h2 (Ptr a) st b"
    using st a(2) by (rule stream_at_cells) (use lt in \<open>simp_all add: h2_def\<close>)
  have "rsa_serialize_mem_data (Ptr (?n + 1)) (Ptr a) h2 = None"
    using st2 a(2) _ _ server_dummy_short _ cur len
    by (rule serialize_mem_data_short_page) (use lt in \<open>auto simp: h2_def\<close>)
  then show ?thesis
    using reply_cells [OF ok, of server_dummy "0x01020304"] a by (auto simp: sv_reply_def h2_def)
qed

lemma cleanup_mem_data_ok:
  assumes "mem_at h (Ptr a) v (Ptr b) page"
  shows "rsa_cleanup_mem_data (Ptr a) h = Some (h\<lparr>hp_cells := (hp_cells h)(a := None, b := None)\<rparr>)"
proof -
  obtain pg where "hp_cells h a = Some (MemCell \<lparr>unVirtAddr = v, pPageData = Ptr b\<rparr>)"
    "hp_cells h b = Some (Bytes pg)"
    using assms by (auto simp: mem_at_def split: option.splits cell.splits)
  moreover from this have "a \<noteq> b" by auto
  ultimately show ?thesis
    by (simp add: rsa_cleanup_mem_data_def set_mem_def fun_upd_twist)
qed

lemma sv_release_ok:
  assumes m: "mem_at (sv_host s) (Ptr a1) v (Ptr b1) page" "sv_mem s = Ptr a1"
    and r: "stream_at (sv_host s) (Ptr a2) st2 bs2" "pBuffer st2 = Ptr b2" "sv_recv s = Ptr a2"
    and w: "stream_at (sv_host s) (Ptr a3) st3 bs3" "pBuffer st3 = Ptr b3" "sv_send s = Ptr a3"
    and dis: "distinct [a1, b1, a2, b2, a3, b3]"
  shows "sv_release s = Some (s\<lparr>sv_host := (sv_host s)\<lparr>hp_cells := (hp_cells (sv_host s))
      (a1 := None, b1 := None, a2 := None, b2 := None, a3 := None, b3 := None)\<rparr>,
    sv_recv := Null, sv_send := Null, sv_mem := Null\<rparr>)"
proof -
  let ?h = "sv_host s"
  define h1 where "h1 = ?h\<lparr>hp_cells := (hp_cells ?h)(a1 := None, b1 := None)\<rparr>"
  define h2 where "h2 = h1\<lparr>hp_cells := (hp_cells h1)(a2 := None, b2 := None)\<rparr>"
  have "rsa_cleanup_mem_data (Ptr a1) ?h = Some h1"
    using cleanup_mem_data_ok [OF m(1)] by (simp add: h1_def)
  moreover have "stream_at h1 (Ptr a2) st2 bs2"
    using r(1,2) by (rule stream_at_cells) (use dis in \<open>auto simp: h1_def\<close>)
  then have "rsa_buffer_cleanup_buffer (Ptr a2) h1 = Some h2"
    using cleanup_buffer_ok r(2) by (simp add: h2_def)
  moreover have "stream_at h2 (Ptr a3) st3 bs3"
    using w(1,2) by (rule stream_at_cells) (use dis in \<open>auto simp: h1_def h2_def\<close>)
  then have "rsa_buffer_cleanup_buffer (Ptr a3) h2 =
      Some (h2\<lparr>hp_cells := (hp_cells h2)(a3 := None, b3 := None)\<rparr>)"
    using w(2) by (rule cleanup_buffer_ok)
  ultimately show ?thesis using m(2) r(3) w(3) by (simp add: sv_release_def h1_def h2_def)
qed

section \<open>A whole pass\<close>

lemma signal_fold: "fold signal_handler ss d \<longleftrightarrow> d \<or> SIGINT \<in> set ss \<or> SIGTERM \<in> set ss"
  by (induction ss arbitrary: d) (auto simp: signal_handler_def)

lemma srv_short_reply:
  assumes ok: "host_ok (sv_host s0)" and plan: "hp_plan (sv_host s0) = []"
    and fd: "0 \<le> cl_fd c" and recv: "nt_recv (cl_net c) = Some x # rest" and x: "x \<noteq> []"
  shows "srv_iteration c s0 = None"
proof -
  define n where "n = hp_next (sv_host s0)"
  obtain s1 h2 s2 got nt where R: "sv_init_recv s0 = Some (0, s1)"
    "rsa_buffer_read_from_socket (cl_fd c) (sv_recv s1) (Some 0) (sv_host s1) (cl_net c) =
       Some (0, Some got, h2, nt)" "got \<noteq> 0"
    "sv_deserialize (s1\<lparr>sv_host := h2\<rparr>) = Some (0, s2)"
    and s2: "host_ok (sv_host s2)" "hp_plan (sv_host s2) = []" "hp_next (sv_host s2) = n + 5"
    using serve_request [OF ok plan n_def fd recv x] by metis
  have e6: "n + 5 + 1 = n + 6" by simp
  obtain h3 b3 where mk: "rsa_buffer_init_buffer msg_size (Some (sv_send s2)) (sv_host s2) = Some (0, Some (Ptr (n + 5)), h3)"
    and B3: "stream_at h3 (Ptr (n + 5)) (fresh_stream msg_size (n + 6)) b3" "length b3 = PAGESIZE + 8"
      "host_ok h3"
    using new_buffer [OF s2(1,2) s2(3) [symmetric], of "sv_send s2", unfolded e6] by blast
  define s3 where "s3 = s2\<lparr>sv_send := Ptr (n + 5), sv_host := h3\<rparr>"
  have c3: "sv_init_send s2 = Some (0, s3)" using mk by (simp add: sv_init_send_def s3_def)
  have "stream_at (sv_host s3) (Ptr (n + 5)) (fresh_stream msg_size (n + 6)) b3"
    "sv_send s3 = Ptr (n + 5)" "pBuffer (fresh_stream msg_size (n + 6)) = Ptr (n + 6)"
    "szWriteCur (fresh_stream msg_size (n + 6)) = 0" "host_ok (sv_host s3)"
    using B3 by (simp_all add: s3_def fresh_stream_def)
  then have "sv_reply s3 = None" using B3(2) by (metis sv_reply_short)
  then show ?thesis using fd R c3
    by (auto simp: srv_iteration_def srv_bail_def Let_def bind_eq_None_conv)
qed

text \<open>A client that closes its side without sending: its buffer and its descriptor stay behind.\<close>

definition silent :: "client \<Rightarrow> bool" where
  "silent c \<longleftrightarrow> 0 \<le> cl_fd c \<and> (\<exists>rest. nt_recv (cl_net c) = Some [] # rest)"

lemma srv_silent:
  assumes ok: "host_ok (sv_host s0)" and plan: "hp_plan (sv_host s0) = []" and c: "silent c"
  shows "\<exists>s. srv_iteration c s0 = Some (Next s) \<and> host_ok (sv_host s) \<and> hp_plan (sv_host s) = [] \<and>
    hp_next (sv_host s) = hp_next (sv_host s0) + 2 \<and> sv_replies s = sv_replies s0 \<and> sv_sys s = sv_sys s0 \<and>
    live (sv_host s) = live (sv_host s0) \<union> {hp_next (sv_host s0), hp_next (sv_host s0) + 1} \<and>
    sv_death s = fold signal_handler (cl_signals c) (sv_death s0)"
proof -
  define n where "n = hp_next (sv_host s0)"
  obtain rest where fd: "0 \<le> cl_fd c" and recv: "nt_recv (cl_net c) = Some [] # rest" using c by (auto simp: silent_def)
  obtain h1 b where mk: "rsa_buffer_init_buffer msg_size (Some (sv_recv s0)) (sv_host s0) = Some (0, Some (Ptr n), h1)"
    and B: "stream_at h1 (Ptr n) (fresh_stream msg_size (n + 1)) b" "length b = PAGESIZE + 8"
    "agree {n, n + 1} (sv_host s0) h1" "host_ok h1" "hp_plan h1 = []" "hp_next h1 = n + 2"
    using new_buffer [OF ok plan n_def] by blast
  let ?st = "(fresh_stream msg_size (n + 1))\<lparr>szWriteCur := 0\<rparr>"
  define h2 where "h2 = put_cell (Ptr n) (StreamCell ?st) (put_cell (Ptr (n + 1)) (Bytes b) h1)"
  obtain nt where rd: "rsa_buffer_read_from_socket (cl_fd c) (Ptr n) (Some 0) h1 (cl_net c) = Some (0, Some 0, h2, nt)"
    using read_from_socket_chunk [OF B(1) fd _ recv, of 0] B(2) page_sizes
    by (auto simp: h2_def fresh_stream_def splice_at_def)
  have init: "sv_init_recv s0 = Some (0, s0\<lparr>sv_recv := Ptr n, sv_host := h1\<rparr>)" using mk by (simp add: sv_init_recv_def)
  let ?s = "s0\<lparr>sv_recv := Ptr n, sv_host := h2, sv_death := fold signal_handler (cl_signals c) (sv_death s0)\<rparr>"
  have "srv_iteration c s0 = Some (Next ?s)"
    using fd init rd by (simp add: srv_iteration_def srv_bail_def Let_def)
  moreover have "hp_cells h2 a = None \<longleftrightarrow> hp_cells (sv_host s0) a = None \<and> a \<notin> {n, n + 1}" for a
    using B(3) by (auto simp: h2_def agree_def)
  then have "live h2 = live (sv_host s0) \<union> {n, n + 1}" by (auto simp: live_def dom_def)
  moreover have "host_ok h2" "hp_plan h2 = []" "hp_next h2 = n + 2" using B(4-6) by (auto simp: h2_def host_ok_def)
  ultimately show ?thesis by (intro exI [of _ ?s]) (simp add: n_def)
qed

lemma srv_silent_loop:
  assumes "host_ok (sv_host s0)" and "hp_plan (sv_host s0) = []" and "\<forall>c \<in> set cs. silent c"
  shows "\<exists>s. (\<forall>cs'. srv_loop (cs @ cs') s0 = srv_loop cs' s) \<and> host_ok (sv_host s) \<and> hp_plan (sv_host s) = [] \<and>
    hp_next (sv_host s) = hp_next (sv_host s0) + 2 * length cs \<and> sv_replies s = sv_replies s0 \<and> sv_sys s = sv_sys s0 \<and>
    live (sv_host s) = live (sv_host s0) \<union> {hp_next (sv_host s0)..<hp_next (sv_host s0) + 2 * length cs} \<and>
    sv_death s = fold signal_handler (concat (map cl_signals cs)) (sv_death s0)"
  using assms
proof (induction cs arbitrary: s0)
  case Nil
  then show ?case by (intro exI [of _ s0]) simp
next
  case (Cons c cs)
  let ?n = "hp_next (sv_host s0)"
  obtain s1 where s1: "srv_iteration c s0 = Some (Next s1)" "host_ok (sv_host s1)" "hp_plan (sv_host s1) = []"
    "hp_next (sv_host s1) = ?n + 2" "sv_replies s1 = sv_replies s0" "sv_sys s1 = sv_sys s0"
    "live (sv_host s1) = live (sv_host s0) \<union> {?n, ?n + 1}" "sv_death s1 = fold signal_handler (cl_signals c) (sv_death s0)"
    using srv_silent [OF Cons.prems(1,2), of c] Cons.prems(3) by (meson list.set_intros(1))
  obtain s where s: "\<forall>cs'. srv_loop (cs @ cs') s1 = srv_loop cs' s" "host_ok (sv_host s)" "hp_plan (sv_host s) = []"
    "hp_next (sv_host s) = ?n + 2 + 2 * length cs" "sv_replies s = sv_replies s1" "sv_sys s = sv_sys s1"
    "live (sv_host s) = live (sv_host s1) \<union> {?n + 2..<?n + 2 + 2 * length cs}"
    "sv_death s = fold signal_handler (concat (map cl_signals cs)) (sv_death s1)"
    using Cons.IH [OF s1(2,3)] Cons.prems(3) by (auto simp: s1(4))
  have live: "live (sv_host s) = live (sv_host s0) \<union> {?n..<?n + 2 * length (c # cs)}"
    unfolding s(7) s1(7) by auto
  show ?case using s(1-6,8) s1 by (intro exI [of _ s]) (simp add: live)
qed

section \<open>The test client\<close>

text \<open>
  Whatever the network does, the test client has undefined behaviour: its page is a string
  literal, and where the server is not reached it follows the NULL it was given.
\<close>

lemma test_client_undefined:
  assumes ok: "host_ok h" and plan: "hp_plan h = []" and dummy: "length dummy < PAGESIZE"
  shows "test_client dummy h nt sy = None"
proof -
  define n where "n = hp_next h"
  define h2 where "h2 = h\<lparr>hp_next := n + 2, hp_cells := (hp_cells h)(n \<mapsto> Bytes dummy,
      n + 1 \<mapsto> MemCell \<lparr>unVirtAddr = 0x04030201, pPageData = Ptr n\<rparr>)\<rparr>"
  have cells: "\<exists>g. local_cell (Bytes dummy) h = (Ptr n, g) \<and>
      local_cell (MemCell \<lparr>unVirtAddr = 0x04030201, pPageData = Ptr n\<rparr>) g = (Ptr (n + 1), h2)"
    using reply_cells [OF ok] by (simp add: n_def h2_def)
  show ?thesis
  proof (cases "reachable_server sy")
    case True
    have "host_ok h2" using ok by (auto simp: host_ok_def h2_def n_def)
    moreover have "get_mem h2 (Ptr (n + 1)) = Some \<lparr>unVirtAddr = 0x04030201, pPageData = Ptr n\<rparr>"
      "get_bytes h2 (Ptr n) = Some dummy" "hp_plan h2 = []"
      by (simp_all add: h2_def plan)
    ultimately have "rsa_download_more_ram (Ptr (n + 1)) (Some Null) h2 nt sy = None"
      using True dummy by (metis download_short_page)
    with cells show ?thesis by (auto simp: test_client_def)
  next
    case False
    then obtain sy' where "rsa_download_more_ram (Ptr (n + 1)) (Some Null) h2 nt sy =
        Some (0, Some Null, h2, nt, sy')"
      using download_unreachable [of sy "Ptr (n + 1)" Null h2 nt] by auto
    with cells show ?thesis by (auto simp: test_client_def)
  qed
qed

section \<open>Properties\<close>

definition idle_server :: server where
  "idle_server = \<lparr>sv_host = page_host False, sv_sys = sample_env, sv_death = False, sv_replies = [],
     sv_recv = Null, sv_send = Null, sv_mem = Null\<rparr>"

definition sample_client :: client where
  "sample_client = \<lparr>cl_fd = 7, cl_net = \<lparr>nt_send = [], nt_recv = [Some (replicate (PAGESIZE + 8) 0)], nt_sent = []\<rparr>,
     cl_signals = [SIGTERM]\<rparr>"

text \<open>
  Claim C3. The server as it is built answers nobody. While every \<open>malloc\<close> succeeds, each client that
  closes without sending is passed over with its descriptor and its receive buffer left behind, and a
  signal that arrives then does not end the loop; a failed \<open>accept\<close> ends it; and the first client
  that sends anything, even a single byte, makes it copy \<open>PAGESIZE\<close> bytes out of its reply, a string
  literal of 23 bytes.
\<close>

theorem server_run:
  assumes "host_ok (sv_host s0)" and "hp_plan (sv_host s0) = []" and "\<forall>c \<in> set cs. silent c"
  shows "length server_dummy = 23 \<and>
    (\<exists>s. srv_loop cs s0 = Some (Blocked s) \<and> sv_replies s = sv_replies s0 \<and> sv_sys s = sv_sys s0 \<and>
      live (sv_host s) = live (sv_host s0) \<union> {hp_next (sv_host s0)..<hp_next (sv_host s0) + 2 * length cs} \<and>
      sv_death s = (sv_death s0 \<or> (\<exists>c \<in> set cs. SIGINT \<in> set (cl_signals c) \<or> SIGTERM \<in> set (cl_signals c))) \<and>
      (\<forall>c cs'. cl_fd c = -1 \<longrightarrow> srv_loop (cs @ c # cs') s0 = Some (Exited COM_ERROR s))) \<and>
    (\<forall>c x rest cs'. 0 \<le> cl_fd c \<longrightarrow> nt_recv (cl_net c) = Some x # rest \<longrightarrow> x \<noteq> [] \<longrightarrow> srv_loop (cs @ c # cs') s0 = None)"
proof -
  obtain s where s: "\<And>cs'. srv_loop (cs @ cs') s0 = srv_loop cs' s" "host_ok (sv_host s)" "hp_plan (sv_host s) = []"
    "sv_replies s = sv_replies s0" "sv_sys s = sv_sys s0"
    "live (sv_host s) = live (sv_host s0) \<union> {hp_next (sv_host s0)..<hp_next (sv_host s0) + 2 * length cs}"
    "sv_death s = fold signal_handler (concat (map cl_signals cs)) (sv_death s0)"
    using srv_silent_loop [OF assms] by blast
  have "srv_loop cs s0 = Some (Blocked s)" using s(1) [of "[]"] by simp
  moreover have "srv_loop (cs @ c # cs') s0 = Some (Exited COM_ERROR s)" if "cl_fd c = -1" for c cs'
    using that by (simp add: s(1) srv_iteration_def)
  moreover have "srv_loop (cs @ c # cs') s0 = None"
    if "0 \<le> cl_fd c" "nt_recv (cl_net c) = Some x # rest" "x \<noteq> []" for c x rest cs'
    using srv_short_reply [OF s(2,3) that] by (simp add: s(1))
  moreover have "length server_dummy = 23" by (simp add: server_dummy_def)
  ultimately show ?thesis using s(4-7) by (auto simp: signal_fold)
qed

theorem server_run_witness:
  "length server_dummy = 23 \<and> silent (sample_client\<lparr>cl_net := \<lparr>nt_send = [], nt_recv = [Some []], nt_sent = []\<rparr>\<rparr>) \<and>
   (\<exists>s. srv_loop [sample_client\<lparr>cl_net := \<lparr>nt_send = [], nt_recv = [Some []], nt_sent = []\<rparr>\<rparr>] idle_server = Some (Blocked s) \<and> sv_death s) \<and>
   srv_loop [sample_client\<lparr>cl_net := \<lparr>nt_send = [], nt_recv = [Some []], nt_sent = []\<rparr>\<rparr>, sample_client] idle_server = None"
proof -
  let ?c = "sample_client\<lparr>cl_net := \<lparr>nt_send = [], nt_recv = [Some []], nt_sent = []\<rparr>\<rparr>"
  have c: "silent ?c" by (simp add: silent_def sample_client_def)
  have h: "host_ok (sv_host idle_server)" "hp_plan (sv_host idle_server) = []"
    using page_host_facts(1,2) [of False] by (simp_all add: idle_server_def)
  have f: "0 \<le> cl_fd sample_client" "nt_recv (cl_net sample_client) = [Some (replicate (PAGESIZE + 8) 0)]"
    "replicate (PAGESIZE + 8) (0 :: byte) \<noteq> []" "SIGTERM \<in> set (cl_signals ?c)"
    by (simp_all add: sample_client_def PAGESIZE_def)
  have one: "\<forall>c \<in> set [?c]. silent c" using c by simp
  show ?thesis using server_run [OF h one] c f by auto
qed

text \<open>
  The result of binding the server's socket is lost: whatever \<open>bind\<close> returns, the
  server goes on to accept connections in the same way.
\<close>

theorem bind_result_ignored:
  assumes "sy_gai sy = 0" and "0 < sy_socket sy"
  shows "rsa_net_connect_socket RSA_PROC_SERVER True (sy_socket sy) sy = sy_bind sy \<and>
    (\<exists>s. do_networking 0 [] h sy = Some (Blocked s) \<and> sv_host s = h \<and> \<not> sv_death s \<and>
       sv_sys s = sy\<lparr>sy_ai_live := sy_ai_live sy + 1\<rparr>)"
  using assms
  by (auto simp: do_networking_def rsa_net_create_socket_def rsa_net_connect_socket_def Let_def)

theorem bind_result_ignored_witness:
  "rsa_net_connect_socket RSA_PROC_SERVER True 5 (sample_env\<lparr>sy_bind := -1\<rparr>) = -1 \<and>
   (\<exists>s. do_networking 0 [] short_host (sample_env\<lparr>sy_bind := -1\<rparr>) = Some (Blocked s))"
  using bind_result_ignored [of "sample_env\<lparr>sy_bind := -1\<rparr>" short_host]
  by (auto simp: sample_env_def)

text \<open>
  The test client has undefined behaviour in every environment in which its
  allocations succeed: a reachable server makes it read past its string literal, an
  unreachable one makes it follow NULL.
\<close>

theorem test_client_always_undefined:
  assumes "host_ok h" and "hp_plan h = []"
  shows "rsa_test_client_main h nt sy = None"
  unfolding rsa_test_client_main_def using assms client_dummy_short by (rule test_client_undefined)

theorem test_client_always_undefined_witness:
  "rsa_test_client_main (page_host True) \<lparr>nt_send = [], nt_recv = [], nt_sent = []\<rparr> sample_env = None"
  using page_host_facts(1,2) by (rule test_client_always_undefined)

end
