(* ===== verification/CharDev.thy ===== *)
theory CharDev
  imports Prelude
begin

text \<open>
  The character device driver char_device/chr_drv_udev.c: a buffer of \<open>MAX_LENGTH\<close> bytes
  behind \<open>read\<close>, \<open>write\<close> and \<open>llseek\<close>. The widths are those of the code: the file
  position is a 64-bit \<open>loff_t\<close>, the byte counts are \<open>int\<close>s, and a comparison of an
  \<open>int\<close> with the \<open>size_t\<close> of the caller converts the \<open>int\<close> to 64 bits unsigned.
  \<open>None\<close> is an access outside the buffer. The parameter \<open>accept\<close> is how many bytes
  \<open>copy_to_user\<close> and \<open>copy_from_user\<close> can move before they fault.
\<close>

section \<open>State\<close>

definition MAX_LENGTH :: nat where [simp]: "MAX_LENGTH = 4000"
definition ENOSPC :: int where [simp]: "ENOSPC = 28"
definition EINVAL :: int where [simp]: "EINVAL = 22"

record cdev_state =
  char_device_buf :: "byte list"
  f_pos :: u64

section \<open>read, write, llseek\<close>

text \<open>\<open>maxbytes\<close> and \<open>bytes_to_do\<close>, computed alike by \<open>read\<close> and \<open>write\<close>.\<close>

definition bytes_to_do :: "u64 \<Rightarrow> u64 \<Rightarrow> u32" where
  "bytes_to_do ppos lbuf =
     (let maxbytes = (ucast (of_nat MAX_LENGTH - ppos) :: u32)
      in if (scast maxbytes :: u64) > lbuf then ucast lbuf else maxbytes)"

text \<open>How many bytes the copy moves, and \<open>nbytes\<close>, the count the driver computes from it.\<close>

definition copied :: "nat \<Rightarrow> u32 \<Rightarrow> nat" where
  "copied accept todo = min (unat (scast todo :: u64)) accept"

definition nbytes_of :: "nat \<Rightarrow> u32 \<Rightarrow> u32" where
  "nbytes_of accept todo =
     ucast ((scast todo :: u64) - ((scast todo :: u64) - of_nat (copied accept todo)))"

definition char_dev_read ::
  "nat \<Rightarrow> byte list \<Rightarrow> u64 \<Rightarrow> u64 \<Rightarrow> (int \<times> byte list \<times> u64) option" where
  "char_dev_read accept buf lbuf ppos =
     (let todo = bytes_to_do ppos lbuf
      in if todo = 0 then Some (- ENOSPC, [], ppos)
         else let k = copied accept todo; nbytes = nbytes_of accept todo
              in if 0 \<le> sint ppos \<and> nat (sint ppos) + k \<le> length buf
                 then Some (sint nbytes, segment (nat (sint ppos)) k buf, ppos + scast nbytes)
                 else None)"

text \<open>
  The loop that looks for an overwritten canary, \<open>for (i = *ppos; i <= nbytes; i++)\<close>: it
  reads \<open>char_device_buf[i]\<close> before it looks at \<open>i\<close>. The result is the list of indices
  it logs.
\<close>

function canary_loop :: "byte list \<Rightarrow> int \<Rightarrow> int \<Rightarrow> int list option" where
  "canary_loop buf i nbytes =
     (if i \<le> nbytes
      then if 0 \<le> i \<and> nat i < length buf
           then map_option (\<lambda>l. if buf ! nat i \<noteq> 38 \<and> 300 \<le> i \<and> i < 400 then i # l else l)
                  (canary_loop buf (i + 1) nbytes)
           else None
      else Some [])"
  by pat_completeness auto
termination
  by (relation "measure (\<lambda>(buf, i, nbytes). nat (nbytes + 1 - i))") auto

declare canary_loop.simps [simp del]

definition char_dev_write ::
  "nat \<Rightarrow> byte list \<Rightarrow> byte list \<Rightarrow> u64 \<Rightarrow> u64 \<Rightarrow> (int \<times> int list \<times> byte list \<times> u64) option" where
  "char_dev_write accept ubuf buf lbuf ppos =
     (let todo = bytes_to_do ppos lbuf
      in if todo = 0 then Some (- ENOSPC, [], buf, ppos)
         else let k = copied accept todo; nbytes = nbytes_of accept todo
              in if 0 \<le> sint ppos \<and> nat (sint ppos) + k \<le> length buf \<and> k \<le> length ubuf
                 then let buf' = splice_at (nat (sint ppos)) (take k ubuf) buf
                      in map_option (\<lambda>logged. (sint nbytes, logged, buf', ppos + scast nbytes))
                           (canary_loop buf' (sint (ucast ppos :: u32)) (sint nbytes))
                 else None)"

text \<open>\<open>open\<close> counts its calls, \<open>release\<close> does nothing.\<close>

definition char_dev_open :: "u32 \<Rightarrow> int \<times> u32" where
  "char_dev_open counter = (0, counter + 1)"

definition char_dev_release :: "u32 \<Rightarrow> int \<times> u32" where
  "char_dev_release counter = (0, counter)"

text \<open>\<open>testpos = testpos < MAX_LENGTH ? testpos : MAX_LENGTH\<close> and the same at 0.\<close>

definition clamp_pos :: "u64 \<Rightarrow> u64" where
  "clamp_pos testpos =
     (let p1 = (if sint testpos < int MAX_LENGTH then testpos else of_nat MAX_LENGTH)
      in (if sint p1 \<ge> 0 then p1 else 0))"

definition char_dev_lseek :: "cdev_state \<Rightarrow> u64 \<Rightarrow> int \<Rightarrow> int \<times> cdev_state" where
  "char_dev_lseek st offset orig =
     (let finish = (\<lambda>testpos. (sint (clamp_pos testpos), st\<lparr>f_pos := clamp_pos testpos\<rparr>))
      in if orig = 0 then finish offset
         else if orig = 1 then finish (f_pos st + offset)
         else if orig = 2 then finish (of_nat MAX_LENGTH + offset)
         else (- EINVAL, st))"

section \<open>Initialisation\<close>

text \<open>
  The kernel's answers while the module is loaded, and what the module then holds. The
  buffer is \<open>kmalloc\<close>ed without a check: \<open>None\<close> is the write through NULL.
\<close>

record cdev_env =
  region_rc :: int
  cdev_ok :: bool
  add_rc :: int
  kmalloc_ok :: bool

record cdev_module =
  region_held :: bool
  cdev_held :: bool
  class_held :: bool
  module_buf :: "byte list option"

definition char_dev_init :: "cdev_env \<Rightarrow> byte list \<Rightarrow> (int \<times> cdev_module) option" where
  "char_dev_init env junk =
     (let m0 = \<lparr>region_held = False, cdev_held = False, class_held = False, module_buf = None\<rparr>
      in if region_rc env < 0 then Some (-1, m0)
         else if \<not> cdev_ok env then Some (-1, m0\<lparr>region_held := False\<rparr>)
         else if add_rc env < 0 then Some (-1, m0\<lparr>region_held := False, cdev_held := False\<rparr>)
         else if \<not> kmalloc_ok env then None
         else Some (0, \<lparr>region_held = True, cdev_held = True, class_held = True,
                module_buf = Some (splice_at 300 (replicate 100 38) (take MAX_LENGTH junk))\<rparr>))"

definition char_dev_exit :: "cdev_module \<Rightarrow> cdev_module" where
  "char_dev_exit m = m\<lparr>class_held := False, cdev_held := False, region_held := False, module_buf := None\<rparr>"

section \<open>Counts inside the buffer\<close>

lemma sint_small64: "t < 9223372036854775808 \<Longrightarrow> sint (of_nat t :: u64) = int t"
  by (simp add: signed_of_nat signed_take_bit_int_eq_self)

lemma ucast_diff_small:
  assumes "p \<le> 4000" shows "ucast (of_nat MAX_LENGTH - of_nat p :: u64) = (of_nat (4000 - p) :: u32)"
proof -
  have "(of_nat MAX_LENGTH - of_nat p :: u64) = of_nat (4000 - p)"
    using assms by (simp add: of_nat_diff)
  moreover have "ucast (of_nat q :: u64) = (of_nat q :: u32)" for q :: nat
    by (simp add: unsigned_of_nat word_of_nat_eq_iff)
  ultimately show ?thesis by simp
qed

lemma unat_small64: "t < 9223372036854775808 \<Longrightarrow> unat (of_nat t :: u64) = t"
  by (simp add: unat_of_nat take_bit_nat_eq_self)

text \<open>
  At a position of at most \<open>MAX_LENGTH\<close> and for a count below \<open>2^31\<close> the driver asks for
  exactly what is left, or less.
\<close>

lemma bytes_to_do_eq:
  assumes "p \<le> 4000" and "unat lbuf < 2147483648"
  shows "bytes_to_do (of_nat p) lbuf = of_nat (min (4000 - p) (unat lbuf))"
proof -
  have gt: "(scast (of_nat (4000 - p) :: u32) :: u64) > lbuf \<longleftrightarrow> 4000 - p > unat lbuf"
    by (simp add: scast_small word_less_nat_alt unat_small64)
  have "ucast lbuf = (of_nat (unat lbuf) :: u32)" by simp
  then show ?thesis
    unfolding bytes_to_do_def Let_def ucast_diff_small [OF assms(1)] gt
    by (simp add: min_def)
qed

lemma copied_eq: "t < 2147483648 \<Longrightarrow> copied accept (of_nat t) = min t accept"
  by (simp add: copied_def scast_small unat_small64)

lemma nbytes_eq:
  assumes "t < 2147483648"
  shows "nbytes_of accept (of_nat t) = of_nat (min t accept)"
proof -
  have "ucast (of_nat q :: u64) = (of_nat q :: u32)" for q :: nat
    by (simp add: unsigned_of_nat word_of_nat_eq_iff)
  then show ?thesis by (simp add: nbytes_of_def copied_eq [OF assms])
qed

lemma of_nat_eq_0_small: "t < 2147483648 \<Longrightarrow> (of_nat t :: u32) = 0 \<longleftrightarrow> t = 0"
  by (auto simp: word_of_nat_eq_0_iff dest: dvd_imp_le)

lemma read_result:
  fixes accept :: nat
  assumes p: "p \<le> 4000" and l: "unat lbuf < 2147483648" and b: "length buf = 4000"
  defines "t \<equiv> min (4000 - p) (unat lbuf)"
  defines "k \<equiv> min t accept"
  shows "char_dev_read accept buf lbuf (of_nat p) =
    Some (if t = 0 then (- ENOSPC, [], of_nat p)
          else (int k, segment p k buf, of_nat p + of_nat k))"
proof -
  have t: "t < 2147483648" "t \<le> 4000 - p" by (auto simp: t_def)
  have k: "k < 2147483648" "p + k \<le> 4000" using t p by (auto simp: k_def)
  have s: "sint (of_nat p :: u64) = int p" using p by (simp add: sint_small64)
  show ?thesis
    unfolding char_dev_read_def bytes_to_do_eq [OF p l, folded t_def] Let_def
      of_nat_eq_0_small [OF t(1)] copied_eq [of t accept, OF t(1), folded k_def]
      nbytes_eq [of t accept, OF t(1), folded k_def] s sint_small [OF k(1)] scast_small [OF k(1)]
    using p k(2) b by auto
qed

lemma canary_loop_inside:
  "0 \<le> i \<Longrightarrow> n < int (length buf) \<Longrightarrow> \<exists>l. canary_loop buf i n = Some l"
proof (induction buf i n rule: canary_loop.induct)
  case (1 buf i n)
  show ?case
  proof (cases "i \<le> n")
    case True
    with 1 have "\<exists>l. canary_loop buf (i + 1) n = Some l" by simp
    then obtain l where "canary_loop buf (i + 1) n = Some l" ..
    with True 1(2,3) show ?thesis by (subst canary_loop.simps) simp
  qed (subst canary_loop.simps, simp)
qed

lemma canary_loop_overrun:
  "i \<le> n \<Longrightarrow> int (length buf) \<le> n \<Longrightarrow> canary_loop buf i n = None"
proof (induction buf i n rule: canary_loop.induct)
  case (1 buf i n)
  show ?case
  proof (cases "0 \<le> i \<and> nat i < length buf")
    case True
    then have "i + 1 \<le> n" using 1(3) by linarith
    then have "canary_loop buf (i + 1) n = None" using 1 True by blast
    with True 1(2) show ?thesis by (subst canary_loop.simps) simp
  next
    case False
    with 1(2) show ?thesis by (subst canary_loop.simps) auto
  qed
qed

lemma write_result:
  fixes accept :: nat
  assumes p: "p \<le> 4000" and l: "unat lbuf < 2147483648" and b: "length buf = 4000"
  defines "t \<equiv> min (4000 - p) (unat lbuf)"
  defines "k \<equiv> min t accept"
  assumes u: "k \<le> length ubuf"
  shows "char_dev_write accept ubuf buf lbuf (of_nat p) =
    (if t = 0 then Some (- ENOSPC, [], buf, of_nat p)
     else map_option (\<lambda>logged. (int k, logged, splice_at p (take k ubuf) buf, of_nat p + of_nat k))
            (canary_loop (splice_at p (take k ubuf) buf) (int p) (int k)))"
proof -
  have t: "t < 2147483648" "t \<le> 4000 - p" by (auto simp: t_def)
  have k: "k < 2147483648" "p + k \<le> 4000" using t p by (auto simp: k_def)
  have s: "sint (of_nat p :: u64) = int p" using p by (simp add: sint_small64)
  have "(ucast (of_nat p :: u64) :: u32) = of_nat p" by (simp add: unsigned_of_nat word_of_nat_eq_iff)
  then have i: "sint (ucast (of_nat p :: u64) :: u32) = int p" using p by (simp add: sint_small)
  show ?thesis
    unfolding char_dev_write_def bytes_to_do_eq [OF p l, folded t_def] Let_def
      of_nat_eq_0_small [OF t(1)] copied_eq [of t accept, OF t(1), folded k_def]
      nbytes_eq [of t accept, OF t(1), folded k_def] s i sint_small [OF k(1)] scast_small [OF k(1)]
    using p k(2) b u by simp
qed

text \<open>Past the end of the buffer the driver does not notice that nothing is left.\<close>

lemma ucast_of_int: "(ucast (word_of_int k :: u64) :: u32) = word_of_int k"
  by (simp add: unsigned_of_int word_of_int_eq_iff)

lemma sint_of_int: "-2147483648 \<le> k \<Longrightarrow> k < 2147483648 \<Longrightarrow> sint (word_of_int k :: u32) = k"
  by (simp add: signed_of_int signed_take_bit_int_eq_self)

lemma uint_of_neg:
  assumes "0 < q" and "q < 2147483648"
  shows "uint (word_of_int (- int q) :: u64) = 2 ^ 64 - int q"
proof -
  have "uint (word_of_int (- int q) :: u64) = (- int q) mod 2 ^ 64"
    by (simp only: uint_word_of_int) simp
  also have "\<dots> = (2 ^ 64 - int q) mod 2 ^ 64"
    using minus_mod_self1 [of "- int q" "2 ^ 64"] by simp
  also have "\<dots> = 2 ^ 64 - int q" using assms by (intro mod_pos_pos_trivial) simp_all
  finally show ?thesis .
qed

lemma bytes_to_do_past_end:
  assumes "4000 < p" and "p < 2147483648" and "unat lbuf < 2147483648"
  shows "bytes_to_do (of_nat p) lbuf = of_nat (unat lbuf)"
proof -
  define q where "q = p - 4000"
  have q: "0 < q" "q < 2147483648" "p = 4000 + q" using assms by (auto simp: q_def)
  have d: "(of_nat MAX_LENGTH - of_nat p :: u64) = word_of_int (- int q)"
    by (simp add: q(3))
  have "sint (word_of_int (- int q) :: u32) = - int q"
    using q by (intro sint_of_int) simp_all
  then have sc: "(scast (word_of_int (- int q) :: u32) :: u64) = word_of_int (- int q)"
    by (simp only: scast_eq)
  have "lbuf < (word_of_int (- int q) :: u64)"
    unfolding word_less_def uint_of_neg [OF q(1,2)]
  proof -
    have "uint lbuf = int (unat lbuf)" and "(2 :: int) ^ 64 = 18446744073709551616" by simp_all
    with assms(3) q(2) show "uint lbuf < 2 ^ 64 - int q" by linarith
  qed
  moreover have "ucast lbuf = (of_nat (unat lbuf) :: u32)" by simp
  ultimately show ?thesis
    unfolding bytes_to_do_def Let_def d ucast_of_int sc by (simp only: if_True)
qed

section \<open>Seeking\<close>

lemma clamp_pos_range: "\<exists>p \<le> 4000. clamp_pos x = of_nat p"
proof (cases "0 \<le> sint x \<and> sint x < 4000")
  case True
  then have "nat (sint x) \<le> 4000" by linarith
  with True show ?thesis by (intro exI [of _ "nat (sint x)"]) (simp add: clamp_pos_def)
next
  case False
  then show ?thesis
    by (cases "sint x < 4000") (auto simp: clamp_pos_def intro: exI [of _ 0] exI [of _ 4000])
qed

lemma char_dev_lseek_pos:
  assumes "orig = 0 \<or> orig = 1 \<or> orig = 2"
  shows "\<exists>p \<le> 4000. char_dev_lseek st offset orig = (int p, st\<lparr>f_pos := of_nat p\<rparr>)"
proof -
  have "\<exists>p \<le> 4000. (sint (clamp_pos x), st\<lparr>f_pos := clamp_pos x\<rparr>) = (int p, st\<lparr>f_pos := of_nat p\<rparr>)" for x
  proof -
    obtain p where "p \<le> 4000" "clamp_pos x = of_nat p" using clamp_pos_range by blast
    then show ?thesis by (intro exI [of _ p]) (simp add: sint_small64)
  qed
  with assms show ?thesis unfolding char_dev_lseek_def Let_def by auto
qed

section \<open>Sessions\<close>

text \<open>
  A process that uses the open device: the calls it makes, and the state after one of them.
  \<open>None\<close> is a call in which the driver leaves its buffer.
\<close>

datatype dev_call = DevRead nat u64 | DevWrite nat "byte list" | DevSeek u64 int

fun dev_step :: "dev_call \<Rightarrow> cdev_state \<Rightarrow> cdev_state option" where
  "dev_step (DevRead accept n) st =
     map_option (\<lambda>(r, data, p). st\<lparr>f_pos := p\<rparr>) (char_dev_read accept (char_device_buf st) n (f_pos st))"
| "dev_step (DevWrite accept data) st =
     map_option (\<lambda>(r, logged, buf, p). st\<lparr>char_device_buf := buf, f_pos := p\<rparr>)
       (char_dev_write accept data (char_device_buf st) (of_nat (length data)) (f_pos st))"
| "dev_step (DevSeek off orig) st = Some (snd (char_dev_lseek st off orig))"

inductive dev_reachable :: "byte list \<Rightarrow> cdev_state \<Rightarrow> bool" for b where
  opened: "length b = MAX_LENGTH \<Longrightarrow> dev_reachable b \<lparr>char_device_buf = b, f_pos = 0\<rparr>"
| called: "dev_reachable b st \<Longrightarrow> (\<And>a n. c = DevRead a n \<Longrightarrow> unat n < 2147483648) \<Longrightarrow>
    (\<And>a d. c = DevWrite a d \<Longrightarrow> length d < 2147483648) \<Longrightarrow> dev_step c st = Some st' \<Longrightarrow> dev_reachable b st'"

definition dev_inv :: "cdev_state \<Rightarrow> bool" where
  "dev_inv st \<longleftrightarrow> length (char_device_buf st) = MAX_LENGTH \<and> (\<exists>p \<le> 4000. f_pos st = of_nat p)"

lemma dev_invI [invariant_intros]:
  "length (char_device_buf st) = 4000 \<Longrightarrow> p \<le> 4000 \<Longrightarrow> f_pos st = of_nat p \<Longrightarrow> dev_inv st"
  by (auto simp: dev_inv_def)

lemma read_step_inv:
  assumes inv: "dev_inv st" and step: "dev_step (DevRead a m) st = Some st'" and m: "unat m < 2147483648"
  shows "dev_inv st'"
proof -
  obtain p where p: "p \<le> 4000" "f_pos st = of_nat p" and b: "length (char_device_buf st) = 4000"
    using inv by (auto simp: dev_inv_def)
  define k where "k = min (min (4000 - p) (unat m)) a"
  have k: "p + k \<le> 4000" using p by (auto simp: k_def)
  have "st' = st\<lparr>f_pos := of_nat p\<rparr> \<or> st' = st\<lparr>f_pos := of_nat (p + k)\<rparr>"
    using step read_result [OF p(1) m b, of a] p(2) by (simp add: k_def [symmetric] split: if_splits)
  then show ?thesis
    using b p(1) k by (auto intro: dev_invI [of _ p] dev_invI [of _ "p + k"])
qed

lemma write_step_inv:
  assumes inv: "dev_inv st" and step: "dev_step (DevWrite a ds) st = Some st'"
    and d: "length ds < 2147483648"
  shows "dev_inv st'"
proof -
  obtain p where p: "p \<le> 4000" "f_pos st = of_nat p" and b: "length (char_device_buf st) = 4000"
    using inv by (auto simp: dev_inv_def)
  define m where "m = (of_nat (length ds) :: u64)"
  have m: "unat m = length ds" using d by (simp add: m_def unat_small64)
  define k where "k = min (min (4000 - p) (unat m)) a"
  have k: "p + k \<le> 4000" "k \<le> length ds" using p m by (auto simp: k_def)
  have w: "char_dev_write a ds (char_device_buf st) m (of_nat p) =
    (if min (4000 - p) (unat m) = 0 then Some (- ENOSPC, [], char_device_buf st, of_nat p)
     else map_option (\<lambda>logged. (int k, logged, splice_at p (take k ds) (char_device_buf st), of_nat p + of_nat k))
            (canary_loop (splice_at p (take k ds) (char_device_buf st)) (int p) (int k)))"
    unfolding k_def using p(1) b d m k(2) by (intro write_result) (simp_all add: k_def)
  have "st' = st\<lparr>f_pos := of_nat p\<rparr> \<or>
    st' = st\<lparr>char_device_buf := splice_at p (take k ds) (char_device_buf st), f_pos := of_nat (p + k)\<rparr>"
    using step p(2) w by (simp add: m_def [symmetric] split: if_splits)
  moreover have "length (splice_at p (take k ds) (char_device_buf st)) = 4000"
    using k b by simp
  ultimately show ?thesis
    using b p(1) k by (auto intro: dev_invI [of _ p] dev_invI [of _ "p + k"])
qed

lemma seek_step_inv:
  assumes inv: "dev_inv st" and step: "dev_step (DevSeek off orig) st = Some st'"
  shows "dev_inv st'"
proof (cases "orig = 0 \<or> orig = 1 \<or> orig = 2")
  case True
  then obtain p where "p \<le> 4000" "char_dev_lseek st off orig = (int p, st\<lparr>f_pos := of_nat p\<rparr>)"
    using char_dev_lseek_pos by blast
  with inv step show ?thesis by (auto simp: dev_inv_def)
next
  case False
  with inv step show ?thesis by (simp add: char_dev_lseek_def)
qed

lemma dev_step_inv:
  assumes inv: "dev_inv st" and step: "dev_step c st = Some st'"
    and n: "\<And>a n. c = DevRead a n \<Longrightarrow> unat n < 2147483648"
    and d: "\<And>a d. c = DevWrite a d \<Longrightarrow> length d < 2147483648"
  shows "dev_inv st'"
  using assms by (cases c) (blast intro: read_step_inv write_step_inv seek_step_inv)+

section \<open>Properties\<close>

lemma past_end_copied:
  assumes "0 < unat lbuf" and "unat lbuf < 2147483648" and "0 < accept"
  shows "0 < copied accept (of_nat (unat lbuf))"
  using assms copied_eq [of "unat lbuf" accept] by simp

lemma dev_reachable_inv: "dev_reachable b st \<Longrightarrow> dev_inv st"
proof (induction rule: dev_reachable.induct)
  case opened
  then show ?case by (intro dev_invI [of _ 0]) simp_all
next
  case (called st c st')
  then show ?case by (blast intro: dev_step_inv)
qed

text \<open>
  Reading. Inside the device a read of \<open>n\<close> bytes at position \<open>p\<close> returns the
  smallest of \<open>n\<close>, the bytes left and the bytes the caller's memory accepts, hands over exactly
  that segment of the buffer and advances the position by it; with nothing to do (also
  for \<open>n = 0\<close>) it returns \<open>-ENOSPC\<close> instead of the 0 that means end of file. The whole
  buffer is read back by a first read of 4000 bytes.
\<close>

theorem char_dev_read_spec:
  assumes p: "p \<le> 4000" and l: "unat lbuf < 2147483648" and b: "length buf = 4000"
  shows "char_dev_read accept buf lbuf (of_nat p) =
      Some (if p = 4000 \<or> lbuf = 0 then (- 28, [], of_nat p)
            else let k = min (min (4000 - p) (unat lbuf)) accept
                 in (int k, take k (drop p buf), of_nat (p + k)))"
proof -
  have "lbuf = 0 \<longleftrightarrow> unat lbuf = 0" by (simp add: unat_eq_0)
  then show ?thesis
    using read_result [OF p l b, of accept] p by (auto simp: Let_def segment_def min_def)
qed

lemma char_dev_read_spec_witness:
  "char_dev_read 100 (replicate 4000 7) 64 (of_nat 3990) = Some (10, replicate 10 7, of_nat 4000)"
  using char_dev_read_spec [of 3990 64 "replicate 4000 7" 100] by simp

text \<open>
  Past the end. At a position above \<open>MAX_LENGTH\<close> (which \<open>pread\<close> passes
  without \<open>llseek\<close>) the signed difference is converted to unsigned before it is
  compared, so the guard lets the whole request through: a non-empty read that the
  caller's memory accepts copies from outside the buffer, and so does the write.
\<close>

theorem char_dev_past_end:
  assumes p: "4000 < p" "p < 2147483648" and b: "length buf = 4000"
    and l: "0 < unat lbuf" "unat lbuf < 2147483648" and a: "0 < accept"
  shows "char_dev_read accept buf lbuf (of_nat p) = None \<and>
    char_dev_write accept ubuf buf lbuf (of_nat p) = None"
proof -
  have t: "bytes_to_do (of_nat p) lbuf = of_nat (unat lbuf)"
    using p l(2) by (rule bytes_to_do_past_end)
  have nz: "(of_nat (unat lbuf) :: u32) \<noteq> 0" using l of_nat_eq_0_small [OF l(2)] by simp
  have s: "sint (of_nat p :: u64) = int p" using p by (simp add: sint_small64)
  show ?thesis
    unfolding char_dev_read_def char_dev_write_def t Let_def s
    using nz past_end_copied [OF l a] p b by simp
qed

lemma char_dev_past_end_witness:
  "char_dev_read 1 (replicate 4000 0) 1 (of_nat 5000) = None \<and>
    char_dev_write 1 [7] (replicate 4000 0) 1 (of_nat 5000) = None"
  using char_dev_past_end [of 5000 "replicate 4000 0" 1 1 "[7]"] by simp

text \<open>
  Claim C7. Sessions. Whatever sequence of reads, writes (of less than 2 GB each) and
  seeks with any offset and origin a process makes, the buffer keeps its 4000 bytes and
  the position stays between 0 and \<open>MAX_LENGTH\<close>; so no read of such a session leaves
  the buffer.
\<close>

theorem char_dev_session_safe:
  assumes r: "dev_reachable b st" and n: "unat n < 2147483648"
  shows "length (char_device_buf st) = 4000 \<and> 0 \<le> sint (f_pos st) \<and> sint (f_pos st) \<le> 4000 \<and>
    char_dev_read accept (char_device_buf st) n (f_pos st) \<noteq> None"
proof -
  obtain p where p: "p \<le> 4000" "f_pos st = of_nat p" and len: "length (char_device_buf st) = 4000"
    using dev_reachable_inv [OF r] by (auto simp: dev_inv_def)
  have "sint (f_pos st) = int p" using p by (simp add: sint_small64)
  with p len read_result [OF p(1) n len, of accept] show ?thesis by (simp split: if_splits)
qed

lemma char_dev_session_safe_witness:
  "char_dev_read 50 (replicate 4000 3) 50 4000 \<noteq> None"
proof -
  have "dev_reachable (replicate 4000 3) \<lparr>char_device_buf = replicate 4000 3, f_pos = 0\<rparr>"
    by (rule opened) simp
  then have "dev_reachable (replicate 4000 3) \<lparr>char_device_buf = replicate 4000 3, f_pos = 4000\<rparr>"
    by (rule called [of _ _ "DevSeek 5000 0"]) (simp_all add: char_dev_lseek_def clamp_pos_def)
  from char_dev_session_safe [OF this, of 50 50] show ?thesis by simp
qed

text \<open>
  Claim C8. Writing. A write at position \<open>p\<close> of \<open>k\<close> accepted bytes replaces those bytes
  of the buffer and reading them back at \<open>p\<close> gives them, as long as \<open>k\<close> is below 4000;
  the one write that fills the device (4000 bytes at 0) is undefined, because the loop
  that looks for an overwritten canary compares with \<open>i <= nbytes\<close> and reads index 4000.
\<close>

theorem char_dev_write_read:
  assumes p: "p < 4000" and d: "0 < length data" "p + length data \<le> 4000" and b: "length buf = 4000"
  shows "if length data < 4000
    then \<exists>logged buf'. char_dev_write 4000 data buf (of_nat (length data)) (of_nat p) =
             Some (int (length data), logged, buf', of_nat (p + length data)) \<and>
           buf' = take p buf @ data @ drop (p + length data) buf \<and>
           char_dev_read 4000 buf' (of_nat (length data)) (of_nat p) =
             Some (int (length data), data, of_nat (p + length data))
    else char_dev_write 4000 data buf (of_nat (length data)) (of_nat p) = None"
proof -
  define n where "n = length data"
  have n: "0 < n" "n \<le> 4000 - p" "n \<le> 4000" using d p by (auto simp: n_def)
  have u: "unat (of_nat n :: u64) = n" using n by (simp add: unat_small64)
  define b' where "b' = splice_at p data buf"
  have b': "b' = take p buf @ data @ drop (p + n) buf" by (simp add: b'_def n_def splice_at_def)
  have len: "length b' = 4000" using b d by (simp add: b' n_def)
  have w: "char_dev_write 4000 data buf (of_nat n) (of_nat p) =
    map_option (\<lambda>logged. (int n, logged, b', of_nat p + of_nat n)) (canary_loop b' (int p) (int n))"
    using write_result [of p "of_nat n" buf 4000 data] p n u b
    by (simp add: b'_def n_def min_absorb2 min_absorb1)
  have r: "char_dev_read 4000 b' (of_nat n) (of_nat p) = Some (int n, data, of_nat p + of_nat n)"
    using read_result [of p "of_nat n" b' 4000] p n u len
    by (simp add: min_absorb2 min_absorb1 segment_def b' n_def b)
  show ?thesis
  proof (cases "n < 4000")
    case True
    then obtain l where "canary_loop b' (int p) (int n) = Some l"
      using canary_loop_inside [of "int p" "int n" b'] len by auto
    with True w r show ?thesis by (simp add: n_def [symmetric] b')
  next
    case False
    with n have "canary_loop b' (int p) (int n) = None"
      using canary_loop_overrun [of "int p" "int n" b'] len p by simp
    with False w show ?thesis by (simp add: n_def [symmetric])
  qed
qed

lemma char_dev_write_read_witness:
  "char_dev_write 4000 (replicate 4000 1) (replicate 4000 0) (of_nat 4000) (of_nat 0) = None"
  using char_dev_write_read [of 0 "replicate 4000 1" "replicate 4000 0"] by simp

end
