(* ===== verification/Uffd.thy ===== *)
theory Uffd
  imports Prelude "HOL-Library.Signed_Division"
begin

text \<open>
  What the programs of RSA_App see of \<open>userfaultfd\<close>: the constants of the kernel's header
  as a record of parameters, the messages read from the descriptor, and one pass through a
  handler loop as the answers of \<open>poll\<close>, \<open>read\<close> and \<open>ioctl\<close> in that pass. A handler is
  run over a list of passes; a list that is used up is a handler waiting in \<open>poll\<close>.
\<close>

section \<open>The descriptor\<close>

record uffd_abi =
  UFFD_API :: u64
  UFFD_API_RANGE_IOCTLS :: u64
  UFFD_EVENT_PAGEFAULT :: u8
  UFFD_PAGEFAULT_FLAG_WP :: u64

definition POLLIN :: u16 where [simp]: "POLLIN = 1"
definition POLLERR :: u16 where [simp]: "POLLERR = 8"
definition POLLHUP :: u16 where [simp]: "POLLHUP = 16"

record uffd_msg =
  msg_event :: u8
  msg_flags :: u64
  msg_address :: u64

text \<open>\<open>ReadError again\<close> is -1, with \<open>errno == EAGAIN\<close> or not.\<close>

datatype read_result = ReadError bool | ReadShort | ReadMsg uffd_msg

record uffd_event =
  ev_poll :: int
  ev_revents :: u16
  ev_read :: read_result
  ev_wp_rc :: int
  ev_copy_rc :: int

text \<open>A \<open>UFFDIO_COPY\<close> request: destination, the object at the source address, length.\<close>

record uffd_copy =
  cp_dst :: u64
  cp_src :: "byte list"
  cp_len :: u64

text \<open>
  How the three handlers start a pass: \<open>switch (pollres)\<close>, the check for \<open>POLLERR\<close> and
  the check for \<open>POLLIN\<close>, which the callers give.
\<close>

datatype poll_verdict = PollSkip | PollExit int | PollRead

definition poll_switch :: "int \<Rightarrow> (u16 \<Rightarrow> bool) \<Rightarrow> uffd_event \<Rightarrow> poll_verdict" where
  "poll_switch odd_code skip e =
     (if ev_poll e = -1 then PollSkip
      else if ev_poll e = 0 then PollSkip
      else if ev_poll e \<noteq> 1 then PollExit odd_code
      else if ev_revents e AND POLLERR \<noteq> 0 then PollExit 1
      else if skip (ev_revents e) then PollSkip
      else PollRead)"

text \<open>\<open>!(revents & POLLIN)\<close> and, without the parentheses, \<open>!revents & POLLIN\<close>.\<close>

definition no_pollin :: "u16 \<Rightarrow> bool" where
  "no_pollin revents \<longleftrightarrow> revents AND POLLIN = 0"

definition not_revents_and_pollin :: "u16 \<Rightarrow> bool" where
  "not_revents_and_pollin revents \<longleftrightarrow> ((if revents = 0 then 1 else 0) :: u16) AND POLLIN \<noteq> 0"

lemma not_revents_and_pollin [simp]: "not_revents_and_pollin r \<longleftrightarrow> r = 0"
  by (simp add: not_revents_and_pollin_def)

lemma poll_switch_read:
  "poll_switch k skip e = PollRead \<longleftrightarrow>
     ev_poll e = 1 \<and> ev_revents e AND POLLERR = 0 \<and> \<not> skip (ev_revents e)"
  by (simp add: poll_switch_def)

section \<open>Page arithmetic\<close>

text \<open>
  The page of an address: \<open>page_begin = addr - (addr % 4096)\<close>, then
  \<open>(page_begin - begin) / 4096\<close>, in \<open>long long\<close>; \<open>None\<close> where the subtraction overflows.
\<close>

definition page_begin :: "int \<Rightarrow> int" where
  "page_begin addr = addr - addr smod 4096"

definition page_of :: "u64 \<Rightarrow> u64 \<Rightarrow> int option" where
  "page_of address begin =
     (let d = page_begin (sint address) - sint begin
      in if - (2 ^ 63) \<le> d \<and> d < 2 ^ 63 then Some (d sdiv 4096) else None)"

text \<open>The comparison \<open>page > n_pages\<close> of a \<open>long long\<close> with a \<open>size_t\<close> is unsigned.\<close>

definition page_too_high :: "int \<Rightarrow> u64 \<Rightarrow> bool" where
  "page_too_high page n_pages \<longleftrightarrow> n_pages < (word_of_int page :: u64)"

lemma page_of_region:
  assumes b: "b + 4096 * i + j < 2 ^ 63" "j < 4096" "4096 dvd b"
  shows "page_of (of_nat (b + 4096 * i + j)) (of_nat b) = Some (int i)"
proof -
  have s: "sint (of_nat k :: u64) = int k" if "k < 2 ^ 63" for k
    using that by (simp add: signed_of_nat signed_take_bit_int_eq_self)
  obtain c where c: "b = 4096 * c" using b(3) by (auto elim: dvdE)
  have "int (b + 4096 * i + j) smod 4096 = int j"
  proof -
    have "int (b + 4096 * i + j) = int j + 4096 * (int c + int i)" by (simp add: c algebra_simps)
    moreover have "(int j + 4096 * (int c + int i)) mod 4096 = int j"
      using b(2) unfolding mod_mult_self2 by simp
    moreover have "x smod 4096 = x mod 4096" if "0 \<le> x" for x :: int
      using that by (cases "x = 0") (simp_all add: smod_int_alt_def)
    ultimately show ?thesis by (metis of_nat_0_le_iff)
  qed
  moreover have "sint (of_nat (b + 4096 * i + j) :: u64) = int (b + 4096 * i + j)"
    using b(1) by (rule s)
  moreover have "sint (of_nat b :: u64) = int b" using b(1) by (intro s) simp
  ultimately have d: "page_begin (sint (of_nat (b + 4096 * i + j) :: u64)) - sint (of_nat b :: u64) = int (4096 * i)"
    by (simp add: page_begin_def)
  have "4096 * i < (2 :: nat) ^ 63" using b(1) by simp
  then have "int (4096 * i) < 2 ^ 63" by simp
  then show ?thesis
    unfolding page_of_def Let_def d by (simp add: signed_divide_int_def sgn_if)
qed

lemma page_too_high_nat: "i < 2 ^ 64 \<Longrightarrow> page_too_high (int i) n \<longleftrightarrow> unat n < i"
  by (simp add: page_too_high_def word_less_nat_alt unat_of_nat take_bit_nat_eq_self)

end
