(* ===== verification/TouchPages.thy ===== *)
theory TouchPages
  imports MemServer Uffd
begin

text \<open>
  RSA_App/touch-pages.c: the program that answers page faults with pages it downloads. A
  faulting page gets the contents that \<open>rsa_download_more_ram\<close> returned. The state of the
  handler loop is the heap of the library, the sockets, and the \<open>UFFDIO_COPY\<close> requests
  the kernel has carried out.
\<close>

section \<open>Waiting for ENTER\<close>

text \<open>
  \<open>DEBUG_PAUSE\<close>: the characters standard input still has; at its end \<open>getchar\<close> returns
  EOF for ever and the loop does not end (\<open>None\<close>).
\<close>

fun debug_pause :: "byte list \<Rightarrow> byte list option" where
  "debug_pause [] = None"
| "debug_pause (c # cs) = (if c \<noteq> 13 \<and> c \<noteq> 10 then debug_pause cs else Some cs)"

section \<open>One page fault\<close>

record touch_event = uffd_event +
  te_net :: net

record touch_state =
  ts_host :: host
  ts_sys :: sysenv
  ts_copies :: "(u64 \<times> byte list) list"
  ts_sent :: "byte list list"

datatype touch_result = TNext touch_state | TError touch_state

text \<open>
  The checks before the download: \<open>Some place\<close> if all of them pass. \<open>pages\<close> is the address
  of the first of the two pages.
\<close>

definition touch_place :: "uffd_abi \<Rightarrow> u64 \<Rightarrow> touch_event \<Rightarrow> u64 option" where
  "touch_place abi pages e =
     (if ev_revents e AND POLLERR \<noteq> 0 then None
      else if ev_revents e AND POLLHUP \<noteq> 0 then None
      else case ev_read e of
        ReadMsg m \<Rightarrow>
          let place = msg_address m in
          if msg_event m \<noteq> UFFD_EVENT_PAGEFAULT abi \<or> (place \<noteq> pages \<and> place \<noteq> pages + 4096)
          then None else Some place
      | _ \<Rightarrow> None)"

text \<open>
  One pass of the loop. \<open>fault\<close> is a local record whose page is the array \<open>data\<close>; the
  downloaded record is followed without a look at the pointer or at the return code.
\<close>

definition touch_iteration ::
  "uffd_abi \<Rightarrow> u64 \<Rightarrow> ptr \<Rightarrow> touch_event \<Rightarrow> touch_state \<Rightarrow> touch_result option" where
  "touch_iteration abi pages data e s =
     (case touch_place abi pages e of
        None \<Rightarrow> Some (TError s)
      | Some place \<Rightarrow>
          (case local_cell (MemCell \<lparr>unVirtAddr = place, pPageData = data\<rparr>) (ts_host s) of (fault, h1) \<Rightarrow> do {
             (rc, out, h2, nt, sy) \<leftarrow> rsa_download_more_ram fault (Some Null) h1 (te_net e) (ts_sys s);
             recvd \<leftarrow> out;
             m \<leftarrow> get_mem h2 recvd;
             let s' = s\<lparr>ts_host := drop_local fault h2, ts_sys := sy, ts_sent := ts_sent s @ [nt_sent nt]\<rparr>;
             if ev_copy_rc e \<noteq> 0 then Some (TError s')
             else do {
               page \<leftarrow> load_bytes h2 (pPageData m) 0 PAGESIZE;
               Some (TNext (s'\<lparr>ts_copies := ts_copies s @ [(place, page)]\<rparr>)) } }))"

text \<open>\<open>while (poll (&evt, 1, 10) > 0)\<close>; with no event left \<open>poll\<close> times out.\<close>

fun touch_loop ::
  "uffd_abi \<Rightarrow> u64 \<Rightarrow> ptr \<Rightarrow> touch_event list \<Rightarrow> touch_state \<Rightarrow> touch_result option" where
  "touch_loop abi pages data [] s = Some (TNext s)"
| "touch_loop abi pages data (e # es) s =
     (if ev_poll e > 0
      then do { r \<leftarrow> touch_iteration abi pages data e s;
                case r of TNext s' \<Rightarrow> touch_loop abi pages data es s' | TError s' \<Rightarrow> Some (TError s') }
      else Some (TNext s))"

section \<open>The program\<close>

text \<open>The answers of the system calls that \<open>main\<close> makes around the loop.\<close>

record touch_env =
  tv_pid :: int
  tv_uffd :: int
  tv_api_rc :: int
  tv_api :: u64
  tv_memalign :: "u64 option"
  tv_reg_rc :: int
  tv_reg_ioctls :: u64
  tv_stdin :: "byte list"
  tv_create_rc :: int
  tv_join_rc :: int

text \<open>
  \<open>main\<close>: its return code with the final state, the descriptors closed in it, or an abort by
  \<open>assert\<close>. The failures of \<open>userfaultfd\<close> and of the \<open>UFFDIO_API\<close> call are only
  reported; a negative descriptor is passed on.
\<close>

datatype touch_end = TReturn int touch_state | TAbort

definition touch_text :: "byte list" where
  "touch_text = ascii_bytes ''pthread touched page, so handler put this there''"

definition touch_data :: "byte list" where
  "touch_data = touch_text @ replicate (PAGESIZE - length touch_text) 0"

definition touch_close :: "int \<Rightarrow> touch_state \<Rightarrow> touch_state" where
  "touch_close fd s = (if fd \<noteq> 0 then s\<lparr>ts_sys := sys_close fd (ts_sys s)\<rparr> else s)"

definition touch_main ::
  "uffd_abi \<Rightarrow> touch_env \<Rightarrow> touch_event list \<Rightarrow> host \<Rightarrow> sysenv \<Rightarrow> touch_end option" where
  "touch_main abi env es h sy =
     (case local_cell (Bytes touch_data) h of (data, h1) \<Rightarrow>
      let s0 = \<lparr>ts_host = h1, ts_sys = sy, ts_copies = [], ts_sent = []\<rparr>;
          fd = tv_uffd env;
          fail = (\<lambda>fd s. Some (TReturn 1 (touch_close fd s)))
      in if tv_pid env < 0 then fail 0 s0
         else if tv_api env \<noteq> UFFD_API abi then fail fd s0
         else (case tv_memalign env of
           None \<Rightarrow> Some TAbort
         | Some pages \<Rightarrow>
             if tv_reg_rc env \<noteq> 0 then fail fd s0
             else if tv_reg_ioctls env \<noteq> UFFD_API_RANGE_IOCTLS abi then fail fd s0
             else do {
               _ \<leftarrow> debug_pause (tv_stdin env);
               if tv_create_rc env \<noteq> 0 then fail fd s0
               else do {
                 r \<leftarrow> touch_loop abi pages data es s0;
                 case r of
                   TError s \<Rightarrow> fail fd s
                 | TNext s \<Rightarrow> if tv_join_rc env \<noteq> 0 then fail fd s
                             else Some (TReturn 0 (touch_close fd s)) } }))"

section \<open>Facts\<close>

lemma length_touch_data: "length touch_data = PAGESIZE"
proof -
  have "length touch_text \<le> PAGESIZE" by (simp add: touch_text_def ascii_bytes_def PAGESIZE_def)
  then show ?thesis by (simp add: touch_data_def)
qed

text \<open>The state that the loop keeps: the heap is consistent and \<open>data\<close> is a whole page.\<close>

definition touch_ok :: "ptr \<Rightarrow> touch_state \<Rightarrow> bool" where
  "touch_ok data s \<longleftrightarrow> host_ok (ts_host s) \<and> hp_plan (ts_host s) = [] \<and>
     (\<exists>bs. get_bytes (ts_host s) data = Some bs \<and> length bs = PAGESIZE)"

lemma touch_unreachable:
  assumes p: "touch_place abi pages e = Some place" and r: "\<not> reachable_server (ts_sys s)"
  shows "touch_iteration abi pages data e s = None"
proof -
  obtain fault h1 where l: "local_cell (MemCell \<lparr>unVirtAddr = place, pPageData = data\<rparr>) (ts_host s) = (fault, h1)"
    and f: "ptr_true fault = Some True"
    by (simp add: local_cell_def)
  obtain sy' where "rsa_download_more_ram fault (Some Null) h1 (te_net e) (ts_sys s) =
      Some (0, Some Null, h1, te_net e, sy')"
    using download_unreachable [OF r f] by blast
  then show ?thesis by (simp add: touch_iteration_def p l)
qed

lemma touch_pass:
  assumes ok: "touch_ok data s" and b: "get_bytes (ts_host s) data = Some db"
    and p: "touch_place abi pages e = Some place"
    and srv: "reachable_server (ts_sys s)" and sends: "SendFails \<notin> set (nt_send (te_net e))"
    and recv: "nt_recv (te_net e) = Some c # rest" and c: "PAGESIZE + 8 \<le> length c"
  defines "n \<equiv> hp_next (ts_host s)"
  shows "\<exists>h'. let s' = s\<lparr>ts_host := h', ts_sys := sys_close (sy_socket (ts_sys s)) (ts_sys s),
        ts_sent := ts_sent s @ [nt_sent (te_net e) @ net_bytes place @ db]\<rparr> in
      touch_iteration abi pages data e s =
        Some (if ev_copy_rc e \<noteq> 0 then TError s'
              else TNext (s'\<lparr>ts_copies := ts_copies s @ [(place, segment 8 PAGESIZE c)]\<rparr>)) \<and>
      live h' = live (ts_host s) \<union> {n + 5, n + 6, n + 7} \<and> n + 7 < hp_next h' \<and>
      touch_ok data s' \<and> get_bytes h' data = Some db"
proof -
  have ok': "host_ok (ts_host s)" "hp_plan (ts_host s) = []" "length db = PAGESIZE"
    using ok b by (auto simp: touch_ok_def)
  obtain q where q: "data = Ptr q" "hp_cells (ts_host s) q = Some (Bytes db)"
    using b by (auto simp: get_bytes_Some)
  have lt: "q < n" using q(2) ok'(1) by (auto simp: host_ok_def n_def intro: ccontr)
  define fc where "fc = MemCell \<lparr>unVirtAddr = place, pPageData = data\<rparr>"
  define h1 where "h1 = (ts_host s)\<lparr>hp_next := Suc n, hp_cells := (hp_cells (ts_host s))(n \<mapsto> fc)\<rparr>"
  have l: "local_cell fc (ts_host s) = (Ptr n, h1)" by (simp add: local_cell_def h1_def n_def)
  have h1: "host_ok h1" "hp_plan h1 = []" "hp_next h1 = n + 1"
    using ok' by (simp_all add: h1_def host_ok_def n_def)
  have m: "mem_at h1 (Ptr n) place data db"
    using q lt ok'(3) by (simp add: mem_at_def h1_def fc_def)
  obtain h2 nt sy where d: "rsa_download_more_ram (Ptr n) (Some Null) h1 (te_net e) (ts_sys s) =
      Some (0, Some (Ptr (n + 1 + 4)), h2, nt, sy)"
    and x: "exchanged h1 (te_net e) (ts_sys s) place db c h2 nt sy"
    using download_exchanges [OF h1(1,2) m srv sends recv, of Null] h1(3) by auto
  obtain bs where bs: "length bs = PAGESIZE + 8" "take (length c) bs = take (PAGESIZE + 8) c"
    and sent: "nt_sent nt = nt_sent (te_net e) @ net_bytes place @ db"
    and m2: "mem_at h2 (Ptr (n + 5)) (read_addr 0 bs) (Ptr (n + 7)) (segment 8 PAGESIZE bs)"
    and live: "live h2 = live h1 \<union> {n + 5, n + 6, n + 7}"
    and same: "\<forall>a. a \<notin> {n + 5, n + 6, n + 7} \<longrightarrow> hp_cells h2 a = hp_cells h1 a"
    and nx: "hp_next h2 = n + 8" "hp_plan h2 = []" and sy: "sy = sys_close (sy_socket (ts_sys s)) (ts_sys s)"
    using x h1(3) by (auto simp: exchanged_def add.commute)
  have "bs = take (PAGESIZE + 8) c" using bs c by simp
  then have seg: "segment 8 PAGESIZE bs = segment 8 PAGESIZE c"
    by (simp add: segment_def drop_take)
  define h' where "h' = drop_local (Ptr n) h2"
  have cells: "hp_cells h' = (hp_cells h2)(n := None)" "hp_next h' = n + 8" "hp_plan h' = []"
    using nx by (simp_all add: h'_def)
  have "hp_cells (ts_host s) n = None" using ok'(1) by (simp add: host_ok_def n_def)
  then have "live h' = live (ts_host s) \<union> {n + 5, n + 6, n + 7}"
    using live by (auto simp: live_def cells h1_def split: if_splits)
  moreover have "get_bytes h' data = Some db"
    using q lt same by (simp add: cells h1_def)
  moreover have "host_ok h'"
    using ok'(1) same by (simp add: host_ok_def cells h1_def n_def)
  moreover have "touch_iteration abi pages data e s =
      Some (if ev_copy_rc e \<noteq> 0
            then TError (s\<lparr>ts_host := h', ts_sys := sy, ts_sent := ts_sent s @ [nt_sent nt]\<rparr>)
            else TNext (s\<lparr>ts_host := h', ts_sys := sy, ts_sent := ts_sent s @ [nt_sent nt],
                          ts_copies := ts_copies s @ [(place, segment 8 PAGESIZE c)]\<rparr>))"
  proof -
    have g: "get_mem h2 (Ptr (5 + n)) = Some \<lparr>unVirtAddr = read_addr 0 bs, pPageData = Ptr (n + 7)\<rparr>"
      using m2 by (simp add: mem_at_def add.commute del: get_mem.simps)
    have "load_bytes h2 (Ptr (n + 7)) 0 PAGESIZE = Some (segment 8 PAGESIZE bs)"
      using m2 by (auto simp: mem_at_def load_bytes_def segment_def simp del: get_mem.simps get_bytes.simps)
    with seg have "load_bytes h2 (Ptr (n + 7)) 0 PAGESIZE = Some (segment 8 PAGESIZE c)" by simp
    then show ?thesis
      unfolding touch_iteration_def p option.case l [unfolded fc_def] prod.case d bind.bind_lunit option.sel
        h'_def [symmetric] by (simp add: g h'_def del: get_mem.simps drop_local.simps)
  qed
  ultimately show ?thesis
    using cells(2,3) ok'(3) by (intro exI [of _ h']) (simp add: Let_def sy sent touch_ok_def)
qed

text \<open>
  A whole run of the loop. \<open>answered\<close> lists faults that pass the checks, each with the
  reply of the server, complete in one chunk.
\<close>

definition answers :: "uffd_abi \<Rightarrow> u64 \<Rightarrow> touch_event \<Rightarrow> u64 \<times> byte list \<Rightarrow> bool" where
  "answers abi pages e r \<longleftrightarrow> 0 < ev_poll e \<and> ev_copy_rc e = 0 \<and>
     touch_place abi pages e = Some (fst r) \<and> SendFails \<notin> set (nt_send (te_net e)) \<and>
     (\<exists>c rest. nt_recv (te_net e) = Some c # rest \<and> PAGESIZE + 8 \<le> length c \<and>
        snd r = segment 8 PAGESIZE c) \<and> nt_sent (te_net e) = []"

lemma touch_loop_serves:
  assumes "list_all2 (answers abi pages) es rs" and "touch_ok data s"
    and "get_bytes (ts_host s) data = Some db" and "reachable_server (ts_sys s)"
    and "finite (live (ts_host s))"
  shows "\<exists>s'. touch_loop abi pages data es s = Some (TNext s') \<and>
    ts_copies s' = ts_copies s @ rs \<and>
    ts_sent s' = ts_sent s @ map (\<lambda>r. net_bytes (fst r) @ db) rs \<and>
    touch_ok data s' \<and> finite (live (ts_host s')) \<and>
    card (live (ts_host s')) = card (live (ts_host s)) + 3 * length rs"
  using assms
proof (induction es rs arbitrary: s rule: list_all2_induct)
  case Nil
  then show ?case by simp
next
  case (Cons e es r rs)
  let ?n = "hp_next (ts_host s)"
  obtain c rest where a: "0 < ev_poll e" "ev_copy_rc e = 0" "touch_place abi pages e = Some (fst r)"
    "SendFails \<notin> set (nt_send (te_net e))" "nt_recv (te_net e) = Some c # rest" "PAGESIZE + 8 \<le> length c"
    "snd r = segment 8 PAGESIZE c" "nt_sent (te_net e) = []"
    using Cons(1) by (auto simp: answers_def)
  have r: "(fst r, segment 8 PAGESIZE c) = r" using a(7) by (metis prod.collapse)
  obtain h' where h': "touch_iteration abi pages data e s = Some (TNext (s\<lparr>ts_host := h',
        ts_sys := sys_close (sy_socket (ts_sys s)) (ts_sys s),
        ts_sent := ts_sent s @ [net_bytes (fst r) @ db], ts_copies := ts_copies s @ [r]\<rparr>))"
    and L: "live h' = live (ts_host s) \<union> {?n + 5, ?n + 6, ?n + 7}" "get_bytes h' data = Some db"
      "touch_ok data (s\<lparr>ts_host := h', ts_sys := sys_close (sy_socket (ts_sys s)) (ts_sys s),
        ts_sent := ts_sent s @ [net_bytes (fst r) @ db]\<rparr>)"
    using touch_pass [OF Cons(4,5) a(3) Cons(6) a(4,5,6)]
    unfolding Let_def r a(2) a(8) append_Nil simp_thms if_False by blast
  define s1 where "s1 = s\<lparr>ts_host := h', ts_sys := sys_close (sy_socket (ts_sys s)) (ts_sys s),
        ts_sent := ts_sent s @ [net_bytes (fst r) @ db], ts_copies := ts_copies s @ [r]\<rparr>"
  have s1: "touch_ok data s1" "get_bytes (ts_host s1) data = Some db" "reachable_server (ts_sys s1)"
    "finite (live (ts_host s1))"
    using L Cons(6,7) by (simp_all add: s1_def touch_ok_def reachable_server_def sys_close_def)
  have new: "{?n + 5, ?n + 6, ?n + 7} \<inter> live (ts_host s) = {}"
    using Cons(4) by (auto simp: touch_ok_def host_ok_def live_def)
  have more: "card (live h') = card (live (ts_host s)) + 3"
    unfolding L(1) using Cons(7) new by (subst card_Un_disjoint) (auto simp: Int_commute)
  show ?case
  proof -
    obtain s' where s': "touch_loop abi pages data es s1 = Some (TNext s')"
      "ts_copies s' = ts_copies s1 @ rs" "ts_sent s' = ts_sent s1 @ map (\<lambda>r. net_bytes (fst r) @ db) rs"
      "touch_ok data s'" "finite (live (ts_host s'))"
      "card (live (ts_host s')) = card (live (ts_host s1)) + 3 * length rs"
      using Cons(3) [OF s1] by blast
    have "touch_loop abi pages data (e # es) s = Some (TNext s')"
      using a(1) h' s'(1) by (simp add: s1_def [symmetric])
    then show ?thesis
      using s' more by (simp add: s1_def)
  qed
qed

section \<open>Properties\<close>

text \<open>The set-up of \<open>main\<close> succeeds and the two pages are at \<open>pages\<close>.\<close>

definition touch_ready :: "uffd_abi \<Rightarrow> touch_env \<Rightarrow> u64 \<Rightarrow> bool" where
  "touch_ready abi env pages \<longleftrightarrow> 0 \<le> tv_pid env \<and> tv_api env = UFFD_API abi \<and>
     tv_memalign env = Some pages \<and> tv_reg_rc env = 0 \<and>
     tv_reg_ioctls env = UFFD_API_RANGE_IOCTLS abi \<and> (10 \<in> set (tv_stdin env) \<or> 13 \<in> set (tv_stdin env)) \<and>
     tv_create_rc env = 0 \<and> tv_join_rc env = 0"

lemma debug_pause_ends: "debug_pause cs \<noteq> None \<longleftrightarrow> 10 \<in> set cs \<or> 13 \<in> set cs"
  by (induction cs) auto

definition touch_start :: "host \<Rightarrow> sysenv \<Rightarrow> touch_state" where
  "touch_start h sy = \<lparr>ts_host = snd (local_cell (Bytes touch_data) h), ts_sys = sy, ts_copies = [], ts_sent = []\<rparr>"

lemma touch_main_loop:
  assumes "touch_ready abi env pages"
  shows "touch_main abi env es h sy =
    (case touch_loop abi pages (Ptr (hp_next h)) es (touch_start h sy) of
       None \<Rightarrow> None
     | Some (TNext s) \<Rightarrow> Some (TReturn 0 (touch_close (tv_uffd env) s))
     | Some (TError s) \<Rightarrow> Some (TReturn 1 (touch_close (tv_uffd env) s)))"
proof -
  obtain rest where "debug_pause (tv_stdin env) = Some rest"
    using assms debug_pause_ends [of "tv_stdin env"] by (auto simp: touch_ready_def)
  with assms show ?thesis
    by (auto simp: touch_main_def touch_ready_def touch_start_def local_cell_def Let_def
        split: option.splits touch_result.splits)
qed

lemma touch_start_ok:
  assumes "host_ok h" and "hp_plan h = []"
  shows "touch_ok (Ptr (hp_next h)) (touch_start h sy)"
    and "get_bytes (ts_host (touch_start h sy)) (Ptr (hp_next h)) = Some touch_data"
    and "ts_sys (touch_start h sy) = sy" "ts_copies (touch_start h sy) = []" "ts_sent (touch_start h sy) = []"
    and "live (ts_host (touch_start h sy)) = insert (hp_next h) (live h)"
  using assms
  by (auto simp: touch_ok_def touch_start_def local_cell_def host_ok_def length_touch_data live_def)

text \<open>
  Claim C11. The program serves every fault: with the set-up done, the server reachable and
  memory available, a run over faults on the two pages whose replies arrive whole puts into
  each faulting page the page of the server's reply, in the order of the faults, after
  sending the server the faulting address and the text array; the program returns 0. Three
  cells per fault stay allocated: the downloaded record, which the loop forgets, its page,
  and the page that the library forgets.
\<close>

theorem touch_serves_faults:
  assumes "touch_ready abi env pages" and "list_all2 (answers abi pages) es rs"
    and "host_ok h" and "hp_plan h = []" and "reachable_server sy" and "finite (live h)"
  shows "\<exists>s. touch_main abi env es h sy = Some (TReturn 0 s) \<and> ts_copies s = rs \<and>
    ts_sent s = map (\<lambda>r. net_bytes (fst r) @ touch_data) rs \<and>
    card (live (ts_host s)) = card (live h) + 1 + 3 * length rs"
proof -
  note st = touch_start_ok [OF assms(3,4), of sy]
  have "hp_next h \<notin> live h" using assms(3) by (simp add: live_def host_ok_def domIff)
  then have c: "card (live (ts_host (touch_start h sy))) = card (live h) + 1"
    using assms(6) by (simp add: st(6))
  obtain s where "touch_loop abi pages (Ptr (hp_next h)) es (touch_start h sy) = Some (TNext s)"
    "ts_copies s = rs" "ts_sent s = map (\<lambda>r. net_bytes (fst r) @ touch_data) rs"
    "card (live (ts_host s)) = card (live h) + 1 + 3 * length rs"
    using touch_loop_serves [OF assms(2) st(1,2)] assms(5,6) st(3-6) c by auto
  then show ?thesis
    by (intro exI [of _ "touch_close (tv_uffd env) s"])
      (simp add: touch_main_loop [OF assms(1)] touch_close_def)
qed

definition sample_abi :: uffd_abi where
  "sample_abi = \<lparr>UFFD_API = 0xAA, UFFD_API_RANGE_IOCTLS = 0x1C, UFFD_EVENT_PAGEFAULT = 0x12,
     UFFD_PAGEFAULT_FLAG_WP = 2\<rparr>"

definition sample_touch_env :: touch_env where
  "sample_touch_env = \<lparr>tv_pid = 1, tv_uffd = 3, tv_api_rc = 0, tv_api = 0xAA, tv_memalign = Some 0x10000,
     tv_reg_rc = 0, tv_reg_ioctls = 0x1C, tv_stdin = [10], tv_create_rc = 0, tv_join_rc = 0\<rparr>"

definition sample_fault :: touch_event where
  "sample_fault = \<lparr>ev_poll = 1, ev_revents = 1,
     ev_read = ReadMsg \<lparr>msg_event = 0x12, msg_flags = 0, msg_address = 0x11000\<rparr>,
     ev_wp_rc = 0, ev_copy_rc = 0,
     te_net = \<lparr>nt_send = [SendUpTo 100], nt_recv = [Some (net_bytes 5 @ replicate PAGESIZE 9)], nt_sent = []\<rparr>\<rparr>"

lemma sample_fault_answers:
  "answers sample_abi 0x10000 sample_fault (0x11000, replicate PAGESIZE 9)"
  by (simp add: answers_def sample_fault_def touch_place_def sample_abi_def segment_def)

lemma sample_ready: "touch_ready sample_abi sample_touch_env 0x10000"
  by (simp add: touch_ready_def sample_touch_env_def sample_abi_def)

lemma touch_serves_faults_witness:
  "\<exists>s. touch_main sample_abi sample_touch_env [sample_fault] (page_host False) sample_env = Some (TReturn 0 s) \<and>
    ts_copies s = [(0x11000, replicate PAGESIZE 9)]"
  using touch_serves_faults [OF sample_ready, of "[sample_fault]" "[(0x11000, replicate PAGESIZE 9)]"
      "page_host False" sample_env] sample_fault_answers page_host_facts(1,2) [of False]
  by (auto simp: sample_env_def reachable_server_def live_def page_host_def)

text \<open>
  An unreachable server takes the program down: the first fault on one of its
  pages ends in a dereference of the NULL pointer that the download left behind, because
  neither the return code (always 0) nor the pointer is looked at.
\<close>

theorem touch_unreachable_undefined:
  assumes "touch_ready abi env pages" and "0 < ev_poll e" and "touch_place abi pages e = Some place"
    and "\<not> reachable_server sy"
  shows "touch_main abi env (e # es) h sy = None"
  using assms(2) touch_unreachable [OF assms(3), of "touch_start h sy"] assms(4)
  by (simp add: touch_main_loop [OF assms(1)] touch_start_def)

lemma touch_unreachable_undefined_witness:
  "touch_main sample_abi sample_touch_env [sample_fault] (page_host False) (sample_env\<lparr>sy_connect := -1\<rparr>) = None"
  by (rule touch_unreachable_undefined [OF sample_ready, of _ "0x11000"])
    (simp_all add: sample_fault_def touch_place_def sample_abi_def reachable_server_def sample_env_def)

end
