(* ===== verification/UffdHandlers.thy ===== *)
theory UffdHandlers
  imports Uffd "HOL-Library.Monad_Syntax"
begin

text \<open>
  The userfaultfd programs of RSA_App beside touch-pages.c: the handler threads of ufd.c,
  touch-uffd-wp.c and userfaultfd-noahdesu.c, the loop of userfaultfd-lizzie.c and the
  set-up that their \<open>main\<close> functions do before the handler runs. \<open>None\<close> is undefined
  behaviour, \<open>HExit\<close> a call of \<open>exit\<close>, \<open>HStuck\<close> a handler that waits for itself.
\<close>

section \<open>The handler of ufd.c\<close>

record page_attr =
  has_been_brought_in_p :: u32
  has_been_written_when_wp_p :: u32

record uffd_params =
  up_begin :: u64
  up_size :: u64
  up_n_pages :: u64

record handler_state =
  hs_pages :: "page_attr list"
  hs_copies :: "uffd_copy list"
  hs_unlocks :: "(u64 \<times> u64) list"

datatype handler_result = HNext handler_state | HExit int | HStuck handler_state

text \<open>What \<open>popen\<close>, \<open>fread\<close> of one page and \<open>fclose\<close> do in a pass.\<close>

record ufd_event = uffd_event +
  uf_popen :: bool
  uf_page :: "byte list option"
  uf_fclose :: int

text \<open>\<open>params->pages[whichpage].has_been_written_when_wp_p = 1\<close> after the unlock request.\<close>

definition write_unlock :: "uffd_params \<Rightarrow> int \<Rightarrow> handler_state \<Rightarrow> handler_state option" where
  "write_unlock p page s =
     (if 0 \<le> page \<and> nat page < length (hs_pages s)
      then Some (s\<lparr>hs_pages := (hs_pages s)[nat page :=
                    (hs_pages s ! nat page)\<lparr>has_been_written_when_wp_p := 1\<rparr>],
                  hs_unlocks := hs_unlocks s @ [(up_begin p, up_size p)]\<rparr>)
      else None)"

definition ufd_fault ::
  "uffd_abi \<Rightarrow> uffd_params \<Rightarrow> ufd_event \<Rightarrow> uffd_msg \<Rightarrow> handler_state \<Rightarrow> handler_result option" where
  "ufd_fault abi p e m s = do {
     whichpage \<leftarrow> page_of (msg_address m) (up_begin p);
     if page_too_high whichpage (up_n_pages p) then Some (HExit 1)
     else if msg_flags m AND UFFD_PAGEFAULT_FLAG_WP abi \<noteq> 0
     then map_option HNext (write_unlock p whichpage s)
     else if \<not> uf_popen e then Some (HExit 1)
     else case uf_page e of
       None \<Rightarrow> Some (HExit 1)
     | Some buf \<Rightarrow>
         if uf_fclose e \<noteq> 0 then Some (HExit 1)
         else Some (HNext (s\<lparr>hs_copies := hs_copies s @
                [\<lparr>cp_dst = msg_address m, cp_src = buf, cp_len = 4096\<rparr>]\<rparr>)) }"

text \<open>A failed read that is not \<open>EAGAIN\<close> is reported and then caught by the length check.\<close>

definition ufd_iteration ::
  "uffd_abi \<Rightarrow> uffd_params \<Rightarrow> ufd_event \<Rightarrow> handler_state \<Rightarrow> handler_result option" where
  "ufd_iteration abi p e s =
     (case poll_switch 2 no_pollin (uffd_event.truncate e) of
        PollSkip \<Rightarrow> Some (HNext s)
      | PollExit c \<Rightarrow> Some (HExit c)
      | PollRead \<Rightarrow>
          (case ev_read e of
             ReadError again \<Rightarrow> Some (if again then HNext s else HExit 1)
           | ReadShort \<Rightarrow> Some (HExit 1)
           | ReadMsg m \<Rightarrow> ufd_fault abi p e m s))"

text \<open>\<open>for (;;)\<close> over the passes of a run.\<close>

fun handler_loop ::
  "('e \<Rightarrow> handler_state \<Rightarrow> handler_result option) \<Rightarrow> 'e list \<Rightarrow> handler_state \<Rightarrow> handler_result option" where
  "handler_loop f [] s = Some (HNext s)"
| "handler_loop f (e # es) s = do {
     r \<leftarrow> f e s;
     case r of HNext s' \<Rightarrow> handler_loop f es s' | _ \<Rightarrow> Some r }"

definition ufd_handler ::
  "uffd_abi \<Rightarrow> uffd_params \<Rightarrow> ufd_event list \<Rightarrow> handler_state \<Rightarrow> handler_result option" where
  "ufd_handler abi p = handler_loop (ufd_iteration abi p)"

section \<open>The handler of touch-uffd-wp.c\<close>

text \<open>
  It prints the contents of the faulting page with \<open>%s\<close>: where the page is missing
  (\<open>wv_present\<close> is false) that read faults in the handler thread itself.
\<close>

record wp_event = uffd_event +
  wv_present :: bool

definition wp_fault ::
  "uffd_abi \<Rightarrow> byte list \<Rightarrow> uffd_params \<Rightarrow> wp_event \<Rightarrow> uffd_msg \<Rightarrow> handler_state \<Rightarrow> handler_result option" where
  "wp_fault abi magic_buf1 p e m s = do {
     page \<leftarrow> page_of (msg_address m) (up_begin p);
     if page_too_high page (up_n_pages p) then Some (HExit 1)
     else if \<not> wv_present e then Some (HStuck s)
     else if msg_flags m AND UFFD_PAGEFAULT_FLAG_WP abi \<noteq> 0
     then map_option HNext (write_unlock p page s)
     else Some (HNext (s\<lparr>hs_copies := hs_copies s @
            [\<lparr>cp_dst = msg_address m, cp_src = magic_buf1, cp_len = up_size p\<rparr>]\<rparr>)) }"

definition wp_iteration ::
  "uffd_abi \<Rightarrow> byte list \<Rightarrow> uffd_params \<Rightarrow> wp_event \<Rightarrow> handler_state \<Rightarrow> handler_result option" where
  "wp_iteration abi magic_buf1 p e s =
     (case poll_switch 2 no_pollin (uffd_event.truncate e) of
        PollSkip \<Rightarrow> Some (HNext s)
      | PollExit c \<Rightarrow> Some (HExit c)
      | PollRead \<Rightarrow>
          (case ev_read e of
             ReadError again \<Rightarrow> Some (if again then HNext s else HExit 1)
           | ReadShort \<Rightarrow> Some (HExit 1)
           | ReadMsg m \<Rightarrow> wp_fault abi magic_buf1 p e m s))"

definition wp_handler ::
  "uffd_abi \<Rightarrow> byte list \<Rightarrow> uffd_params \<Rightarrow> wp_event list \<Rightarrow> handler_state \<Rightarrow> handler_result option" where
  "wp_handler abi magic_buf1 p = handler_loop (wp_iteration abi magic_buf1 p)"

section \<open>The handler of userfaultfd-noahdesu.c\<close>

record noah_event = uffd_event +
  nv_stop :: bool

datatype noah_result = NNext "uffd_copy list" | NReturn "uffd_copy list" | NExit int

definition noah_message ::
  "uffd_abi \<Rightarrow> u64 \<Rightarrow> byte list \<Rightarrow> noah_event \<Rightarrow> uffd_msg \<Rightarrow> uffd_copy list \<Rightarrow> noah_result" where
  "noah_message abi page_size buf e m cs =
     (if msg_event m AND UFFD_EVENT_PAGEFAULT abi \<noteq> 0
      then if ev_copy_rc e = -1 then NExit 1
           else NNext (cs @ [\<lparr>cp_dst = msg_address m, cp_src = buf, cp_len = page_size\<rparr>])
      else NNext cs)"

definition noah_iteration ::
  "uffd_abi \<Rightarrow> u64 \<Rightarrow> byte list \<Rightarrow> noah_event \<Rightarrow> uffd_copy list \<Rightarrow> noah_result" where
  "noah_iteration abi page_size buf e cs =
     (if nv_stop e then NReturn cs
      else case poll_switch 1 not_revents_and_pollin (uffd_event.truncate e) of
        PollSkip \<Rightarrow> NNext cs
      | PollExit c \<Rightarrow> NExit c
      | PollRead \<Rightarrow>
          (case ev_read e of
             ReadError again \<Rightarrow> if again then NNext cs else NExit 1
           | ReadShort \<Rightarrow> NExit 1
           | ReadMsg m \<Rightarrow> noah_message abi page_size buf e m cs))"

fun noah_handler ::
  "uffd_abi \<Rightarrow> u64 \<Rightarrow> byte list \<Rightarrow> noah_event list \<Rightarrow> uffd_copy list \<Rightarrow> noah_result" where
  "noah_handler abi page_size buf [] cs = NNext cs"
| "noah_handler abi page_size buf (e # es) cs =
     (case noah_iteration abi page_size buf e cs of
        NNext cs' \<Rightarrow> noah_handler abi page_size buf es cs'
      | r \<Rightarrow> r)"

section \<open>The loop of userfaultfd-lizzie.c\<close>

text \<open>Every fault is answered with the array \<open>data\<close>; \<open>Inl\<close> is \<open>goto cleanup_error\<close>.\<close>

definition lizzie_iteration ::
  "uffd_abi \<Rightarrow> u64 \<Rightarrow> byte list \<Rightarrow> uffd_event \<Rightarrow> uffd_copy list \<Rightarrow> uffd_copy list + uffd_copy list" where
  "lizzie_iteration abi pages data e cs =
     (if ev_revents e AND POLLERR \<noteq> 0 then Inl cs
      else if ev_revents e AND POLLHUP \<noteq> 0 then Inl cs
      else case ev_read e of
        ReadMsg m \<Rightarrow>
          let place = msg_address m in
          if msg_event m \<noteq> UFFD_EVENT_PAGEFAULT abi \<or> (place \<noteq> pages \<and> place \<noteq> pages + 4096)
          then Inl cs
          else if ev_copy_rc e \<noteq> 0 then Inl cs
          else Inr (cs @ [\<lparr>cp_dst = place, cp_src = data, cp_len = 4096\<rparr>])
      | _ \<Rightarrow> Inl cs)"

fun lizzie_loop ::
  "uffd_abi \<Rightarrow> u64 \<Rightarrow> byte list \<Rightarrow> uffd_event list \<Rightarrow> uffd_copy list \<Rightarrow> uffd_copy list + uffd_copy list" where
  "lizzie_loop abi pages data [] cs = Inr cs"
| "lizzie_loop abi pages data (e # es) cs =
     (if 0 < ev_poll e
      then case lizzie_iteration abi pages data e cs of
             Inr cs' \<Rightarrow> lizzie_loop abi pages data es cs'
           | Inl cs' \<Rightarrow> Inl cs'
      else Inr cs)"

section \<open>Set-up\<close>

text \<open>
  The answers to the system calls of the \<open>main\<close> functions: the new descriptor, the
  \<open>UFFDIO_API\<close> call and the version it leaves behind, \<open>mmap\<close> (-1 is \<open>MAP_FAILED\<close>),
  \<open>posix_memalign\<close>, the registration with the ioctls it grants, \<open>malloc\<close>,
  \<open>pthread_create\<close>.
\<close>

record setup_env =
  se_uffd :: int
  se_api_rc :: int
  se_api :: u64
  se_region :: u64
  se_memalign :: int
  se_reg_rc :: int
  se_ioctls :: u64
  se_malloc :: bool
  se_create :: int

datatype setup_result = SetupExit int | SetupRun uffd_params "page_attr list"

definition zero_attr :: page_attr where
  "zero_attr = \<lparr>has_been_brought_in_p = 0, has_been_written_when_wp_p = 0\<rparr>"

text \<open>\<open>int expected = UFFD_API_RANGE_IOCTLS\<close>, compared after conversion back to 64 bits.\<close>

definition ioctls_missing :: "uffd_abi \<Rightarrow> u64 \<Rightarrow> bool" where
  "ioctls_missing abi granted =
     (let expected = (scast (ucast (UFFD_API_RANGE_IOCTLS abi) :: u32) :: u64)
      in granted AND expected \<noteq> expected)"

text \<open>
  \<open>write_testfiles\<close>: for each of the four commands whether \<open>popen\<close> succeeds, how many of
  the 512 words \<open>fwrite\<close> accepts, and \<open>fclose\<close>. \<open>Some True\<close> is \<open>exit (1)\<close>; writing to
  the NULL stream of a failed \<open>popen\<close> is undefined.
\<close>

fun write_testfiles :: "(bool \<times> nat \<times> int) list \<Rightarrow> bool option" where
  "write_testfiles [] = Some False"
| "write_testfiles ((opened, accepted, closed) # fs) =
     (if \<not> opened then None
      else if accepted < 4096 div 8 then Some True
      else if closed \<noteq> 0 then Some True
      else write_testfiles fs)"

text \<open>
  \<open>main\<close> of ufd.c up to \<open>pthread_create\<close>, whose result it ignores. The test of \<open>mmap\<close> is
  for NULL, so \<open>MAP_FAILED\<close> is passed to \<open>posix_memalign\<close> as the place to store a pointer.
\<close>

definition ufd_main :: "uffd_abi \<Rightarrow> (bool \<times> nat \<times> int) list \<Rightarrow> setup_env \<Rightarrow> setup_result option" where
  "ufd_main abi files env = do {
     failed \<leftarrow> write_testfiles files;
     if failed then Some (SetupExit 1)
     else if se_uffd env = -1 then Some (SetupExit 2)
     else if se_api_rc env \<noteq> 0 then Some (SetupExit 1)
     else if se_api env \<noteq> UFFD_API abi then Some (SetupExit 1)
     else if se_region env = 0 then Some (SetupExit 2)
     else if se_memalign env \<noteq> 0 then Some (SetupExit 1)
     else if se_region env = -1 then None
     else if se_reg_rc env = -1 then Some (SetupExit 1)
     else if ioctls_missing abi (se_ioctls env) then Some (SetupExit 1)
     else if \<not> se_malloc env then Some (SetupExit 1)
     else Some (SetupRun \<lparr>up_begin = se_region env, up_size = 4096 * 128, up_n_pages = 128\<rparr>
                  (replicate 128 zero_attr)) }"

text \<open>
  \<open>main\<close> of touch-uffd-wp.c up to \<open>pthread_create\<close>: \<open>mmap\<close> is not checked at all. Its
  magic buffer is filled with 512 copies of a 64-bit number.
\<close>

definition magic_buf :: "u64 \<Rightarrow> byte list" where
  "magic_buf magic_num = concat (replicate (4096 div 8) (le_bytes 8 magic_num))"

definition wp_main :: "uffd_abi \<Rightarrow> int \<Rightarrow> setup_env \<Rightarrow> setup_result option" where
  "wp_main abi pid env =
     (if pid < 0 then Some (SetupExit 1)
      else if se_uffd env = -1 then Some (SetupExit 1)
      else if se_api_rc env \<noteq> 0 then Some (SetupExit 1)
      else if se_api env \<noteq> UFFD_API abi then Some (SetupExit 1)
      else if se_memalign env \<noteq> 0 then Some (SetupExit 2)
      else if se_region env = 0 \<or> se_region env = -1 then None
      else if se_reg_rc env \<noteq> 0 then Some (SetupExit 1)
      else if ioctls_missing abi (se_ioctls env) then Some (SetupExit 1)
      else if \<not> se_malloc env then Some (SetupExit 1)
      else if se_create env \<noteq> 0 then Some (SetupExit 1)
      else Some (SetupRun \<lparr>up_begin = se_region env, up_size = 4096 * 2, up_n_pages = 2\<rparr>
                   (replicate 2 zero_attr)))"

text \<open>
  \<open>main\<close> of userfaultfd-lizzie.c: the return code, the requests, and the descriptors it
  closes. Here \<open>mmap\<close> is compared with \<open>MAP_FAILED\<close>.
\<close>

definition lizzie_close :: "int \<Rightarrow> int list" where
  "lizzie_close fd = (if fd \<noteq> 0 then [fd] else [])"

definition lizzie_main ::
  "uffd_abi \<Rightarrow> byte list \<Rightarrow> setup_env \<Rightarrow> uffd_event list \<Rightarrow> int \<times> uffd_copy list \<times> int list" where
  "lizzie_main abi data env es =
     (let fd = se_uffd env; fail = (\<lambda>cs. (1, cs, lizzie_close fd))
      in if fd = -1 then fail []
         else if se_api_rc env \<noteq> 0 then fail []
         else if se_api env \<noteq> UFFD_API abi then fail []
         else if se_region env = -1 then fail []
         else if se_reg_rc env \<noteq> 0 then fail []
         else if se_ioctls env \<noteq> UFFD_API_RANGE_IOCTLS abi then fail []
         else if se_create env \<noteq> 0 then fail []
         else case lizzie_loop abi (se_region env) data es [] of
           Inl cs \<Rightarrow> fail cs
         | Inr cs \<Rightarrow> (0, cs, lizzie_close fd))"

text \<open>
  \<open>main\<close> of userfaultfd-noahdesu.c up to \<open>pthread_create\<close>: the range it registers and
  hands to the handler, or its exit code; \<open>None\<close> is the failed \<open>assert\<close> on the page size.
\<close>

definition noah_main :: "uffd_abi \<Rightarrow> int \<Rightarrow> setup_env \<Rightarrow> (int + (u64 \<times> u64)) option" where
  "noah_main abi page_size env =
     (if page_size = -1 then Some (Inl 1)
      else if page_size \<le> 0 then None
      else if se_uffd env = -1 then Some (Inl 1)
      else if se_api_rc env = -1 then Some (Inl 1)
      else if se_api env \<noteq> UFFD_API abi then Some (Inl 1)
      else if se_region env = -1 then Some (Inl 1)
      else if se_reg_rc env = -1 then Some (Inl 1)
      else if se_ioctls env AND UFFD_API_RANGE_IOCTLS abi \<noteq> UFFD_API_RANGE_IOCTLS abi then Some (Inl 1)
      else Some (Inr (se_region env, word_of_int (page_size * 100000))))"

section \<open>Facts\<close>

lemma handler_loop_append:
  "handler_loop f (es @ fs) s =
     (case handler_loop f es s of
        Some (HNext s') \<Rightarrow> handler_loop f fs s'
      | r \<Rightarrow> r)"
proof (induction es arbitrary: s)
  case (Cons e es)
  show ?case
  proof (cases "f e s")
    case (Some r)
    with Cons show ?thesis by (cases r) simp_all
  qed simp
qed simp

lemma length_magic_buf: "length (magic_buf w) = 4096"
proof -
  have "length (concat (replicate n (le_bytes 8 w))) = n * 8" for n by (induction n) simp_all
  then show ?thesis by (simp add: magic_buf_def)
qed

text \<open>A fault inside a region of \<open>n\<close> pages that starts at the page boundary \<open>b\<close>.\<close>

definition fault_at :: "nat \<Rightarrow> nat \<Rightarrow> uffd_event \<Rightarrow> nat \<Rightarrow> uffd_msg \<Rightarrow> bool" where
  "fault_at b n e i m \<longleftrightarrow> ev_poll e = 1 \<and> ev_revents e = POLLIN \<and> ev_read e = ReadMsg m \<and>
     (\<exists>j < 4096. msg_address m = of_nat (b + 4096 * i + j)) \<and> i < n \<and> 4096 dvd b \<and> b + 4096 * (n + 1) < 2 ^ 63"

lemma fault_page:
  assumes "fault_at b n e i m"
  shows "page_of (msg_address m) (of_nat b) = Some (int i)" and "i < 2 ^ 64"
proof -
  obtain j where j: "j < 4096" "msg_address m = of_nat (b + 4096 * i + j)" and b: "4096 dvd b"
    "i < n" "b + 4096 * (n + 1) < 2 ^ 63"
    using assms by (auto simp: fault_at_def)
  have "b + 4096 * i + j < 2 ^ 63" using j b by simp
  then show "page_of (msg_address m) (of_nat b) = Some (int i)"
    unfolding j(2) using j(1) b(1) by (rule page_of_region)
  show "i < 2 ^ 64" using b by simp
qed

lemma fault_polls: "fault_at b n e i m \<Longrightarrow> poll_switch k no_pollin e = PollRead"
  by (simp add: fault_at_def poll_switch_read no_pollin_def)

lemma nth_page_ok: "page_of (msg_address m) (up_begin p) = Some (int i) \<Longrightarrow> i < length (hs_pages s) \<Longrightarrow>
  write_unlock p (int i) s = Some (s\<lparr>hs_pages := (hs_pages s)[i := (hs_pages s ! i)\<lparr>has_been_written_when_wp_p := 1\<rparr>],
     hs_unlocks := hs_unlocks s @ [(up_begin p, up_size p)]\<rparr>)"
  by (simp add: write_unlock_def)

text \<open>Both handlers keep the number of page attributes.\<close>

lemma write_unlock_length: "write_unlock p i s = Some s' \<Longrightarrow> length (hs_pages s') = length (hs_pages s)"
  by (auto simp: write_unlock_def split: if_splits)

lemma wp_iteration_no_copy:
  assumes "wp_iteration abi buf p e s = Some r"
    and "\<And>m. ev_read e = ReadMsg m \<Longrightarrow> msg_flags m AND UFFD_PAGEFAULT_FLAG_WP abi = 0 \<Longrightarrow> \<not> wv_present e"
  shows "\<And>s'. r = HNext s' \<or> r = HStuck s' \<Longrightarrow> hs_copies s' = hs_copies s"
  using assms
  by (auto simp: wp_iteration_def wp_fault_def write_unlock_def bind_eq_Some_conv
      split: poll_verdict.splits read_result.splits if_splits)

section \<open>Properties\<close>

text \<open>
  The handler of ufd.c on a fault inside the region, at any offset of page \<open>i\<close>: a
  fault on a write-protected page unlocks the whole region and marks exactly that page; any
  other fault is answered with one request that copies the page read from the compressed
  file to the faulting address. In neither case does the handler exit.
\<close>

theorem ufd_fault_handled:
  assumes f: "fault_at b n (uffd_event.truncate e) i m" and p: "up_begin p = of_nat b" "unat (up_n_pages p) = n"
    and s: "length (hs_pages s) = n"
    and files: "uf_popen e" "uf_page e = Some page" "uf_fclose e = 0"
  shows "ufd_iteration abi p e s = Some (HNext
    (if msg_flags m AND UFFD_PAGEFAULT_FLAG_WP abi \<noteq> 0
     then s\<lparr>hs_pages := (hs_pages s)[i := (hs_pages s ! i)\<lparr>has_been_written_when_wp_p := 1\<rparr>],
            hs_unlocks := hs_unlocks s @ [(of_nat b, up_size p)]\<rparr>
     else s\<lparr>hs_copies := hs_copies s @ [\<lparr>cp_dst = msg_address m, cp_src = page, cp_len = 4096\<rparr>]\<rparr>))"
proof -
  have i: "i < n" "ev_read e = ReadMsg m" using f by (auto simp: fault_at_def uffd_event.defs)
  have "\<not> page_too_high (int i) (up_n_pages p)"
    using page_too_high_nat [OF fault_page(2) [OF f]] i p(2) by simp
  then show ?thesis
    using fault_page(1) [OF f] fault_polls [OF f] i s p files
    by (simp add: ufd_iteration_def ufd_fault_def write_unlock_def)
qed

definition sample_params :: uffd_params where
  "sample_params = \<lparr>up_begin = of_nat 4096, up_size = 8192, up_n_pages = 2\<rparr>"

definition sample_handler :: handler_state where
  "sample_handler = \<lparr>hs_pages = [zero_attr, zero_attr], hs_copies = [], hs_unlocks = []\<rparr>"

definition uffd_sample_abi :: uffd_abi where
  "uffd_sample_abi = \<lparr>UFFD_API = 0xAA, UFFD_API_RANGE_IOCTLS = 0x1C, UFFD_EVENT_PAGEFAULT = 0x12,
     UFFD_PAGEFAULT_FLAG_WP = 2\<rparr>"

definition wp_message :: "nat \<Rightarrow> uffd_msg" where
  "wp_message a = \<lparr>msg_event = 0x12, msg_flags = 2, msg_address = of_nat a\<rparr>"

lemma ufd_fault_handled_witness:
  "ufd_iteration uffd_sample_abi sample_params
     \<lparr>ev_poll = 1, ev_revents = POLLIN, ev_read = ReadMsg (wp_message 8200), ev_wp_rc = 0, ev_copy_rc = 0,
      uf_popen = True, uf_page = Some (replicate 4096 1), uf_fclose = 0\<rparr> sample_handler =
   Some (HNext (sample_handler\<lparr>hs_pages := [zero_attr, zero_attr\<lparr>has_been_written_when_wp_p := 1\<rparr>],
     hs_unlocks := [(4096, 8192)]\<rparr>))"
proof -
  let ?e = "\<lparr>ev_poll = 1, ev_revents = POLLIN, ev_read = ReadMsg (wp_message 8200), ev_wp_rc = 0, ev_copy_rc = 0,
      uf_popen = True, uf_page = Some (replicate 4096 1), uf_fclose = 0\<rparr>"
  have "fault_at 4096 2 (uffd_event.truncate ?e) 1 (wp_message 8200)"
    by (auto simp: fault_at_def wp_message_def uffd_event.defs intro!: exI [of _ 8])
  from ufd_fault_handled [OF this, of sample_params sample_handler "replicate 4096 1" uffd_sample_abi] show ?thesis
    by (simp add: sample_params_def sample_handler_def uffd_sample_abi_def wp_message_def)
qed

text \<open>
  Claim C12. The bound check of ufd.c and touch-uffd-wp.c is off by one: a fault in the page
  just behind the region passes \<open>page > n_pages\<close>. A write-protect fault there stores behind
  the end of the page attributes; in ufd.c any other fault is answered with a copy to an
  address that is not the program's.
\<close>

theorem handler_off_by_one:
  assumes f: "fault_at b (n + 1) (uffd_event.truncate e) n m" "fault_at b (n + 1) (uffd_event.truncate w) n m"
    and p: "up_begin p = of_nat b" "unat (up_n_pages p) = n" and s: "length (hs_pages s) = n"
    and present: "wv_present w" and files: "uf_popen e" "uf_page e = Some page" "uf_fclose e = 0"
  shows "if msg_flags m AND UFFD_PAGEFAULT_FLAG_WP abi \<noteq> 0
    then ufd_iteration abi p e s = None \<and> wp_iteration abi buf p w s = None
    else ufd_iteration abi p e s =
      Some (HNext (s\<lparr>hs_copies := hs_copies s @ [\<lparr>cp_dst = msg_address m, cp_src = page, cp_len = 4096\<rparr>]\<rparr>))"
proof -
  have r: "ev_read e = ReadMsg m" "ev_read w = ReadMsg m"
    using f by (auto simp: fault_at_def uffd_event.defs)
  have "\<not> page_too_high (int n) (up_n_pages p)"
    using page_too_high_nat [OF fault_page(2) [OF f(1)]] p(2) by simp
  then show ?thesis
    using fault_page(1) [OF f(1)] fault_polls [OF f(1)] fault_polls [OF f(2)] r s p present files
    by (simp add: ufd_iteration_def ufd_fault_def wp_iteration_def wp_fault_def write_unlock_def)
qed

lemma handler_off_by_one_witness:
  "wp_iteration uffd_sample_abi [] sample_params
     \<lparr>ev_poll = 1, ev_revents = POLLIN, ev_read = ReadMsg (wp_message 12288), ev_wp_rc = 0, ev_copy_rc = 0,
      wv_present = True\<rparr> sample_handler = None"
proof -
  let ?w = "\<lparr>ev_poll = 1, ev_revents = POLLIN, ev_read = ReadMsg (wp_message 12288), ev_wp_rc = 0, ev_copy_rc = 0,
      wv_present = True\<rparr>"
  let ?e = "\<lparr>ev_poll = 1, ev_revents = POLLIN, ev_read = ReadMsg (wp_message 12288), ev_wp_rc = 0, ev_copy_rc = 0,
      uf_popen = True, uf_page = Some [], uf_fclose = 0\<rparr>"
  have "fault_at 4096 (2 + 1) (uffd_event.truncate ?w) 2 (wp_message 12288)"
    "fault_at 4096 (2 + 1) (uffd_event.truncate ?e) 2 (wp_message 12288)"
    by (auto simp: fault_at_def wp_message_def uffd_event.defs intro!: exI [of _ 0])
  from handler_off_by_one [OF this(2,1), of sample_params sample_handler "[]" uffd_sample_abi "[]"] show ?thesis
    by (simp add: sample_params_def sample_handler_def uffd_sample_abi_def wp_message_def)
qed

text \<open>
  Claim C13. The handler of touch-uffd-wp.c never resolves a missing page: it prints the page
  before it copies anything into it, and so waits for itself. Over every run in which the
  messages without the write-protect flag are about missing pages, no copy is requested, and
  the first such message inside the region stops the handler.
\<close>

theorem wp_handler_waits_for_itself:
  assumes "\<forall>e \<in> set es. \<forall>m. ev_read e = ReadMsg m \<and> msg_flags m AND UFFD_PAGEFAULT_FLAG_WP abi = 0 \<longrightarrow> \<not> wv_present e"
  shows "(\<forall>s'. wp_handler abi buf p es s = Some (HNext s') \<or> wp_handler abi buf p es s = Some (HStuck s') \<longrightarrow>
      hs_copies s' = hs_copies s) \<and>
    (\<forall>(e :: wp_event) m b n i s'. wp_handler abi buf p es s = Some (HNext s') \<and> fault_at b n (uffd_event.truncate e) i m \<and>
      up_begin p = of_nat b \<and> unat (up_n_pages p) = n \<and> \<not> wv_present e \<longrightarrow>
      wp_handler abi buf p (es @ [e]) s = Some (HStuck s'))"
proof (intro conjI allI impI)
  fix s' assume "wp_handler abi buf p es s = Some (HNext s') \<or> wp_handler abi buf p es s = Some (HStuck s')"
  then show "hs_copies s' = hs_copies s" unfolding wp_handler_def using assms
  proof (induction es arbitrary: s)
    case (Cons e es)
    then obtain r where r: "wp_iteration abi buf p e s = Some r" by (auto simp: bind_eq_Some_conv)
    have "hs_copies s1 = hs_copies s" if "r = HNext s1 \<or> r = HStuck s1" for s1
      using wp_iteration_no_copy [OF r _ that] Cons(3) by simp
    with Cons r show ?case by (cases r) auto
  qed auto
next
  fix e :: wp_event and m b n i s'
  assume a: "wp_handler abi buf p es s = Some (HNext s') \<and> fault_at b n (uffd_event.truncate e) i m \<and>
      up_begin p = of_nat b \<and> unat (up_n_pages p) = n \<and> \<not> wv_present e"
  then have f: "fault_at b n (uffd_event.truncate e) i m" by simp
  then have r: "ev_read e = ReadMsg m" "i < n" by (auto simp: fault_at_def uffd_event.defs)
  have "\<not> page_too_high (int i) (up_n_pages p)"
    using page_too_high_nat [OF fault_page(2) [OF f]] a r by simp
  then have "wp_iteration abi buf p e s' = Some (HStuck s')"
    using fault_page(1) [OF f] fault_polls [OF f] r a by (simp add: wp_iteration_def wp_fault_def)
  then show "wp_handler abi buf p (es @ [e]) s = Some (HStuck s')"
    using a by (simp add: wp_handler_def handler_loop_append)
qed

lemma wp_handler_waits_for_itself_witness:
  "wp_handler uffd_sample_abi [] sample_params
     [\<lparr>ev_poll = 1, ev_revents = POLLIN, ev_read = ReadMsg (wp_message 4096), ev_wp_rc = 0, ev_copy_rc = 0,
      wv_present = False\<rparr>] sample_handler = Some (HStuck sample_handler)"
proof -
  let ?w = "\<lparr>ev_poll = 1, ev_revents = POLLIN, ev_read = ReadMsg (wp_message 4096), ev_wp_rc = 0, ev_copy_rc = 0,
      wv_present = False\<rparr>"
  have "fault_at 4096 2 (uffd_event.truncate ?w) 0 (wp_message 4096)"
    by (auto simp: fault_at_def wp_message_def uffd_event.defs intro!: exI [of _ 0])
  then show ?thesis
    using wp_handler_waits_for_itself [of "[]" uffd_sample_abi "[]" sample_params sample_handler]
    by (fastforce simp: sample_params_def wp_handler_def)
qed

end
