(* ===== verification/Bipbuffer.thy ===== *)
theory Bipbuffer
  imports Prelude
begin

text \<open>
  Experiments/memcached/bipbuffer.c, the circular buffer behind memcached's logger. A
  bip-buffer hands out contiguous space: region A holds the oldest bytes, region B starts
  at the beginning of the array once more room is left there. The widths are those of the
  struct: \<open>size\<close> is an \<open>unsigned long\<close>, the cursors are \<open>unsigned int\<close>s, counts
  passed and returned are \<open>int\<close>s. A pointer into the array is its offset; \<open>None\<close> as a
  whole result is an access outside the array.
\<close>

section \<open>The structure and its operations\<close>

record bipbuf =
  bb_size :: u64
  a_start :: u32
  a_end :: u32
  b_end :: u32
  b_inuse :: u32
  bb_data :: "byte list"

definition bipbuf_sizeof :: "u32 \<Rightarrow> u64" where
  "bipbuf_sizeof sz = 24 + ucast sz"

definition bipbuf_unused :: "bipbuf \<Rightarrow> int" where
  "bipbuf_unused me =
     (if b_inuse me = 1 then sint (a_start me - b_end me)
      else sint (ucast (bb_size me - ucast (a_end me)) :: u32))"

definition bipbuf_size :: "bipbuf \<Rightarrow> int" where
  "bipbuf_size me = sint (ucast (bb_size me) :: u32)"

definition bipbuf_used :: "bipbuf \<Rightarrow> int" where
  "bipbuf_used me = sint ((a_end me - a_start me) + b_end me)"

definition bipbuf_init :: "bipbuf \<Rightarrow> u32 \<Rightarrow> bipbuf" where
  "bipbuf_init me sz = me\<lparr>a_start := 0, a_end := 0, b_end := 0, bb_size := ucast sz, b_inuse := 0\<rparr>"

text \<open>\<open>junk\<close> is what the fresh memory holds; its length is the request.\<close>

definition bipbuf_new :: "(u64 \<Rightarrow> byte list option) \<Rightarrow> u32 \<Rightarrow> bipbuf option" where
  "bipbuf_new malloc sz =
     (case malloc (bipbuf_sizeof sz) of
        None \<Rightarrow> None
      | Some junk \<Rightarrow> Some (bipbuf_init
          \<lparr>bb_size = 0, a_start = 0, a_end = 0, b_end = 0, b_inuse = 0, bb_data = drop 24 junk\<rparr> sz))"

definition bipbuf_is_empty :: "bipbuf \<Rightarrow> bool" where
  "bipbuf_is_empty me \<longleftrightarrow> a_start me = a_end me"

definition check_for_switch_to_b :: "bipbuf \<Rightarrow> bipbuf" where
  "check_for_switch_to_b me =
     (if bb_size me - ucast (a_end me) < ucast (a_start me - b_end me) then me\<lparr>b_inuse := 1\<rparr> else me)"

definition bipbuf_request :: "bipbuf \<Rightarrow> int \<Rightarrow> nat option" where
  "bipbuf_request me sz =
     (if bipbuf_unused me < sz then None
      else if b_inuse me = 1 then Some (unat (b_end me))
      else Some (unat (a_end me)))"

definition bipbuf_push :: "bipbuf \<Rightarrow> int \<Rightarrow> int \<times> bipbuf" where
  "bipbuf_push me sz =
     (if bipbuf_unused me < sz then (0, me)
      else let me1 = (if b_inuse me = 1 then me\<lparr>b_end := b_end me + word_of_int sz\<rparr>
                      else me\<lparr>a_end := a_end me + word_of_int sz\<rparr>)
           in (sz, check_for_switch_to_b me1))"

text \<open>The \<open>memcpy\<close> of \<open>bipbuf_offer\<close>; a negative count converts to a huge one.\<close>

definition bip_store :: "nat \<Rightarrow> byte list \<Rightarrow> int \<Rightarrow> bipbuf \<Rightarrow> bipbuf option" where
  "bip_store off data sz me =
     (if 0 \<le> sz \<and> nat sz \<le> length data \<and> off + nat sz \<le> length (bb_data me)
      then Some (me\<lparr>bb_data := splice_at off (take (nat sz) data) (bb_data me)\<rparr>)
      else None)"

definition bipbuf_offer :: "bipbuf \<Rightarrow> byte list \<Rightarrow> int \<Rightarrow> (int \<times> bipbuf) option" where
  "bipbuf_offer me data sz =
     (if bipbuf_unused me < sz then Some (0, me)
      else if b_inuse me = 1
      then map_option (\<lambda>m. (sz, check_for_switch_to_b (m\<lparr>b_end := b_end m + word_of_int sz\<rparr>)))
             (bip_store (unat (b_end me)) data sz me)
      else map_option (\<lambda>m. (sz, check_for_switch_to_b (m\<lparr>a_end := a_end m + word_of_int sz\<rparr>)))
             (bip_store (unat (a_end me)) data sz me))"

definition bipbuf_peek :: "bipbuf \<Rightarrow> u32 \<Rightarrow> nat option" where
  "bipbuf_peek me sz =
     (if bb_size me < ucast (a_start me + sz) then None
      else if bipbuf_is_empty me then None
      else Some (unat (a_start me)))"

definition bipbuf_peek_all :: "bipbuf \<Rightarrow> (nat \<times> u32) option" where
  "bipbuf_peek_all me =
     (if bipbuf_is_empty me then None else Some (unat (a_start me), a_end me - a_start me))"

definition bipbuf_poll :: "bipbuf \<Rightarrow> u32 \<Rightarrow> nat option \<times> bipbuf" where
  "bipbuf_poll me sz =
     (if bipbuf_is_empty me then (None, me)
      else if bb_size me < ucast (a_start me + sz) then (None, me)
      else let me1 = me\<lparr>a_start := a_start me + sz\<rparr>;
               me2 = (if a_start me1 = a_end me1
                      then if b_inuse me1 = 1
                           then me1\<lparr>a_start := 0, a_end := b_end me1, b_end := 0, b_inuse := 0\<rparr>
                           else me1\<lparr>a_start := 0, a_end := 0\<rparr>
                      else me1)
           in (Some (unat (a_start me)), check_for_switch_to_b me2))"

section \<open>Invariant and contents\<close>

text \<open>The bytes in the buffer, oldest first.\<close>

definition bip_contents :: "bipbuf \<Rightarrow> byte list" where
  "bip_contents me =
     segment (unat (a_start me)) (unat (a_end me) - unat (a_start me)) (bb_data me) @
     take (unat (b_end me)) (bb_data me)"

definition bip_ok :: "bipbuf \<Rightarrow> bool" where
  "bip_ok me \<longleftrightarrow> unat (bb_size me) < 2147483648 \<and> length (bb_data me) = unat (bb_size me) \<and>
     unat (a_start me) \<le> unat (a_end me) \<and> unat (a_end me) \<le> unat (bb_size me) \<and>
     (if b_inuse me = 1 then unat (b_end me) \<le> unat (a_start me) else b_inuse me = 0 \<and> b_end me = 0) \<and>
     (a_start me = a_end me \<longrightarrow> a_start me = 0 \<and> b_inuse me = 0)"

section \<open>The operations on natural numbers\<close>

text \<open>
  A buffer that satisfies the invariant, written with natural numbers: capacity, start and
  end of A, end of B, whether B is in use. On this form the operations are plain
  arithmetic.
\<close>

definition bip :: "nat \<Rightarrow> nat \<Rightarrow> nat \<Rightarrow> nat \<Rightarrow> bool \<Rightarrow> byte list \<Rightarrow> bipbuf" where
  "bip n s e b u d = \<lparr>bb_size = of_nat n, a_start = of_nat s, a_end = of_nat e, b_end = of_nat b,
     b_inuse = (if u then 1 else 0), bb_data = d\<rparr>"

definition bip_shape :: "nat \<Rightarrow> nat \<Rightarrow> nat \<Rightarrow> nat \<Rightarrow> bool \<Rightarrow> byte list \<Rightarrow> bool" where
  "bip_shape n s e b u d \<longleftrightarrow> n < 2147483648 \<and> length d = n \<and> s \<le> e \<and> e \<le> n \<and>
     (if u then b \<le> s else b = 0) \<and> (s = e \<longrightarrow> s = 0 \<and> \<not> u)"

lemma bip_sel [simp]:
  "bb_size (bip n s e b u d) = of_nat n" "a_start (bip n s e b u d) = of_nat s"
  "a_end (bip n s e b u d) = of_nat e" "b_end (bip n s e b u d) = of_nat b"
  "b_inuse (bip n s e b u d) = (if u then 1 else 0)" "bb_data (bip n s e b u d) = d"
  by (simp_all add: bip_def)

lemma bip_upd [simp]:
  "(bip n s e b u d)\<lparr>b_end := of_nat b + word_of_int (int k)\<rparr> = bip n s e (b + k) u d"
  "(bip n s e b u d)\<lparr>a_end := of_nat e + word_of_int (int k)\<rparr> = bip n s (e + k) b u d"
  "(bip n s e b u d)\<lparr>b_end := of_nat b + of_nat k\<rparr> = bip n s e (b + k) u d"
  "(bip n s e b u d)\<lparr>a_end := of_nat e + of_nat k\<rparr> = bip n s (e + k) b u d"
  "(bip n s e b u d)\<lparr>bb_data := d'\<rparr> = bip n s e b u d'"
  by (simp_all add: bip_def)

lemma bip_ok_iff: "bip_ok me \<longleftrightarrow> (\<exists>n s e b u d. me = bip n s e b u d \<and> bip_shape n s e b u d)"
proof
  assume ok: "bip_ok me"
  define n s e b where "n = unat (bb_size me)" and "s = unat (a_start me)" and "e = unat (a_end me)"
    and "b = unat (b_end me)"
  have "me = bip n s e b (b_inuse me = 1) (bb_data me)"
    using ok by (auto simp: bip_def n_def s_def e_def b_def bip_ok_def split: if_splits)
  moreover have "bip_shape n s e b (b_inuse me = 1) (bb_data me)"
    using ok word_unat_eq_iff [of "a_start me" "a_end me"]
    by (auto simp: bip_shape_def n_def s_def e_def b_def bip_ok_def split: if_splits)
  ultimately show "\<exists>n s e b u d. me = bip n s e b u d \<and> bip_shape n s e b u d" by blast
next
  assume "\<exists>n s e b u d. me = bip n s e b u d \<and> bip_shape n s e b u d"
  then obtain n s e b u d where m: "me = bip n s e b u d" and sh: "bip_shape n s e b u d" by blast
  then have "n < 2147483648" "s \<le> n" "e \<le> n" "b \<le> n" by (auto simp: bip_shape_def split: if_splits)
  then show "bip_ok me"
    using sh by (auto simp: m bip_ok_def bip_shape_def unat32 unat64 of_nat_word_eq32 split: if_splits)
qed

lemma bip_okI: "bip_shape n s e b u d \<Longrightarrow> bip_ok (bip n s e b u d)"
  unfolding bip_ok_iff by blast

lemma bip_contents_bip:
  "bip_shape n s e b u d \<Longrightarrow> bip_contents (bip n s e b u d) = segment s (e - s) d @ take b d"
  by (auto simp: bip_contents_def bip_shape_def unat32 split: if_splits)

lemma bip_room:
  assumes "n < 2147483648" and "e \<le> n"
  shows "(of_nat n - ucast (of_nat e :: u32) :: u64) = of_nat (n - e)"
  using assms by (simp add: ucast_of_nat32 of_nat_sub del: of_nat_diff)

lemma bip_unused:
  assumes "bip_shape n s e b u d"
  shows "bipbuf_unused (bip n s e b u d) = int (if u then s - b else n - e)"
proof -
  have b: "n < 2147483648" "s \<le> n" "e \<le> n" "u \<Longrightarrow> b \<le> s" using assms by (auto simp: bip_shape_def)
  have "sint (of_nat s - of_nat b :: u32) = int (s - b)" if "u"
    unfolding of_nat_sub [OF b(4) [OF that]] using b by (intro sint_small) simp
  moreover have "sint (ucast (of_nat n - ucast (of_nat e :: u32) :: u64) :: u32) = int (n - e)"
    unfolding bip_room [OF b(1,3)] ucast_of_nat64 using b by (intro sint_small) simp
  ultimately show ?thesis by (simp add: bipbuf_unused_def)
qed

lemma bip_switch:
  assumes "n < 2147483648" and "s \<le> n" and "e \<le> n" and "b \<le> s"
  shows "check_for_switch_to_b (bip n s e b u d) = bip n s e b (u \<or> n - e < s - b) d"
proof -
  have "(of_nat (n - e) :: u64) < ucast (of_nat (s - b) :: u32) \<longleftrightarrow> n - e < s - b"
    using assms by (simp add: word_less_nat_alt unat64 ucast_of_nat32 del: of_nat_diff)
  then show ?thesis
    unfolding check_for_switch_to_b_def bip_sel bip_room [OF assms(1,3)] of_nat_sub [OF assms(4)]
    by (simp add: bip_def)
qed

lemma bip_offer:
  assumes sh: "bip_shape n s e b u d" and k: "k \<le> length data"
  shows "bipbuf_offer (bip n s e b u d) data (int k) =
    (if (if u then s - b else n - e) < k then Some (0, bip n s e b u d)
     else if u then Some (int k, bip n s e (b + k) True (splice_at b (take k data) d))
     else Some (int k, bip n s (e + k) 0 (n - (e + k) < s) (splice_at e (take k data) d)))"
proof -
  have bounds: "n < 2147483648" "s \<le> n" "e \<le> n" "length d = n" "u \<Longrightarrow> b \<le> s" "\<not> u \<Longrightarrow> b = 0"
    using sh by (auto simp: bip_shape_def split: if_splits)
  consider (full) "(if u then s - b else n - e) < k" | (B) "u" "k \<le> s - b" | (A) "\<not> u" "k \<le> n - e"
    by (cases u; cases "(if u then s - b else n - e) < k") auto
  then show ?thesis
  proof cases
    case full
    then show ?thesis by (simp add: bipbuf_offer_def bip_unused [OF sh])
  next
    case B
    have "bipbuf_offer (bip n s e b u d) data (int k) =
        Some (int k, check_for_switch_to_b (bip n s e (b + k) u (splice_at b (take k data) d)))"
      using B bounds k bip_unused [OF sh] by (simp add: bipbuf_offer_def bip_store_def unat32)
    then show ?thesis using B bounds by (simp add: bip_switch)
  next
    case A
    have "bipbuf_offer (bip n s e b u d) data (int k) =
        Some (int k, check_for_switch_to_b (bip n s (e + k) b u (splice_at e (take k data) d)))"
      using A bounds k bip_unused [OF sh] by (simp add: bipbuf_offer_def bip_store_def unat32)
    then show ?thesis using A bounds by (simp add: bip_switch)
  qed
qed

lemma bip_peek_all:
  "bip_shape n s e b u d \<Longrightarrow>
   bipbuf_peek_all (bip n s e b u d) = (if s = e then None else Some (s, of_nat (e - s)))"
  by (auto simp: bipbuf_peek_all_def bipbuf_is_empty_def bip_shape_def of_nat_word_eq32 unat32 of_nat_sub
      simp del: of_nat_diff)

lemma bip_poll_fits:
  assumes sh: "bip_shape n s e b u d" and k: "s + k \<le> n" and ne: "s \<noteq> e"
  shows "bipbuf_poll (bip n s e b u d) (of_nat k) =
    (Some s, if s + k = e then bip n 0 (if u then b else 0) 0 False d
             else check_for_switch_to_b (bip n (s + k) e b u d))"
proof -
  have bounds: "n < 2147483648" "s \<le> n" "e \<le> n" "u \<Longrightarrow> b \<le> s" "\<not> u \<Longrightarrow> b = 0"
    using sh by (auto simp: bip_shape_def split: if_splits)
  have sk: "(of_nat s + of_nat k :: u32) = of_nat (s + k)" by simp
  have room: "\<not> (of_nat n :: u64) < ucast (of_nat (s + k) :: u32)"
  proof -
    have "(ucast (of_nat (s + k) :: u32) :: u64) = of_nat (s + k)"
      using k bounds by (intro ucast_of_nat32) linarith
    moreover have "unat (of_nat (s + k) :: u64) = s + k" "unat (of_nat n :: u64) = n"
      using k bounds by (intro unat64; linarith)+
    ultimately show ?thesis using k by (simp only: word_less_nat_alt)
  qed
  have eqs: "(of_nat s :: u32) = of_nat e \<longleftrightarrow> s = e" "(of_nat (s + k) :: u32) = of_nat e \<longleftrightarrow> s + k = e"
    "unat (of_nat s :: u32) = s"
    using bounds k by (intro of_nat_word_eq32 unat32; linarith)+
  have set_a: "(bip n s e b u d)\<lparr>a_start := of_nat (s + k)\<rparr> = bip n (s + k) e b u d"
    "(bip n (s + k) e b u d)\<lparr>a_start := 0, a_end := 0\<rparr> = bip n 0 0 b u d"
    "(bip n (s + k) e b u d)\<lparr>a_start := 0, a_end := of_nat b, b_end := 0, b_inuse := 0\<rparr> = bip n 0 b 0 False d"
    by (simp_all add: bip_def)
  have drained: "check_for_switch_to_b (bip n 0 (if u then b else 0) 0 False d) =
      bip n 0 (if u then b else 0) 0 False d"
    using bounds by (subst bip_switch) auto
  have poll: "bipbuf_poll (bip n s e b u d) (of_nat k) =
    (Some s, check_for_switch_to_b (if s + k = e
       then if u then bip n 0 b 0 False d else bip n 0 0 b u d else bip n (s + k) e b u d))"
    unfolding bipbuf_poll_def bipbuf_is_empty_def bip_sel sk set_a Let_def
    using room ne by (simp add: eqs set_a del: of_nat_add)
  show ?thesis
    unfolding poll using drained bounds(5) by (cases "s + k = e"; cases u) simp_all
qed

lemma bip_poll:
  assumes sh: "bip_shape n s e b u d" and k: "k \<le> e - s" and ne: "s \<noteq> e"
  shows "bipbuf_poll (bip n s e b u d) (of_nat k) =
    (Some s, if s + k = e then bip n 0 (if u then b else 0) 0 False d
             else bip n (s + k) e b (u \<or> n - e < s + k - b) d)"
proof -
  have bounds: "n < 2147483648" "s \<le> e" "e \<le> n" "b \<le> s"
    using sh by (auto simp: bip_shape_def split: if_splits)
  with k ne have "s + k \<le> n" "s + k \<le> n" by simp_all
  then show ?thesis using bip_poll_fits [OF sh _ ne, of k] bounds by (simp add: bip_switch)
qed

section \<open>First in, first out\<close>

text \<open>
  What the logger relies on: a store of bytes that takes a block whole or not at all and
  gives bytes back in the order of their arrival. \<open>Put\<close> is an offer, \<open>Get\<close> a read of
  everything that is contiguous.
\<close>

datatype fifo_op = Put "byte list" | Get

fun fifo_run ::
  "(byte list \<Rightarrow> 's \<Rightarrow> (bool \<times> 's) option) \<Rightarrow> ('s \<Rightarrow> byte list \<times> 's) \<Rightarrow> fifo_op list \<Rightarrow> 's \<Rightarrow>
   (byte list \<times> byte list \<times> 's) option" where
  "fifo_run put get [] s = Some ([], [], s)"
| "fifo_run put get (Put xs # ops) s =
     (case put xs s of
        None \<Rightarrow> None
      | Some (ok, s') \<Rightarrow>
          map_option (\<lambda>(ins, outs, t). ((if ok then xs else []) @ ins, outs, t)) (fifo_run put get ops s'))"
| "fifo_run put get (Get # ops) s =
     (case get s of (ys, s') \<Rightarrow>
        map_option (\<lambda>(ins, outs, t). (ins, ys @ outs, t)) (fifo_run put get ops s'))"

locale byte_fifo =
  fixes put :: "byte list \<Rightarrow> 's \<Rightarrow> (bool \<times> 's) option"
    and get :: "'s \<Rightarrow> byte list \<times> 's"
    and inv :: "'s \<Rightarrow> bool"
    and contents :: "'s \<Rightarrow> byte list"
    and limit :: nat
  assumes put_law: "inv s \<Longrightarrow> length xs < limit \<Longrightarrow>
      \<exists>ok s'. put xs s = Some (ok, s') \<and> inv s' \<and> contents s' = contents s @ (if ok then xs else [])"
    and get_law: "inv s \<Longrightarrow> inv (snd (get s)) \<and> contents s = fst (get s) @ contents (snd (get s))"
    and get_progress: "inv s \<Longrightarrow> contents s \<noteq> [] \<Longrightarrow> fst (get s) \<noteq> []"
begin

lemma run_order:
  assumes "inv s" and "\<forall>xs. Put xs \<in> set ops \<longrightarrow> length xs < limit"
  shows "\<exists>ins outs t. fifo_run put get ops s = Some (ins, outs, t) \<and> inv t \<and> outs @ contents t = contents s @ ins"
  using assms
proof (induction ops arbitrary: s)
  case (Cons op ops)
  show ?case
  proof (cases op)
    case (Put xs)
    with Cons(3) have "length xs < limit" by simp
    then obtain ok s' where p: "put xs s = Some (ok, s')" "inv s'" "contents s' = contents s @ (if ok then xs else [])"
      using put_law [OF Cons(2)] by blast
    with Cons(1) [of s'] Cons(3) show ?thesis by (fastforce simp: Put)
  next
    case Get
    have "inv (snd (get s))" "contents s = fst (get s) @ contents (snd (get s))"
      using get_law [OF Cons(2)] by simp_all
    with Cons(1) [of "snd (get s)"] Cons(3) show ?thesis by (fastforce simp: Get split: prod.splits)
  qed
qed simp

text \<open>Reading as often as there are bytes empties the store.\<close>

lemma drain:
  "inv s \<Longrightarrow> length (contents s) \<le> n \<Longrightarrow>
   \<exists>t. fifo_run put get (replicate n Get) s = Some ([], contents s, t) \<and> contents t = []"
proof (induction n arbitrary: s)
  case (Suc n)
  have law: "inv (snd (get s))" "contents s = fst (get s) @ contents (snd (get s))"
    using get_law [OF Suc(2)] by simp_all
  have "length (contents (snd (get s))) \<le> n"
  proof (cases "contents s = []")
    case False
    then have "fst (get s) \<noteq> []" by (rule get_progress [OF Suc(2)])
    then have "0 < length (fst (get s))" by simp
    moreover have "length (contents s) = length (fst (get s)) + length (contents (snd (get s)))"
      using law(2) by (metis length_append)
    ultimately show ?thesis using Suc(3) by linarith
  next
    case True
    then have "contents (snd (get s)) = []" using law(2) by (metis append_is_Nil_conv)
    then show ?thesis by simp
  qed
  with Suc(1) [OF law(1)] law(2) show ?case by (fastforce split: prod.splits)
qed simp

end

text \<open>The two operations as memcached's logger uses them.\<close>

definition bip_put :: "byte list \<Rightarrow> bipbuf \<Rightarrow> (bool \<times> bipbuf) option" where
  "bip_put xs me = map_option (\<lambda>(r, m). (r = int (length xs), m)) (bipbuf_offer me xs (int (length xs)))"

definition bip_get :: "bipbuf \<Rightarrow> byte list \<times> bipbuf" where
  "bip_get me =
     (case bipbuf_peek_all me of
        None \<Rightarrow> ([], me)
      | Some (off, len) \<Rightarrow> (segment off (unat len) (bb_data me), snd (bipbuf_poll me len)))"

lemma shapeE:
  assumes "bip_shape n s e b u d"
  obtains (B) "u" "n < 2147483648" "length d = n" "s < e" "e \<le> n" "b \<le> s"
    | (A) "\<not> u" "b = 0" "n < 2147483648" "length d = n" "s \<le> e" "e \<le> n" "s = e \<Longrightarrow> s = 0"
  using assms by (cases u) (auto simp: bip_shape_def)

lemma bip_put_law:
  assumes "bip_ok me" and xs: "length xs < 2147483648"
  shows "\<exists>ok m. bip_put xs me = Some (ok, m) \<and> bip_ok m \<and>
    bip_contents m = bip_contents me @ (if ok then xs else []) \<and>
    (ok \<longleftrightarrow> int (length xs) \<le> bipbuf_unused me)"
proof -
  obtain n s e b u d where me: "me = bip n s e b u d" and sh: "bip_shape n s e b u d"
    using assms by (auto simp: bip_ok_iff)
  let ?k = "length xs"
  note off = bip_offer [OF sh, of ?k xs] and un = bip_unused [OF sh]
  have "n - b \<le> n" by simp
  from sh show ?thesis
  proof (cases rule: shapeE)
    case B
    show ?thesis
    proof (cases "?k \<le> s - b")
      case True
      have sh': "bip_shape n s e (b + ?k) True (splice_at b xs d)"
        using B True by (simp add: bip_shape_def)
      have "segment s (e - s) (splice_at b xs d) @ take (b + ?k) (splice_at b xs d) =
          (segment s (e - s) d @ take b d) @ xs"
        using B True by (simp add: segment_splice_after take_splice_at)
      with True B off un bip_contents_bip [OF sh] show ?thesis
        by (simp add: me bip_put_def bip_okI [OF sh'] bip_contents_bip [OF sh'] of_nat_diff)
    qed (use B off un bip_okI [OF sh] in \<open>auto simp: me bip_put_def\<close>)
  next
    case A
    show ?thesis
    proof (cases "?k \<le> n - e")
      case True
      have sh': "bip_shape n s (e + ?k) 0 (n - (e + ?k) < s) (splice_at e xs d)"
        using A True by (auto simp: bip_shape_def)
      have "segment s (e + ?k - s) (splice_at e xs d) = segment s (e - s) d @ xs"
        using A True by (simp add: segment_append_take take_splice_at)
      with True A off un bip_contents_bip [OF sh] show ?thesis
        by (simp add: me bip_put_def bip_okI [OF sh'] bip_contents_bip [OF sh'] of_nat_diff)
    qed (use A off un bip_okI [OF sh] in \<open>auto simp: me bip_put_def\<close>)
  qed
qed

lemma bip_poll_law:
  assumes sh: "bip_shape n s e b u d" and k: "k \<le> e - s" and ne: "s \<noteq> e"
  shows "\<exists>m. bipbuf_poll (bip n s e b u d) (of_nat k) = (Some s, m) \<and> bip_ok m \<and>
    bip_contents (bip n s e b u d) = segment s k d @ bip_contents m"
  using sh
proof (cases rule: shapeE)
  case B
  show ?thesis
  proof (cases "s + k = e")
    case True
    have sh': "bip_shape n 0 b 0 False d" using B by (simp add: bip_shape_def)
    then have "bip_contents (bip n 0 b 0 False d) = take b d"
      by (simp add: bip_contents_bip segment_def)
    moreover have "e - s = k" using True by simp
    ultimately show ?thesis using True B bip_poll [OF sh k ne] bip_contents_bip [OF sh]
      by (simp add: bip_okI [OF sh'])
  next
    case False
    have sh': "bip_shape n (s + k) e b True d" using B False k by (auto simp: bip_shape_def)
    have "e - s = k + (e - (s + k))" using k B by simp
    then have "segment s (e - s) d = segment s k d @ segment (s + k) (e - (s + k)) d"
      by (metis segment_def take_add drop_drop add.commute)
    with False B bip_poll [OF sh k ne] bip_contents_bip [OF sh] show ?thesis
      by (simp add: bip_okI [OF sh'] bip_contents_bip [OF sh'])
  qed
next
  case A
  show ?thesis
  proof (cases "s + k = e")
    case True
    have sh': "bip_shape n 0 0 0 False d" using A by (simp add: bip_shape_def)
    then have "bip_contents (bip n 0 0 0 False d) = []"
      by (simp add: bip_contents_bip segment_def)
    moreover have "e - s = k" using True by simp
    ultimately show ?thesis using True A bip_poll [OF sh k ne] bip_contents_bip [OF sh]
      by (simp add: bip_okI [OF sh'])
  next
    case False
    have sh': "bip_shape n (s + k) e 0 (n - e < s + k) d" using A False k ne by (auto simp: bip_shape_def)
    have "e - s = k + (e - (s + k))" using k A by simp
    then have "segment s (e - s) d = segment s k d @ segment (s + k) (e - (s + k)) d"
      by (metis segment_def take_add drop_drop add.commute)
    with False A bip_poll [OF sh k ne] bip_contents_bip [OF sh] show ?thesis
      by (simp add: bip_okI [OF sh'] bip_contents_bip [OF sh'])
  qed
qed

lemma bip_get_law:
  assumes "bip_ok me"
  shows "bip_ok (snd (bip_get me)) \<and> bip_contents me = fst (bip_get me) @ bip_contents (snd (bip_get me)) \<and>
    (bip_contents me \<noteq> [] \<longrightarrow> fst (bip_get me) \<noteq> [])"
proof -
  obtain n s e b u d where me: "me = bip n s e b u d" and sh: "bip_shape n s e b u d"
    using assms by (auto simp: bip_ok_iff)
  show ?thesis
  proof (cases "s = e")
    case True
    then have "s = 0" "b = 0" using sh by (auto simp: bip_shape_def)
    moreover have "bip_get me = ([], me)" using True bip_peek_all [OF sh] by (simp add: bip_get_def me)
    moreover have "bip_contents me = []" using True \<open>b = 0\<close> bip_contents_bip [OF sh] by (simp add: me segment_def)
    ultimately show ?thesis using assms by simp
  next
    case False
    have lt: "s < e" "e \<le> n" "n < 2147483648" "length d = n" using sh False by (auto simp: bip_shape_def)
    obtain m where m: "bipbuf_poll (bip n s e b u d) (of_nat (e - s)) = (Some s, m)" "bip_ok m"
      "bip_contents (bip n s e b u d) = segment s (e - s) d @ bip_contents m"
      using bip_poll_law [OF sh order.refl False] by blast
    have g: "bip_get me = (segment s (e - s) d, m)"
      using False m(1) lt by (simp add: bip_get_def me bip_peek_all [OF sh] unat32 del: of_nat_diff)
    have "length (segment s (e - s) d) = e - s" using lt by simp
    then have "segment s (e - s) d \<noteq> []" using lt(1) by (metis list.size(3) not_less_eq zero_less_diff less_nat_zero_code)
    with g m me show ?thesis by simp
  qed
qed

interpretation bip_fifo: byte_fifo bip_put bip_get bip_ok bip_contents 2147483648
  using bip_put_law bip_get_law by unfold_locales blast+

section \<open>Properties\<close>

lemma bip_init_ok:
  assumes "unat sz < 2147483648" and "length (bb_data me) = unat sz"
  shows "bip_ok (bipbuf_init me sz) \<and> bip_contents (bipbuf_init me sz) = [] \<and>
    bipbuf_unused (bipbuf_init me sz) = int (unat sz)"
proof -
  have "bipbuf_init me sz = bip (unat sz) 0 0 0 False (bb_data me)"
    by (simp add: bipbuf_init_def bip_def)
  moreover have sh: "bip_shape (unat sz) 0 0 0 False (bb_data me)" using assms by (simp add: bip_shape_def)
  ultimately show ?thesis
    using bip_okI [OF sh] bip_contents_bip [OF sh] bip_unused [OF sh] by (simp add: segment_def)
qed

text \<open>
  Claim C14. The bip-buffer is a queue of bytes. From a fresh buffer of any capacity below 2
  GB, any sequence of offers and of reads of the contiguous front runs without leaving the
  array, and what was read followed by what the buffer still holds is exactly what the
  accepted offers put in, in that order; reading on until nothing is left then yields the
  rest.
\<close>

theorem bipbuf_fifo:
  assumes "unat sz < 2147483648" and "length (bb_data me) = unat sz"
    and "\<forall>xs. Put xs \<in> set ops \<longrightarrow> length xs < 2147483648"
  shows "\<exists>ins outs t t'. fifo_run bip_put bip_get ops (bipbuf_init me sz) = Some (ins, outs, t) \<and>
    outs @ bip_contents t = ins \<and>
    fifo_run bip_put bip_get (replicate (length (bip_contents t)) Get) t = Some ([], bip_contents t, t') \<and>
    bip_contents t' = []"
proof -
  note init = bip_init_ok [OF assms(1,2)]
  then obtain ins outs t where r: "fifo_run bip_put bip_get ops (bipbuf_init me sz) = Some (ins, outs, t)"
    "bip_ok t" "outs @ bip_contents t = bip_contents (bipbuf_init me sz) @ ins"
    using bip_fifo.run_order [of "bipbuf_init me sz" ops] assms(3) by blast
  moreover obtain t' where "fifo_run bip_put bip_get (replicate (length (bip_contents t)) Get) t =
      Some ([], bip_contents t, t')" "bip_contents t' = []"
    using bip_fifo.drain [OF r(2) order.refl] by blast
  ultimately show ?thesis using init by auto
qed

definition bip_blank :: bipbuf where
  "bip_blank = \<lparr>bb_size = 0, a_start = 7, a_end = 7, b_end = 7, b_inuse = 7, bb_data = [9, 9, 9, 9]\<rparr>"

lemma bipbuf_fifo_witness:
  "\<exists>ins outs t. fifo_run bip_put bip_get [Put [1, 2, 3], Get, Put [4, 5]] (bipbuf_init bip_blank 4) = Some (ins, outs, t) \<and>
     outs @ bip_contents t = ins"
  using bipbuf_fifo [of 4 bip_blank "[Put [1, 2, 3], Get, Put [4, 5]]"] by (fastforce simp: bip_blank_def)

text \<open>A push after the bytes have been stored where \<open>bipbuf_request\<close> said.\<close>

lemma bip_push_law:
  assumes ok: "bip_ok me" and k: "length xs \<le> k" "k < 2147483648" and r: "bipbuf_request me (int k) = Some off"
  shows "off + length xs \<le> length (bb_data me) \<and> (\<exists>m.
      bipbuf_push (me\<lparr>bb_data := splice_at off xs (bb_data me)\<rparr>) (int (length xs)) = (int (length xs), m) \<and>
      bipbuf_offer me xs (int (length xs)) = Some (int (length xs), m) \<and> bip_ok m \<and> bip_contents m = bip_contents me @ xs)"
proof -
  have un: "int (length xs) \<le> bipbuf_unused me"
    using r k by (simp add: bipbuf_request_def split: if_splits)
  obtain m where m: "bip_put xs me = Some (True, m)" "bip_ok m" "bip_contents m = bip_contents me @ xs"
    using bip_put_law [OF ok, of xs] k un by auto
  define me' where "me' = me\<lparr>bb_data := splice_at off xs (bb_data me)\<rparr>"
  have un': "\<not> bipbuf_unused me' < int (length xs)" using un by (simp add: me'_def bipbuf_unused_def split: if_splits)
  have off: "off = (if b_inuse me = 1 then unat (b_end me) else unat (a_end me))"
    using r by (simp add: bipbuf_request_def split: if_splits)
  have room: "off + length xs \<le> length (bb_data me)"
    using m(1) un by (auto simp: bip_put_def bipbuf_offer_def bip_store_def off split: if_splits)
  have "bipbuf_push me' (int (length xs)) = (int (length xs), m)"
    using m(1) un un' room unfolding off me'_def
    by (auto simp: bip_put_def bipbuf_offer_def bipbuf_push_def bip_store_def Let_def split: if_splits)
  then show ?thesis
    using m un room by (auto simp: me'_def bip_put_def bipbuf_offer_def Let_def split: if_splits)
qed

text \<open>
  Claim C15. An offer is taken exactly when it fits the unused space, whichever region is
  being filled; asking for space, writing there and then pushing has the same effect as an
  offer of the bytes written, also when fewer bytes are pushed than were asked for.
\<close>

theorem bipbuf_request_push:
  assumes ok: "bip_ok me" and k: "length xs \<le> k" "k < 2147483648"
    and r: "bipbuf_request me (int k) = Some off"
  shows "off + length xs \<le> length (bb_data me) \<and>
    (let me' = me\<lparr>bb_data := splice_at off xs (bb_data me)\<rparr> in
      Some (bipbuf_push me' (int (length xs))) = bipbuf_offer me xs (int (length xs)) \<and>
      bip_contents (snd (bipbuf_push me' (int (length xs)))) = bip_contents me @ xs)"
  using bip_push_law [OF ok k r] by (auto simp: Let_def)

lemma bipbuf_request_push_witness:
  "Some (bipbuf_push ((bipbuf_init bip_blank 4)\<lparr>bb_data := [1, 2, 9, 9]\<rparr>) 2) =
     bipbuf_offer (bipbuf_init bip_blank 4) [1, 2] 2"
proof -
  have ok: "bip_ok (bipbuf_init bip_blank 4)"
    using bip_init_ok [of 4 bip_blank] by (simp add: bip_blank_def)
  have "bipbuf_request (bipbuf_init bip_blank 4) (int 3) = Some 0"
    using bip_init_ok [of 4 bip_blank] by (simp add: bip_blank_def bipbuf_request_def bipbuf_init_def bipbuf_unused_def)
  from bipbuf_request_push [OF ok _ _ this, of "[1, 2]"] show ?thesis
    by (simp add: Let_def bipbuf_init_def bip_blank_def splice_at_def)
qed

text \<open>
  Claim C16. \<open>bipbuf_poll\<close> compares with the capacity and not with the end of region A: a poll
  of more bytes than the front holds, which the header promises to refuse, hands out a
  pointer to bytes that were never put in, moves the start behind the end and so breaks
  the buffer.
\<close>

theorem bipbuf_poll_overreads:
  assumes sh: "bip_ok me" "\<not> bipbuf_is_empty me"
    and k: "unat (a_end me) < unat (a_start me) + unat sz" "unat (a_start me) + unat sz \<le> unat (bb_size me)"
  shows "fst (bipbuf_poll me sz) = Some (unat (a_start me)) \<and> \<not> bip_ok (snd (bipbuf_poll me sz))"
proof -
  obtain n s e b u d where me: "me = bip n s e b u d" and sh': "bip_shape n s e b u d"
    using sh by (auto simp: bip_ok_iff)
  have bounds: "n < 2147483648" "s \<le> n" "e \<le> n" "b \<le> s"
    using sh' by (auto simp: bip_shape_def split: if_splits)
  then have vals: "unat (of_nat s :: u32) = s" "unat (of_nat e :: u32) = e" "unat (of_nat n :: u64) = n"
    by (intro unat32 unat64; linarith)+
  define j where "j = unat sz"
  have j: "e < s + j" "s + j \<le> n" "sz = of_nat j" using k vals by (simp_all add: me j_def)
  have ne: "s \<noteq> e" using sh(2) by (auto simp: me bipbuf_is_empty_def)
  have p: "bipbuf_poll me sz = (Some s, bip n (s + j) e b (u \<or> n - e < s + j - b) d)"
    using bip_poll_fits [OF sh' j(2) ne] bip_switch [of n "s + j" e b u d] j bounds by (simp add: me)
  have "\<not> bip_ok (bip n (s + j) e b v d)" for v
    using bounds j by (simp add: bip_ok_def unat32 del: of_nat_add)
  with p vals show ?thesis by (simp add: me)
qed

lemma bipbuf_poll_overreads_witness:
  "fst (bipbuf_poll (bip 4 0 1 0 False [1, 2, 3, 4]) 3) = Some 0 \<and>
   \<not> bip_ok (snd (bipbuf_poll (bip 4 0 1 0 False [1, 2, 3, 4]) 3))"
  using bipbuf_poll_overreads [of "bip 4 0 1 0 False [1, 2, 3, 4]" 3]
  by (simp add: bip_okI bip_shape_def bipbuf_is_empty_def)

end
