(* ===== verification/Itoa.thy ===== *)
theory Itoa
  imports Prelude "HOL-Library.Char_ord"
begin

text \<open>
  Experiments/memcached/itoa_ljust.c: integers to decimal text, two digits at a time through
  a table. The output pointer is the text written so far, in front of the NUL that \<open>itoa\<close> stores at the
  end; \<open>None\<close> is undefined behaviour: a read outside the table, or a product of two \<open>int\<close>s that
  overflows. The labels of the \<open>switch\<close> in \<open>itoa\<close>, which fall through, are a definition each.
\<close>

section \<open>The conversion\<close>

definition lut :: string where
  "lut = ''0001020304050607080910111213141516171819'' @
     ''2021222324252627282930313233343536373839'' @
     ''4041424344454647484950515253545556575859'' @
     ''6061626364656667686970717273747576777879'' @
     ''8081828384858687888990919293949596979899''"

text \<open>\<open>'0' + d\<close> as a character.\<close>

definition digit_char :: "int \<Rightarrow> char" where
  "digit_char d = char_of (nat (48 + d))"

definition out2 :: "int \<Rightarrow> string \<Rightarrow> string option" where
  "out2 d p = (if 0 \<le> d \<and> 2 * d + 2 \<le> 201 then Some (p @ segment (nat (2 * d)) 2 lut) else None)"

definition out1 :: "char \<Rightarrow> string \<Rightarrow> string" where
  "out1 c p = p @ [c]"

definition digits :: "u32 \<Rightarrow> u32 \<Rightarrow> int \<Rightarrow> string \<Rightarrow> nat \<Rightarrow> int \<times> string \<times> nat" where
  "digits u k d p n =
     (if u < k * 10
      then let d = uint (u div k) in (d, out1 (digit_char d) p, n - 1)
      else (d, p, n))"

text \<open>The product of the \<open>int\<close> \<open>d\<close> and an \<open>int\<close> constant; it is then converted to \<open>uint32_t\<close>.\<close>

definition int_mul :: "int \<Rightarrow> int \<Rightarrow> int option" where
  "int_mul a b = (if - (2 ^ 31) \<le> a * b \<and> a * b < 2 ^ 31 then Some (a * b) else None)"

definition itoa_2 :: "u32 \<Rightarrow> int \<Rightarrow> string \<Rightarrow> string option" where
  "itoa_2 u d p = (let d = uint u div 1 in out2 d p)"

definition itoa_3 :: "u32 \<Rightarrow> int \<Rightarrow> string \<Rightarrow> string option" where
  "itoa_3 u d p = do { x \<leftarrow> int_mul d 100; itoa_2 (u - word_of_int x) d p }"

definition itoa_4 :: "u32 \<Rightarrow> int \<Rightarrow> string \<Rightarrow> string option" where
  "itoa_4 u d p = (let d = uint u div 100 in Option.bind (out2 d p) (itoa_3 u d))"

definition itoa_5 :: "u32 \<Rightarrow> int \<Rightarrow> string \<Rightarrow> string option" where
  "itoa_5 u d p = do { x \<leftarrow> int_mul d 10000; itoa_4 (u - word_of_int x) d p }"

definition itoa_6 :: "u32 \<Rightarrow> int \<Rightarrow> string \<Rightarrow> string option" where
  "itoa_6 u d p = (let d = uint u div 10000 in Option.bind (out2 d p) (itoa_5 u d))"

definition itoa_7 :: "u32 \<Rightarrow> int \<Rightarrow> string \<Rightarrow> string option" where
  "itoa_7 u d p = do { x \<leftarrow> int_mul d 1000000; itoa_6 (u - word_of_int x) d p }"

definition itoa_8 :: "u32 \<Rightarrow> int \<Rightarrow> string \<Rightarrow> string option" where
  "itoa_8 u d p = (let d = uint u div 1000000 in Option.bind (out2 d p) (itoa_7 u d))"

definition itoa_9 :: "u32 \<Rightarrow> int \<Rightarrow> string \<Rightarrow> string option" where
  "itoa_9 u d p = do { x \<leftarrow> int_mul d 100000000; itoa_8 (u - word_of_int x) d p }"

definition itoa_10 :: "u32 \<Rightarrow> int \<Rightarrow> string \<Rightarrow> string option" where
  "itoa_10 u d p = (let d = uint u div 100000000 in Option.bind (out2 d p) (itoa_9 u d))"

definition itoa :: "u32 \<Rightarrow> string \<Rightarrow> int \<Rightarrow> nat \<Rightarrow> string option" where
  "itoa u p d n =
     (if n = 10 then itoa_10 u d p else if n = 9 then itoa_9 u d p else if n = 8 then itoa_8 u d p
      else if n = 7 then itoa_7 u d p else if n = 6 then itoa_6 u d p else if n = 5 then itoa_5 u d p
      else if n = 4 then itoa_4 u d p else if n = 3 then itoa_3 u d p else if n = 2 then itoa_2 u d p
      else Some p)"

definition itoa_u32 :: "u32 \<Rightarrow> string \<Rightarrow> string option" where
  "itoa_u32 u p =
     (case (if u \<ge> 100000000 then digits u 100000000 0 p 10
            else if u < 100 then digits u 1 0 p 2
            else if u < 10000 then digits u 100 0 p 4
            else if u < 1000000 then digits u 10000 0 p 6
            else digits u 1000000 0 p 8) of
       (d, p, n) \<Rightarrow> itoa u p d n)"

definition itoa_32 :: "u32 \<Rightarrow> string \<Rightarrow> string option" where
  "itoa_32 i p = (if sint i < 0 then itoa_u32 (- i) (p @ ''-'') else itoa_u32 i p)"

function itoa_u64 :: "u64 \<Rightarrow> string \<Rightarrow> string option" where
  "itoa_u64 u p =
     (let lower = (ucast u :: u32)
      in if ucast lower = u then itoa_u32 lower p
         else let upper = u div 1000000000
              in do { p \<leftarrow> itoa_u64 upper p;
                      let lower = (ucast (u - upper * 1000000000) :: u32);
                      let d = uint (lower div 100000000);
                      itoa lower (out1 (digit_char d) p) d 9 })"
  by pat_completeness auto
termination
proof (relation "measure (unat \<circ> fst)")
  fix u :: u64 and p and x :: u32 and xa :: u64
  assume x: "x = ucast u" and ne: "ucast x \<noteq> u" and xa: "xa = u div 1000000000"
  have "u \<noteq> 0" using x ne by auto
  then have "0 < unat u" by (simp add: unat_gt_0)
  then have "unat u div 1000000000 < unat u" by simp
  then show "((xa, p), (u, p)) \<in> measure (unat \<circ> fst)"
    by (simp add: xa unat_div)
qed simp

declare itoa_u64.simps [simp del]

definition itoa_64 :: "u64 \<Rightarrow> string \<Rightarrow> string option" where
  "itoa_64 i p = (if sint i < 0 then itoa_u64 (- i) (p @ ''-'') else itoa_u64 i p)"

section \<open>Decimal notation\<close>

text \<open>\<open>pad k n\<close> is the \<open>k\<close> low decimal digits of \<open>n\<close>, \<open>decimal n\<close> its usual notation.\<close>

primrec pad :: "nat \<Rightarrow> nat \<Rightarrow> string" where
  "pad 0 n = []"
| "pad (Suc k) n = pad k (n div 10) @ [digit_char (int (n mod 10))]"

fun decimal :: "nat \<Rightarrow> string" where
  "decimal n = (if n < 10 then [digit_char (int n)] else decimal (n div 10) @ [digit_char (int (n mod 10))])"

declare decimal.simps [simp del]

definition decimal_int :: "int \<Rightarrow> string" where
  "decimal_int i = (if i < 0 then ''-'' @ decimal (nat (- i)) else decimal (nat i))"

lemma length_pad [simp]: "length (pad k n) = k"
  by (induction k arbitrary: n) simp_all

lemma pad_add: "pad (a + b) n = pad a (n div 10 ^ b) @ pad b n"
  by (induction b arbitrary: n) (simp_all add: div_mult2_eq)

lemma pad_mod: "b \<le> c \<Longrightarrow> pad b (n mod 10 ^ c) = pad b n"
proof (induction b arbitrary: n c)
  case (Suc b)
  then obtain c' where c: "c = Suc c'" "b \<le> c'" by (cases c) auto
  have "n mod 10 ^ c div 10 = n div 10 mod 10 ^ c'"
    unfolding c(1) by (simp add: mod_mult2_eq mult.commute)
  moreover have "n mod 10 ^ c mod 10 = n mod 10"
    unfolding c(1) by (simp add: mod_mult2_eq mult.commute)
  ultimately show ?case using Suc.IH [OF c(2)] by simp
qed simp

lemma decimal_pad: "10 ^ k \<le> n \<Longrightarrow> n < 10 ^ Suc k \<Longrightarrow> decimal n = pad (Suc k) n"
proof (induction k arbitrary: n)
  case 0
  then show ?case by (subst decimal.simps) simp
next
  case (Suc k)
  have "10 ^ k \<le> n div 10" "n div 10 < 10 ^ Suc k" using Suc(2,3) by simp_all
  then have "decimal (n div 10) = pad (Suc k) (n div 10)" by (rule Suc.IH)
  moreover have "(1 :: nat) \<le> 10 ^ k" by simp
  then have "\<not> n < 10" using Suc(2) unfolding power_Suc by linarith
  ultimately show ?case by (subst decimal.simps) simp
qed

lemma digit_chars:
  "digit_char 0 = CHR ''0''" "digit_char 1 = CHR ''1''" "digit_char 2 = CHR ''2''" "digit_char 3 = CHR ''3''"
  "digit_char 4 = CHR ''4''" "digit_char 5 = CHR ''5''" "digit_char 6 = CHR ''6''" "digit_char 7 = CHR ''7''"
  "digit_char 8 = CHR ''8''" "digit_char 9 = CHR ''9''"
  by code_simp+

text \<open>The table holds the two digits of every number below 100, in order.\<close>

lemma pad_2: "pad 2 d = [digit_char (int (d div 10 mod 10)), digit_char (int (d mod 10))]"
  by (simp add: numeral_2_eq_2)

lemma lut_concat: "lut = concat (map (pad 2) [0..<100])"
  by (simp add: lut_def upt_conv_Cons pad_2 digit_chars)

lemma segment_concat:
  "\<forall>ys \<in> set yss. length ys = k \<Longrightarrow> i < length yss \<Longrightarrow> segment (k * i) k (concat yss) = yss ! i"
proof (induction yss arbitrary: i)
  case (Cons ys yss)
  then show ?case by (cases i) (simp_all add: segment_def)
qed simp

lemma lut_pairs: "d < 100 \<Longrightarrow> segment (2 * d) 2 lut = pad 2 d"
  using segment_concat [of "map (pad 2) [0..<100]" 2 d] by (simp add: lut_concat)

lemma out2_pad: "d < 100 \<Longrightarrow> out2 (int d) p = Some (p @ pad 2 d)"
proof -
  assume d: "d < 100"
  have "nat (2 * int d) = 2 * d" by simp
  with d show ?thesis by (simp add: out2_def lut_pairs)
qed

section \<open>The labels\<close>

text \<open>The subtraction of the digits already written leaves the remainder.\<close>

lemma sub_digits:
  assumes "unat u = v"
  shows "unat (u - word_of_int (int (v div c) * int c) :: u32) = v mod c"
proof -
  have "int v = int (v div c) * int c + int (v mod c)" by (metis div_mult_mod_eq of_nat_add of_nat_mult)
  then have "u = word_of_int (int (v div c) * int c + int (v mod c))"
    using assms by (metis of_int_of_nat_eq of_nat_unat ucast_id)
  then have "u - word_of_int (int (v div c) * int c) = of_nat (v mod c)" by simp
  moreover have "v mod c < 4294967296"
    using assms unat_le_max32 [of u] mod_less_eq_dividend [of v c] by linarith
  ultimately show ?thesis by (simp add: unat32)
qed

lemma uint_div: "unat (u :: u32) = v \<Longrightarrow> uint u div int c = int (v div c)"
  by (simp add: uint_nat zdiv_int)

lemma itoa_2_pad: "unat u = v \<Longrightarrow> v < 100 \<Longrightarrow> itoa_2 u d p = Some (p @ pad 2 v)"
  using out2_pad [of v p] by (auto simp: itoa_2_def uint_nat)

text \<open>From label \<open>2 k + 1\<close> on, with the digits \<open>d\<close> in front already out, and from label \<open>2 k\<close>.\<close>

lemma odd_label:
  fixes u :: u32
  assumes even: "\<And>(u :: u32) v d p. unat u = v \<Longrightarrow> v < c \<Longrightarrow> f u d p = Some (p @ pad k v)"
    and u: "unat u = v" and d: "d = int (v div c)" and c: "0 < c" "c = 10 ^ k"
  shows "do { x \<leftarrow> int_mul d (int c); f (u - word_of_int x) d p } = (if v div c * c < 2147483648 then Some (p @ pad k v) else None)"
proof -
  have m: "int_mul d (int c) = (if v div c * c < 2147483648 then Some (d * int c) else None)"
  proof -
    have "d * int c = int (v div c * c)" by (simp add: d)
    then show ?thesis by (auto simp: int_mul_def simp flip: of_nat_mult)
  qed
  have "f (u - word_of_int (d * int c)) d p = Some (p @ pad k (v mod c))"
    unfolding d using c(1) by (intro even sub_digits [OF u]) simp
  then show ?thesis using c(2) m by (simp add: pad_mod)
qed

lemma even_label:
  fixes u :: u32
  assumes odd: "\<And>(u :: u32) v d p. unat u = v \<Longrightarrow> d = int (v div c) \<Longrightarrow> g u d p = (if v div c * c < 2147483648 then Some (p @ pad k v) else None)"
    and u: "unat u = v" and v: "v < 100 * c" and c: "c = 10 ^ k"
  shows "(let d = uint u div int c in Option.bind (out2 d p) (g u d)) = (if v div c * c < 2147483648 then Some (p @ pad (k + 2) v) else None)"
proof -
  have "v div c < 100" using v by (simp add: less_mult_imp_div_less)
  then have "out2 (int (v div c)) p = Some (p @ pad 2 (v div c))" by (rule out2_pad)
  moreover have "pad (k + 2) v = pad 2 (v div c) @ pad k v"
    using pad_add [of 2 k v] c by (simp add: add.commute)
  ultimately show ?thesis using odd [OF u refl] uint_div [OF u, of c] by simp
qed

lemma itoa_3_pad:
  assumes "unat u = v" and "d = int (v div 100)"
  shows "itoa_3 u d p = (if v div 100 * 100 < 2147483648 then Some (p @ pad 2 v) else None)"
  unfolding itoa_3_def
  by (rule odd_label [of 100 itoa_2 2 u v d p, OF itoa_2_pad assms, unfolded of_nat_numeral])
    simp_all

lemma itoa_4_pad:
  assumes "unat u = v" and "v < 10000"
  shows "itoa_4 u d p = Some (p @ pad 4 v)"
proof -
  have "(let d = uint u div int 100 in Option.bind (out2 d p) (itoa_3 u d)) =
      (if v div 100 * 100 < 2147483648 then Some (p @ pad (2 + 2) v) else None)"
    by (rule even_label [OF itoa_3_pad assms(1)]) (use assms(2) in simp_all)
  moreover have "v div 100 * 100 < 2147483648" using assms(2) div_times_less_eq_dividend [of v 100] by linarith
  ultimately show ?thesis unfolding itoa_4_def by (simp only: of_nat_numeral arith_simps if_True)
qed

lemma itoa_5_pad:
  assumes "unat u = v" and "d = int (v div 10000)"
  shows "itoa_5 u d p = (if v div 10000 * 10000 < 2147483648 then Some (p @ pad 4 v) else None)"
  unfolding itoa_5_def
  by (rule odd_label [of 10000 itoa_4 4 u v d p, OF itoa_4_pad assms, unfolded of_nat_numeral])
    simp_all

lemma itoa_6_pad:
  assumes "unat u = v" and "v < 1000000"
  shows "itoa_6 u d p = Some (p @ pad 6 v)"
proof -
  have "(let d = uint u div int 10000 in Option.bind (out2 d p) (itoa_5 u d)) =
      (if v div 10000 * 10000 < 2147483648 then Some (p @ pad (4 + 2) v) else None)"
    by (rule even_label [OF itoa_5_pad assms(1)]) (use assms(2) in simp_all)
  moreover have "v div 10000 * 10000 < 2147483648" using assms(2) div_times_less_eq_dividend [of v 10000] by linarith
  ultimately show ?thesis unfolding itoa_6_def by (simp only: of_nat_numeral arith_simps if_True)
qed

lemma itoa_7_pad:
  assumes "unat u = v" and "d = int (v div 1000000)"
  shows "itoa_7 u d p = (if v div 1000000 * 1000000 < 2147483648 then Some (p @ pad 6 v) else None)"
  unfolding itoa_7_def
  by (rule odd_label [of 1000000 itoa_6 6 u v d p, OF itoa_6_pad assms, unfolded of_nat_numeral])
    simp_all

lemma itoa_8_pad:
  assumes "unat u = v" and "v < 100000000"
  shows "itoa_8 u d p = Some (p @ pad 8 v)"
proof -
  have "(let d = uint u div int 1000000 in Option.bind (out2 d p) (itoa_7 u d)) =
      (if v div 1000000 * 1000000 < 2147483648 then Some (p @ pad (6 + 2) v) else None)"
    by (rule even_label [OF itoa_7_pad assms(1)]) (use assms(2) in simp_all)
  moreover have "v div 1000000 * 1000000 < 2147483648" using assms(2) div_times_less_eq_dividend [of v 1000000] by linarith
  ultimately show ?thesis unfolding itoa_8_def by (simp only: of_nat_numeral arith_simps if_True)
qed

lemma itoa_9_pad:
  assumes "unat u = v" and "d = int (v div 100000000)"
  shows "itoa_9 u d p = (if v div 100000000 * 100000000 < 2147483648 then Some (p @ pad 8 v) else None)"
  unfolding itoa_9_def
  by (rule odd_label [of 100000000 itoa_8 8 u v d p, OF itoa_8_pad assms, unfolded of_nat_numeral])
    simp_all

lemma itoa_10_pad:
  assumes "unat u = v" and "v < 10000000000"
  shows "itoa_10 u d p = (if v div 100000000 * 100000000 < 2147483648 then Some (p @ pad 10 v) else None)"
proof -
  have "(let d = uint u div int 100000000 in Option.bind (out2 d p) (itoa_9 u d)) =
      (if v div 100000000 * 100000000 < 2147483648 then Some (p @ pad (8 + 2) v) else None)"
    by (rule even_label [OF itoa_9_pad assms(1)]) (use assms(2) in simp_all)
  then show ?thesis unfolding itoa_10_def by (simp only: of_nat_numeral arith_simps)
qed

section \<open>The four conversions\<close>

lemma pad_front: "v < 10 ^ Suc k \<Longrightarrow> [digit_char (int (v div 10 ^ k))] @ pad k v = pad (Suc k) v"
proof -
  assume "v < 10 ^ Suc k"
  then have "v div 10 ^ k < 10" by (simp add: less_mult_imp_div_less mult.commute)
  moreover have "pad (1 + k) v = pad 1 (v div 10 ^ k) @ pad k v" by (rule pad_add)
  ultimately show ?thesis by simp
qed

lemma decimal_split: "10 ^ j \<le> v \<Longrightarrow> decimal v = decimal (v div 10 ^ j) @ pad j v"
proof (induction j arbitrary: v)
  case (Suc j)
  have "(1 :: nat) \<le> 10 ^ j" by simp
  then have "\<not> v < 10" using Suc(2) unfolding power_Suc by linarith
  moreover have "10 ^ j \<le> v div 10" using Suc(2) by simp
  then have "decimal (v div 10) = decimal (v div 10 div 10 ^ j) @ pad j (v div 10)" by (rule Suc.IH)
  ultimately show ?case by (subst decimal.simps) (simp add: div_mult2_eq)
qed simp

lemma digits_eq:
  assumes u: "unat u = v" and c: "c * 10 < 4294967296" "k = of_nat c"
  shows "digits u k d p n =
    (if v < c * 10 then (int (v div c), p @ [digit_char (int (v div c))], n - 1) else (d, p, n))"
proof -
  have "k * 10 = of_nat (c * 10)" using c(2) by simp
  then have "unat (k * 10) = c * 10" using c(1) by (simp only: unat32)
  moreover have "unat k = c" using c by (simp add: unat32)
  ultimately show ?thesis
    using u by (simp add: digits_def out1_def word_less_nat_alt uint_nat unat_div Let_def)
qed

lemma two_digits_more:
  assumes odd: "\<And>d p. d = int (v div c) \<Longrightarrow> g u d p = (if v div c * c < 2147483648 then Some (p @ pad k v) else None)"
    and even: "\<And>d p. v < 100 * c \<Longrightarrow> f u d p = (if v div c * c < 2147483648 then Some (p @ pad (k + 2) v) else None)"
    and c: "c = 10 ^ k" and v: "c \<le> v" "v < 100 * c"
  shows "(if v < c * 10 then g u (int (v div c)) (p @ [digit_char (int (v div c))]) else f u 0 p) =
    (if v div c * c < 2147483648 then Some (p @ decimal v) else None)"
proof (cases "v < c * 10")
  case True
  have "decimal v = pad (Suc k) v" using v(1) True c by (intro decimal_pad) simp_all
  moreover have "[digit_char (int (v div c))] @ pad k v = pad (Suc k) v"
    unfolding c by (rule pad_front) (use True c in simp)
  moreover have "g u (int (v div c)) (p @ [digit_char (int (v div c))]) =
      (if v div c * c < 2147483648 then Some ((p @ [digit_char (int (v div c))]) @ pad k v) else None)" by (rule odd) (rule refl)
  ultimately show ?thesis using True by simp
next
  case False
  have "decimal v = pad (Suc (Suc k)) v" using v False c by (intro decimal_pad) simp_all
  moreover have "k + 2 = Suc (Suc k)" by simp
  ultimately show ?thesis using False even [OF v(2), of 0 p] by (simp only: if_False)
qed

lemma small_product: "v < 2147483648 \<Longrightarrow> v div c * c < (2147483648 :: nat)"
  using div_times_less_eq_dividend [of v c] by linarith

lemma itoa_u32_eq: "itoa_u32 u p = (if unat u < 2200000000 then Some (p @ decimal (unat u)) else None)"
proof -
  define v where "v = unat u"
  have u: "unat u = v" by (simp add: v_def)
  have less: "u < of_nat c \<longleftrightarrow> v < c" if "c < 4294967296" for c
    using that by (simp add: word_less_nat_alt u unat32)
  have ge: "100000000 \<le> u \<longleftrightarrow> 100000000 \<le> v"
    by (simp add: word_le_nat_alt u)
  have bound: "v < 10000000000" using unat_le_max32 [of u] u by simp
  consider (a) "100000000 \<le> v" | (b) "v < 10" | (c) "10 \<le> v" "v < 100" | (d) "100 \<le> v" "v < 10000"
    | (e) "10000 \<le> v" "v < 1000000" | (f) "1000000 \<le> v" "v < 100000000" by linarith
  then have "itoa_u32 u p = (if v < 2200000000 then Some (p @ decimal v) else None)"
  proof cases
    case a
    have top: "v div 100000000 * 100000000 < 2147483648 \<longleftrightarrow> v < 2200000000"
      using div_less_iff_less_mult [of 100000000 v 22] by linarith
    have "itoa_u32 u p = (if v < 100000000 * 10
        then itoa_9 u (int (v div 100000000)) (p @ [digit_char (int (v div 100000000))]) else itoa_10 u 0 p)"
      using a ge
      by (simp add: itoa_u32_def digits_eq [OF u, of 100000000] itoa_def)
    also have "\<dots> = (if v div 100000000 * 100000000 < 2147483648 then Some (p @ decimal v) else None)"
      by (rule two_digits_more [where k = 8]) (use a bound in \<open>simp_all add: itoa_9_pad [OF u] itoa_10_pad [OF u]\<close>)
    finally show ?thesis unfolding top .
  next
    case b
    then have "itoa_u32 u p = Some (p @ [digit_char (int v)])"
      using ge less [of 100]
      by (simp add: itoa_u32_def digits_eq [OF u, of 1] itoa_def)
    with b show ?thesis by (simp add: decimal.simps)
  next
    case c
    then have "itoa_u32 u p = itoa_2 u 0 p"
      using ge less [of 100]
      by (simp add: itoa_u32_def digits_eq [OF u, of 1] itoa_def)
    then have "itoa_u32 u p = Some (p @ pad 2 v)" using itoa_2_pad [OF u] c by simp
    moreover have "decimal v = pad (Suc 1) v" using c by (intro decimal_pad) simp_all
    ultimately show ?thesis using c(2) by (simp add: numeral_2_eq_2)
  next
    case d
    have "itoa_u32 u p = (if v < 100 * 10
        then itoa_3 u (int (v div 100)) (p @ [digit_char (int (v div 100))]) else itoa_4 u 0 p)"
      using d ge less [of 100] less [of 10000]
      by (simp add: itoa_u32_def digits_eq [OF u, of 100] itoa_def)
    also have "\<dots> = (if v div 100 * 100 < 2147483648 then Some (p @ decimal v) else None)"
      by (rule two_digits_more [where k = 2]) (use d small_product [of v 100] in \<open>simp_all add: itoa_3_pad [OF u] itoa_4_pad [OF u]\<close>)
    finally show ?thesis using d small_product [of v 100] by simp
  next
    case e
    have "itoa_u32 u p = (if v < 10000 * 10
        then itoa_5 u (int (v div 10000)) (p @ [digit_char (int (v div 10000))]) else itoa_6 u 0 p)"
      using e ge less [of 100] less [of 10000] less [of 1000000]
      by (simp add: itoa_u32_def digits_eq [OF u, of 10000] itoa_def)
    also have "\<dots> = (if v div 10000 * 10000 < 2147483648 then Some (p @ decimal v) else None)"
      by (rule two_digits_more [where k = 4]) (use e small_product [of v 10000] in \<open>simp_all add: itoa_5_pad [OF u] itoa_6_pad [OF u]\<close>)
    finally show ?thesis using e small_product [of v 10000] by simp
  next
    case f
    have "itoa_u32 u p = (if v < 1000000 * 10
        then itoa_7 u (int (v div 1000000)) (p @ [digit_char (int (v div 1000000))]) else itoa_8 u 0 p)"
      using f ge less [of 100] less [of 10000] less [of 1000000]
      by (simp add: itoa_u32_def digits_eq [OF u, of 1000000] itoa_def)
    also have "\<dots> = (if v div 1000000 * 1000000 < 2147483648 then Some (p @ decimal v) else None)"
      by (rule two_digits_more [where k = 6]) (use f small_product [of v 1000000] in \<open>simp_all add: itoa_7_pad [OF u] itoa_8_pad [OF u]\<close>)
    finally show ?thesis using f small_product [of v 1000000] by simp
  qed
  then show ?thesis by (simp add: v_def)
qed

text \<open>The digits of a 64-bit number that are printed as a 32-bit one.\<close>

fun leading_part :: "nat \<Rightarrow> nat" where
  "leading_part v = (if v < 4294967296 then v else leading_part (v div 1000000000))"

declare leading_part.simps [simp del]

lemma itoa_u64_eq: "itoa_u64 u p = (if leading_part (unat u) < 2200000000 then Some (p @ decimal (unat u)) else None)"
proof (induction u p rule: itoa_u64.induct)
  case (1 u p)
  define v where "v = unat u"
  show ?case
  proof (cases "ucast (ucast u :: u32) = u")
    case True
    then have "unat (ucast u :: u32) = unat u" using unat_ucast_up [of "ucast u"] by simp
    moreover have "leading_part (unat u) = unat u"
      using calculation unat_le_max32 [of "ucast u"] by (subst leading_part.simps) simp
    ultimately show ?thesis using True by (subst itoa_u64.simps) (simp add: Let_def itoa_u32_eq)
  next
    case False
    have u: "u = of_nat v" by (simp add: v_def)
    have big: "4294967296 \<le> v"
    proof (rule ccontr)
      assume "\<not> 4294967296 \<le> v"
      then have "(ucast (of_nat v :: u32) :: u64) = of_nat v" by (intro ucast_of_nat32) simp
      with False show False unfolding u ucast_of_nat64 by blast
    qed
    define r where "r = v mod 1000000000"
    have r: "r < 1000000000" by (simp add: r_def)
    have up: "unat (u div 1000000000) = v div 1000000000" by (simp add: unat_div v_def)
    have up': "u div 1000000000 = of_nat (v div 1000000000)" unfolding up [symmetric] by (simp only: of_nat_unat ucast_id)
    have vr: "v = v div 1000000000 * 1000000000 + r" by (simp add: r_def)
    have "(of_nat v :: u64) = of_nat (v div 1000000000 * 1000000000 + r)" by (simp only: vr [symmetric])
    also have "\<dots> = of_nat (v div 1000000000) * 1000000000 + of_nat r"
      by (simp only: of_nat_add of_nat_mult of_nat_numeral)
    finally have "u - u div 1000000000 * 1000000000 = of_nat r"
      unfolding up' by (simp only: u add_diff_cancel_left')
    then have low: "(ucast (u - u div 1000000000 * 1000000000) :: u32) = of_nat r"
      by (simp add: ucast_of_nat64)
    have ur: "unat (of_nat r :: u32) = r" using r by (simp add: unat32)
    have d: "uint ((of_nat r :: u32) div 100000000) = int (r div 100000000)"
      by (simp add: uint_nat unat_div ur)
    have "itoa (of_nat r) ((p @ decimal (v div 1000000000)) @ [digit_char (int (r div 100000000))])
        (int (r div 100000000)) 9 = Some (((p @ decimal (v div 1000000000)) @ [digit_char (int (r div 100000000))]) @ pad 8 r)"
      unfolding itoa_def using itoa_9_pad [OF ur refl] small_product [of r 100000000] r by simp
    also have "((p @ decimal (v div 1000000000)) @ [digit_char (int (r div 100000000))]) @ pad 8 r =
        p @ decimal (v div 1000000000) @ pad 9 r"
      using pad_front [of r 8] r by simp
    also have "pad 9 r = pad 9 v" unfolding r_def using pad_mod [of 9 9 v] by simp
    also have "decimal (v div 1000000000) @ pad 9 v = decimal v"
      using decimal_split [of 9 v] big by simp
    finally have it: "itoa (of_nat r) ((p @ decimal (v div 1000000000)) @ [digit_char (int (r div 100000000))])
        (int (r div 100000000)) 9 = Some (p @ decimal v)" .
    have "itoa_u64 (u div 1000000000) p =
        (if leading_part (v div 1000000000) < 2200000000 then Some (p @ decimal (v div 1000000000)) else None)"
      using 1 False up by simp
    moreover have "leading_part v = leading_part (v div 1000000000)" using big by (subst leading_part.simps) simp
    ultimately show ?thesis
      using False low d it by (subst itoa_u64.simps) (simp add: Let_def out1_def v_def)
  qed
qed

lemma itoa_32_decimal: "itoa_32 u p = Some (p @ decimal_int (sint u))"
proof (cases "sint u < 0")
  case True
  then have "unat (- u) = nat (- sint u)" "nat (- sint u) \<le> 2147483648" using sint_neg_unat [of u] sint_greater_eq [of u] by simp_all
  then show ?thesis using True by (simp add: itoa_32_def itoa_u32_eq decimal_int_def)
next
  case False
  then have "unat u = nat (sint u)" "nat (sint u) < 2147483648" using sint_nonneg_unat [of u] sint_less [of u] by simp_all
  then show ?thesis using False by (simp add: itoa_32_def itoa_u32_eq decimal_int_def)
qed

lemma itoa_64_eq:
  "itoa_64 w p = (if leading_part (nat \<bar>sint w\<bar>) < 2200000000 then Some (p @ decimal_int (sint w)) else None)"
  using sint_neg_unat [of w] sint_nonneg_unat [of w]
  by (simp add: itoa_64_def itoa_u64_eq decimal_int_def)

lemma leading_part_small: "v < 4294967296 \<Longrightarrow> leading_part v = v"
  by (subst leading_part.simps) simp

section \<open>Properties\<close>

text \<open>
  Claim C17. Whenever the conversions are defined they append the usual decimal notation of their
  argument, and they are defined exactly as far as the product of the first two digits stays
  within an \<open>int\<close>: \<open>itoa_u32\<close> below 2200000000, \<open>itoa_32\<close> for every value, the most negative included,
  \<open>itoa_u64\<close> and \<open>itoa_64\<close> when the digits left after cutting off nine at a time, until 32 bits hold them,
  are below 2200000000. They never read outside the table of digits.
\<close>

theorem itoa_correct:
  "itoa_u32 u p = (if unat u < 2200000000 then Some (p @ decimal (unat u)) else None) \<and>
   itoa_32 u p = Some (p @ decimal_int (sint u)) \<and>
   itoa_u64 w p = (if leading_part (unat w) < 2200000000 then Some (p @ decimal (unat w)) else None) \<and>
   itoa_64 w p = (if leading_part (nat \<bar>sint w\<bar>) < 2200000000 then Some (p @ decimal_int (sint w)) else None)"
  using itoa_u32_eq itoa_32_decimal itoa_u64_eq itoa_64_eq by blast

end
