(* ===== verification/Hashes.thy ===== *)
theory Hashes
  imports Prelude
begin

text \<open>
  The two hash functions of Experiments/memcached: jenkins_hash.c in its little-endian and
  big-endian versions, with the code paths that the alignment of the key selects, and
  murmur3_hash.c. The key is the memory from its address on, a function from offsets to
  bytes; the aligned paths read words and so look at bytes behind the end of the key.
\<close>

type_synonym memory = "nat \<Rightarrow> byte"
type_synonym abc = "u32 \<times> u32 \<times> u32"

section \<open>Mixing\<close>

definition rot :: "u32 \<Rightarrow> nat \<Rightarrow> u32" where
  "rot x k = push_bit k x XOR drop_bit (32 - k) x"

text \<open>One line \<open>x -= y;  x ^= rot(y,k);  y += z\<close> of \<open>mix\<close>, and the six of them.\<close>

definition mix_line :: "nat \<Rightarrow> abc \<Rightarrow> abc" where
  "mix_line k = (\<lambda>(x, y, z). let x = x - y; x = x XOR rot y k; y = y + z in (x, y, z))"

definition mix :: "abc \<Rightarrow> abc" where
  "mix = (\<lambda>(a, b, c).
     let (a, c, b) = mix_line 4 (a, c, b);
         (b, a, c) = mix_line 6 (b, a, c);
         (c, b, a) = mix_line 8 (c, b, a);
         (a, c, b) = mix_line 16 (a, c, b);
         (b, a, c) = mix_line 19 (b, a, c);
         (c, b, a) = mix_line 4 (c, b, a)
     in (a, b, c))"

text \<open>The macro \<open>final\<close>; the hash is the \<open>c\<close> it leaves.\<close>

definition final :: "abc \<Rightarrow> u32" where
  "final = (\<lambda>(a, b, c).
     let c = c XOR b; c = c - rot b 14;
         a = a XOR c; a = a - rot c 11;
         b = b XOR a; b = b - rot a 25;
         c = c XOR b; c = c - rot b 16;
         a = a XOR c; a = a - rot c 4;
         b = b XOR a; b = b - rot a 14;
         c = c XOR b; c = c - rot b 24
     in c)"

section \<open>The little-endian hash\<close>

text \<open>
  The pointers \<open>k\<close> of the three paths point to the byte \<open>p\<close>; \<open>k8\<close>, \<open>k16\<close> and \<open>k32\<close> are
  \<open>k[i]\<close> at the widths of those pointers, as 32-bit numbers.
\<close>

definition k8 :: "memory \<Rightarrow> nat \<Rightarrow> nat \<Rightarrow> u32" where
  "k8 m p i = ucast (m (p + i))"

definition k16 :: "memory \<Rightarrow> nat \<Rightarrow> nat \<Rightarrow> u32" where
  "k16 m p i = ucast (le_word [m (p + 2 * i), m (p + 2 * i + 1)] :: u16)"

definition k32 :: "memory \<Rightarrow> nat \<Rightarrow> nat \<Rightarrow> u32" where
  "k32 m p i = le_word (map m [p + 4 * i..<p + 4 * i + 4])"

text \<open>The bodies of the three loops, up to the call of \<open>mix\<close>.\<close>

definition block32 :: "memory \<Rightarrow> nat \<Rightarrow> abc \<Rightarrow> abc" where
  "block32 m p = (\<lambda>(a, b, c). (a + k32 m p 0, b + k32 m p 1, c + k32 m p 2))"

definition block16 :: "memory \<Rightarrow> nat \<Rightarrow> abc \<Rightarrow> abc" where
  "block16 m p = (\<lambda>(a, b, c).
     (a + (k16 m p 0 + push_bit 16 (k16 m p 1)),
      b + (k16 m p 2 + push_bit 16 (k16 m p 3)),
      c + (k16 m p 4 + push_bit 16 (k16 m p 5))))"

definition block8 :: "memory \<Rightarrow> nat \<Rightarrow> abc \<Rightarrow> abc" where
  "block8 m p = (\<lambda>(a, b, c).
     (a + k8 m p 0 + push_bit 8 (k8 m p 1) + push_bit 16 (k8 m p 2) + push_bit 24 (k8 m p 3),
      b + k8 m p 4 + push_bit 8 (k8 m p 5) + push_bit 16 (k8 m p 6) + push_bit 24 (k8 m p 7),
      c + k8 m p 8 + push_bit 8 (k8 m p 9) + push_bit 16 (k8 m p 10) + push_bit 24 (k8 m p 11)))"

text \<open>\<open>while (length > 12)\<close>: the position and the length that are left, with the state.\<close>

fun hash_loop :: "(nat \<Rightarrow> abc \<Rightarrow> abc) \<Rightarrow> nat \<Rightarrow> nat \<Rightarrow> abc \<Rightarrow> nat \<times> nat \<times> abc" where
  "hash_loop block p len s =
     (if 12 < len then hash_loop block (p + 12) (len - 12) (mix (block p s)) else (p, len, s))"

declare hash_loop.simps [simp del]

text \<open>The \<open>switch\<close> statements on the last block; 0 bytes are handled by the caller.\<close>

definition tail32 :: "memory \<Rightarrow> nat \<Rightarrow> nat \<Rightarrow> abc \<Rightarrow> abc" where
  "tail32 m p len = (\<lambda>(a, b, c).
     if len = 12 then (a + k32 m p 0, b + k32 m p 1, c + k32 m p 2)
     else if len = 11 then (a + k32 m p 0, b + k32 m p 1, c + (k32 m p 2 AND 0xffffff))
     else if len = 10 then (a + k32 m p 0, b + k32 m p 1, c + (k32 m p 2 AND 0xffff))
     else if len = 9 then (a + k32 m p 0, b + k32 m p 1, c + (k32 m p 2 AND 0xff))
     else if len = 8 then (a + k32 m p 0, b + k32 m p 1, c)
     else if len = 7 then (a + k32 m p 0, b + (k32 m p 1 AND 0xffffff), c)
     else if len = 6 then (a + k32 m p 0, b + (k32 m p 1 AND 0xffff), c)
     else if len = 5 then (a + k32 m p 0, b + (k32 m p 1 AND 0xff), c)
     else if len = 4 then (a + k32 m p 0, b, c)
     else if len = 3 then (a + (k32 m p 0 AND 0xffffff), b, c)
     else if len = 2 then (a + (k32 m p 0 AND 0xffff), b, c)
     else if len = 1 then (a + (k32 m p 0 AND 0xff), b, c)
     else (a, b, c))"

text \<open>The same under \<open>VALGRIND\<close>, where no byte behind the key is read.\<close>

definition tail32_valgrind :: "memory \<Rightarrow> nat \<Rightarrow> nat \<Rightarrow> abc \<Rightarrow> abc" where
  "tail32_valgrind m p len = (\<lambda>(a, b, c).
     if len = 12 then (a + k32 m p 0, b + k32 m p 1, c + k32 m p 2)
     else if len \<ge> 8 then
       (let c = (if len = 11 then c + push_bit 16 (k8 m p 10) else c);
            c = (if len \<ge> 10 then c + push_bit 8 (k8 m p 9) else c);
            c = (if len \<ge> 9 then c + k8 m p 8 else c)
        in (a + k32 m p 0, b + k32 m p 1, c))
     else if len \<ge> 4 then
       (let b = (if len = 7 then b + push_bit 16 (k8 m p 6) else b);
            b = (if len \<ge> 6 then b + push_bit 8 (k8 m p 5) else b);
            b = (if len \<ge> 5 then b + k8 m p 4 else b)
        in (a + k32 m p 0, b, c))
     else
       (let a = (if len = 3 then a + push_bit 16 (k8 m p 2) else a);
            a = (if len \<ge> 2 then a + push_bit 8 (k8 m p 1) else a);
            a = (if len \<ge> 1 then a + k8 m p 0 else a)
        in (a, b, c)))"

definition tail16 :: "memory \<Rightarrow> nat \<Rightarrow> nat \<Rightarrow> abc \<Rightarrow> abc" where
  "tail16 m p len = (\<lambda>(a, b, c).
     let w = (\<lambda>i. k16 m p i + push_bit 16 (k16 m p (i + 1)))
     in if len = 12 then (a + w 0, b + w 2, c + w 4)
        else if len = 11 then (a + w 0, b + w 2, c + push_bit 16 (k8 m p 10) + k16 m p 4)
        else if len = 10 then (a + w 0, b + w 2, c + k16 m p 4)
        else if len = 9 then (a + w 0, b + w 2, c + k8 m p 8)
        else if len = 8 then (a + w 0, b + w 2, c)
        else if len = 7 then (a + w 0, b + push_bit 16 (k8 m p 6) + k16 m p 2, c)
        else if len = 6 then (a + w 0, b + k16 m p 2, c)
        else if len = 5 then (a + w 0, b + k8 m p 4, c)
        else if len = 4 then (a + w 0, b, c)
        else if len = 3 then (a + push_bit 16 (k8 m p 2) + k16 m p 0, b, c)
        else if len = 2 then (a + k16 m p 0, b, c)
        else if len = 1 then (a + k8 m p 0, b, c)
        else (a, b, c))"

definition tail8 :: "memory \<Rightarrow> nat \<Rightarrow> nat \<Rightarrow> abc \<Rightarrow> abc" where
  "tail8 m p len = (\<lambda>(a, b, c).
     let c = (if len \<ge> 12 then c + push_bit 24 (k8 m p 11) else c);
         c = (if len \<ge> 11 then c + push_bit 16 (k8 m p 10) else c);
         c = (if len \<ge> 10 then c + push_bit 8 (k8 m p 9) else c);
         c = (if len \<ge> 9 then c + k8 m p 8 else c);
         b = (if len \<ge> 8 then b + push_bit 24 (k8 m p 7) else b);
         b = (if len \<ge> 7 then b + push_bit 16 (k8 m p 6) else b);
         b = (if len \<ge> 6 then b + push_bit 8 (k8 m p 5) else b);
         b = (if len \<ge> 5 then b + k8 m p 4 else b);
         a = (if len \<ge> 4 then a + push_bit 24 (k8 m p 3) else a);
         a = (if len \<ge> 3 then a + push_bit 16 (k8 m p 2) else a);
         a = (if len \<ge> 2 then a + push_bit 8 (k8 m p 1) else a);
         a = (if len \<ge> 1 then a + k8 m p 0 else a)
     in (a, b, c))"

definition hash_path ::
  "(nat \<Rightarrow> abc \<Rightarrow> abc) \<Rightarrow> (nat \<Rightarrow> nat \<Rightarrow> abc \<Rightarrow> abc) \<Rightarrow> nat \<Rightarrow> abc \<Rightarrow> u32" where
  "hash_path block tail len s =
     (case hash_loop block 0 len s of (p, len', (a, b, c)) \<Rightarrow>
        if len' = 0 then c else final (tail p len' (a, b, c)))"

text \<open>\<open>jenkins_hash\<close> of the \<open>length\<close> bytes of \<open>m\<close> at the address \<open>u\<close>.\<close>

definition jenkins_hash :: "u64 \<Rightarrow> memory \<Rightarrow> nat \<Rightarrow> u32" where
  "jenkins_hash u m len =
     (let init = 0xdeadbeef + of_nat len + 0; s = (init, init, init)
      in if u AND 0x3 = 0 then hash_path (block32 m) (tail32 m) len s
         else if u AND 0x1 = 0 then hash_path (block16 m) (tail16 m) len s
         else hash_path (block8 m) (tail8 m) len s)"

definition jenkins_hash_valgrind :: "u64 \<Rightarrow> memory \<Rightarrow> nat \<Rightarrow> u32" where
  "jenkins_hash_valgrind u m len =
     (let init = 0xdeadbeef + of_nat len + 0; s = (init, init, init)
      in if u AND 0x3 = 0 then hash_path (block32 m) (tail32_valgrind m) len s
         else if u AND 0x1 = 0 then hash_path (block16 m) (tail16 m) len s
         else hash_path (block8 m) (tail8 m) len s)"

section \<open>The big-endian hash\<close>

definition k32_be :: "memory \<Rightarrow> nat \<Rightarrow> nat \<Rightarrow> u32" where
  "k32_be m p i = le_word (rev (map m [p + 4 * i..<p + 4 * i + 4]))"

definition block32_be :: "memory \<Rightarrow> nat \<Rightarrow> abc \<Rightarrow> abc" where
  "block32_be m p = (\<lambda>(a, b, c). (a + k32_be m p 0, b + k32_be m p 1, c + k32_be m p 2))"

definition block8_be :: "memory \<Rightarrow> nat \<Rightarrow> abc \<Rightarrow> abc" where
  "block8_be m p = (\<lambda>(a, b, c).
     (a + push_bit 24 (k8 m p 0) + push_bit 16 (k8 m p 1) + push_bit 8 (k8 m p 2) + k8 m p 3,
      b + push_bit 24 (k8 m p 4) + push_bit 16 (k8 m p 5) + push_bit 8 (k8 m p 6) + k8 m p 7,
      c + push_bit 24 (k8 m p 8) + push_bit 16 (k8 m p 9) + push_bit 8 (k8 m p 10) + k8 m p 11))"

definition tail32_be :: "memory \<Rightarrow> nat \<Rightarrow> nat \<Rightarrow> abc \<Rightarrow> abc" where
  "tail32_be m p len = (\<lambda>(a, b, c).
     if len = 12 then (a + k32_be m p 0, b + k32_be m p 1, c + k32_be m p 2)
     else if len = 11 then (a + k32_be m p 0, b + k32_be m p 1, c + (k32_be m p 2 AND 0xffffff00))
     else if len = 10 then (a + k32_be m p 0, b + k32_be m p 1, c + (k32_be m p 2 AND 0xffff0000))
     else if len = 9 then (a + k32_be m p 0, b + k32_be m p 1, c + (k32_be m p 2 AND 0xff000000))
     else if len = 8 then (a + k32_be m p 0, b + k32_be m p 1, c)
     else if len = 7 then (a + k32_be m p 0, b + (k32_be m p 1 AND 0xffffff00), c)
     else if len = 6 then (a + k32_be m p 0, b + (k32_be m p 1 AND 0xffff0000), c)
     else if len = 5 then (a + k32_be m p 0, b + (k32_be m p 1 AND 0xff000000), c)
     else if len = 4 then (a + k32_be m p 0, b, c)
     else if len = 3 then (a + (k32_be m p 0 AND 0xffffff00), b, c)
     else if len = 2 then (a + (k32_be m p 0 AND 0xffff0000), b, c)
     else if len = 1 then (a + (k32_be m p 0 AND 0xff000000), b, c)
     else (a, b, c))"

definition tail8_be :: "memory \<Rightarrow> nat \<Rightarrow> nat \<Rightarrow> abc \<Rightarrow> abc" where
  "tail8_be m p len = (\<lambda>(a, b, c).
     let c = (if len \<ge> 12 then c + k8 m p 11 else c);
         c = (if len \<ge> 11 then c + push_bit 8 (k8 m p 10) else c);
         c = (if len \<ge> 10 then c + push_bit 16 (k8 m p 9) else c);
         c = (if len \<ge> 9 then c + push_bit 24 (k8 m p 8) else c);
         b = (if len \<ge> 8 then b + k8 m p 7 else b);
         b = (if len \<ge> 7 then b + push_bit 8 (k8 m p 6) else b);
         b = (if len \<ge> 6 then b + push_bit 16 (k8 m p 5) else b);
         b = (if len \<ge> 5 then b + push_bit 24 (k8 m p 4) else b);
         a = (if len \<ge> 4 then a + k8 m p 3 else a);
         a = (if len \<ge> 3 then a + push_bit 8 (k8 m p 2) else a);
         a = (if len \<ge> 2 then a + push_bit 16 (k8 m p 1) else a);
         a = (if len \<ge> 1 then a + push_bit 24 (k8 m p 0) else a)
     in (a, b, c))"

definition jenkins_hash_be :: "u64 \<Rightarrow> memory \<Rightarrow> nat \<Rightarrow> u32" where
  "jenkins_hash_be u m len =
     (let init = 0xdeadbeef + of_nat len + 0; s = (init, init, init)
      in if u AND 0x3 = 0 then hash_path (block32_be m) (tail32_be m) len s
         else hash_path (block8_be m) (tail8_be m) len s)"

section \<open>The hash as a function of the key\<close>

text \<open>
  The reference: twelve bytes at a time, each group of four read as a little-endian number,
  missing bytes counting as zero.
\<close>

definition add_words :: "byte list \<Rightarrow> abc \<Rightarrow> abc" where
  "add_words key = (\<lambda>(a, b, c).
     (a + le_word (take 4 key), b + le_word (take 4 (drop 4 key)), c + le_word (take 4 (drop 8 key))))"

function hash_key :: "(byte list \<Rightarrow> abc \<Rightarrow> abc) \<Rightarrow> byte list \<Rightarrow> abc \<Rightarrow> u32" where
  "hash_key add key s =
     (if 12 < length key then hash_key add (drop 12 key) (mix (add key s))
      else if key = [] then snd (snd s)
      else final (add key s))"
  by pat_completeness auto
termination by (relation "measure (\<lambda>(add, key, s). length key)") auto

declare hash_key.simps [simp del]

definition jenkins_ref :: "byte list \<Rightarrow> u32" where
  "jenkins_ref key =
     (let init = 0xdeadbeef + of_nat (length key) in hash_key add_words key (init, init, init))"

text \<open>The big-endian reference: a short group is padded with zero bytes on the right.\<close>

definition be_word :: "byte list \<Rightarrow> u32" where
  "be_word w = le_word (rev (take 4 (w @ [0, 0, 0, 0])))"

definition add_words_be :: "byte list \<Rightarrow> abc \<Rightarrow> abc" where
  "add_words_be key = (\<lambda>(a, b, c).
     (a + be_word (take 4 key), b + be_word (take 4 (drop 4 key)), c + be_word (take 4 (drop 8 key))))"

definition jenkins_ref_be :: "byte list \<Rightarrow> u32" where
  "jenkins_ref_be key =
     (let init = 0xdeadbeef + of_nat (length key) in hash_key add_words_be key (init, init, init))"

lemma le_word_Cons_add: "le_word (b # bs) = (ucast b + push_bit 8 (le_word bs) :: 'a::len word)"
  by (simp, rule disjunctive_add [symmetric])
    (auto simp: bit_push_bit_iff bit_ucast_iff dest: bit_imp_le_length)

lemma le_word_take: "take_bit (8 * n) (le_word bs) = (le_word (take n bs) :: 'a::len word)"
proof (induction bs arbitrary: n)
  case (Cons b bs)
  show ?case
  proof (cases n)
    case (Suc k)
    have "take_bit (8 * Suc k) (le_word (b # bs)) = (ucast b OR push_bit 8 (take_bit (8 * k) (le_word bs)) :: 'a word)"
      by (rule bit_word_eqI)
        (auto simp: bit_take_bit_iff bit_or_iff bit_push_bit_iff bit_ucast_iff dest: bit_imp_le_length)
    with Cons Suc show ?thesis by simp
  qed simp
qed simp

lemma le_word16: "(ucast (le_word [x, y] :: u16) :: u32) = le_word [x, y]"
  by (rule bit_word_eqI)
    (auto simp: bit_ucast_iff bit_or_iff bit_push_bit_iff dest: bit_imp_le_length)

lemma and_masks: "(w :: u32) AND 0xff = take_bit (8 * 1) w" "w AND 0xffff = take_bit (8 * 2) w"
  "w AND 0xffffff = take_bit (8 * 3) w"
  by (simp_all add: take_bit_eq_mask mask_eq_exp_minus_1)

text \<open>The bytes from \<open>p\<close> on, spelled out.\<close>

lemma key_lists:
  "map m [p..<p + 1] = [m p]"
  "map m [p..<p + 2] = [m p, m (p + 1)]"
  "map m [p..<p + 3] = [m p, m (p + 1), m (p + 2)]"
  "map m [p..<p + 4] = [m p, m (p + 1), m (p + 2), m (p + 3)]"
  "map m [p..<p + 5] = [m p, m (p + 1), m (p + 2), m (p + 3), m (p + 4)]"
  "map m [p..<p + 6] = [m p, m (p + 1), m (p + 2), m (p + 3), m (p + 4), m (p + 5)]"
  "map m [p..<p + 7] = [m p, m (p + 1), m (p + 2), m (p + 3), m (p + 4), m (p + 5), m (p + 6)]"
  "map m [p..<p + 8] = [m p, m (p + 1), m (p + 2), m (p + 3), m (p + 4), m (p + 5), m (p + 6), m (p + 7)]"
  "map m [p..<p + 9] = [m p, m (p + 1), m (p + 2), m (p + 3), m (p + 4), m (p + 5), m (p + 6), m (p + 7), m (p + 8)]"
  "map m [p..<p + 10] = [m p, m (p + 1), m (p + 2), m (p + 3), m (p + 4), m (p + 5), m (p + 6), m (p + 7), m (p + 8), m (p + 9)]"
  "map m [p..<p + 11] = [m p, m (p + 1), m (p + 2), m (p + 3), m (p + 4), m (p + 5), m (p + 6), m (p + 7), m (p + 8), m (p + 9), m (p + 10)]"
  "map m [p..<p + 12] = [m p, m (p + 1), m (p + 2), m (p + 3), m (p + 4), m (p + 5), m (p + 6), m (p + 7), m (p + 8), m (p + 9), m (p + 10), m (p + 11)]"
  by (simp_all add: upt_rec eval_nat_numeral)

lemma k32_list:
  "k32 m p 0 = le_word [m p, m (p + 1), m (p + 2), m (p + 3)]"
  "k32 m p (Suc 0) = le_word [m (p + 4), m (p + 5), m (p + 6), m (p + 7)]"
  "k32 m p 2 = le_word [m (p + 8), m (p + 9), m (p + 10), m (p + 11)]"
  by (simp_all add: k32_def upt_rec eval_nat_numeral)

lemma k16_list:
  "k16 m p 0 = le_word [m p, m (p + 1)]"
  "k16 m p (Suc 0) = le_word [m (p + 2), m (p + 3)]"
  "k16 m p 2 = le_word [m (p + 4), m (p + 5)]"
  "k16 m p 3 = le_word [m (p + 6), m (p + 7)]"
  "k16 m p 4 = le_word [m (p + 8), m (p + 9)]"
  "k16 m p 5 = le_word [m (p + 10), m (p + 11)]"
  by (simp_all add: k16_def le_word16 eval_nat_numeral del: le_word.simps)

lemma k8_list: "k8 m p i = le_word [m (p + i)]"
  by (simp add: k8_def)

lemma le_word_masks:
  "(le_word [x, y, z, w] :: u32) AND 0xff = le_word [x]"
  "(le_word [x, y, z, w] :: u32) AND 0xffff = le_word [x, y]"
  "(le_word [x, y, z, w] :: u32) AND 0xffffff = le_word [x, y, z]"
  unfolding and_masks le_word_take by (simp_all del: le_word.simps add: numeral_2_eq_2 numeral_3_eq_3)

lemma le_word_sums:
  "(le_word [x] :: u32) = ucast x"
  "(le_word [x, y] :: u32) = ucast x + push_bit 8 (ucast y)"
  "(le_word [x, y, z] :: u32) = ucast x + push_bit 8 (ucast y) + push_bit 16 (ucast z)"
  "(le_word [x, y, z, w] :: u32) = ucast x + push_bit 8 (ucast y) + push_bit 16 (ucast z) + push_bit 24 (ucast w)"
  by (simp_all only: le_word_Cons_add le_word.simps(1) push_bit_add push_bit_push_bit) (simp_all add: add.assoc)

lemma block32_words: "block32 m p s = add_words (map m [p..<p + 12]) s"
  by (cases s) (simp add: block32_def add_words_def k32_list key_lists add.assoc del: le_word.simps)

lemma block8_words: "block8 m p s = add_words (map m [p..<p + 12]) s"
  by (cases s) (simp add: block8_def add_words_def k8_def key_lists le_word_sums add.assoc del: le_word.simps)

lemma block16_words: "block16 m p s = add_words (map m [p..<p + 12]) s"
  by (cases s)
    (simp add: block16_def add_words_def k16_list key_lists le_word_sums push_bit_add add.assoc del: le_word.simps)

lemma length_cases:
  "1 \<le> (n :: nat) \<Longrightarrow> n \<le> 12 \<Longrightarrow>
   n = 12 \<or> n = 1 \<or> n = 11 \<or> n = 2 \<or> n = 10 \<or> n = 3 \<or> n = 9 \<or> n = 4 \<or> n = 8 \<or> n = 5 \<or> n = 7 \<or> n = 6"
  by arith

text \<open>The four ways to add the last block agree with the reference.\<close>

lemma tail8_words: "1 \<le> n \<Longrightarrow> n \<le> 12 \<Longrightarrow> tail8 m p n s = add_words (map m [p..<p + n]) s"
  by (cases s, drule (1) length_cases, elim disjE)
    (simp_all add: tail8_def add_words_def k8_def key_lists le_word_sums ac_simps Let_def del: le_word.simps(2))

lemma tail16_words: "1 \<le> n \<Longrightarrow> n \<le> 12 \<Longrightarrow> tail16 m p n s = add_words (map m [p..<p + n]) s"
  by (cases s, drule (1) length_cases, elim disjE)
    (simp_all add: tail16_def add_words_def k8_def k16_list key_lists le_word_sums push_bit_add ac_simps Let_def
      del: le_word.simps(2))

lemma tail32_words: "1 \<le> n \<Longrightarrow> n \<le> 12 \<Longrightarrow> tail32 m p n s = add_words (map m [p..<p + n]) s"
  by (cases s, drule (1) length_cases, elim disjE)
    (simp_all add: tail32_def add_words_def k32_list key_lists le_word_masks Let_def add.assoc
      del: le_word.simps(2))

lemma tail32_valgrind_words:
  "1 \<le> n \<Longrightarrow> n \<le> 12 \<Longrightarrow> tail32_valgrind m p n s = add_words (map m [p..<p + n]) s"
  by (cases s, drule (1) length_cases, elim disjE)
    (simp_all add: tail32_valgrind_def add_words_def k8_def k32_list key_lists le_word_sums ac_simps Let_def
      del: le_word.simps(2))

lemma hash_path_ref:
  assumes block: "\<And>p s. block p s = add (map m [p..<p + 12]) s"
    and tail: "\<And>p n s. 1 \<le> n \<Longrightarrow> n \<le> 12 \<Longrightarrow> tail p n s = add (map m [p..<p + n]) s"
    and add: "\<And>xs ys s. length xs = 12 \<Longrightarrow> add (xs @ ys) s = add xs s"
  shows "hash_path block tail len s = hash_key add (map m [0..<len]) s"
proof -
  have "(case hash_loop block p len s of (p', len', (a, b, c)) \<Rightarrow>
        if len' = 0 then c else final (tail p' len' (a, b, c))) = hash_key add (map m [p..<p + len]) s" for p
  proof (induction len arbitrary: p s rule: less_induct)
    case (less len)
    show ?case
    proof (cases "12 < len")
      case True
      have "[p..<p + 12 + (len - 12)] = [p..<p + 12] @ [p + 12..<p + 12 + (len - 12)]"
        by (rule upt_add_eq_append) simp
      then have sp: "map m [p..<p + len] = map m [p..<p + 12] @ map m [p + 12..<p + 12 + (len - 12)]"
        using True by simp
      have d: "drop 12 (map m [p..<p + len]) = map m [p + 12..<p + 12 + (len - 12)]"
        unfolding sp by simp
      have a: "add (map m [p..<p + len]) s = add (map m [p..<p + 12]) s"
        unfolding sp by (simp add: add)
      have "hash_key add (map m [p..<p + len]) s = hash_key add (drop 12 (map m [p..<p + len])) (mix (block p s))"
        unfolding block [of p s] a [symmetric] using True by (subst hash_key.simps) simp
      also have "\<dots> = (case hash_loop block (p + 12) (len - 12) (mix (block p s)) of (p', len', (a, b, c)) \<Rightarrow>
          if len' = 0 then c else final (tail p' len' (a, b, c)))"
        unfolding d using True by (intro less [symmetric]) simp
      finally show ?thesis using True by (subst hash_loop.simps) simp
    next
      case False
      then show ?thesis
        by (subst hash_loop.simps, subst hash_key.simps) (auto simp: tail split: prod.splits)
    qed
  qed
  from this [of 0] show ?thesis by (simp add: hash_path_def)
qed

lemma add_words_prefix: "length xs = 12 \<Longrightarrow> add_words (xs @ ys) s = add_words xs s"
  by (simp add: add_words_def)

lemma add_words_be_prefix: "length xs = 12 \<Longrightarrow> add_words_be (xs @ ys) s = add_words_be xs s"
  by (simp add: add_words_be_def)

lemma jenkins_hash_ref: "jenkins_hash u m len = jenkins_ref (map m [0..<len])"
  unfolding jenkins_hash_def jenkins_ref_def Let_def length_map length_upt
  using hash_path_ref [where add = add_words, OF block32_words tail32_words add_words_prefix]
    hash_path_ref [where add = add_words, OF block16_words tail16_words add_words_prefix]
    hash_path_ref [where add = add_words, OF block8_words tail8_words add_words_prefix]
  by simp

lemma jenkins_hash_valgrind_ref: "jenkins_hash_valgrind u m len = jenkins_ref (map m [0..<len])"
  unfolding jenkins_hash_valgrind_def jenkins_ref_def Let_def length_map length_upt
  using hash_path_ref [where add = add_words, OF block32_words tail32_valgrind_words add_words_prefix]
    hash_path_ref [where add = add_words, OF block16_words tail16_words add_words_prefix]
    hash_path_ref [where add = add_words, OF block8_words tail8_words add_words_prefix]
  by simp

text \<open>The same for the big-endian version.\<close>

lemma k32_be_list:
  "k32_be m p 0 = le_word [m (p + 3), m (p + 2), m (p + 1), m p]"
  "k32_be m p (Suc 0) = le_word [m (p + 7), m (p + 6), m (p + 5), m (p + 4)]"
  "k32_be m p 2 = le_word [m (p + 11), m (p + 10), m (p + 9), m (p + 8)]"
  by (simp_all add: k32_be_def upt_rec eval_nat_numeral)

lemma high_masks: "(0xffffff00 :: u32) = NOT (mask 8)" "(0xffff0000 :: u32) = NOT (mask 16)"
  "(0xff000000 :: u32) = NOT (mask 24)"
  by (simp_all add: mask_eq_exp_minus_1)

lemma be_masks:
  "(le_word [x, y, z, w] :: u32) AND 0xffffff00 = le_word [0, y, z, w]"
  "(le_word [x, y, z, w] :: u32) AND 0xffff0000 = le_word [0, 0, z, w]"
  "(le_word [x, y, z, w] :: u32) AND 0xff000000 = le_word [0, 0, 0, w]"
  unfolding high_masks
  by (rule bit_word_eqI;
      auto simp: bit_and_iff bit_not_iff bit_mask_iff bit_or_iff bit_push_bit_iff bit_ucast_iff
        dest: bit_imp_le_length)+

lemma be_word_eqs:
  "be_word [] = 0" "be_word [x] = le_word [0, 0, 0, x]" "be_word [x, y] = le_word [0, 0, y, x]"
  "be_word [x, y, z] = le_word [0, z, y, x]" "be_word [x, y, z, w] = le_word [w, z, y, x]"
  by (simp_all add: be_word_def eval_nat_numeral)

lemma block32_be_words: "block32_be m p s = add_words_be (map m [p..<p + 12]) s"
  by (cases s) (simp add: block32_be_def add_words_be_def k32_be_list key_lists be_word_eqs add.assoc del: le_word.simps)

lemma block8_be_words: "block8_be m p s = add_words_be (map m [p..<p + 12]) s"
  by (cases s)
    (simp add: block8_be_def add_words_be_def k8_def key_lists be_word_eqs le_word_sums ac_simps del: le_word.simps)

lemma tail32_be_words: "1 \<le> n \<Longrightarrow> n \<le> 12 \<Longrightarrow> tail32_be m p n s = add_words_be (map m [p..<p + n]) s"
  by (cases s, drule (1) length_cases, elim disjE)
    (simp_all add: tail32_be_def add_words_be_def k32_be_list key_lists be_masks be_word_eqs Let_def add.assoc
      del: le_word.simps(2))

lemma tail8_be_words: "1 \<le> n \<Longrightarrow> n \<le> 12 \<Longrightarrow> tail8_be m p n s = add_words_be (map m [p..<p + n]) s"
  by (cases s, drule (1) length_cases, elim disjE)
    (simp_all add: tail8_be_def add_words_be_def k8_def key_lists be_word_eqs le_word_sums ac_simps Let_def
      del: le_word.simps(2))

lemma jenkins_hash_be_ref: "jenkins_hash_be u m len = jenkins_ref_be (map m [0..<len])"
  unfolding jenkins_hash_be_def jenkins_ref_be_def Let_def length_map length_upt
  using hash_path_ref [where add = add_words_be, OF block32_be_words tail32_be_words add_words_be_prefix]
    hash_path_ref [where add = add_words_be, OF block8_be_words tail8_be_words add_words_be_prefix]
  by simp

section \<open>Mixing loses nothing\<close>

text \<open>A line run backwards, and \<open>mix\<close> in reverse.\<close>

definition unmix_line :: "nat \<Rightarrow> abc \<Rightarrow> abc" where
  "unmix_line k = (\<lambda>(x, y, z). let y = y - z; x = x XOR rot y k; x = x + y in (x, y, z))"

definition unmix :: "abc \<Rightarrow> abc" where
  "unmix = (\<lambda>(a, b, c).
     let (c, b, a) = unmix_line 4 (c, b, a);
         (b, a, c) = unmix_line 19 (b, a, c);
         (a, c, b) = unmix_line 16 (a, c, b);
         (c, b, a) = unmix_line 8 (c, b, a);
         (b, a, c) = unmix_line 6 (b, a, c);
         (a, c, b) = unmix_line 4 (a, c, b)
     in (a, b, c))"

lemma unmix_line_mix_line [simp]: "unmix_line k (mix_line k v) = v"
  by (cases v) (simp add: mix_line_def unmix_line_def Let_def xor.assoc)

lemma mix_line_unmix_line [simp]: "mix_line k (unmix_line k v) = v"
  by (cases v) (simp add: mix_line_def unmix_line_def Let_def xor.assoc)

lemma mix_line_eq: "mix_line k v = w \<Longrightarrow> unmix_line k w = v"
  by auto

lemma unmix_line_eq: "unmix_line k v = w \<Longrightarrow> mix_line k w = v"
  by auto

lemma unmix_mix: "unmix (mix v) = v"
  by (cases v) (auto simp: mix_def unmix_def dest!: mix_line_eq split: prod.splits)

lemma mix_unmix: "mix (unmix v) = v"
  by (cases v) (auto simp: mix_def unmix_def dest!: unmix_line_eq split: prod.splits)

section \<open>MurmurHash3\<close>

definition rotl32 :: "u32 \<Rightarrow> nat \<Rightarrow> u32" where
  "rotl32 x r = push_bit r x OR drop_bit (32 - r) x"

text \<open>A block is read in the byte order of the machine.\<close>

definition getblock32 :: "bool \<Rightarrow> memory \<Rightarrow> nat \<Rightarrow> u32" where
  "getblock32 big m p = le_word ((if big then rev else id) (map m [p..<p + 4]))"

definition fmix32 :: "u32 \<Rightarrow> u32" where
  "fmix32 h =
     (let h = h XOR drop_bit 16 h;
          h = h * 0x85ebca6b;
          h = h XOR drop_bit 13 h;
          h = h * 0xc2b2ae35;
          h = h XOR drop_bit 16 h
      in h)"

definition murmur_scramble :: "u32 \<Rightarrow> u32" where
  "murmur_scramble k1 = (let k1 = k1 * 0xcc9e2d51; k1 = rotl32 k1 15; k1 = k1 * 0x1b873593 in k1)"

definition murmur_block :: "u32 \<Rightarrow> u32 \<Rightarrow> u32" where
  "murmur_block h1 k1 =
     (let k1 = murmur_scramble k1; h1 = h1 XOR k1; h1 = rotl32 h1 13; h1 = h1 * 5 + 0xe6546b64 in h1)"

text \<open>\<open>for (int i = -nblocks; i; i++)\<close>; the argument \<open>j\<close> is \<open>-i\<close>.\<close>

fun murmur_body :: "bool \<Rightarrow> memory \<Rightarrow> nat \<Rightarrow> nat \<Rightarrow> u32 \<Rightarrow> u32" where
  "murmur_body big m nblocks 0 h1 = h1"
| "murmur_body big m nblocks (Suc j) h1 =
     murmur_body big m nblocks j (murmur_block h1 (getblock32 big m (4 * (nblocks - Suc j))))"

text \<open>The \<open>switch\<close> on the last bytes falls through from 3 to 1.\<close>

definition murmur_tail :: "memory \<Rightarrow> nat \<Rightarrow> nat \<Rightarrow> u32 \<Rightarrow> u32" where
  "murmur_tail m p n h1 =
     (let k1 = 0;
          k1 = (if n = 3 then k1 XOR push_bit 16 (ucast (m (p + 2))) else k1);
          k1 = (if n \<ge> 2 then k1 XOR push_bit 8 (ucast (m (p + 1))) else k1)
      in if n \<ge> 1 then let k1 = k1 XOR ucast (m p) in h1 XOR murmur_scramble k1 else h1)"

definition MurmurHash3_x86_32 :: "bool \<Rightarrow> memory \<Rightarrow> nat \<Rightarrow> u32" where
  "MurmurHash3_x86_32 big m len =
     (let nblocks = len div 4;
          h1 = murmur_body big m nblocks nblocks 0;
          h1 = murmur_tail m (4 * nblocks) (len mod 4) h1;
          h1 = h1 XOR of_nat len
      in fmix32 h1)"

datatype hashfunc_type = JENKINS_HASH | MURMUR3_HASH

text \<open>
  hash.c: the function that \<open>hash\<close> points to after \<open>hash_init\<close>, on a little-endian machine,
  for a key at the address \<open>u\<close>. memcached.c calls it with one of the two constants of the enumeration,
  so the default case of the switch, which answers -1 and leaves the pointer alone, is not a value here.
\<close>

fun hash_init :: "hashfunc_type \<Rightarrow> u64 \<Rightarrow> memory \<Rightarrow> nat \<Rightarrow> u32" where
  "hash_init JENKINS_HASH u m len = jenkins_hash u m len"
| "hash_init MURMUR3_HASH u m len = MurmurHash3_x86_32 False m len"

text \<open>The hash of a key as a list: whole blocks first, then what is left.\<close>

function murmur_key :: "bool \<Rightarrow> byte list \<Rightarrow> u32 \<Rightarrow> u32" where
  "murmur_key big key h1 =
     (if 4 \<le> length key
      then murmur_key big (drop 4 key) (murmur_block h1 (le_word ((if big then rev else id) (take 4 key))))
      else if key = [] then h1 else h1 XOR murmur_scramble (le_word key))"
  by pat_completeness auto
termination by (relation "measure (\<lambda>(big, key, h1). length key)") auto

declare murmur_key.simps [simp del]

definition murmur_ref :: "bool \<Rightarrow> byte list \<Rightarrow> u32" where
  "murmur_ref big key = fmix32 (murmur_key big key 0 XOR of_nat (length key))"

lemma le_word_xor:
  "(le_word [x] :: u32) = ucast x"
  "(le_word [x, y] :: u32) = push_bit 8 (ucast y) XOR ucast x"
  "(le_word [x, y, z] :: u32) = push_bit 16 (ucast z) XOR push_bit 8 (ucast y) XOR ucast x"
  by (rule bit_word_eqI;
      auto simp: bit_xor_iff bit_or_iff bit_push_bit_iff bit_ucast_iff dest: bit_imp_le_length)+

lemma murmur_tail_key:
  assumes "n < 4"
  shows "murmur_tail m p n h1 = murmur_key big (map m [p..<p + n]) h1"
proof -
  consider "n = 0" | "n = 1" | "n = 2" | "n = 3" using assms by linarith
  then show ?thesis
  proof cases
    case 1
    then show ?thesis by (subst murmur_key.simps) (simp add: murmur_tail_def Let_def)
  next
    case 2
    then show ?thesis
      by (subst murmur_key.simps) (simp add: murmur_tail_def Let_def key_lists le_word_xor del: le_word.simps)
  next
    case 3
    then show ?thesis
      by (subst murmur_key.simps) (simp add: murmur_tail_def Let_def key_lists le_word_xor del: le_word.simps)
  next
    case 4
    then show ?thesis
      by (subst murmur_key.simps) (simp add: murmur_tail_def Let_def key_lists le_word_xor xor.assoc del: le_word.simps)
  qed
qed

lemma murmur_body_key:
  assumes "j \<le> nb" and "r < 4"
  shows "murmur_tail m (4 * nb) r (murmur_body big m nb j h1) =
    murmur_key big (map m [4 * (nb - j)..<4 * nb + r]) h1"
  using assms(1)
proof (induction j arbitrary: h1)
  case 0
  then show ?case using murmur_tail_key [OF assms(2), of m "4 * nb" h1 big] by simp
next
  case (Suc j)
  define p where "p = 4 * (nb - Suc j)"
  have p: "4 * (nb - j) = p + 4" "p + 4 \<le> 4 * nb + r" using Suc(2) by (simp_all add: p_def)
  then have sp: "map m [p..<4 * nb + r] = map m [p..<p + 4] @ map m [p + 4..<4 * nb + r]"
    using upt_add_eq_append [of p "p + 4" "4 * nb + r - (p + 4)"] by simp
  have "murmur_key big (map m [p..<4 * nb + r]) h1 =
      murmur_key big (map m [p + 4..<4 * nb + r]) (murmur_block h1 (getblock32 big m p))"
  proof -
    have "4 \<le> length (map m [p..<4 * nb + r])" using p(2) by simp
    moreover have "take 4 (map m [p..<4 * nb + r]) = map m [p..<p + 4]"
      and "drop 4 (map m [p..<4 * nb + r]) = map m [p + 4..<4 * nb + r]" unfolding sp by simp_all
    ultimately show ?thesis by (subst murmur_key.simps) (simp only: if_True getblock32_def)
  qed
  with Suc p(1) show ?case by (simp add: p_def)
qed

lemma murmur_ref: "MurmurHash3_x86_32 big m len = murmur_ref big (map m [0..<len])"
proof -
  have "4 * (len div 4) + len mod 4 = len" by simp
  then show ?thesis
    using murmur_body_key [of "len div 4" "len div 4" "len mod 4" m big 0]
    by (simp add: MurmurHash3_x86_32_def murmur_ref_def Let_def)
qed

text \<open>The final mix undone: shifts by half or more of the width undo themselves.\<close>

lemma xor_shift_16: "(h XOR drop_bit 16 h) XOR drop_bit 16 (h XOR drop_bit 16 h) = (h :: u32)"
  by (rule bit_word_eqI) (auto simp: bit_xor_iff bit_drop_bit_eq dest: bit_imp_le_length)

lemma xor_shift_13:
  "(h XOR drop_bit 13 h) XOR drop_bit 13 (h XOR drop_bit 13 h) XOR drop_bit 26 (h XOR drop_bit 13 h) = (h :: u32)"
  by (rule bit_word_eqI) (auto simp: bit_xor_iff bit_drop_bit_eq dest: bit_imp_le_length)

definition unfmix32 :: "u32 \<Rightarrow> u32" where
  "unfmix32 h =
     (let h = h XOR drop_bit 16 h;
          h = h * 0x7ed1b41d;
          h = h XOR drop_bit 13 h XOR drop_bit 26 h;
          h = h * 0xa5cb9243;
          h = h XOR drop_bit 16 h
      in h)"

lemma mult_inverses: "(h * 0x85ebca6b) * 0xa5cb9243 = (h :: u32)" "(h * 0xc2b2ae35) * 0x7ed1b41d = (h :: u32)"
proof -
  have "(0x85ebca6b :: u32) * 0xa5cb9243 = 1" and "(0xc2b2ae35 :: u32) * 0x7ed1b41d = 1" by code_simp+
  then show "(h * 0x85ebca6b) * 0xa5cb9243 = h" and "(h * 0xc2b2ae35) * 0x7ed1b41d = h"
    by (simp_all only: mult.assoc mult_1_right)
qed

lemma unfmix32_fmix32: "unfmix32 (fmix32 h) = h"
  unfolding fmix32_def unfmix32_def Let_def xor_shift_16 mult_inverses xor_shift_13 ..

lemma fmix32_inj: "fmix32 h = fmix32 h' \<Longrightarrow> h = h'"
  using unfmix32_fmix32 by metis

section \<open>Properties\<close>

text \<open>
  Claim C18. Every path of \<open>jenkins_hash\<close> computes the same function of the key: whatever the
  alignment of its address, and whatever bytes lie behind its end (which the aligned paths
  read and mask), the hash is that of the reference on the bytes of the key; the same holds
  with the byte-exact tail of the VALGRIND build and, for its own reference, of the
  big-endian version.
\<close>

theorem jenkins_hash_correct:
  "jenkins_hash u m len = jenkins_ref (map m [0..<len]) \<and>
   jenkins_hash_valgrind u m len = jenkins_ref (map m [0..<len]) \<and>
   jenkins_hash_be u m len = jenkins_ref_be (map m [0..<len])"
  using jenkins_hash_ref jenkins_hash_valgrind_ref jenkins_hash_be_ref by simp

text \<open>
  Claim C19. Either hash algorithm that \<open>hash_init\<close> selects gives equal hashes to equal keys,
  wherever they are stored; murmur3 is the fold of its block step over the groups of four
  bytes, in both byte orders.
\<close>

theorem hash_depends_on_key_only:
  assumes "\<forall>i < len. m i = m' i"
  shows "hash_init alg u m len = hash_init alg u' m' len \<and>
    MurmurHash3_x86_32 big m len = murmur_ref big (map m' [0..<len])"
proof -
  have "map m [0..<len] = map m' [0..<len]" using assms by simp
  then show ?thesis
    by (cases alg) (simp_all only: hash_init.simps jenkins_hash_ref murmur_ref simp_thms)
qed

lemma hash_depends_on_key_only_witness:
  "hash_init JENKINS_HASH 4 (\<lambda>i. if i < 5 then 65 else 1) 5 = hash_init JENKINS_HASH 7 (\<lambda>i. 65) 5"
  using hash_depends_on_key_only [of 5 "\<lambda>i. if i < 5 then 65 else 1" "\<lambda>i. 65" JENKINS_HASH 4 7] by simp

text \<open>
  Claim C20. Mixing loses no information, as the comment on \<open>mix\<close> says: \<open>mix\<close> has an inverse on
  all triples of words, and the final mix of murmur3 is injective.
\<close>

theorem mixing_is_reversible:
  "unmix (mix v) = v \<and> mix (unmix v) = v \<and> (fmix32 h = fmix32 h' \<longleftrightarrow> h = h')"
  using unmix_mix mix_unmix fmix32_inj by blast

end
