(* ===== verification/Util.thy ===== *)
theory Util
  imports Itoa
begin

text \<open>
  Experiments/memcached/util.c: the checked string-to-number conversions, URI encoding and
  the 64-bit byte swap. A C string is the list of its characters before the NUL. The
  functions \<open>strtoull\<close>, \<open>strtoll\<close>, \<open>strtoul\<close>, \<open>strtol\<close> of the C library (with 64-bit
  \<open>long\<close>) are modelled for base 10: their value, the rest of the string at \<open>endptr\<close>, and
  whether they report \<open>ERANGE\<close>.
\<close>

section \<open>The conversions of the C library\<close>

definition code :: "char \<Rightarrow> nat" where
  "code c = of_char c"

definition c_isspace :: "char \<Rightarrow> bool" where
  "c_isspace c \<longleftrightarrow> code c = 32 \<or> (9 \<le> code c \<and> code c \<le> 13)"

definition c_isdigit :: "char \<Rightarrow> bool" where
  "c_isdigit c \<longleftrightarrow> 48 \<le> code c \<and> code c \<le> 57"

definition digits_value :: "string \<Rightarrow> nat" where
  "digits_value ds = foldl (\<lambda>n c. 10 * n + (code c - 48)) 0 ds"

datatype scan = NoNumber | Number bool nat string

definition scan_number :: "string \<Rightarrow> scan" where
  "scan_number s =
     (let s1 = dropWhile c_isspace s;
          neg = (s1 \<noteq> [] \<and> hd s1 = CHR ''-'');
          s2 = (if s1 \<noteq> [] \<and> (hd s1 = CHR ''-'' \<or> hd s1 = CHR ''+'') then tl s1 else s1);
          ds = takeWhile c_isdigit s2
      in if ds = [] then NoNumber else Number neg (digits_value ds) (dropWhile c_isdigit s2))"

text \<open>Value, \<open>endptr\<close> (\<open>None\<close> where it equals the string itself), \<open>errno == ERANGE\<close>.\<close>

definition c_strtoull :: "string \<Rightarrow> u64 \<times> string option \<times> bool" where
  "c_strtoull s =
     (case scan_number s of
        NoNumber \<Rightarrow> (0, None, False)
      | Number neg n rest \<Rightarrow>
          if n \<ge> 2 ^ 64 then (- 1, Some rest, True)
          else (if neg then - of_nat n else of_nat n, Some rest, False))"

definition c_strtoll :: "string \<Rightarrow> u64 \<times> string option \<times> bool" where
  "c_strtoll s =
     (case scan_number s of
        NoNumber \<Rightarrow> (0, None, False)
      | Number neg n rest \<Rightarrow>
          if neg then (if n > 2 ^ 63 then (of_nat (2 ^ 63), Some rest, True) else (- of_nat n, Some rest, False))
          else (if n \<ge> 2 ^ 63 then (of_nat (2 ^ 63 - 1), Some rest, True) else (of_nat n, Some rest, False)))"

section \<open>The checked conversions\<close>

text \<open>\<open>xisspace(*endptr) || (*endptr == '\0' && endptr != str)\<close> for \<open>endptr != str\<close>.\<close>

definition ends_token :: "string \<Rightarrow> bool" where
  "ends_token rest \<longleftrightarrow> (case rest of [] \<Rightarrow> True | c # _ \<Rightarrow> c_isspace c)"

text \<open>The results are the return value and \<open>*out\<close>.\<close>

definition safe_strtoull :: "string \<Rightarrow> bool \<times> u64" where
  "safe_strtoull str =
     (case c_strtoull str of (ull, endptr, erange) \<Rightarrow>
        case endptr of
          None \<Rightarrow> (False, 0)
        | Some rest \<Rightarrow>
            if erange then (False, 0)
            else if ends_token rest
            then if sint ull < 0
                 then if CHR ''-'' \<in> set str then (False, 0) else (True, ull)
                 else (True, ull)
            else (False, 0))"

definition safe_strtoll :: "string \<Rightarrow> bool \<times> u64" where
  "safe_strtoll str =
     (case c_strtoll str of (ll, endptr, erange) \<Rightarrow>
        case endptr of
          None \<Rightarrow> (False, 0)
        | Some rest \<Rightarrow>
            if erange then (False, 0)
            else if ends_token rest then (True, ll) else (False, 0))"

text \<open>\<open>*out = l\<close> narrows the 64-bit \<open>l\<close> to 32 bits.\<close>

definition safe_strtoul :: "string \<Rightarrow> bool \<times> u32" where
  "safe_strtoul str =
     (case c_strtoull str of (l, endptr, erange) \<Rightarrow>
        case endptr of
          None \<Rightarrow> (False, 0)
        | Some rest \<Rightarrow>
            if erange then (False, 0)
            else if ends_token rest
            then if sint l < 0
                 then if CHR ''-'' \<in> set str then (False, 0) else (True, ucast l)
                 else (True, ucast l)
            else (False, 0))"

definition safe_strtol :: "string \<Rightarrow> bool \<times> u32" where
  "safe_strtol str =
     (case c_strtoll str of (l, endptr, erange) \<Rightarrow>
        case endptr of
          None \<Rightarrow> (False, 0)
        | Some rest \<Rightarrow>
            if erange then (False, 0)
            else if ends_token rest then (True, ucast l) else (False, 0))"

section \<open>URI encoding\<close>

definition c_isalnum :: "nat \<Rightarrow> bool" where
  "c_isalnum x \<longleftrightarrow> (48 \<le> x \<and> x \<le> 57) \<or> (65 \<le> x \<and> x \<le> 90) \<or> (97 \<le> x \<and> x \<le> 122)"

text \<open>\<open>%02hhX\<close>\<close>

definition hex_digit :: "nat \<Rightarrow> char" where
  "hex_digit d = char_of (if d < 10 then 48 + d else 55 + d)"

text \<open>
  \<open>uriencode_init\<close>: for each byte NULL, or the three characters in \<open>uriencode_str\<close> that
  stand for it.
\<close>

definition uriencode_map :: "nat \<Rightarrow> string option" where
  "uriencode_map x =
     (if c_isalnum x \<or> x = 45 \<or> x = 46 \<or> x = 95 \<or> x = 126 then None
      else Some [CHR ''%'', hex_digit (x div 16), hex_digit (x mod 16)])"

text \<open>\<open>dst[0 .. d - 1]\<close> so far is the argument \<open>acc\<close>; \<open>None\<close> as a result is \<open>false\<close>.\<close>

fun uriencode_loop :: "string \<Rightarrow> nat \<Rightarrow> string \<Rightarrow> string option" where
  "uriencode_loop [] dstlen acc = Some acc"
| "uriencode_loop (c # src) dstlen acc =
     (if length acc + 4 \<ge> dstlen then None
      else case uriencode_map (code c) of
        Some e \<Rightarrow> uriencode_loop src dstlen (acc @ e)
      | None \<Rightarrow> uriencode_loop src dstlen (acc @ [c]))"

definition uriencode :: "string \<Rightarrow> nat \<Rightarrow> string option" where
  "uriencode src dstlen = uriencode_loop src dstlen []"

section \<open>Byte order\<close>

fun swap_loop :: "nat \<Rightarrow> u64 \<Rightarrow> u64 \<Rightarrow> u64" where
  "swap_loop 0 rv inp = rv"
| "swap_loop (Suc i) rv inp = swap_loop i (push_bit 8 rv OR (inp AND 0xff)) (drop_bit 8 inp)"

definition mc_swap64 :: "bool \<Rightarrow> u64 \<Rightarrow> u64" where
  "mc_swap64 little inp = (if little then swap_loop 8 0 inp else inp)"

definition mc_ntohll :: "bool \<Rightarrow> u64 \<Rightarrow> u64" where
  "mc_ntohll little val = mc_swap64 little val"

definition mc_htonll :: "bool \<Rightarrow> u64 \<Rightarrow> u64" where
  "mc_htonll little val = mc_swap64 little val"

section \<open>Reading decimal notation\<close>

lemma code_digit_char: "d < 10 \<Longrightarrow> code (digit_char (int d)) = 48 + d"
proof -
  assume "d < 10"
  moreover have "nat (48 + int d) = 48 + d" by simp
  ultimately show ?thesis by (simp add: code_def digit_char_def)
qed

lemma digits_value_snoc: "digits_value (ds @ [c]) = 10 * digits_value ds + (code c - 48)"
  by (simp add: digits_value_def)

lemma decimal_facts: "digits_value (decimal n) = n \<and> list_all c_isdigit (decimal n) \<and> decimal n \<noteq> []"
proof (induction n rule: decimal.induct)
  case (1 n)
  show ?case
  proof (cases "n < 10")
    case True
    then show ?thesis
      by (subst (1 2 3) decimal.simps) (simp add: digits_value_def code_digit_char c_isdigit_def)
  next
    case False
    have "n mod 10 < 10" by simp
    then have c: "code (digit_char (int (n mod 10))) = 48 + n mod 10" by (rule code_digit_char)
    then have "c_isdigit (digit_char (int (n mod 10)))" using \<open>n mod 10 < 10\<close> by (simp add: c_isdigit_def)
    with 1 False c show ?thesis
      by (subst (1 2 3) decimal.simps) (simp add: digits_value_snoc)
  qed
qed

lemma digit_not: "c_isdigit c \<Longrightarrow> \<not> c_isspace c \<and> c \<noteq> CHR ''-'' \<and> c \<noteq> CHR ''+''"
  by (auto simp: c_isdigit_def c_isspace_def code_def)

lemma scan_decimal:
  assumes "rest = [] \<or> \<not> c_isdigit (hd rest)"
  shows "scan_number (decimal n @ rest) = Number False n rest"
proof -
  obtain c cs where d: "decimal n = c # cs" using decimal_facts [of n] by (cases "decimal n") auto
  then have c: "c_isdigit c" "\<forall>x \<in> set cs. c_isdigit x" using decimal_facts [of n] by (auto simp: list_all_iff)
  have "takeWhile c_isdigit rest = []" "dropWhile c_isdigit rest = rest" using assms by (cases rest; simp)+
  then have "takeWhile c_isdigit (decimal n @ rest) = decimal n" "dropWhile c_isdigit (decimal n @ rest) = rest"
    using c d by (simp_all add: takeWhile_append2 dropWhile_append2)
  moreover have "dropWhile c_isspace (decimal n @ rest) = decimal n @ rest"
    using d digit_not [OF c(1)] by simp
  moreover have "hd (decimal n @ rest) = c" using d by simp
  ultimately show ?thesis
    using digit_not [OF c(1)] decimal_facts [of n] by (simp add: scan_number_def Let_def)
qed

lemma ends_token_not_digit: "ends_token rest \<Longrightarrow> rest = [] \<or> \<not> c_isdigit (hd rest)"
  using digit_not by (cases rest) (auto simp: ends_token_def)

lemma scan_minus_decimal:
  assumes "rest = [] \<or> \<not> c_isdigit (hd rest)"
  shows "scan_number (''-'' @ decimal n @ rest) = Number True n rest"
proof -
  have "takeWhile c_isdigit rest = []" "dropWhile c_isdigit rest = rest" using assms by (cases rest; simp)+
  then have "takeWhile c_isdigit (decimal n @ rest) = decimal n" "dropWhile c_isdigit (decimal n @ rest) = rest"
    using decimal_facts [of n] by (simp_all add: takeWhile_append2 dropWhile_append2 list_all_iff)
  moreover have "\<not> c_isspace (CHR ''-'')" by (simp add: c_isspace_def code_def)
  ultimately show ?thesis using decimal_facts [of n] by (simp add: scan_number_def Let_def)
qed

lemma no_minus: "CHR ''-'' \<notin> set (decimal n)"
  using decimal_facts [of n] digit_not by (auto simp: list_all_iff)

lemma sint_of_nat64: "n < 2 ^ 63 \<Longrightarrow> sint (of_nat n :: u64) = int n"
  by (simp add: signed_of_nat signed_take_bit_int_eq_self)

lemma strtoull_decimal:
  assumes "n < 2 ^ 64" and "ends_token rest"
  shows "c_strtoull (decimal n @ rest) = (of_nat n, Some rest, False)"
  using assms scan_decimal [OF ends_token_not_digit [OF assms(2)], of n] by (simp add: c_strtoull_def)

lemma safe_strtoull_decimal:
  assumes "n < 2 ^ 64" and "ends_token rest" and "n < 2 ^ 63 \<or> CHR ''-'' \<notin> set rest"
  shows "safe_strtoull (decimal n @ rest) = (True, of_nat n)"
  using assms(2,3) sint_of_nat64 [of n] no_minus [of n]
  by (auto simp: safe_strtoull_def strtoull_decimal [OF assms(1,2)])

lemma safe_strtoul_decimal:
  assumes "n < 2 ^ 64" and "ends_token rest" and "n < 2 ^ 63 \<or> CHR ''-'' \<notin> set rest"
  shows "safe_strtoul (decimal n @ rest) = (True, of_nat n)"
  using assms(2,3) sint_of_nat64 [of n] no_minus [of n]
  by (auto simp: safe_strtoul_def strtoull_decimal [OF assms(1,2)] ucast_of_nat64)

lemma strtoll_decimal_int:
  assumes "- (2 ^ 63) \<le> i" and "i < 2 ^ 63" and "ends_token rest"
  shows "c_strtoll (decimal_int i @ rest) = (word_of_int i, Some rest, False)"
proof (cases "i < 0")
  case True
  define n where "n = nat (- i)"
  have "i = - int n" "\<not> n > 2 ^ 63" using True assms(1) by (simp_all add: n_def)
  then show ?thesis
    using True scan_minus_decimal [OF ends_token_not_digit [OF assms(3)], of n]
    by (simp add: c_strtoll_def decimal_int_def n_def [symmetric])
next
  case False
  define n where "n = nat i"
  have "i = int n" "\<not> n \<ge> 2 ^ 63" using False assms(2) by (simp_all add: n_def)
  then show ?thesis
    using False scan_decimal [OF ends_token_not_digit [OF assms(3)], of n]
    by (simp add: c_strtoll_def decimal_int_def n_def [symmetric])
qed

lemma safe_strtoll_decimal_int:
  "- (2 ^ 63) \<le> i \<Longrightarrow> i < 2 ^ 63 \<Longrightarrow> ends_token rest \<Longrightarrow> safe_strtoll (decimal_int i @ rest) = (True, word_of_int i)"
  by (simp add: safe_strtoll_def strtoll_decimal_int)

lemma safe_strtol_decimal_int:
  "- (2 ^ 63) \<le> i \<Longrightarrow> i < 2 ^ 63 \<Longrightarrow> ends_token rest \<Longrightarrow> safe_strtol (decimal_int i @ rest) = (True, word_of_int i)"
  by (simp add: safe_strtol_def strtoll_decimal_int unsigned_of_int word_of_int_eq_iff)

section \<open>Swapping bytes\<close>

lemma le_word_snoc: "le_word (bs @ [b]) = (le_word bs OR push_bit (8 * length bs) (ucast b) :: 'a::len word)"
  by (induction bs) (simp_all add: push_bit_or or.assoc)

lemma swap_loop_bytes: "swap_loop n rv inp = push_bit (8 * n) rv OR le_word (rev (le_bytes n inp))"
proof (induction n arbitrary: rv inp)
  case (Suc n)
  have m: "(0xff :: u64) = mask 8" by (simp add: mask_eq_exp_minus_1)
  have "inp AND 0xff = ucast (ucast inp :: byte)"
    unfolding m by (rule bit_word_eqI) (auto simp: bit_and_iff bit_mask_iff bit_ucast_iff)
  with Suc show ?case by (simp add: le_word_snoc push_bit_or or.assoc or.left_commute or.commute add.commute)
qed simp

lemma mc_swap64_bytes: "le_bytes 8 (mc_swap64 little w) = (if little then rev (le_bytes 8 w) else le_bytes 8 w)"
proof -
  have "le_bytes 8 (le_word (rev (le_bytes 8 w)) :: u64) = rev (le_bytes 8 w)"
    using le_bytes_le_word [of "rev (le_bytes 8 w)", where 'a = 64] by simp
  then show ?thesis by (simp add: mc_swap64_def swap_loop_bytes)
qed

lemma mc_swap64_twice: "mc_swap64 little (mc_swap64 little w) = w"
proof -
  have "le_bytes 8 (mc_swap64 little (mc_swap64 little w)) = le_bytes 8 w"
    by (simp add: mc_swap64_bytes)
  then have "le_word (le_bytes 8 (mc_swap64 little (mc_swap64 little w))) = (le_word (le_bytes 8 w) :: u64)"
    by (rule arg_cong)
  then show ?thesis by (simp add: le_word_le_bytes)
qed

section \<open>Decoding a URI\<close>

definition hex_value :: "char \<Rightarrow> nat" where
  "hex_value c = (if code c < 65 then code c - 48 else code c - 55)"

fun uridecode :: "string \<Rightarrow> string" where
  "uridecode (c # a # b # s) =
     (if c = CHR ''%'' then char_of (16 * hex_value a + hex_value b) # uridecode s
      else c # uridecode (a # b # s))"
| "uridecode s = s"

lemma uridecode_plain: "c \<noteq> CHR ''%'' \<Longrightarrow> uridecode (c # s) = c # uridecode s"
  by (cases s rule: uridecode.cases; cases s) auto

lemma hex_value_digit: "d < 16 \<Longrightarrow> hex_value (hex_digit d) = d"
  by (auto simp: hex_value_def hex_digit_def code_def)

lemma uriencode_map_cases:
  "(uriencode_map (code c) = None \<and> c \<noteq> CHR ''%'') \<or>
   (\<exists>a b. uriencode_map (code c) = Some [CHR ''%'', a, b] \<and> char_of (16 * hex_value a + hex_value b) = c)"
proof (cases "uriencode_map (code c)")
  case None
  then have "code c \<noteq> 37" by (auto simp: uriencode_map_def c_isalnum_def)
  then show ?thesis using None by (auto simp: code_def)
next
  case (Some e)
  have "code c < 256" unfolding code_def by (metis of_char_mod_256 mod_less_divisor zero_less_numeral)
  then have "hex_value (hex_digit (code c div 16)) = code c div 16"
    "hex_value (hex_digit (code c mod 16)) = code c mod 16" by (simp_all add: hex_value_digit)
  then have "char_of (16 * hex_value (hex_digit (code c div 16)) + hex_value (hex_digit (code c mod 16))) = c"
    by (simp add: code_def)
  with Some show ?thesis by (auto simp: uriencode_map_def split: if_splits)
qed

definition uri_enc :: "string \<Rightarrow> string" where
  "uri_enc src = concat (map (\<lambda>c. case uriencode_map (code c) of Some e \<Rightarrow> e | None \<Rightarrow> [c]) src)"

lemma uridecode_enc: "uridecode (uri_enc src) = src"
proof (induction src)
  case (Cons c src)
  consider (plain) "uriencode_map (code c) = None" "c \<noteq> CHR ''%''"
    | (coded) a b where "uriencode_map (code c) = Some [CHR ''%'', a, b]" "char_of (16 * hex_value a + hex_value b) = c"
    using uriencode_map_cases [of c] by auto
  then show ?case
  proof cases
    case plain
    then show ?thesis using Cons by (simp add: uri_enc_def uridecode_plain)
  next
    case coded
    then show ?thesis using Cons by (simp add: uri_enc_def)
  qed
qed (simp add: uri_enc_def)

lemma uriencode_loop_result:
  "uriencode_loop src dstlen acc = Some out \<Longrightarrow> out = acc @ uri_enc src \<and> (src \<noteq> [] \<longrightarrow> length out + 1 < dstlen)"
proof (induction src dstlen acc rule: uriencode_loop.induct)
  case (2 c src dstlen acc)
  define e where "e = (case uriencode_map (code c) of Some e \<Rightarrow> e | None \<Rightarrow> [c])"
  have le: "length e \<le> 3" using uriencode_map_cases [of c] by (auto simp: e_def)
  have room: "\<not> length acc + 4 \<ge> dstlen" and step: "uriencode_loop src dstlen (acc @ e) = Some out"
    using 2(3) by (auto simp: e_def split: if_splits option.splits)
  have "out = (acc @ e) @ uri_enc src \<and> (src \<noteq> [] \<longrightarrow> length out + 1 < dstlen)"
    using 2(1,2) room step by (cases "uriencode_map (code c)") (auto simp: e_def)
  moreover have "src = [] \<Longrightarrow> out = acc @ e" using step by simp
  ultimately show ?case using room le by (auto simp: uri_enc_def e_def)
qed (simp add: uri_enc_def)

text \<open>Only the check before the last character matters: the ones before it ask for less room.\<close>

lemma uriencode_loop_exact:
  "uriencode_loop src dstlen acc =
     (if src = [] \<or> length acc + length (uri_enc (butlast src)) + 4 < dstlen then Some (acc @ uri_enc src) else None)"
proof (induction src dstlen acc rule: uriencode_loop.induct)
  case (2 c src dstlen acc)
  show ?case
    using 2 by (cases "uriencode_map (code c)"; cases src) (auto simp: uri_enc_def)
qed (simp add: uri_enc_def)

lemma length_uri_enc: "length src \<le> length (uri_enc src) \<and> length (uri_enc src) \<le> 3 * length src"
proof (induction src)
  case (Cons c src)
  then show ?case using uriencode_map_cases [of c] by (auto simp: uri_enc_def)
qed (simp add: uri_enc_def)

section \<open>Properties\<close>

text \<open>
  Claim C21. Numbers survive the trip through text: the decimal notation of a number is read
  back by the checked conversion of its type, alone or in front of white space, for
  every value, and what the \<open>itoa\<close> functions print is such a notation whenever they are defined (see
  theory \<open>Itoa\<close>; \<open>itoa_32\<close> always is). The unsigned reader looks for a minus sign in the whole rest of the
  line once a number has its top bit set.
\<close>

theorem numbers_roundtrip:
  assumes "ends_token rest" and "unat w < 2 ^ 63 \<or> CHR ''-'' \<notin> set rest"
  shows "safe_strtoull (decimal (unat w) @ rest) = (True, w) \<and> safe_strtoll (decimal_int (sint w) @ rest) = (True, w) \<and>
    safe_strtol (decimal_int (sint i) @ rest) = (True, i) \<and> safe_strtoul (decimal (unat i) @ rest) = (True, i) \<and>
    itoa_u64 w [] = (if leading_part (unat w) < 2200000000 then Some (decimal (unat w)) else None) \<and>
    itoa_64 w [] = (if leading_part (nat \<bar>sint w\<bar>) < 2200000000 then Some (decimal_int (sint w)) else None) \<and>
    itoa_32 i [] = Some (decimal_int (sint i)) \<and>
    itoa_u32 i [] = (if unat i < 2200000000 then Some (decimal (unat i)) else None)"
proof -
  have w: "unat w < 2 ^ 64" using unat_le_max64 [of w] by simp
  have i: "unat i < 2 ^ 63" using unat_le_max32 [of i] by simp
  have sw: "- (2 ^ 63) \<le> sint w" "sint w < 2 ^ 63" using sint_greater_eq [of w] sint_less [of w] by simp_all
  have si: "- (2 ^ 63) \<le> sint i" "sint i < 2 ^ 63" using sint_greater_eq [of i] sint_less [of i] by simp_all
  show ?thesis
    using safe_strtoull_decimal [OF w assms] safe_strtoll_decimal_int [OF sw assms(1)]
      safe_strtol_decimal_int [OF si assms(1)] safe_strtoul_decimal [of "unat i" rest] assms(1) i
    by (simp add: itoa_u32_eq itoa_u64_eq itoa_32_decimal itoa_64_eq)
qed

lemma numbers_roundtrip_witness:
  "\<exists>s. itoa_32 (- 5) [] = Some s \<and> safe_strtol (s @ '' 1'') = (True, - 5)"
proof -
  have "ends_token '' 1''" by (simp add: ends_token_def c_isspace_def code_def)
  then show ?thesis using numbers_roundtrip [of "'' 1''" 0 "- 5"] by simp
qed

text \<open>
  The 32-bit reader does not check its range: every number below \<open>2^64\<close> is
  accepted, and the caller gets it modulo \<open>2^32\<close>; and a negative number whose complement is
  small is accepted by the unsigned 64-bit reader.
\<close>

theorem strtoul_truncates:
  assumes "n < 2 ^ 64"
  shows "safe_strtoul (decimal n) = (True, of_nat (n mod 2 ^ 32)) \<and>
    (0 < n \<and> n < 2 ^ 63 \<longrightarrow> safe_strtoull (''-'' @ decimal (2 ^ 64 - n)) = (True, of_nat n))"
proof
  have "ends_token []" by (simp add: ends_token_def)
  then show "safe_strtoul (decimal n) = (True, of_nat (n mod 2 ^ 32))"
    using safe_strtoul_decimal [OF assms, of "[]"] by (simp add: word_of_nat_eq_iff take_bit_nat_def)
  show "0 < n \<and> n < 2 ^ 63 \<longrightarrow> safe_strtoull (''-'' @ decimal (2 ^ 64 - n)) = (True, of_nat n)"
  proof
    assume n: "0 < n \<and> n < 2 ^ 63"
    then have lt: "n < 2 ^ 63" by simp
    define m where "m = 2 ^ 64 - n"
    have "scan_number (''-'' @ decimal m) = Number True m []"
      using scan_minus_decimal [of "[]" m] by simp
    moreover have "of_nat (m + n) = (0 :: u64)" using n by (simp add: m_def)
    then have "- of_nat m = (of_nat n :: u64)" by (simp add: add_eq_0_iff)
    moreover have "\<not> m \<ge> 2 ^ 64" using n unfolding m_def by simp linarith
    ultimately show "safe_strtoull (''-'' @ decimal (2 ^ 64 - n)) = (True, of_nat n)"
      using sint_of_nat64 [OF lt] \<open>ends_token []\<close> unfolding m_def [symmetric]
      by (simp add: safe_strtoull_def c_strtoull_def)
  qed
qed

lemma strtoul_truncates_witness:
  "safe_strtoul (decimal 4294967303) = (True, 7) \<and> safe_strtoull (''-'' @ decimal (2 ^ 64 - 4294967303)) = (True, 4294967303)"
  using strtoul_truncates [of 4294967303] by simp

text \<open>
  Claim C22. \<open>uriencode\<close> gives the encoding of its argument exactly if the argument is empty or four
  bytes and one more are left behind the encoding of all characters but the last, whatever that last
  one needs; it refuses otherwise. The encoding decodes to the argument, and where it is given there is
  room for the final NUL behind it.
\<close>

theorem uriencode_decodes:
  "uriencode src dstlen =
     (if src = [] \<or> length (uri_enc (butlast src)) + 4 < dstlen then Some (uri_enc src) else None) \<and>
   uridecode (uri_enc src) = src \<and>
   (\<forall>out. uriencode src dstlen = Some out \<longrightarrow> src \<noteq> [] \<longrightarrow> length out + 1 < dstlen)"
  using uriencode_loop_result [of src dstlen "[]"] uriencode_loop_exact [of src dstlen "[]"]
  by (simp add: uriencode_def uridecode_enc)

lemma uriencode_decodes_witness:
  "uriencode ''a b%'' 20 = Some ''a%20b%25'' \<and> uridecode ''a%20b%25'' = ''a b%'' \<and> uriencode ''a'' 4 = None"
proof -
  have e: "uri_enc ''a b%'' = ''a%20b%25''" "uri_enc ''a b'' = ''a%20b''" "uri_enc [] = []" by code_simp+
  show ?thesis
    using uriencode_decodes [of "''a b%''" 20] uriencode_decodes [of "''a''" 4] by (simp add: e)
qed

end
