(* ===== verification/ObjCache.thy ===== *)
theory ObjCache
  imports Host "HOL-Library.Multiset"
begin

text \<open>
  The object cache of memcached (cache.c): a pool of blocks of one size, kept in an array of
  free blocks that grows by doubling. Without \<open>NDEBUG\<close> (\<open>dbg\<close>) every block carries eight
  bytes of red zone on both sides of the object. The heap is that of theory \<open>Host\<close>; the
  array of free blocks is a field of the record, its cell only records that it is allocated.
  \<open>None\<close> is undefined behaviour.
\<close>

section \<open>The operations of cache.c\<close>

text \<open>A block and an offset inside it.\<close>

type_synonym addr = "nat \<times> nat"

record cache =
  ca_self :: ptr
  ca_name :: ptr
  ca_array :: ptr
  pool :: "addr option list"
  bufsize :: u64
  freetotal :: int
  freecurr :: int
  constructor :: "(addr \<Rightarrow> host \<Rightarrow> int \<times> host) option"
  destructor :: "(addr \<Rightarrow> host \<Rightarrow> host) option"

definition redzone_pattern :: u64 where
  "redzone_pattern = 0xdeadbeefcafebabe"

definition redzone :: "host \<Rightarrow> byte list" where
  "redzone h = repr64 (big_endian h) redzone_pattern"

definition initial_pool_size :: nat where
  "initial_pool_size = 64"

text \<open>The three allocations and the mutex (\<open>mutex_ok\<close>); NULL is the inner \<open>None\<close>.\<close>

definition cache_create ::
  "bool \<Rightarrow> byte list \<Rightarrow> u64 \<Rightarrow> (addr \<Rightarrow> host \<Rightarrow> int \<times> host) option \<Rightarrow> (addr \<Rightarrow> host \<Rightarrow> host) option \<Rightarrow>
   bool \<Rightarrow> host \<Rightarrow> (cache option \<times> host) option" where
  "cache_create dbg nm_text sz ctor dtor mutex_ok h =
     (case halloc (Bytes []) h of (ret, h1) \<Rightarrow>
      case halloc (Bytes nm_text) h1 of (nm, h2) \<Rightarrow>
      case halloc (Bytes []) h2 of (arr, h3) \<Rightarrow>
        if ret = Null \<or> nm = Null \<or> arr = Null \<or> \<not> mutex_ok
        then do { h4 \<leftarrow> hfree ret h3; h5 \<leftarrow> hfree nm h4; h6 \<leftarrow> hfree arr h5; Some (None, h6) }
        else Some (Some \<lparr>ca_self = ret, ca_name = nm, ca_array = arr,
                     pool = replicate initial_pool_size None,
                     bufsize = (if dbg then sz + 2 * 8 else sz),
                     freetotal = int initial_pool_size, freecurr = 0,
                     constructor = ctor, destructor = dtor\<rparr>, h3))"

definition get_object :: "bool \<Rightarrow> addr \<Rightarrow> addr" where
  "get_object dbg p = (if dbg then (fst p, snd p + 8) else p)"

definition free_block :: "addr \<Rightarrow> host \<Rightarrow> host option" where
  "free_block p h = (if snd p = 0 then hfree (Ptr (fst p)) h else None)"

text \<open>\<open>cache->ptr[--cache->freecurr]\<close>\<close>

definition pop_free :: "cache \<Rightarrow> (addr \<times> cache) option" where
  "pop_free c =
     (let i = nat (freecurr c - 1)
      in if i < length (pool c)
         then map_option (\<lambda>p. (p, c\<lparr>freecurr := freecurr c - 1\<rparr>)) (pool c ! i)
         else None)"

function destroy_loop :: "bool \<Rightarrow> cache \<Rightarrow> host \<Rightarrow> (cache \<times> host) option" where
  "destroy_loop dbg c h =
     (if freecurr c > 0
      then do {
        (p, c') \<leftarrow> pop_free c;
        h' \<leftarrow> free_block p (case destructor c of None \<Rightarrow> h | Some d \<Rightarrow> d (get_object dbg p) h);
        destroy_loop dbg c' h' }
      else Some (c, h))"
  by auto

termination
  by (relation "measure (\<lambda>(dbg, c, h). nat (freecurr c))")
    (auto simp: pop_free_def Let_def split: if_splits)

definition cache_destroy :: "bool \<Rightarrow> cache \<Rightarrow> host \<Rightarrow> host option" where
  "cache_destroy dbg c h = do {
     (c', h1) \<leftarrow> destroy_loop dbg c h;
     h2 \<leftarrow> hfree (ca_name c) h1;
     h3 \<leftarrow> hfree (ca_array c) h2;
     hfree (ca_self c) h3 }"

text \<open>\<open>memcpy (ret + cache->bufsize - 2 * 8, \<dots>)\<close> behind the object and \<open>*pre = \<dots>\<close> before it.\<close>

definition set_redzones :: "cache \<Rightarrow> addr \<Rightarrow> host \<Rightarrow> host option" where
  "set_redzones c p h = do {
     h1 \<leftarrow> store_bytes (Ptr (fst p)) (snd p) (redzone h) h;
     if snd p + 8 + unat (bufsize c) < 16 then None
     else store_bytes (Ptr (fst p)) (snd p + 8 + unat (bufsize c) - 16) (redzone h) h1 }"

definition do_cache_alloc :: "bool \<Rightarrow> cache \<Rightarrow> host \<Rightarrow> (addr option \<times> cache \<times> host) option" where
  "do_cache_alloc dbg c h = do {
     (ret, c1, h1) \<leftarrow>
       (if freecurr c > 0
        then do { (p, c') \<leftarrow> pop_free c; Some (Some p, c', h) }
        else case malloc_bytes (bufsize c) h of
          (Ptr a, h') \<Rightarrow>
            (case constructor c of
               None \<Rightarrow> Some (Some (a, 0), c, h')
             | Some f \<Rightarrow>
                 (case f (get_object dbg (a, 0)) h' of (rc, h'') \<Rightarrow>
                    if rc \<noteq> 0
                    then do { h3 \<leftarrow> hfree (Ptr a) h''; Some (None, c, h3) }
                    else Some (Some (a, 0), c, h'')))
        | (_, h') \<Rightarrow> Some (None, c, h'));
     case ret of
       None \<Rightarrow> Some (None, c1, h1)
     | Some p \<Rightarrow>
         if dbg then do { h2 \<leftarrow> set_redzones c p h1; Some (Some (get_object dbg p), c1, h2) }
         else Some (Some p, c1, h1) }"

text \<open>
  The check of the red zones: \<open>Inl e\<close> is \<open>raise (SIGABRT)\<close> with \<open>cache_error = e\<close>, and
  \<open>Inr p\<close> the block.
\<close>

definition check_redzones :: "cache \<Rightarrow> addr \<Rightarrow> host \<Rightarrow> (int + addr) option" where
  "check_redzones c p h =
     (if snd p + unat (bufsize c) < 16 then None
      else do {
        post \<leftarrow> load_bytes h (Ptr (fst p)) (snd p + unat (bufsize c) - 16) 8;
        if post \<noteq> redzone h then Some (Inl 1)
        else if snd p < 8 then None
        else do {
          pre \<leftarrow> load_bytes h (Ptr (fst p)) (snd p - 8) 8;
          if pre \<noteq> redzone h then Some (Inl (- 1))
          else Some (Inr (fst p, snd p - 8)) } })"

text \<open>Storing a block in the array, which \<open>realloc\<close> doubles when it is full.\<close>

definition push_free :: "cache \<Rightarrow> addr \<Rightarrow> cache option" where
  "push_free c p =
     (if 0 \<le> freecurr c \<and> nat (freecurr c) < length (pool c)
      then Some (c\<lparr>pool := (pool c)[nat (freecurr c) := Some p], freecurr := freecurr c + 1\<rparr>)
      else None)"

definition do_cache_free :: "bool \<Rightarrow> cache \<Rightarrow> addr \<Rightarrow> host \<Rightarrow> (int \<times> cache \<times> host) option" where
  "do_cache_free dbg c ptr h = do {
     checked \<leftarrow> (if dbg then check_redzones c ptr h else Some (Inr ptr));
     case checked of
       Inl e \<Rightarrow> Some (e, c, h)
     | Inr p \<Rightarrow>
         if freecurr c < freetotal c
         then do { c' \<leftarrow> push_free c p; Some (0, c', h) }
         else if freetotal c * 2 \<ge> 2 ^ 31 then None
         else case halloc (Bytes []) h of
           (Ptr b, h1) \<Rightarrow> do {
             h2 \<leftarrow> hfree (ca_array c) h1;
             c' \<leftarrow> push_free (c\<lparr>freetotal := freetotal c * 2, ca_array := Ptr b,
                      pool := pool c @ replicate (length (pool c)) None\<rparr>) p;
             Some (0, c', h2) }
         | (_, h1) \<Rightarrow> do {
             h2 \<leftarrow> free_block p (case destructor c of None \<Rightarrow> h1 | Some d \<Rightarrow> d p h1);
             Some (0, c, h2) } }"

text \<open>The locked entry points; the lock is held for the whole operation.\<close>

definition cache_alloc :: "bool \<Rightarrow> cache \<Rightarrow> host \<Rightarrow> (addr option \<times> cache \<times> host) option" where
  "cache_alloc = do_cache_alloc"

definition cache_free :: "bool \<Rightarrow> cache \<Rightarrow> addr \<Rightarrow> host \<Rightarrow> (int \<times> cache \<times> host) option" where
  "cache_free = do_cache_free"

section \<open>What a client relies on\<close>

text \<open>
  A pool hands out objects that are distinct from all objects in use, takes them back, and
  leaves the contents of the objects in use alone. \<open>k\<close> counts the objects taken so far.
\<close>

lemma remove1_nth_distinct: "distinct xs \<Longrightarrow> i < length xs \<Longrightarrow> remove1 (xs ! i) xs = take i xs @ drop (Suc i) xs"
proof -
  assume d: "distinct xs" and i: "i < length xs"
  have "xs ! i \<notin> set (take i xs)" using d i by (auto simp: in_set_conv_nth nth_eq_iff_index_eq)
  then have "remove1 (xs ! i) (take i xs @ xs ! i # drop (Suc i) xs) = take i xs @ drop (Suc i) xs"
    by (simp add: remove1_append)
  then show ?thesis using i by (simp add: id_take_nth_drop [symmetric])
qed

datatype 'd pool_op = TakeObj | GiveObj nat | WriteObj nat 'd

locale object_pool =
  fixes get :: "'s \<Rightarrow> ('o option \<times> 's) option"
    and put :: "'o \<Rightarrow> 's \<Rightarrow> 's option"
    and wr :: "'o \<Rightarrow> 'd \<Rightarrow> 's \<Rightarrow> 's option"
    and rd :: "'o \<Rightarrow> 's \<Rightarrow> 'd option"
    and fits :: "'d \<Rightarrow> 's \<Rightarrow> bool"
    and ok :: "nat \<Rightarrow> 's \<Rightarrow> 'o list \<Rightarrow> bool"
    and limit :: nat
  assumes ok_distinct: "ok k s us \<Longrightarrow> distinct us"
    and get_ok: "ok k s us \<Longrightarrow> k < limit \<Longrightarrow>
      \<exists>r s'. get s = Some (r, s') \<and> ok (Suc k) s' (case r of None \<Rightarrow> us | Some x \<Rightarrow> x # us) \<and>
        (\<forall>x \<in> set us. rd x s' = rd x s) \<and> (\<forall>d. fits d s' = fits d s)"
    and put_ok: "ok k s us \<Longrightarrow> k < limit \<Longrightarrow> x \<in> set us \<Longrightarrow>
      \<exists>s'. put x s = Some s' \<and> ok k s' (remove1 x us) \<and>
        (\<forall>y \<in> set us. y \<noteq> x \<longrightarrow> rd y s' = rd y s) \<and> (\<forall>d. fits d s' = fits d s)"
    and write_ok: "ok k s us \<Longrightarrow> x \<in> set us \<Longrightarrow> fits d s \<Longrightarrow>
      \<exists>s'. wr x d s = Some s' \<and> ok k s' us \<and> rd x s' = Some d \<and>
        (\<forall>y \<in> set us. y \<noteq> x \<longrightarrow> rd y s' = rd y s) \<and> (\<forall>d. fits d s' = fits d s)"

text \<open>
  A session: the objects in use with the contents written to them last. Indexes beyond the
  objects in use are skipped.
\<close>

fun pool_session ::
  "('s \<Rightarrow> ('o option \<times> 's) option) \<Rightarrow> ('o \<Rightarrow> 's \<Rightarrow> 's option) \<Rightarrow> ('o \<Rightarrow> 'd \<Rightarrow> 's \<Rightarrow> 's option) \<Rightarrow>
   'd pool_op list \<Rightarrow> ('o \<times> 'd option) list \<Rightarrow> 's \<Rightarrow> (('o \<times> 'd option) list \<times> 's) option" where
  "pool_session get put wr [] us s = Some (us, s)"
| "pool_session get put wr (TakeObj # ops) us s = do {
     (r, s') \<leftarrow> get s;
     pool_session get put wr ops (case r of None \<Rightarrow> us | Some x \<Rightarrow> (x, None) # us) s' }"
| "pool_session get put wr (GiveObj i # ops) us s =
     (if i < length us
      then do { s' \<leftarrow> put (fst (us ! i)) s; pool_session get put wr ops (take i us @ drop (Suc i) us) s' }
      else pool_session get put wr ops us s)"
| "pool_session get put wr (WriteObj i d # ops) us s =
     (if i < length us
      then do { s' \<leftarrow> wr (fst (us ! i)) d s; pool_session get put wr ops (us[i := (fst (us ! i), Some d)]) s' }
      else pool_session get put wr ops us s)"

fun written :: "'d pool_op \<Rightarrow> 'd list" where
  "written (WriteObj i d) = [d]"
| "written _ = []"

context object_pool
begin

lemma session_step_put:
  assumes "ok k s (map fst us)" "k < limit" "i < length us"
  obtains s' where "put (fst (us ! i)) s = Some s'" "ok k s' (map fst (take i us @ drop (Suc i) us))"
    "\<forall>x \<in> set (take i us @ drop (Suc i) us). rd (fst x) s' = rd (fst x) s" "\<forall>d. fits d s' = fits d s"
proof -
  have d: "distinct (map fst us)" using assms(1) by (rule ok_distinct)
  have x: "fst (us ! i) \<in> set (map fst us)" using assms(3) by simp
  obtain s' where s': "put (fst (us ! i)) s = Some s'" "ok k s' (remove1 (fst (us ! i)) (map fst us))"
    "\<forall>y \<in> set (map fst us). y \<noteq> fst (us ! i) \<longrightarrow> rd y s' = rd y s" "\<forall>d. fits d s' = fits d s"
    using put_ok [OF assms(1,2) x] by blast
  have r: "remove1 (fst (us ! i)) (map fst us) = map fst (take i us @ drop (Suc i) us)"
    using remove1_nth_distinct [OF d, of i] assms(3) by (simp add: take_map drop_map)
  have "x \<in> set us \<and> fst x \<noteq> fst (us ! i)" if "x \<in> set (take i us @ drop (Suc i) us)" for x
  proof -
    have "fst x \<in> set (remove1 (fst (us ! i)) (map fst us))" unfolding r using that by (auto simp: image_iff)
    moreover have "x \<in> set us" using that by (auto dest: in_set_takeD in_set_dropD)
    ultimately show ?thesis using d by (simp add: set_remove1_eq)
  qed
  with s' r that show thesis by (metis (no_types, lifting) image_eqI list.set_map)
qed

lemma session_step_write:
  assumes "ok k s (map fst us)" "i < length us" "fits d s"
    and kept: "\<forall>x \<in> set us. \<forall>e. snd x = Some e \<longrightarrow> rd (fst x) s = Some e"
  obtains s' where "wr (fst (us ! i)) d s = Some s'" "ok k s' (map fst (us[i := (fst (us ! i), Some d)]))"
    "\<forall>x \<in> set (us[i := (fst (us ! i), Some d)]). \<forall>e. snd x = Some e \<longrightarrow> rd (fst x) s' = Some e"
    "\<forall>d. fits d s' = fits d s"
proof -
  have d: "distinct (map fst us)" using assms(1) by (rule ok_distinct)
  have x: "fst (us ! i) \<in> set (map fst us)" using assms(2) by simp
  obtain s' where s': "wr (fst (us ! i)) d s = Some s'" "ok k s' (map fst us)" "rd (fst (us ! i)) s' = Some d"
    "\<forall>y \<in> set (map fst us). y \<noteq> fst (us ! i) \<longrightarrow> rd y s' = rd y s" "\<forall>d. fits d s' = fits d s"
    using write_ok [OF assms(1) x assms(3)] by blast
  have m: "map fst (us[i := (fst (us ! i), Some d)]) = map fst us" by (simp add: map_update list_update_same_conv assms(2))
  have "rd (fst x) s' = Some e" if "x \<in> set (us[i := (fst (us ! i), Some d)])" "snd x = Some e" for x e
  proof -
    note x' = that
    obtain j where j: "j < length us" "x = us[i := (fst (us ! i), Some d)] ! j"
      using x'(1) by (auto simp: in_set_conv_nth)
    show ?thesis
    proof (cases "j = i")
      case True
      then show ?thesis using j x'(2) s'(3) assms(2) by simp
    next
      case False
      then have xj: "x = us ! j" using j by simp
      have "fst (us ! j) \<noteq> fst (us ! i)"
        using d False j(1) assms(2) nth_eq_iff_index_eq [of "map fst us" j i] by simp
      then show ?thesis using s'(4) kept xj j(1) x'(2) by auto
    qed
  qed
  with s' m that show thesis by metis
qed

theorem session_safe:
  assumes "ok k s (map fst us)" and "k + length ops \<le> limit"
    and "\<forall>op \<in> set ops. \<forall>d \<in> set (written op). fits d s"
    and "\<forall>x \<in> set us. \<forall>e. snd x = Some e \<longrightarrow> rd (fst x) s = Some e"
  shows "\<exists>us' s' k'. pool_session get put wr ops us s = Some (us', s') \<and> k' \<le> limit \<and>
    ok k' s' (map fst us') \<and> (\<forall>x \<in> set us'. \<forall>e. snd x = Some e \<longrightarrow> rd (fst x) s' = Some e)"
  using assms
proof (induction ops arbitrary: us s k)
  case Nil
  then show ?case by auto
next
  case (Cons op ops)
  have k: "k < limit" using Cons.prems(2) by simp
  show ?case
  proof (cases op)
    case TakeObj
    obtain r s' where g: "get s = Some (r, s')" "ok (Suc k) s' (case r of None \<Rightarrow> map fst us | Some x \<Rightarrow> x # map fst us)"
      "\<forall>x \<in> set (map fst us). rd x s' = rd x s" "\<forall>d. fits d s' = fits d s"
      using get_ok [OF Cons.prems(1) k] by blast
    let ?us = "case r of None \<Rightarrow> us | Some x \<Rightarrow> (x, None) # us"
    have "ok (Suc k) s' (map fst ?us)" using g(2) by (cases r) simp_all
    moreover have "\<forall>x \<in> set ?us. \<forall>e. snd x = Some e \<longrightarrow> rd (fst x) s' = Some e"
      using Cons.prems(4) g(3) by (cases r) auto
    moreover have "\<forall>op \<in> set ops. \<forall>d \<in> set (written op). fits d s'" using Cons.prems(3) g(4) by simp
    ultimately show ?thesis using Cons.IH [of "Suc k" s' ?us] Cons.prems(2) TakeObj g(1) by simp
  next
    case (GiveObj i)
    show ?thesis
    proof (cases "i < length us")
      case True
      obtain s' where s': "put (fst (us ! i)) s = Some s'" "ok k s' (map fst (take i us @ drop (Suc i) us))"
        "\<forall>x \<in> set (take i us @ drop (Suc i) us). rd (fst x) s' = rd (fst x) s" "\<forall>d. fits d s' = fits d s"
        by (rule session_step_put [OF Cons.prems(1) k True])
      have "\<forall>x \<in> set (take i us @ drop (Suc i) us). \<forall>e. snd x = Some e \<longrightarrow> rd (fst x) s' = Some e"
        using s'(3) Cons.prems(4) by (metis UnE in_set_dropD in_set_takeD set_append)
      then show ?thesis
        using Cons.IH [OF s'(2)] Cons.prems(2,3) s'(1,4) GiveObj True by simp
    qed (use Cons.IH [OF Cons.prems(1)] Cons.prems GiveObj in simp)
  next
    case (WriteObj i d)
    show ?thesis
    proof (cases "i < length us")
      case True
      have f: "fits d s" using Cons.prems(3) WriteObj by simp
      obtain s' where s': "wr (fst (us ! i)) d s = Some s'" "ok k s' (map fst (us[i := (fst (us ! i), Some d)]))"
        "\<forall>x \<in> set (us[i := (fst (us ! i), Some d)]). \<forall>e. snd x = Some e \<longrightarrow> rd (fst x) s' = Some e"
        "\<forall>d. fits d s' = fits d s"
        by (rule session_step_write [OF Cons.prems(1) True f Cons.prems(4)])
      then show ?thesis
        using Cons.IH [OF s'(2)] Cons.prems(2,3) WriteObj True by simp
    qed (use Cons.IH [OF Cons.prems(1)] Cons.prems WriteObj in simp)
  qed
qed

end

section \<open>The invariant of a cache\<close>

text \<open>
  \<open>fs\<close> are the free blocks, \<open>us\<close> the objects in use. The cache owns its blocks and three
  cells of its own; all other cells are as \<open>base\<close> has them.
\<close>

definition block_bytes :: "bool \<Rightarrow> host \<Rightarrow> byte list \<Rightarrow> byte list" where
  "block_bytes dbg h bs = (if dbg then redzone h @ bs @ redzone h else bs)"

definition used_ok :: "bool \<Rightarrow> nat \<Rightarrow> host \<Rightarrow> addr \<Rightarrow> bool" where
  "used_ok dbg n h x \<longleftrightarrow> snd x = (if dbg then 8 else 0) \<and>
     (\<exists>bs. length bs = n \<and> hp_cells h (fst x) = Some (Bytes (block_bytes dbg h bs)))"

definition free_ok :: "bool \<Rightarrow> nat \<Rightarrow> host \<Rightarrow> nat \<Rightarrow> bool" where
  "free_ok dbg n h a \<longleftrightarrow>
     (\<exists>bs. length bs = (if dbg then n + 16 else n) \<and> hp_cells h a = Some (Bytes bs))"

definition own_cells :: "cache \<Rightarrow> nat list \<Rightarrow> bool" where
  "own_cells c os \<longleftrightarrow> (\<exists>a b r. os = [a, b, r] \<and> ca_self c = Ptr a \<and> ca_name c = Ptr b \<and> ca_array c = Ptr r)"

definition heap_of :: "(nat \<Rightarrow> cell option) \<Rightarrow> nat list \<Rightarrow> host \<Rightarrow> bool" where
  "heap_of base own h \<longleftrightarrow> host_ok h \<and> distinct own \<and>
     (\<forall>a \<in> set own. hp_cells h a \<noteq> None \<and> base a = None) \<and>
     (\<forall>a. a \<notin> set own \<longrightarrow> hp_cells h a = base a)"

definition pool_ok :: "bool \<Rightarrow> nat \<Rightarrow> nat \<Rightarrow> cache \<Rightarrow> nat list \<Rightarrow> bool" where
  "pool_ok dbg n k c fs \<longleftrightarrow>
     unat (bufsize c) = (if dbg then n + 16 else n) \<and> constructor c = None \<and> destructor c = None \<and>
     0 < freetotal c \<and> length (pool c) = nat (freetotal c) \<and> freetotal c \<le> max 64 (2 * int k) \<and>
     freecurr c = int (length fs) \<and> length fs \<le> length (pool c) \<and>
     take (length fs) (pool c) = map (\<lambda>a. Some (a, 0)) fs"

definition cache_ok ::
  "bool \<Rightarrow> nat \<Rightarrow> (nat \<Rightarrow> cell option) \<Rightarrow> nat \<Rightarrow> cache \<times> host \<Rightarrow> addr list \<Rightarrow> bool" where
  "cache_ok dbg n base k s us \<longleftrightarrow> (\<exists>fs os. pool_ok dbg n k (fst s) fs \<and> length fs + length us \<le> k \<and>
     own_cells (fst s) os \<and> heap_of base (fs @ map fst us @ os) (snd s) \<and>
     (\<forall>a \<in> set fs. free_ok dbg n (snd s) a) \<and> (\<forall>x \<in> set us. used_ok dbg n (snd s) x))"

lemma length_redzone [simp]: "length (redzone h) = 8"
  by (simp add: redzone_def)

lemma redzone_cong: "big_endian h = big_endian h' \<Longrightarrow> redzone h = redzone h'"
  by (simp add: redzone_def)

lemma length_block_bytes [simp]: "length (block_bytes dbg h bs) = (if dbg then length bs + 16 else length bs)"
  by (simp add: block_bytes_def)

lemma set_redzones_block:
  assumes "hp_cells h a = Some (Bytes bs)" "length bs = n + 16" "unat (bufsize c) = n + 16"
  shows "set_redzones c (a, 0) h = Some (put_cell (Ptr a) (Bytes (redzone h @ segment 8 n bs @ redzone h)) h)"
proof -
  have b: "redzone (put_cell (Ptr a) x h) = redzone h" for x by (simp add: redzone_def)
  have l: "splice_at (n + 8) (redzone h) (splice_at 0 (redzone h) bs) = redzone h @ segment 8 n bs @ redzone h"
    using assms(2) by (simp add: splice_at_def segment_def min_def add.commute)
  show ?thesis
    using assms b l by (simp add: set_redzones_def store_bytes_def ac_simps)
qed

lemma check_redzones_block:
  assumes "hp_cells h a = Some (Bytes (block_bytes True h bs))" "unat (bufsize c) = length bs + 16"
  shows "check_redzones c (a, 8) h = Some (Inr (a, 0))"
  using assms by (simp add: check_redzones_def load_bytes_def segment_def block_bytes_def ac_simps)

lemma cache_okI:
  "pool_ok dbg n k c fs \<Longrightarrow> length fs + length us \<le> k \<Longrightarrow> own_cells c os \<Longrightarrow>
   heap_of base (fs @ map fst us @ os) h \<Longrightarrow> \<forall>a \<in> set fs. free_ok dbg n h a \<Longrightarrow>
   \<forall>x \<in> set us. used_ok dbg n h x \<Longrightarrow> cache_ok dbg n base k (c, h) us"
  by (auto simp: cache_ok_def)

lemma heap_of_perm: "heap_of base own h \<Longrightarrow> mset own' = mset own \<Longrightarrow> heap_of base own' h"
  using mset_eq_imp_distinct_iff [of own' own] mset_eq_setD [of own' own] by (simp add: heap_of_def)

lemma heap_of_put: "heap_of base own h \<Longrightarrow> a \<in> set own \<Longrightarrow> heap_of base own (put_cell (Ptr a) c h)"
  unfolding heap_of_def by (auto simp: host_ok_def)

lemma heap_of_halloc:
  assumes "heap_of base own h" "halloc c h = (Ptr a, h')"
  shows "heap_of base (a # own) h'" "a \<notin> set own" "hp_cells h' = (hp_cells h)(a \<mapsto> c)" "big_endian h' = big_endian h"
proof -
  have a: "a = hp_next h" "hp_cells h' = (hp_cells h)(a \<mapsto> c)" "big_endian h' = big_endian h"
    using assms(2) by (auto elim: halloc_cases)
  have f: "hp_cells h a = None" using assms(1) a(1) by (simp add: heap_of_def host_ok_def)
  then have n: "a \<notin> set own" "base a = None" using assms(1) unfolding heap_of_def by (blast, metis)
  then show "heap_of base (a # own) h'" "a \<notin> set own"
    using assms a(2) halloc_ok [of h c "Ptr a" h'] by (auto simp: heap_of_def)
  show "hp_cells h' = (hp_cells h)(a \<mapsto> c)" "big_endian h' = big_endian h" by (rule a)+
qed

lemma heap_of_null:
  assumes "heap_of base own h" "halloc c h = (Null, h')"
  shows "heap_of base own h'" "hp_cells h' = hp_cells h" "big_endian h' = big_endian h"
proof -
  show c: "hp_cells h' = hp_cells h" "big_endian h' = big_endian h" using assms(2) by (auto elim: halloc_cases)
  show "heap_of base own h'" using assms(1) halloc_ok [OF _ assms(2)] c by (simp add: heap_of_def)
qed

lemma heap_of_hfree:
  assumes "heap_of base own h" "a \<in> set own"
  shows "\<exists>h'. hfree (Ptr a) h = Some h' \<and> heap_of base (remove1 a own) h' \<and>
    hp_cells h' = (hp_cells h)(a := None) \<and> big_endian h' = big_endian h"
proof -
  obtain x where x: "hp_cells h a = Some x" using assms by (auto simp: heap_of_def)
  have "heap_of base (remove1 a own) (h\<lparr>hp_cells := (hp_cells h)(a := None)\<rparr>)"
    using assms by (auto simp: heap_of_def host_ok_def)
  then show ?thesis using x by simp
qed

lemma used_ok_cong: "hp_cells h' (fst x) = hp_cells h (fst x) \<Longrightarrow> big_endian h' = big_endian h \<Longrightarrow> used_ok dbg n h' x = used_ok dbg n h x"
  by (simp add: used_ok_def block_bytes_def redzone_def)

lemma free_ok_cong: "hp_cells h' a = hp_cells h a \<Longrightarrow> free_ok dbg n h' a = free_ok dbg n h a"
  by (simp add: free_ok_def)

lemma used_ok_frame:
  "\<forall>x \<in> A. used_ok dbg n h x \<Longrightarrow> \<forall>x \<in> A. hp_cells h' (fst x) = hp_cells h (fst x) \<Longrightarrow>
   big_endian h' = big_endian h \<Longrightarrow> \<forall>x \<in> A. used_ok dbg n h' x"
  using used_ok_cong by blast

lemma free_ok_frame:
  "\<forall>a \<in> A. free_ok dbg n h a \<Longrightarrow> \<forall>a \<in> A. hp_cells h' a = hp_cells h a \<Longrightarrow> \<forall>a \<in> A. free_ok dbg n h' a"
  using free_ok_cong by blast

lemma used_free: "used_ok dbg n h x \<Longrightarrow> free_ok dbg n h (fst x)"
  by (auto simp: used_ok_def free_ok_def intro!: exI [of _ "block_bytes dbg h _"])

lemma pop_free_ok:
  assumes "pool_ok dbg n k c (gs @ [a])"
  shows "pop_free c = Some ((a, 0), c\<lparr>freecurr := int (length gs)\<rparr>)" "pool_ok dbg n k (c\<lparr>freecurr := int (length gs)\<rparr>) gs"
proof -
  have l: "length gs < length (pool c)" and t: "take (Suc (length gs)) (pool c) = map (\<lambda>a. Some (a, 0)) gs @ [Some (a, 0)]"
    using assms by (simp_all add: pool_ok_def)
  have n: "pool c ! length gs = Some (a, 0)"
  proof -
    have "take (Suc (length gs)) (pool c) ! length gs = Some (a, 0)" unfolding t by (simp add: nth_append)
    then show ?thesis by simp
  qed
  show "pop_free c = Some ((a, 0), c\<lparr>freecurr := int (length gs)\<rparr>)"
    using assms l n by (simp add: pop_free_def pool_ok_def)
  have "take (length gs) (take (Suc (length gs)) (pool c)) = map (\<lambda>a. Some (a, 0)) gs" unfolding t by simp
  then show "pool_ok dbg n k (c\<lparr>freecurr := int (length gs)\<rparr>) gs"
    using assms l by (simp add: pool_ok_def min_def)
qed

lemma push_free_ok:
  assumes "pool_ok dbg n k c fs" "length fs < length (pool c)"
  shows "\<exists>c'. push_free c (a, 0) = Some c' \<and> pool_ok dbg n k c' (fs @ [a]) \<and> ca_self c' = ca_self c \<and>
    ca_name c' = ca_name c \<and> ca_array c' = ca_array c"
proof -
  have "take (Suc (length fs)) ((pool c)[length fs := Some (a, 0)]) = map (\<lambda>a. Some (a, 0)) fs @ [Some (a, 0)]"
    using assms by (simp add: pool_ok_def take_Suc_conv_app_nth)
  then show ?thesis using assms by (simp add: push_free_def pool_ok_def)
qed

lemma pool_ok_mono: "pool_ok dbg n k c fs \<Longrightarrow> pool_ok dbg n (Suc k) c fs"
  by (auto simp: pool_ok_def)

lemma set_redzones_freecurr [simp]: "set_redzones (c\<lparr>freecurr := i\<rparr>) p = set_redzones c p"
  by (simp add: fun_eq_iff set_redzones_def cong: if_cong)

lemma mark_object:
  assumes "heap_of base own h" "a \<in> set own" "free_ok dbg n h a" "unat (bufsize c) = (if dbg then n + 16 else n)"
  shows "\<exists>h'. (if dbg then do { h2 \<leftarrow> set_redzones c (a, 0) h; Some (Some (get_object dbg (a, 0)), c, h2) }
      else Some (Some (a, 0), c, h)) = Some (Some (a, if dbg then 8 else 0), c, h') \<and>
    heap_of base own h' \<and> used_ok dbg n h' (a, if dbg then 8 else 0) \<and>
    (\<forall>b. b \<noteq> a \<longrightarrow> hp_cells h' b = hp_cells h b) \<and> big_endian h' = big_endian h"
proof (cases dbg)
  case True
  obtain bs where bs: "length bs = n + 16" "hp_cells h a = Some (Bytes bs)"
    using assms(3) True by (auto simp: free_ok_def)
  let ?h = "put_cell (Ptr a) (Bytes (redzone h @ segment 8 n bs @ redzone h)) h"
  have r: "set_redzones c (a, 0) h = Some ?h"
    using bs assms(4) True by (intro set_redzones_block) simp_all
  have "used_ok dbg n ?h (a, 8)"
    using bs True by (auto simp: used_ok_def block_bytes_def redzone_def intro!: exI [of _ "segment 8 n bs"])
  then show ?thesis
    using r True heap_of_put [OF assms(1,2)] by (intro exI [of _ ?h]) (simp add: get_object_def)
next
  case False
  then show ?thesis using assms(1,3) by (auto simp: used_ok_def free_ok_def block_bytes_def)
qed

lemma do_cache_alloc_ok:
  assumes "cache_ok dbg n base k (c, h) us"
  shows "\<exists>r c' h'. do_cache_alloc dbg c h = Some (r, c', h') \<and>
    cache_ok dbg n base (Suc k) (c', h') (case r of None \<Rightarrow> us | Some x \<Rightarrow> x # us) \<and>
    (\<forall>x \<in> set us. hp_cells h' (fst x) = hp_cells h (fst x)) \<and> bufsize c' = bufsize c"
proof -
  let ?off = "if dbg then 8 else 0 :: nat"
  obtain fs os where fs: "pool_ok dbg n k c fs" "length fs + length us \<le> k" "own_cells c os"
    "heap_of base (fs @ map fst us @ os) h" "\<forall>a \<in> set fs. free_ok dbg n h a" "\<forall>x \<in> set us. used_ok dbg n h x"
    using assms by (auto simp: cache_ok_def)
  have b: "unat (bufsize c) = (if dbg then n + 16 else n)" "constructor c = None" "freecurr c = int (length fs)"
    using fs(1) by (simp_all add: pool_ok_def)
  show ?thesis
  proof (cases fs rule: rev_cases)
    case (snoc gs a)
    let ?c = "c\<lparr>freecurr := int (length gs)\<rparr>"
    note pop = pop_free_ok [OF fs(1) [unfolded snoc]]
    have dist: "a \<notin> set gs" "a \<notin> fst ` set us" using fs(4) snoc by (auto simp: heap_of_def)
    obtain h' where h': "(if dbg then do { h2 \<leftarrow> set_redzones ?c (a, 0) h; Some (Some (get_object dbg (a, 0)), ?c, h2) }
        else Some (Some (a, 0), ?c, h)) = Some (Some (a, ?off), ?c, h')"
      "heap_of base (fs @ map fst us @ os) h'" "used_ok dbg n h' (a, ?off)"
      "\<forall>b. b \<noteq> a \<longrightarrow> hp_cells h' b = hp_cells h b" "big_endian h' = big_endian h"
      using mark_object [OF fs(4), of a dbg n ?c] fs(5) snoc b(1) by auto
    have r: "do_cache_alloc dbg c h = Some (Some (a, ?off), ?c, h')"
      using b(3) snoc pop(1) h'(1) by (simp add: do_cache_alloc_def split: if_splits)
    have "heap_of base (gs @ map fst ((a, ?off) # us) @ os) h'"
      using h'(2) snoc by (elim heap_of_perm) simp
    moreover have same: "\<forall>x \<in> set us. hp_cells h' (fst x) = hp_cells h (fst x)" using h'(4) dist(2) by auto
    moreover have "\<forall>x \<in> set us. used_ok dbg n h' x" using fs(6) same used_ok_cong h'(5) by blast
    moreover have "\<forall>b \<in> set gs. free_ok dbg n h' b"
      using fs(5) snoc h'(4) dist(1) free_ok_cong by (metis UnI1 set_append)
    moreover have "own_cells ?c os" using fs(3) by (simp add: own_cells_def)
    ultimately have "cache_ok dbg n base (Suc k) (?c, h') ((a, ?off) # us)"
      using pool_ok_mono [OF pop(2)] fs(2) h'(3) snoc by (intro cache_okI [of _ _ _ _ gs _ os]) auto
    then show ?thesis using r same by auto
  next
    case Nil
    obtain p h1 where m: "malloc_bytes (bufsize c) h = (p, h1)" by fastforce
    then have hm: "halloc (Bytes (junk_bytes h (unat (bufsize c)))) h = (p, h1)" by (simp add: malloc_bytes_def)
    show ?thesis
    proof (cases p)
      case Null
      note q = heap_of_null [OF fs(4) hm [unfolded Null]]
      have "cache_ok dbg n base (Suc k) (c, h1) us"
        using fs q used_ok_cong [of h1 _ h] free_ok_cong [of h1 _ h] pool_ok_mono [OF fs(1)]
        by (intro cache_okI [of _ _ _ _ fs _ os]) simp_all
      then show ?thesis using m b Nil Null q by (simp add: do_cache_alloc_def)
    next
      case (Ptr a)
      note q = heap_of_halloc [OF fs(4) hm [unfolded Ptr]]
      have f: "free_ok dbg n h1 a" using q(3) b(1) by (simp add: free_ok_def)
      obtain h' where h': "(if dbg then do { h2 \<leftarrow> set_redzones c (a, 0) h1; Some (Some (get_object dbg (a, 0)), c, h2) }
          else Some (Some (a, 0), c, h1)) = Some (Some (a, ?off), c, h')"
        "heap_of base (a # fs @ map fst us @ os) h'" "used_ok dbg n h' (a, ?off)"
        "\<forall>b. b \<noteq> a \<longrightarrow> hp_cells h' b = hp_cells h1 b" "big_endian h' = big_endian h1"
        using mark_object [OF q(1), of a dbg n c] f b(1) by auto
      have r: "do_cache_alloc dbg c h = Some (Some (a, ?off), c, h')"
        using b Nil m Ptr h'(1) by (simp add: do_cache_alloc_def split: if_splits)
      have e: "\<forall>x \<in> set us. hp_cells h' (fst x) = hp_cells h (fst x)" using h'(4) q(2,3) by auto
      then have "\<forall>x \<in> set us. used_ok dbg n h' x" using fs(6) used_ok_cong h'(5) q(4) by metis
      then have "cache_ok dbg n base (Suc k) (c, h') ((a, ?off) # us)"
        using fs h' Nil pool_ok_mono [OF fs(1)] by (intro cache_okI [of _ _ _ _ "[]" _ os]) auto
      then show ?thesis using r e by auto
    next
      case Wild
      then show ?thesis using halloc_not_Wild [OF hm] by simp
    qed
  qed
qed

lemma mset_fst_remove1:
  "x \<in> set us \<Longrightarrow> mset (map fst us) = add_mset (fst x) (mset (map fst (remove1 x us)))"
  by (induction us) auto

lemma length_Suc_remove1: "x \<in> set us \<Longrightarrow> length us = Suc (length (remove1 x us))"
  by (induction us) auto

lemma do_cache_free_ok:
  assumes "cache_ok dbg n base k (c, h) us" "k < 2 ^ 29" "x \<in> set us"
  shows "\<exists>c' h'. do_cache_free dbg c x h = Some (0, c', h') \<and>
    cache_ok dbg n base k (c', h') (remove1 x us) \<and>
    (\<forall>y \<in> set us. y \<noteq> x \<longrightarrow> hp_cells h' (fst y) = hp_cells h (fst y)) \<and> bufsize c' = bufsize c"
proof -
  obtain fs os where fs: "pool_ok dbg n k c fs" "length fs + length us \<le> k" "own_cells c os"
    "heap_of base (fs @ map fst us @ os) h" "\<forall>a \<in> set fs. free_ok dbg n h a" "\<forall>x \<in> set us. used_ok dbg n h x"
    using assms(1) by (auto simp: cache_ok_def)
  obtain a where x: "x = (a, if dbg then 8 else 0)" using fs(6) assms(3) by (cases x) (auto simp: used_ok_def)
  have chk: "(if dbg then check_redzones c x h else Some (Inr x)) = Some (Inr (a, 0))"
    using fs(1,6) assms(3) x check_redzones_block [of h a]
    by (cases dbg) (auto simp: used_ok_def pool_ok_def)
  have m: "mset (map fst us) = add_mset a (mset (map fst (remove1 x us)))"
    using mset_fst_remove1 [OF assms(3)] x by simp
  have l: "length fs + length (remove1 x us) < k"
    using fs(2) length_Suc_remove1 [OF assms(3)] by simp
  have dj: "distinct (fs @ map fst us @ os)" using fs(4) by (simp add: heap_of_def)
  have ain: "a \<in> set (map fst us)" using imageI [OF assms(3), of fst] x by simp
  have ne: "fst y \<noteq> a" if "y \<in> set us" "y \<noteq> x" for y
  proof -
    have "distinct (map fst us)" using fs(4) by (simp add: heap_of_def)
    then show ?thesis using that assms(3) x by (metis distinct_map fst_conv inj_on_eq_iff)
  qed
  have fa: "free_ok dbg n h a" using used_free fs(6) assms(3) x by fastforce
  have us': "\<forall>y \<in> set (remove1 x us). used_ok dbg n h y" using fs(6) set_remove1_subset by fast
  have dus: "y \<noteq> x" if "y \<in> set (remove1 x us)" for y
  proof -
    have "distinct us" using fs(4) by (auto simp: heap_of_def distinct_map)
    then show ?thesis using that by simp
  qed
  have put: "cache_ok dbg n base k (c', h') (remove1 x us)"
    if "pool_ok dbg n k c' (fs @ [a])" "own_cells c' os'" "heap_of base (fs @ [a] @ map fst (remove1 x us) @ os') h'"
      "\<forall>b \<in> insert a (set fs \<union> fst ` set us). hp_cells h' b = hp_cells h b" "big_endian h' = big_endian h" for c' h' os'
  proof (rule cache_okI [OF that(1) _ that(2)])
    show "\<forall>y \<in> set (remove1 x us). used_ok dbg n h' y"
      by (rule used_ok_frame [OF us' _ that(5)]) (use that(4) set_remove1_subset in fastforce)
    show "\<forall>b \<in> set (fs @ [a]). free_ok dbg n h' b"
      by (rule free_ok_frame [of _ _ _ h]) (use that(4) fs(5) fa in auto)
  qed (use that l in simp_all)
  have fc: "freecurr c = int (length fs)" "length (pool c) = nat (freetotal c)" "length fs \<le> length (pool c)"
    "destructor c = None" "freetotal c \<le> max 64 (2 * int k)" "0 < freetotal c"
    using fs(1) by (simp_all add: pool_ok_def)
  show ?thesis
  proof (cases "freecurr c < freetotal c")
    case True
    then obtain c' where c': "push_free c (a, 0) = Some c'" "pool_ok dbg n k c' (fs @ [a])"
      "ca_self c' = ca_self c" "ca_name c' = ca_name c" "ca_array c' = ca_array c"
      using push_free_ok [OF fs(1)] fc by fastforce
    have "heap_of base (fs @ [a] @ map fst (remove1 x us) @ os) h"
      by (rule heap_of_perm [OF fs(4)]) (use m in simp)
    then have "cache_ok dbg n base k (c', h) (remove1 x us)"
      using c' fs(3) by (intro put [of _ os]) (simp_all add: own_cells_def)
    moreover have "bufsize c' = bufsize c" using c'(1) by (auto simp: push_free_def split: if_splits)
    ultimately show ?thesis using chk c'(1) True by (simp add: do_cache_free_def)
  next
    case False
    then have full: "freetotal c = int (length fs)" "length (pool c) = length fs" using fc by simp_all
    have small: "freetotal c * 2 < 2 ^ 31" using fc(5) assms(2) by simp
    obtain s nm r where os: "os = [s, nm, r]" "ca_self c = Ptr s" "ca_name c = Ptr nm" "ca_array c = Ptr r"
      using fs(3) by (auto simp: own_cells_def)
    obtain p h1 where p: "halloc (Bytes []) h = (p, h1)" by fastforce
    show ?thesis
    proof (cases p)
      case Null
      note q = heap_of_null [OF fs(4) p [unfolded Null]]
      obtain h2 where h2: "hfree (Ptr a) h1 = Some h2" "heap_of base (remove1 a (fs @ map fst us @ os)) h2"
        "hp_cells h2 = (hp_cells h1)(a := None)" "big_endian h2 = big_endian h1"
        using heap_of_hfree [OF q(1), of a] ain by auto
      have e: "\<forall>b. b \<noteq> a \<longrightarrow> hp_cells h2 b = hp_cells h b" "big_endian h2 = big_endian h" using h2 q by simp_all
      have nfs: "a \<notin> set fs" using dj ain by auto
      have hp: "heap_of base (fs @ map fst (remove1 x us) @ os) h2"
        by (rule heap_of_perm [OF h2(2)]) (use m in simp)
      have "cache_ok dbg n base k (c, h2) (remove1 x us)"
      proof (rule cache_okI [OF fs(1) _ fs(3)])
        have "hp_cells h2 (fst y) = hp_cells h (fst y)" if "y \<in> set (remove1 x us)" for y
          using e(1) ne [of y] dus [OF that] that set_remove1_subset [of x us] by blast
        then show "\<forall>y \<in> set (remove1 x us). used_ok dbg n h2 y"
          by (intro used_ok_frame [OF us' _ e(2)]) blast
        show "\<forall>b \<in> set fs. free_ok dbg n h2 b" using e(1) nfs by (intro free_ok_frame [OF fs(5)]) metis
      qed (use l hp in simp_all)
      then show ?thesis
        using chk False small p Null h2(1) fc(4) e ne by (simp add: do_cache_free_def free_block_def)
    next
      case (Ptr b)
      note q = heap_of_halloc [OF fs(4) p [unfolded Ptr]]
      obtain h2 where h2: "hfree (Ptr r) h1 = Some h2" "heap_of base (remove1 r (b # fs @ map fst us @ os)) h2"
        "hp_cells h2 = (hp_cells h1)(r := None)" "big_endian h2 = big_endian h1"
        using heap_of_hfree [OF q(1), of r] os by auto
      let ?c = "c\<lparr>freetotal := freetotal c * 2, ca_array := Ptr b, pool := pool c @ replicate (length (pool c)) None\<rparr>"
      have pk: "pool_ok dbg n k ?c fs" using fs(1) full l by (auto simp: pool_ok_def)
      have "length fs < length (pool ?c)" using fs(1) full by (simp add: pool_ok_def)
      then obtain c' where c': "push_free ?c (a, 0) = Some c'" "pool_ok dbg n k c' (fs @ [a])"
        "ca_self c' = ca_self c" "ca_name c' = ca_name c" "ca_array c' = Ptr b"
        using push_free_ok [OF pk] by fastforce
      have rin: "r \<notin> set fs" "r \<notin> fst ` set us" "r \<noteq> b" "a \<noteq> r" "a \<noteq> b" "b \<notin> set fs" "b \<notin> fst ` set us"
        using dj ain q(2) os by auto
      have "heap_of base (fs @ [a] @ map fst (remove1 x us) @ [s, nm, b]) h2"
        by (rule heap_of_perm [OF h2(2)]) (use m os in simp)
      then have "cache_ok dbg n base k (c', h2) (remove1 x us)"
        using c' os rin h2 q by (intro put [of _ "[s, nm, b]"]) (auto simp: own_cells_def)
      moreover have "\<forall>y \<in> set us. hp_cells h2 (fst y) = hp_cells h (fst y)" using h2(3) q(3) rin by auto
      moreover have "bufsize c' = bufsize c" using c'(1) by (auto simp: push_free_def split: if_splits)
      ultimately show ?thesis using chk False small p Ptr h2(1) os c'(1) by (simp add: do_cache_free_def)
    next
      case Wild
      then show ?thesis using halloc_not_Wild [OF p] by simp
    qed
  qed
qed

section \<open>The cache as a pool of objects\<close>

definition cache_get :: "bool \<Rightarrow> cache \<times> host \<Rightarrow> (addr option \<times> cache \<times> host) option" where
  "cache_get dbg s = cache_alloc dbg (fst s) (snd s)"

definition cache_put :: "bool \<Rightarrow> addr \<Rightarrow> cache \<times> host \<Rightarrow> (cache \<times> host) option" where
  "cache_put dbg x s = do { (e, s') \<leftarrow> cache_free dbg (fst s) x (snd s); if e = 0 then Some s' else None }"

definition obj_write :: "addr \<Rightarrow> byte list \<Rightarrow> cache \<times> host \<Rightarrow> (cache \<times> host) option" where
  "obj_write x d s = map_option (Pair (fst s)) (store_bytes (Ptr (fst x)) (snd x) d (snd s))"

definition obj_read :: "nat \<Rightarrow> addr \<Rightarrow> cache \<times> host \<Rightarrow> byte list option" where
  "obj_read n x s = load_bytes (snd s) (Ptr (fst x)) (snd x) n"

lemma obj_read_cong: "hp_cells h' (fst x) = hp_cells h (fst x) \<Longrightarrow> obj_read n x (c', h') = obj_read n x (c, h)"
  by (simp add: obj_read_def load_bytes_def)

lemma obj_write_ok:
  assumes "cache_ok dbg n base k (c, h) us" "x \<in> set us" "length d = n"
  shows "\<exists>h'. obj_write x d (c, h) = Some (c, h') \<and> cache_ok dbg n base k (c, h') us \<and>
    obj_read n x (c, h') = Some d \<and> (\<forall>y \<in> set us. y \<noteq> x \<longrightarrow> obj_read n y (c, h') = obj_read n y (c, h))"
proof -
  obtain fs os where fs: "pool_ok dbg n k c fs" "length fs + length us \<le> k" "own_cells c os"
    "heap_of base (fs @ map fst us @ os) h" "\<forall>a \<in> set fs. free_ok dbg n h a" "\<forall>x \<in> set us. used_ok dbg n h x"
    using assms(1) by (auto simp: cache_ok_def)
  obtain bs where bs: "length bs = n" "hp_cells h (fst x) = Some (Bytes (block_bytes dbg h bs))"
    "snd x = (if dbg then 8 else 0)" using fs(6) assms(2) by (auto simp: used_ok_def)
  let ?h = "put_cell (Ptr (fst x)) (Bytes (block_bytes dbg h d)) h"
  have w: "obj_write x d (c, h) = Some (c, ?h)"
    using bs assms(3) by (cases dbg) (simp_all add: obj_write_def store_bytes_def block_bytes_def splice_at_def)
  have r: "obj_read n x (c, ?h) = Some d"
    using bs assms(3) by (cases dbg) (simp_all add: obj_read_def load_bytes_def block_bytes_def segment_def)
  have xin: "fst x \<in> set (map fst us)" using imageI [OF assms(2), of fst] by simp
  have dj: "distinct (fs @ map fst us @ os)" using fs(4) by (simp add: heap_of_def)
  have ne: "fst y \<noteq> fst x" if "y \<in> set us" "y \<noteq> x" for y
    using dj that assms(2) by (auto simp: distinct_map inj_on_def)
  have others: "hp_cells ?h (fst y) = hp_cells h (fst y)" if "y \<in> set us" "y \<noteq> x" for y
    using ne [OF that] by simp
  have ux: "used_ok dbg n ?h x" using bs(3) assms(3) by (auto simp: used_ok_def block_bytes_def redzone_def)
  have "cache_ok dbg n base k (c, ?h) us"
  proof (rule cache_okI [OF fs(1,2,3)])
    show "\<forall>b \<in> set fs. free_ok dbg n ?h b"
      using dj xin by (intro free_ok_frame [OF fs(5)]) auto
    show "\<forall>y \<in> set us. used_ok dbg n ?h y"
      using used_ok_cong [OF others] fs(6) ux by (metis put_cell_frame(4))
  qed (use heap_of_put [OF fs(4)] xin in simp)
  then show ?thesis using w r obj_read_cong [OF others] by blast
qed

interpretation cache_pool: object_pool "cache_get dbg" "cache_put dbg" obj_write "obj_read n" "\<lambda>d s. length d = n"
  "cache_ok dbg n base" "2 ^ 29" for dbg n base
proof unfold_locales
  fix k s us
  assume ok: "cache_ok dbg n base k s us"
  obtain c h where s: "s = (c, h)" by fastforce
  show "distinct us" using ok by (auto simp: cache_ok_def heap_of_def distinct_map)
  show "\<exists>r s'. cache_get dbg s = Some (r, s') \<and> cache_ok dbg n base (Suc k) s' (case r of None \<Rightarrow> us | Some x \<Rightarrow> x # us) \<and>
      (\<forall>x \<in> set us. obj_read n x s' = obj_read n x s) \<and> (\<forall>d :: byte list. (length d = n) = (length d = n))"
    using do_cache_alloc_ok [OF ok [unfolded s]] obj_read_cong
    unfolding s cache_get_def cache_alloc_def fst_conv snd_conv by blast
next
  fix k s us x
  assume ok: "cache_ok dbg n base k s us" and k: "k < 2 ^ 29" and x: "x \<in> set us"
  obtain c h where s: "s = (c, h)" by fastforce
  obtain c' h' where f: "do_cache_free dbg c x h = Some (0, c', h')" "cache_ok dbg n base k (c', h') (remove1 x us)"
    "\<forall>y \<in> set us. y \<noteq> x \<longrightarrow> hp_cells h' (fst y) = hp_cells h (fst y)"
    using do_cache_free_ok [OF ok [unfolded s] k x] by blast
  have "cache_put dbg x s = Some (c', h')" using f(1) by (simp add: cache_put_def cache_free_def s)
  then show "\<exists>s'. cache_put dbg x s = Some s' \<and> cache_ok dbg n base k s' (remove1 x us) \<and>
      (\<forall>y \<in> set us. y \<noteq> x \<longrightarrow> obj_read n y s' = obj_read n y s) \<and> (\<forall>d :: byte list. (length d = n) = (length d = n))"
    using f(2,3) obj_read_cong unfolding s by blast
next
  fix k s us x and d :: "byte list"
  assume ok: "cache_ok dbg n base k s us" and x: "x \<in> set us" and d: "length d = n"
  obtain c h where s: "s = (c, h)" by fastforce
  show "\<exists>s'. obj_write x d s = Some s' \<and> cache_ok dbg n base k s' us \<and> obj_read n x s' = Some d \<and>
      (\<forall>y \<in> set us. y \<noteq> x \<longrightarrow> obj_read n y s' = obj_read n y s) \<and> (\<forall>d :: byte list. (length d = n) = (length d = n))"
    using obj_write_ok [OF ok [unfolded s] x d] unfolding s by blast
qed

section \<open>Creation and destruction\<close>

lemma cache_create_ok:
  assumes "cache_create dbg t sz None None m h = Some (Some c, h')" "host_ok h" "unat sz + 16 < 2 ^ 64"
  shows "cache_ok dbg (unat sz) (hp_cells h) 0 (c, h') []"
proof -
  obtain p q r h1 h2 where al: "halloc (Bytes []) h = (p, h1)" "halloc (Bytes t) h1 = (q, h2)"
    "halloc (Bytes []) h2 = (r, h')" and nn: "p \<noteq> Null" "q \<noteq> Null" "r \<noteq> Null"
    and c: "c = \<lparr>ca_self = p, ca_name = q, ca_array = r, pool = replicate initial_pool_size None,
       bufsize = (if dbg then sz + 2 * 8 else sz), freetotal = int initial_pool_size, freecurr = 0,
       constructor = None, destructor = None\<rparr>"
    using assms(1) by (auto simp: cache_create_def Let_def split: prod.splits if_splits option.splits bind_splits)
  obtain a b e where abe: "p = Ptr a" "q = Ptr b" "r = Ptr e"
    using nn halloc_not_Wild [OF al(1)] halloc_not_Wild [OF al(2)] halloc_not_Wild [OF al(3)]
    by (metis ptr.exhaust)
  have "heap_of (hp_cells h) [] h" using assms(2) by (simp add: heap_of_def)
  note 1 = heap_of_halloc(1) [OF this al(1) [unfolded abe]]
  note 2 = heap_of_halloc(1) [OF 1 al(2) [unfolded abe]]
  note 3 = heap_of_halloc(1) [OF 2 al(3) [unfolded abe]]
  have "heap_of (hp_cells h) ([] @ map fst [] @ [a, b, e]) h'"
    by (rule heap_of_perm [OF 3]) simp
  moreover have "unat (sz + 16) = unat sz + 16" using assms(3) by (subst unat_add_nowrap) simp_all
  then have "pool_ok dbg (unat sz) 0 c []" by (simp add: pool_ok_def c initial_pool_size_def)
  moreover have "own_cells c [a, b, e]" by (simp add: own_cells_def c abe)
  ultimately show ?thesis by (intro cache_okI [of _ _ _ _ "[]" _ "[a, b, e]"]) simp_all
qed

lemma destroy_loop_ok:
  assumes "pool_ok dbg n k c fs" "heap_of base (fs @ os) h"
  shows "\<exists>c' h'. destroy_loop dbg c h = Some (c', h') \<and> heap_of base os h' \<and>
    ca_self c' = ca_self c \<and> ca_name c' = ca_name c \<and> ca_array c' = ca_array c"
  using assms
proof (induction fs arbitrary: c h rule: rev_induct)
  case Nil
  then show ?case by (simp add: pool_ok_def)
next
  case (snoc a fs)
  let ?c = "c\<lparr>freecurr := int (length fs)\<rparr>"
  note pop = pop_free_ok [OF snoc.prems(1)]
  obtain h1 where h1: "hfree (Ptr a) h = Some h1" "heap_of base (remove1 a ((fs @ [a]) @ os)) h1"
    using heap_of_hfree [OF snoc.prems(2), of a] by auto
  have "heap_of base (fs @ os) h1" by (rule heap_of_perm [OF h1(2)]) simp
  then obtain c' h' where i: "destroy_loop dbg ?c h1 = Some (c', h')" "heap_of base os h'"
    "ca_self c' = ca_self ?c" "ca_name c' = ca_name ?c" "ca_array c' = ca_array ?c"
    using snoc.IH [OF pop(2)] by blast
  have "freecurr c > 0" "destructor c = None" using snoc.prems(1) by (simp_all add: pool_ok_def)
  then have "destroy_loop dbg c h = destroy_loop dbg ?c h1"
    using pop(1) h1(1) by (subst destroy_loop.simps) (simp add: free_block_def)
  then show ?case using i by simp
qed

lemma cache_destroy_ok:
  assumes "cache_ok dbg n base k (c, h) []"
  shows "\<exists>h'. cache_destroy dbg c h = Some h' \<and> hp_cells h' = base"
proof -
  obtain fs os where fs: "pool_ok dbg n k c fs" "own_cells c os" "heap_of base (fs @ os) h"
    using assms by (auto simp: cache_ok_def)
  obtain c1 h1 where l: "destroy_loop dbg c h = Some (c1, h1)" "heap_of base os h1"
    "ca_self c1 = ca_self c" "ca_name c1 = ca_name c" "ca_array c1 = ca_array c"
    using destroy_loop_ok [OF fs(1,3)] by blast
  obtain a b r where os: "os = [a, b, r]" "ca_self c = Ptr a" "ca_name c = Ptr b" "ca_array c = Ptr r"
    using fs(2) by (auto simp: own_cells_def)
  have ab: "b \<noteq> a" "r \<noteq> a" "r \<noteq> b" using l(2) os(1) by (auto simp: heap_of_def)
  obtain h2 where h2: "hfree (Ptr b) h1 = Some h2" "heap_of base [a, r] h2"
    using heap_of_hfree [OF l(2), of b] os ab by auto
  obtain h3 where h3: "hfree (Ptr r) h2 = Some h3" "heap_of base [a] h3"
    using heap_of_hfree [OF h2(2), of r] ab by auto
  obtain h4 where h4: "hfree (Ptr a) h3 = Some h4" "heap_of base [] h4"
    using heap_of_hfree [OF h3(2), of a] by auto
  have "hp_cells h4 = base" using h4(2) by (auto simp: heap_of_def)
  moreover have "cache_destroy dbg c h = Some h4"
    using l os h2(1) h3(1) h4(1) by (simp add: cache_destroy_def del: hfree.simps destroy_loop.simps)
  ultimately show ?thesis by blast
qed

section \<open>Properties\<close>

definition blank_host :: host where
  "blank_host = \<lparr>hp_next = 0, hp_cells = (\<lambda>_. None), hp_plan = [], hp_junk = (\<lambda>a i. 0), big_endian = False\<rparr>"

definition sample_cache :: cache where
  "sample_cache = \<lparr>ca_self = Ptr 0, ca_name = Ptr 1, ca_array = Ptr 2, pool = replicate initial_pool_size None,
     bufsize = 20, freetotal = int initial_pool_size, freecurr = 0, constructor = None, destructor = None\<rparr>"

definition created_host :: host where
  "created_host = blank_host\<lparr>hp_next := 3, hp_cells := [0 \<mapsto> Bytes [], 1 \<mapsto> Bytes [116], 2 \<mapsto> Bytes []]\<rparr>"

lemma blank_host_ok: "host_ok blank_host"
  by (simp add: host_ok_def blank_host_def)

lemma sample_cache_created:
  "cache_create True [116] 4 None None True blank_host = Some (Some sample_cache, created_host)"
  by (simp add: cache_create_def blank_host_def halloc_def sample_cache_def created_host_def numeral_2_eq_2)


text \<open>
  Claim C23. A cache works as a pool: however its objects are taken, written within their size
  and given back, and whatever calls of \<open>malloc\<close> fail, no operation is undefined or raises
  the red-zone alarm, the objects in use are distinct, each of them still has the bytes
  written to it last, and when all have been given back, destroying the cache leaves the heap
  as it was before the creation. This is a cache without constructor and destructor, the only kind that
  the program creates (thread.c).
\<close>

theorem cache_sessions_safe:
  assumes "host_ok h" and "unat sz + 16 < 2 ^ 64"
    and "cache_create dbg t sz None None m h = Some (Some c, h1)"
    and "length ops \<le> 2 ^ 29" and "\<forall>op \<in> set ops. \<forall>d \<in> set (written op). length d = unat sz"
  shows "\<exists>us c' h'. pool_session (cache_get dbg) (cache_put dbg) obj_write ops [] (c, h1) = Some (us, (c', h')) \<and>
    distinct (map fst us) \<and>
    (\<forall>x \<in> set us. \<forall>d. snd x = Some d \<longrightarrow> obj_read (unat sz) (fst x) (c', h') = Some d) \<and>
    (us = [] \<longrightarrow> (\<exists>h''. cache_destroy dbg c' h' = Some h'' \<and> hp_cells h'' = hp_cells h))"
proof -
  have ok: "cache_ok dbg (unat sz) (hp_cells h) 0 (c, h1) (map fst [])"
    using cache_create_ok [OF assms(3,1,2)] by simp
  obtain us s' k' where s: "pool_session (cache_get dbg) (cache_put dbg) obj_write ops [] (c, h1) = Some (us, s')"
    "cache_ok dbg (unat sz) (hp_cells h) k' s' (map fst us)"
    "\<forall>x \<in> set us. \<forall>e. snd x = Some e \<longrightarrow> obj_read (unat sz) (fst x) s' = Some e"
    using cache_pool.session_safe [OF ok, of ops] assms(4,5) by auto
  obtain c' h' where s': "s' = (c', h')" by fastforce
  show ?thesis
    using s cache_pool.ok_distinct [OF s(2)] cache_destroy_ok [of dbg "unat sz" "hp_cells h" k' c' h']
    unfolding s' by (cases "us = []") auto
qed

theorem cache_sessions_safe_witness:
  "\<exists>us c' h'. pool_session (cache_get True) (cache_put True) obj_write
      [TakeObj, TakeObj, WriteObj 0 [1, 2, 3, 4], GiveObj 1, TakeObj] [] (sample_cache, created_host) = Some (us, (c', h')) \<and>
    distinct (map fst us) \<and>
    (\<forall>x \<in> set us. \<forall>d. snd x = Some d \<longrightarrow> obj_read (unat (4 :: u64)) (fst x) (c', h') = Some d) \<and>
    (us = [] \<longrightarrow> (\<exists>h''. cache_destroy True c' h' = Some h'' \<and> hp_cells h'' = hp_cells blank_host))"
  by (rule cache_sessions_safe [OF blank_host_ok _ sample_cache_created]) simp_all

text \<open>
  Claim C24. The red zones catch an overrun: if a client writes up to eight bytes that differ
  from the pattern right behind its object, giving the object back raises the alarm with
  error 1, and bytes that differ right before it give error -1; in neither case is the block
  put back into the pool.
\<close>

theorem cache_overrun_detected:
  assumes "cache_ok True n base k (c, h) us" and "x \<in> set us"
    and "d \<noteq> []" and "length d \<le> 8"
  shows "(d \<noteq> take (length d) (redzone h) \<longrightarrow>
        (\<exists>h'. store_bytes (Ptr (fst x)) (snd x + n) d h = Some h' \<and> cache_free True c x h' = Some (1, c, h'))) \<and>
    (d \<noteq> drop (8 - length d) (redzone h) \<longrightarrow>
        (\<exists>h'. store_bytes (Ptr (fst x)) (snd x - length d) d h = Some h' \<and> cache_free True c x h' = Some (- 1, c, h')))"
proof -
  obtain fs where fs: "pool_ok True n k c fs" "\<forall>x \<in> set us. used_ok True n h x"
    using assms(1) by (auto simp: cache_ok_def)
  obtain a bs where x: "x = (a, 8)" and bs: "length bs = n" "hp_cells h a = Some (Bytes (redzone h @ bs @ redzone h))"
    using fs(2) assms(2) by (cases x) (auto simp: used_ok_def block_bytes_def)
  have size: "unat (bufsize c) = n + 16" using fs(1) by (simp add: pool_ok_def)
  have over: "check_redzones c x (put_cell (Ptr a) (Bytes (redzone h @ bs @ r)) h) = Some (Inl 1)"
    if "length r = 8" "r \<noteq> redzone h" for r
    using that bs size by (simp add: x check_redzones_def load_bytes_def segment_def redzone_def)
  have under: "check_redzones c x (put_cell (Ptr a) (Bytes (r @ bs @ redzone h)) h) = Some (Inl (- 1))"
    if "length r = 8" "r \<noteq> redzone h" for r
    using that bs size by (simp add: x check_redzones_def load_bytes_def segment_def redzone_def)
  let ?over = "d @ drop (length d) (redzone h)" and ?under = "take (8 - length d) (redzone h) @ d"
  have l: "length ?over = 8" "length ?under = 8" using assms(4) by simp_all
  have o: "store_bytes (Ptr a) (8 + n) d h = Some (put_cell (Ptr a) (Bytes (redzone h @ bs @ ?over)) h)"
    using bs assms(4) by (simp add: store_bytes_def splice_at_def)
  have u: "store_bytes (Ptr a) (8 - length d) d h = Some (put_cell (Ptr a) (Bytes (?under @ bs @ redzone h)) h)"
    using bs assms(4) by (simp add: store_bytes_def splice_at_def)
  have d: "take (length d) ?over = d" "drop (8 - length d) ?under = d" using assms(4) by simp_all
  have no: "?over \<noteq> redzone h" if "d \<noteq> take (length d) (redzone h)"
    using that d(1) by metis
  have nu: "?under \<noteq> redzone h" if "d \<noteq> drop (8 - length d) (redzone h)"
    using that d(2) by metis
  show ?thesis
  proof (intro conjI impI)
    assume "d \<noteq> take (length d) (redzone h)"
    then show "\<exists>h'. store_bytes (Ptr (fst x)) (snd x + n) d h = Some h' \<and> cache_free True c x h' = Some (1, c, h')"
      using o over [OF l(1)] no x by (simp add: cache_free_def do_cache_free_def)
  next
    assume "d \<noteq> drop (8 - length d) (redzone h)"
    then show "\<exists>h'. store_bytes (Ptr (fst x)) (snd x - length d) d h = Some h' \<and> cache_free True c x h' = Some (- 1, c, h')"
      using u under [OF l(2)] nu x by (simp add: cache_free_def do_cache_free_def)
  qed
qed

definition one_object :: "cache \<times> host" where
  "one_object = (case do_cache_alloc True sample_cache created_host of Some (r, s) \<Rightarrow> s)"

lemma one_object_ok: "cache_ok True 4 (\<lambda>_. None) 1 (fst one_object, snd one_object) [(3, 8)]"
proof -
  have c: "cache_ok True 4 (\<lambda>_. None) 0 (sample_cache, created_host) []"
    using cache_create_ok [OF sample_cache_created blank_host_ok] by (simp add: blank_host_def)
  have "\<exists>s. do_cache_alloc True sample_cache created_host = Some (Some (3, 8), s)"
    by (simp add: do_cache_alloc_def sample_cache_def malloc_bytes_def halloc_def created_host_def blank_host_def
        set_redzones_def store_bytes_def redzone_def junk_bytes_def get_object_def)
  then show ?thesis using do_cache_alloc_ok [OF c] by (auto simp: one_object_def)
qed

lemma redzone_bytes: "le_bytes 8 redzone_pattern = [0xbe, 0xba, 0xfe, 0xca, 0xef, 0xbe, 0xad, 0xde]"
  by code_simp

theorem cache_overrun_detected_witness:
  "\<exists>h'. store_bytes (Ptr 3) 12 [0] (snd one_object) = Some h' \<and>
    cache_free True (fst one_object) (3, 8) h' = Some (1, fst one_object, h')"
proof -
  have "[0] \<noteq> take (length [0 :: byte]) (redzone (snd one_object))"
    by (simp add: redzone_def repr64_def redzone_bytes)
  then show ?thesis using cache_overrun_detected [OF one_object_ok, of "(3, 8)" "[0]"] by simp
qed

end
