(* ===== verification/Assoc.thy ===== *)
theory Assoc
  imports Prelude
begin

text \<open>
  The hash table of memcached (assoc.c) over the heap of items (\<open>struct _stritem\<close> of
  memcached.h): buckets are chains through \<open>h_next\<close>, and while the table grows, a bucket of
  the old table is moved at a time. The hash function is the variable \<open>hash\<close> of hash.c, a
  parameter. \<open>None\<close> is a failed assertion, undefined behaviour or a loop that does not end.

  Locks make the operations atomic; \<open>hashpower\<close> is the number of bits of a table that was
  allocated, so that it stays small. The DTrace probes and messages are left out.
\<close>

section \<open>Items\<close>

record item =
  it_next :: "nat option"
  it_prev :: "nat option"
  h_next :: "nat option"
  it_time :: u32
  exptime :: u32
  nbytes :: int
  refcount :: u16
  nsuffix :: u8
  it_flags :: u8
  slabs_clsid :: u8
  nkey :: u8
  it_cas :: u64
  it_key :: "byte list"
  it_suffix :: "byte list"
  it_data :: "byte list"

text \<open>The heap of items; a pointer is NULL (\<open>None\<close>) or the address of an item.\<close>

type_synonym item_heap = "nat \<Rightarrow> item option"

definition key_of :: "item \<Rightarrow> byte list" where
  "key_of it = take (unat (nkey it)) (it_key it)"

text \<open>\<open>nkey == it->nkey && memcmp (key, ITEM_key (it), nkey) == 0\<close>\<close>

definition key_matches :: "byte list \<Rightarrow> item \<Rightarrow> bool" where
  "key_matches key it \<longleftrightarrow> length key = unat (nkey it) \<and> take (length key) (it_key it) = key"

section \<open>The state of assoc.c\<close>

record assoc =
  items :: item_heap
  hashpower :: nat
  primary_hashtable :: "nat option list"
  old_hashtable :: "nat option list"
  hash_items :: u32
  expanding :: bool
  started_expanding :: bool
  expand_bucket :: u32
  hash_power_level :: u32
  hash_bytes :: u64
  hash_is_expanding :: bool

definition hashsize :: "nat \<Rightarrow> u64" where
  "hashsize n = push_bit n 1"

definition hashmask :: "nat \<Rightarrow> u64" where
  "hashmask n = hashsize n - 1"

definition masked :: "u32 \<Rightarrow> nat \<Rightarrow> nat" where
  "masked hv n = unat (ucast hv AND hashmask n)"

text \<open>\<open>assoc_init\<close>: \<open>None\<close> is \<open>exit (EXIT_FAILURE)\<close>. The other variables have their initial values.\<close>

definition assoc_init :: "nat \<Rightarrow> bool \<Rightarrow> item_heap \<Rightarrow> assoc option" where
  "assoc_init hashtable_init calloc_ok heap =
     (let hp = (if hashtable_init \<noteq> 0 then hashtable_init else 16)
      in if calloc_ok
         then Some \<lparr>items = heap, hashpower = hp, primary_hashtable = replicate (unat (hashsize hp)) None,
           old_hashtable = [], hash_items = 0, expanding = False, started_expanding = False, expand_bucket = 0,
           hash_power_level = of_nat hp, hash_bytes = hashsize hp * 8, hash_is_expanding = False\<rparr>
         else None)"

section \<open>Looking up\<close>

text \<open>A place where a pointer to an item is stored.\<close>

datatype slot = OldBucket nat | Bucket nat | NextOf nat

definition bucket_slot :: "'a assoc_scheme \<Rightarrow> u32 \<Rightarrow> slot" where
  "bucket_slot s hv =
     (let oldbucket = masked hv (hashpower s - 1)
      in if expanding s \<and> unat (expand_bucket s) \<le> oldbucket then OldBucket oldbucket
         else Bucket (masked hv (hashpower s)))"

fun read_slot :: "'a assoc_scheme \<Rightarrow> slot \<Rightarrow> nat option option" where
  "read_slot s (OldBucket b) = (if b < length (old_hashtable s) then Some (old_hashtable s ! b) else None)"
| "read_slot s (Bucket b) = (if b < length (primary_hashtable s) then Some (primary_hashtable s ! b) else None)"
| "read_slot s (NextOf a) = map_option h_next (items s a)"

fun write_slot :: "slot \<Rightarrow> nat option \<Rightarrow> 'a assoc_scheme \<Rightarrow> 'a assoc_scheme option" where
  "write_slot (OldBucket b) p s =
     (if b < length (old_hashtable s) then Some (s\<lparr>old_hashtable := (old_hashtable s)[b := p]\<rparr>) else None)"
| "write_slot (Bucket b) p s =
     (if b < length (primary_hashtable s) then Some (s\<lparr>primary_hashtable := (primary_hashtable s)[b := p]\<rparr>) else None)"
| "write_slot (NextOf a) p s =
     do { it \<leftarrow> items s a; Some (s\<lparr>items := (items s)(a \<mapsto> it\<lparr>h_next := p\<rparr>)\<rparr>) }"

partial_function (option) chain_find :: "item_heap \<Rightarrow> byte list \<Rightarrow> nat option \<Rightarrow> nat option option" where
  "chain_find m key p =
     (case p of
        None \<Rightarrow> Some None
      | Some a \<Rightarrow> do {
          it \<leftarrow> m a;
          if key_matches key it then Some (Some a) else chain_find m key (h_next it) })"

definition assoc_find :: "byte list \<Rightarrow> u32 \<Rightarrow> 'a assoc_scheme \<Rightarrow> nat option option" where
  "assoc_find key hv s = do { p \<leftarrow> read_slot s (bucket_slot s hv); chain_find (items s) key p }"

partial_function (option) before_loop :: "'a assoc_scheme \<Rightarrow> byte list \<Rightarrow> slot \<Rightarrow> slot option" where
  "before_loop s key pos = do {
     p \<leftarrow> read_slot s pos;
     case p of
       None \<Rightarrow> Some pos
     | Some a \<Rightarrow> do {
         it \<leftarrow> items s a;
         if key_matches key it then Some pos else before_loop s key (NextOf a) } }"

definition hashitem_before :: "byte list \<Rightarrow> u32 \<Rightarrow> 'a assoc_scheme \<Rightarrow> slot option" where
  "hashitem_before key hv s = before_loop s key (bucket_slot s hv)"

section \<open>Growing\<close>

definition assoc_expand :: "bool \<Rightarrow> 'a assoc_scheme \<Rightarrow> 'a assoc_scheme" where
  "assoc_expand calloc_ok s =
     (if calloc_ok
      then s\<lparr>old_hashtable := primary_hashtable s,
             primary_hashtable := replicate (unat (hashsize (hashpower s + 1))) None,
             hashpower := hashpower s + 1, expanding := True, expand_bucket := 0,
             hash_power_level := of_nat (hashpower s + 1),
             hash_bytes := hash_bytes s + hashsize (hashpower s + 1) * 8,
             hash_is_expanding := True\<rparr>
      else s\<lparr>old_hashtable := primary_hashtable s\<rparr>)"

definition assoc_start_expand :: "'a assoc_scheme \<Rightarrow> 'a assoc_scheme" where
  "assoc_start_expand s = (if started_expanding s then s else s\<lparr>started_expanding := True\<rparr>)"

text \<open>\<open>it->h_next = table[b]; table[b] = it\<close>\<close>

definition push_item :: "slot \<Rightarrow> nat \<Rightarrow> 'a assoc_scheme \<Rightarrow> 'a assoc_scheme option" where
  "push_item sl it s = do {
     first \<leftarrow> read_slot s sl;
     s1 \<leftarrow> write_slot (NextOf it) first s;
     write_slot sl (Some it) s1 }"

definition count_item :: "'a assoc_scheme \<Rightarrow> 'a assoc_scheme" where
  "count_item s =
     (let s' = s\<lparr>hash_items := hash_items s + 1\<rparr>
      in if \<not> expanding s' \<and> (hashsize (hashpower s') * 3) div 2 < ucast (hash_items s')
         then assoc_start_expand s' else s')"

definition assoc_insert :: "nat \<Rightarrow> u32 \<Rightarrow> 'a assoc_scheme \<Rightarrow> 'a assoc_scheme option" where
  "assoc_insert it hv s = do {
     s' \<leftarrow> push_item (bucket_slot s hv) it s;
     Some (count_item s') }"

text \<open>\<open>nxt = (*before)->h_next; (*before)->h_next = 0; *before = nxt\<close>\<close>

definition unlink_item :: "slot \<Rightarrow> nat \<Rightarrow> 'a assoc_scheme \<Rightarrow> 'a assoc_scheme option" where
  "unlink_item before a s = do {
     nxt \<leftarrow> read_slot s (NextOf a);
     s1 \<leftarrow> write_slot (NextOf a) None s;
     write_slot before nxt s1 }"

definition assoc_delete :: "byte list \<Rightarrow> u32 \<Rightarrow> 'a assoc_scheme \<Rightarrow> 'a assoc_scheme option" where
  "assoc_delete key hv s = do {
     before \<leftarrow> hashitem_before key hv s;
     p \<leftarrow> read_slot s before;
     case p of
       None \<Rightarrow> None
     | Some a \<Rightarrow> unlink_item before a (s\<lparr>hash_items := hash_items s - 1\<rparr>) }"

section \<open>The maintenance thread\<close>

text \<open>
  \<open>int bucket = hash (...) & hashmask (hashpower)\<close>: the index as a signed 32-bit number, where a
  negative one is outside the table.
\<close>

definition int_bucket :: "u32 \<Rightarrow> nat \<Rightarrow> nat option" where
  "int_bucket hv n = (let b = sint (of_nat (masked hv n) :: u32) in if b < 0 then None else Some (nat b))"

partial_function (option) migrate_chain ::
  "(byte list \<Rightarrow> u32) \<Rightarrow> nat option \<Rightarrow> 'a assoc_scheme \<Rightarrow> 'a assoc_scheme option" where
  "migrate_chain hash p s =
     (case p of
        None \<Rightarrow> Some s
      | Some a \<Rightarrow> do {
          it \<leftarrow> items s a;
          b \<leftarrow> int_bucket (hash (key_of it)) (hashpower s);
          s' \<leftarrow> push_item (Bucket b) a s;
          migrate_chain hash (h_next it) s' })"

definition migrate_bucket :: "(byte list \<Rightarrow> u32) \<Rightarrow> 'a assoc_scheme \<Rightarrow> 'a assoc_scheme option" where
  "migrate_bucket hash s = do {
     p \<leftarrow> read_slot s (OldBucket (unat (expand_bucket s)));
     s1 \<leftarrow> migrate_chain hash p s;
     s2 \<leftarrow> write_slot (OldBucket (unat (expand_bucket s))) None s1;
     let s3 = s2\<lparr>expand_bucket := expand_bucket s2 + 1\<rparr>;
     Some (if ucast (expand_bucket s3) = hashsize (hashpower s3 - 1)
           then s3\<lparr>expanding := False, old_hashtable := [],
                  hash_bytes := hash_bytes s3 - hashsize (hashpower s3 - 1) * 8,
                  hash_is_expanding := False\<rparr>
           else s3) }"

text \<open>
  The loop of \<open>hash_bulk_move\<close> rounds; an element of the list tells whether \<open>item_trylock\<close>
  gets the lock in its round. After \<open>free (old_hashtable)\<close> the pointer is dangling; the empty
  table stands for it, no slot of which can be read.
\<close>

fun bulk_move :: "(byte list \<Rightarrow> u32) \<Rightarrow> bool list \<Rightarrow> 'a assoc_scheme \<Rightarrow> 'a assoc_scheme option" where
  "bulk_move hash [] s = Some s"
| "bulk_move hash (locked # ls) s =
     (if expanding s
      then do { s' \<leftarrow> (if locked then migrate_bucket hash s else Some s); bulk_move hash ls s' }
      else Some s)"

text \<open>A pass up to the wait for the condition variable; \<open>assoc_expand\<close> runs after the wait.\<close>

definition maintenance_pass :: "(byte list \<Rightarrow> u32) \<Rightarrow> bool list \<Rightarrow> 'a assoc_scheme \<Rightarrow> 'a assoc_scheme option" where
  "maintenance_pass hash locks s = do {
     s' \<leftarrow> bulk_move hash locks s;
     Some (if expanding s' then s' else s'\<lparr>started_expanding := False\<rparr>) }"

section \<open>Chains\<close>

text \<open>The pointer \<open>p\<close> leads through \<open>h_next\<close> along the items \<open>xs\<close> to \<open>q\<close>.\<close>

primrec hpath :: "item_heap \<Rightarrow> nat option \<Rightarrow> nat list \<Rightarrow> nat option \<Rightarrow> bool" where
  "hpath m p [] q \<longleftrightarrow> p = q"
| "hpath m p (a # as) q \<longleftrightarrow> p = Some a \<and> (\<exists>it. m a = Some it \<and> hpath m (h_next it) as q)"

abbreviation hchain :: "item_heap \<Rightarrow> nat option \<Rightarrow> nat list \<Rightarrow> bool" where
  "hchain m p as \<equiv> hpath m p as None"

lemma hpath_append [simp]: "hpath m p (xs @ ys) q \<longleftrightarrow> (\<exists>r. hpath m p xs r \<and> hpath m r ys q)"
  by (induction xs arbitrary: p) auto

lemma hpath_cong: "\<forall>a \<in> set xs. m' a = m a \<Longrightarrow> hpath m' p xs q = hpath m p xs q"
  by (induction xs arbitrary: p) auto

lemma hpath_upd [simp]: "a \<notin> set xs \<Longrightarrow> hpath (m(a := v)) p xs q = hpath m p xs q"
  by (rule hpath_cong) auto

lemma hpath_alloc: "hpath m p xs q \<Longrightarrow> a \<in> set xs \<Longrightarrow> m a \<noteq> None"
  by (induction xs arbitrary: p) auto

text \<open>Redirecting the last item of a path.\<close>

lemma hpath_redirect:
  "hpath m p (xs @ [l]) q \<Longrightarrow> l \<notin> set xs \<Longrightarrow> m l = Some it \<Longrightarrow>
   hpath (m(l \<mapsto> it\<lparr>h_next := q'\<rparr>)) p (xs @ [l]) q'"
  by auto

definition key_ok :: "item \<Rightarrow> bool" where
  "key_ok it \<longleftrightarrow> unat (nkey it) \<le> length (it_key it)"

lemma key_matches_iff: "key_ok it \<Longrightarrow> key_matches key it \<longleftrightarrow> key_of it = key"
  by (auto simp: key_matches_def key_of_def key_ok_def)

lemma key_of_h_next [simp]: "key_of (it\<lparr>h_next := p\<rparr>) = key_of it" "key_ok (it\<lparr>h_next := p\<rparr>) = key_ok it"
  by (simp_all add: key_of_def key_ok_def)

definition akey :: "item_heap \<Rightarrow> nat \<Rightarrow> byte list" where
  "akey m a = key_of (the (m a))"

definition keys_ok :: "item_heap \<Rightarrow> nat list \<Rightarrow> bool" where
  "keys_ok m xs \<longleftrightarrow> (\<forall>a \<in> set xs. \<exists>it. m a = Some it \<and> key_ok it)"

lemma chain_find_correct:
  "hchain m p xs \<Longrightarrow> keys_ok m xs \<Longrightarrow> chain_find m key p = Some (find (\<lambda>a. akey m a = key) xs)"
proof (induction xs arbitrary: p)
  case Nil
  then show ?case by (simp add: chain_find.simps)
next
  case (Cons a xs)
  then show ?case
    by (subst chain_find.simps) (auto simp: keys_ok_def akey_def key_matches_iff)
qed

lemma before_loop_correct:
  assumes "read_slot s pos = Some p" "hchain (items s) p (xs @ a # ys)" "keys_ok (items s) (xs @ [a])"
    and "akey (items s) a = key" "\<forall>x \<in> set xs. akey (items s) x \<noteq> key"
  shows "before_loop s key pos = Some (if xs = [] then pos else NextOf (last xs))"
  using assms
proof (induction xs arbitrary: pos p)
  case Nil
  then show ?case by (subst before_loop.simps) (auto simp: keys_ok_def akey_def key_matches_iff)
next
  case (Cons x xs)
  obtain it where it: "items s x = Some it" "key_ok it" "p = Some x" "hchain (items s) (h_next it) (xs @ a # ys)"
    using Cons.prems(2,3) by (auto simp: keys_ok_def)
  have "key_of it \<noteq> key" using Cons.prems(5) it(1) by (auto simp: akey_def)
  then have "before_loop s key pos = before_loop s key (NextOf x)"
    using Cons.prems(1) it by (subst before_loop.simps) (simp add: key_matches_iff)
  also have "\<dots> = Some (if xs = [] then NextOf x else NextOf (last xs))"
    using Cons.prems it(1,4) by (intro Cons.IH [of "NextOf x" "h_next it"]) (simp_all add: keys_ok_def)
  finally show ?case by simp
qed

section \<open>Masks\<close>

lemma unat_hashsize: "n < 64 \<Longrightarrow> unat (hashsize n) = 2 ^ n"
proof -
  assume "n < 64"
  then have "(2 :: nat) ^ n < 2 ^ 64" by (intro power_strict_increasing) simp_all
  moreover have "hashsize n = of_nat (2 ^ n)" by (simp add: hashsize_def push_bit_eq_mult)
  ultimately show ?thesis using unat64 [of "2 ^ n"] by simp
qed

lemma masked_eq: "n < 64 \<Longrightarrow> masked hv n = unat hv mod 2 ^ n"
proof -
  assume "n < 64"
  have "hashmask n = mask n" by (simp add: hashmask_def hashsize_def mask_eq_exp_minus_1 push_bit_eq_mult)
  then have "masked hv n = unat (take_bit n (ucast hv :: u64))" by (simp add: masked_def take_bit_eq_mask)
  also have "\<dots> = take_bit n (unat (ucast hv :: u64))" by (rule unsigned_take_bit_eq)
  finally show ?thesis by (simp add: unat_ucast_up take_bit_eq_mod)
qed

lemma masked_less: "n < 64 \<Longrightarrow> masked hv n < 2 ^ n"
  by (simp add: masked_eq)

lemma masked_split: "1 \<le> n \<Longrightarrow> n < 64 \<Longrightarrow> masked hv n mod 2 ^ (n - 1) = masked hv (n - 1)"
  by (cases n) (simp_all add: masked_eq mod_mod_cancel)

lemma sint_below: "n < 2147483648 \<Longrightarrow> sint (of_nat n :: u32) = int n"
  by (simp add: sint_uint uint_nat unat32 signed_take_bit_int_eq_self)

lemma int_bucket_masked: "n \<le> 31 \<Longrightarrow> int_bucket hv n = Some (masked hv n)"
proof -
  assume n: "n \<le> 31"
  have "(2 :: nat) ^ n \<le> 2 ^ 31" using n by (rule power_increasing) simp
  then have "masked hv n < 2147483648" using masked_less [of n hv] n by simp
  then show ?thesis by (simp add: int_bucket_def sint_below)
qed

text \<open>With \<open>2 ^ 32\<close> buckets the half with the high hash values has no index.\<close>

lemma int_bucket_overflows: "2147483648 \<le> unat hv \<Longrightarrow> int_bucket hv 32 = None"
proof -
  assume big: "2147483648 \<le> unat hv"
  have "masked hv 32 = unat hv" using unat_le_max32 [of hv] by (simp add: masked_eq)
  moreover have "sint hv < 0"
  proof (rule ccontr)
    assume "\<not> sint hv < 0"
    then have "unat hv = nat (sint hv)" "sint hv < 2147483648" using sint_nonneg_unat [of hv] sint_less [of hv] by simp_all
    then show False using big by simp
  qed
  ultimately show ?thesis by (simp add: int_bucket_def)
qed

section \<open>The buckets\<close>

definition slots :: "'a assoc_scheme \<Rightarrow> slot set" where
  "slots s = Bucket ` {..<2 ^ hashpower s} \<union> (if expanding s then OldBucket ` {..<2 ^ (hashpower s - 1)} else {})"

definition tables_ok :: "'a assoc_scheme \<Rightarrow> bool" where
  "tables_ok s \<longleftrightarrow> hashpower s \<le> 32 \<and> length (primary_hashtable s) = 2 ^ hashpower s \<and>
     (expanding s \<longrightarrow> 1 \<le> hashpower s \<and> hashpower s \<le> 31 \<and> length (old_hashtable s) = 2 ^ (hashpower s - 1) \<and>
        unat (expand_bucket s) < 2 ^ (hashpower s - 1))"

definition linked :: "(slot \<Rightarrow> nat list) \<Rightarrow> nat set" where
  "linked ch = (\<Union>sl. set (ch sl))"

text \<open>The chains of the slots \<open>V\<close>, which share no item.\<close>

definition chains :: "'a assoc_scheme \<Rightarrow> slot set \<Rightarrow> (slot \<Rightarrow> nat list) \<Rightarrow> bool" where
  "chains s V ch \<longleftrightarrow>
     (\<forall>sl \<in> V. \<exists>p. read_slot s sl = Some p \<and> hchain (items s) p (ch sl) \<and> distinct (ch sl)) \<and>
     (\<forall>sl. \<forall>sl'. sl \<noteq> sl' \<longrightarrow> set (ch sl) \<inter> set (ch sl') = {}) \<and> (\<forall>sl. sl \<notin> V \<longrightarrow> ch sl = [])"

lemma in_linked [intro]: "a \<in> set (ch sl) \<Longrightarrow> a \<in> linked ch"
  by (auto simp: linked_def)

lemma linked_upd: "linked (ch(sl := xs)) = set xs \<union> (\<Union>sl' \<in> - {sl}. set (ch sl'))"
  by (auto simp: linked_def split: if_splits)

lemma linked_cons: "linked (ch(sl := a # ch sl)) = insert a (linked ch)"
  by (auto simp: linked_def split: if_splits)

lemma chainsD:
  assumes "chains s V ch" "a \<in> set (ch sl)"
  shows "sl \<in> V" "items s a \<noteq> None" "a \<in> set (ch sl') \<Longrightarrow> sl' = sl"
proof -
  show v: "sl \<in> V" using assms unfolding chains_def by (metis empty_iff list.set(1))
  then obtain p where "hchain (items s) p (ch sl)" using assms(1) by (auto simp: chains_def)
  then show "items s a \<noteq> None" using assms(2) by (rule hpath_alloc)
  show "sl' = sl" if "a \<in> set (ch sl')" using assms that unfolding chains_def by (metis disjoint_iff)
qed

text \<open>Slots of the tables are read and written independently of the items.\<close>

definition table_slot :: "slot \<Rightarrow> bool" where
  "table_slot sl \<longleftrightarrow> (\<forall>a. sl \<noteq> NextOf a)"

lemma table_slot_simps [simp]: "table_slot (OldBucket b)" "table_slot (Bucket b)" "\<not> table_slot (NextOf a)"
  by (simp_all add: table_slot_def)

lemma slots_table: "sl \<in> slots s \<Longrightarrow> table_slot sl"
  by (auto simp: slots_def split: if_splits)

lemma read_slot_items [simp]: "table_slot sl \<Longrightarrow> read_slot (s\<lparr>items := m\<rparr>) sl = read_slot s sl"
  by (cases sl) simp_all

lemma read_slot_other:
  "table_slot sl \<Longrightarrow> sl \<noteq> OldBucket b \<Longrightarrow>
     read_slot (s\<lparr>old_hashtable := (old_hashtable s)[b := q]\<rparr>) sl = read_slot s sl"
  "table_slot sl \<Longrightarrow> sl \<noteq> Bucket b \<Longrightarrow>
     read_slot (s\<lparr>primary_hashtable := (primary_hashtable s)[b := q]\<rparr>) sl = read_slot s sl"
  by (cases sl; simp)+

lemma write_slot_Some:
  "table_slot sl \<Longrightarrow> read_slot s sl = Some p \<Longrightarrow> \<exists>s'. write_slot sl q s = Some s' \<and> read_slot s' sl = Some q \<and>
     (\<forall>sl'. table_slot sl' \<longrightarrow> sl' \<noteq> sl \<longrightarrow> read_slot s' sl' = read_slot s sl')"
  by (cases sl) (auto simp: read_slot_other split: if_splits)

text \<open>What a write to a slot does not touch.\<close>

definition same_shape :: "'a assoc_scheme \<Rightarrow> 'a assoc_scheme \<Rightarrow> bool" where
  "same_shape s s' \<longleftrightarrow>
     (\<exists>m ps qs. s' = s\<lparr>items := m, primary_hashtable := ps, old_hashtable := qs\<rparr> \<and>
        length ps = length (primary_hashtable s) \<and> length qs = length (old_hashtable s))"

lemma same_shape_refl [simp]: "same_shape s s"
  unfolding same_shape_def by (intro exI [of _ "items s"] exI [of _ "primary_hashtable s"] exI [of _ "old_hashtable s"]) simp

lemma same_shape_items: "same_shape s (s\<lparr>items := m\<rparr>)"
  unfolding same_shape_def by (intro exI [of _ m] exI [of _ "primary_hashtable s"] exI [of _ "old_hashtable s"]) simp

lemma same_shape_trans: "same_shape s s' \<Longrightarrow> same_shape s' s'' \<Longrightarrow> same_shape s s''"
  unfolding same_shape_def by (elim exE conjE) auto

lemma same_shape_tables:
  "length ps = length (primary_hashtable s) \<Longrightarrow> same_shape s (s\<lparr>primary_hashtable := ps\<rparr>)"
  "length qs = length (old_hashtable s) \<Longrightarrow> same_shape s (s\<lparr>old_hashtable := qs\<rparr>)"
  unfolding same_shape_def
  by (intro exI [of _ "items s"] exI [of _ ps] exI [of _ "old_hashtable s"], simp)
    (intro exI [of _ "items s"] exI [of _ "primary_hashtable s"] exI [of _ qs], simp)

lemma write_slot_shape: "write_slot sl p s = Some s' \<Longrightarrow> same_shape s s'"
  by (cases sl) (auto intro: same_shape_tables same_shape_items split: if_splits bind_splits)

lemma same_shape_fields:
  assumes "same_shape s s'"
  shows "hashpower s' = hashpower s" "expanding s' = expanding s" "expand_bucket s' = expand_bucket s"
    "hash_items s' = hash_items s" "started_expanding s' = started_expanding s"
    "slots s' = slots s" "tables_ok s' = tables_ok s" "bucket_slot s' = bucket_slot s"
proof -
  obtain m ps qs where "s' = s\<lparr>items := m, primary_hashtable := ps, old_hashtable := qs\<rparr>"
    "length ps = length (primary_hashtable s)" "length qs = length (old_hashtable s)"
    using assms by (auto simp: same_shape_def)
  then show "hashpower s' = hashpower s" "expanding s' = expanding s" "expand_bucket s' = expand_bucket s"
    "hash_items s' = hash_items s" "started_expanding s' = started_expanding s"
    "slots s' = slots s" "tables_ok s' = tables_ok s" "bucket_slot s' = bucket_slot s"
    by (simp_all add: slots_def tables_ok_def bucket_slot_def fun_eq_iff cong: if_cong)
qed

lemma push_item_ok:
  assumes "chains s V ch" "sl \<in> V" "table_slot sl" "a \<notin> linked ch" "items s a = Some it" "\<forall>sl \<in> V. table_slot sl"
  shows "\<exists>s' p. push_item sl a s = Some s' \<and> chains s' V (ch(sl := a # ch sl)) \<and> same_shape s s' \<and>
    items s' = (items s)(a \<mapsto> it\<lparr>h_next := p\<rparr>) \<and>
    (\<forall>sl'. table_slot sl' \<longrightarrow> sl' \<noteq> sl \<longrightarrow> read_slot s' sl' = read_slot s sl')"
proof -
  obtain p where p: "read_slot s sl = Some p" "hchain (items s) p (ch sl)" "distinct (ch sl)"
    using assms(1,2) by (auto simp: chains_def)
  let ?m = "(items s)(a \<mapsto> it\<lparr>h_next := p\<rparr>)"
  let ?s1 = "s\<lparr>items := ?m\<rparr>"
  have r1: "read_slot ?s1 sl = Some p" using p(1) assms(3) by simp
  obtain s' where s': "write_slot sl (Some a) ?s1 = Some s'" "read_slot s' sl = Some (Some a)"
    "\<forall>sl'. table_slot sl' \<longrightarrow> sl' \<noteq> sl \<longrightarrow> read_slot s' sl' = read_slot ?s1 sl'"
    using write_slot_Some [OF assms(3) r1, of "Some a"] by blast
  have push: "push_item sl a s = Some s'" using p(1) assms(5) s'(1) by (simp add: push_item_def)
  have items: "items s' = ?m" using s'(1) assms(3) by (cases sl) (auto split: if_splits)
  have others: "read_slot s' sl' = read_slot s sl'" if "table_slot sl'" "sl' \<noteq> sl" for sl'
    using s'(3) that by simp
  have na: "a \<notin> set (ch sl')" for sl' using assms(4) by auto
  have "same_shape s s'"
    by (rule same_shape_trans [OF same_shape_items write_slot_shape [OF s'(1)]])
  moreover have "chains s' V (ch(sl := a # ch sl))"
    unfolding chains_def
  proof (intro conjI ballI allI impI)
    fix sl' assume v: "sl' \<in> V"
    show "\<exists>p. read_slot s' sl' = Some p \<and> hchain (items s') p ((ch(sl := a # ch sl)) sl') \<and>
        distinct ((ch(sl := a # ch sl)) sl')"
    proof (cases "sl' = sl")
      case True
      then show ?thesis using s'(2) p(2,3) na by (simp add: items)
    next
      case False
      then show ?thesis using others v assms(1,6) na by (auto simp: items chains_def)
    qed
  next
    fix sl1 sl2 :: slot
    assume "sl1 \<noteq> sl2"
    then show "set ((ch(sl := a # ch sl)) sl1) \<inter> set ((ch(sl := a # ch sl)) sl2) = {}"
      using assms(1) na by (auto simp: chains_def)
  next
    fix sl' assume "sl' \<notin> V"
    then show "(ch(sl := a # ch sl)) sl' = []" using assms(1,2) by (auto simp: chains_def)
  qed
  ultimately show ?thesis using push items others by blast
qed

section \<open>The invariant\<close>

text \<open>Every linked item is in the chain of the bucket that a search for its key starts from.\<close>

definition placed :: "(byte list \<Rightarrow> u32) \<Rightarrow> 'a assoc_scheme \<Rightarrow> (slot \<Rightarrow> nat list) \<Rightarrow> bool" where
  "placed hash s ch \<longleftrightarrow> (\<forall>sl. \<forall>a \<in> set (ch sl). \<exists>it. items s a = Some it \<and> key_ok it \<and>
     bucket_slot s (hash (key_of it)) = sl)"

definition assoc_rep :: "(byte list \<Rightarrow> u32) \<Rightarrow> 'a assoc_scheme \<Rightarrow> (slot \<Rightarrow> nat list) \<Rightarrow> bool" where
  "assoc_rep hash s ch \<longleftrightarrow> tables_ok s \<and> chains s (slots s) ch \<and> placed hash s ch \<and>
     inj_on (akey (items s)) (linked ch) \<and> finite (linked ch) \<and> hash_items s = of_nat (card (linked ch))"

definition assoc_ok :: "(byte list \<Rightarrow> u32) \<Rightarrow> 'a assoc_scheme \<Rightarrow> bool" where
  "assoc_ok hash s \<longleftrightarrow> (\<exists>ch. assoc_rep hash s ch)"

text \<open>The table as a map from keys to items.\<close>

definition amap :: "(byte list \<Rightarrow> u32) \<Rightarrow> 'a assoc_scheme \<Rightarrow> byte list \<rightharpoonup> nat" where
  "amap hash s key = (case assoc_find key (hash key) s of Some (Some a) \<Rightarrow> Some a | _ \<Rightarrow> None)"

lemma bucket_slot_in_slots: "tables_ok s \<Longrightarrow> bucket_slot s hv \<in> slots s"
  using masked_less [of "hashpower s" hv] masked_less [of "hashpower s - 1" hv]
  by (auto simp: bucket_slot_def slots_def tables_ok_def Let_def)

lemma placed_keys: "placed hash s ch \<Longrightarrow> keys_ok (items s) (ch sl)"
  by (force simp: placed_def keys_ok_def)

lemma placed_slot: "placed hash s ch \<Longrightarrow> a \<in> linked ch \<Longrightarrow> a \<in> set (ch (bucket_slot s (hash (akey (items s) a))))"
  by (fastforce simp: placed_def linked_def akey_def)

lemma assoc_find_rep:
  assumes "assoc_rep hash s ch"
  shows "assoc_find key (hash key) s = Some (find (\<lambda>a. akey (items s) a = key) (ch (bucket_slot s (hash key))))"
proof -
  have "bucket_slot s (hash key) \<in> slots s" using assms by (intro bucket_slot_in_slots) (simp add: assoc_rep_def)
  then obtain p where "read_slot s (bucket_slot s (hash key)) = Some p" "hchain (items s) p (ch (bucket_slot s (hash key)))"
    using assms by (auto simp: assoc_rep_def chains_def)
  moreover have "keys_ok (items s) (ch (bucket_slot s (hash key)))"
    using assms by (intro placed_keys [of hash]) (simp add: assoc_rep_def)
  ultimately show ?thesis by (simp add: assoc_find_def chain_find_correct)
qed

lemma find_linked: "find (\<lambda>a. f a = key) (ch sl) = Some a \<Longrightarrow> a \<in> linked ch \<and> f a = key"
  unfolding find_Some_iff by (metis in_linked nth_mem)

lemma amap_Some:
  assumes "assoc_rep hash s ch"
  shows "amap hash s key = Some a \<longleftrightarrow> a \<in> linked ch \<and> akey (items s) a = key"
proof
  assume "amap hash s key = Some a"
  then have "find (\<lambda>a. akey (items s) a = key) (ch (bucket_slot s (hash key))) = Some a"
    using assoc_find_rep [OF assms, of key] by (auto simp: amap_def split: option.splits)
  then show "a \<in> linked ch \<and> akey (items s) a = key" using find_linked by metis
next
  assume a: "a \<in> linked ch \<and> akey (items s) a = key"
  then have "a \<in> set (ch (bucket_slot s (hash key)))"
    using assms placed_slot [of hash s ch a] by (simp add: assoc_rep_def)
  then have "find (\<lambda>a. akey (items s) a = key) (ch (bucket_slot s (hash key))) \<noteq> None"
    using a by (auto simp: find_None_iff)
  then obtain b where b: "find (\<lambda>a. akey (items s) a = key) (ch (bucket_slot s (hash key))) = Some b" by blast
  then have "b \<in> linked ch" "akey (items s) b = key" using find_linked by metis+
  then have "b = a" using a assms by (auto simp: assoc_rep_def dest: inj_onD)
  then show "amap hash s key = Some a" using b assoc_find_rep [OF assms, of key] by (simp add: amap_def)
qed

lemma amap_eqI:
  assumes "assoc_rep hash s ch" "assoc_rep hash s' ch'" "linked ch' = linked ch"
    "\<forall>a \<in> linked ch. akey (items s') a = akey (items s) a"
  shows "amap hash s' = amap hash s"
proof
  fix key
  have "amap hash s' key = Some a \<longleftrightarrow> amap hash s key = Some a" for a
    using assms by (auto simp: amap_Some)
  then show "amap hash s' key = amap hash s key" by (metis option.exhaust)
qed

section \<open>Insertion\<close>

lemma count_item_fields [simp]:
  "items (count_item s) = items s" "hash_items (count_item s) = hash_items s + 1"
  "slots (count_item s) = slots s" "tables_ok (count_item s) = tables_ok s"
  "bucket_slot (count_item s) = bucket_slot s" "read_slot (count_item s) sl = read_slot s sl"
  "expanding (count_item s) = expanding s" "hashpower (count_item s) = hashpower s"
  by (simp_all add: count_item_def assoc_start_expand_def Let_def slots_def tables_ok_def bucket_slot_def
      fun_eq_iff cong: if_cong) (cases sl; simp)

lemma assoc_insert_ok:
  assumes rep: "assoc_rep hash s ch" and it: "items s a = Some it" "key_ok it"
    and new: "a \<notin> linked ch" "amap hash s (key_of it) = None"
  shows "\<exists>s' p. assoc_insert a (hash (key_of it)) s = Some s' \<and>
    assoc_rep hash s' (ch(bucket_slot s (hash (key_of it)) := a # ch (bucket_slot s (hash (key_of it))))) \<and>
    items s' = (items s)(a \<mapsto> it\<lparr>h_next := p\<rparr>)"
proof -
  let ?sl = "bucket_slot s (hash (key_of it))"
  let ?ch = "ch(?sl := a # ch ?sl)"
  have r: "tables_ok s" "chains s (slots s) ch" "placed hash s ch" "inj_on (akey (items s)) (linked ch)"
    "finite (linked ch)" "hash_items s = of_nat (card (linked ch))"
    using rep by (simp_all add: assoc_rep_def)
  have sl: "?sl \<in> slots s" using r(1) by (rule bucket_slot_in_slots)
  obtain s1 p where s1: "push_item ?sl a s = Some s1" "chains s1 (slots s) ?ch" "same_shape s s1"
    "items s1 = (items s)(a \<mapsto> it\<lparr>h_next := p\<rparr>)"
    using push_item_ok [OF r(2) sl slots_table [OF sl] new(1) it(1)] slots_table by blast
  note f = same_shape_fields [OF s1(3)]
  have k: "akey (items s1) b = akey (items s) b" for b using it(1) by (simp add: s1(4) akey_def)
  have "chains (count_item s1) (slots s) ?ch" using s1(2) by (simp add: chains_def)
  moreover have "placed hash (count_item s1) ?ch"
    using r(3) it new(1) unfolding placed_def
    by (auto simp: s1(4) f(8) split: if_splits)
  moreover have "inj_on (akey (items s1)) (linked ?ch)"
  proof -
    have "akey (items s) b \<noteq> key_of it" if "b \<in> linked ch" for b
      using that new(2) amap_Some [OF rep, of "key_of it" b] by auto
    moreover have "akey (items s) a = key_of it" using it(1) by (simp add: akey_def)
    ultimately show ?thesis using r(4) new(1) unfolding linked_cons inj_on_def k by (metis insert_iff)
  qed
  moreover have "hash_items (count_item s1) = of_nat (card (linked ?ch))"
    using r(5,6) new(1) f(4) by (simp add: linked_cons)
  ultimately have "assoc_rep hash (count_item s1) ?ch"
    using r(1,5) f(6,7) by (simp add: assoc_rep_def linked_cons)
  then show ?thesis using s1(1,4) by (auto simp: assoc_insert_def)
qed

section \<open>Deletion\<close>

text \<open>Two heaps that differ at most in the \<open>h_next\<close> fields.\<close>

definition same_items :: "item_heap \<Rightarrow> item_heap \<Rightarrow> bool" where
  "same_items m m' \<longleftrightarrow> (\<forall>a. map_option (\<lambda>it. it\<lparr>h_next := None\<rparr>) (m' a) = map_option (\<lambda>it. it\<lparr>h_next := None\<rparr>) (m a))"

lemma same_items_refl [simp]: "same_items m m"
  by (simp add: same_items_def)

lemma same_items_trans: "same_items m m' \<Longrightarrow> same_items m' m'' \<Longrightarrow> same_items m m''"
  by (simp add: same_items_def)

lemma same_items_upd: "m a = Some it \<Longrightarrow> same_items m (m(a \<mapsto> it\<lparr>h_next := p\<rparr>))"
  by (simp add: same_items_def)

lemma same_items_at:
  assumes "same_items m m'" "m a = Some it"
  shows "\<exists>p. m' a = Some (it\<lparr>h_next := p\<rparr>)"
proof -
  obtain it' where it': "m' a = Some it'" "it'\<lparr>h_next := None\<rparr> = it\<lparr>h_next := None\<rparr>"
    using assms unfolding same_items_def by (metis (no_types, lifting) map_option_eq_Some option.simps(9))
  have "it' = (it'\<lparr>h_next := None\<rparr>)\<lparr>h_next := h_next it'\<rparr>" by simp
  then have "it' = it\<lparr>h_next := h_next it'\<rparr>" unfolding it'(2) by simp
  then have "m' a = Some (it\<lparr>h_next := h_next it'\<rparr>)" using it'(1) by (rule subst)
  then show ?thesis ..
qed

lemma same_items_None: "same_items m m' \<Longrightarrow> m' a = None \<longleftrightarrow> m a = None"
  by (auto simp: same_items_def) (metis option.map_disc_iff)+

lemma same_items_akey: "same_items m m' \<Longrightarrow> akey m' a = akey m a"
proof (cases "m a")
  case None
  assume "same_items m m'"
  then show ?thesis using None same_items_None by (metis akey_def)
next
  case (Some it)
  assume "same_items m m'"
  from same_items_at [OF this Some] show ?thesis using Some by (auto simp: akey_def)
qed

lemma unlink_item_ok:
  assumes ch: "chains s V ch" "sl \<in> V" "\<forall>sl \<in> V. table_slot sl" and xs: "ch sl = xs @ a # ys"
  shows "\<exists>s'. unlink_item (if xs = [] then sl else NextOf (last xs)) a s = Some s' \<and>
    chains s' V (ch(sl := xs @ ys)) \<and> same_shape s s' \<and> same_items (items s) (items s')"
proof -
  obtain p where p: "read_slot s sl = Some p" "hchain (items s) p (xs @ a # ys)" "distinct (xs @ a # ys)"
    using ch(1,2) xs unfolding chains_def by metis
  obtain it where it: "items s a = Some it" "hpath (items s) p xs (Some a)" "hchain (items s) (h_next it) ys"
    using p(2) by auto
  have ts: "table_slot sl" using ch(2,3) by blast
  let ?m = "(items s)(a \<mapsto> it\<lparr>h_next := None\<rparr>)"
  let ?s1 = "s\<lparr>items := ?m\<rparr>"
  have disj: "set (ch sl') \<inter> set (xs @ a # ys) = {}" if "sl' \<noteq> sl" for sl'
    using ch(1) xs that unfolding chains_def by metis
  have m1: "same_items (items s) ?m" using it(1) by (rule same_items_upd)
  have finish: "chains s' V (ch(sl := xs @ ys))"
    if r: "read_slot s' sl = Some q" "hchain (items s') q (xs @ ys)"
      "\<forall>sl'. table_slot sl' \<longrightarrow> sl' \<noteq> sl \<longrightarrow> read_slot s' sl' = read_slot s sl'"
      "\<forall>b. b \<notin> set (xs @ a # ys) \<longrightarrow> items s' b = items s b" for s' q
    unfolding chains_def
  proof (intro conjI ballI allI impI)
    fix sl' assume v: "sl' \<in> V"
    show "\<exists>p. read_slot s' sl' = Some p \<and> hchain (items s') p ((ch(sl := xs @ ys)) sl') \<and> distinct ((ch(sl := xs @ ys)) sl')"
    proof (cases "sl' = sl")
      case True
      then show ?thesis using r(1,2) p(3) by auto
    next
      case False
      have "hchain (items s') z (ch sl') = hchain (items s) z (ch sl')" for z
        using disj [OF False] r(4) by (intro hpath_cong) blast
      then show ?thesis using False r(3) v ch(1,3) by (auto simp: chains_def)
    qed
  next
    fix sl1 sl2 :: slot
    assume "sl1 \<noteq> sl2"
    then show "set ((ch(sl := xs @ ys)) sl1) \<inter> set ((ch(sl := xs @ ys)) sl2) = {}"
      using ch(1) disj [of sl1] disj [of sl2] by (auto simp: chains_def)
  next
    fix sl' assume "sl' \<notin> V"
    then show "(ch(sl := xs @ ys)) sl' = []" using ch(1,2) by (auto simp: chains_def)
  qed
  show ?thesis
  proof (cases xs rule: rev_cases)
    case Nil
    obtain s' where s': "write_slot sl (h_next it) ?s1 = Some s'" "read_slot s' sl = Some (h_next it)"
      "\<forall>sl'. table_slot sl' \<longrightarrow> sl' \<noteq> sl \<longrightarrow> read_slot s' sl' = read_slot ?s1 sl'"
      using write_slot_Some [OF ts, of ?s1 p "h_next it"] p(1) ts by auto
    have items: "items s' = ?m" using s'(1) ts by (cases sl) (auto split: if_splits)
    have "chains s' V (ch(sl := xs @ ys))"
      using s' it(3) p(3) Nil by (intro finish [of s' "h_next it"]) (simp_all add: items)
    moreover have "same_shape s s'"
      by (rule same_shape_trans [OF same_shape_items write_slot_shape [OF s'(1)]])
    ultimately show ?thesis using Nil it(1) s'(1) m1 by (simp add: unlink_item_def items)
  next
    case (snoc ws l)
    have la: "l \<noteq> a" "l \<notin> set ws" "l \<notin> set ys" "a \<notin> set ys" "a \<notin> set ws" using p(3) snoc by auto
    obtain il where il: "items s l = Some il" using it(2) snoc by auto
    let ?m2 = "?m(l \<mapsto> il\<lparr>h_next := h_next it\<rparr>)"
    let ?s' = "s\<lparr>items := ?m2\<rparr>"
    have w: "unlink_item (NextOf l) a s = Some ?s'" using it(1) il la(1) by (simp add: unlink_item_def)
    have "hpath ?m p (ws @ [l]) (Some a)" using it(2) snoc la by simp
    then have "hpath ?m2 p (ws @ [l]) (h_next it)"
      using la il by (intro hpath_redirect) simp_all
    then have "hchain ?m2 p (xs @ ys)" using it(3) la snoc by (auto simp: hpath_cong)
    then have "chains ?s' V (ch(sl := xs @ ys))"
      using p(1) ts snoc by (intro finish [of ?s' p]) simp_all
    moreover have "same_items (items s) ?m2"
      using same_items_trans [OF m1 same_items_upd [of ?m l il "h_next it"]] il la(1) by simp
    ultimately show ?thesis using w snoc same_shape_items [of s ?m2] by simp
  qed
qed

lemma placed_same:
  assumes "placed hash s ch" "same_items (items s) (items s')" "bucket_slot s' = bucket_slot s"
    "\<forall>sl. set (ch' sl) \<subseteq> set (ch sl)"
  shows "placed hash s' ch'"
  unfolding placed_def
proof (intro allI ballI)
  fix sl a assume "a \<in> set (ch' sl)"
  then obtain it where it: "items s a = Some it" "key_ok it" "bucket_slot s (hash (key_of it)) = sl"
    using assms(1,4) unfolding placed_def by blast
  from same_items_at [OF assms(2) it(1)]
  show "\<exists>it. items s' a = Some it \<and> key_ok it \<and> bucket_slot s' (hash (key_of it)) = sl"
    using it assms(3) by auto
qed

lemma hash_items_fields [simp]:
  "slots (s\<lparr>hash_items := n\<rparr>) = slots s" "tables_ok (s\<lparr>hash_items := n\<rparr>) = tables_ok s"
  "bucket_slot (s\<lparr>hash_items := n\<rparr>) = bucket_slot s" "read_slot (s\<lparr>hash_items := n\<rparr>) sl = read_slot s sl"
  by (simp_all add: slots_def tables_ok_def bucket_slot_def fun_eq_iff cong: if_cong) (cases sl; simp)

lemma assoc_delete_ok:
  assumes rep: "assoc_rep hash s ch" and a: "amap hash s key = Some a"
  shows "\<exists>s' ch'. assoc_delete key (hash key) s = Some s' \<and> assoc_rep hash s' ch' \<and>
    linked ch' = linked ch - {a} \<and> same_items (items s) (items s')"
proof -
  let ?sl = "bucket_slot s (hash key)" and ?s0 = "s\<lparr>hash_items := hash_items s - 1\<rparr>"
  have r: "tables_ok s" "chains s (slots s) ch" "placed hash s ch" "inj_on (akey (items s)) (linked ch)"
    "finite (linked ch)" "hash_items s = of_nat (card (linked ch))"
    using rep by (simp_all add: assoc_rep_def)
  have al: "a \<in> linked ch" "akey (items s) a = key" using a amap_Some [OF rep] by auto
  have sl: "?sl \<in> slots s" using r(1) by (rule bucket_slot_in_slots)
  have "a \<in> set (ch ?sl)" using placed_slot [OF r(3) al(1)] al(2) by simp
  then obtain xs ys where xs: "ch ?sl = xs @ a # ys" by (metis split_list)
  obtain p where p: "read_slot s ?sl = Some p" "hchain (items s) p (xs @ a # ys)" "distinct (xs @ a # ys)"
    using r(2) sl xs unfolding chains_def by metis
  have ko: "keys_ok (items s) (xs @ [a])" using placed_keys [OF r(3), of ?sl] xs by (simp add: keys_ok_def)
  have ne: "\<forall>x \<in> set xs. akey (items s) x \<noteq> key"
  proof
    fix x assume x: "x \<in> set xs"
    then have "x \<in> linked ch" "x \<noteq> a" using xs p(3) in_linked [of x ch ?sl] by auto
    then show "akey (items s) x \<noteq> key" using al r(4) by (auto dest: inj_onD)
  qed
  have b: "hashitem_before key (hash key) s = Some (if xs = [] then ?sl else NextOf (last xs))"
    unfolding hashitem_before_def by (rule before_loop_correct [OF p(1,2) ko al(2) ne])
  have pa: "read_slot s (if xs = [] then ?sl else NextOf (last xs)) = Some (Some a)"
  proof (cases xs rule: rev_cases)
    case (snoc ws l)
    then show ?thesis using p(2) by (auto simp del: hpath.simps(1))
  qed (use p in simp)
  have c0: "chains ?s0 (slots s) ch" using r(2) by (simp add: chains_def)
  obtain s' where s': "unlink_item (if xs = [] then ?sl else NextOf (last xs)) a ?s0 = Some s'"
    "chains s' (slots s) (ch(?sl := xs @ ys))" "same_shape ?s0 s'" "same_items (items s) (items s')"
    using unlink_item_ok [OF c0 sl _ xs] slots_table by auto
  note f = same_shape_fields [OF s'(3)]
  have l: "linked (ch(?sl := xs @ ys)) = linked ch - {a}"
  proof -
    have "a \<notin> set (ch sl')" if "sl' \<noteq> ?sl" for sl' using chainsD(3) [OF r(2), of a ?sl sl'] xs that by auto
    moreover have "linked ch = set (ch ?sl) \<union> (\<Union>sl' \<in> - {?sl}. set (ch sl'))" by (auto simp: linked_def)
    ultimately show ?thesis using p(3) xs by (auto simp: linked_upd)
  qed
  have "placed hash s' (ch(?sl := xs @ ys))"
    by (rule placed_same [OF r(3) s'(4)]) (use f(8) xs in auto)
  moreover have "inj_on (akey (items s')) (linked ch - {a})"
    using r(4) by (simp add: same_items_akey [OF s'(4)] inj_on_def)
  moreover have "hash_items s' = of_nat (card (linked ch - {a}))"
    using r(6) f(4) card_Suc_Diff1 [OF r(5) al(1), symmetric] by simp
  ultimately have "assoc_rep hash s' (ch(?sl := xs @ ys))"
    using r(1,5) s'(2) f(6,7) l by (simp add: assoc_rep_def)
  moreover have "assoc_delete key (hash key) s = Some s'"
    using b pa s'(1) by (simp add: assoc_delete_def del: read_slot.simps)
  ultimately show ?thesis using l s'(4) by blast
qed

section \<open>Expansion\<close>

lemma assoc_expand_ok:
  assumes rep: "assoc_rep hash s ch" and ne: "\<not> expanding s" and "c \<Longrightarrow> hashpower s < 31"
  shows "\<exists>ch'. assoc_rep hash (assoc_expand c s) ch' \<and> linked ch' = linked ch"
proof (cases c)
  case False
  have "assoc_rep hash (assoc_expand c s) ch"
  proof -
    have f: "slots (assoc_expand c s) = slots s" "items (assoc_expand c s) = items s"
      "tables_ok (assoc_expand c s) = tables_ok s" "bucket_slot (assoc_expand c s) = bucket_slot s"
      "hash_items (assoc_expand c s) = hash_items s"
      using ne False by (simp_all add: assoc_expand_def slots_def tables_ok_def bucket_slot_def fun_eq_iff)
    have "read_slot (assoc_expand c s) sl = read_slot s sl" if "sl \<in> slots s" for sl
      using that ne False by (auto simp: slots_def assoc_expand_def)
    then show ?thesis using rep f by (simp add: assoc_rep_def chains_def placed_def)
  qed
  then show ?thesis by blast
next
  case True
  then have hp: "hashpower s < 31" by (rule assms(3))
  let ?s = "assoc_expand c s" and ?ch = "\<lambda>sl. case sl of OldBucket b \<Rightarrow> ch (Bucket b) | _ \<Rightarrow> []"
  have r: "tables_ok s" "chains s (slots s) ch" "placed hash s ch" "inj_on (akey (items s)) (linked ch)"
    "finite (linked ch)" "hash_items s = of_nat (card (linked ch))"
    using rep by (simp_all add: assoc_rep_def)
  have only: "ch sl = []" if "\<nexists>b. sl = Bucket b" for sl
    using r(2) ne that by (auto simp: chains_def slots_def)
  have l: "linked ?ch = linked ch"
  proof
    show "linked ?ch \<subseteq> linked ch" by (auto simp: linked_def split: slot.splits)
    show "linked ch \<subseteq> linked ?ch"
    proof
      fix a assume "a \<in> linked ch"
      then obtain sl where sl: "a \<in> set (ch sl)" by (auto simp: linked_def)
      then obtain b where "sl = Bucket b" using only by fastforce
      then have "a \<in> set (?ch (OldBucket b))" using sl by simp
      then show "a \<in> linked ?ch" by (rule in_linked)
    qed
  qed
  have n: "unat (hashsize (hashpower s + 1)) = 2 ^ (hashpower s + 1)" using hp by (intro unat_hashsize) simp
  have t: "tables_ok ?s" using r(1) hp True n by (simp add: tables_ok_def assoc_expand_def)
  have c: "chains ?s (slots ?s) ?ch"
    unfolding chains_def
  proof (intro conjI ballI allI impI)
    fix sl assume "sl \<in> slots ?s"
    then consider b where "sl = Bucket b" "b < 2 ^ (hashpower s + 1)" | b where "sl = OldBucket b" "b < 2 ^ hashpower s"
      using True by (auto simp: slots_def assoc_expand_def)
    then show "\<exists>p. read_slot ?s sl = Some p \<and> hchain (items ?s) p (?ch sl) \<and> distinct (?ch sl)"
    proof cases
      case 1
      then show ?thesis using True n by (simp add: assoc_expand_def)
    next
      case 2
      then have "Bucket b \<in> slots s" by (simp add: slots_def)
      then show ?thesis using 2 r(1,2) True by (auto simp: chains_def assoc_expand_def tables_ok_def)
    qed
  next
    fix sl sl' :: slot
    assume "sl \<noteq> sl'"
    then show "set (?ch sl) \<inter> set (?ch sl') = {}"
      using chainsD(3) [OF r(2)] by (cases sl; cases sl') fastforce+
  next
    fix sl assume v: "sl \<notin> slots ?s"
    show "?ch sl = []"
    proof (cases sl)
      case (OldBucket b)
      then have "Bucket b \<notin> slots s" using v True ne by (auto simp: slots_def assoc_expand_def)
      then show ?thesis using r(2) OldBucket by (simp add: chains_def)
    qed simp_all
  qed
  have p: "placed hash ?s ?ch"
    unfolding placed_def
  proof (intro allI ballI)
    fix sl a assume "a \<in> set (?ch sl)"
    then obtain b where b: "sl = OldBucket b" "a \<in> set (ch (Bucket b))" by (cases sl) simp_all
    then obtain it where it: "items s a = Some it" "key_ok it" "bucket_slot s (hash (key_of it)) = Bucket b"
      using r(3) by (auto simp: placed_def)
    then have "masked (hash (key_of it)) (hashpower s) = b" using ne by (simp add: bucket_slot_def)
    then show "\<exists>it. items ?s a = Some it \<and> key_ok it \<and> bucket_slot ?s (hash (key_of it)) = sl"
      using it(1,2) b(1) True by (simp add: assoc_expand_def bucket_slot_def)
  qed
  have "assoc_rep hash ?s ?ch"
    unfolding assoc_rep_def l using t c p r(4,5,6) True by (simp add: assoc_expand_def)
  then show ?thesis using l by blast
qed

lemma migrate_chain_ok:
  assumes "chains s V ch" "\<forall>sl \<in> V. table_slot sl" "Bucket ` {..<2 ^ hashpower s} \<subseteq> V" "hashpower s \<le> 31"
    "hchain (items s) p xs" "distinct xs" "set xs \<inter> linked ch = {}" "keys_ok (items s) xs"
  shows "\<exists>s' ch'. migrate_chain hash p s = Some s' \<and> chains s' V ch' \<and> same_shape s s' \<and>
    same_items (items s) (items s') \<and>
    (\<forall>sl. set (ch' sl) = set (ch sl) \<union>
      {a \<in> set xs. sl = Bucket (masked (hash (akey (items s) a)) (hashpower s))})"
  using assms
proof (induction xs arbitrary: p s ch)
  case Nil
  then show ?case by (intro exI [of _ s] exI [of _ ch]) (simp add: migrate_chain.simps)
next
  case (Cons a xs)
  obtain it where it: "p = Some a" "items s a = Some it" "hchain (items s) (h_next it) xs"
    using Cons.prems(5) by auto
  let ?sl = "Bucket (masked (hash (key_of it)) (hashpower s))"
  have v: "?sl \<in> V" using Cons.prems(3,4) masked_less [of "hashpower s" "hash (key_of it)"] by auto
  have na: "a \<notin> linked ch" using Cons.prems(7) by simp
  obtain s1 q where s1: "push_item ?sl a s = Some s1" "chains s1 V (ch(?sl := a # ch ?sl))" "same_shape s s1"
    "items s1 = (items s)(a \<mapsto> it\<lparr>h_next := q\<rparr>)"
    using push_item_ok [OF Cons.prems(1) v _ na it(2) Cons.prems(2)] by auto
  have si: "same_items (items s) (items s1)" using it(2) by (simp add: s1(4) same_items_upd)
  note f = same_shape_fields [OF s1(3)]
  have "\<exists>s' ch'. migrate_chain hash (h_next it) s1 = Some s' \<and> chains s' V ch' \<and> same_shape s1 s' \<and>
    same_items (items s1) (items s') \<and> (\<forall>sl. set (ch' sl) = set ((ch(?sl := a # ch ?sl)) sl) \<union>
      {a \<in> set xs. sl = Bucket (masked (hash (akey (items s1) a)) (hashpower s1))})"
  proof (rule Cons.IH [OF s1(2) Cons.prems(2)])
    show "hchain (items s1) (h_next it) xs" using it(3) Cons.prems(6) by (simp add: s1(4))
    show "set xs \<inter> linked (ch(?sl := a # ch ?sl)) = {}" using Cons.prems(6,7) by (auto simp: linked_cons)
    show "keys_ok (items s1) xs" using Cons.prems(6,8) by (auto simp: keys_ok_def s1(4))
  qed (use Cons.prems f in simp_all)
  then obtain s' ch' where s': "migrate_chain hash (h_next it) s1 = Some s'" "chains s' V ch'" "same_shape s1 s'"
    "same_items (items s1) (items s')"
    "\<forall>sl. set (ch' sl) = set ((ch(?sl := a # ch ?sl)) sl) \<union>
      {a \<in> set xs. sl = Bucket (masked (hash (akey (items s1) a)) (hashpower s1))}" by blast
  have m: "migrate_chain hash p s = Some s'"
    using it(1,2) s1(1) s'(1) int_bucket_masked [OF Cons.prems(4)] by (subst migrate_chain.simps) simp
  have "akey (items s) a = key_of it" using it(2) by (simp add: akey_def)
  then have "\<forall>sl. set (ch' sl) = set (ch sl) \<union>
      {b \<in> set (a # xs). sl = Bucket (masked (hash (akey (items s) b)) (hashpower s))}"
    unfolding s'(5) [rule_format] same_items_akey [OF si] f(1) by auto
  then show ?case
    using m s'(2) same_shape_trans [OF s1(3) s'(3)] same_items_trans [OF si s'(4)] by blast
qed

lemma migrate_bucket_ok:
  assumes rep: "assoc_rep hash s ch" and e: "expanding s"
  shows "\<exists>s' ch'. migrate_bucket hash s = Some s' \<and> assoc_rep hash s' ch' \<and> linked ch' = linked ch \<and>
    same_items (items s) (items s') \<and> hashpower s' = hashpower s \<and>
    (if unat (expand_bucket s) + 1 = 2 ^ (hashpower s - 1) then \<not> expanding s'
     else expanding s' \<and> unat (expand_bucket s') = unat (expand_bucket s) + 1)"
proof -
  let ?b = "unat (expand_bucket s)" and ?o = "OldBucket (unat (expand_bucket s))" and ?hp = "hashpower s"
  have r: "tables_ok s" "chains s (slots s) ch" "placed hash s ch" "inj_on (akey (items s)) (linked ch)"
    "finite (linked ch)" "hash_items s = of_nat (card (linked ch))"
    using rep by (simp_all add: assoc_rep_def)
  have t: "?hp \<le> 31" "1 \<le> ?hp" "?b < 2 ^ (?hp - 1)" "length (old_hashtable s) = 2 ^ (?hp - 1)"
    "length (primary_hashtable s) = 2 ^ ?hp"
    using r(1) e by (simp_all add: tables_ok_def)
  have ov: "?o \<in> slots s" using e t(3) by (simp add: slots_def)
  obtain p where p: "read_slot s ?o = Some p" "hchain (items s) p (ch ?o)" "distinct (ch ?o)"
    using r(2) ov unfolding chains_def by metis
  let ?V = "slots s - {?o}" and ?ch0 = "ch(?o := [])"
  have c0: "chains s ?V ?ch0" using r(2) by (auto simp: chains_def)
  have v1: "\<forall>sl \<in> ?V. table_slot sl" using slots_table by blast
  have v2: "Bucket ` {..<2 ^ ?hp} \<subseteq> ?V" by (auto simp: slots_def)
  have dj: "set (ch ?o) \<inter> linked ?ch0 = {}"
    using chainsD(3) [OF r(2)] by (force simp: linked_def split: if_splits)
  obtain s1 ch1 where s1: "migrate_chain hash p s = Some s1" "chains s1 ?V ch1" "same_shape s s1"
    "same_items (items s) (items s1)"
    "\<forall>sl. set (ch1 sl) = set (?ch0 sl) \<union> {a \<in> set (ch ?o). sl = Bucket (masked (hash (akey (items s) a)) ?hp)}"
    using migrate_chain_ok [OF c0 v1 v2 t(1) p(2,3) dj placed_keys [OF r(3)], of hash] by blast
  note f = same_shape_fields [OF s1(3)]
  have len: "length (old_hashtable s1) = 2 ^ (?hp - 1)" "length (primary_hashtable s1) = 2 ^ ?hp"
    using f(7) r(1) e f(1,2) by (simp_all add: tables_ok_def)
  have w: "write_slot ?o None s1 = Some (s1\<lparr>old_hashtable := (old_hashtable s1)[?b := None]\<rparr>)"
    using len t(3) by simp
  let ?s3 = "s1\<lparr>old_hashtable := (old_hashtable s1)[?b := None], expand_bucket := expand_bucket s1 + 1\<rparr>"
  have p32: "(2 :: nat) ^ (?hp - 1) \<le> 2 ^ 31" using t(1) by (intro power_increasing) simp_all
  have eb: "unat (expand_bucket s1 + 1) = ?b + 1"
    using f(3) t(3) p32 by (subst unat_add_nowrap) simp_all
  have hs: "unat (hashsize (?hp - 1)) = 2 ^ (?hp - 1)" using t(1) by (intro unat_hashsize) simp
  have fin: "ucast (expand_bucket ?s3) = hashsize (hashpower ?s3 - 1) \<longleftrightarrow> ?b + 1 = 2 ^ (?hp - 1)"
    using eb hs f(1) by (simp add: word_unat_eq_iff unat_ucast_up)
  have l: "linked ch1 = linked ch"
  proof -
    have "a \<in> linked ch1" if "a \<in> set (ch sl)" for a sl
    proof (cases "sl = ?o")
      case True
      then have "a \<in> set (ch1 (Bucket (masked (hash (akey (items s) a)) ?hp)))" using that s1(5) by auto
      then show ?thesis by (rule in_linked)
    next
      case False
      then have "a \<in> set (ch1 sl)" using that s1(5) by simp
      then show ?thesis by (rule in_linked)
    qed
    moreover have "a \<in> linked ch" if "a \<in> set (ch1 sl)" for a sl
    proof -
      have "a \<in> set (?ch0 sl) \<or> a \<in> set (ch ?o)" using that s1(5) by auto
      then show ?thesis using in_linked [of a ch] by (auto split: if_splits)
    qed
    ultimately show ?thesis unfolding linked_def by blast
  qed
  have ko: "akey (items s1) a = akey (items s) a" for a by (rule same_items_akey [OF s1(4)])
  have inj: "inj_on (akey (items s1)) (linked ch)" using r(4) by (simp add: ko inj_on_def)
  text \<open>Where the items are now.\<close>
  have where_: "\<exists>it. items s1 a = Some it \<and> key_ok it \<and>
      (if masked (hash (key_of it)) (?hp - 1) \<le> ?b then sl = Bucket (masked (hash (key_of it)) ?hp)
       else sl = OldBucket (masked (hash (key_of it)) (?hp - 1)))" if a: "a \<in> set (ch1 sl)" for a sl
  proof -
    from a s1(5) consider "a \<in> set (ch sl)" "sl \<noteq> ?o"
      | "a \<in> set (ch ?o)" "sl = Bucket (masked (hash (akey (items s) a)) ?hp)"
      by (auto split: if_splits)
    then show ?thesis
    proof cases
      case 1
      obtain it where it: "items s a = Some it" "key_ok it" "bucket_slot s (hash (key_of it)) = sl"
        using r(3) 1(1) by (auto simp: placed_def)
      obtain q where "items s1 a = Some (it\<lparr>h_next := q\<rparr>)" using same_items_at [OF s1(4) it(1)] by blast
      then show ?thesis using it 1(2) e by (auto simp: bucket_slot_def Let_def split: if_splits)
    next
      case 2
      obtain it where it: "items s a = Some it" "key_ok it" "bucket_slot s (hash (key_of it)) = ?o"
        using r(3) 2(1) by (auto simp: placed_def)
      obtain q where "items s1 a = Some (it\<lparr>h_next := q\<rparr>)" using same_items_at [OF s1(4) it(1)] by blast
      then show ?thesis using it 2(2) e by (auto simp: bucket_slot_def Let_def akey_def split: if_splits)
    qed
  qed
  have o1: "ch1 ?o = []" using s1(5) [rule_format, of ?o] by simp
  show ?thesis
  proof (cases "?b + 1 = 2 ^ (?hp - 1)")
    case True
    let ?s4 = "?s3\<lparr>expanding := False, old_hashtable := [], hash_bytes := hash_bytes ?s3 - hashsize (hashpower ?s3 - 1) * 8,
                  hash_is_expanding := False\<rparr>"
    have m: "migrate_bucket hash s = Some ?s4"
      unfolding migrate_bucket_def p(1) bind.simps s1(1) w Let_def using fin True f(1,3) by simp
    have old: "ch1 (OldBucket c) = []" for c
    proof (rule ccontr)
      assume "ch1 (OldBucket c) \<noteq> []"
      then obtain a where "a \<in> set (ch1 (OldBucket c))" by (cases "ch1 (OldBucket c)") auto
      from where_ [OF this] obtain it where "\<not> masked (hash (key_of it)) (?hp - 1) \<le> ?b"
        by (auto split: if_splits)
      moreover have "masked (hash (key_of it)) (?hp - 1) < 2 ^ (?hp - 1)" using t(1) by (intro masked_less) simp
      ultimately show False using True by linarith
    qed
    have sl4: "slots ?s4 = Bucket ` {..<2 ^ ?hp}" using f(1) by (simp add: slots_def)
    have "chains ?s4 (slots ?s4) ch1"
      unfolding chains_def sl4
    proof (intro conjI ballI allI impI)
      fix sl assume v: "sl \<in> Bucket ` {..<2 ^ ?hp}"
      then obtain q where "read_slot s1 sl = Some q" "hchain (items s1) q (ch1 sl)" "distinct (ch1 sl)"
        using s1(2) v2 unfolding chains_def by blast
      moreover have "read_slot ?s4 sl = read_slot s1 sl" using v by auto
      ultimately show "\<exists>p. read_slot ?s4 sl = Some p \<and> hchain (items ?s4) p (ch1 sl) \<and> distinct (ch1 sl)" by simp
    next
      fix sl sl' :: slot assume "sl \<noteq> sl'"
      then show "set (ch1 sl) \<inter> set (ch1 sl') = {}" using s1(2) by (simp add: chains_def)
    next
      fix sl assume "sl \<notin> Bucket ` {..<2 ^ ?hp}"
      then have "sl \<notin> ?V \<or> (\<exists>c. sl = OldBucket c)" by (auto simp: slots_def split: if_splits)
      then show "ch1 sl = []" using s1(2) old unfolding chains_def by blast
    qed
    moreover have "placed hash ?s4 ch1"
      unfolding placed_def
    proof (intro allI ballI)
      fix sl a assume "a \<in> set (ch1 sl)"
      from where_ [OF this] old \<open>a \<in> set (ch1 sl)\<close>
      show "\<exists>it. items ?s4 a = Some it \<and> key_ok it \<and> bucket_slot ?s4 (hash (key_of it)) = sl"
        using f(1) by (auto simp: bucket_slot_def split: if_splits)
    qed
    ultimately have "assoc_rep hash ?s4 ch1"
      using r(5,6) t f len inj l by (simp add: assoc_rep_def tables_ok_def)
    then show ?thesis using m l s1(4) f(1) True by (intro exI [of _ ?s4] exI [of _ ch1]) simp
  next
    case False
    have m: "migrate_bucket hash s = Some ?s3"
      unfolding migrate_bucket_def p(1) bind.simps s1(1) w Let_def using fin False f(1,3) by simp
    have sl3: "slots ?s3 = slots s" using f(1,2) by (simp add: slots_def)
    have "chains ?s3 (slots s) ch1"
      unfolding chains_def
    proof (intro conjI ballI allI impI)
      fix sl assume v: "sl \<in> slots s"
      show "\<exists>p. read_slot ?s3 sl = Some p \<and> hchain (items ?s3) p (ch1 sl) \<and> distinct (ch1 sl)"
      proof (cases "sl = ?o")
        case True
        then show ?thesis using o1 len(1) t(3) by simp
      next
        case False
        have "read_slot ?s3 sl = read_slot s1 sl"
          using False slots_table [OF v] by (cases sl) auto
        then show ?thesis using s1(2) v False by (auto simp: chains_def)
      qed
    next
      fix sl sl' :: slot assume "sl \<noteq> sl'"
      then show "set (ch1 sl) \<inter> set (ch1 sl') = {}" using s1(2) by (simp add: chains_def)
    next
      fix sl assume "sl \<notin> slots s"
      then show "ch1 sl = []" using s1(2) by (simp add: chains_def)
    qed
    moreover have "placed hash ?s3 ch1"
      unfolding placed_def
    proof (intro allI ballI)
      fix sl a assume "a \<in> set (ch1 sl)"
      from where_ [OF this] show "\<exists>it. items ?s3 a = Some it \<and> key_ok it \<and> bucket_slot ?s3 (hash (key_of it)) = sl"
        using f(1,2) e eb by (auto simp: bucket_slot_def Let_def split: if_splits)
    qed
    ultimately have "assoc_rep hash ?s3 ch1"
      using r(5,6) t f len inj l eb False e sl3 by (simp add: assoc_rep_def tables_ok_def)
    then show ?thesis using m l s1(4) f(1,2) e eb False by (intro exI [of _ ?s3] exI [of _ ch1]) simp
  qed
qed

lemma bulk_move_ok:
  assumes "assoc_rep hash s ch"
  shows "\<exists>s' ch'. bulk_move hash locks s = Some s' \<and> assoc_rep hash s' ch' \<and> linked ch' = linked ch \<and>
    same_items (items s) (items s') \<and> hashpower s' = hashpower s"
  using assms
proof (induction locks arbitrary: s ch)
  case Nil
  then show ?case by auto
next
  case (Cons l ls)
  show ?case
  proof (cases "expanding s \<and> l")
    case True
    obtain s1 ch1 where s1: "migrate_bucket hash s = Some s1" "assoc_rep hash s1 ch1" "linked ch1 = linked ch"
      "same_items (items s) (items s1)" "hashpower s1 = hashpower s"
      using migrate_bucket_ok [OF Cons.prems] True by blast
    then show ?thesis using Cons.IH [OF s1(2)] True same_items_trans [OF s1(4)] by auto
  next
    case False
    then show ?thesis using Cons.IH [OF Cons.prems] Cons.prems by (cases "expanding s") auto
  qed
qed

lemma started_expanding_rep [simp]: "assoc_rep hash (s\<lparr>started_expanding := b\<rparr>) ch = assoc_rep hash s ch"
proof -
  have "slots (s\<lparr>started_expanding := b\<rparr>) = slots s" "tables_ok (s\<lparr>started_expanding := b\<rparr>) = tables_ok s"
    "bucket_slot (s\<lparr>started_expanding := b\<rparr>) = bucket_slot s" "read_slot (s\<lparr>started_expanding := b\<rparr>) = read_slot s"
    by (simp_all add: slots_def tables_ok_def bucket_slot_def fun_eq_iff cong: if_cong) (intro allI, case_tac x, simp_all)
  then show ?thesis by (simp add: assoc_rep_def chains_def placed_def)
qed

lemma maintenance_pass_ok:
  assumes "assoc_rep hash s ch"
  shows "\<exists>s' ch'. maintenance_pass hash locks s = Some s' \<and> assoc_rep hash s' ch' \<and> linked ch' = linked ch \<and>
    same_items (items s) (items s') \<and> hashpower s' = hashpower s"
proof -
  obtain s' ch' where "bulk_move hash locks s = Some s'" "assoc_rep hash s' ch'" "linked ch' = linked ch"
    "same_items (items s) (items s')" "hashpower s' = hashpower s"
    using bulk_move_ok [OF assms] by blast
  then show ?thesis by (cases "expanding s'") (auto simp: maintenance_pass_def)
qed

lemma bulk_move_completes:
  assumes "assoc_rep hash s ch" "expanding s"
    and "2 ^ (hashpower s - 1) \<le> unat (expand_bucket s) + length (filter (\<lambda>l. l) locks)"
  shows "\<exists>s' ch'. bulk_move hash locks s = Some s' \<and> assoc_rep hash s' ch' \<and> linked ch' = linked ch \<and>
    same_items (items s) (items s') \<and> \<not> expanding s'"
  using assms
proof (induction locks arbitrary: s ch)
  case Nil
  then show ?case by (auto simp: assoc_rep_def tables_ok_def)
next
  case (Cons l ls)
  show ?case
  proof (cases l)
    case True
    obtain s1 ch1 where s1: "migrate_bucket hash s = Some s1" "assoc_rep hash s1 ch1" "linked ch1 = linked ch"
      "same_items (items s) (items s1)" "hashpower s1 = hashpower s"
      and e: "if unat (expand_bucket s) + 1 = 2 ^ (hashpower s - 1) then \<not> expanding s1
        else expanding s1 \<and> unat (expand_bucket s1) = unat (expand_bucket s) + 1"
      using migrate_bucket_ok [OF Cons.prems(1,2)] by blast
    show ?thesis
    proof (cases "expanding s1")
      case True
      then have "2 ^ (hashpower s1 - 1) \<le> unat (expand_bucket s1) + length (filter (\<lambda>l. l) ls)"
        using e Cons.prems(3) s1(5) \<open>l\<close> by (simp split: if_splits)
      then show ?thesis using Cons.IH [OF s1(2) True] s1 same_items_trans [OF s1(4)] Cons.prems(2) \<open>l\<close> by auto
    next
      case False
      then have "bulk_move hash ls s1 = Some s1" by (cases ls) simp_all
      then show ?thesis using s1 False Cons.prems(2) \<open>l\<close> by auto
    qed
  qed (use Cons in simp)
qed

section \<open>The table as an index\<close>

text \<open>
  What the other parts of memcached use the table for: an index from keys to items. A growing
  index has internal steps that the client does not see.
\<close>

datatype ('k, 'g) index_op = AddItem nat | RemoveKey 'k | Grow 'g

locale key_index =
  fixes find_key :: "'k \<Rightarrow> 's \<Rightarrow> nat option option"
    and add :: "nat \<Rightarrow> 's \<Rightarrow> 's option"
    and remove :: "'k \<Rightarrow> 's \<Rightarrow> 's option"
    and key :: "'s \<Rightarrow> nat \<Rightarrow> 'k option"
    and index :: "'s \<Rightarrow> 'k \<rightharpoonup> nat"
    and ok :: "'s \<Rightarrow> bool"
  assumes find_ok: "ok s \<Longrightarrow> find_key k s = Some (index s k)"
    and add_ok: "ok s \<Longrightarrow> key s a = Some k \<Longrightarrow> index s k = None \<Longrightarrow>
      \<exists>s'. add a s = Some s' \<and> ok s' \<and> index s' = (index s)(k \<mapsto> a) \<and> key s' = key s"
    and remove_ok: "ok s \<Longrightarrow> index s k = Some a \<Longrightarrow>
      \<exists>s'. remove k s = Some s' \<and> ok s' \<and> index s' = (index s)(k := None) \<and> key s' = key s"

locale growing_index = key_index +
  fixes grow :: "'g \<Rightarrow> 's \<Rightarrow> 's option"
  assumes grow_ok: "ok s \<Longrightarrow> \<exists>s'. grow g s = Some s' \<and> ok s' \<and> index s' = index s \<and> key s' = key s"

text \<open>A client that adds an item only under a new key and removes only keys it finds.\<close>

fun index_run ::
  "('k \<Rightarrow> 's \<Rightarrow> nat option option) \<Rightarrow> (nat \<Rightarrow> 's \<Rightarrow> 's option) \<Rightarrow> ('k \<Rightarrow> 's \<Rightarrow> 's option) \<Rightarrow>
   ('s \<Rightarrow> nat \<Rightarrow> 'k option) \<Rightarrow> ('g \<Rightarrow> 's \<Rightarrow> 's option) \<Rightarrow> ('k, 'g) index_op list \<Rightarrow> 's \<Rightarrow> 's option" where
  "index_run find_key add remove key grow [] s = Some s"
| "index_run find_key add remove key grow (AddItem a # ops) s = do {
     s' \<leftarrow> (case key s a of
       None \<Rightarrow> Some s
     | Some k \<Rightarrow> do { r \<leftarrow> find_key k s; case r of None \<Rightarrow> add a s | Some _ \<Rightarrow> Some s });
     index_run find_key add remove key grow ops s' }"
| "index_run find_key add remove key grow (RemoveKey k # ops) s = do {
     r \<leftarrow> find_key k s;
     s' \<leftarrow> (case r of None \<Rightarrow> Some s | Some _ \<Rightarrow> remove k s);
     index_run find_key add remove key grow ops s' }"
| "index_run find_key add remove key grow (Grow g # ops) s = do {
     s' \<leftarrow> grow g s; index_run find_key add remove key grow ops s' }"

text \<open>The same client on a map.\<close>

fun index_spec :: "(nat \<Rightarrow> 'k option) \<Rightarrow> ('k, 'g) index_op list \<Rightarrow> ('k \<rightharpoonup> nat) \<Rightarrow> 'k \<rightharpoonup> nat" where
  "index_spec key [] m = m"
| "index_spec key (AddItem a # ops) m =
     index_spec key ops (case key a of None \<Rightarrow> m | Some k \<Rightarrow> if m k = None then m(k \<mapsto> a) else m)"
| "index_spec key (RemoveKey k # ops) m = index_spec key ops (m(k := None))"
| "index_spec key (Grow g # ops) m = index_spec key ops m"

context growing_index
begin

theorem run_refines:
  "ok s \<Longrightarrow> \<exists>s'. index_run find_key add remove key grow ops s = Some s' \<and> ok s' \<and>
     index s' = index_spec (key s) ops (index s)"
proof (induction ops arbitrary: s)
  case Nil
  then show ?case by simp
next
  case (Cons op ops)
  show ?case
  proof (cases op)
    case (AddItem a)
    show ?thesis
    proof (cases "key s a")
      case None
      then show ?thesis using Cons AddItem by simp
    next
      case (Some k)
      show ?thesis
      proof (cases "index s k")
        case None
        then obtain s' where s': "add a s = Some s'" "ok s'" "index s' = (index s)(k \<mapsto> a)" "key s' = key s"
          using add_ok [OF Cons.prems Some] by blast
        have "index_run find_key add remove key grow (op # ops) s = index_run find_key add remove key grow ops s'"
          using s'(1) Cons.prems AddItem Some None find_ok by simp
        moreover have "index_spec (key s) (op # ops) (index s) = index_spec (key s') ops (index s')"
          using AddItem Some None s'(3,4) by simp
        ultimately show ?thesis using Cons.IH [OF s'(2)] by simp
      next
        case (Some b)
        then show ?thesis using Cons AddItem \<open>key s a = Some k\<close> find_ok by simp
      qed
    qed
  next
    case (RemoveKey k)
    show ?thesis
    proof (cases "index s k")
      case None
      then have "(index s)(k := None) = index s" by auto
      then show ?thesis using Cons RemoveKey None find_ok by simp
    next
      case (Some a)
      then obtain s' where s': "remove k s = Some s'" "ok s'" "index s' = (index s)(k := None)" "key s' = key s"
        using remove_ok [OF Cons.prems] by blast
      have "index_run find_key add remove key grow (op # ops) s = index_run find_key add remove key grow ops s'"
        using s'(1) Cons.prems RemoveKey Some find_ok by simp
      moreover have "index_spec (key s) (op # ops) (index s) = index_spec (key s') ops (index s')"
        using RemoveKey s'(3,4) by simp
      ultimately show ?thesis using Cons.IH [OF s'(2)] by simp
    qed
  next
    case (Grow g)
    obtain s' where "grow g s = Some s'" "ok s'" "index s' = index s" "key s' = key s"
      using grow_ok [OF Cons.prems] by blast
    then show ?thesis using Cons.IH [of s'] Grow by simp
  qed
qed

end

text \<open>
  The maintenance thread: a pass, or waking up with \<open>calloc\<close> succeeding or failing. Waking
  up happens where no expansion is under way, and a table of more than \<open>2 ^ 31\<close> buckets (16 GB
  of pointers) is not allocated: with twice as many the index of a bucket does not fit the \<open>int\<close> of the
  maintenance thread.
\<close>

datatype growth = Pass "bool list" | Wake bool

fun assoc_grow :: "(byte list \<Rightarrow> u32) \<Rightarrow> growth \<Rightarrow> 'a assoc_scheme \<Rightarrow> 'a assoc_scheme option" where
  "assoc_grow hash (Pass locks) s = maintenance_pass hash locks s"
| "assoc_grow hash (Wake calloc_ok) s =
     Some (if expanding s then s else assoc_expand (calloc_ok \<and> hashpower s < 31) s)"

definition item_key_at :: "'a assoc_scheme \<Rightarrow> nat \<Rightarrow> byte list option" where
  "item_key_at s a = map_option key_of (items s a)"

definition find_key_in :: "(byte list \<Rightarrow> u32) \<Rightarrow> byte list \<Rightarrow> 'a assoc_scheme \<Rightarrow> nat option option" where
  "find_key_in hash k s = assoc_find k (hash k) s"

definition add_item_to :: "(byte list \<Rightarrow> u32) \<Rightarrow> nat \<Rightarrow> 'a assoc_scheme \<Rightarrow> 'a assoc_scheme option" where
  "add_item_to hash a s = do { it \<leftarrow> items s a; assoc_insert a (hash (key_of it)) s }"

definition remove_key_from :: "(byte list \<Rightarrow> u32) \<Rightarrow> byte list \<Rightarrow> 'a assoc_scheme \<Rightarrow> 'a assoc_scheme option" where
  "remove_key_from hash k s = assoc_delete k (hash k) s"

definition index_ok :: "(byte list \<Rightarrow> u32) \<Rightarrow> 'a assoc_scheme \<Rightarrow> bool" where
  "index_ok hash s \<longleftrightarrow> assoc_ok hash s \<and> (\<forall>a it. items s a = Some it \<longrightarrow> key_ok it)"

lemma same_items_facts:
  assumes "same_items (items s) (items s')"
  shows "item_key_at s' = item_key_at s"
    and "(\<forall>a it. items s a = Some it \<longrightarrow> key_ok it) \<Longrightarrow> items s' a = Some it' \<Longrightarrow> key_ok it'"
proof -
  show "item_key_at s' = item_key_at s"
  proof
    fix a show "item_key_at s' a = item_key_at s a"
      using same_items_at [OF assms, of a] same_items_None [OF assms, of a]
      by (cases "items s a") (auto simp: item_key_at_def)
  qed
  assume k: "\<forall>a it. items s a = Some it \<longrightarrow> key_ok it" and a: "items s' a = Some it'"
  then obtain it where it: "items s a = Some it" using same_items_None [OF assms, of a] by fastforce
  from same_items_at [OF assms it] show "key_ok it'" using a k it by auto
qed

lemma amap_ok: "assoc_rep hash s ch \<Longrightarrow> find_key_in hash k s = Some (amap hash s k)"
  by (simp add: find_key_in_def amap_def assoc_find_rep split: option.splits)

lemma index_ok_I:
  assumes "index_ok hash s" "assoc_rep hash s' ch'" "same_items (items s) (items s')"
  shows "index_ok hash s'"
  using assms same_items_facts(2) [OF assms(3)] unfolding index_ok_def assoc_ok_def by blast

interpretation assoc_index: growing_index "find_key_in hash" "add_item_to hash" "remove_key_from hash"
  item_key_at "amap hash" "index_ok hash" "assoc_grow hash" for hash
proof unfold_locales
  fix s :: "'a assoc_scheme" and k
  assume "index_ok hash s"
  then show "find_key_in hash k s = Some (amap hash s k)" by (auto simp: index_ok_def assoc_ok_def amap_ok)
next
  fix s :: "'a assoc_scheme" and a k
  assume ok: "index_ok hash s" and k: "item_key_at s a = Some k" and new: "amap hash s k = None"
  obtain ch where rep: "assoc_rep hash s ch" using ok by (auto simp: index_ok_def assoc_ok_def)
  obtain it where it: "items s a = Some it" "key_of it = k" "key_ok it"
    using ok k by (auto simp: item_key_at_def index_ok_def)
  have na: "a \<notin> linked ch" using new amap_Some [OF rep, of k a] it by (auto simp: akey_def)
  let ?ch = "ch(bucket_slot s (hash k) := a # ch (bucket_slot s (hash k)))"
  obtain s' p where s': "assoc_insert a (hash k) s = Some s'" "assoc_rep hash s' ?ch"
    "items s' = (items s)(a \<mapsto> it\<lparr>h_next := p\<rparr>)"
    using assoc_insert_ok [OF rep it(1,3) na] new it(2) by auto
  have si: "same_items (items s) (items s')" using it(1) by (simp add: s'(3) same_items_upd)
  have "amap hash s' = (amap hash s)(k \<mapsto> a)"
  proof
    fix k'
    have "amap hash s' k' = Some b \<longleftrightarrow> ((amap hash s)(k \<mapsto> a)) k' = Some b" for b
      using amap_Some [OF s'(2), of k' b] amap_Some [OF rep, of k' b] same_items_akey [OF si] it new na
      by (auto simp: linked_cons akey_def)
    then show "amap hash s' k' = ((amap hash s)(k \<mapsto> a)) k'" by (metis option.exhaust)
  qed
  moreover have "add_item_to hash a s = Some s'" using it s'(1) by (simp add: add_item_to_def)
  ultimately show "\<exists>s'. add_item_to hash a s = Some s' \<and> index_ok hash s' \<and>
      amap hash s' = (amap hash s)(k \<mapsto> a) \<and> item_key_at s' = item_key_at s"
    using index_ok_I [OF ok s'(2) si] same_items_facts(1) [OF si] by blast
next
  fix s :: "'a assoc_scheme" and k a
  assume ok: "index_ok hash s" and a: "amap hash s k = Some a"
  obtain ch where rep: "assoc_rep hash s ch" using ok by (auto simp: index_ok_def assoc_ok_def)
  obtain s' ch' where s': "assoc_delete k (hash k) s = Some s'" "assoc_rep hash s' ch'" "linked ch' = linked ch - {a}"
    "same_items (items s) (items s')"
    using assoc_delete_ok [OF rep a] by blast
  have al: "a \<in> linked ch" "akey (items s) a = k" using amap_Some [OF rep] a by auto
  have "amap hash s' = (amap hash s)(k := None)"
  proof
    fix k'
    have "amap hash s' k' = Some b \<longleftrightarrow> ((amap hash s)(k := None)) k' = Some b" for b
      using amap_Some [OF s'(2), of k' b] amap_Some [OF rep, of k' b] same_items_akey [OF s'(4)] s'(3) a al
        amap_Some [OF rep, of k b] by auto
    then show "amap hash s' k' = ((amap hash s)(k := None)) k'" by (metis option.exhaust)
  qed
  then show "\<exists>s'. remove_key_from hash k s = Some s' \<and> index_ok hash s' \<and>
      amap hash s' = (amap hash s)(k := None) \<and> item_key_at s' = item_key_at s"
    using s'(1) index_ok_I [OF ok s'(2,4)] same_items_facts(1) [OF s'(4)] by (auto simp: remove_key_from_def)
next
  fix s :: "'a assoc_scheme" and g
  assume ok: "index_ok hash s"
  obtain ch where rep: "assoc_rep hash s ch" using ok by (auto simp: index_ok_def assoc_ok_def)
  obtain s' ch' where s': "assoc_grow hash g s = Some s'" "assoc_rep hash s' ch'" "linked ch' = linked ch"
    "same_items (items s) (items s')"
  proof (cases g)
    case (Pass locks)
    then show ?thesis using maintenance_pass_ok [OF rep, of locks] that by auto
  next
    case (Wake c)
    show ?thesis
    proof (cases "expanding s")
      case True
      then show ?thesis using rep Wake that by simp
    next
      case False
      then show ?thesis
        using assoc_expand_ok [OF rep False, of "c \<and> hashpower s < 31"] Wake that
        by (auto simp: assoc_expand_def)
    qed
  qed
  have "amap hash s' = amap hash s"
    using amap_eqI [OF rep s'(2,3)] same_items_akey [OF s'(4)] by blast
  then show "\<exists>s'. assoc_grow hash g s = Some s' \<and> index_ok hash s' \<and> amap hash s' = amap hash s \<and>
      item_key_at s' = item_key_at s"
    using s'(1) index_ok_I [OF ok s'(2,4)] same_items_facts(1) [OF s'(4)] by blast
qed

lemma empty_table_rep:
  assumes "hashpower s \<le> 32" "\<not> expanding s" "primary_hashtable s = replicate (unat (hashsize (hashpower s))) None" "hash_items s = 0"
  shows "assoc_rep hash s (\<lambda>_. [])"
proof -
  have "unat (hashsize (hashpower s)) = 2 ^ hashpower s" using assms(1) by (intro unat_hashsize) simp
  then show ?thesis
    using assms by (auto simp: assoc_rep_def tables_ok_def chains_def placed_def slots_def linked_def)
qed

lemma assoc_init_ok:
  assumes "assoc_init n c heap = Some s" "n \<le> 32"
  shows "assoc_rep hash s (\<lambda>_. [])" "items s = heap"
proof -
  have n: "hashpower s \<le> 32" "\<not> expanding s" "primary_hashtable s = replicate (unat (hashsize (hashpower s))) None"
    "hash_items s = 0" "items s = heap"
    using assms by (auto simp: assoc_init_def Let_def split: if_splits)
  then show "assoc_rep hash s (\<lambda>_. [])" by (intro empty_table_rep) simp_all
  show "items s = heap" by (rule n(5))
qed

text \<open>
  Moving an item whose hash value has its top bit set into a table of \<open>2 ^ 32\<close> buckets indexes the
  table with a negative number.
\<close>

lemma migration_overflows:
  assumes "items s a = Some it" and "hashpower s = 32" and "2147483648 \<le> unat (hash (key_of it))"
  shows "migrate_chain hash (Some a) s = None"
  using assms int_bucket_overflows [OF assms(3)] by (subst migrate_chain.simps) simp

section \<open>Properties\<close>
text \<open>Three items and a table of two buckets, for the witnesses.\<close>

definition plain_item :: "byte list \<Rightarrow> item" where
  "plain_item k = \<lparr>it_next = None, it_prev = None, h_next = None, it_time = 0, exptime = 0, nbytes = 2,
     refcount = 1, nsuffix = 0, it_flags = 0, slabs_clsid = 1, nkey = of_nat (length k), it_cas = 0,
     it_key = k, it_suffix = [], it_data = [13, 10]\<rparr>"

definition sample_items :: item_heap where
  "sample_items = [1 \<mapsto> plain_item [97], 2 \<mapsto> plain_item [98], 3 \<mapsto> plain_item [99]]"

definition sample_table :: assoc where
  "sample_table = the (assoc_init 1 True sample_items)"

lemma sample_table_init: "assoc_init 1 True sample_items = Some sample_table"
  by (simp add: sample_table_def assoc_init_def Let_def)

lemma sample_items_ok: "\<forall>a it. sample_items a = Some it \<longrightarrow> unat (nkey it) \<le> length (it_key it)"
  by (auto simp: sample_items_def plain_item_def)

lemma sample_table_ok: "index_ok hash (assoc_expand True sample_table)" "expanding (assoc_expand True sample_table)"
  "hashpower (assoc_expand True sample_table) = 2" "expand_bucket (assoc_expand True sample_table) = 0"
proof -
  have rep: "assoc_rep hash sample_table (\<lambda>_. [])" and i: "items sample_table = sample_items"
    using assoc_init_ok [OF sample_table_init] by simp_all
  have f: "\<not> expanding sample_table" "hashpower sample_table = 1"
    by (simp_all add: sample_table_def assoc_init_def Let_def)
  obtain ch' where "assoc_rep hash (assoc_expand True sample_table) ch'"
    using assoc_expand_ok [OF rep f(1), of True] f(2) by auto
  then show "index_ok hash (assoc_expand True sample_table)"
    using sample_items_ok i by (auto simp: index_ok_def assoc_ok_def key_ok_def assoc_expand_def)
  show "expanding (assoc_expand True sample_table)" "hashpower (assoc_expand True sample_table) = 2"
    "expand_bucket (assoc_expand True sample_table) = 0"
    using f by (simp_all add: assoc_expand_def)
qed

text \<open>
  Claim C25. The hash table is a map: after any sequence of insertions, deletions and steps of
  the maintenance thread (passes that move buckets, with any outcome of the locks, and the
  start of an expansion, with \<open>calloc\<close> succeeding or failing, up to \<open>2 ^ 31\<close> buckets), a search finds for every key
  exactly the item that was inserted last under it and not deleted since, whatever the hash
  function; no assertion fails and no chain is left broken.
\<close>

theorem assoc_refines_map:
  assumes "assoc_init n True heap = Some s" and "n \<le> 32"
    and "\<forall>a it. heap a = Some it \<longrightarrow> unat (nkey it) \<le> length (it_key it)"
  shows "\<exists>s'. index_run (find_key_in hash) (add_item_to hash) (remove_key_from hash) item_key_at (assoc_grow hash) ops s
      = Some s' \<and>
    (\<forall>k. assoc_find k (hash k) s' = Some (index_spec (item_key_at s) ops Map.empty k))"
proof -
  have rep: "assoc_rep hash s (\<lambda>_. [])" by (rule assoc_init_ok [OF assms(1,2)])
  then have ok: "index_ok hash s"
    using assms(3) assoc_init_ok(2) [OF assms(1,2)] by (auto simp: index_ok_def assoc_ok_def key_ok_def)
  have e: "amap hash s = Map.empty"
    using amap_Some [OF rep] by (auto simp: linked_def fun_eq_iff) (metis option.exhaust)
  obtain s' where s': "index_run (find_key_in hash) (add_item_to hash) (remove_key_from hash) item_key_at (assoc_grow hash) ops s
      = Some s'" "index_ok hash s'" "amap hash s' = index_spec (item_key_at s) ops Map.empty"
    using assoc_index.run_refines [OF ok, of ops] unfolding e by blast
  then show ?thesis using assoc_index.find_ok [OF s'(2)] by (auto simp: find_key_in_def)
qed

theorem assoc_refines_map_witness:
  "\<exists>s'. index_run (find_key_in (\<lambda>k. of_nat (length k))) (add_item_to (\<lambda>k. of_nat (length k)))
      (remove_key_from (\<lambda>k. of_nat (length k))) item_key_at (assoc_grow (\<lambda>k. of_nat (length k)))
      [AddItem 1, AddItem 2, Grow (Wake True), Grow (Pass [True]), AddItem 3, RemoveKey [97], Grow (Pass [False, True])]
      sample_table = Some s' \<and>
    (\<forall>k. assoc_find k (of_nat (length k)) s' = Some (index_spec (item_key_at sample_table)
      ([AddItem 1, AddItem 2, Grow (Wake True), Grow (Pass [True]), AddItem 3, RemoveKey [97], Grow (Pass [False, True])]
       :: (byte list, growth) index_op list) Map.empty k))"
  by (rule assoc_refines_map [OF sample_table_init _ sample_items_ok]) simp

text \<open>
  Claim C26. An expansion (to at most \<open>2 ^ 31\<close> buckets, as the invariant says) comes to its end: from any state in the middle of one, as soon as the
  maintenance thread has got the lock of a bucket once for every bucket of the old table that
  is left, the expansion is over, and every search gives what it gave before.
\<close>

theorem expansion_completes:
  assumes "index_ok hash s" and "expanding s"
    and "2 ^ (hashpower s - 1) \<le> unat (expand_bucket s) + length (filter (\<lambda>l. l) locks)"
  shows "\<exists>s'. bulk_move hash locks s = Some s' \<and> \<not> expanding s' \<and> index_ok hash s' \<and>
    (\<forall>k. assoc_find k (hash k) s' = assoc_find k (hash k) s)"
proof -
  obtain ch where rep: "assoc_rep hash s ch" using assms(1) by (auto simp: index_ok_def assoc_ok_def)
  obtain s' ch' where s': "bulk_move hash locks s = Some s'" "assoc_rep hash s' ch'" "linked ch' = linked ch"
    "same_items (items s) (items s')" "\<not> expanding s'"
    using bulk_move_completes [OF rep assms(2,3)] by blast
  have "amap hash s' = amap hash s"
    using amap_eqI [OF rep s'(2,3)] same_items_akey [OF s'(4)] by blast
  then show ?thesis
    using s'(1,5) index_ok_I [OF assms(1) s'(2,4)] amap_ok [OF rep] amap_ok [OF s'(2)]
    by (auto simp: find_key_in_def)
qed

theorem expansion_completes_witness:
  "\<exists>s'. bulk_move (\<lambda>_. 3) [True, False, True] (assoc_expand True sample_table) = Some s' \<and> \<not> expanding s' \<and>
    index_ok (\<lambda>_. 3) s' \<and> (\<forall>k. assoc_find k 3 s' = assoc_find k 3 (assoc_expand True sample_table))"
  by (rule expansion_completes [OF sample_table_ok(1,2)]) (simp add: sample_table_ok(3,4))

end
