(* ===== verification/ItemList.thy ===== *)
theory ItemList
  imports Assoc
begin

text \<open>
  Doubly linked lists of items through the fields \<open>next\<close> and \<open>prev\<close>, as the LRU queues of
  items.c and the free lists of slabs.c have them: the list predicate, and what the pointer
  assignments that these files share do to it.
\<close>

section \<open>The pointer assignments\<close>

text \<open>\<open>if (p) p->prev = q\<close> and \<open>if (p) p->next = q\<close>\<close>

definition set_prev_of :: "nat option \<Rightarrow> nat option \<Rightarrow> item_heap \<Rightarrow> item_heap option" where
  "set_prev_of p q m = (case p of None \<Rightarrow> Some m
     | Some a \<Rightarrow> do { it \<leftarrow> m a; Some (m(a \<mapsto> it\<lparr>it_prev := q\<rparr>)) })"

definition set_next_of :: "nat option \<Rightarrow> nat option \<Rightarrow> item_heap \<Rightarrow> item_heap option" where
  "set_next_of p q m = (case p of None \<Rightarrow> Some m
     | Some a \<Rightarrow> do { it \<leftarrow> m a; Some (m(a \<mapsto> it\<lparr>it_next := q\<rparr>)) })"

section \<open>Lists\<close>

text \<open>\<open>p\<close> is the first of the items \<open>xs\<close>, its predecessor is \<open>pr\<close>, the last one has no successor.\<close>

primrec dlist :: "item_heap \<Rightarrow> nat option \<Rightarrow> nat option \<Rightarrow> nat list \<Rightarrow> bool" where
  "dlist m pr p [] \<longleftrightarrow> p = None"
| "dlist m pr p (a # as) \<longleftrightarrow> p = Some a \<and>
     (\<exists>it. m a = Some it \<and> it_prev it = pr \<and> dlist m (Some a) (it_next it) as)"

definition links :: "item_heap \<Rightarrow> nat \<Rightarrow> (nat option \<times> nat option) option" where
  "links m a = map_option (\<lambda>it. (it_next it, it_prev it)) (m a)"

lemma links_Some: "links m a = Some l \<longleftrightarrow> (\<exists>it. m a = Some it \<and> l = (it_next it, it_prev it))"
  by (auto simp: links_def)

lemma dlist_links: "\<forall>a \<in> set xs. links m' a = links m a \<Longrightarrow> dlist m' pr p xs = dlist m pr p xs"
proof (induction xs arbitrary: pr p)
  case (Cons a xs)
  have l: "links m' a = links m a" using Cons.prems by simp
  show ?case
  proof (cases "m a")
    case None
    then show ?thesis using l by (simp add: links_def)
  next
    case (Some it)
    then obtain it' where "m' a = Some it'" "it_next it' = it_next it" "it_prev it' = it_prev it"
      using l by (auto simp: links_def)
    then show ?thesis using Some Cons by simp
  qed
qed simp

lemma dlist_upd [simp]: "a \<notin> set xs \<Longrightarrow> dlist (m(a := v)) pr p xs = dlist m pr p xs"
  by (rule dlist_links) (auto simp: links_def)

lemma dlist_alloc: "dlist m pr p xs \<Longrightarrow> a \<in> set xs \<Longrightarrow> m a \<noteq> None"
  by (induction xs arbitrary: pr p) auto

lemma dlist_empty: "dlist m pr p xs \<Longrightarrow> p = None \<longleftrightarrow> xs = []"
  by (cases xs) auto

lemma dlist_hd: "dlist m pr p xs \<Longrightarrow> p = (if xs = [] then None else Some (hd xs))"
  by (cases xs) auto

text \<open>The successor and the predecessor of an item in the middle.\<close>

lemma dlist_middle:
  "dlist m pr p (xs @ a # ys) \<Longrightarrow> m a = Some it \<Longrightarrow>
     it_next it = (if ys = [] then None else Some (hd ys)) \<and>
     it_prev it = (if xs = [] then pr else Some (last xs))"
proof (induction xs arbitrary: pr p)
  case Nil
  then show ?case using dlist_hd [of m "Some a" "it_next it" ys] by auto
next
  case (Cons x xs)
  then obtain q where "dlist m (Some x) q (xs @ a # ys)" by auto
  from Cons.IH [OF this Cons.prems(2)] show ?case by simp
qed

text \<open>Two heaps with the same items up to the fields \<open>next\<close> and \<open>prev\<close>.\<close>

definition same_but_links :: "item_heap \<Rightarrow> item_heap \<Rightarrow> bool" where
  "same_but_links m m' \<longleftrightarrow> (\<forall>a. map_option (\<lambda>it. it\<lparr>it_next := None, it_prev := None\<rparr>) (m' a) =
     map_option (\<lambda>it. it\<lparr>it_next := None, it_prev := None\<rparr>) (m a))"

lemma same_but_links_refl [simp]: "same_but_links m m"
  by (simp add: same_but_links_def)

lemma same_but_links_trans: "same_but_links m m' \<Longrightarrow> same_but_links m' m'' \<Longrightarrow> same_but_links m m''"
  by (simp add: same_but_links_def)

lemma same_but_links_upd:
  "m a = Some it \<Longrightarrow> it'\<lparr>it_next := None, it_prev := None\<rparr> = it\<lparr>it_next := None, it_prev := None\<rparr> \<Longrightarrow>
   same_but_links m (m(a \<mapsto> it'))"
  by (simp add: same_but_links_def)

lemma same_but_links_at:
  assumes "same_but_links m m'" "m a = Some it"
  shows "\<exists>n p. m' a = Some (it\<lparr>it_next := n, it_prev := p\<rparr>)"
proof -
  obtain it' where it': "m' a = Some it'"
    "it'\<lparr>it_next := None, it_prev := None\<rparr> = it\<lparr>it_next := None, it_prev := None\<rparr>"
    using assms unfolding same_but_links_def by (metis (no_types, lifting) map_option_eq_Some option.simps(9))
  have "it' = (it'\<lparr>it_next := None, it_prev := None\<rparr>)\<lparr>it_next := it_next it', it_prev := it_prev it'\<rparr>" by simp
  then have "it' = it\<lparr>it_next := it_next it', it_prev := it_prev it'\<rparr>" unfolding it'(2) by simp
  then have "m' a = Some (it\<lparr>it_next := it_next it', it_prev := it_prev it'\<rparr>)" using it'(1) by (rule subst)
  then show ?thesis by blast
qed

lemma same_but_links_None: "same_but_links m m' \<Longrightarrow> m' a = None \<longleftrightarrow> m a = None"
  by (auto simp: same_but_links_def) (metis option.map_disc_iff)+

lemma set_prev_of_ok:
  assumes "\<forall>a. p = Some a \<longrightarrow> m a \<noteq> None"
  shows "\<exists>m'. set_prev_of p q m = Some m' \<and> same_but_links m m' \<and> (\<forall>b. p \<noteq> Some b \<longrightarrow> m' b = m b) \<and>
    (\<forall>a it. p = Some a \<longrightarrow> m a = Some it \<longrightarrow> m' a = Some (it\<lparr>it_prev := q\<rparr>))"
proof (cases p)
  case (Some a)
  then obtain it where "m a = Some it" using assms by auto
  then show ?thesis using Some by (auto simp: set_prev_of_def intro!: same_but_links_upd)
qed (simp add: set_prev_of_def)

lemma set_next_of_ok:
  assumes "\<forall>a. p = Some a \<longrightarrow> m a \<noteq> None"
  shows "\<exists>m'. set_next_of p q m = Some m' \<and> same_but_links m m' \<and> (\<forall>b. p \<noteq> Some b \<longrightarrow> m' b = m b) \<and>
    (\<forall>a it. p = Some a \<longrightarrow> m a = Some it \<longrightarrow> m' a = Some (it\<lparr>it_next := q\<rparr>))"
proof (cases p)
  case (Some a)
  then obtain it where "m a = Some it" using assms by auto
  then show ?thesis using Some by (auto simp: set_next_of_def intro!: same_but_links_upd)
qed (simp add: set_next_of_def)

section \<open>Pushing and removing\<close>

text \<open>\<open>it->prev = 0; it->next = head; if (it->next) it->next->prev = it\<close>\<close>

lemma dlist_push:
  assumes "dlist m None p xs" "a \<notin> set xs" "distinct xs" "m a = Some it"
  shows "\<exists>m'. set_prev_of p (Some a) (m(a \<mapsto> it\<lparr>it_prev := None, it_next := p\<rparr>)) = Some m' \<and>
    dlist m' None (Some a) (a # xs) \<and> same_but_links m m' \<and> (\<forall>b. b \<notin> set (a # xs) \<longrightarrow> m' b = m b)"
proof -
  let ?m = "m(a \<mapsto> it\<lparr>it_prev := None, it_next := p\<rparr>)"
  have p: "p = (if xs = [] then None else Some (hd xs))" by (rule dlist_hd [OF assms(1)])
  have "\<forall>b. p = Some b \<longrightarrow> ?m b \<noteq> None" using dlist_alloc [OF assms(1)] p by (cases xs) auto
  from set_prev_of_ok [OF this, of "Some a"] obtain m' where m': "set_prev_of p (Some a) ?m = Some m'"
    "same_but_links ?m m'" "\<forall>b. p \<noteq> Some b \<longrightarrow> m' b = ?m b"
    "\<forall>b it. p = Some b \<longrightarrow> ?m b = Some it \<longrightarrow> m' b = Some (it\<lparr>it_prev := Some a\<rparr>)" by blast
  have "same_but_links m ?m" using assms(4) by (intro same_but_links_upd) simp_all
  then have "same_but_links m m'" using m'(2) by (rule same_but_links_trans)
  moreover have "dlist m' None (Some a) (a # xs)"
  proof (cases xs)
    case Nil
    then show ?thesis using m'(3) p by simp
  next
    case (Cons x ys)
    then obtain ix where ix: "m x = Some ix" "dlist m (Some x) (it_next ix) ys" using assms(1) by auto
    have "dlist m' (Some x) (it_next ix) ys"
      using ix(2) assms(2,3) m'(3) p Cons
      by (subst dlist_links [of _ _ m]) (auto simp: links_def)
    then show ?thesis using Cons p m'(3,4) ix(1) assms(2) by auto
  qed
  moreover have "\<forall>b. b \<notin> set (a # xs) \<longrightarrow> m' b = m b" using m'(3) p by (cases xs) auto
  ultimately show ?thesis using m'(1) by blast
qed

text \<open>\<open>if (it->next) it->next->prev = it->prev; if (it->prev) it->prev->next = it->next\<close>\<close>

definition unlink_links :: "nat \<Rightarrow> item_heap \<Rightarrow> item_heap option" where
  "unlink_links a m = do {
     it \<leftarrow> m a;
     m1 \<leftarrow> set_prev_of (it_next it) (it_prev it) m;
     it1 \<leftarrow> m1 a;
     set_next_of (it_prev it1) (it_next it1) m1 }"

lemma dlist_remove_step:
  assumes "dlist m pr p (xs @ a # ys)" "distinct (xs @ a # ys)" "m a = Some it"
    and m1: "\<forall>b. it_next it \<noteq> Some b \<longrightarrow> m1 b = m b"
      "\<forall>b ib. it_next it = Some b \<longrightarrow> m b = Some ib \<longrightarrow> m1 b = Some (ib\<lparr>it_prev := it_prev it\<rparr>)"
    and m2: "\<forall>b. it_prev it \<noteq> Some b \<longrightarrow> m2 b = m1 b"
      "\<forall>b ib. it_prev it = Some b \<longrightarrow> m1 b = Some ib \<longrightarrow> m2 b = Some (ib\<lparr>it_next := it_next it\<rparr>)"
    and pr: "xs = [] \<Longrightarrow> pr = None \<or> (\<exists>z. pr = Some z \<and> z \<notin> set (a # ys))"
  shows "dlist m2 pr (if xs = [] then it_next it else p) (xs @ ys)"
proof -
  note mid = dlist_middle [OF assms(1,3)]
  have ys: "dlist m2 (if xs = [] then pr else Some (last xs)) (it_next it) ys"
  proof (cases ys)
    case Nil
    then show ?thesis using mid by simp
  next
    case (Cons y zs)
    have "dlist m (Some a) (it_next it) (y # zs)"
      using assms(1,3) Cons by (induction xs arbitrary: pr p) auto
    then obtain iy where iy: "m y = Some iy" "dlist m (Some y) (it_next iy) zs" by auto
    have y: "y \<notin> set xs" "y \<noteq> a" "y \<notin> set zs" using assms(2) Cons by auto
    have m1y: "m1 y = Some (iy\<lparr>it_prev := it_prev it\<rparr>)" using m1(2) mid Cons iy(1) by simp
    have ny: "it_prev it \<noteq> Some y" using mid y(1) pr Cons last_in_set [of xs] by (auto split: if_splits)
    then have m2y: "m2 y = Some (iy\<lparr>it_prev := it_prev it\<rparr>)" using m2(1) m1y by simp
    have "links m2 b = links m b" if "b \<in> set zs" for b
    proof -
      have "it_next it \<noteq> Some b" using mid Cons that y(3) by auto
      moreover have "it_prev it \<noteq> Some b"
        using mid that pr Cons assms(2) last_in_set [of xs] by (auto simp: disjoint_iff split: if_splits)
      ultimately show ?thesis using m1(1) m2(1) by (simp add: links_def)
    qed
    then have "dlist m2 (Some y) (it_next iy) zs" using iy(2) dlist_links [of zs m2 m] by blast
    then show ?thesis using Cons mid m2y by simp
  qed
  show ?thesis
  proof (cases xs rule: rev_cases)
    case Nil
    then show ?thesis using ys by simp
  next
    case (snoc ws l)
    have l: "it_prev it = Some l" using mid snoc by simp
    have nn: "it_next it \<noteq> Some b" if "b \<in> set xs" for b
      using mid assms(2) that hd_in_set [of ys] by (auto split: if_splits)
    have wl: "links m2 b = links m b" if "b \<in> set ws" for b
    proof -
      have "it_prev it \<noteq> Some b" using l that assms(2) snoc by auto
      then show ?thesis using nn [of b] that snoc m1(1) m2(1) by (simp add: links_def)
    qed
    have ml: "\<And>il. m l = Some il \<Longrightarrow> m2 l = Some (il\<lparr>it_next := it_next it\<rparr>)"
      using nn [of l] snoc m1(1) m2(2) l by simp
    have "dlist m pr' p' (ws @ l # a # ys) \<Longrightarrow> \<forall>b \<in> set ws. links m2 b = links m b \<Longrightarrow>
        dlist m2 pr' p' (ws @ l # ys)" for pr' p' ws
    proof (induction ws arbitrary: pr' p')
      case Nil
      then obtain il where "p' = Some l" "m l = Some il" "it_prev il = pr'" by auto
      then show ?case using ml ys snoc by simp
    next
      case (Cons w ws)
      then obtain iw where iw: "p' = Some w" "m w = Some iw" "it_prev iw = pr'"
        "dlist m (Some w) (it_next iw) (ws @ l # a # ys)" by auto
      then have "dlist m2 (Some w) (it_next iw) (ws @ l # ys)" using Cons by simp
      moreover have "links m2 w = links m w" using Cons.prems(2) by simp
      ultimately show ?case using iw by (auto simp: links_def)
    qed
    from this [of pr p ws] show ?thesis using assms(1) snoc wl by simp
  qed
qed

lemma dlist_remove:
  assumes "dlist m None p (xs @ a # ys)" "distinct (xs @ a # ys)"
  shows "\<exists>m' it. m a = Some it \<and> unlink_links a m = Some m' \<and>
    dlist m' None (if xs = [] then it_next it else p) (xs @ ys) \<and> same_but_links m m' \<and>
    (\<forall>b. b \<notin> set (xs @ ys) \<longrightarrow> m' b = m b)"
proof -
  obtain it where it: "m a = Some it" using dlist_alloc [OF assms(1), of a] by auto
  note mid = dlist_middle [OF assms(1) it]
  have al: "m b \<noteq> None" if "b \<in> set (xs @ a # ys)" for b using dlist_alloc [OF assms(1) that] .
  have "\<forall>b. it_next it = Some b \<longrightarrow> m b \<noteq> None" using mid al hd_in_set [of ys] by (auto split: if_splits)
  from set_prev_of_ok [OF this, of "it_prev it"] obtain m1 where m1: "set_prev_of (it_next it) (it_prev it) m = Some m1"
    "same_but_links m m1" "\<forall>b. it_next it \<noteq> Some b \<longrightarrow> m1 b = m b"
    "\<forall>b ib. it_next it = Some b \<longrightarrow> m b = Some ib \<longrightarrow> m1 b = Some (ib\<lparr>it_prev := it_prev it\<rparr>)" by blast
  have na: "it_next it \<noteq> Some a" using mid assms(2) hd_in_set [of ys] by (auto split: if_splits)
  then have m1a: "m1 a = Some it" using m1(3) it by simp
  have "\<forall>b. it_prev it = Some b \<longrightarrow> m1 b \<noteq> None"
    using mid al last_in_set [of xs] same_but_links_None [OF m1(2)] by (auto split: if_splits)
  from set_next_of_ok [OF this, of "it_next it"] obtain m2 where m2: "set_next_of (it_prev it) (it_next it) m1 = Some m2"
    "same_but_links m1 m2" "\<forall>b. it_prev it \<noteq> Some b \<longrightarrow> m2 b = m1 b"
    "\<forall>b ib. it_prev it = Some b \<longrightarrow> m1 b = Some ib \<longrightarrow> m2 b = Some (ib\<lparr>it_next := it_next it\<rparr>)" by blast
  have d: "dlist m2 None (if xs = [] then it_next it else p) (xs @ ys)"
    by (rule dlist_remove_step [OF assms it m1(3,4) m2(3,4)]) simp
  have "m2 b = m b" if "b \<notin> set (xs @ ys)" for b
  proof -
    have "it_next it \<noteq> Some b" "it_prev it \<noteq> Some b"
      using mid that hd_in_set [of ys] last_in_set [of xs] by (auto split: if_splits)
    then show ?thesis using m1(3) m2(3) by simp
  qed
  moreover have "unlink_links a m = Some m2" using it m1(1) m1a m2(1) by (simp add: unlink_links_def)
  ultimately show ?thesis using it d same_but_links_trans [OF m1(2) m2(2)] by blast
qed

end
