(* ===== verification/Slabs.thy ===== *)
theory Slabs
  imports ItemList ObjCache "HOL-Library.Signed_Division"
begin

text \<open>
  The slab allocator of memcached (slabs.c): the table of chunk sizes, the free list of each
  class (a doubly linked list through the \<open>next\<close> and \<open>prev\<close> fields of the freed items), new
  pages with the memory limit and the pool of spare pages, and the allocation and release of
  items. The answers of \<open>malloc\<close> and \<open>realloc\<close> are part of the state. \<open>None\<close> is a failed
  assertion or undefined behaviour.
\<close>

section \<open>Settings, chunks, slab classes\<close>

text \<open>The fields of \<open>struct settings\<close> that the modelled code reads.\<close>

record settings =
  item_size_max :: int
  slab_chunk_size_max :: int
  slab_page_size :: int
  slab_reassign :: bool
  use_cas :: bool
  lru_segmented :: bool
  maxbytes :: u64
  oldest_live :: u32
  oldest_cas :: u64
  evict_to_free :: bool
  slab_automove :: int
  tail_repair_time :: int
  hot_lru_pct :: int
  warm_lru_pct :: int
  hot_max_age :: u32
  inline_ascii_response :: bool
  temp_lru :: bool
  temporary_ttl :: u32

text \<open>\<open>item_chunk\<close>; the chunk inside the header item is named by the address of the item.\<close>

record item_chunk =
  ch_next :: "nat option"
  ch_prev :: "nat option"
  ch_head :: "nat option"
  ch_size :: u32
  ch_used :: u32
  ch_nbytes :: int
  ch_refcount :: u16
  orig_clsid :: u8
  ch_flags :: u8
  ch_clsid :: u8
  ch_data :: "byte list"

record slabclass =
  sc_size :: u32
  perslab :: u32
  free_slots :: "nat option"
  sl_curr :: u32
  sc_slabs :: u32
  slab_list :: "nat list"
  list_size :: u32
  requested :: u64

record slabs = assoc +
  settings :: settings
  chunks :: "nat \<Rightarrow> item_chunk option"
  hdr_chunks :: "nat \<Rightarrow> item_chunk option"
  slabclass :: "slabclass list"
  mem_limit :: u64
  mem_malloced :: u64
  mem_limit_reached :: bool
  power_largest :: nat
  mem_base :: "nat option"
  mem_current :: nat
  mem_avail :: u64
  malloc_plan :: "nat option list"
  realloc_plan :: "bool list"

definition ITEM_LINKED :: u8 where [simp]: "ITEM_LINKED = 1"
definition ITEM_CAS :: u8 where [simp]: "ITEM_CAS = 2"
definition ITEM_SLABBED :: u8 where [simp]: "ITEM_SLABBED = 4"
definition ITEM_FETCHED :: u8 where [simp]: "ITEM_FETCHED = 8"
definition ITEM_ACTIVE :: u8 where [simp]: "ITEM_ACTIVE = 16"
definition ITEM_CHUNKED :: u8 where [simp]: "ITEM_CHUNKED = 32"
definition ITEM_CHUNK :: u8 where [simp]: "ITEM_CHUNK = 64"

text \<open>Both structures take 48 bytes; they share their layout up to \<open>slabs_clsid\<close>.\<close>

definition sizeof_item :: nat where [simp]: "sizeof_item = 48"

definition chunk_as_item :: "item_chunk \<Rightarrow> item" where
  "chunk_as_item c = \<lparr>it_next = ch_next c, it_prev = ch_prev c, h_next = ch_head c, it_time = ch_size c,
     exptime = ch_used c, nbytes = ch_nbytes c, refcount = ch_refcount c, nsuffix = orig_clsid c,
     it_flags = ch_flags c, slabs_clsid = ch_clsid c, nkey = 0, it_cas = 0, it_key = [], it_suffix = [], it_data = []\<rparr>"

definition zero_item :: item where
  "zero_item = \<lparr>it_next = None, it_prev = None, h_next = None, it_time = 0, exptime = 0, nbytes = 0, refcount = 0,
     nsuffix = 0, it_flags = 0, slabs_clsid = 0, nkey = 0, it_cas = 0, it_key = [], it_suffix = [], it_data = []\<rparr>"

section \<open>The table of classes\<close>

text \<open>The loop of \<open>slabs_clsid\<close>, by the number of classes that are left.\<close>

fun clsid_loop :: "slabclass list \<Rightarrow> u64 \<Rightarrow> nat \<Rightarrow> nat \<Rightarrow> nat \<Rightarrow> nat option" where
  "clsid_loop cs sz largest res 0 = None"
| "clsid_loop cs sz largest res (Suc fuel) =
     (if res < length cs
      then if ucast (sc_size (cs ! res)) < sz
           then if res = largest then Some largest else clsid_loop cs sz largest (res + 1) fuel
           else Some res
      else None)"

definition slabs_clsid_of :: "u64 \<Rightarrow> 'a slabs_scheme \<Rightarrow> nat option" where
  "slabs_clsid_of sz s =
     (if sz = 0 \<or> word_of_int (item_size_max (settings s)) < sz then Some 0
      else clsid_loop (slabclass s) sz (power_largest s) 1 64)"

text \<open>
  The loop of \<open>slabs_init\<close>. The arithmetic on \<open>double\<close> is a parameter: \<open>at_limit\<close> is the test
  \<open>size >= settings.slab_chunk_size_max / factor\<close> and \<open>enlarge\<close> the assignment \<open>size *= factor\<close>.
\<close>

definition align_size :: "u32 \<Rightarrow> u32" where
  "align_size sz = (if sz mod 8 \<noteq> 0 then sz + (8 - sz mod 8) else sz)"

fun init_classes ::
  "int \<Rightarrow> (u32 \<Rightarrow> bool) \<Rightarrow> (u32 \<Rightarrow> u32) \<Rightarrow> u32 list option \<Rightarrow> nat \<Rightarrow> u32 \<Rightarrow> nat \<Rightarrow> slabclass list \<Rightarrow>
   (nat \<times> slabclass list) option" where
  "init_classes page at_limit enlarge slab_sizes i sz 0 cs = Some (i, cs)"
| "init_classes page at_limit enlarge slab_sizes i sz (Suc n) cs =
     (case slab_sizes of
        Some ss \<Rightarrow>
          if length ss < i then None
          else if ss ! (i - 1) = 0 then Some (i, cs)
          else let sz' = align_size (ss ! (i - 1));
                   c = (cs ! i)\<lparr>sc_size := sz', perslab := word_of_int page div sz'\<rparr>
               in if sz' = 0 then None
                  else init_classes page at_limit enlarge slab_sizes (i + 1) sz' n (cs[i := c])
      | None \<Rightarrow>
          if at_limit sz then Some (i, cs)
          else let sz' = align_size sz;
                   c = (cs ! i)\<lparr>sc_size := sz', perslab := word_of_int page div sz'\<rparr>
               in if sz' = 0 then None
                  else init_classes page at_limit enlarge slab_sizes (i + 1) (enlarge sz') n (cs[i := c]))"

definition empty_class :: slabclass where
  "empty_class = \<lparr>sc_size = 0, perslab = 0, free_slots = None, sl_curr = 0, sc_slabs = 0, slab_list = [],
     list_size = 0, requested = 0\<rparr>"

text \<open>The classes and \<open>power_largest\<close>.\<close>

definition slabs_init_classes ::
  "settings \<Rightarrow> int \<Rightarrow> (u32 \<Rightarrow> bool) \<Rightarrow> (u32 \<Rightarrow> u32) \<Rightarrow> u32 list option \<Rightarrow> (nat \<times> slabclass list) option" where
  "slabs_init_classes st chunk_size at_limit enlarge slab_sizes = do {
     (i, cs) \<leftarrow> init_classes (slab_page_size st) at_limit enlarge slab_sizes 1
                 (of_nat sizeof_item + word_of_int chunk_size) 62 (replicate 64 empty_class);
     if slab_chunk_size_max st = 0 then None
     else Some (i, cs[i := (cs ! i)\<lparr>sc_size := word_of_int (slab_chunk_size_max st),
                         perslab := word_of_int (slab_page_size st sdiv slab_chunk_size_max st)\<rparr>]) }"

section \<open>Releasing\<close>

definition upd_class :: "nat \<Rightarrow> (slabclass \<Rightarrow> slabclass) \<Rightarrow> 'a slabs_scheme \<Rightarrow> 'a slabs_scheme" where
  "upd_class i f s = s\<lparr>slabclass := (slabclass s)[i := f (slabclass s ! i)]\<rparr>"

text \<open>
  \<open>it->prev = 0; it->next = p->slots; if (it->next) it->next->prev = it; p->slots = it; p->sl_curr++\<close>
\<close>

definition put_free :: "nat \<Rightarrow> nat \<Rightarrow> 'a slabs_scheme \<Rightarrow> 'a slabs_scheme option" where
  "put_free cid a s = (if cid < length (slabclass s) then do {
     it \<leftarrow> items s a;
     let p = slabclass s ! cid;
     m \<leftarrow> set_prev_of (free_slots p) (Some a) ((items s)(a \<mapsto> it\<lparr>it_prev := None, it_next := free_slots p\<rparr>));
     Some (upd_class cid (\<lambda>p. p\<lparr>free_slots := Some a, sl_curr := sl_curr p + 1\<rparr>) (s\<lparr>items := m\<rparr>)) }
   else None)"

definition take_requested :: "nat \<Rightarrow> u64 \<Rightarrow> 'a slabs_scheme \<Rightarrow> 'a slabs_scheme" where
  "take_requested cid n = upd_class cid (\<lambda>p. p\<lparr>requested := requested p - n\<rparr>)"

text \<open>The chunks behind the header; each becomes a free item of its class.\<close>

partial_function (option) free_chunks :: "nat option \<Rightarrow> 'a slabs_scheme \<Rightarrow> 'a slabs_scheme option" where
  "free_chunks chunk s =
     (case chunk of
        None \<Rightarrow> Some s
      | Some a \<Rightarrow> do {
          c \<leftarrow> chunks s a;
          if ch_flags c \<noteq> ITEM_CHUNK then None
          else do {
            let cid = unat (ch_clsid c);
            s1 \<leftarrow> put_free cid a (s\<lparr>chunks := (chunks s)(a := None),
              items := (items s)(a \<mapsto> chunk_as_item (c\<lparr>ch_flags := ITEM_SLABBED, ch_clsid := 0\<rparr>))\<rparr>);
            free_chunks (ch_next c) (take_requested cid (scast (ch_size c) + of_nat sizeof_item) s1) } })"

definition do_slabs_free_chunked :: "nat \<Rightarrow> 'a slabs_scheme \<Rightarrow> 'a slabs_scheme option" where
  "do_slabs_free_chunked a s = do {
     it \<leftarrow> items s a;
     chunk \<leftarrow> hdr_chunks s a;
     let cid = unat (orig_clsid chunk);
     s1 \<leftarrow> put_free cid a (s\<lparr>items := (items s)(a \<mapsto> it\<lparr>it_flags := ITEM_SLABBED, slabs_clsid := 0\<rparr>)\<rparr>);
     free_chunks (ch_next chunk)
       (take_requested cid (ucast (nkey it) + 1 + ucast (nsuffix it) + of_nat sizeof_item + of_nat sizeof_item +
          (if use_cas (settings s) then 8 else 0)) s1) }"

definition do_slabs_free :: "nat \<Rightarrow> u64 \<Rightarrow> nat \<Rightarrow> 'a slabs_scheme \<Rightarrow> 'a slabs_scheme option" where
  "do_slabs_free a sz cid s =
     (if cid < 1 \<or> power_largest s < cid then None
      else do {
        it \<leftarrow> items s a;
        if it_flags it AND ITEM_CHUNKED = 0
        then do {
          s1 \<leftarrow> put_free cid a (s\<lparr>items := (items s)(a \<mapsto> it\<lparr>it_flags := ITEM_SLABBED, slabs_clsid := 0\<rparr>)\<rparr>);
          Some (take_requested cid sz s1) }
        else do_slabs_free_chunked a s })"

section \<open>New pages\<close>

text \<open>\<open>realloc\<close> leaves the new entries of the array indeterminate; they are written before they are read.\<close>

definition grow_slab_list :: "nat \<Rightarrow> 'a slabs_scheme \<Rightarrow> bool \<times> 'a slabs_scheme" where
  "grow_slab_list cid s =
     (let p = slabclass s ! cid
      in if sc_slabs p = list_size p
         then let new_size = (if list_size p \<noteq> 0 then list_size p * 2 else 16)
              in case realloc_plan s of
                False # rs \<Rightarrow> (False, s\<lparr>realloc_plan := rs\<rparr>)
              | rs \<Rightarrow> (True, upd_class cid (\<lambda>p. p\<lparr>list_size := new_size,
                         slab_list := slab_list p @ replicate (unat new_size - length (slab_list p)) 0\<rparr>)
                       (s\<lparr>realloc_plan := tl rs\<rparr>))
         else (True, s))"

definition get_page_from_global_pool :: "'a slabs_scheme \<Rightarrow> (nat option \<times> 'a slabs_scheme) option" where
  "get_page_from_global_pool s =
     (let p = slabclass s ! 0
      in if sc_slabs p < 1 then Some (None, s)
         else if unat (sc_slabs p) - 1 < length (slab_list p)
         then Some (Some (slab_list p ! (unat (sc_slabs p) - 1)), upd_class 0 (\<lambda>p. p\<lparr>sc_slabs := sc_slabs p - 1\<rparr>) s)
         else None)"

text \<open>With \<open>mem_base == NULL\<close> the size is counted even where \<open>malloc\<close> fails.\<close>

definition memory_allocate :: "u64 \<Rightarrow> 'a slabs_scheme \<Rightarrow> nat option \<times> 'a slabs_scheme" where
  "memory_allocate sz s =
     (case mem_base s of
        None \<Rightarrow> (case malloc_plan s of
            [] \<Rightarrow> (None, s\<lparr>mem_malloced := mem_malloced s + sz\<rparr>)
          | r # rs \<Rightarrow> (r, s\<lparr>mem_malloced := mem_malloced s + sz, malloc_plan := rs\<rparr>))
      | Some _ \<Rightarrow>
          if mem_avail s < sz then (None, s)
          else let sz' = (if sz mod 8 \<noteq> 0 then sz + (8 - sz mod 8) else sz)
               in (Some (mem_current s),
                   s\<lparr>mem_current := mem_current s + unat sz',
                     mem_avail := (if sz' < mem_avail s then mem_avail s - sz' else 0),
                     mem_malloced := mem_malloced s + sz'\<rparr>))"

text \<open>
  \<open>memset (ptr, 0, len)\<close>: whatever was in the page is gone, and where the class will have its
  items there are items with all fields zero, as far as the \<open>len\<close> bytes reach. What the headers
  beyond are is not known, and reading one is undefined.
\<close>

definition chunk_starts :: "nat \<Rightarrow> slabclass \<Rightarrow> nat list" where
  "chunk_starts ptr p = map (\<lambda>x. ptr + x * unat (sc_size p)) [0..<unat (perslab p)]"

definition clear_page :: "nat \<Rightarrow> nat \<Rightarrow> slabclass \<Rightarrow> 'a slabs_scheme \<Rightarrow> 'a slabs_scheme" where
  "clear_page ptr len p s = s\<lparr>
     items := (\<lambda>a. if a \<in> set (chunk_starts ptr p) \<and> a + min sizeof_item (unat (sc_size p)) \<le> ptr + len then Some zero_item
                  else if ptr \<le> a \<and> a < ptr + len then None else items s a),
     chunks := (\<lambda>a. if ptr \<le> a \<and> a < ptr + len then None else chunks s a),
     hdr_chunks := (\<lambda>a. if ptr \<le> a \<and> a < ptr + len then None else hdr_chunks s a)\<rparr>"

fun free_all :: "nat \<Rightarrow> nat list \<Rightarrow> 'a slabs_scheme \<Rightarrow> 'a slabs_scheme option" where
  "free_all cid [] s = Some s"
| "free_all cid (a # as) s = do { s' \<leftarrow> do_slabs_free a 0 cid s; free_all cid as s' }"

definition split_slab_page_into_freelist :: "nat \<Rightarrow> nat \<Rightarrow> 'a slabs_scheme \<Rightarrow> 'a slabs_scheme option" where
  "split_slab_page_into_freelist ptr cid s = free_all cid (chunk_starts ptr (slabclass s ! cid)) s"

definition page_len :: "nat \<Rightarrow> 'a slabs_scheme \<Rightarrow> u64" where
  "page_len cid s =
     (let st = settings s; p = slabclass s ! cid
      in if slab_reassign st \<or> slab_chunk_size_max st \<noteq> slab_page_size st
         then word_of_int (slab_page_size st) else scast (sc_size p * perslab p))"

definition add_page :: "nat \<Rightarrow> nat \<Rightarrow> 'a slabs_scheme \<Rightarrow> 'a slabs_scheme option" where
  "add_page cid ptr s =
     (let p = slabclass s ! cid
      in if unat (sc_slabs p) < length (slab_list p)
         then Some (upd_class cid (\<lambda>p. p\<lparr>slab_list := (slab_list p)[unat (sc_slabs p) := ptr],
                                        sc_slabs := sc_slabs p + 1\<rparr>) s)
         else None)"

definition do_slabs_newslab :: "nat \<Rightarrow> 'a slabs_scheme \<Rightarrow> (bool \<times> 'a slabs_scheme) option" where
  "do_slabs_newslab cid s =
     (let p = slabclass s ! cid; len = page_len cid s
      in if mem_limit s \<noteq> 0 \<and> mem_limit s < mem_malloced s + len \<and> 0 < sc_slabs p \<and> sc_slabs (slabclass s ! 0) = 0
         then Some (False, s\<lparr>mem_limit_reached := True\<rparr>)
         else (case grow_slab_list cid s of (grown, s1) \<Rightarrow>
           if \<not> grown then Some (False, s1)
           else do {
             (pooled, s2) \<leftarrow> get_page_from_global_pool s1;
             (case (case pooled of None \<Rightarrow> memory_allocate len s2 | Some ptr \<Rightarrow> (Some ptr, s2)) of
                (None, s3) \<Rightarrow> Some (False, s3)
              | (Some ptr, s3) \<Rightarrow> do {
                  s4 \<leftarrow> split_slab_page_into_freelist ptr cid (clear_page ptr (unat len) (slabclass s3 ! cid) s3);
                  s5 \<leftarrow> add_page cid ptr s4;
                  Some (True, s5) }) }))"

section \<open>Start\<close>

text \<open>The pages of \<open>slabs_preallocate\<close>, one for each class; \<open>False\<close> is \<open>exit (1)\<close>.\<close>

fun preallocate :: "nat list \<Rightarrow> 'a slabs_scheme \<Rightarrow> (bool \<times> 'a slabs_scheme) option" where
  "preallocate [] s = Some (True, s)"
| "preallocate (i # is) s = do { (b, s') \<leftarrow> do_slabs_newslab i s; if b then preallocate is s' else Some (False, s') }"

definition slabs_preallocate :: "nat \<Rightarrow> 'a slabs_scheme \<Rightarrow> (bool \<times> 'a slabs_scheme) option" where
  "slabs_preallocate maxslabs = preallocate [1..<Suc (min maxslabs 63)]"

text \<open>
  \<open>memalign\<close> is the outcome of \<open>posix_memalign\<close>: \<open>None\<close> an error, otherwise the address if
  it is not \<open>NULL\<close>. \<open>initial\<close> is the number in the variable \<open>T_MEMD_INITIAL_MALLOC\<close>.
  The result is \<open>False\<close> where the process exits.
\<close>

definition slabs_init ::
  "u64 \<Rightarrow> bool \<Rightarrow> nat option option \<Rightarrow> u64 option \<Rightarrow> int \<Rightarrow> (u32 \<Rightarrow> bool) \<Rightarrow> (u32 \<Rightarrow> u32) \<Rightarrow> u32 list option \<Rightarrow>
   'a slabs_scheme \<Rightarrow> (bool \<times> 'a slabs_scheme) option" where
  "slabs_init limit prealloc memalign initial chunk_size at_limit enlarge slab_sizes s =
     (let s1 = s\<lparr>mem_limit := limit\<rparr>
      in if prealloc \<and> memalign = None then Some (False, s1)
         else do {
           let s2 = (case memalign of
                Some (Some base) \<Rightarrow> if prealloc then s1\<lparr>mem_base := Some base, mem_current := base, mem_avail := limit\<rparr> else s1
              | _ \<Rightarrow> s1);
           (largest, cs) \<leftarrow> slabs_init_classes (settings s2) chunk_size at_limit enlarge slab_sizes;
           let s3 = s2\<lparr>slabclass := cs, power_largest := largest\<rparr>;
           let s4 = (case initial of None \<Rightarrow> s3 | Some n \<Rightarrow> s3\<lparr>mem_malloced := n\<rparr>);
           if prealloc then slabs_preallocate largest s4 else Some (True, s4) })"

section \<open>Allocating\<close>

definition take_free :: "nat \<Rightarrow> nat \<Rightarrow> 'a slabs_scheme \<Rightarrow> 'a slabs_scheme option" where
  "take_free cid a s = do {
     it \<leftarrow> items s a;
     m \<leftarrow> set_prev_of (it_next it) None (items s);
     it' \<leftarrow> m a;
     Some (upd_class cid (\<lambda>p. p\<lparr>free_slots := it_next it, sl_curr := sl_curr p - 1\<rparr>)
       (s\<lparr>items := m(a \<mapsto> it'\<lparr>it_flags := it_flags it' AND NOT ITEM_SLABBED, refcount := 1\<rparr>)\<rparr>)) }"

text \<open>The result is the item, \<open>*total_bytes\<close> and the state.\<close>

definition do_slabs_alloc ::
  "u64 \<Rightarrow> nat \<Rightarrow> bool \<Rightarrow> 'a slabs_scheme \<Rightarrow> (nat option \<times> u64 \<times> 'a slabs_scheme) option" where
  "do_slabs_alloc sz cid no_newpage s =
     (if cid < 1 \<or> power_largest s < cid then Some (None, 0, s)
      else if length (slabclass s) \<le> cid then None
      else let p = slabclass s ! cid; total = requested p
      in do {
        _ \<leftarrow> (if sl_curr p = 0 then Some ()
             else do { a \<leftarrow> free_slots p; it \<leftarrow> items s a; if slabs_clsid it = 0 then Some () else None });
        if ucast (sc_size p) < sz then None
        else do {
          s1 \<leftarrow> (if sl_curr p = 0 \<and> \<not> no_newpage then map_option snd (do_slabs_newslab cid s) else Some s);
          if sl_curr (slabclass s1 ! cid) \<noteq> 0
          then do {
            a \<leftarrow> free_slots (slabclass s1 ! cid);
            s2 \<leftarrow> take_free cid a s1;
            Some (Some a, total, upd_class cid (\<lambda>p. p\<lparr>requested := requested p + sz\<rparr>) s2) }
          else Some (None, total, s1) } })"

definition slabs_alloc ::
  "u64 \<Rightarrow> nat \<Rightarrow> bool \<Rightarrow> 'a slabs_scheme \<Rightarrow> (nat option \<times> u64 \<times> 'a slabs_scheme) option" where
  "slabs_alloc = do_slabs_alloc"

definition slabs_free :: "nat \<Rightarrow> u64 \<Rightarrow> nat \<Rightarrow> 'a slabs_scheme \<Rightarrow> 'a slabs_scheme option" where
  "slabs_free = do_slabs_free"

section \<open>The memory limit and the counters\<close>

text \<open>\<open>memory_release\<close>: the pages given back to \<open>free\<close>, last first.\<close>

lemma unat_pred: "0 < (w :: u32) \<Longrightarrow> unat (w - 1) < unat w"
proof -
  assume "0 < w"
  then have "1 \<le> w" by (simp add: word_le_nat_alt word_less_nat_alt)
  then show ?thesis using unat_sub_nowrap [of 1 w] by (simp add: word_le_nat_alt)
qed

function release_loop :: "'a slabs_scheme \<Rightarrow> (nat list \<times> 'a slabs_scheme) option" where
  "release_loop s =
     (if mem_limit s < mem_malloced s \<and> 0 < sc_slabs (slabclass s ! 0) \<and> slabclass s \<noteq> []
      then do {
        (p, s1) \<leftarrow> get_page_from_global_pool s;
        ptr \<leftarrow> p;
        (ps, s2) \<leftarrow> release_loop (s1\<lparr>mem_malloced := mem_malloced s1 - word_of_int (item_size_max (settings s1))\<rparr>);
        Some (ptr # ps, s2) }
      else Some ([], s))"
  by auto

termination
proof (relation "measure (\<lambda>s. unat (sc_slabs (slabclass s ! 0)))")
  fix s :: "'a slabs_scheme" and r p s1 ptr
  assume g: "mem_limit s < mem_malloced s \<and> 0 < sc_slabs (slabclass s ! 0) \<and> slabclass s \<noteq> []"
    and "get_page_from_global_pool s = Some r" "(p, s1) = r" "p = Some ptr"
  then have s1: "s1 = upd_class 0 (\<lambda>p. p\<lparr>sc_slabs := sc_slabs p - 1\<rparr>) s"
    by (auto simp: get_page_from_global_pool_def Let_def split: if_splits)
  have "slabclass s1 ! 0 = (slabclass s ! 0)\<lparr>sc_slabs := sc_slabs (slabclass s ! 0) - 1\<rparr>"
    using g by (simp add: s1 upd_class_def)
  moreover have "unat (sc_slabs (slabclass s ! 0) - 1) < unat (sc_slabs (slabclass s ! 0))"
    using g by (intro unat_pred) simp
  ultimately show "(s1\<lparr>mem_malloced := mem_malloced s1 - word_of_int (item_size_max (settings s1))\<rparr>, s)
      \<in> measure (\<lambda>s. unat (sc_slabs (slabclass s ! 0)))" by simp
qed simp

declare release_loop.simps [simp del]

definition memory_release :: "'a slabs_scheme \<Rightarrow> (nat list \<times> 'a slabs_scheme) option" where
  "memory_release s =
     (if mem_base s \<noteq> None \<or> \<not> slab_reassign (settings s) then Some ([], s) else release_loop s)"

definition do_slabs_adjust_mem_limit :: "u64 \<Rightarrow> 'a slabs_scheme \<Rightarrow> (bool \<times> nat list \<times> 'a slabs_scheme) option" where
  "do_slabs_adjust_mem_limit new_mem_limit s =
     (if mem_base s \<noteq> None then Some (False, [], s)
      else do {
        (ps, s') \<leftarrow> memory_release (s\<lparr>settings := (settings s)\<lparr>maxbytes := new_mem_limit\<rparr>,
                     mem_limit := new_mem_limit, mem_limit_reached := False\<rparr>);
        Some (True, ps, s') })"

definition slabs_adjust_mem_requested :: "nat \<Rightarrow> u64 \<Rightarrow> u64 \<Rightarrow> 'a slabs_scheme \<Rightarrow> 'a slabs_scheme option" where
  "slabs_adjust_mem_requested cid old ntotal s =
     (if cid < 1 \<or> power_largest s < cid then None
      else Some (upd_class cid (\<lambda>p. p\<lparr>requested := requested p - old + ntotal\<rparr>) s))"

definition slabs_available_chunks :: "nat \<Rightarrow> 'a slabs_scheme \<Rightarrow> u32 \<times> bool \<times> u64 \<times> u32" where
  "slabs_available_chunks cid s =
     (let p = slabclass s ! cid in (sl_curr p, mem_limit_reached s, requested p, perslab p))"

section \<open>Free lists\<close>

lemma upd_class_simps [simp]:
  "cid < length (slabclass s) \<Longrightarrow> slabclass (upd_class cid f s) ! cid = f (slabclass s ! cid)"
  "j \<noteq> cid \<Longrightarrow> slabclass (upd_class cid f s) ! j = slabclass s ! j"
  "length (slabclass (upd_class cid f s)) = length (slabclass s)"
  "items (upd_class cid f s) = items s" "settings (upd_class cid f s) = settings s"
  "power_largest (upd_class cid f s) = power_largest s" "malloc_plan (upd_class cid f s) = malloc_plan s"
  "mem_base (upd_class cid f s) = mem_base s" "mem_limit (upd_class cid f s) = mem_limit s"
  "mem_malloced (upd_class cid f s) = mem_malloced s" "realloc_plan (upd_class cid f s) = realloc_plan s"
  by (simp_all add: upd_class_def)

text \<open>The free list of a class: its items carry the flag \<open>ITEM_SLABBED\<close> alone and no class.\<close>

definition freelist :: "item_heap \<Rightarrow> slabclass \<Rightarrow> nat list \<Rightarrow> bool" where
  "freelist m p fs \<longleftrightarrow> dlist m None (free_slots p) fs \<and> distinct fs \<and> sl_curr p = of_nat (length fs) \<and>
     (\<forall>a \<in> set fs. \<exists>it. m a = Some it \<and> it_flags it = ITEM_SLABBED \<and> slabs_clsid it = 0)"

lemma freelist_cong:
  "freelist m p fs \<Longrightarrow> free_slots p' = free_slots p \<Longrightarrow> sl_curr p' = sl_curr p \<Longrightarrow>
   \<forall>a \<in> set fs. m' a = m a \<Longrightarrow> freelist m' p' fs"
  using dlist_links [of fs m' m] by (simp add: freelist_def links_def)

lemma put_free_ok:
  assumes "freelist (items s) (slabclass s ! cid) fs" "cid < length (slabclass s)" "a \<notin> set fs"
    and "items s a = Some it" "it_flags it = ITEM_SLABBED" "slabs_clsid it = 0"
  shows "\<exists>s' m. put_free cid a s = Some s' \<and>
    s' = upd_class cid (\<lambda>p. p\<lparr>free_slots := Some a, sl_curr := sl_curr p + 1\<rparr>) (s\<lparr>items := m\<rparr>) \<and>
    freelist m (slabclass s' ! cid) (a # fs) \<and> (\<forall>b. b \<notin> set (a # fs) \<longrightarrow> m b = items s b)"
proof -
  let ?p = "slabclass s ! cid"
  have f: "dlist (items s) None (free_slots ?p) fs" "distinct fs" "sl_curr ?p = of_nat (length fs)"
    "\<forall>a \<in> set fs. \<exists>it. items s a = Some it \<and> it_flags it = ITEM_SLABBED \<and> slabs_clsid it = 0"
    using assms(1) by (simp_all add: freelist_def)
  obtain m where m: "set_prev_of (free_slots ?p) (Some a) ((items s)(a \<mapsto> it\<lparr>it_prev := None, it_next := free_slots ?p\<rparr>)) = Some m"
    "dlist m None (Some a) (a # fs)" "same_but_links (items s) m" "\<forall>b. b \<notin> set (a # fs) \<longrightarrow> m b = items s b"
    using dlist_push [OF f(1) assms(3) f(2) assms(4)] by blast
  let ?s = "upd_class cid (\<lambda>p. p\<lparr>free_slots := Some a, sl_curr := sl_curr p + 1\<rparr>) (s\<lparr>items := m\<rparr>)"
  have "\<exists>it. m b = Some it \<and> it_flags it = ITEM_SLABBED \<and> slabs_clsid it = 0" if b: "b \<in> set (a # fs)" for b
  proof -
    obtain ib where "items s b = Some ib" "it_flags ib = ITEM_SLABBED" "slabs_clsid ib = 0"
      using b f(4) assms(4,5,6) by auto
    then show ?thesis using same_but_links_at [OF m(3)] by fastforce
  qed
  then have "freelist m (slabclass ?s ! cid) (a # fs)"
    using m(2) f(2,3) assms(2,3) by (simp add: freelist_def)
  moreover have "put_free cid a s = Some ?s" using assms(2,4) m(1) by (simp add: put_free_def Let_def)
  ultimately show ?thesis using m(4) by blast
qed

text \<open>What releases, page splits and allocations leave alone.\<close>

definition same_slabs :: "nat \<Rightarrow> 'a slabs_scheme \<Rightarrow> 'a slabs_scheme \<Rightarrow> bool" where
  "same_slabs cid s s' \<longleftrightarrow> length (slabclass s') = length (slabclass s) \<and> settings s' = settings s \<and>
     power_largest s' = power_largest s \<and> mem_base s' = mem_base s \<and> malloc_plan s' = malloc_plan s \<and>
     (\<forall>j. j \<noteq> cid \<longrightarrow> slabclass s' ! j = slabclass s ! j) \<and>
     sc_size (slabclass s' ! cid) = sc_size (slabclass s ! cid) \<and>
     perslab (slabclass s' ! cid) = perslab (slabclass s ! cid) \<and>
     sc_slabs (slabclass s' ! cid) = sc_slabs (slabclass s ! cid) \<and>
     slab_list (slabclass s' ! cid) = slab_list (slabclass s ! cid) \<and>
     list_size (slabclass s' ! cid) = list_size (slabclass s ! cid)"

lemma same_slabs_refl [simp]: "same_slabs cid s s"
  by (simp add: same_slabs_def)

lemma same_slabs_trans: "same_slabs cid s s' \<Longrightarrow> same_slabs cid s' s'' \<Longrightarrow> same_slabs cid s s''"
  by (simp add: same_slabs_def)

lemma same_slabs_upd:
  "cid < length (slabclass s) \<Longrightarrow> (\<And>p. sc_size (f p) = sc_size p \<and> perslab (f p) = perslab p \<and> sc_slabs (f p) = sc_slabs p \<and>
     slab_list (f p) = slab_list p \<and> list_size (f p) = list_size p) \<Longrightarrow>
   same_slabs cid s (upd_class cid f (s\<lparr>items := m\<rparr>))"
  by (simp add: same_slabs_def)

lemma do_slabs_free_ok:
  assumes "freelist (items s) (slabclass s ! cid) fs" "cid < length (slabclass s)" "1 \<le> cid" "cid \<le> power_largest s"
    and "a \<notin> set fs" "items s a = Some it" "it_flags it AND ITEM_CHUNKED = 0"
  shows "\<exists>s'. do_slabs_free a sz cid s = Some s' \<and> freelist (items s') (slabclass s' ! cid) (a # fs) \<and>
    same_slabs cid s s' \<and> (\<forall>b. b \<notin> set (a # fs) \<longrightarrow> items s' b = items s b)"
proof -
  let ?s0 = "s\<lparr>items := (items s)(a \<mapsto> it\<lparr>it_flags := ITEM_SLABBED, slabs_clsid := 0\<rparr>)\<rparr>"
  have f0: "freelist (items ?s0) (slabclass ?s0 ! cid) fs"
    using assms(5) by (intro freelist_cong [OF assms(1)]) auto
  obtain s1 m where s1: "put_free cid a ?s0 = Some s1"
    "s1 = upd_class cid (\<lambda>p. p\<lparr>free_slots := Some a, sl_curr := sl_curr p + 1\<rparr>) (?s0\<lparr>items := m\<rparr>)"
    "freelist m (slabclass s1 ! cid) (a # fs)" "\<forall>b. b \<notin> set (a # fs) \<longrightarrow> m b = items ?s0 b"
    using put_free_ok [OF f0 _ assms(5), of "it\<lparr>it_flags := ITEM_SLABBED, slabs_clsid := 0\<rparr>"] assms(2) by auto
  let ?s' = "take_requested cid sz s1"
  have "do_slabs_free a sz cid s = Some ?s'"
    using assms(3,4,6,7) s1(1) by (simp add: do_slabs_free_def)
  moreover have "freelist (items ?s') (slabclass ?s' ! cid) (a # fs)"
    using assms(2) by (intro freelist_cong [OF s1(3)]) (simp_all add: take_requested_def s1(2))
  moreover have "same_slabs cid s ?s'"
    using assms(2) by (simp add: same_slabs_def take_requested_def s1(2))
  moreover have "\<forall>b. b \<notin> set (a # fs) \<longrightarrow> items ?s' b = items s b"
    using s1(4) by (simp add: take_requested_def s1(2))
  ultimately show ?thesis by blast
qed

lemma free_all_ok:
  assumes "freelist (items s) (slabclass s ! cid) fs" "cid < length (slabclass s)" "1 \<le> cid" "cid \<le> power_largest s"
    and "distinct (as @ fs)" "\<forall>a \<in> set as. \<exists>it. items s a = Some it \<and> it_flags it AND ITEM_CHUNKED = 0"
  shows "\<exists>s'. free_all cid as s = Some s' \<and> freelist (items s') (slabclass s' ! cid) (rev as @ fs) \<and>
    same_slabs cid s s' \<and> (\<forall>b. b \<notin> set (as @ fs) \<longrightarrow> items s' b = items s b)"
  using assms
proof (induction as arbitrary: s fs)
  case Nil
  then show ?case by simp
next
  case (Cons a as)
  obtain it where it: "items s a = Some it" "it_flags it AND ITEM_CHUNKED = 0" using Cons.prems(6) by auto
  have na: "a \<notin> set fs" using Cons.prems(5) by simp
  obtain s1 where s1: "do_slabs_free a 0 cid s = Some s1" "freelist (items s1) (slabclass s1 ! cid) (a # fs)"
    "same_slabs cid s s1" "\<forall>b. b \<notin> set (a # fs) \<longrightarrow> items s1 b = items s b"
    using do_slabs_free_ok [OF Cons.prems(1-4) na it] by blast
  have "\<exists>s'. free_all cid as s1 = Some s' \<and> freelist (items s') (slabclass s' ! cid) (rev as @ a # fs) \<and>
    same_slabs cid s1 s' \<and> (\<forall>b. b \<notin> set (as @ a # fs) \<longrightarrow> items s' b = items s1 b)"
  proof (rule Cons.IH [OF s1(2)])
    have "b \<notin> set (a # fs)" if "b \<in> set as" for b using that Cons.prems(5) by auto
    then show "\<forall>b \<in> set as. \<exists>it. items s1 b = Some it \<and> it_flags it AND ITEM_CHUNKED = 0"
      using s1(4) Cons.prems(6) by auto
  qed (use Cons.prems s1(3) in \<open>auto simp: same_slabs_def\<close>)
  then show ?case using s1(1,3,4) same_slabs_trans [OF s1(3)] by auto
qed

lemma take_free_ok:
  assumes "freelist (items s) (slabclass s ! cid) (a # fs)" "cid < length (slabclass s)"
  shows "\<exists>s' it. take_free cid a s = Some s' \<and> freelist (items s') (slabclass s' ! cid) fs \<and> same_slabs cid s s' \<and>
    items s' a = Some it \<and> it_flags it = 0 \<and> refcount it = 1 \<and> slabs_clsid it = 0 \<and>
    (\<forall>b. b \<notin> set (a # fs) \<longrightarrow> items s' b = items s b)"
proof -
  let ?p = "slabclass s ! cid"
  obtain it where it: "items s a = Some it" "it_flags it = ITEM_SLABBED" "slabs_clsid it = 0"
    "dlist (items s) (Some a) (it_next it) fs" "a \<notin> set fs" "distinct fs"
    using assms(1) by (auto simp: freelist_def)
  have n: "it_next it = (if fs = [] then None else Some (hd fs))" by (rule dlist_hd [OF it(4)])
  have "\<forall>b. it_next it = Some b \<longrightarrow> items s b \<noteq> None" using dlist_alloc [OF it(4)] n by (cases fs) auto
  from set_prev_of_ok [OF this, of None] obtain m where m: "set_prev_of (it_next it) None (items s) = Some m"
    "same_but_links (items s) m" "\<forall>b. it_next it \<noteq> Some b \<longrightarrow> m b = items s b"
    "\<forall>b ib. it_next it = Some b \<longrightarrow> items s b = Some ib \<longrightarrow> m b = Some (ib\<lparr>it_prev := None\<rparr>)" by blast
  have ma: "m a = Some it" using m(3) n it(1,5) by (cases fs) auto
  let ?m = "m(a \<mapsto> it\<lparr>it_flags := it_flags it AND NOT ITEM_SLABBED, refcount := 1\<rparr>)"
  let ?s' = "upd_class cid (\<lambda>p. p\<lparr>free_slots := it_next it, sl_curr := sl_curr p - 1\<rparr>) (s\<lparr>items := ?m\<rparr>)"
  have "dlist ?m None (it_next it) fs"
  proof (cases fs)
    case (Cons x xs)
    then obtain ix where ix: "items s x = Some ix" "dlist (items s) (Some x) (it_next ix) xs" using it(4) by auto
    have "dlist m (Some x) (it_next ix) xs"
      using ix(2) it(6) m(3) n Cons by (subst dlist_links [of _ _ "items s"]) (auto simp: links_def)
    then show ?thesis using Cons n m(4) ix(1) it(5) by auto
  qed (use n in simp)
  moreover have "\<exists>it. ?m b = Some it \<and> it_flags it = ITEM_SLABBED \<and> slabs_clsid it = 0" if "b \<in> set fs" for b
  proof -
    obtain ib where "items s b = Some ib" "it_flags ib = ITEM_SLABBED" "slabs_clsid ib = 0"
      using assms(1) \<open>b \<in> set fs\<close> by (auto simp: freelist_def)
    then show ?thesis using same_but_links_at [OF m(2)] \<open>b \<in> set fs\<close> it(5) by fastforce
  qed
  ultimately have "freelist (items ?s') (slabclass ?s' ! cid) fs"
    using assms it(6) by (simp add: freelist_def)
  moreover have "take_free cid a s = Some ?s'" using it(1) m(1) ma by (simp add: take_free_def)
  moreover have "same_slabs cid s ?s'" by (rule same_slabs_upd [OF assms(2)]) simp
  moreover have "\<forall>b. b \<notin> set (a # fs) \<longrightarrow> items ?s' b = items s b" using m(3) n by (cases fs) auto
  ultimately show ?thesis using it(2,3) by (intro exI [of _ ?s']) simp
qed

section \<open>A class as a pool of items\<close>

lemma same_slabs_len: "same_slabs cid s s' \<Longrightarrow> page_len cid s' = page_len cid s"
  by (simp add: same_slabs_def page_len_def Let_def)

text \<open>The pages that \<open>malloc\<close> is going to return overlap neither each other nor items in use.\<close>

fun fresh_pages :: "nat \<Rightarrow> nat option list \<Rightarrow> nat set \<Rightarrow> bool" where
  "fresh_pages len [] used \<longleftrightarrow> True"
| "fresh_pages len (None # rs) used \<longleftrightarrow> fresh_pages len rs used"
| "fresh_pages len (Some ptr # rs) used \<longleftrightarrow>
     {ptr..<ptr + len} \<inter> used = {} \<and> fresh_pages len rs (used \<union> {ptr..<ptr + len})"

lemma fresh_pages_mono: "fresh_pages len rs used \<Longrightarrow> used' \<subseteq> used \<Longrightarrow> fresh_pages len rs used'"
proof (induction len rs used arbitrary: used' rule: fresh_pages.induct)
  case (3 len ptr rs used)
  have "used' \<union> {ptr..<ptr + len} \<subseteq> used \<union> {ptr..<ptr + len}" using 3(3) by blast
  then show ?case using 3 by auto
qed simp_all

lemma chunk_starts_ok:
  assumes "0 < unat (sc_size p)" "unat (sc_size p) * unat (perslab p) \<le> len"
  shows "distinct (chunk_starts ptr p)" "set (chunk_starts ptr p) \<subseteq> {ptr..<ptr + len}"
    "length (chunk_starts ptr p) = unat (perslab p)"
proof -
  show "distinct (chunk_starts ptr p)" using assms(1) by (auto simp: chunk_starts_def distinct_map inj_on_def)
  have "x * unat (sc_size p) < len" if "x < unat (perslab p)" for x
  proof -
    have "x * unat (sc_size p) < unat (perslab p) * unat (sc_size p)" using that assms(1) by (rule mult_less_mono1)
    moreover have "unat (perslab p) * unat (sc_size p) \<le> len" using assms(2) by (simp only: mult.commute)
    ultimately show ?thesis by (rule less_le_trans)
  qed
  then show "set (chunk_starts ptr p) \<subseteq> {ptr..<ptr + len}" by (auto simp: chunk_starts_def)
qed (simp add: chunk_starts_def)

lemma chunk_starts_ends:
  assumes "unat (sc_size p) * unat (perslab p) \<le> len" "c \<in> set (chunk_starts ptr p)"
  shows "ptr \<le> c" "c + unat (sc_size p) \<le> ptr + len"
proof -
  obtain x where x: "x < unat (perslab p)" "c = ptr + x * unat (sc_size p)" using assms(2) by (auto simp: chunk_starts_def)
  have "Suc x * unat (sc_size p) \<le> unat (perslab p) * unat (sc_size p)" using x(1) by (intro mult_le_mono1) simp
  then show "ptr \<le> c" "c + unat (sc_size p) \<le> ptr + len" using x(2) assms(1) by (simp_all add: mult.commute)
qed

definition class_ok :: "nat \<Rightarrow> nat \<Rightarrow> nat \<Rightarrow> 'a slabs_scheme \<Rightarrow> bool" where
  "class_ok cid n k s \<longleftrightarrow> (let p = slabclass s ! cid in
     1 \<le> cid \<and> cid \<le> power_largest s \<and> cid < length (slabclass s) \<and> mem_base s = None \<and>
     sc_slabs (slabclass s ! 0) = 0 \<and> 0 < unat (sc_size p) \<and> unat (perslab p) = n \<and>
     unat (sc_size p) * n \<le> unat (page_len cid s) \<and> length (slab_list p) = unat (list_size p) \<and>
     unat (sc_slabs p) \<le> unat (list_size p) \<and> unat (sc_slabs p) \<le> k \<and> unat (list_size p) \<le> max 16 (2 * k))"

lemma class_ok_same: "class_ok cid n k s \<Longrightarrow> same_slabs cid s s' \<Longrightarrow> class_ok cid n k s'"
proof -
  assume ok: "class_ok cid n k s" and same: "same_slabs cid s s'"
  have "0 \<noteq> cid" using ok by (auto simp: class_ok_def Let_def)
  then have "slabclass s' ! 0 = slabclass s ! 0" using same unfolding same_slabs_def by blast
  then show ?thesis using ok same same_slabs_len [OF same] by (simp add: class_ok_def Let_def same_slabs_def)
qed

lemma class_ok_mono: "class_ok cid n k s \<Longrightarrow> class_ok cid n (Suc k) s"
  by (auto simp: class_ok_def Let_def)

text \<open>
  Where the chunks of a class are: each has the bytes of its size for itself and lies inside a page that
  \<open>malloc\<close> returned (\<open>pg\<close> are the pages it has returned or is going to, and their length).
\<close>

definition chunk_bytes :: "nat \<Rightarrow> nat set \<Rightarrow> nat set" where
  "chunk_bytes w A = (\<Union>a \<in> A. {a..<a + w})"

definition layout :: "nat set \<times> nat \<Rightarrow> nat \<Rightarrow> 'a slabs_scheme \<Rightarrow> nat set \<Rightarrow> bool" where
  "layout pg cid s A \<longleftrightarrow> (let w = unat (sc_size (slabclass s ! cid)); len = unat (page_len cid s) in
     (\<forall>a \<in> A. \<forall>b \<in> A. a < b \<longrightarrow> a + w \<le> b) \<and> fresh_pages len (malloc_plan s) (chunk_bytes w A) \<and>
     (\<forall>p. Some p \<in> set (malloc_plan s) \<longrightarrow> p \<in> fst pg) \<and> len = snd pg \<and>
     (\<forall>a \<in> A. \<exists>p \<in> fst pg. p \<le> a \<and> a + w \<le> p + len))"

lemma layoutD:
  assumes "layout pg cid s A"
  shows "a \<in> A \<Longrightarrow> b \<in> A \<Longrightarrow> a < b \<Longrightarrow> a + unat (sc_size (slabclass s ! cid)) \<le> b"
    and "fresh_pages (unat (page_len cid s)) (malloc_plan s) (chunk_bytes (unat (sc_size (slabclass s ! cid))) A)"
    and "Some p \<in> set (malloc_plan s) \<Longrightarrow> p \<in> fst pg" and "unat (page_len cid s) = snd pg"
    and "a \<in> A \<Longrightarrow> \<exists>p \<in> fst pg. p \<le> a \<and> a + unat (sc_size (slabclass s ! cid)) \<le> p + unat (page_len cid s)"
  using assms unfolding layout_def Let_def by blast+

lemma layout_same: "same_slabs cid s s' \<Longrightarrow> layout pg cid s' A = layout pg cid s A"
  using same_slabs_len [of cid s s'] by (simp add: layout_def same_slabs_def)

text \<open>The chunks of a fresh page beside those that are there.\<close>

lemma layout_page:
  assumes lay: "layout pg cid s A" and plan: "malloc_plan s = Some ptr # rs"
    and w: "0 < unat (sc_size (slabclass s ! cid))"
      "unat (sc_size (slabclass s ! cid)) * unat (perslab (slabclass s ! cid)) \<le> unat (page_len cid s)"
    and s': "sc_size (slabclass s' ! cid) = sc_size (slabclass s ! cid)" "page_len cid s' = page_len cid s" "malloc_plan s' = rs"
  shows "layout pg cid s' (A \<union> set (chunk_starts ptr (slabclass s ! cid)))"
proof -
  let ?w = "unat (sc_size (slabclass s ! cid))" and ?n = "unat (perslab (slabclass s ! cid))" and ?len = "unat (page_len cid s)"
  let ?C = "set (chunk_starts ptr (slabclass s ! cid))"
  note l = layoutD [OF lay]
  have out: "{ptr..<ptr + ?len} \<inter> chunk_bytes ?w A = {}" and fr: "fresh_pages ?len rs (chunk_bytes ?w A \<union> {ptr..<ptr + ?len})"
    using l(2) unfolding plan fresh_pages.simps by blast+
  have pg: "ptr \<in> fst pg" "\<forall>p. Some p \<in> set rs \<longrightarrow> p \<in> fst pg" using l(3) unfolding plan by simp_all
  note inside = chunk_starts_ends [OF w(2), of _ ptr]
  have new: "c + ?w \<le> d" if cd: "c \<in> ?C" "d \<in> ?C" "c < d" for c d
  proof -
    obtain x y where xy: "c = ptr + x * ?w" "d = ptr + y * ?w" using cd(1,2) by (auto simp: chunk_starts_def)
    then have "x < y" using cd(3) w(1) by simp
    then have "Suc x * ?w \<le> y * ?w" by (intro mult_le_mono1) simp
    then show ?thesis using xy by simp
  qed
  have old: "a + ?w \<le> ptr \<or> ptr + ?len \<le> a" if ac: "a \<in> A" "c \<in> ?C" for a c
  proof (rule ccontr)
    assume h: "\<not> (a + ?w \<le> ptr \<or> ptr + ?len \<le> a)"
    have "max a ptr \<in> {ptr..<ptr + ?len} \<inter> chunk_bytes ?w A"
      using h ac(1) w(1) inside [OF ac(2)] by (auto simp: chunk_bytes_def intro!: bexI [of _ a])
    then show False using out by simp
  qed
  have "a + ?w \<le> b" if ab: "a \<in> A \<union> ?C" "b \<in> A \<union> ?C" "a < b" for a b
  proof -
    consider "a \<in> A" "b \<in> A" | "a \<in> A" "b \<in> ?C" | "a \<in> ?C" "b \<in> A" | "a \<in> ?C" "b \<in> ?C" using ab(1,2) by blast
    then show ?thesis
    proof cases
      case 1
      then show ?thesis using l(1) ab(3) by blast
    next
      case 2
      then show ?thesis using old [OF 2] inside [OF 2(2)] ab(3) by linarith
    next
      case 3
      then show ?thesis using old [OF 3(2,1)] inside [OF 3(1)] ab(3) by linarith
    next
      case 4
      then show ?thesis using new ab(3) by blast
    qed
  qed
  moreover have "chunk_bytes ?w (A \<union> ?C) \<subseteq> chunk_bytes ?w A \<union> {ptr..<ptr + ?len}"
    using inside by (fastforce simp: chunk_bytes_def)
  then have "fresh_pages ?len rs (chunk_bytes ?w (A \<union> ?C))" using fr by (rule fresh_pages_mono [rotated])
  moreover have "\<forall>a \<in> A \<union> ?C. \<exists>p \<in> fst pg. p \<le> a \<and> a + ?w \<le> p + ?len" using l(5) pg(1) inside by blast
  ultimately show ?thesis using pg(2) l(4) unfolding layout_def Let_def s' by blast
qed

text \<open>\<open>us\<close> are the items handed out; \<open>k\<close> bounds the number of allocations so far.\<close>

definition pool_of :: "nat set \<times> nat \<Rightarrow> nat \<Rightarrow> nat \<Rightarrow> nat \<Rightarrow> 'a slabs_scheme \<Rightarrow> nat list \<Rightarrow> nat list \<Rightarrow> bool" where
  "pool_of pg cid n k s us fs \<longleftrightarrow> class_ok cid n k s \<and> freelist (items s) (slabclass s ! cid) fs \<and> distinct (us @ fs) \<and>
     (\<forall>a \<in> set us. \<exists>it. items s a = Some it \<and> it_flags it AND ITEM_CHUNKED = 0) \<and>
     length us + length fs \<le> k * n \<and> layout pg cid s (set (us @ fs))"

definition class_pool_ok :: "u64 \<Rightarrow> nat set \<times> nat \<Rightarrow> nat \<Rightarrow> nat \<Rightarrow> nat \<Rightarrow> 'a slabs_scheme \<Rightarrow> nat list \<Rightarrow> bool" where
  "class_pool_ok sz pg cid n k s us \<longleftrightarrow> sz \<le> ucast (sc_size (slabclass s ! cid)) \<and> (\<exists>fs. pool_of pg cid n k s us fs)"

definition class_get :: "u64 \<Rightarrow> nat \<Rightarrow> 'a slabs_scheme \<Rightarrow> (nat option \<times> 'a slabs_scheme) option" where
  "class_get sz cid s = map_option (\<lambda>(r, total, s'). (r, s')) (slabs_alloc sz cid False s)"

definition class_put :: "u64 \<Rightarrow> nat \<Rightarrow> nat \<Rightarrow> 'a slabs_scheme \<Rightarrow> 'a slabs_scheme option" where
  "class_put sz cid a s = slabs_free a sz cid s"

definition item_write :: "nat \<Rightarrow> item \<Rightarrow> 'a slabs_scheme \<Rightarrow> 'a slabs_scheme option" where
  "item_write a it s = (if items s a = None then None else Some (s\<lparr>items := (items s)(a \<mapsto> it)\<rparr>))"

definition item_read :: "nat \<Rightarrow> 'a slabs_scheme \<Rightarrow> item option" where
  "item_read a s = items s a"

lemma pool_of_upd [simp]:
  "pool_of pg cid n k (s\<lparr>mem_limit_reached := b\<rparr>) us fs = pool_of pg cid n k s us fs"
  "pool_of pg cid n k (s\<lparr>mem_malloced := w\<rparr>) us fs = pool_of pg cid n k s us fs"
  "pool_of pg cid n k (s\<lparr>realloc_plan := r\<rparr>) us fs = pool_of pg cid n k s us fs"
  by (simp_all add: pool_of_def class_ok_def page_len_def layout_def)

lemma pool_of_mono: "pool_of pg cid n k s us fs \<Longrightarrow> pool_of pg cid n (Suc k) s us fs"
  by (auto simp: pool_of_def intro: class_ok_mono)

text \<open>Changes to the array of pages only.\<close>

lemma pool_of_slab_list:
  assumes "pool_of pg cid n k s us fs"
    and "\<And>p. sc_size (f p) = sc_size p \<and> perslab (f p) = perslab p \<and> free_slots (f p) = free_slots p \<and> sl_curr (f p) = sl_curr p"
    and "let p = f (slabclass s ! cid) in length (slab_list p) = unat (list_size p) \<and> unat (sc_slabs p) \<le> unat (list_size p) \<and>
      unat (sc_slabs p) \<le> k' \<and> unat (list_size p) \<le> max 16 (2 * k')" "k \<le> k'"
  shows "pool_of pg cid n k' (upd_class cid f s) us fs"
proof -
  let ?q = "f (slabclass s ! cid)"
  have c: "1 \<le> cid" "cid < length (slabclass s)" "0 \<noteq> cid" "cid \<le> power_largest s" "mem_base s = None"
    "sc_slabs (slabclass s ! 0) = 0" "0 < unat (sc_size ?q)" "unat (perslab ?q) = n" "unat (sc_size ?q) * n \<le> unat (page_len cid s)"
    using assms(1,2) by (auto simp: pool_of_def class_ok_def Let_def)
  have l: "page_len cid (upd_class cid f s) = page_len cid s" using c(2) assms(2) by (simp add: page_len_def Let_def)
  have "k * n \<le> k' * n" using assms(4) by simp
  moreover have "class_ok cid n k' (upd_class cid f s)"
    unfolding class_ok_def Let_def l using c assms(3) [unfolded Let_def] by (simp del: max_less_iff_conj le_max_iff_disj)
  moreover have "freelist (items (upd_class cid f s)) (slabclass (upd_class cid f s) ! cid) fs"
    by (rule freelist_cong [of "items s" "slabclass s ! cid"]) (use assms(1,2) c(2) in \<open>simp_all add: pool_of_def\<close>)
  moreover have "length us + length fs \<le> k' * n" 
    using assms(1) order_trans [OF _ \<open>k * n \<le> k' * n\<close>] unfolding pool_of_def by blast
  moreover have "layout pg cid (upd_class cid f s) A = layout pg cid s A" for A
    using c(2) assms(2) unfolding layout_def l by simp
  ultimately show ?thesis using assms(1) unfolding pool_of_def by simp
qed

lemma grow_slab_list_ok:
  assumes "pool_of pg cid n k s us fs" "2 * k < 2 ^ 32"
  shows "\<exists>b s'. grow_slab_list cid s = (b, s') \<and> pool_of pg cid n k s' us fs \<and> items s' = items s \<and> malloc_plan s' = malloc_plan s \<and>
    sc_size (slabclass s' ! cid) = sc_size (slabclass s ! cid) \<and> page_len cid s' = page_len cid s \<and>
    (b \<longrightarrow> unat (sc_slabs (slabclass s' ! cid)) < unat (list_size (slabclass s' ! cid)))"
proof -
  let ?p = "slabclass s ! cid"
  have c: "class_ok cid n k s" "cid < length (slabclass s)" "length (slab_list ?p) = unat (list_size ?p)"
    "unat (sc_slabs ?p) \<le> unat (list_size ?p)" "unat (sc_slabs ?p) \<le> k"
    using assms(1) by (auto simp: pool_of_def class_ok_def Let_def)
  show ?thesis
  proof (cases "sc_slabs ?p = list_size ?p")
    case False
    then have "unat (sc_slabs ?p) < unat (list_size ?p)" using c(4) by (meson le_neq_implies_less word_unat_eq_iff)
    moreover have "grow_slab_list cid s = (True, s)" using False by (simp add: grow_slab_list_def Let_def)
    ultimately show ?thesis using assms(1) by auto
  next
    case True
    let ?new = "if list_size ?p \<noteq> 0 then list_size ?p * 2 else 16"
    let ?f = "\<lambda>p. p\<lparr>list_size := ?new, slab_list := slab_list p @ replicate (unat ?new - length (slab_list p)) 0\<rparr>"
    have new: "unat (list_size ?p) < unat ?new" "unat ?new \<le> max 16 (2 * k)"
    proof -
      have "unat (list_size ?p) * 2 < 2 ^ 32" using c(5) True assms(2) by simp
      then have u: "unat (list_size ?p * 2) = unat (list_size ?p) * 2" by (simp add: unat_mult_lem [THEN iffD1])
      then show "unat (list_size ?p) < unat ?new" by (simp add: unat_gt_0)
      have "unat (list_size ?p) * 2 \<le> max 16 (2 * k)" using c(5) True by simp
      then show "unat ?new \<le> max 16 (2 * k)" using u by simp
    qed
    have ok: "pool_of pg cid n k (upd_class cid ?f (s\<lparr>realloc_plan := r\<rparr>)) us fs" for r
      by (rule pool_of_slab_list [where k = k]) (use assms(1) c(2,3,5) True new in \<open>simp_all add: Let_def\<close>)
    have pl: "page_len cid (s\<lparr>realloc_plan := r\<rparr>) = page_len cid s" "page_len cid (upd_class cid ?f (s\<lparr>realloc_plan := r\<rparr>)) = page_len cid s" for r
      using c(2) by (simp_all add: page_len_def Let_def)
    show ?thesis
    proof (cases "\<exists>rs. realloc_plan s = False # rs")
      case True
      then show ?thesis using assms(1) \<open>sc_slabs ?p = list_size ?p\<close> pl by (auto simp: grow_slab_list_def Let_def)
    next
      case False
      have "grow_slab_list cid s = (True, upd_class cid ?f (s\<lparr>realloc_plan := tl (realloc_plan s)\<rparr>))"
        using True False by (auto simp: grow_slab_list_def Let_def split: list.splits bool.splits)
      moreover have "unat (sc_slabs ?p) < unat ?new" using new(1) True by simp
      ultimately show ?thesis using ok [of "tl (realloc_plan s)"] c(2)
        by (intro exI [of _ True] exI [of _ "upd_class cid ?f (s\<lparr>realloc_plan := tl (realloc_plan s)\<rparr>)"]) (simp add: pl)
    qed
  qed
qed

lemma new_page_ok:
  assumes "pool_of pg cid n k s us []" "k < 2 ^ 31" "unat (sc_slabs (slabclass s ! cid)) < unat (list_size (slabclass s ! cid))"
    and "malloc_plan s = Some ptr # rs"
  defines "len \<equiv> page_len cid s"
  shows "\<exists>s4 s5 fs. split_slab_page_into_freelist ptr cid (clear_page ptr (unat len) (slabclass s ! cid) (s\<lparr>mem_malloced := w, malloc_plan := rs\<rparr>)) = Some s4 \<and>
    add_page cid ptr s4 = Some s5 \<and> pool_of pg cid n (Suc k) s5 us fs \<and> (\<forall>a \<in> set us. items s5 a = items s a) \<and>
    sc_size (slabclass s5 ! cid) = sc_size (slabclass s ! cid)"
proof -
  let ?p = "slabclass s ! cid" and ?s1 = "s\<lparr>mem_malloced := w, malloc_plan := rs\<rparr>"
  let ?s2 = "clear_page ptr (unat len) ?p ?s1" and ?as = "chunk_starts ptr (slabclass s ! cid)"
  have P: "class_ok cid n k s" "freelist (items s) ?p []" "distinct us" "length us \<le> k * n"
    "\<forall>a \<in> set us. \<exists>it. items s a = Some it \<and> it_flags it AND ITEM_CHUNKED = 0" "layout pg cid s (set us)"
    using assms(1) by (simp_all add: pool_of_def)
  have c: "cid < length (slabclass s)" "1 \<le> cid" "cid \<le> power_largest s" "unat (perslab ?p) = n" "0 < unat (sc_size ?p)"
    "unat (sc_size ?p) * unat (perslab ?p) \<le> unat len" "unat (sc_slabs ?p) \<le> k" "length (slab_list ?p) = unat (list_size ?p)"
    "unat (list_size ?p) \<le> max 16 (2 * k)"
    using P(1) by (auto simp: class_ok_def Let_def len_def)
  note as = chunk_starts_ok [OF c(5,6), of ptr]
  have out: "a \<notin> {ptr..<ptr + unat len}" if "a \<in> set us" for a
  proof -
    have "a \<in> chunk_bytes (unat (sc_size ?p)) (set us)" using that c(5) by (auto simp: chunk_bytes_def)
    then show ?thesis using P(6) assms(4) by (auto simp: layout_def Let_def len_def)
  qed
  then have out': "a \<notin> set ?as" if "a \<in> set us" for a using as(2) that by blast
  have i2: "items ?s2 a = items s a" if "a \<in> set us" for a using out [OF that] out' [OF that] by (auto simp: clear_page_def)
  have fl: "freelist (items ?s2) (slabclass ?s2 ! cid) []" using P(2) by (simp add: freelist_def clear_page_def)
  have "\<forall>a \<in> set ?as. \<exists>it. items ?s2 a = Some it \<and> it_flags it AND ITEM_CHUNKED = 0"
  proof
    fix a
    assume a: "a \<in> set ?as"
    have "a + min sizeof_item (unat (sc_size ?p)) \<le> ptr + unat len" using chunk_starts_ends(2) [OF c(6) a] by simp
    then show "\<exists>it. items ?s2 a = Some it \<and> it_flags it AND ITEM_CHUNKED = 0" using a by (simp add: clear_page_def zero_item_def)
  qed
  from free_all_ok [OF fl _ c(2) _ _ this] obtain s4 where s4: "free_all cid ?as ?s2 = Some s4"
    "freelist (items s4) (slabclass s4 ! cid) (rev ?as)" "same_slabs cid ?s2 s4" "\<forall>b. b \<notin> set ?as \<longrightarrow> items s4 b = items ?s2 b"
    using c(1,3) as(1) by (auto simp: clear_page_def)
  have same: "length (slabclass s4) = length (slabclass s)" "malloc_plan s4 = rs" "sc_slabs (slabclass s4 ! cid) = sc_slabs ?p"
    "slab_list (slabclass s4 ! cid) = slab_list ?p" "list_size (slabclass s4 ! cid) = list_size ?p" "sc_size (slabclass s4 ! cid) = sc_size ?p"
    using s4(3) by (simp_all add: same_slabs_def clear_page_def)
  let ?f = "\<lambda>p. p\<lparr>slab_list := (slab_list p)[unat (sc_slabs p) := ptr], sc_slabs := sc_slabs p + 1\<rparr>"
  have pl: "page_len cid ?s2 = len" by (simp add: page_len_def clear_page_def len_def)
  have "class_ok cid n k ?s2" using P(1) pl by (simp add: class_ok_def clear_page_def len_def Let_def)
  then have c4: "class_ok cid n k s4" using s4(3) by (rule class_ok_same)
  have us4: "items s4 a = items s a" if "a \<in> set us" for a using s4(4) out' [OF that] i2 [OF that] by simp
  have "pool_of pg cid n (Suc k) s4 us (rev ?as)"
    unfolding pool_of_def
  proof (intro conjI)
    have "layout pg cid s4 (set us \<union> set ?as)"
      by (rule layout_page [OF P(6) assms(4) c(5)]) (use c(6) same same_slabs_len [OF s4(3)] pl in \<open>simp_all add: len_def\<close>)
    then show "layout pg cid s4 (set (us @ rev ?as))" by simp
    show "distinct (us @ rev ?as)" using P(3) as(1) out' by auto
  qed (use c4 s4(2) P(4,5) us4 as(3) c(4) in \<open>auto intro: class_ok_mono\<close>)
  then have "pool_of pg cid n (Suc k) (upd_class cid ?f s4) us (rev ?as)"
  proof (rule pool_of_slab_list)
    have "unat (sc_slabs ?p + 1) = unat (sc_slabs ?p) + 1" using c(7) assms(2) 
      by (simp add: unat_word_ariths)
    then show "let p = ?f (slabclass s4 ! cid) in length (slab_list p) = unat (list_size p) \<and> unat (sc_slabs p) \<le> unat (list_size p) \<and>
      unat (sc_slabs p) \<le> Suc k \<and> unat (list_size p) \<le> max 16 (2 * Suc k)"
      using assms(3) c(7,8,9) by (simp add: Let_def same)
  qed simp_all
  moreover have "add_page cid ptr s4 = Some (upd_class cid ?f s4)" using assms(3) c(8) by (simp add: add_page_def same Let_def)
  moreover have "split_slab_page_into_freelist ptr cid ?s2 = Some s4" using s4(1) by (simp add: split_slab_page_into_freelist_def clear_page_def)
  ultimately show ?thesis using us4 c(1) same(1,6) by auto
qed

lemma do_slabs_newslab_ok:
  assumes "pool_of pg cid n k s us []" "k < 2 ^ 31"
  shows "\<exists>b s' fs. do_slabs_newslab cid s = Some (b, s') \<and> pool_of pg cid n (Suc k) s' us fs \<and> (\<forall>a \<in> set us. items s' a = items s a) \<and>
    sc_size (slabclass s' ! cid) = sc_size (slabclass s ! cid)"
proof -
  define len where "len = page_len cid s"
  show ?thesis
  proof (cases "mem_limit s \<noteq> 0 \<and> mem_limit s < mem_malloced s + len \<and> 0 < sc_slabs (slabclass s ! cid) \<and> sc_slabs (slabclass s ! 0) = 0")
    case True
    then have "do_slabs_newslab cid s = Some (False, s\<lparr>mem_limit_reached := True\<rparr>)" by (simp add: do_slabs_newslab_def len_def Let_def)
    moreover have "pool_of pg cid n (Suc k) (s\<lparr>mem_limit_reached := True\<rparr>) us []" using pool_of_mono [OF assms(1)] by simp
    ultimately show ?thesis by fastforce
  next
    case nolimit: False
    obtain b s1 where g: "grow_slab_list cid s = (b, s1)" "pool_of pg cid n k s1 us []" "items s1 = items s" "malloc_plan s1 = malloc_plan s"
      "sc_size (slabclass s1 ! cid) = sc_size (slabclass s ! cid)" "page_len cid s1 = len"
      "b \<longrightarrow> unat (sc_slabs (slabclass s1 ! cid)) < unat (list_size (slabclass s1 ! cid))"
      using grow_slab_list_ok [OF assms(1)] assms(2) unfolding len_def by auto
    show ?thesis
    proof (cases b)
      case False
      then have "do_slabs_newslab cid s = Some (False, s1)"
        using nolimit g(1) by (auto simp: do_slabs_newslab_def Let_def len_def)
      then show ?thesis using pool_of_mono [OF g(2)] g(3,5) by auto
    next
      case b: True
      have s1: "sc_slabs (slabclass s1 ! 0) = 0" "mem_base s1 = None" using g(2) by (auto simp: pool_of_def class_ok_def Let_def)
      have new: "do_slabs_newslab cid s = (case memory_allocate len s1 of (None, s3) \<Rightarrow> Some (False, s3)
          | (Some ptr, s3) \<Rightarrow> do {
              s4 \<leftarrow> split_slab_page_into_freelist ptr cid (clear_page ptr (unat len) (slabclass s3 ! cid) s3);
              s5 \<leftarrow> add_page cid ptr s4;
              Some (True, s5) })"
        using nolimit g(1) b s1(1) 
        by (auto simp: do_slabs_newslab_def Let_def len_def [symmetric] get_page_from_global_pool_def)
      show ?thesis
      proof (cases "\<exists>ptr rs. malloc_plan s1 = Some ptr # rs")
        case True
        then obtain ptr rs where p: "malloc_plan s1 = Some ptr # rs" by blast
        from new_page_ok [OF g(2) assms(2) _ p, of "mem_malloced s1 + len"] g(7) b
        obtain s4 s5 fs where "split_slab_page_into_freelist ptr cid (clear_page ptr (unat len) (slabclass s1 ! cid)
            (s1\<lparr>mem_malloced := mem_malloced s1 + len, malloc_plan := rs\<rparr>)) = Some s4"
          "add_page cid ptr s4 = Some s5" "pool_of pg cid n (Suc k) s5 us fs" "\<forall>a \<in> set us. items s5 a = items s1 a"
          "sc_size (slabclass s5 ! cid) = sc_size (slabclass s1 ! cid)" by (auto simp: g(6))
        then show ?thesis using new p s1(2) g(3,5) by (simp add: memory_allocate_def) blast
      next
        case False
        let ?s3 = "s1\<lparr>mem_malloced := mem_malloced s1 + len, malloc_plan := tl (malloc_plan s1)\<rparr>"
        have "memory_allocate len s1 = (None, ?s3)"
          using False s1(2) by (auto simp: memory_allocate_def split: list.split)
        then have run: "do_slabs_newslab cid s = Some (False, ?s3)" by (simp add: new)
        have tl: "fresh_pages l (tl (malloc_plan s1)) u" if "fresh_pages l (malloc_plan s1) u" for l u
          using that False by (cases "malloc_plan s1"; cases "hd (malloc_plan s1)") auto
        have "set (tl (malloc_plan s1)) \<subseteq> set (malloc_plan s1)" by (cases "malloc_plan s1") auto
        then have "pool_of pg cid n k ?s3 us []"
          using g(2) tl by (auto simp: pool_of_def class_ok_def page_len_def layout_def Let_def)
        then have "pool_of pg cid n (Suc k) ?s3 us []" by (rule pool_of_mono)
        then show ?thesis using run g(3,5) by fastforce
      qed
    qed
  qed
qed

lemma requested_upd:
  "cid < length (slabclass s) \<Longrightarrow>
   same_slabs cid s (upd_class cid (\<lambda>p. p\<lparr>requested := f p\<rparr>) s)"
  "cid < length (slabclass s) \<Longrightarrow> freelist (items s) (slabclass s ! cid) fs \<Longrightarrow>
   freelist (items s) (slabclass (upd_class cid (\<lambda>p. p\<lparr>requested := f p\<rparr>) s) ! cid) fs"
  by (simp_all add: same_slabs_def freelist_def)

lemma pool_of_same:
  assumes "pool_of pg cid n k s us fs" "same_slabs cid s s'" "freelist (items s') (slabclass s' ! cid) fs'"
    and "mset (us' @ fs') = mset (us @ fs)" "\<forall>a \<in> set us'. \<exists>it. items s' a = Some it \<and> it_flags it AND ITEM_CHUNKED = 0"
  shows "pool_of pg cid n k s' us' fs'"
proof -
  have "distinct (us' @ fs')" using assms(1,4) mset_eq_imp_distinct_iff by (metis pool_of_def)
  moreover have "set (us' @ fs') = set (us @ fs)" using assms(4) by (rule mset_eq_setD)
  moreover have "length us' + length fs' = length us + length fs" using mset_eq_length [OF assms(4)] by simp
  ultimately show ?thesis
    using assms class_ok_same [OF _ assms(2)] unfolding pool_of_def layout_same [OF assms(2)] by metis
qed

lemma slabs_alloc_ok:
  assumes "class_pool_ok sz pg cid n k s us" "k < 2 ^ 31" "Suc k * n < 2 ^ 32"
  shows "\<exists>r total s'. slabs_alloc sz cid False s = Some (r, total, s') \<and>
    class_pool_ok sz pg cid n (Suc k) s' (case r of None \<Rightarrow> us | Some a \<Rightarrow> a # us) \<and> (\<forall>a \<in> set us. items s' a = items s a)"
proof -
  let ?p = "slabclass s ! cid"
  obtain fs where fs: "pool_of pg cid n k s us fs" and sz: "sz \<le> ucast (sc_size ?p)"
    using assms(1) by (auto simp: class_pool_ok_def)
  have c: "1 \<le> cid" "cid \<le> power_largest s" "cid < length (slabclass s)" using fs by (auto simp: pool_of_def class_ok_def Let_def)
  have fl: "freelist (items s) ?p fs" and "length us + length fs \<le> k * n" using fs by (simp_all add: pool_of_def)
  then have "length fs < 2 ^ 32" using assms(3) by simp
  then have curr: "sl_curr ?p = 0 \<longleftrightarrow> fs = []" using fl by (simp add: freelist_def word_of_nat_eq_0_iff nat_dvd_not_less) (auto dest: nat_dvd_not_less)
  have chk: "(if sl_curr ?p = 0 then Some ()
             else do { a \<leftarrow> free_slots ?p; it \<leftarrow> items s a; if slabs_clsid it = 0 then Some () else None }) = Some ()"
    using fl curr by (cases fs) (auto simp: freelist_def)
  obtain s1 fs1 where s1: "(if sl_curr ?p = 0 \<and> \<not> False then map_option snd (do_slabs_newslab cid s) else Some s) = Some s1"
    "pool_of pg cid n (Suc k) s1 us fs1" "\<forall>a \<in> set us. items s1 a = items s a" "sc_size (slabclass s1 ! cid) = sc_size ?p"
  proof (cases "fs = []")
    case True
    then show ?thesis using do_slabs_newslab_ok [of pg cid n k s us] fs assms(2) that curr by force
  next
    case False
    then show ?thesis using that [of s fs] curr pool_of_mono [OF fs] by simp
  qed
  have fl1: "freelist (items s1) (slabclass s1 ! cid) fs1" and "length us + length fs1 \<le> Suc k * n" and c1: "cid < length (slabclass s1)"
    using s1(2) by (auto simp: pool_of_def class_ok_def Let_def)
  then have "length fs1 < 2 ^ 32" using assms(3) by simp
  then have curr1: "sl_curr (slabclass s1 ! cid) = 0 \<longleftrightarrow> fs1 = []"
    using fl1 by (simp add: freelist_def word_of_nat_eq_0_iff) (auto dest: nat_dvd_not_less)
  show ?thesis
  proof (cases fs1)
    case Nil
    then have "slabs_alloc sz cid False s = Some (None, requested ?p, s1)"
      using c chk sz s1(1) curr1 by (simp add: slabs_alloc_def do_slabs_alloc_def Let_def not_less)
    then show ?thesis using s1 sz by (auto simp: class_pool_ok_def)
  next
    case (Cons a fs2)
    obtain s2 it where s2: "take_free cid a s1 = Some s2" "freelist (items s2) (slabclass s2 ! cid) fs2" "same_slabs cid s1 s2"
      "items s2 a = Some it" "it_flags it = 0" "\<forall>b. b \<notin> set (a # fs2) \<longrightarrow> items s2 b = items s1 b"
      using take_free_ok [of s1 cid a fs2] fl1 c1 Cons by auto
    let ?s' = "upd_class cid (\<lambda>p. p\<lparr>requested := requested p + sz\<rparr>) s2"
    have c2: "cid < length (slabclass s2)" using s2(3) c1 by (simp add: same_slabs_def)
    have fr: "free_slots (slabclass s1 ! cid) = Some a" using fl1 Cons by (simp add: freelist_def)
    have "slabs_alloc sz cid False s = Some (Some a, requested ?p, ?s')"
      using c chk sz s1(1) curr1 Cons fr s2(1) by (simp add: slabs_alloc_def do_slabs_alloc_def Let_def not_less)
    moreover have out: "b \<notin> set (a # fs2)" if "b \<in> set us" for b using s1(2) that Cons by (auto simp: pool_of_def)
    have "pool_of pg cid n (Suc k) ?s' (a # us) fs2"
    proof (rule pool_of_same [OF s1(2)])
      show "same_slabs cid s1 ?s'" using s2(3) requested_upd(1) [OF c2] by (rule same_slabs_trans)
      show "freelist (items ?s') (slabclass ?s' ! cid) fs2" using requested_upd(2) [OF c2 s2(2)] by simp
      show "\<forall>b \<in> set (a # us). \<exists>it. items ?s' b = Some it \<and> it_flags it AND ITEM_CHUNKED = 0"
        using s1(2) s2(4,5,6) out by (auto simp: pool_of_def)
    qed (use Cons in simp)
    moreover have "sc_size (slabclass ?s' ! cid) = sc_size ?p" using s2(3) s1(4) c2 by (simp add: same_slabs_def)
    ultimately show ?thesis using sz s1(3) s2(6) out by (auto simp: class_pool_ok_def)
  qed
qed

lemma slabs_free_ok:
  assumes "class_pool_ok sz pg cid n k s us" "a \<in> set us"
  shows "\<exists>s'. slabs_free a sz cid s = Some s' \<and> class_pool_ok sz pg cid n k s' (remove1 a us) \<and>
    (\<forall>b \<in> set us. b \<noteq> a \<longrightarrow> items s' b = items s b)"
proof -
  obtain fs where fs: "pool_of pg cid n k s us fs" and sz: "sz \<le> ucast (sc_size (slabclass s ! cid))"
    using assms(1) by (auto simp: class_pool_ok_def)
  have c: "1 \<le> cid" "cid \<le> power_largest s" "cid < length (slabclass s)" using fs by (auto simp: pool_of_def class_ok_def Let_def)
  obtain it where it: "items s a = Some it" "it_flags it AND ITEM_CHUNKED = 0" using fs assms(2) by (auto simp: pool_of_def)
  have U: "\<forall>b \<in> set us. \<exists>it. items s b = Some it \<and> it_flags it AND ITEM_CHUNKED = 0" using fs unfolding pool_of_def by blast
  have fl: "freelist (items s) (slabclass s ! cid) fs" and d: "distinct (us @ fs)" "a \<notin> set fs"
    using fs assms(2) by (auto simp: pool_of_def)
  obtain s' where s': "do_slabs_free a sz cid s = Some s'" "freelist (items s') (slabclass s' ! cid) (a # fs)" "same_slabs cid s s'"
    "\<forall>b. b \<notin> set (a # fs) \<longrightarrow> items s' b = items s b"
    using do_slabs_free_ok [OF fl c(3,1,2) d(2) it] by blast
  have keep: "items s' b = items s b" if "b \<in> set us" "b \<noteq> a" for b using s'(4) d that by auto
  have "pool_of pg cid n k s' (remove1 a us) (a # fs)"
  proof (rule pool_of_same [OF fs s'(3,2)])
    show "mset (remove1 a us @ a # fs) = mset (us @ fs)" using assms(2) by simp
    show "\<forall>b \<in> set (remove1 a us). \<exists>it. items s' b = Some it \<and> it_flags it AND ITEM_CHUNKED = 0"
    proof
      fix b
      assume "b \<in> set (remove1 a us)"
      then have b: "b \<in> set us" "b \<noteq> a" using d(1) by simp_all
      show "\<exists>it. items s' b = Some it \<and> it_flags it AND ITEM_CHUNKED = 0"
        unfolding keep [OF b] using U b(1) by blast
    qed
  qed
  then show ?thesis using s'(1,3) sz keep by (auto simp: slabs_free_def class_pool_ok_def same_slabs_def)
qed

text \<open>The contract of theory \<open>ObjCache\<close>, for items whose contents are not marked as chunked.\<close>

interpretation class_pool: object_pool "class_get sz cid" "class_put sz cid" item_write item_read
  "\<lambda>it s. it_flags it AND ITEM_CHUNKED = 0" "class_pool_ok sz pg cid n" "2 ^ 31 div (n + 1)" for sz pg cid n
proof unfold_locales
  fix k and s :: "'a slabs_scheme" and us
  assume ok: "class_pool_ok sz pg cid n k s us"
  show "distinct us" using ok by (auto simp: class_pool_ok_def pool_of_def)
  assume "k < 2 ^ 31 div (n + 1)"
  then have "Suc k * (n + 1) \<le> 2 ^ 31" by (simp only: Suc_le_eq [symmetric] less_eq_div_iff_mult_less_eq)
  then have "k < 2 ^ 31" "Suc k * n < 2 ^ 32" by simp_all
  from slabs_alloc_ok [OF ok this] show "\<exists>r s'. class_get sz cid s = Some (r, s') \<and>
      class_pool_ok sz pg cid n (Suc k) s' (case r of None \<Rightarrow> us | Some x \<Rightarrow> x # us) \<and>
      (\<forall>x \<in> set us. item_read x s' = item_read x s) \<and>
      (\<forall>it. (it_flags it AND ITEM_CHUNKED = 0) = (it_flags it AND ITEM_CHUNKED = 0))"
    by (auto simp: class_get_def item_read_def)
next
  fix k and s :: "'a slabs_scheme" and us x
  assume "class_pool_ok sz pg cid n k s us" "x \<in> set us"
  from slabs_free_ok [OF this] show "\<exists>s'. class_put sz cid x s = Some s' \<and> class_pool_ok sz pg cid n k s' (remove1 x us) \<and>
      (\<forall>y \<in> set us. y \<noteq> x \<longrightarrow> item_read y s' = item_read y s) \<and>
      (\<forall>it. (it_flags it AND ITEM_CHUNKED = 0) = (it_flags it AND ITEM_CHUNKED = 0))"
    by (auto simp: class_put_def item_read_def)
next
  fix k and s :: "'a slabs_scheme" and us x and it :: item
  assume ok: "class_pool_ok sz pg cid n k s us" and x: "x \<in> set us" and it: "it_flags it AND ITEM_CHUNKED = 0"
  obtain fs where fs: "pool_of pg cid n k s us fs" using ok by (auto simp: class_pool_ok_def)
  let ?s' = "s\<lparr>items := (items s)(x \<mapsto> it)\<rparr>"
  have "x \<notin> set fs" using fs x by (auto simp: pool_of_def)
  then have fl: "freelist (items ?s') (slabclass ?s' ! cid) fs"
    using freelist_cong [of "items s" "slabclass s ! cid" fs _ "items ?s'"] fs by (auto simp: pool_of_def)
  have "pool_of pg cid n k ?s' us fs"
    by (rule pool_of_same [OF fs _ fl]) (use fs it in \<open>auto simp: same_slabs_def pool_of_def\<close>)
  then show "\<exists>s'. item_write x it s = Some s' \<and> class_pool_ok sz pg cid n k s' us \<and> item_read x s' = Some it \<and>
      (\<forall>y \<in> set us. y \<noteq> x \<longrightarrow> item_read y s' = item_read y s) \<and>
      (\<forall>it. (it_flags it AND ITEM_CHUNKED = 0) = (it_flags it AND ITEM_CHUNKED = 0))"
    using ok fs x by (auto simp: class_pool_ok_def item_write_def item_read_def pool_of_def)
qed

section \<open>The table after the start\<close>

definition table_ok :: "int \<Rightarrow> nat \<Rightarrow> slabclass list \<Rightarrow> bool" where
  "table_ok page i cs \<longleftrightarrow> length cs = 64 \<and> 1 \<le> i \<and> i \<le> 63 \<and>
     (\<forall>j < 64. \<exists>a b. cs ! j = empty_class\<lparr>sc_size := a, perslab := b\<rparr>) \<and>
     (\<forall>j. 1 \<le> j \<and> j < i \<longrightarrow> 0 < unat (sc_size (cs ! j)) \<and> perslab (cs ! j) = word_of_int page div sc_size (cs ! j))"

lemma table_ok_class: "table_ok page i cs \<Longrightarrow> j < 64 \<Longrightarrow> \<exists>a b. cs ! j = empty_class\<lparr>sc_size := a, perslab := b\<rparr>"
  by (simp add: table_ok_def)

lemma table_ok_step:
  assumes "table_ok page i cs" "i < 63" "w \<noteq> 0"
  shows "table_ok page (i + 1) (cs[i := (cs ! i)\<lparr>sc_size := w, perslab := word_of_int page div w\<rparr>])"
proof -
  obtain a b where "cs ! i = empty_class\<lparr>sc_size := a, perslab := b\<rparr>" using table_ok_class [OF assms(1), of i] assms(2) by auto
  then show ?thesis
    using assms by (auto simp: table_ok_def nth_list_update less_Suc_eq unat_gt_0)
qed

lemma init_classes_table:
  "init_classes page at_limit enlarge ss i w n cs = Some (i', cs') \<Longrightarrow> table_ok page i cs \<Longrightarrow> i + n \<le> 63 \<Longrightarrow>
   table_ok page i' cs'"
proof (induction page at_limit enlarge ss i w n cs rule: init_classes.induct)
  case (2 page at_limit enlarge ss i w n cs)
  have step: "table_ok page (i + 1) (cs[i := (cs ! i)\<lparr>sc_size := v, perslab := word_of_int page div v\<rparr>])" if "v \<noteq> 0" for v
    using table_ok_step [OF "2.prems"(2) _ that] "2.prems"(3) by simp
  show ?case
  proof (cases ss)
    case None
    then show ?thesis using 2 step by (auto simp: Let_def split: if_splits)
  next
    case (Some l)
    then show ?thesis using 2 step by (auto simp: Let_def split: if_splits)
  qed
qed simp

lemma slabs_init_classes_ok:
  assumes "slabs_init_classes st chunk_size at_limit enlarge ss = Some (largest, cs)"
    and "0 < slab_chunk_size_max st" "slab_chunk_size_max st \<le> slab_page_size st" "slab_page_size st < 2 ^ 31"
    and "1 \<le> cid" "cid \<le> largest"
  shows "cid < length cs" "\<exists>w n. cs ! cid = empty_class\<lparr>sc_size := w, perslab := n\<rparr> \<and> 0 < unat w \<and> unat w * unat n \<le> nat (slab_page_size st)"
    "sc_slabs (cs ! 0) = 0"
proof -
  let ?max = "slab_chunk_size_max st" and ?page = "slab_page_size st"
  obtain cs0 where cs0: "init_classes ?page at_limit enlarge ss 1 (of_nat sizeof_item + word_of_int chunk_size) 62 (replicate 64 empty_class)
      = Some (largest, cs0)"
    "cs = cs0[largest := (cs0 ! largest)\<lparr>sc_size := word_of_int ?max, perslab := word_of_int (?page sdiv ?max)\<rparr>]"
    using assms(1) by (auto simp: slabs_init_classes_def split: bind_splits if_splits)
  have "empty_class = empty_class\<lparr>sc_size := 0, perslab := 0\<rparr>" by (simp add: empty_class_def)
  then have "table_ok ?page 1 (replicate 64 empty_class)" by (auto simp: table_ok_def)
  from init_classes_table [OF cs0(1) this] have t: "table_ok ?page largest cs0" by simp
  show "cid < length cs" using t assms(6) by (simp add: cs0(2) table_ok_def)
  obtain a b where "cs0 ! 0 = empty_class\<lparr>sc_size := a, perslab := b\<rparr>" using table_ok_class [OF t, of 0] by auto
  moreover have "cs ! 0 = cs0 ! 0" using t by (simp add: cs0(2) table_ok_def)
  ultimately show "sc_slabs (cs ! 0) = 0" by (simp add: empty_class_def)
  have "cid < 64" using t assms(6) by (simp add: table_ok_def)
  then obtain a b where c: "cs0 ! cid = empty_class\<lparr>sc_size := a, perslab := b\<rparr>" using t by (auto simp: table_ok_def)
  have pg: "unat (word_of_int ?page :: u32) = nat ?page"
    using assms(2,3,4) by (simp add: unat_eq_nat_uint uint_word_of_int)
  show "\<exists>w n. cs ! cid = empty_class\<lparr>sc_size := w, perslab := n\<rparr> \<and> 0 < unat w \<and> unat w * unat n \<le> nat ?page"
  proof (cases "cid = largest")
    case True
    have q: "?page sdiv ?max = ?page div ?max" using assms(2,3) by (simp add: signed_divide_int_def)
    have le: "?page div ?max \<le> ?page" using assms(2,3) zdiv_mono2 [of ?page 1 ?max] by simp
    have u: "unat (word_of_int ?max :: u32) = nat ?max" "unat (word_of_int (?page div ?max) :: u32) = nat (?page div ?max)"
      using assms(2,3,4) le pos_imp_zdiv_nonneg_iff [of ?max ?page] by (simp_all add: unat_eq_nat_uint uint_word_of_int)
    have "?max * (?page div ?max) + ?page mod ?max = ?page" by (rule mult_div_mod_eq)
    then have "nat (?max * (?page div ?max)) \<le> nat ?page" using pos_mod_sign [OF assms(2), of ?page] by (intro nat_mono) linarith
    then have "nat ?max * nat (?page div ?max) \<le> nat ?page" using assms(2) by (simp add: nat_mult_distrib)
    then show ?thesis
      using True c t assms(2) by (intro exI conjI) (auto simp: cs0(2) table_ok_def q u)
  next
    case False
    then have "0 < unat (sc_size (cs0 ! cid)) \<and> perslab (cs0 ! cid) = word_of_int ?page div sc_size (cs0 ! cid)"
      using t assms(5,6) unfolding table_ok_def by simp
    then have "0 < unat a" "b = word_of_int ?page div a" using c by simp_all
    moreover have "unat a * unat (word_of_int ?page div a :: u32) \<le> nat ?page"
      using pg by (simp add: unat_div mult.commute [of "unat a"] div_times_less_eq_dividend)
    ultimately show ?thesis using False c by (auto simp: cs0(2))
  qed
qed

lemma clsid_loop_least:
  assumes "res \<le> largest" "largest < length cs" "largest - res < fuel"
    and "\<forall>j. 1 \<le> j \<and> j < res \<longrightarrow> ucast (sc_size (cs ! j)) < (sz :: u64)" "1 \<le> res"
  shows "\<exists>c. clsid_loop cs sz largest res fuel = Some c \<and> 1 \<le> c \<and> c \<le> largest \<and>
    (\<forall>j. 1 \<le> j \<and> j < c \<longrightarrow> ucast (sc_size (cs ! j)) < sz) \<and> (c = largest \<or> sz \<le> ucast (sc_size (cs ! c)))"
  using assms
proof (induction fuel arbitrary: res)
  case (Suc fuel)
  show ?case
  proof (cases "ucast (sc_size (cs ! res)) < sz \<and> res \<noteq> largest")
    case True
    then have "\<forall>j. 1 \<le> j \<and> j < res + 1 \<longrightarrow> ucast (sc_size (cs ! j)) < sz" using Suc.prems(4) by (auto simp: less_Suc_eq)
    moreover have "res + 1 \<le> largest" "largest - (res + 1) < fuel" using True Suc.prems by auto
    ultimately have "\<exists>c. clsid_loop cs sz largest (res + 1) fuel = Some c \<and> 1 \<le> c \<and> c \<le> largest \<and>
        (\<forall>j. 1 \<le> j \<and> j < c \<longrightarrow> ucast (sc_size (cs ! j)) < sz) \<and> (c = largest \<or> sz \<le> ucast (sc_size (cs ! c)))"
      using Suc.IH [of "res + 1"] assms(2) by simp
    then show ?thesis using True Suc.prems(1,2) by simp
  next
    case False
    then show ?thesis using Suc.prems by (auto simp: not_less)
  qed
qed simp

section \<open>Properties\<close>


definition sample_slabs :: slabs where
  "sample_slabs = \<lparr>items = sample_items, hashpower = 1, primary_hashtable = [None, None], old_hashtable = [], hash_items = 0,
     expanding = False, started_expanding = False, expand_bucket = 0, hash_power_level = 1, hash_bytes = 16,
     hash_is_expanding = False,
     settings = \<lparr>item_size_max = 1024, slab_chunk_size_max = 512, slab_page_size = 1024, slab_reassign = True,
       use_cas = True, lru_segmented = True, maxbytes = 4096, oldest_live = 0, oldest_cas = 0, evict_to_free = True,
       slab_automove = 0, tail_repair_time = 0, hot_lru_pct = 20, warm_lru_pct = 40, hot_max_age = 3600,
       inline_ascii_response = True, temp_lru = False, temporary_ttl = 61\<rparr>,
     chunks = Map.empty, hdr_chunks = Map.empty, slabclass = [], mem_limit = 0, mem_malloced = 0,
     mem_limit_reached = False, power_largest = 0, mem_base = None, mem_current = 0, mem_avail = 0,
     malloc_plan = [Some 8192, None, Some 16384], realloc_plan = [True, True]\<rparr>"

definition started_slabs :: slabs where
  "started_slabs = sample_slabs\<lparr>mem_limit := 4096, power_largest := 3,
     slabclass := (replicate 64 empty_class)[1 := empty_class\<lparr>sc_size := 96, perslab := 10\<rparr>,
       2 := empty_class\<lparr>sc_size := 128, perslab := 8\<rparr>, 3 := empty_class\<lparr>sc_size := 512, perslab := 2\<rparr>]\<rparr>"

lemma sample_slabs_init:
  "slabs_init 4096 False None None 48 (\<lambda>_. False) (\<lambda>w. w) (Some [90, 128, 0]) sample_slabs = Some (True, started_slabs)"
proof -
  have "init_classes 1024 (\<lambda>_. False) (\<lambda>w. w) (Some [90, 128, 0]) 1 w (Suc (Suc (Suc n))) (replicate 64 empty_class) =
    Some (3, (replicate 64 empty_class)[1 := empty_class\<lparr>sc_size := 96, perslab := 10\<rparr>,
       2 := empty_class\<lparr>sc_size := 128, perslab := 8\<rparr>])" for w n
    by (simp add: align_size_def Let_def) (simp add: numeral_2_eq_2)
  from this [of _ 59] show ?thesis
    by (simp add: slabs_init_def slabs_init_classes_def sample_slabs_def started_slabs_def)
qed


text \<open>
  Claim C28. \<open>slabs_clsid\<close> answers 0 exactly for the size 0 and for sizes above
  \<open>item_size_max\<close>; for any other size it returns the first class whose chunks are large enough,
  and the largest class if there is none.
\<close>

theorem slabs_clsid_correct:
  assumes "1 \<le> power_largest s" and "power_largest s < length (slabclass s)" and "power_largest s < 64"
  shows "\<exists>c. slabs_clsid_of sz s = Some c \<and>
    (c = 0 \<longleftrightarrow> sz = 0 \<or> word_of_int (item_size_max (settings s)) < sz) \<and>
    (c \<noteq> 0 \<longrightarrow> c \<le> power_largest s \<and> (\<forall>j. 1 \<le> j \<and> j < c \<longrightarrow> ucast (sc_size (slabclass s ! j)) < sz) \<and>
      (c = power_largest s \<or> sz \<le> ucast (sc_size (slabclass s ! c))))"
proof (cases "sz = 0 \<or> word_of_int (item_size_max (settings s)) < sz")
  case True
  then show ?thesis by (auto simp: slabs_clsid_of_def)
next
  case False
  have left: "power_largest s - 1 < 64" using assms(3) by simp
  obtain c where "clsid_loop (slabclass s) sz (power_largest s) 1 64 = Some c" "1 \<le> c" "c \<le> power_largest s"
    "\<forall>j. 1 \<le> j \<and> j < c \<longrightarrow> ucast (sc_size (slabclass s ! j)) < sz" "c = power_largest s \<or> sz \<le> ucast (sc_size (slabclass s ! c))"
    using clsid_loop_least [of 1 "power_largest s" "slabclass s" 64 sz, OF assms(1,2) left] by auto
  then show ?thesis using False by (auto simp: slabs_clsid_of_def)
qed

theorem slabs_clsid_correct_witness:
  "\<exists>c. slabs_clsid_of 100 started_slabs = Some c \<and>
    (c = 0 \<longleftrightarrow> (100 :: u64) = 0 \<or> word_of_int (item_size_max (settings started_slabs)) < (100 :: u64)) \<and>
    (c \<noteq> 0 \<longrightarrow> c \<le> power_largest started_slabs \<and> (\<forall>j. 1 \<le> j \<and> j < c \<longrightarrow> ucast (sc_size (slabclass started_slabs ! j)) < (100 :: u64)) \<and>
      (c = power_largest started_slabs \<or> (100 :: u64) \<le> ucast (sc_size (slabclass started_slabs ! c))))"
  by (rule slabs_clsid_correct) (simp_all add: started_slabs_def)

end
