(* ===== verification/SlabMove.thy ===== *)
theory SlabMove
  imports Slabs
begin

text \<open>
  The slab page mover of slabs.c without the step that clears a page: the request
  (\<open>slabs_reassign\<close>), the start of a move and its end, where the page changes its class.
  \<open>None\<close> is undefined behaviour.
\<close>

section \<open>The state\<close>

text \<open>
  \<open>slab_rebal\<close>, the signal, the cursor of \<open>slabs_reassign_pick_any\<close> and the statistics of the
  mover. Only \<open>slab_start\<close> is compared with \<open>NULL\<close>; the other two addresses are then 0.
\<close>

record rebal = slabs +
  slab_start :: "nat option"
  slab_end :: nat
  slab_pos :: nat
  s_clsid :: int
  d_clsid :: int
  busy_items :: u32
  rescues :: u32
  evictions_nomem :: u32
  inline_reclaim :: u32
  chunk_rescues :: u32
  rebal_done :: u8
  slab_rebalance_signal :: int
  pick_cur :: int
  slab_reassign_running :: bool
  slabs_moved :: u64
  slab_reassign_rescues :: u64
  slab_reassign_evictions_nomem :: u64
  slab_reassign_inline_reclaim :: u64
  slab_reassign_chunk_rescues :: u64
  slab_reassign_busy_items :: u64

datatype reassign_result = REASSIGN_OK | REASSIGN_RUNNING | REASSIGN_BADCLASS | REASSIGN_NOSPARE | REASSIGN_SRC_DST_SAME

section \<open>Requests\<close>

fun pick_loop :: "slabclass list \<Rightarrow> int \<Rightarrow> int \<Rightarrow> nat \<Rightarrow> int \<Rightarrow> (int \<times> int) option" where
  "pick_loop cs largest dst 0 cur = Some (- 1, cur)"
| "pick_loop cs largest dst (Suc tries) cur =
     (let cur' = (if largest < cur + 1 then 1 else cur + 1)
      in if cur' = dst then pick_loop cs largest dst tries cur'
         else if length cs \<le> nat cur' then None
         else if 1 < sc_slabs (cs ! nat cur') then Some (cur', cur')
         else pick_loop cs largest dst tries cur')"

definition slabs_reassign_pick_any :: "int \<Rightarrow> 'a rebal_scheme \<Rightarrow> (int \<times> 'a rebal_scheme) option" where
  "slabs_reassign_pick_any dst s = do {
     (r, cur) \<leftarrow> pick_loop (slabclass s) (int (power_largest s)) dst (power_largest s) (pick_cur s);
     Some (r, s\<lparr>pick_cur := cur\<rparr>) }"

definition do_slabs_reassign :: "int \<Rightarrow> int \<Rightarrow> 'a rebal_scheme \<Rightarrow> (reassign_result \<times> 'a rebal_scheme) option" where
  "do_slabs_reassign src dst s =
     (if slab_rebalance_signal s \<noteq> 0 then Some (REASSIGN_RUNNING, s)
      else if src = dst then Some (REASSIGN_SRC_DST_SAME, s)
      else do {
        (src', s1) \<leftarrow> (if src = - 1 then slabs_reassign_pick_any dst s else Some (src, s));
        if src' < 1 \<or> int (power_largest s1) < src' \<or> dst < 0 \<or> int (power_largest s1) < dst
        then Some (REASSIGN_BADCLASS, s1)
        else if length (slabclass s1) \<le> nat src' then None
        else if sc_slabs (slabclass s1 ! nat src') < 2 then Some (REASSIGN_NOSPARE, s1)
        else Some (REASSIGN_OK, s1\<lparr>s_clsid := src', d_clsid := dst, slab_rebalance_signal := 1\<rparr>) })"

text \<open>\<open>locked\<close>: somebody else, the mover for one, holds \<open>slabs_rebalance_lock\<close>.\<close>

definition slabs_reassign :: "bool \<Rightarrow> int \<Rightarrow> int \<Rightarrow> 'a rebal_scheme \<Rightarrow> (reassign_result \<times> 'a rebal_scheme) option" where
  "slabs_reassign locked src dst s = (if locked then Some (REASSIGN_RUNNING, s) else do_slabs_reassign src dst s)"

section \<open>The start of a move\<close>

definition class_index :: "'a rebal_scheme \<Rightarrow> int \<Rightarrow> bool" where
  "class_index s i \<longleftrightarrow> 0 \<le> i \<and> nat i < length (slabclass s)"

definition slab_rebalance_start :: "'a rebal_scheme \<Rightarrow> (int \<times> 'a rebal_scheme) option" where
  "slab_rebalance_start s =
     (if \<not> class_index s (s_clsid s) \<or> \<not> class_index s (d_clsid s) then None
      else let bad = s_clsid s < 1 \<or> int (power_largest s) < s_clsid s \<or> d_clsid s < 0 \<or>
                     int (power_largest s) < d_clsid s \<or> s_clsid s = d_clsid s;
               (grown, s1) = grow_slab_list (nat (d_clsid s)) s;
               c = slabclass s1 ! nat (s_clsid s);
               no_go = (if sc_slabs c < 2 then - 3 else if \<not> grown then - 1 else if bad then - 2 else (0 :: int))
           in if no_go \<noteq> 0 then Some (no_go, s1)
              else if slab_list c = [] then None
              else let start = hd (slab_list c)
                   in Some (0, s1\<lparr>slab_start := Some start, slab_end := start + unat (sc_size c * perslab c), slab_pos := start,
                        rebal_done := 0, slab_rebalance_signal := 2, slab_reassign_running := True\<rparr>))"

section \<open>The end of a move\<close>

text \<open>\<open>s_cls->slabs--\<close>, then the rest of the array moves one place to the front.\<close>

definition drop_first_page :: "nat \<Rightarrow> 'a slabs_scheme \<Rightarrow> 'a slabs_scheme option" where
  "drop_first_page cid s =
     (let p = slabclass s ! cid; n = sc_slabs p - 1
      in if cid < length (slabclass s) \<and> (n = 0 \<or> unat n < length (slab_list p))
         then Some (upd_class cid (\<lambda>p. p\<lparr>sc_slabs := n,
                slab_list := take (unat n) (tl (slab_list p)) @ drop (unat n) (slab_list p)\<rparr>) s)
         else None)"

text \<open>
  The page is cleared by the length \<open>settings.item_size_max\<close>; the pages of a process that moves
  pages have \<open>settings.slab_page_size\<close> bytes. The result are also the pages given to \<open>free\<close>.
\<close>

definition finish_page :: "nat \<Rightarrow> nat \<Rightarrow> 'a slabs_scheme \<Rightarrow> (nat list \<times> 'a slabs_scheme) option" where
  "finish_page ptr d s =
     (if 0 < d
      then if slab_page_size (settings s) < item_size_max (settings s) then None
           else map_option (Pair []) (split_slab_page_into_freelist ptr d
                  (clear_page ptr (nat (item_size_max (settings s))) (slabclass s ! d) s))
      else memory_release s)"

definition slab_rebalance_finish :: "'a rebal_scheme \<Rightarrow> (nat list \<times> 'a rebal_scheme) option" where
  "slab_rebalance_finish s =
     (if \<not> class_index s (s_clsid s) \<or> \<not> class_index s (d_clsid s) then None
      else do {
        start \<leftarrow> slab_start s;
        s1 \<leftarrow> drop_first_page (nat (s_clsid s)) s;
        s2 \<leftarrow> add_page (nat (d_clsid s)) start s1;
        (freed, s3) \<leftarrow> finish_page start (nat (d_clsid s)) s2;
        Some (freed, s3\<lparr>rebal_done := 0, s_clsid := 0, d_clsid := 0, slab_start := None, slab_end := 0, slab_pos := 0,
          evictions_nomem := 0, inline_reclaim := 0, rescues := 0, slab_rebalance_signal := 0,
          slabs_moved := slabs_moved s3 + 1,
          slab_reassign_rescues := slab_reassign_rescues s3 + ucast (rescues s3),
          slab_reassign_evictions_nomem := slab_reassign_evictions_nomem s3 + ucast (evictions_nomem s3),
          slab_reassign_inline_reclaim := slab_reassign_inline_reclaim s3 + ucast (inline_reclaim s3),
          slab_reassign_chunk_rescues := slab_reassign_chunk_rescues s3 + ucast (chunk_rescues s3),
          slab_reassign_running := False\<rparr>) })"

section \<open>The pages of the classes\<close>

definition class_pages :: "slabclass \<Rightarrow> nat list" where
  "class_pages p = take (unat (sc_slabs p)) (slab_list p)"

definition page_arrays :: "'a slabs_scheme \<Rightarrow> (u32 \<times> nat list) list" where
  "page_arrays s = map (\<lambda>p. (sc_slabs p, slab_list p)) (slabclass s)"

definition all_pages :: "'a slabs_scheme \<Rightarrow> nat multiset" where
  "all_pages s = mset (concat (map class_pages (slabclass s)))"

lemma all_pages_arrays: "all_pages s = mset (concat (map (\<lambda>(n, l). take (unat n) l) (page_arrays s)))"
  by (simp add: all_pages_def page_arrays_def comp_def class_pages_def [abs_def])

lemma page_arrays_upd [simp]:
  assumes "\<And>p. sc_slabs (f p) = sc_slabs p \<and> slab_list (f p) = slab_list p"
  shows "page_arrays (upd_class cid f s) = page_arrays s"
proof (cases "cid < length (slabclass s)")
  case True
  let ?g = "\<lambda>p. (sc_slabs p, slab_list p)"
  have "?g (f (slabclass s ! cid)) = map ?g (slabclass s) ! cid" using True assms by simp
  then show ?thesis by (simp add: page_arrays_def upd_class_def map_update del: nth_map)
qed (simp add: upd_class_def list_update_beyond page_arrays_def)

lemma page_arrays_simps [simp]:
  "page_arrays (s\<lparr>items := m\<rparr>) = page_arrays s" "page_arrays (s\<lparr>chunks := c\<rparr>) = page_arrays s"
  "page_arrays (s\<lparr>hdr_chunks := c\<rparr>) = page_arrays s" "page_arrays (s\<lparr>mem_malloced := w\<rparr>) = page_arrays s"
  "page_arrays (clear_page ptr len p s) = page_arrays s"
  by (simp_all add: page_arrays_def clear_page_def)

lemma page_arrays_requested [simp]: "page_arrays (take_requested cid n s) = page_arrays s"
  by (simp add: take_requested_def)

lemma put_free_pages: "put_free cid a s = Some s' \<Longrightarrow> page_arrays s' = page_arrays s"
  by (auto simp: put_free_def Let_def split: if_splits bind_splits)

lemma free_chunks_pages: "free_chunks c s = Some s' \<Longrightarrow> page_arrays s' = page_arrays s"
proof (erule free_chunks.raw_induct [where P = "\<lambda>c s s'. page_arrays s' = page_arrays s", rotated])
  fix f :: "nat option \<Rightarrow> 'a slabs_scheme \<Rightarrow> 'a slabs_scheme option" and c s s'
  assume IH: "\<And>c s s'. f c s = Some s' \<Longrightarrow> page_arrays s' = page_arrays s"
  assume "(case c of None \<Rightarrow> Some s
      | Some a \<Rightarrow> do {
          c \<leftarrow> chunks s a;
          if ch_flags c \<noteq> ITEM_CHUNK then None
          else do {
            let cid = unat (ch_clsid c);
            s1 \<leftarrow> put_free cid a (s\<lparr>chunks := (chunks s)(a := None),
              items := (items s)(a \<mapsto> chunk_as_item (c\<lparr>ch_flags := ITEM_SLABBED, ch_clsid := 0\<rparr>))\<rparr>);
            f (ch_next c) (take_requested cid (scast (ch_size c) + of_nat sizeof_item) s1) } }) = Some s'"
  then show "page_arrays s' = page_arrays s"
    by (auto simp: Let_def dest!: put_free_pages IH split: option.splits if_splits bind_splits)
qed

lemma do_slabs_free_pages: "do_slabs_free a sz cid s = Some s' \<Longrightarrow> page_arrays s' = page_arrays s"
  by (auto simp: do_slabs_free_def do_slabs_free_chunked_def Let_def dest!: put_free_pages free_chunks_pages
      split: if_splits bind_splits)

lemma free_all_pages: "free_all cid as s = Some s' \<Longrightarrow> page_arrays s' = page_arrays s"
  by (induction as arbitrary: s) (auto dest!: do_slabs_free_pages split: bind_splits)

lemma all_pages_upd:
  assumes "cid < length (slabclass s)"
  shows "all_pages (upd_class cid f s) + mset (class_pages (slabclass s ! cid)) = all_pages s + mset (class_pages (f (slabclass s ! cid)))"
proof -
  let ?cs = "slabclass s" and ?p = "slabclass s ! cid"
  have "?cs = take cid ?cs @ ?p # drop (Suc cid) ?cs" using assms by (rule id_take_nth_drop)
  then have "all_pages s = mset (concat (map class_pages (take cid ?cs @ ?p # drop (Suc cid) ?cs)))"
    unfolding all_pages_def by (rule arg_cong)
  moreover have "?cs[cid := f ?p] = take cid ?cs @ f ?p # drop (Suc cid) ?cs" using assms by (rule upd_conv_take_nth_drop)
  ultimately show ?thesis by (simp add: all_pages_def upd_class_def)
qed

lemma unat_u32: "unat (w :: u32) < 2 ^ 32"
  using unsigned_less [of w] by simp

lemma grow_slab_list_pages:
  assumes "grow_slab_list cid s = (b, s')" "cid < length (slabclass s)"
    and "\<forall>p \<in> set (slabclass s). length (slab_list p) = unat (list_size p) \<and> unat (sc_slabs p) \<le> unat (list_size p)"
  shows "map class_pages (slabclass s') = map class_pages (slabclass s)" "length (slabclass s') = length (slabclass s)"
    "\<forall>p \<in> set (slabclass s'). length (slab_list p) < 2 ^ 32 \<and> unat (sc_slabs p) \<le> length (slab_list p)"
    "map sc_slabs (slabclass s') = map sc_slabs (slabclass s)" "settings s' = settings s" "power_largest s' = power_largest s"
proof -
  let ?p = "slabclass s ! cid"
  have p: "?p \<in> set (slabclass s)" using assms(2) by simp
  have wf: "\<forall>p \<in> set (slabclass s). length (slab_list p) < 2 ^ 32 \<and> unat (sc_slabs p) \<le> length (slab_list p)"
    using assms(3) unat_u32 by fastforce
  let ?new = "if list_size ?p \<noteq> 0 then list_size ?p * 2 else 16"
  have cases: "(slabclass s' = slabclass s \<or> slabclass s' = (slabclass s)[cid := ?p\<lparr>list_size := ?new,
      slab_list := slab_list ?p @ replicate (unat ?new - length (slab_list ?p)) 0\<rparr>]) \<and> settings s' = settings s \<and> power_largest s' = power_largest s"
    using assms(1) by (auto simp: grow_slab_list_def Let_def upd_class_def split: if_splits list.splits bool.splits)
  then show "settings s' = settings s" "power_largest s' = power_largest s" by simp_all
  from cases consider "slabclass s' = slabclass s" | (new) new :: u32 where "slabclass s' = (slabclass s)[cid := ?p\<lparr>list_size := new,
      slab_list := slab_list ?p @ replicate (unat new - length (slab_list ?p)) 0\<rparr>]" by blast
  then have "map class_pages (slabclass s') = map class_pages (slabclass s) \<and> length (slabclass s') = length (slabclass s) \<and>
    map sc_slabs (slabclass s') = map sc_slabs (slabclass s) \<and>
    (\<forall>p \<in> set (slabclass s'). length (slab_list p) < 2 ^ 32 \<and> unat (sc_slabs p) \<le> length (slab_list p))"
  proof cases
    case new
    let ?q = "?p\<lparr>list_size := new, slab_list := slab_list ?p @ replicate (unat new - length (slab_list ?p)) 0\<rparr>"
    have q: "class_pages ?q = map class_pages (slabclass s) ! cid" "sc_slabs ?q = map sc_slabs (slabclass s) ! cid"
      using wf p assms(2) by (simp_all add: class_pages_def)
    have "length (slab_list ?q) < 2 ^ 32 \<and> unat (sc_slabs ?q) \<le> length (slab_list ?q)"
      using wf p unat_u32 [of new] by auto
    then have "\<forall>p \<in> set (slabclass s'). length (slab_list p) < 2 ^ 32 \<and> unat (sc_slabs p) \<le> length (slab_list p)"
      using wf set_update_subset_insert [of "slabclass s" cid ?q] by (auto simp: new)
    then show ?thesis using q by (simp add: new map_update del: nth_map)
  qed (use wf in simp)
  then show "map class_pages (slabclass s') = map class_pages (slabclass s)" "length (slabclass s') = length (slabclass s)"
    "map sc_slabs (slabclass s') = map sc_slabs (slabclass s)"
    "\<forall>p \<in> set (slabclass s'). length (slab_list p) < 2 ^ 32 \<and> unat (sc_slabs p) \<le> length (slab_list p)" by auto
qed

lemma drop_first_page_pages:
  assumes "drop_first_page cid s = Some s'" "unat (sc_slabs (slabclass s ! cid)) \<le> length (slab_list (slabclass s ! cid))"
    and "2 \<le> sc_slabs (slabclass s ! cid)"
  shows "\<exists>f. s' = upd_class cid f s \<and> cid < length (slabclass s) \<and>
    class_pages (f (slabclass s ! cid)) = tl (class_pages (slabclass s ! cid))"
proof -
  let ?p = "slabclass s ! cid"
  have u: "unat (sc_slabs ?p - 1) = unat (sc_slabs ?p) - 1" and n: "2 \<le> unat (sc_slabs ?p)"
    using assms(3) by (auto simp: word_le_nat_alt unat_sub_nowrap)
  let ?f = "\<lambda>p. p\<lparr>sc_slabs := sc_slabs ?p - 1,
    slab_list := take (unat (sc_slabs ?p - 1)) (tl (slab_list p)) @ drop (unat (sc_slabs ?p - 1)) (slab_list p)\<rparr>"
  have "s' = upd_class cid ?f s" "cid < length (slabclass s)"
    using assms(1) by (auto simp: drop_first_page_def Let_def split: if_splits)
  moreover have "class_pages (?f ?p) = tl (class_pages ?p)"
    using assms(2) n by (simp add: class_pages_def u tl_take)
  ultimately show ?thesis by blast
qed

lemma add_page_pages:
  assumes "add_page cid ptr s = Some s'" "cid < length (slabclass s)"
    and "length (slab_list (slabclass s ! cid)) < 2 ^ 32"
  shows "\<exists>f. s' = upd_class cid f s \<and> class_pages (f (slabclass s ! cid)) = class_pages (slabclass s ! cid) @ [ptr]"
proof -
  let ?p = "slabclass s ! cid"
  let ?f = "\<lambda>p. p\<lparr>slab_list := (slab_list p)[unat (sc_slabs p) := ptr], sc_slabs := sc_slabs p + 1\<rparr>"
  have f: "s' = upd_class cid ?f s" "unat (sc_slabs ?p) < length (slab_list ?p)"
    using assms(1) by (auto simp: add_page_def Let_def split: if_splits)
  then have "unat (sc_slabs ?p + 1) = Suc (unat (sc_slabs ?p))" using assms(3) by (simp add: unat_word_ariths)
  then have "class_pages (?f ?p) = class_pages ?p @ [ptr]"
    using f(2) by (simp add: class_pages_def take_Suc_conv_app_nth)
  then show ?thesis using f(1) by blast
qed

lemma release_loop_pages:
  "release_loop s = Some (ps, s') \<Longrightarrow> mset ps + all_pages s' = all_pages s \<and> length (slabclass s') = length (slabclass s) \<and>
     (\<forall>j > 0. slabclass s' ! j = slabclass s ! j)"
proof (induction s arbitrary: ps s' rule: release_loop.induct)
  case (1 s)
  show ?case
  proof (cases "mem_limit s < mem_malloced s \<and> 0 < sc_slabs (slabclass s ! 0) \<and> slabclass s \<noteq> []")
    case False
    then show ?thesis using "1.prems" by (subst (asm) release_loop.simps) auto
  next
    case True
    let ?p = "slabclass s ! 0" and ?f = "\<lambda>p. p\<lparr>sc_slabs := sc_slabs p - 1\<rparr>"
    define s2 where "s2 = (upd_class 0 ?f s)\<lparr>mem_malloced := mem_malloced s - word_of_int (item_size_max (settings s))\<rparr>"
    define ptr where "ptr = slab_list ?p ! (unat (sc_slabs ?p) - 1)"
    have nz: "\<not> sc_slabs ?p < 1" using True by (simp add: word_less_nat_alt unat_gt_0 [symmetric] not_less Suc_le_eq)
    obtain ps' where g: "get_page_from_global_pool s = Some (Some ptr, upd_class 0 ?f s)" "unat (sc_slabs ?p) - 1 < length (slab_list ?p)"
      "release_loop s2 = Some (ps', s')" "ps = ptr # ps'"
      using "1.prems" True nz
      by (subst (asm) release_loop.simps)
         (auto simp: get_page_from_global_pool_def Let_def ptr_def s2_def split: bind_splits if_splits)
    have IH: "mset ps' + all_pages s' = all_pages s2 \<and> length (slabclass s') = length (slabclass s2) \<and> (\<forall>j > 0. slabclass s' ! j = slabclass s2 ! j)"
      using "1.IH" [OF True g(1) refl refl] g(3) by (simp add: s2_def)
    have u: "unat (sc_slabs ?p - 1) = unat (sc_slabs ?p) - 1" "0 < unat (sc_slabs ?p)"
      using True unat_minus_one [of "sc_slabs ?p"] by (auto simp: unat_gt_0)
    then have "class_pages ?p = class_pages (?f ?p) @ [ptr]"
      using g(2) take_Suc_conv_app_nth [of "unat (sc_slabs ?p) - 1" "slab_list ?p"] by (simp add: class_pages_def ptr_def)
    then have "all_pages (upd_class 0 ?f s) + {#ptr#} = all_pages s" using all_pages_upd [of 0 s ?f] True by simp
    moreover have "all_pages s2 = all_pages (upd_class 0 ?f s)" by (simp add: s2_def all_pages_arrays)
    ultimately show ?thesis using IH g(4) by (simp add: s2_def)
  qed
qed

lemma finish_page_pages:
  assumes "finish_page ptr d s = Some (freed, s')"
  shows "mset freed + all_pages s' = all_pages s" "\<forall>j > 0. j < length (slabclass s) \<longrightarrow> class_pages (slabclass s' ! j) = class_pages (slabclass s ! j)"
    "length (slabclass s') = length (slabclass s)" "0 < d \<Longrightarrow> freed = []"
proof -
  have "mset freed + all_pages s' = all_pages s \<and> (\<forall>j > 0. j < length (slabclass s) \<longrightarrow> class_pages (slabclass s' ! j) = class_pages (slabclass s ! j)) \<and>
    length (slabclass s') = length (slabclass s) \<and> (0 < d \<longrightarrow> freed = [])"
  proof (cases "0 < d")
    case True
    then have pa: "freed = []" "page_arrays s' = page_arrays s"
      using assms by (auto simp: finish_page_def split_slab_page_into_freelist_def dest!: free_all_pages split: if_splits)
    moreover have len: "length (slabclass s') = length (slabclass s)"
      using arg_cong [OF pa(2), of length] by (simp add: page_arrays_def)
    moreover have "class_pages (slabclass s' ! j) = class_pages (slabclass s ! j)" if "j < length (slabclass s)" for j
    proof -
      have "page_arrays s' ! j = page_arrays s ! j" using pa(2) by simp
      then show ?thesis using that len by (simp add: page_arrays_def class_pages_def)
    qed
    ultimately show ?thesis by (simp add: all_pages_arrays)
  next
    case False
    then show ?thesis
      using assms release_loop_pages [of s freed s'] by (auto simp: finish_page_def memory_release_def split: if_splits)
  qed
  then show "mset freed + all_pages s' = all_pages s" "\<forall>j > 0. j < length (slabclass s) \<longrightarrow> class_pages (slabclass s' ! j) = class_pages (slabclass s ! j)"
    "length (slabclass s') = length (slabclass s)" "0 < d \<Longrightarrow> freed = []" by simp_all
qed

section \<open>From the request to the end of a move\<close>

definition pages_wf :: "'a slabs_scheme \<Rightarrow> bool" where
  "pages_wf s \<longleftrightarrow>
     (\<forall>p \<in> set (slabclass s). length (slab_list p) = unat (list_size p) \<and> unat (sc_slabs p) \<le> unat (list_size p))"

text \<open>
  What the other threads may do to the pages while a move is under way: a class gets new pages at the end
  of its array, and the pool of spare pages (class 0) changes as it likes. The signal keeps other moves out.
\<close>

definition moving :: "'a rebal_scheme \<Rightarrow> 'a rebal_scheme \<Rightarrow> bool" where
  "moving s s' \<longleftrightarrow> pages_wf s' \<and> length (slabclass s') = length (slabclass s) \<and> power_largest s' = power_largest s \<and>
     slab_start s' = slab_start s \<and> s_clsid s' = s_clsid s \<and> d_clsid s' = d_clsid s \<and>
     (\<forall>j > 0. j < length (slabclass s) \<longrightarrow> (\<exists>new. class_pages (slabclass s' ! j) = class_pages (slabclass s ! j) @ new))"

text \<open>The page can be cut up for its new class.\<close>

definition page_fits :: "nat \<Rightarrow> nat \<Rightarrow> 'a slabs_scheme \<Rightarrow> bool" where
  "page_fits ptr cid s \<longleftrightarrow> (let p = slabclass s ! cid; len = nat (item_size_max (settings s)) in
     item_size_max (settings s) \<le> slab_page_size (settings s) \<and> 0 < unat (sc_size p) \<and>
     unat (sc_size p) * unat (perslab p) \<le> len \<and> (\<exists>fs. freelist (items s) p fs \<and> set fs \<inter> {ptr..<ptr + len} = {}))"

lemma class_pages_length: "pages_wf s \<Longrightarrow> j < length (slabclass s) \<Longrightarrow> length (class_pages (slabclass s ! j)) = unat (sc_slabs (slabclass s ! j))"
  using nth_mem [of j "slabclass s"] by (auto simp: pages_wf_def class_pages_def)

lemma class_pages_hd: "class_pages p \<noteq> [] \<Longrightarrow> hd (class_pages p) = hd (slab_list p)"
  by (cases "slab_list p"; cases "unat (sc_slabs p)") (simp_all add: class_pages_def)

lemma do_slabs_reassign_ok:
  assumes "slabs_reassign locked src dst s = Some (REASSIGN_OK, s1)" "power_largest s < length (slabclass s)"
  shows "slabclass s1 = slabclass s" "power_largest s1 = power_largest s" "slab_rebalance_signal s1 = 1" "d_clsid s1 = dst"
    "1 \<le> s_clsid s1" "s_clsid s1 \<le> int (power_largest s)" "0 \<le> dst" "dst \<le> int (power_largest s)" "src = - 1 \<or> s_clsid s1 = src"
    "2 \<le> sc_slabs (slabclass s ! nat (s_clsid s1))"
  using assms
  by (auto simp: slabs_reassign_def do_slabs_reassign_def slabs_reassign_pick_any_def not_less not_le split: if_splits bind_splits)

lemma pick_loop_other:
  "pick_loop cs largest dst tries cur = Some (r, cur') \<Longrightarrow> r \<noteq> - 1 \<Longrightarrow> r \<noteq> dst"
  by (induction cs largest dst tries cur rule: pick_loop.induct) (auto simp: Let_def split: if_splits)

lemma slabs_reassign_other:
  assumes "slabs_reassign locked src dst s = Some (REASSIGN_OK, s1)"
  shows "s_clsid s1 \<noteq> dst"
proof -
  have "\<exists>x t. s1 = t\<lparr>s_clsid := x, d_clsid := dst, slab_rebalance_signal := 1\<rparr> \<and> x \<noteq> dst"
    using assms
    by (auto simp: slabs_reassign_def do_slabs_reassign_def slabs_reassign_pick_any_def dest!: pick_loop_other split: if_splits bind_splits)
      (intro exI conjI, rule refl, assumption)
  then show ?thesis by auto
qed

lemma slab_rebalance_start_ok:
  assumes "pages_wf s" "1 \<le> s_clsid s" "s_clsid s \<le> int (power_largest s)" "0 \<le> d_clsid s" "d_clsid s \<le> int (power_largest s)"
    "s_clsid s \<noteq> d_clsid s" "power_largest s < length (slabclass s)" "2 \<le> sc_slabs (slabclass s ! nat (s_clsid s))"
  shows "\<exists>r s'. slab_rebalance_start s = Some (r, s') \<and> (r = 0 \<or> r = - 1) \<and> map class_pages (slabclass s') = map class_pages (slabclass s) \<and>
    (r = 0 \<longrightarrow> slab_start s' = Some (hd (class_pages (slabclass s ! nat (s_clsid s)))) \<and> s_clsid s' = s_clsid s \<and> d_clsid s' = d_clsid s \<and>
      power_largest s' = power_largest s \<and> slab_rebalance_signal s' = 2)"
proof -
  let ?src = "nat (s_clsid s)" and ?dst = "nat (d_clsid s)"
  obtain b s0 where g: "grow_slab_list ?dst s = (b, s0)" by fastforce
  have ix: "?src < length (slabclass s)" "?dst < length (slabclass s)" using assms(2-7) by auto
  note gp = grow_slab_list_pages [OF g ix(2) assms(1) [unfolded pages_wf_def]]
  have ids: "s_clsid s0 = s_clsid s" "d_clsid s0 = d_clsid s"
    using g by (auto simp: grow_slab_list_def Let_def upd_class_def split: if_splits list.splits bool.splits)
  let ?c = "slabclass s0 ! ?src"
  have n: "sc_slabs ?c = sc_slabs (slabclass s ! ?src)" using arg_cong [OF gp(4), of "\<lambda>l. l ! ?src"] ix(1) gp(2) by simp
  have cp: "class_pages ?c = class_pages (slabclass s ! ?src)" using arg_cong [OF gp(1), of "\<lambda>l. l ! ?src"] ix(1) gp(2) by simp
  have "0 < unat (sc_slabs ?c)" using assms(8) n by (simp add: word_le_nat_alt)
  then have ne: "slab_list ?c \<noteq> []" "class_pages ?c \<noteq> []"
    using bspec [OF gp(3) nth_mem, of ?src] ix(1) gp(2) by (auto simp: class_pages_def)
  have "\<not> sc_slabs ?c < 2" "class_index s (s_clsid s)" "class_index s (d_clsid s)" using assms(2,4,8) n ix by (simp_all add: class_index_def not_less)
  then show ?thesis
    using assms(2-6) g ne(1) gp(1,6) ids class_pages_hd [OF ne(2)] unfolding cp
    by (cases b) (simp_all add: slab_rebalance_start_def Let_def)
qed

lemma release_loop_defined:
  "unat (sc_slabs (slabclass s ! 0)) \<le> length (slab_list (slabclass s ! 0)) \<Longrightarrow> release_loop s \<noteq> None"
proof (induction s rule: release_loop.induct)
  case (1 s)
  show ?case
  proof (cases "mem_limit s < mem_malloced s \<and> 0 < sc_slabs (slabclass s ! 0) \<and> slabclass s \<noteq> []")
    case False
    then show ?thesis by (subst release_loop.simps) auto
  next
    case True
    let ?p = "slabclass s ! 0" and ?f = "\<lambda>p. p\<lparr>sc_slabs := sc_slabs p - 1\<rparr>"
    have u: "unat (sc_slabs ?p - 1) = unat (sc_slabs ?p) - 1" "0 < unat (sc_slabs ?p)"
      using True unat_minus_one [of "sc_slabs ?p"] by (auto simp: unat_gt_0)
    have "\<not> sc_slabs ?p < 1" using u(2) by (simp add: word_less_nat_alt)
    then have g: "get_page_from_global_pool s = Some (Some (slab_list ?p ! (unat (sc_slabs ?p) - 1)), upd_class 0 ?f s)"
      using "1.prems" u(2) by (simp add: get_page_from_global_pool_def Let_def)
    have "release_loop ((upd_class 0 ?f s)\<lparr>mem_malloced := mem_malloced s - word_of_int (item_size_max (settings s))\<rparr>) \<noteq> None"
      using "1.IH" [OF True g refl refl] "1.prems" True u by simp
    then show ?thesis using True g by (subst release_loop.simps) auto
  qed
qed

lemma finish_page_defined:
  assumes "unat (sc_slabs (slabclass s ! 0)) \<le> length (slab_list (slabclass s ! 0))"
    and "0 < d \<Longrightarrow> page_fits ptr d s \<and> d \<le> power_largest s \<and> d < length (slabclass s)"
  shows "finish_page ptr d s \<noteq> None"
proof (cases "0 < d")
  case False
  then show ?thesis using release_loop_defined [OF assms(1)] by (auto simp: finish_page_def memory_release_def)
next
  case True
  let ?p = "slabclass s ! d" and ?len = "nat (item_size_max (settings s))" and ?as = "chunk_starts ptr (slabclass s ! d)"
  let ?s = "clear_page ptr ?len ?p s"
  obtain fs where fs: "freelist (items s) ?p fs" "set fs \<inter> {ptr..<ptr + ?len} = {}"
    and p: "item_size_max (settings s) \<le> slab_page_size (settings s)" "0 < unat (sc_size ?p)" "unat (sc_size ?p) * unat (perslab ?p) \<le> ?len"
    using assms(2) [OF True] by (auto simp: page_fits_def Let_def)
  note as = chunk_starts_ok [OF p(2,3), of ptr]
  have "freelist (items ?s) (slabclass ?s ! d) fs"
    by (rule freelist_cong [OF fs(1)]) (use fs(2) as(2) in \<open>auto simp: clear_page_def\<close>)
  moreover have "\<forall>a \<in> set ?as. \<exists>it. items ?s a = Some it \<and> it_flags it AND ITEM_CHUNKED = 0"
  proof
    fix a
    assume a: "a \<in> set ?as"
    have "a + min sizeof_item (unat (sc_size ?p)) \<le> ptr + ?len" using chunk_starts_ends(2) [OF p(3) a] by simp
    then show "\<exists>it. items ?s a = Some it \<and> it_flags it AND ITEM_CHUNKED = 0" using a by (simp add: clear_page_def zero_item_def)
  qed
  moreover have "distinct (?as @ fs)" using as(1,2) fs by (auto simp: freelist_def)
  ultimately obtain s' where "free_all d ?as ?s = Some s'"
    using free_all_ok [of ?s d fs ?as] assms(2) [OF True] True by (auto simp: clear_page_def)
  then show ?thesis using True p(1) by (simp add: finish_page_def split_slab_page_into_freelist_def clear_page_def)
qed

text \<open>The end of a move, from any state with a page of the source class as the page to move.\<close>

lemma slab_rebalance_finish_pages:
  assumes "pages_wf s" "class_index s (s_clsid s)" "class_index s (d_clsid s)" "0 < s_clsid s" "s_clsid s \<noteq> d_clsid s"
    and "2 \<le> sc_slabs (slabclass s ! nat (s_clsid s))" "slab_start s = Some (hd (class_pages (slabclass s ! nat (s_clsid s))))"
    and "slab_rebalance_finish s = Some (freed, s')"
  shows "mset freed + all_pages s' = all_pages s \<and>
    class_pages (slabclass s' ! nat (s_clsid s)) = tl (class_pages (slabclass s ! nat (s_clsid s))) \<and>
    (0 < d_clsid s \<longrightarrow> freed = [] \<and> class_pages (slabclass s' ! nat (d_clsid s)) =
       class_pages (slabclass s ! nat (d_clsid s)) @ [hd (class_pages (slabclass s ! nat (s_clsid s)))])"
proof -
  let ?src = "nat (s_clsid s)" and ?dst = "nat (d_clsid s)"
  let ?from = "class_pages (slabclass s ! ?src)" and ?ptr = "hd (class_pages (slabclass s ! ?src))"
  have ix: "?src < length (slabclass s)" "?dst < length (slabclass s)" "0 < ?src" "?src \<noteq> ?dst"
    using assms(2-5) by (auto simp: class_index_def)
  have wf: "length (slab_list (slabclass s ! j)) < 2 ^ 32" "unat (sc_slabs (slabclass s ! j)) \<le> length (slab_list (slabclass s ! j))"
    if "j < length (slabclass s)" for j
    using assms(1) nth_mem [OF that] unat_u32 [of "list_size (slabclass s ! j)"] by (auto simp: pages_wf_def)
  obtain t1 t2 t3 where t: "drop_first_page ?src s = Some t1" "add_page ?dst ?ptr t1 = Some t2" "finish_page ?ptr ?dst t2 = Some (freed, t3)"
    "slabclass s' = slabclass t3"
    using assms(7,8) by (auto simp: slab_rebalance_finish_def split: if_splits bind_splits)
  obtain f where f: "t1 = upd_class ?src f s" "class_pages (f (slabclass s ! ?src)) = tl ?from"
    using drop_first_page_pages [OF t(1) wf(2) [OF ix(1)] assms(6)] by auto
  have t1: "length (slabclass t1) = length (slabclass s)" "slabclass t1 ! ?dst = slabclass s ! ?dst" "class_pages (slabclass t1 ! ?src) = tl ?from"
    using f ix by simp_all
  obtain f' where f': "t2 = upd_class ?dst f' t1" "class_pages (f' (slabclass t1 ! ?dst)) = class_pages (slabclass t1 ! ?dst) @ [?ptr]"
    using add_page_pages [OF t(2)] t1 ix(2) wf(1) [OF ix(2)] by auto
  note fp = finish_page_pages [OF t(3)]
  have "?from \<noteq> []" using class_pages_length [OF assms(1) ix(1)] assms(6) by (auto simp: word_le_nat_alt)
  then have "mset ?from = add_mset ?ptr (mset (tl ?from))" by (cases ?from) simp_all
  then have "all_pages t1 + {#?ptr#} = all_pages s" using all_pages_upd [of ?src s f] f ix(1) by simp
  moreover have "all_pages t2 = all_pages t1 + {#?ptr#}" using all_pages_upd [of ?dst t1 f'] f' t1(1) ix(2) by simp
  moreover have "class_pages (slabclass t3 ! ?src) = tl ?from" using fp(2) ix f'(1) t1 by simp
  moreover have "class_pages (slabclass t3 ! ?dst) = class_pages (slabclass s ! ?dst) @ [?ptr]" if "0 < d_clsid s"
    using fp(2) ix(2) f' t1 that by simp
  moreover have "all_pages s' = all_pages t3" using t(4) by (simp add: all_pages_def)
  ultimately show ?thesis using fp(1,4) t(4) by auto
qed

lemma drop_first_page_defined:
  assumes "cid < length (slabclass s)" "2 \<le> sc_slabs (slabclass s ! cid)" "unat (sc_slabs (slabclass s ! cid)) \<le> length (slab_list (slabclass s ! cid))"
  shows "\<exists>f. drop_first_page cid s = Some (upd_class cid f s)"
proof -
  have "unat (sc_slabs (slabclass s ! cid) - 1) < length (slab_list (slabclass s ! cid))"
    using assms(2,3) by (simp add: word_le_nat_alt unat_sub_nowrap)
  then show ?thesis using assms(1) by (auto simp: drop_first_page_def Let_def)
qed

lemma slab_rebalance_finish_defined:
  assumes "pages_wf s" "class_index s (s_clsid s)" "class_index s (d_clsid s)" "0 < s_clsid s" "s_clsid s \<noteq> d_clsid s"
    and "2 \<le> sc_slabs (slabclass s ! nat (s_clsid s))" "slab_start s = Some ptr" "d_clsid s \<le> int (power_largest s)"
    and "0 < d_clsid s \<Longrightarrow> page_fits ptr (nat (d_clsid s)) s"
  shows "slab_rebalance_finish s = None \<longleftrightarrow> sc_slabs (slabclass s ! nat (d_clsid s)) = list_size (slabclass s ! nat (d_clsid s))"
proof -
  let ?src = "nat (s_clsid s)" and ?dst = "nat (d_clsid s)"
  have ix: "?src < length (slabclass s)" "?dst < length (slabclass s)" "0 < ?src" "?src \<noteq> ?dst"
    using assms(2-5) by (auto simp: class_index_def)
  have wf: "length (slab_list (slabclass s ! j)) = unat (list_size (slabclass s ! j))"
    "unat (sc_slabs (slabclass s ! j)) \<le> unat (list_size (slabclass s ! j))" if "j < length (slabclass s)" for j
    using assms(1) nth_mem [OF that] by (auto simp: pages_wf_def)
  obtain f where f: "drop_first_page ?src s = Some (upd_class ?src f s)"
    using drop_first_page_defined [OF ix(1) assms(6)] wf [OF ix(1)] by auto
  let ?t1 = "upd_class ?src f s"
  let ?g = "\<lambda>p. p\<lparr>slab_list := (slab_list p)[unat (sc_slabs p) := ptr], sc_slabs := sc_slabs p + 1\<rparr>"
  show ?thesis
  proof (cases "sc_slabs (slabclass s ! ?dst) = list_size (slabclass s ! ?dst)")
    case True
    then have "add_page ?dst ptr ?t1 = None" using wf(1) [OF ix(2)] ix(4) by (simp add: add_page_def Let_def)
    then show ?thesis using True assms(2,3,7) f by (simp add: slab_rebalance_finish_def)
  next
    case False
    then have lt: "unat (sc_slabs (slabclass s ! ?dst)) < unat (list_size (slabclass s ! ?dst))"
      using wf(2) [OF ix(2)] by (metis le_neq_implies_less word_unat_eq_iff)
    then have add: "add_page ?dst ptr ?t1 = Some (upd_class ?dst ?g ?t1)" using wf(1) [OF ix(2)] ix(4) by (simp add: add_page_def Let_def)
    have room: "unat (sc_slabs (slabclass s ! ?dst) + 1) \<le> unat (list_size (slabclass s ! ?dst))"
      using lt unat_u32 [of "list_size (slabclass s ! ?dst)"] by (simp add: unat_word_ariths)
    have zero: "unat (sc_slabs (slabclass (upd_class ?dst ?g ?t1) ! 0)) \<le> length (slab_list (slabclass (upd_class ?dst ?g ?t1) ! 0))"
    proof (cases "?dst = 0")
      case True
      then show ?thesis using room wf(1) [OF ix(2)] ix by simp
    next
      case False
      have "0 < length (slabclass s)" using ix(1) by (rule le_less_trans [OF le0])
      from wf [OF this] show ?thesis using False ix(3) by simp
    qed
    have "finish_page ptr ?dst (upd_class ?dst ?g ?t1) \<noteq> None"
    proof (rule finish_page_defined [OF zero])
      assume "0 < ?dst"
      then have "page_fits ptr ?dst s" using assms(9) by simp
      then have "page_fits ptr ?dst (upd_class ?dst ?g ?t1)"
        using ix(2,4) by (simp add: page_fits_def freelist_def Let_def)
      then show "page_fits ptr ?dst (upd_class ?dst ?g ?t1) \<and> ?dst \<le> power_largest (upd_class ?dst ?g ?t1) \<and>
          ?dst < length (slabclass (upd_class ?dst ?g ?t1))"
        using assms(8) ix(2) by simp
    qed
    then show ?thesis using False assms(2,3,7) f add by (auto simp: slab_rebalance_finish_def)
  qed
qed

section \<open>Properties\<close>

text \<open>
  Claim C29. From the request to its end a page move loses no page and duplicates none. When
  \<open>slabs_reassign\<close> accepts, the start of the move succeeds or fails for want of memory, and changes
  the pages of no class. Whatever the other threads do meanwhile (items of all classes, new pages at the
  end of the arrays, the pool of spare pages), the end of the move takes the page that was the first of
  the source class at the request away from it and appends it to the target class, and the pages of all classes
  together with those given to \<open>free\<close> are the pages there were before this last step. If the page can be cut up
  for its new class (\<open>page_fits\<close>: the chunks lie within the \<open>item_size_max\<close> bytes that are cleared, these within
  the page, and the free list of the class is in order outside of it), the last step is defined
  exactly if the array of the target class still has room: another thread that gives the class
  a page meanwhile can use up the room that the start made, and then the page is written beyond the array.
\<close>

theorem page_move_keeps_pages:
  assumes "pages_wf s" and "power_largest s < length (slabclass s)"
    and "slabs_reassign locked src dst s = Some (REASSIGN_OK, s1)"
  defines "from \<equiv> nat (s_clsid s1)" and "to \<equiv> nat dst"
  shows "\<exists>r s2. slab_rebalance_start s1 = Some (r, s2) \<and> (r = 0 \<or> r = - 1) \<and>
    map class_pages (slabclass s2) = map class_pages (slabclass s) \<and> 0 < from \<and> from \<noteq> to \<and> (src = - 1 \<or> from = nat src) \<and>
    (r = 0 \<longrightarrow> (\<forall>s3. moving s2 s3 \<longrightarrow>
      ((0 < to \<longrightarrow> page_fits (hd (class_pages (slabclass s ! from))) to s3) \<longrightarrow>
        (slab_rebalance_finish s3 = None \<longleftrightarrow> sc_slabs (slabclass s3 ! to) = list_size (slabclass s3 ! to))) \<and>
      (\<forall>freed s4. slab_rebalance_finish s3 = Some (freed, s4) \<longrightarrow>
        mset freed + all_pages s4 = all_pages s3 \<and>
        class_pages (slabclass s3 ! from) = hd (class_pages (slabclass s ! from)) # class_pages (slabclass s4 ! from) \<and>
        (0 < to \<longrightarrow> freed = [] \<and>
          class_pages (slabclass s4 ! to) = class_pages (slabclass s3 ! to) @ [hd (class_pages (slabclass s ! from))]))))"
proof -
  note q = do_slabs_reassign_ok [OF assms(3,2)] slabs_reassign_other [OF assms(3)]
  have wf1: "pages_wf s1" using assms(1) q(1) by (simp add: pages_wf_def)
  obtain r s2 where st: "slab_rebalance_start s1 = Some (r, s2)" "r = 0 \<or> r = - 1" "map class_pages (slabclass s2) = map class_pages (slabclass s)"
    and run: "r = 0 \<Longrightarrow> slab_start s2 = Some (hd (class_pages (slabclass s ! from))) \<and> s_clsid s2 = s_clsid s1 \<and> d_clsid s2 = dst \<and>
      power_largest s2 = power_largest s"
    using slab_rebalance_start_ok [OF wf1] q assms(2) by (auto simp: from_def)
  have ix: "0 < from" "from < length (slabclass s)" "to < length (slabclass s)" "from \<noteq> to" "src = - 1 \<or> from = nat src"
    using q assms(2) by (auto simp: from_def to_def)
  have len2: "length (slabclass s2) = length (slabclass s)" using arg_cong [OF st(3), of length] by simp
  have c2: "class_pages (slabclass s2 ! from) = class_pages (slabclass s ! from)"
    using arg_cong [OF st(3), of "\<lambda>l. l ! from"] ix(2) len2 by simp
  have two: "2 \<le> length (class_pages (slabclass s ! from))"
    using class_pages_length [OF assms(1) ix(2)] q(10) by (simp add: from_def word_le_nat_alt)
  have "((0 < to \<longrightarrow> page_fits (hd (class_pages (slabclass s ! from))) to s3) \<longrightarrow>
        (slab_rebalance_finish s3 = None \<longleftrightarrow> sc_slabs (slabclass s3 ! to) = list_size (slabclass s3 ! to))) \<and>
      (\<forall>freed s4. slab_rebalance_finish s3 = Some (freed, s4) \<longrightarrow> mset freed + all_pages s4 = all_pages s3 \<and>
        class_pages (slabclass s3 ! from) = hd (class_pages (slabclass s ! from)) # class_pages (slabclass s4 ! from) \<and>
        (0 < to \<longrightarrow> freed = [] \<and>
          class_pages (slabclass s4 ! to) = class_pages (slabclass s3 ! to) @ [hd (class_pages (slabclass s ! from))]))"
    if r: "r = 0" and mv: "moving s2 s3" for s3
  proof -
    have m: "pages_wf s3" "length (slabclass s3) = length (slabclass s)" "s_clsid s3 = s_clsid s1" "d_clsid s3 = dst"
      "slab_start s3 = Some (hd (class_pages (slabclass s ! from)))" "power_largest s3 = power_largest s"
      "\<exists>new. class_pages (slabclass s3 ! from) = class_pages (slabclass s ! from) @ new"
      using mv run [OF r] len2 ix(1,2) unfolding moving_def c2 [symmetric] by auto
    have hd3: "hd (class_pages (slabclass s3 ! from)) = hd (class_pages (slabclass s ! from))" "class_pages (slabclass s3 ! from) \<noteq> []"
      using m(7) two by (auto simp: hd_append)
    have two3: "2 \<le> sc_slabs (slabclass s3 ! from)"
      using m(7) two class_pages_length [OF m(1), of "from"] ix(2) m(2) by (auto simp: word_le_nat_alt)
    have idx: "class_index s3 (s_clsid s3)" "class_index s3 (d_clsid s3)" "0 < s_clsid s3" "s_clsid s3 \<noteq> d_clsid s3"
      using m(2,3,4) ix q by (simp_all add: class_index_def from_def to_def)
    note D = slab_rebalance_finish_defined [OF m(1) idx, of "hd (class_pages (slabclass s ! from))"]
    show ?thesis
    proof (intro conjI impI allI)
      assume fits: "0 < to \<longrightarrow> page_fits (hd (class_pages (slabclass s ! from))) to s3"
      show "slab_rebalance_finish s3 = None \<longleftrightarrow> sc_slabs (slabclass s3 ! to) = list_size (slabclass s3 ! to)"
        using D two3 m(3-6) q(8) fits by (simp add: from_def to_def)
    next
      fix freed s4
      assume fin: "slab_rebalance_finish s3 = Some (freed, s4)"
      have P: "mset freed + all_pages s4 = all_pages s3 \<and> class_pages (slabclass s4 ! from) = tl (class_pages (slabclass s3 ! from)) \<and>
        (0 < dst \<longrightarrow> freed = [] \<and>
          class_pages (slabclass s4 ! to) = class_pages (slabclass s3 ! to) @ [hd (class_pages (slabclass s3 ! from))])"
        using slab_rebalance_finish_pages [OF m(1) idx _ _ fin] two3 m(3-5) hd3(1) by (simp add: from_def to_def)
      show "mset freed + all_pages s4 = all_pages s3" using P by blast
      show "class_pages (slabclass s3 ! from) = hd (class_pages (slabclass s ! from)) # class_pages (slabclass s4 ! from)"
        using P hd3 by (metis list.collapse)
      assume "0 < to"
      then have "0 < dst" by (simp add: to_def)
      then show "freed = []" "class_pages (slabclass s4 ! to) = class_pages (slabclass s3 ! to) @ [hd (class_pages (slabclass s ! from))]"
        using P hd3(1) by simp_all
    qed
  qed
  then show ?thesis using st ix by blast
qed

definition two_page_slabs :: slabs where
  "two_page_slabs = started_slabs\<lparr>slabclass := (slabclass started_slabs)[1 := (slabclass started_slabs ! 1)\<lparr>sc_slabs := 2,
     slab_list := [8192, 16384], list_size := 2\<rparr>]\<rparr>"

definition sample_rebal :: rebal where
  "sample_rebal = slabs.extend two_page_slabs (rebal.fields None 0 0 0 0 0 0 0 0 0 0 0 0 False 0 0 0 0 0 0)"

lemma two_chunks: "[0..<2] = [0, Suc 0]" "{0..<2} = {0, Suc 0}"
  by (auto simp: upt_rec)

lemma sample_rebal_wf: "pages_wf sample_rebal"
  by (auto simp: pages_wf_def sample_rebal_def two_page_slabs_def started_slabs_def empty_class_def slabs.defs rebal.defs
      dest!: set_update_subset_insert [THEN subsetD])

lemma sample_rebal_run:
  "\<exists>s1 s2. slabs_reassign False 1 3 sample_rebal = Some (REASSIGN_OK, s1) \<and> s_clsid s1 = 1 \<and> slab_rebalance_start s1 = Some (0, s2) \<and>
     moving s2 s2 \<and> page_fits 8192 3 s2 \<and> class_pages (slabclass sample_rebal ! 1) = [8192, 16384] \<and>
     power_largest sample_rebal < length (slabclass sample_rebal) \<and> class_pages (slabclass s2 ! 1) = [8192, 16384] \<and>
     slabclass s2 ! 3 = (empty_class\<lparr>sc_size := 512, perslab := 2, list_size := 16, slab_list := replicate 16 0\<rparr>)"
  by (auto simp: slabs_reassign_def do_slabs_reassign_def slab_rebalance_start_def sample_rebal_def two_page_slabs_def started_slabs_def
    sample_slabs_def slabs.defs rebal.defs class_index_def Let_def grow_slab_list_def empty_class_def upd_class_def
    moving_def pages_wf_def page_fits_def freelist_def class_pages_def intro!: exI [of _ "[]"]
    dest!: set_update_subset_insert [THEN subsetD])

theorem page_move_keeps_pages_witness:
  "\<exists>s1 s2 freed s4. slabs_reassign False 1 3 sample_rebal = Some (REASSIGN_OK, s1) \<and> slab_rebalance_start s1 = Some (0, s2) \<and>
    slab_rebalance_finish s2 = Some (freed, s4) \<and> mset freed + all_pages s4 = all_pages s2 \<and>
    class_pages (slabclass s4 ! 1) = [16384] \<and> class_pages (slabclass s4 ! 3) = [8192]"
proof -
  obtain s1 s2 where s: "slabs_reassign False 1 3 sample_rebal = Some (REASSIGN_OK, s1)" "s_clsid s1 = 1" "slab_rebalance_start s1 = Some (0, s2)"
    "moving s2 s2" "page_fits 8192 3 s2" "class_pages (slabclass sample_rebal ! 1) = [8192, 16384]"
    "power_largest sample_rebal < length (slabclass sample_rebal)" and s9: "class_pages (slabclass s2 ! 1) = [8192, 16384]"
    and s8: "slabclass s2 ! 3 = (empty_class\<lparr>sc_size := 512, perslab := 2, list_size := 16, slab_list := replicate 16 0\<rparr>)"
    using sample_rebal_run by blast
  have three: "class_pages (slabclass s2 ! 3) = []" "sc_slabs (slabclass s2 ! 3) \<noteq> list_size (slabclass s2 ! 3)"
    unfolding s8 by (simp_all add: class_pages_def empty_class_def)
  have "(slab_rebalance_finish s2 = None \<longleftrightarrow> sc_slabs (slabclass s2 ! 3) = list_size (slabclass s2 ! 3)) \<and>
      (\<forall>freed s4. slab_rebalance_finish s2 = Some (freed, s4) \<longrightarrow> mset freed + all_pages s4 = all_pages s2 \<and>
        class_pages (slabclass s2 ! 1) = 8192 # class_pages (slabclass s4 ! 1) \<and> class_pages (slabclass s4 ! 3) = class_pages (slabclass s2 ! 3) @ [8192])"
    using page_move_keeps_pages [OF sample_rebal_wf s(7) s(1)] s(3,4,5,6) unfolding s(2) by simp
  moreover have "class_pages (slabclass s2 ! 1) = [8192, 16384]" using s9 .
  ultimately show ?thesis using s(1,3) three by (cases "slab_rebalance_finish s2") auto
qed

end
