(* ===== verification/Items.thy ===== *)
theory Items
  imports SlabMove Bipbuffer Itoa
begin

text \<open>
  The items of memcached (items.c): allocation and release, the LRU queues of the slab
  classes, linking into and unlinking from hash table and queue, fetching with lazy
  expiration, the asynchronous bumps and the tail of a queue. The locks only make these
  operations atomic; the outcomes of \<open>pthread_mutex_trylock\<close> are part of the state. A
  \<open>None\<close> is a failed assertion or undefined behaviour.
\<close>

section \<open>The state\<close>

record itemstats =
  evicted :: u64
  evicted_nonzero :: u64
  reclaimed :: u64
  outofmemory :: u64
  tailrepairs :: u64
  expired_unfetched :: u64
  evicted_unfetched :: u64
  evicted_active :: u64
  crawler_reclaimed :: u64
  crawler_items_checked :: u64
  lrutail_reflocked :: u64
  moves_to_cold :: u64
  moves_to_warm :: u64
  moves_within_lru :: u64
  direct_reclaims :: u64
  evicted_time :: u32

text \<open>What the functions of items.c use of a worker thread: its bump buffer and two counters.\<close>

record worker =
  bump_buf :: bipbuf
  bumps_dropped :: u64
  get_expired :: u64
  get_flushed :: u64

text \<open>
  The arrays have an entry for each of the 256 queues. \<open>stale\<close> is what the memory of an item
  holds before it is written; \<open>evictions\<close> lists the items passed to the eviction log.
\<close>

record cache_mem = rebal +
  heads :: "nat option list"
  tails :: "nat option list"
  itemstats :: "itemstats list"
  lru_sizes :: "u32 list"
  sizes_bytes :: "u64 list"
  stats_sizes_hist :: "u32 list option"
  stats_sizes_cas_min :: u64
  cas_id :: u64
  current_time :: u32
  curr_items :: u64
  curr_bytes :: u64
  total_items :: u64
  workers :: "worker list"
  trylock_plan :: "bool list"
  stale :: "nat \<Rightarrow> nat \<Rightarrow> byte"
  evictions :: "nat list"

definition HOT_LRU :: u8 where [simp]: "HOT_LRU = 0"
definition WARM_LRU :: u8 where [simp]: "WARM_LRU = 64"
definition COLD_LRU :: u8 where [simp]: "COLD_LRU = 128"
definition TEMP_LRU :: u8 where [simp]: "TEMP_LRU = 192"

definition ITEM_ntotal :: "item \<Rightarrow> u64" where
  "ITEM_ntotal it = of_nat sizeof_item + ucast (nkey it) + 1 + ucast (nsuffix it) + word_of_int (nbytes it) +
     (if it_flags it AND ITEM_CAS \<noteq> 0 then 8 else 0)"

definition ITEM_get_cas :: "item \<Rightarrow> u64" where
  "ITEM_get_cas it = (if it_flags it AND ITEM_CAS \<noteq> 0 then it_cas it else 0)"

definition ITEM_set_cas :: "u64 \<Rightarrow> item \<Rightarrow> item" where
  "ITEM_set_cas v it = (if it_flags it AND ITEM_CAS \<noteq> 0 then it\<lparr>it_cas := v\<rparr> else it)"

definition ITEM_clsid :: "item \<Rightarrow> u8" where
  "ITEM_clsid it = slabs_clsid it AND NOT 192"

definition ITEM_lruid :: "item \<Rightarrow> u8" where
  "ITEM_lruid it = slabs_clsid it AND 192"

definition CLEAR_LRU :: "int \<Rightarrow> int" where
  "CLEAR_LRU i = i AND NOT 192"

definition qid_of :: "item \<Rightarrow> nat" where
  "qid_of it = unat (slabs_clsid it)"

text \<open>Assignments to an item and to the statistics of a queue.\<close>

definition upd_item :: "nat \<Rightarrow> (item \<Rightarrow> item) \<Rightarrow> 'a assoc_scheme \<Rightarrow> 'a assoc_scheme option" where
  "upd_item a f s = do { it \<leftarrow> items s a; Some (s\<lparr>items := (items s)(a \<mapsto> f it)\<rparr>) }"

definition upd_stats :: "nat \<Rightarrow> (itemstats \<Rightarrow> itemstats) \<Rightarrow> 'a cache_mem_scheme \<Rightarrow> 'a cache_mem_scheme" where
  "upd_stats q f s = s\<lparr>itemstats := (itemstats s)[q := f (itemstats s ! q)]\<rparr>"

definition refcount_incr :: "nat \<Rightarrow> 'a assoc_scheme \<Rightarrow> 'a assoc_scheme option" where
  "refcount_incr a = upd_item a (\<lambda>it. it\<lparr>refcount := refcount it + 1\<rparr>)"

definition refcount_decr :: "nat \<Rightarrow> 'a assoc_scheme \<Rightarrow> 'a assoc_scheme option" where
  "refcount_decr a = upd_item a (\<lambda>it. it\<lparr>refcount := refcount it - 1\<rparr>)"

definition assert_that :: "bool \<Rightarrow> unit option" where
  "assert_that b = (if b then Some () else None)"

section \<open>Small operations\<close>

definition zero_itemstats :: itemstats where
  "zero_itemstats = \<lparr>evicted = 0, evicted_nonzero = 0, reclaimed = 0, outofmemory = 0, tailrepairs = 0,
     expired_unfetched = 0, evicted_unfetched = 0, evicted_active = 0, crawler_reclaimed = 0,
     crawler_items_checked = 0, lrutail_reflocked = 0, moves_to_cold = 0, moves_to_warm = 0,
     moves_within_lru = 0, direct_reclaims = 0, evicted_time = 0\<rparr>"

definition item_stats_reset :: "'a cache_mem_scheme \<Rightarrow> 'a cache_mem_scheme" where
  "item_stats_reset s = s\<lparr>itemstats := map (\<lambda>_. zero_itemstats) (itemstats s)\<rparr>"

definition do_item_stats_add_crawl :: "nat \<Rightarrow> u64 \<Rightarrow> u64 \<Rightarrow> u64 \<Rightarrow> 'a cache_mem_scheme \<Rightarrow> 'a cache_mem_scheme" where
  "do_item_stats_add_crawl i n unfetched checked = upd_stats i (\<lambda>t. t\<lparr>crawler_reclaimed := crawler_reclaimed t + n,
     expired_unfetched := expired_unfetched t + unfetched, crawler_items_checked := crawler_items_checked t + checked\<rparr>)"

definition get_cas_id :: "'a cache_mem_scheme \<Rightarrow> u64 \<times> 'a cache_mem_scheme" where
  "get_cas_id s = (cas_id s + 1, s\<lparr>cas_id := cas_id s + 1\<rparr>)"

definition item_is_flushed :: "item \<Rightarrow> 'a cache_mem_scheme \<Rightarrow> bool" where
  "item_is_flushed it s =
     (let live = oldest_live (settings s); cas = ITEM_get_cas it; cas0 = oldest_cas (settings s)
      in if live = 0 \<or> current_time s < live then False
         else it_time it \<le> live \<or> (cas0 \<noteq> 0 \<and> cas \<noteq> 0 \<and> cas < cas0))"

definition temp_lru_size :: "int \<Rightarrow> 'a cache_mem_scheme \<Rightarrow> u32" where
  "temp_lru_size i s = ucast (sizes_bytes s ! nat (CLEAR_LRU i OR uint TEMP_LRU))"

text \<open>The result is the total size, the suffix and \<open>*nsuffix\<close>.\<close>

definition bytes_of :: "string \<Rightarrow> byte list" where
  "bytes_of t = map of_char t"

definition item_make_header :: "u8 \<Rightarrow> u32 \<Rightarrow> int \<Rightarrow> 'a slabs_scheme \<Rightarrow> u64 \<times> byte list \<times> u8" where
  "item_make_header nk flags nb s =
     (if inline_ascii_response (settings s)
      then let suffix = bytes_of ('' '' @ decimal (unat flags) @ '' '' @ decimal_int (nb - 2)) @ [13, 10];
               n = of_nat (length suffix) :: u8
           in (of_nat sizeof_item + ucast nk + ucast n + word_of_int nb, take 39 suffix, n)
      else (of_nat sizeof_item + ucast nk + 4 + word_of_int nb, [], 4))"

definition item_size_ok :: "u64 \<Rightarrow> u32 \<Rightarrow> int \<Rightarrow> 'a slabs_scheme \<Rightarrow> bool option" where
  "item_size_ok nk flags nb s = do {
     let ntotal = fst (item_make_header (ucast (nk + 1)) flags nb s) + (if use_cas (settings s) then 8 else 0);
     c \<leftarrow> slabs_clsid_of ntotal s;
     Some (c \<noteq> 0) }"

section \<open>The queues\<close>

definition do_item_link_q :: "nat \<Rightarrow> 'a cache_mem_scheme \<Rightarrow> 'a cache_mem_scheme option" where
  "do_item_link_q a s = do {
     it \<leftarrow> items s a;
     let q = qid_of it;
     if it_flags it AND ITEM_SLABBED \<noteq> 0 \<or> heads s ! q = Some a \<or> (heads s ! q = None) \<noteq> (tails s ! q = None) then None
     else do {
       m \<leftarrow> set_prev_of (heads s ! q) (Some a) ((items s)(a \<mapsto> it\<lparr>it_prev := None, it_next := heads s ! q\<rparr>));
       Some (s\<lparr>items := m, heads := (heads s)[q := Some a],
         tails := (if tails s ! q = None then (tails s)[q := Some a] else tails s),
         lru_sizes := (lru_sizes s)[q := lru_sizes s ! q + 1],
         sizes_bytes := (sizes_bytes s)[q := sizes_bytes s ! q + ITEM_ntotal it]\<rparr>) } }"

definition item_link_q :: "nat \<Rightarrow> 'a cache_mem_scheme \<Rightarrow> 'a cache_mem_scheme option" where
  "item_link_q = do_item_link_q"

definition item_link_q_warm :: "nat \<Rightarrow> 'a cache_mem_scheme \<Rightarrow> 'a cache_mem_scheme option" where
  "item_link_q_warm a s = do {
     s1 \<leftarrow> do_item_link_q a s;
     it \<leftarrow> items s1 a;
     Some (upd_stats (qid_of it) (\<lambda>t. t\<lparr>moves_to_warm := moves_to_warm t + 1\<rparr>) s1) }"

definition do_item_unlink_q :: "nat \<Rightarrow> 'a cache_mem_scheme \<Rightarrow> 'a cache_mem_scheme option" where
  "do_item_unlink_q a s = do {
     it \<leftarrow> items s a;
     let q = qid_of it;
     if heads s ! q = Some a \<and> it_prev it \<noteq> None \<or> tails s ! q = Some a \<and> it_next it \<noteq> None \<or>
        it_next it = Some a \<or> it_prev it = Some a then None
     else do {
       m \<leftarrow> unlink_links a (items s);
       Some (s\<lparr>items := m,
         heads := (if heads s ! q = Some a then (heads s)[q := it_next it] else heads s),
         tails := (if tails s ! q = Some a then (tails s)[q := it_prev it] else tails s),
         lru_sizes := (lru_sizes s)[q := lru_sizes s ! q - 1],
         sizes_bytes := (sizes_bytes s)[q := sizes_bytes s ! q - ITEM_ntotal it]\<rparr>) } }"

definition item_unlink_q :: "nat \<Rightarrow> 'a cache_mem_scheme \<Rightarrow> 'a cache_mem_scheme option" where
  "item_unlink_q = do_item_unlink_q"

text \<open>The histogram of sizes, in steps of 32 bytes; \<open>stats_sizes_buckets\<close> is its length.\<close>

definition sizes_bucket :: "item \<Rightarrow> int" where
  "sizes_bucket it =
     (let ntotal = sint (ucast (ITEM_ntotal it) :: u32)
      in if ntotal smod 32 \<noteq> 0 then ntotal sdiv 32 + 1 else ntotal sdiv 32)"

definition item_stats_sizes_upd :: "(u32 \<Rightarrow> u32) \<Rightarrow> nat \<Rightarrow> 'a cache_mem_scheme \<Rightarrow> 'a cache_mem_scheme option" where
  "item_stats_sizes_upd f a s = do {
     it \<leftarrow> items s a;
     case stats_sizes_hist s of
       None \<Rightarrow> Some s
     | Some h \<Rightarrow>
         if ITEM_get_cas it < stats_sizes_cas_min s then Some s
         else if sizes_bucket it < int (length h)
         then if sizes_bucket it < 0 then None
              else Some (s\<lparr>stats_sizes_hist := Some (h[nat (sizes_bucket it) := f (h ! nat (sizes_bucket it))])\<rparr>)
         else Some s }"

definition item_stats_sizes_add :: "nat \<Rightarrow> 'a cache_mem_scheme \<Rightarrow> 'a cache_mem_scheme option" where
  "item_stats_sizes_add = item_stats_sizes_upd (\<lambda>n. n + 1)"

definition item_stats_sizes_remove :: "nat \<Rightarrow> 'a cache_mem_scheme \<Rightarrow> 'a cache_mem_scheme option" where
  "item_stats_sizes_remove = item_stats_sizes_upd (\<lambda>n. n - 1)"

section \<open>Releasing, linking, unlinking\<close>

definition item_free :: "nat \<Rightarrow> 'a cache_mem_scheme \<Rightarrow> 'a cache_mem_scheme option" where
  "item_free a s = do {
     it \<leftarrow> items s a;
     _ \<leftarrow> assert_that (it_flags it AND ITEM_LINKED = 0);
     _ \<leftarrow> assert_that (heads s ! qid_of it \<noteq> Some a);
     _ \<leftarrow> assert_that (tails s ! qid_of it \<noteq> Some a);
     _ \<leftarrow> assert_that (refcount it = 0);
     slabs_free a (ITEM_ntotal it) (unat (ITEM_clsid it)) s }"

definition do_item_remove :: "nat \<Rightarrow> 'a cache_mem_scheme \<Rightarrow> 'a cache_mem_scheme option" where
  "do_item_remove a s = do {
     it \<leftarrow> items s a;
     _ \<leftarrow> assert_that (it_flags it AND ITEM_SLABBED = 0);
     _ \<leftarrow> assert_that (0 < refcount it);
     s1 \<leftarrow> refcount_decr a s;
     if refcount it - 1 = 0 then item_free a s1 else Some s1 }"

text \<open>\<open>hv\<close> is the hash value of the key.\<close>

definition do_item_link :: "nat \<Rightarrow> u32 \<Rightarrow> 'a cache_mem_scheme \<Rightarrow> 'a cache_mem_scheme option" where
  "do_item_link a hv s = do {
     it \<leftarrow> items s a;
     _ \<leftarrow> assert_that (it_flags it AND (ITEM_LINKED OR ITEM_SLABBED) = 0);
     s1 \<leftarrow> upd_item a (\<lambda>it. it\<lparr>it_flags := it_flags it OR ITEM_LINKED, it_time := current_time s\<rparr>) s;
     it1 \<leftarrow> items s1 a;
     let s2 = s1\<lparr>curr_bytes := curr_bytes s1 + ITEM_ntotal it1, curr_items := curr_items s1 + 1,
                 total_items := total_items s1 + 1\<rparr>;
     let (cas, s3) = (if it_flags it1 AND ITEM_CAS = 0 then (0, s2)
                      else if use_cas (settings s2) then get_cas_id s2 else (0, s2));
     s4 \<leftarrow> upd_item a (ITEM_set_cas cas) s3;
     s5 \<leftarrow> assoc_insert a hv s4;
     s6 \<leftarrow> item_link_q a s5;
     s7 \<leftarrow> refcount_incr a s6;
     item_stats_sizes_add a s7 }"

text \<open>\<open>do_item_unlink\<close> and \<open>do_item_unlink_nolock\<close> differ in the locks they take.\<close>

definition do_item_unlink :: "nat \<Rightarrow> u32 \<Rightarrow> 'a cache_mem_scheme \<Rightarrow> 'a cache_mem_scheme option" where
  "do_item_unlink a hv s = do {
     it \<leftarrow> items s a;
     if it_flags it AND ITEM_LINKED \<noteq> 0
     then do {
       s1 \<leftarrow> upd_item a (\<lambda>it. it\<lparr>it_flags := it_flags it AND NOT ITEM_LINKED\<rparr>) s;
       let s2 = s1\<lparr>curr_bytes := curr_bytes s1 - ITEM_ntotal it, curr_items := curr_items s1 - 1\<rparr>;
       s3 \<leftarrow> item_stats_sizes_remove a s2;
       s4 \<leftarrow> assoc_delete (key_of it) hv s3;
       s5 \<leftarrow> item_unlink_q a s4;
       do_item_remove a s5 }
     else Some s }"

definition do_item_unlink_nolock :: "nat \<Rightarrow> u32 \<Rightarrow> 'a cache_mem_scheme \<Rightarrow> 'a cache_mem_scheme option" where
  "do_item_unlink_nolock a hv s = do {
     it \<leftarrow> items s a;
     if it_flags it AND ITEM_LINKED \<noteq> 0
     then do {
       s1 \<leftarrow> upd_item a (\<lambda>it. it\<lparr>it_flags := it_flags it AND NOT ITEM_LINKED\<rparr>) s;
       let s2 = s1\<lparr>curr_bytes := curr_bytes s1 - ITEM_ntotal it, curr_items := curr_items s1 - 1\<rparr>;
       s3 \<leftarrow> item_stats_sizes_remove a s2;
       s4 \<leftarrow> assoc_delete (key_of it) hv s3;
       s5 \<leftarrow> do_item_unlink_q a s4;
       do_item_remove a s5 }
     else Some s }"

definition do_item_replace :: "nat \<Rightarrow> nat \<Rightarrow> u32 \<Rightarrow> 'a cache_mem_scheme \<Rightarrow> 'a cache_mem_scheme option" where
  "do_item_replace a new hv s = do {
     it \<leftarrow> items s a;
     _ \<leftarrow> assert_that (it_flags it AND ITEM_SLABBED = 0);
     s1 \<leftarrow> do_item_unlink a hv s;
     do_item_link new hv s1 }"

section \<open>Fetching\<close>

text \<open>\<open>it->time < current_time - ITEM_UPDATE_INTERVAL\<close>, in 32 bits.\<close>

definition bump_due :: "item \<Rightarrow> 'a cache_mem_scheme \<Rightarrow> bool" where
  "bump_due it s \<longleftrightarrow> it_time it < current_time s - 60"

definition do_item_update_nolock :: "nat \<Rightarrow> 'a cache_mem_scheme \<Rightarrow> 'a cache_mem_scheme option" where
  "do_item_update_nolock a s = do {
     it \<leftarrow> items s a;
     if bump_due it s
     then do {
       _ \<leftarrow> assert_that (it_flags it AND ITEM_SLABBED = 0);
       if it_flags it AND ITEM_LINKED \<noteq> 0
       then do {
         s1 \<leftarrow> do_item_unlink_q a s;
         s2 \<leftarrow> upd_item a (\<lambda>it. it\<lparr>it_time := current_time s1\<rparr>) s1;
         do_item_link_q a s2 }
       else Some s }
     else Some s }"

definition do_item_update :: "nat \<Rightarrow> 'a cache_mem_scheme \<Rightarrow> 'a cache_mem_scheme option" where
  "do_item_update a s = do {
     it \<leftarrow> items s a;
     if lru_segmented (settings s)
     then do {
       _ \<leftarrow> assert_that (it_flags it AND ITEM_SLABBED = 0);
       if it_flags it AND ITEM_LINKED \<noteq> 0
       then if ITEM_lruid it = COLD_LRU \<and> it_flags it AND ITEM_ACTIVE \<noteq> 0
            then do {
              s1 \<leftarrow> upd_item a (\<lambda>it. it\<lparr>it_time := current_time s\<rparr>) s;
              s2 \<leftarrow> item_unlink_q a s1;
              s3 \<leftarrow> upd_item a (\<lambda>it. it\<lparr>slabs_clsid := ITEM_clsid it OR WARM_LRU, it_flags := it_flags it AND NOT ITEM_ACTIVE\<rparr>) s2;
              item_link_q_warm a s3 }
            else if bump_due it s
            then upd_item a (\<lambda>it. it\<lparr>it_time := current_time s\<rparr>) s
            else Some s
       else Some s }
     else if bump_due it s
     then do {
       _ \<leftarrow> assert_that (it_flags it AND ITEM_SLABBED = 0);
       if it_flags it AND ITEM_LINKED \<noteq> 0
       then do {
         s1 \<leftarrow> upd_item a (\<lambda>it. it\<lparr>it_time := current_time s\<rparr>) s;
         s2 \<leftarrow> item_unlink_q a s1;
         item_link_q a s2 }
       else Some s }
     else Some s }"

text \<open>An entry of a bump buffer: the address of the item, the hash value, four bytes of padding.\<close>

definition sizeof_bump :: nat where [simp]: "sizeof_bump = 16"

definition bump_entry :: "nat \<Rightarrow> u32 \<Rightarrow> byte list" where
  "bump_entry a hv = le_bytes 8 (of_nat a :: u64) @ le_bytes 4 hv"

definition bump_item :: "byte list \<Rightarrow> nat" where
  "bump_item bs = unat (le_word (take 8 bs) :: u64)"

definition upd_worker :: "nat \<Rightarrow> (worker \<Rightarrow> worker) \<Rightarrow> 'a cache_mem_scheme \<Rightarrow> 'a cache_mem_scheme" where
  "upd_worker t f s = s\<lparr>workers := (workers s)[t := f (workers s ! t)]\<rparr>"

definition lru_bump_async :: "nat \<Rightarrow> nat \<Rightarrow> u32 \<Rightarrow> 'a cache_mem_scheme \<Rightarrow> (bool \<times> 'a cache_mem_scheme) option" where
  "lru_bump_async t a hv s = do {
     s1 \<leftarrow> refcount_incr a s;
     let give_up = (\<lambda>s. do {
       s' \<leftarrow> refcount_decr a (upd_worker t (\<lambda>w. w\<lparr>bumps_dropped := bumps_dropped w + 1\<rparr>) s);
       Some (False, s') });
     let b = bump_buf (workers s1 ! t);
     case bipbuf_request b (int sizeof_bump) of
       None \<Rightarrow> give_up s1
     | Some off \<Rightarrow> do {
         b1 \<leftarrow> bip_store off (bump_entry a hv) 12 b;
         let (pushed, b2) = bipbuf_push b1 (int sizeof_bump);
         let s2 = upd_worker t (\<lambda>w. w\<lparr>bump_buf := b2\<rparr>) s1;
         if pushed = 0 then give_up s2 else Some (True, s2) } }"

text \<open>The hit markers of an item that is fetched.\<close>

definition mark_hit :: "nat \<Rightarrow> nat \<Rightarrow> u32 \<Rightarrow> 'a cache_mem_scheme \<Rightarrow> 'a cache_mem_scheme option" where
  "mark_hit t a hv s = do {
     it \<leftarrow> items s a;
     if lru_segmented (settings s)
     then if it_flags it AND ITEM_ACTIVE \<noteq> 0 then Some s
          else if it_flags it AND ITEM_FETCHED = 0
          then upd_item a (\<lambda>it. it\<lparr>it_flags := it_flags it OR ITEM_FETCHED\<rparr>) s
          else do {
            s1 \<leftarrow> upd_item a (\<lambda>it. it\<lparr>it_flags := it_flags it OR ITEM_ACTIVE\<rparr>) s;
            if ITEM_lruid it \<noteq> COLD_LRU then do_item_update a s1
            else do {
              (bumped, s2) \<leftarrow> lru_bump_async t a hv s1;
              if bumped then Some s2
              else upd_item a (\<lambda>it. it\<lparr>it_flags := it_flags it AND NOT ITEM_ACTIVE\<rparr>) s2 } }
     else do {
       s1 \<leftarrow> upd_item a (\<lambda>it. it\<lparr>it_flags := it_flags it OR ITEM_FETCHED\<rparr>) s;
       do_item_update a s1 } }"

definition do_item_get ::
  "nat \<Rightarrow> byte list \<Rightarrow> u32 \<Rightarrow> bool \<Rightarrow> 'a cache_mem_scheme \<Rightarrow> (nat option \<times> 'a cache_mem_scheme) option" where
  "do_item_get t key hv do_update s = do {
     found \<leftarrow> assoc_find key hv s;
     case found of
       None \<Rightarrow> Some (None, s)
     | Some a \<Rightarrow> do {
         s1 \<leftarrow> refcount_incr a s;
         it \<leftarrow> items s1 a;
         if item_is_flushed it s1
         then do {
           s2 \<leftarrow> do_item_unlink a hv s1;
           s3 \<leftarrow> do_item_remove a s2;
           Some (None, upd_worker t (\<lambda>w. w\<lparr>get_flushed := get_flushed w + 1\<rparr>) s3) }
         else if exptime it \<noteq> 0 \<and> exptime it \<le> current_time s1
         then do {
           s2 \<leftarrow> do_item_unlink a hv s1;
           s3 \<leftarrow> do_item_remove a s2;
           Some (None, upd_worker t (\<lambda>w. w\<lparr>get_expired := get_expired w + 1\<rparr>) s3) }
         else do {
           s2 \<leftarrow> (if do_update then mark_hit t a hv s1 else Some s1);
           Some (Some a, s2) } } }"

definition do_item_touch ::
  "nat \<Rightarrow> byte list \<Rightarrow> u32 \<Rightarrow> u32 \<Rightarrow> 'a cache_mem_scheme \<Rightarrow> (nat option \<times> 'a cache_mem_scheme) option" where
  "do_item_touch t key new_exptime hv s = do {
     (r, s1) \<leftarrow> do_item_get t key hv True s;
     case r of
       None \<Rightarrow> Some (None, s1)
     | Some a \<Rightarrow> do { s2 \<leftarrow> upd_item a (\<lambda>it. it\<lparr>exptime := new_exptime\<rparr>) s1; Some (Some a, s2) } }"

section \<open>The tail of a queue\<close>

definition LRU_PULL_EVICT :: u8 where [simp]: "LRU_PULL_EVICT = 1"
definition LRU_PULL_CRAWL_BLOCKS :: u8 where [simp]: "LRU_PULL_CRAWL_BLOCKS = 2"

text \<open>An outcome of \<open>pthread_mutex_trylock\<close>; beyond the plan every lock is free.\<close>

definition trylock :: "'a cache_mem_scheme \<Rightarrow> bool \<times> 'a cache_mem_scheme" where
  "trylock s = (case trylock_plan s of [] \<Rightarrow> (True, s) | b # bs \<Rightarrow> (b, s\<lparr>trylock_plan := bs\<rparr>))"

text \<open>
  What the body of the loop does with the item at hand: go on with the next one, stop, return 0
  at a crawler, or take the item, which then goes to the queue given. The number says by how
  much \<open>removed\<close> grows.
\<close>

datatype pull = PullNext nat | PullCrawler | PullBlocked | PullTake nat u8

definition pull_limit :: "u8 \<Rightarrow> u64 \<Rightarrow> 'a slabs_scheme \<Rightarrow> u64" where
  "pull_limit cur_lru tbytes s =
     (let hot = (if cur_lru = HOT_LRU then tbytes * word_of_int (hot_lru_pct (settings s)) div 100 else 0)
      in if hot = 0 then tbytes * word_of_int (warm_lru_pct (settings s)) div 100 else hot)"

text \<open>HOT and WARM: active items are rescued, others go to COLD if the queue is too long or they are too old.\<close>

definition pull_hot_warm :: "nat \<Rightarrow> u8 \<Rightarrow> u64 \<Rightarrow> u32 \<Rightarrow> nat \<Rightarrow> 'a cache_mem_scheme \<Rightarrow> (pull \<times> 'a cache_mem_scheme) option" where
  "pull_hot_warm q cur_lru tbytes max_age a s = do {
     it \<leftarrow> items s a;
     if it_flags it AND ITEM_ACTIVE \<noteq> 0
     then do {
       s1 \<leftarrow> upd_item a (\<lambda>it. it\<lparr>it_flags := it_flags it AND NOT ITEM_ACTIVE\<rparr>) s;
       if cur_lru = WARM_LRU
       then do {
         s2 \<leftarrow> do_item_update_nolock a (upd_stats q (\<lambda>t. t\<lparr>moves_within_lru := moves_within_lru t + 1\<rparr>) s1);
         s3 \<leftarrow> do_item_remove a s2;
         Some (PullNext 0, s3) }
       else do {
         s2 \<leftarrow> do_item_unlink_q a (upd_stats q (\<lambda>t. t\<lparr>moves_to_warm := moves_to_warm t + 1\<rparr>) s1);
         Some (PullTake 1 WARM_LRU, s2) } }
     else if pull_limit cur_lru tbytes s < sizes_bytes s ! q \<or> max_age < current_time s - it_time it
     then do {
       s1 \<leftarrow> do_item_unlink_q a (upd_stats q (\<lambda>t. t\<lparr>moves_to_cold := moves_to_cold t + 1\<rparr>) s);
       Some (PullTake 1 COLD_LRU, s1) }
     else Some (PullTake 0 0, s) }"

definition evict_stats :: "item \<Rightarrow> u32 \<Rightarrow> itemstats \<Rightarrow> itemstats" where
  "evict_stats it now t = t\<lparr>evicted := evicted t + 1, evicted_time := now - it_time it,
     evicted_nonzero := evicted_nonzero t + (if exptime it \<noteq> 0 then 1 else 0),
     evicted_unfetched := evicted_unfetched t + (if it_flags it AND ITEM_FETCHED = 0 then 1 else 0),
     evicted_active := evicted_active t + (if it_flags it AND ITEM_ACTIVE \<noteq> 0 then 1 else 0)\<rparr>"

definition pull_cold :: "nat \<Rightarrow> nat \<Rightarrow> u8 \<Rightarrow> u32 \<Rightarrow> nat \<Rightarrow> 'a cache_mem_scheme \<Rightarrow> (pull \<times> 'a cache_mem_scheme) option" where
  "pull_cold q orig flags hv a s = do {
     it \<leftarrow> items s a;
     if flags AND LRU_PULL_EVICT \<noteq> 0
     then if \<not> evict_to_free (settings s) then Some (PullTake 0 0, s)
          else do {
            let s1 = (upd_stats q (evict_stats it (current_time s)) s)\<lparr>evictions := a # evictions s\<rparr>;
            s2 \<leftarrow> do_item_unlink_nolock a hv s1;
            s3 \<leftarrow> (if slab_automove (settings s2) = 2
                  then (case trylock s2 of (free, s') \<Rightarrow> map_option snd (slabs_reassign (\<not> free) (- 1) (int orig) s'))
                  else Some s2);
            Some (PullTake 1 0, s3) }
     else if it_flags it AND ITEM_ACTIVE \<noteq> 0 \<and> lru_segmented (settings s)
     then do {
       s1 \<leftarrow> upd_item a (\<lambda>it. it\<lparr>it_flags := it_flags it AND NOT ITEM_ACTIVE\<rparr>)
               (upd_stats q (\<lambda>t. t\<lparr>moves_to_warm := moves_to_warm t + 1\<rparr>) s);
       s2 \<leftarrow> do_item_unlink_q a s1;
       Some (PullTake 1 WARM_LRU, s2) }
     else Some (PullTake 0 0, s) }"

text \<open>The body of the loop once the lock of the item is taken.\<close>

definition pull_locked ::
  "nat \<Rightarrow> nat \<Rightarrow> u8 \<Rightarrow> u64 \<Rightarrow> u8 \<Rightarrow> u32 \<Rightarrow> u32 \<Rightarrow> nat \<Rightarrow> 'a cache_mem_scheme \<Rightarrow> (pull \<times> 'a cache_mem_scheme) option" where
  "pull_locked q orig cur_lru tbytes flags max_age hv a s = do {
     s1 \<leftarrow> refcount_incr a s;
     it \<leftarrow> items s1 a;
     let busy = (refcount it \<noteq> 2);
     let s2 = (if busy then upd_stats q (\<lambda>t. t\<lparr>lrutail_reflocked := lrutail_reflocked t + 1\<rparr>) s1 else s1);
     if busy \<and> tail_repair_time (settings s2) \<noteq> 0 \<and>
        it_time it + word_of_int (tail_repair_time (settings s2)) < current_time s2
     then do {
       s3 \<leftarrow> upd_item a (\<lambda>it. it\<lparr>refcount := 1\<rparr>) (upd_stats q (\<lambda>t. t\<lparr>tailrepairs := tailrepairs t + 1\<rparr>) s2);
       s4 \<leftarrow> do_item_unlink_nolock a hv s3;
       Some (PullNext 0, s4) }
     else if exptime it \<noteq> 0 \<and> exptime it < current_time s2 \<or> item_is_flushed it s2
     then do {
       let s3 = upd_stats q (\<lambda>t. t\<lparr>reclaimed := reclaimed t + 1,
             expired_unfetched := expired_unfetched t + (if it_flags it AND ITEM_FETCHED = 0 then 1 else 0)\<rparr>) s2;
       s4 \<leftarrow> do_item_unlink_nolock a hv s3;
       s5 \<leftarrow> do_item_remove a s4;
       Some (PullNext 1, s5) }
     else if cur_lru = HOT_LRU \<or> cur_lru = WARM_LRU then pull_hot_warm q cur_lru tbytes max_age a s2
     else if cur_lru = COLD_LRU then pull_cold q orig flags hv a s2
     else Some (PullTake 0 0, s2) }"

definition pull_one ::
  "(byte list \<Rightarrow> u32) \<Rightarrow> nat \<Rightarrow> nat \<Rightarrow> u8 \<Rightarrow> u64 \<Rightarrow> u8 \<Rightarrow> u32 \<Rightarrow> nat \<Rightarrow> 'a cache_mem_scheme \<Rightarrow>
   (pull \<times> 'a cache_mem_scheme) option" where
  "pull_one hash q orig cur_lru tbytes flags max_age a s = do {
     it \<leftarrow> items s a;
     if nbytes it = 0 \<and> nkey it = 0 \<and> it_flags it = 1
     then Some (if flags AND LRU_PULL_CRAWL_BLOCKS \<noteq> 0 then PullBlocked else PullCrawler, s)
     else case trylock s of
       (False, s1) \<Rightarrow> Some (PullNext 0, s1)
     | (True, s1) \<Rightarrow> pull_locked q orig cur_lru tbytes flags max_age (hash (key_of it)) a s1 }"

text \<open>The result: \<open>None\<close> at a blocking crawler, else \<open>removed\<close> and the item taken with its target.\<close>

partial_function (option) pull_loop ::
  "(byte list \<Rightarrow> u32) \<Rightarrow> nat \<Rightarrow> nat \<Rightarrow> u8 \<Rightarrow> u64 \<Rightarrow> u8 \<Rightarrow> u32 \<Rightarrow> nat \<Rightarrow> nat option \<Rightarrow> nat \<Rightarrow> 'a cache_mem_scheme \<Rightarrow>
   ((nat \<times> (nat \<times> u8) option) option \<times> 'a cache_mem_scheme) option" where
  "pull_loop hash q orig cur_lru tbytes flags max_age tries search removed s =
     (case search of
        None \<Rightarrow> Some (Some (removed, None), s)
      | Some a \<Rightarrow>
          if tries = 0 then Some (Some (removed, None), s)
          else do {
            it \<leftarrow> items s a;
            r \<leftarrow> pull_one hash q orig cur_lru tbytes flags max_age a s;
            (case fst r of
               PullNext n \<Rightarrow> pull_loop hash q orig cur_lru tbytes flags max_age (tries - 1) (it_prev it) (removed + n) (snd r)
             | PullCrawler \<Rightarrow> pull_loop hash q orig cur_lru tbytes flags max_age tries (it_prev it) removed (snd r)
             | PullBlocked \<Rightarrow> Some (None, snd r)
             | PullTake n lru \<Rightarrow> Some (Some (removed + n, Some (a, lru)), snd r)) })"

definition lru_pull_tail ::
  "(byte list \<Rightarrow> u32) \<Rightarrow> nat \<Rightarrow> u8 \<Rightarrow> u64 \<Rightarrow> u8 \<Rightarrow> u32 \<Rightarrow> 'a cache_mem_scheme \<Rightarrow> (nat \<times> 'a cache_mem_scheme) option" where
  "lru_pull_tail hash orig cur_lru tbytes flags max_age s =
     (if orig = 0 then Some (0, s)
      else let q = orig OR unat cur_lru
           in do {
             (r, s1) \<leftarrow> pull_loop hash q orig cur_lru tbytes flags max_age 5 (tails s ! q) 0 s;
             (case r of
                None \<Rightarrow> Some (0, s1)
              | Some (removed, None) \<Rightarrow> Some (removed, s1)
              | Some (removed, Some (a, lru)) \<Rightarrow> do {
                  s2 \<leftarrow> (if lru \<noteq> 0
                        then do {
                          s' \<leftarrow> upd_item a (\<lambda>it. it\<lparr>slabs_clsid := ITEM_clsid it OR lru\<rparr>) s1;
                          item_link_q a s' }
                        else Some s1);
                  s3 \<leftarrow> do_item_remove a s2;
                  Some (removed, s3) }) })"

section \<open>Allocating\<close>

text \<open>
  The loop over \<open>i\<close> with ten rounds at most; the result is the item and the final \<open>i\<close>.
  \<open>slabs_alloc\<close> leaves \<open>total_bytes\<close> unwritten for a class out of range.
\<close>

fun alloc_pull_loop ::
  "(byte list \<Rightarrow> u32) \<Rightarrow> u64 \<Rightarrow> nat \<Rightarrow> nat \<Rightarrow> nat \<Rightarrow> 'a cache_mem_scheme \<Rightarrow> (nat option \<times> nat \<times> 'a cache_mem_scheme) option" where
  "alloc_pull_loop hash ntotal cid i 0 s = Some (None, i, s)"
| "alloc_pull_loop hash ntotal cid i (Suc n) s = do {
     s1 \<leftarrow> (if lru_segmented (settings s) then Some s
           else map_option snd (lru_pull_tail hash cid COLD_LRU 0 0 0 s));
     if cid < 1 \<or> power_largest s1 < cid then None
     else do {
       (r, tbytes, s2) \<leftarrow> slabs_alloc ntotal cid False s1;
       let tbytes' = (if temp_lru (settings s2) then tbytes - ucast (temp_lru_size (int cid) s2) else tbytes);
       (case r of
          Some a \<Rightarrow> Some (Some a, i, s2)
        | None \<Rightarrow> do {
            (removed, s3) \<leftarrow> lru_pull_tail hash cid COLD_LRU tbytes' LRU_PULL_EVICT 0 s2;
            if removed = 0
            then if lru_segmented (settings s3)
                 then do {
                   (_, s4) \<leftarrow> lru_pull_tail hash cid HOT_LRU tbytes' 0 0 s3;
                   alloc_pull_loop hash ntotal cid (i + 1) n s4 }
                 else Some (None, i, s3)
            else alloc_pull_loop hash ntotal cid (i + 1) n s3 }) } }"

definition do_item_alloc_pull ::
  "(byte list \<Rightarrow> u32) \<Rightarrow> u64 \<Rightarrow> nat \<Rightarrow> 'a cache_mem_scheme \<Rightarrow> (nat option \<times> 'a cache_mem_scheme) option" where
  "do_item_alloc_pull hash ntotal cid s = do {
     (r, i, s1) \<leftarrow> alloc_pull_loop hash ntotal cid 0 10 s;
     Some (r, if 0 < i then upd_stats cid (\<lambda>t. t\<lparr>direct_reclaims := direct_reclaims t + of_nat i\<rparr>) s1 else s1) }"

text \<open>
  A chunk is the chunk inside a header item (\<open>hdr_chunks\<close>) or a chunk of its own; an address is
  that of the former if there is one.
\<close>

definition get_chunk :: "nat \<Rightarrow> 'a slabs_scheme \<Rightarrow> item_chunk option" where
  "get_chunk c s = (case hdr_chunks s c of None \<Rightarrow> chunks s c | Some ch \<Rightarrow> Some ch)"

definition set_chunk :: "nat \<Rightarrow> item_chunk \<Rightarrow> 'a slabs_scheme \<Rightarrow> 'a slabs_scheme" where
  "set_chunk c ch s = (if hdr_chunks s c \<noteq> None then s\<lparr>hdr_chunks := (hdr_chunks s)(c \<mapsto> ch)\<rparr>
                       else s\<lparr>chunks := (chunks s)(c \<mapsto> ch)\<rparr>)"

definition do_item_alloc_chunk ::
  "(byte list \<Rightarrow> u32) \<Rightarrow> nat \<Rightarrow> u64 \<Rightarrow> 'a cache_mem_scheme \<Rightarrow> (nat option \<times> 'a cache_mem_scheme) option" where
  "do_item_alloc_chunk hash c bytes_remain s = do {
     let sz = (let n = bytes_remain + of_nat sizeof_item
               in if word_of_int (slab_chunk_size_max (settings s)) < n
                  then word_of_int (slab_chunk_size_max (settings s)) else n);
     cid \<leftarrow> slabs_clsid_of sz s;
     (r, s1) \<leftarrow> do_item_alloc_pull hash sz cid s;
     case r of
       None \<Rightarrow> Some (None, s1)
     | Some n \<Rightarrow> do {
         ch \<leftarrow> get_chunk c s1;
         it \<leftarrow> items s1 n;
         let nch = \<lparr>ch_next = None, ch_prev = Some c, ch_head = ch_head ch, ch_size = ucast (sz - of_nat sizeof_item),
           ch_used = 0, ch_nbytes = nbytes it, ch_refcount = refcount it, orig_clsid = nsuffix it,
           ch_flags = it_flags it OR ITEM_CHUNK, ch_clsid = of_nat cid, ch_data = []\<rparr>;
         let s2 = set_chunk c (ch\<lparr>ch_next := Some n\<rparr>) s1;
         Some (Some n, s2\<lparr>items := (items s2)(n := None), chunks := (chunks s2)(n \<mapsto> nch)\<rparr>) } }"

text \<open>The queue for a new item, and what is written to it.\<close>

definition new_item_lru :: "u32 \<Rightarrow> 'a cache_mem_scheme \<Rightarrow> u8" where
  "new_item_lru ex s =
     (if temp_lru (settings s) \<and> ex - current_time s \<le> temporary_ttl (settings s) then TEMP_LRU
      else if lru_segmented (settings s) then HOT_LRU else COLD_LRU)"

definition fill_item ::
  "byte list \<Rightarrow> u8 \<Rightarrow> u32 \<Rightarrow> int \<Rightarrow> byte list \<Rightarrow> u8 \<Rightarrow> u8 \<Rightarrow> bool \<Rightarrow> byte list \<Rightarrow> item \<Rightarrow> item" where
  "fill_item key nk ex nb suffix ns cid cas junk it = it\<lparr>it_next := None, it_prev := None, slabs_clsid := cid,
     it_flags := it_flags it OR (if cas then ITEM_CAS else 0), nkey := nk, nbytes := nb, it_key := key, exptime := ex,
     it_suffix := suffix, nsuffix := ns, it_data := junk, h_next := None\<rparr>"

definition do_item_alloc ::
  "(byte list \<Rightarrow> u32) \<Rightarrow> byte list \<Rightarrow> u32 \<Rightarrow> u32 \<Rightarrow> int \<Rightarrow> 'a cache_mem_scheme \<Rightarrow> (nat option \<times> 'a cache_mem_scheme) option" where
  "do_item_alloc hash key flags ex nb s =
     (if nb < 2 then Some (None, s)
      else do {
        let nk = (of_nat (length key) :: u64);
        let (ntotal0, suffix, ns) = item_make_header (ucast (nk + 1)) flags nb s;
        let cas = use_cas (settings s);
        let ntotal = ntotal0 + (if cas then 8 else 0);
        cid \<leftarrow> slabs_clsid_of ntotal s;
        if cid = 0 then Some (None, s)
        else do {
          let chunked = word_of_int (slab_chunk_size_max (settings s)) < ntotal;
          let htotal = ucast nk + 1 + ucast ns + of_nat sizeof_item + of_nat sizeof_item + (if cas then 8 else 0);
          hdr_id \<leftarrow> (if chunked then slabs_clsid_of htotal s else Some 0);
          (r, s1) \<leftarrow> do_item_alloc_pull hash (if chunked then htotal else ntotal) (if chunked then hdr_id else cid) s;
          case r of
            None \<Rightarrow> Some (None, upd_stats cid (\<lambda>t. t\<lparr>outofmemory := outofmemory t + 1\<rparr>) s1)
          | Some a \<Rightarrow> do {
              it \<leftarrow> items s1 a;
              _ \<leftarrow> assert_that (slabs_clsid it = 0);
              let it1 = (if chunked then it\<lparr>it_flags := it_flags it OR ITEM_CHUNKED\<rparr> else it);
              let junk = map (stale s1 a) [0..<(if chunked then 0 else nat nb)];
              let it2 = fill_item key (ucast nk) ex nb
                    (if inline_ascii_response (settings s1) then suffix else le_bytes 4 flags)
                    ns (of_nat cid OR new_item_lru ex s1) cas junk it1;
              let s2 = s1\<lparr>items := (items s1)(a \<mapsto> it2)\<rparr>;
              Some (Some a,
                if it_flags it2 AND ITEM_CHUNKED \<noteq> 0
                then s2\<lparr>hdr_chunks := (hdr_chunks s2)(a \<mapsto> \<lparr>ch_next = None, ch_prev = None, ch_head = Some a, ch_size = 0,
                       ch_used = 0, ch_nbytes = 0, ch_refcount = 0, orig_clsid = of_nat hdr_id, ch_flags = 0, ch_clsid = 0,
                       ch_data = []\<rparr>)\<rparr>
                else s2) } } })"

section \<open>The maintainer thread\<close>

text \<open>The entries of one bump buffer, in the order of the buffer.\<close>

fun bump_entries :: "nat \<Rightarrow> nat \<Rightarrow> byte list \<Rightarrow> 'a cache_mem_scheme \<Rightarrow> 'a cache_mem_scheme option" where
  "bump_entries off 0 bs s = Some s"
| "bump_entries off (Suc n) bs s =
     (if length bs < off + sizeof_bump then None
      else do {
        let a = bump_item (segment off sizeof_bump bs);
        s1 \<leftarrow> do_item_update a s;
        s2 \<leftarrow> do_item_remove a s1;
        bump_entries (off + sizeof_bump) n bs s2 })"

text \<open>The loop over \<open>todo\<close> ends at zero only if the size is a multiple of an entry.\<close>

definition bump_worker :: "nat \<Rightarrow> 'a cache_mem_scheme \<Rightarrow> (bool \<times> 'a cache_mem_scheme) option" where
  "bump_worker t s =
     (let b = bump_buf (workers s ! t)
      in case bipbuf_peek_all b of
           None \<Rightarrow> Some (False, s)
         | Some (off, sz) \<Rightarrow>
             if unat sz mod sizeof_bump \<noteq> 0 then None
             else do {
               s1 \<leftarrow> bump_entries off (unat sz div sizeof_bump) (bb_data b) s;
               Some (True, upd_worker t (\<lambda>w. w\<lparr>bump_buf := snd (bipbuf_poll (bump_buf w) sz)\<rparr>) s1) })"

fun bump_workers :: "nat list \<Rightarrow> 'a cache_mem_scheme \<Rightarrow> (bool \<times> 'a cache_mem_scheme) option" where
  "bump_workers [] s = Some (False, s)"
| "bump_workers (t # ts) s = do {
     (b, s1) \<leftarrow> bump_worker t s;
     (b', s2) \<leftarrow> bump_workers ts s1;
     Some (b \<or> b', s2) }"

text \<open>New buffers are put at the head of the list of buffers.\<close>

definition lru_maintainer_bumps :: "'a cache_mem_scheme \<Rightarrow> (bool \<times> 'a cache_mem_scheme) option" where
  "lru_maintainer_bumps s = bump_workers (rev [0..<length (workers s)]) s"

definition lru_total_bumps_dropped :: "'a cache_mem_scheme \<Rightarrow> u64" where
  "lru_total_bumps_dropped s = sum_list (map bumps_dropped (workers s))"

text \<open>A fresh buffer; \<open>None\<close> where \<open>calloc\<close> or \<open>malloc\<close> fails.\<close>

definition item_lru_bump_buf_create :: "bool \<Rightarrow> (u64 \<Rightarrow> byte list option) \<Rightarrow> 'a cache_mem_scheme \<Rightarrow> 'a cache_mem_scheme option" where
  "item_lru_bump_buf_create calloc_ok malloc s =
     (if \<not> calloc_ok then None
      else map_option (\<lambda>b. s\<lparr>workers := workers s @ [\<lparr>bump_buf = b, bumps_dropped = 0, get_expired = 0, get_flushed = 0\<rparr>]\<rparr>)
             (bipbuf_new malloc (of_nat (sizeof_bump * 8192))))"

fun reclaim_temp :: "(byte list \<Rightarrow> u32) \<Rightarrow> nat \<Rightarrow> nat \<Rightarrow> nat \<Rightarrow> 'a cache_mem_scheme \<Rightarrow> (nat \<times> 'a cache_mem_scheme) option" where
  "reclaim_temp hash cid moves 0 s = Some (moves, s)"
| "reclaim_temp hash cid moves (Suc n) s = do {
     (removed, s1) \<leftarrow> lru_pull_tail hash cid TEMP_LRU 0 0 0 s;
     if removed = 0 then Some (moves, s1) else reclaim_temp hash cid (moves + 1) n s1 }"

text \<open>\<open>warm_age\<close> is the multiplication of the cold age by \<open>settings.warm_max_factor\<close>.\<close>

fun juggle_loop ::
  "(byte list \<Rightarrow> u32) \<Rightarrow> nat \<Rightarrow> u64 \<Rightarrow> u32 \<Rightarrow> u32 \<Rightarrow> nat \<Rightarrow> nat \<Rightarrow> 'a cache_mem_scheme \<Rightarrow> (nat \<times> 'a cache_mem_scheme) option" where
  "juggle_loop hash cid tbytes hot_age warm_age moves 0 s = Some (moves, s)"
| "juggle_loop hash cid tbytes hot_age warm_age moves (Suc n) s = do {
     (hot, s1) \<leftarrow> lru_pull_tail hash cid HOT_LRU tbytes LRU_PULL_CRAWL_BLOCKS hot_age s;
     (warm, s2) \<leftarrow> (if hot \<noteq> 0 then Some (0, s1)
                    else lru_pull_tail hash cid WARM_LRU tbytes LRU_PULL_CRAWL_BLOCKS warm_age s1);
     (cold, s3) \<leftarrow> (if lru_segmented (settings s2)
                    then lru_pull_tail hash cid COLD_LRU tbytes LRU_PULL_CRAWL_BLOCKS 0 s2 else Some (0, s2));
     if hot = 0 \<and> warm = 0 \<and> cold = 0 then Some (moves, s3)
     else juggle_loop hash cid tbytes hot_age warm_age (moves + 1) n s3 }"

definition lru_maintainer_juggle ::
  "(byte list \<Rightarrow> u32) \<Rightarrow> (u32 \<Rightarrow> u32) \<Rightarrow> nat \<Rightarrow> 'a cache_mem_scheme \<Rightarrow> (nat \<times> 'a cache_mem_scheme) option" where
  "lru_maintainer_juggle hash warm_age cid s = do {
     let (chunks_free, _, tbytes, chunks_perslab) = slabs_available_chunks cid s;
     (moves, s1) \<leftarrow> (if temp_lru (settings s) then reclaim_temp hash cid 0 500 s else Some (0, s));
     let tbytes' = (if temp_lru (settings s) then tbytes - ucast (temp_lru_size (int cid) s1) else tbytes);
     s2 \<leftarrow> (if 0 < slab_automove (settings s1) \<and> 5 * unat chunks_perslab < 2 * unat chunks_free
           then (case trylock s1 of (free, s') \<Rightarrow> map_option snd (slabs_reassign (\<not> free) (int cid) 0 s'))
           else Some s1);
     cold_age \<leftarrow> (if lru_segmented (settings s2)
                 then (case tails s2 ! (cid OR unat COLD_LRU) of
                         None \<Rightarrow> Some 0
                       | Some a \<Rightarrow> map_option (\<lambda>it. current_time s2 - it_time it) (items s2 a))
                 else Some 0);
     juggle_loop hash cid tbytes' (if lru_segmented (settings s2) then hot_max_age (settings s2) else 0)
       (warm_age cold_age) moves 500 s2 }"

end
