(* ===== verification/LruQueues.thy ===== *)
theory LruQueues
  imports Items
begin

text \<open>
  The LRU queues of items.c: each of the 256 queues is a doubly linked list of the items whose
  \<open>slabs_clsid\<close> names it, with its head, its tail, its length and its total size.
\<close>

section \<open>The invariant\<close>

text \<open>What the queues depend on, besides the links: the queue of an item, its size, its flags.\<close>

definition same_q_item :: "item \<Rightarrow> item \<Rightarrow> bool" where
  "same_q_item it it' \<longleftrightarrow> it_next it' = it_next it \<and> it_prev it' = it_prev it \<and> qid_of it' = qid_of it \<and>
     ITEM_ntotal it' = ITEM_ntotal it \<and> it_flags it' AND ITEM_SLABBED = it_flags it AND ITEM_SLABBED"

definition heap_ntotal :: "item_heap \<Rightarrow> nat \<Rightarrow> u64" where
  "heap_ntotal m a = (case m a of None \<Rightarrow> 0 | Some it \<Rightarrow> ITEM_ntotal it)"

definition queue_ok :: "item_heap \<Rightarrow> nat \<Rightarrow> nat option \<Rightarrow> nat option \<Rightarrow> u32 \<Rightarrow> u64 \<Rightarrow> nat list \<Rightarrow> bool" where
  "queue_ok m q h t n b xs \<longleftrightarrow> dlist m None h xs \<and> distinct xs \<and> t = (if xs = [] then None else Some (last xs)) \<and>
     n = of_nat (length xs) \<and> b = sum_list (map (heap_ntotal m) xs) \<and>
     (\<forall>a \<in> set xs. \<exists>it. m a = Some it \<and> qid_of it = q \<and> it_flags it AND ITEM_SLABBED = 0)"

definition lru_ok :: "'a cache_mem_scheme \<Rightarrow> (nat \<Rightarrow> nat list) \<Rightarrow> bool" where
  "lru_ok s Q \<longleftrightarrow> length (heads s) = 256 \<and> length (tails s) = 256 \<and> length (lru_sizes s) = 256 \<and> length (sizes_bytes s) = 256 \<and>
     (\<forall>q < 256. queue_ok (items s) q (heads s ! q) (tails s ! q) (lru_sizes s ! q) (sizes_bytes s ! q) (Q q)) \<and>
     (\<forall>q \<ge> 256. Q q = [])"

definition queued :: "(nat \<Rightarrow> nat list) \<Rightarrow> nat set" where
  "queued Q = (\<Union>q. set (Q q))"

lemma in_queued [intro]: "a \<in> set (Q q) \<Longrightarrow> a \<in> queued Q"
  by (auto simp: queued_def)

lemma qid_less [simp]: "qid_of it < 256"
  using unsigned_less [of "slabs_clsid it"] by (simp add: qid_of_def)

lemma qid_not_ge [simp]: "\<not> 256 \<le> qid_of it"
  using qid_less [of it] by (simp only: not_le)

lemma queue_ok_cong:
  assumes "queue_ok m q h t n b xs"
    and "\<forall>a \<in> set xs. \<forall>it. m a = Some it \<longrightarrow> (\<exists>it'. m' a = Some it' \<and> same_q_item it it')"
  shows "queue_ok m' q h t n b xs"
proof -
  have ok: "\<exists>it it'. m a = Some it \<and> m' a = Some it' \<and> same_q_item it it' \<and> qid_of it = q \<and> it_flags it AND ITEM_SLABBED = 0"
    if "a \<in> set xs" for a
    using assms that unfolding queue_ok_def by metis
  have "\<forall>a \<in> set xs. links m' a = links m a" using ok by (force simp: links_def same_q_item_def)
  then have "dlist m' None h xs = dlist m None h xs" by (rule dlist_links)
  moreover have "map (heap_ntotal m') xs = map (heap_ntotal m) xs"
    using ok by (force simp: heap_ntotal_def same_q_item_def)
  then have "sum_list (map (heap_ntotal m') xs) = sum_list (map (heap_ntotal m) xs)" by (rule arg_cong)
  moreover have "\<forall>a \<in> set xs. \<exists>it. m' a = Some it \<and> qid_of it = q \<and> it_flags it AND ITEM_SLABBED = 0"
    using ok by (fastforce simp: same_q_item_def)
  ultimately show ?thesis using assms(1) by (simp add: queue_ok_def)
qed

lemma same_q_item_refl [simp]: "same_q_item it it"
  by (simp add: same_q_item_def)

lemma lru_ok_cong:
  assumes "lru_ok s Q" "heads s' = heads s" "tails s' = tails s" "lru_sizes s' = lru_sizes s" "sizes_bytes s' = sizes_bytes s"
    and "\<forall>a \<in> queued Q. \<forall>it. items s a = Some it \<longrightarrow> (\<exists>it'. items s' a = Some it' \<and> same_q_item it it')"
  shows "lru_ok s' Q"
  unfolding lru_ok_def
proof (intro conjI allI impI)
  fix q :: nat
  assume "q < 256"
  then have "queue_ok (items s) q (heads s ! q) (tails s ! q) (lru_sizes s ! q) (sizes_bytes s ! q) (Q q)"
    using assms(1) by (simp add: lru_ok_def)
  then show "queue_ok (items s') q (heads s' ! q) (tails s' ! q) (lru_sizes s' ! q) (sizes_bytes s' ! q) (Q q)"
    unfolding assms(2-5) by (rule queue_ok_cong) (use assms(6) in blast)
qed (use assms in \<open>auto simp: lru_ok_def\<close>)

lemma lru_ok_item:
  assumes "lru_ok s Q" "a \<in> set (Q q)"
  obtains it where "items s a = Some it" "qid_of it = q" "it_flags it AND ITEM_SLABBED = 0" "q < 256"
proof -
  have "q < 256" using assms by (metis empty_iff list.set(1) lru_ok_def not_le)
  then show thesis using assms that by (auto simp: lru_ok_def queue_ok_def)
qed

lemma lru_ok_disjoint:
  assumes "lru_ok s Q" "a \<in> set (Q q)" "a \<in> set (Q r)"
  shows "q = r"
  using lru_ok_item [OF assms(1,2)] lru_ok_item [OF assms(1,3)] by (metis option.inject)

section \<open>Linking and unlinking\<close>

lemma same_but_links_fields:
  assumes "same_but_links m m'" "m a = Some it"
  obtains it' where "m' a = Some it'" "qid_of it' = qid_of it" "ITEM_ntotal it' = ITEM_ntotal it" "it_flags it' = it_flags it"
    "h_next it' = h_next it" "nkey it' = nkey it" "it_key it' = it_key it" "refcount it' = refcount it" "nbytes it' = nbytes it"
    "it_time it' = it_time it" "exptime it' = exptime it" "it_cas it' = it_cas it" "it_data it' = it_data it" "slabs_clsid it' = slabs_clsid it"
proof -
  obtain n p where "m' a = Some (it\<lparr>it_next := n, it_prev := p\<rparr>)" using same_but_links_at [OF assms] by blast
  then show thesis by (rule that) (simp_all add: qid_of_def ITEM_ntotal_def)
qed

lemma same_but_links_ntotal: "same_but_links m m' \<Longrightarrow> heap_ntotal m' a = heap_ntotal m a"
  unfolding heap_ntotal_def
  by (cases "m a") (auto dest: same_but_links_None [of m m' a] elim: same_but_links_fields)

text \<open>The queue of the item that is linked, and what the other queues see.\<close>

lemma queue_frame:
  assumes "queue_ok m r h t n b xs" "same_but_links m m'" "\<forall>b. b \<notin> D \<longrightarrow> m' b = m b" "set xs \<inter> D = {}"
  shows "queue_ok m' r h t n b xs"
proof (rule queue_ok_cong [OF assms(1)], intro ballI allI impI)
  fix a it
  assume "a \<in> set xs" "m a = Some it"
  then have "m' a = Some it" using assms(3,4) by auto
  then show "\<exists>it'. m' a = Some it' \<and> same_q_item it it'" by simp
qed

lemma do_item_link_q_ok:
  assumes "lru_ok s Q" "items s a = Some it" "a \<notin> queued Q" "it_flags it AND ITEM_SLABBED = 0"
  shows "\<exists>s' m hs ts ns bs. do_item_link_q a s = Some s' \<and>
    s' = s\<lparr>items := m, heads := hs, tails := ts, lru_sizes := ns, sizes_bytes := bs\<rparr> \<and>
    lru_ok s' (Q(qid_of it := a # Q (qid_of it))) \<and> same_but_links (items s) m \<and>
    (\<forall>b. b \<notin> insert a (queued Q) \<longrightarrow> m b = items s b)"
proof -
  let ?q = "qid_of it"
  have L: "length (heads s) = 256" "length (tails s) = 256" "length (lru_sizes s) = 256" "length (sizes_bytes s) = 256"
    "\<forall>q \<ge> 256. Q q = []" using assms(1) by (simp_all add: lru_ok_def)
  have all: "queue_ok (items s) q (heads s ! q) (tails s ! q) (lru_sizes s ! q) (sizes_bytes s ! q) (Q q)" if "q < 256" for q
    using assms(1) that by (simp add: lru_ok_def)
  have q: "dlist (items s) None (heads s ! ?q) (Q ?q)" "distinct (Q ?q)" "tails s ! ?q = (if Q ?q = [] then None else Some (last (Q ?q)))"
    "lru_sizes s ! ?q = of_nat (length (Q ?q))" "sizes_bytes s ! ?q = sum_list (map (heap_ntotal (items s)) (Q ?q))"
    "\<forall>b \<in> set (Q ?q). \<exists>it. items s b = Some it \<and> qid_of it = ?q \<and> it_flags it AND ITEM_SLABBED = 0"
    using all [OF qid_less] by (simp_all add: queue_ok_def)
  have na: "a \<notin> set (Q q)" for q using assms(3) by (auto simp: queued_def)
  obtain m where m: "set_prev_of (heads s ! ?q) (Some a) ((items s)(a \<mapsto> it\<lparr>it_prev := None, it_next := heads s ! ?q\<rparr>)) = Some m"
    "dlist m None (Some a) (a # Q ?q)" "same_but_links (items s) m" "\<forall>b. b \<notin> set (a # Q ?q) \<longrightarrow> m b = items s b"
    using dlist_push [OF q(1) na q(2) assms(2)] by blast
  have hd: "heads s ! ?q = (if Q ?q = [] then None else Some (hd (Q ?q)))" by (rule dlist_hd [OF q(1)])
  let ?s' = "s\<lparr>items := m, heads := (heads s)[?q := Some a],
         tails := (if tails s ! ?q = None then (tails s)[?q := Some a] else tails s),
         lru_sizes := (lru_sizes s)[?q := lru_sizes s ! ?q + 1],
         sizes_bytes := (sizes_bytes s)[?q := sizes_bytes s ! ?q + ITEM_ntotal it]\<rparr>"
  have "heads s ! ?q \<noteq> Some a" using hd na [of ?q] by (auto split: if_splits)
  moreover have "(heads s ! ?q = None) = (tails s ! ?q = None)" using hd q(3) by simp
  ultimately have run: "do_item_link_q a s = Some ?s'"
    using assms(2,4) m(1) by (simp add: do_item_link_q_def Let_def)
  have own: "\<exists>it. m b = Some it \<and> qid_of it = ?q \<and> it_flags it AND ITEM_SLABBED = 0" if b: "b \<in> set (a # Q ?q)" for b
  proof -
    obtain ib where ib: "items s b = Some ib" "qid_of ib = ?q" "it_flags ib AND ITEM_SLABBED = 0"
      using b assms(2,4) q(6) by auto
    then show ?thesis by (metis same_but_links_fields [OF m(3) ib(1)])
  qed
  have nt: "heap_ntotal m = heap_ntotal (items s)" using same_but_links_ntotal [OF m(3)] by blast
  have "queue_ok m ?q (Some a) (if tails s ! ?q = None then Some a else tails s ! ?q) (lru_sizes s ! ?q + 1)
      (sizes_bytes s ! ?q + ITEM_ntotal it) (a # Q ?q)"
    unfolding queue_ok_def
  proof (intro conjI)
    show "sizes_bytes s ! ?q + ITEM_ntotal it = sum_list (map (heap_ntotal m) (a # Q ?q))"
      using assms(2) by (simp add: nt q(5) heap_ntotal_def)
    show "\<forall>b \<in> set (a # Q ?q). \<exists>it. m b = Some it \<and> qid_of it = ?q \<and> it_flags it AND ITEM_SLABBED = 0" using own by blast
  qed (use m(2) na q in auto)
  moreover have "queue_ok m r (heads s ! r) (tails s ! r) (lru_sizes s ! r) (sizes_bytes s ! r) (Q r)" if "r < 256" "r \<noteq> ?q" for r
  proof (rule queue_frame [OF all [OF that(1)] m(3,4)])
    show "set (Q r) \<inter> set (a # Q ?q) = {}" using na lru_ok_disjoint [OF assms(1)] that(2) by auto
  qed
  ultimately have "lru_ok ?s' (Q(?q := a # Q ?q))"
    using L by (auto simp: lru_ok_def nth_list_update)
  moreover have "\<forall>b. b \<notin> insert a (queued Q) \<longrightarrow> m b = items s b" using m(4) by auto
  ultimately show ?thesis using run m(3) by blast
qed

lemma do_item_unlink_q_ok:
  assumes "lru_ok s Q" "items s a = Some it" "a \<in> set (Q (qid_of it))"
  shows "\<exists>s' m hs ts ns bs. do_item_unlink_q a s = Some s' \<and>
    s' = s\<lparr>items := m, heads := hs, tails := ts, lru_sizes := ns, sizes_bytes := bs\<rparr> \<and>
    lru_ok s' (Q(qid_of it := remove1 a (Q (qid_of it)))) \<and> same_but_links (items s) m \<and>
    (\<forall>b. b \<notin> queued Q \<longrightarrow> m b = items s b)"
proof -
  let ?q = "qid_of it"
  have L: "length (heads s) = 256" "length (tails s) = 256" "length (lru_sizes s) = 256" "length (sizes_bytes s) = 256"
    "\<forall>q \<ge> 256. Q q = []" using assms(1) by (simp_all add: lru_ok_def)
  have all: "queue_ok (items s) q (heads s ! q) (tails s ! q) (lru_sizes s ! q) (sizes_bytes s ! q) (Q q)" if "q < 256" for q
    using assms(1) that by (simp add: lru_ok_def)
  have q: "dlist (items s) None (heads s ! ?q) (Q ?q)" "distinct (Q ?q)" "tails s ! ?q = (if Q ?q = [] then None else Some (last (Q ?q)))"
    "lru_sizes s ! ?q = of_nat (length (Q ?q))" "sizes_bytes s ! ?q = sum_list (map (heap_ntotal (items s)) (Q ?q))"
    "\<forall>b \<in> set (Q ?q). \<exists>it. items s b = Some it \<and> qid_of it = ?q \<and> it_flags it AND ITEM_SLABBED = 0"
    using all [OF qid_less] by (simp_all add: queue_ok_def)
  obtain xs ys where xy: "Q ?q = xs @ a # ys" using split_list [OF assms(3)] by blast
  have d: "distinct (xs @ a # ys)" using q(2) xy by simp
  have r1: "remove1 a (Q ?q) = xs @ ys" using d by (simp add: xy remove1_append)
  obtain m where m: "unlink_links a (items s) = Some m"
    "dlist m None (if xs = [] then it_next it else heads s ! ?q) (xs @ ys)" "same_but_links (items s) m"
    "\<forall>b. b \<notin> set (xs @ ys) \<longrightarrow> m b = items s b"
    using dlist_remove [OF q(1) [unfolded xy] d] assms(2) by auto
  note mid = dlist_middle [OF q(1) [unfolded xy] assms(2)]
  have hd: "heads s ! ?q = Some (hd (xs @ [a]))" using dlist_hd [OF q(1)] xy by (cases xs) auto
  have tl: "tails s ! ?q = Some (last (a # ys))" using q(3) xy by simp
  have h: "heads s ! ?q = Some a \<longleftrightarrow> xs = []" using hd d hd_in_set [of xs] by (cases xs) auto
  have t: "tails s ! ?q = Some a \<longleftrightarrow> ys = []" using tl d last_in_set [of ys] by auto
  let ?s' = "s\<lparr>items := m,
         heads := (if heads s ! ?q = Some a then (heads s)[?q := it_next it] else heads s),
         tails := (if tails s ! ?q = Some a then (tails s)[?q := it_prev it] else tails s),
         lru_sizes := (lru_sizes s)[?q := lru_sizes s ! ?q - 1],
         sizes_bytes := (sizes_bytes s)[?q := sizes_bytes s ! ?q - ITEM_ntotal it]\<rparr>"
  have "it_next it \<noteq> Some a" "it_prev it \<noteq> Some a"
    using mid d hd_in_set [of ys] last_in_set [of xs] by (auto split: if_splits)
  moreover have "heads s ! ?q = Some a \<longrightarrow> it_prev it = None" "tails s ! ?q = Some a \<longrightarrow> it_next it = None"
    using h t mid by auto
  ultimately have run: "do_item_unlink_q a s = Some ?s'"
    using assms(2) m(1) by (simp add: do_item_unlink_q_def Let_def)
  have nt: "heap_ntotal m = heap_ntotal (items s)" using same_but_links_ntotal [OF m(3)] by blast
  have own: "\<exists>it. m b = Some it \<and> qid_of it = ?q \<and> it_flags it AND ITEM_SLABBED = 0" if b: "b \<in> set (xs @ ys)" for b
  proof -
    obtain ib where ib: "items s b = Some ib" "qid_of ib = ?q" "it_flags ib AND ITEM_SLABBED = 0"
      using b q(6) xy by auto
    then show ?thesis by (metis same_but_links_fields [OF m(3) ib(1)])
  qed
  have "queue_ok m ?q (if xs = [] then it_next it else heads s ! ?q) (if ys = [] then it_prev it else tails s ! ?q) (lru_sizes s ! ?q - 1)
      (sizes_bytes s ! ?q - ITEM_ntotal it) (xs @ ys)"
    unfolding queue_ok_def
  proof (intro conjI)
    show "sizes_bytes s ! ?q - ITEM_ntotal it = sum_list (map (heap_ntotal m) (xs @ ys))"
      using assms(2) by (simp add: nt q(5) xy heap_ntotal_def)
    show "\<forall>b \<in> set (xs @ ys). \<exists>it. m b = Some it \<and> qid_of it = ?q \<and> it_flags it AND ITEM_SLABBED = 0" using own by blast
    show "(if ys = [] then it_prev it else tails s ! ?q) = (if xs @ ys = [] then None else Some (last (xs @ ys)))"
      using mid tl by auto
    show "lru_sizes s ! ?q - 1 = of_nat (length (xs @ ys))" by (simp add: q(4) xy)
  qed (use m(2) d in auto)
  moreover have "queue_ok m r (heads s ! r) (tails s ! r) (lru_sizes s ! r) (sizes_bytes s ! r) (Q r)" if "r < 256" "r \<noteq> ?q" for r
  proof (rule queue_frame [OF all [OF that(1)] m(3,4)])
    show "set (Q r) \<inter> set (xs @ ys) = {}" using lru_ok_disjoint [OF assms(1)] that(2) xy by force
  qed
  ultimately have "lru_ok ?s' (Q(?q := remove1 a (Q ?q)))"
    using L by (auto simp: lru_ok_def nth_list_update r1 h t)
  moreover have "m b = items s b" if "b \<notin> queued Q" for b
  proof -
    have "b \<notin> set (Q ?q)" using that by auto
    then show ?thesis using m(4) xy by simp
  qed
  ultimately show ?thesis using run m(3) by blast
qed

end
