(* ===== verification/ItemStore.thy ===== *)
theory ItemStore
  imports LruQueues
begin

text \<open>
  Items that are linked are in the hash table and in the LRU queue of their class at the same
  time, items that are free are in the free list of a slab class. This theory states that
  invariant and shows that linking, unlinking, releasing and fetching items keep it.
\<close>

section \<open>What the hash table depends on\<close>

definition hash_view :: "item \<Rightarrow> nat option \<times> u8 \<times> byte list" where
  "hash_view it = (h_next it, nkey it, it_key it)"

definition same_table :: "'a assoc_scheme \<Rightarrow> 'a assoc_scheme \<Rightarrow> bool" where
  "same_table s s' \<longleftrightarrow> hashpower s' = hashpower s \<and> primary_hashtable s' = primary_hashtable s \<and>
     old_hashtable s' = old_hashtable s \<and> expanding s' = expanding s \<and> expand_bucket s' = expand_bucket s \<and>
     hash_items s' = hash_items s"

lemma hpath_view:
  "\<forall>a \<in> set xs. map_option hash_view (m' a) = map_option hash_view (m a) \<Longrightarrow> hpath m' p xs q = hpath m p xs q"
proof (induction xs arbitrary: p)
  case (Cons a xs)
  have v: "map_option hash_view (m' a) = map_option hash_view (m a)" using Cons.prems by simp
  show ?case
  proof (cases "m a")
    case None
    then show ?thesis using v by simp
  next
    case (Some it)
    then obtain it' where "m' a = Some it'" "h_next it' = h_next it" using v by (auto simp: hash_view_def)
    then show ?thesis using Some Cons by simp
  qed
qed simp

lemma view_item:
  assumes "map_option hash_view x' = map_option hash_view x" "x = Some it"
  obtains it' where "x' = Some it'" "key_of it' = key_of it" "key_ok it' = key_ok it" "h_next it' = h_next it"
  using assms by (auto simp: hash_view_def key_of_def key_ok_def)

lemma same_table_fields:
  assumes "same_table s s'"
  shows "slots s' = slots s" "tables_ok s' = tables_ok s" "bucket_slot s' = bucket_slot s"
    "table_slot sl \<Longrightarrow> read_slot s' sl = read_slot s sl" "hash_items s' = hash_items s"
  using assms by (cases sl; simp_all add: same_table_def slots_def tables_ok_def bucket_slot_def fun_eq_iff cong: if_cong)+

lemma assoc_rep_frame:
  assumes rep: "assoc_rep hash s ch" and t: "same_table s s'"
    and v: "\<forall>a \<in> linked ch. map_option hash_view (items s' a) = map_option hash_view (items s a)"
  shows "assoc_rep hash s' ch"
proof -
  note f = same_table_fields [OF t]
  have r: "tables_ok s" "chains s (slots s) ch" "placed hash s ch" "inj_on (akey (items s)) (linked ch)"
    "finite (linked ch)" "hash_items s = of_nat (card (linked ch))"
    using rep by (simp_all add: assoc_rep_def)
  have pl: "\<exists>it. items s a = Some it \<and> key_ok it \<and> bucket_slot s (hash (key_of it)) = sl" if "a \<in> set (ch sl)" for a sl
    using r(3) that by (simp add: placed_def)
  have k: "akey (items s') a = akey (items s) a" if a: "a \<in> linked ch" for a
  proof -
    obtain it where "items s a = Some it" using pl a by (auto simp: linked_def)
    then show ?thesis using view_item [OF bspec [OF v a]] by (metis akey_def option.sel)
  qed
  have "chains s' (slots s') ch"
    unfolding chains_def f
  proof (intro conjI ballI allI impI)
    fix sl
    assume sl: "sl \<in> slots s"
    then obtain p where p: "read_slot s sl = Some p" "hchain (items s) p (ch sl)" "distinct (ch sl)"
      using r(2) by (auto simp: chains_def)
    have "hchain (items s') p (ch sl)" using p(2) v by (subst hpath_view) auto
    then show "\<exists>p. read_slot s' sl = Some p \<and> hchain (items s') p (ch sl) \<and> distinct (ch sl)"
      using p f(4) [OF slots_table [OF sl]] by auto
  qed (use r(2) in \<open>auto simp: chains_def\<close>)
  moreover have "placed hash s' ch"
    unfolding placed_def f
  proof (intro allI ballI)
    fix sl a
    assume a: "a \<in> set (ch sl)"
    obtain it where it: "items s a = Some it" "key_ok it" "bucket_slot s (hash (key_of it)) = sl" using pl [OF a] by blast
    have "map_option hash_view (items s' a) = map_option hash_view (items s a)" using v a by blast
    from view_item [OF this it(1)] obtain it' where "items s' a = Some it'" "key_of it' = key_of it" "key_ok it' = key_ok it" by metis
    then show "\<exists>it. items s' a = Some it \<and> key_ok it \<and> bucket_slot s (hash (key_of it)) = sl" using it by auto
  qed
  moreover have "inj_on (akey (items s')) (linked ch)" using r(4) k by (simp add: inj_on_def)
  ultimately show ?thesis using r f(2,5) by (simp add: assoc_rep_def)
qed

lemma amap_frame:
  assumes "assoc_rep hash s ch" "same_table s s'"
    and "\<forall>a \<in> linked ch. map_option hash_view (items s' a) = map_option hash_view (items s a)"
  shows "amap hash s' = amap hash s"
proof (rule amap_eqI [OF assms(1) assoc_rep_frame [OF assms] refl], intro ballI)
  fix a
  assume a: "a \<in> linked ch"
  then obtain it where "items s a = Some it" using assms(1) by (force simp: assoc_rep_def placed_def linked_def)
  then show "akey (items s') a = akey (items s) a" using view_item [OF bspec [OF assms(3) a]] by (metis akey_def option.sel)
qed

text \<open>Insertion and deletion leave the rest of the state alone.\<close>

lemma push_item_shape: "push_item sl a s = Some s' \<Longrightarrow> same_shape s s'"
  unfolding push_item_def by (auto split: bind_splits simp del: write_slot.simps read_slot.simps)
    (metis same_shape_trans write_slot_shape)

lemma unlink_item_shape: "unlink_item sl a s = Some s' \<Longrightarrow> same_shape s s'"
  unfolding unlink_item_def by (auto split: bind_splits simp del: write_slot.simps read_slot.simps)
    (metis same_shape_trans write_slot_shape)

lemma assoc_insert_shape:
  assumes "assoc_insert a hv s = Some s'"
  shows "\<exists>m ps qs n b. s' = s\<lparr>items := m, primary_hashtable := ps, old_hashtable := qs, hash_items := n, started_expanding := b\<rparr>"
proof -
  obtain s1 where s1: "push_item (bucket_slot s hv) a s = Some s1" "s' = count_item s1"
    using assms by (auto simp: assoc_insert_def split: bind_splits)
  obtain m ps qs where "s1 = s\<lparr>items := m, primary_hashtable := ps, old_hashtable := qs\<rparr>"
    using push_item_shape [OF s1(1)] by (auto simp: same_shape_def)
  then show ?thesis
    unfolding s1(2) count_item_def assoc_start_expand_def Let_def
    by (intro exI [of _ m] exI [of _ ps] exI [of _ qs] exI [of _ "hash_items s + 1"]
      exI [of _ "started_expanding s \<or> \<not> expanding s \<and> hashsize (hashpower s) * 3 div 2 < ucast (hash_items s + 1)"]) auto
qed

lemma assoc_delete_shape:
  assumes "assoc_delete key hv s = Some s'"
  shows "\<exists>m ps qs n. s' = s\<lparr>items := m, primary_hashtable := ps, old_hashtable := qs, hash_items := n\<rparr>"
proof -
  obtain sl a where "unlink_item sl a (s\<lparr>hash_items := hash_items s - 1\<rparr>) = Some s'"
    using assms by (auto simp: assoc_delete_def split: bind_splits option.splits)
  from unlink_item_shape [OF this] obtain m ps qs where
    "s' = s\<lparr>hash_items := hash_items s - 1, items := m, primary_hashtable := ps, old_hashtable := qs\<rparr>" by (auto simp: same_shape_def)
  then show ?thesis by (intro exI [of _ m] exI [of _ ps] exI [of _ qs] exI [of _ "hash_items s - 1"]) simp
qed

section \<open>The invariant\<close>

text \<open>
  \<open>ch\<close> are the chains of the hash table, \<open>Q\<close> the queues, \<open>F\<close> the free lists of the slab
  classes.
\<close>

definition freed :: "(nat \<Rightarrow> nat list) \<Rightarrow> nat set" where
  "freed F = (\<Union>c. set (F c))"

definition lists_ok :: "'a slabs_scheme \<Rightarrow> (nat \<Rightarrow> nat list) \<Rightarrow> bool" where
  "lists_ok s F \<longleftrightarrow> (\<forall>c < length (slabclass s). freelist (items s) (slabclass s ! c) (F c)) \<and>
     (\<forall>c \<ge> length (slabclass s). F c = []) \<and> (\<forall>c d. c \<noteq> d \<longrightarrow> set (F c) \<inter> set (F d) = {})"

definition class_valid :: "'a slabs_scheme \<Rightarrow> item \<Rightarrow> bool" where
  "class_valid s it \<longleftrightarrow> 1 \<le> unat (ITEM_clsid it) \<and> unat (ITEM_clsid it) \<le> power_largest s \<and> power_largest s < length (slabclass s)"

definition size_fine :: "item \<Rightarrow> bool" where
  "size_fine it \<longleftrightarrow> 0 \<le> nbytes it \<and> nbytes it < 2 ^ 30"

definition item_live :: "'a slabs_scheme \<Rightarrow> item \<Rightarrow> bool" where
  "item_live s it \<longleftrightarrow> it_flags it AND ITEM_LINKED \<noteq> 0 \<and> 0 < refcount it \<and> size_fine it \<and> class_valid s it"

definition store_ok ::
  "(byte list \<Rightarrow> u32) \<Rightarrow> 'a cache_mem_scheme \<Rightarrow> (slot \<Rightarrow> nat list) \<Rightarrow> (nat \<Rightarrow> nat list) \<Rightarrow> (nat \<Rightarrow> nat list) \<Rightarrow> bool" where
  "store_ok hash s ch Q F \<longleftrightarrow> assoc_rep hash s ch \<and> lru_ok s Q \<and> lists_ok s F \<and> queued Q = linked ch \<and>
     (\<forall>a \<in> linked ch. \<exists>it. items s a = Some it \<and> item_live s it) \<and>
     curr_items s = of_nat (card (linked ch)) \<and> curr_bytes s = (\<Sum>a \<in> linked ch. heap_ntotal (items s) a)"

lemma flag_facts:
  "((f :: u8) OR 1) AND 4 = f AND 4" "(f AND NOT 1) AND 4 = f AND 4" "(f AND NOT 1) AND 1 = 0" "(f OR 1) AND 1 = 1"
  "(f AND NOT 1) AND 2 = f AND 2" "(f OR 1) AND 2 = f AND 2" "(f OR 1) AND 32 = f AND 32" "(f AND NOT 1) AND 32 = f AND 32"
  by (simp_all add: bit.conj_disj_distrib2 and.assoc)

lemma flags_clear: "(f :: u8) AND (1 OR 4) = 0 \<longleftrightarrow> f AND 1 = 0 \<and> f AND 4 = 0"
  by (metis (no_types, lifting) bit.conj_disj_distrib or_eq_0_iff)

lemma in_freed [intro]: "a \<in> set (F c) \<Longrightarrow> a \<in> freed F"
  by (auto simp: freed_def)

text \<open>What the free lists depend on.\<close>

definition free_view :: "item \<Rightarrow> nat option \<times> nat option \<times> u8 \<times> u8" where
  "free_view it = (it_next it, it_prev it, it_flags it, slabs_clsid it)"

lemma freelist_view:
  assumes "freelist m p fs" "\<forall>a \<in> set fs. map_option free_view (m' a) = map_option free_view (m a)"
  shows "freelist m' p fs"
proof -
  have l: "\<forall>a \<in> set fs. links m' a = links m a"
  proof
    fix a
    assume "a \<in> set fs"
    then have v: "map_option free_view (m' a) = map_option free_view (m a)" using assms(2) by blast
    show "links m' a = links m a"
      using arg_cong [OF v, of "map_option (\<lambda>(n, p, _, _). (n, p))"] by (simp add: links_def free_view_def option.map_comp comp_def)
  qed
  have "\<exists>it. m' a = Some it \<and> it_flags it = ITEM_SLABBED \<and> slabs_clsid it = 0" if a: "a \<in> set fs" for a
  proof -
    obtain it where "m a = Some it" "it_flags it = ITEM_SLABBED" "slabs_clsid it = 0" using assms(1) a by (auto simp: freelist_def)
    moreover have "map_option free_view (m' a) = map_option free_view (m a)" using assms(2) a by blast
    ultimately show ?thesis by (auto simp: free_view_def)
  qed
  then show ?thesis using assms(1) dlist_links [OF l] by (simp add: freelist_def)
qed

lemma lists_ok_view:
  "lists_ok s F \<Longrightarrow> slabclass s' = slabclass s \<Longrightarrow>
   (\<And>a. a \<in> freed F \<Longrightarrow> map_option free_view (items s' a) = map_option free_view (items s a)) \<Longrightarrow> lists_ok s' F"
  unfolding lists_ok_def freed_def by (auto intro!: freelist_view [of "items s" _ _ "items s'"])

lemma free_item:
  assumes "lists_ok s F" "a \<in> freed F"
  obtains it where "items s a = Some it" "it_flags it = ITEM_SLABBED" "slabs_clsid it = 0"
proof -
  obtain c where c: "a \<in> set (F c)" using assms(2) by (auto simp: freed_def)
  then have "c < length (slabclass s)" using assms(1) by (metis empty_iff lists_ok_def list.set(1) not_le)
  then have "freelist (items s) (slabclass s ! c) (F c)" using assms(1) by (simp add: lists_ok_def)
  then show thesis using c that by (auto simp: freelist_def)
qed

lemma not_freed:
  assumes "lists_ok s F" "items s a = Some it" "it_flags it AND ITEM_SLABBED = 0"
  shows "a \<notin> freed F"
proof
  assume "a \<in> freed F"
  from free_item [OF assms(1) this] obtain it' where "items s a = Some it'" "it_flags it' = ITEM_SLABBED" by blast
  then show False using assms(2,3) by simp
qed

lemma store_disjoint: "store_ok hash s ch Q F \<Longrightarrow> linked ch \<inter> freed F = {}"
proof -
  assume ok: "store_ok hash s ch Q F"
  have "a \<notin> freed F" if "a \<in> linked ch" for a
  proof
    assume "a \<in> freed F"
    then obtain it where it: "items s a = Some it" "it_flags it = ITEM_SLABBED" using ok free_item by (metis store_ok_def)
    have "\<exists>it. items s a = Some it \<and> item_live s it" using ok that by (simp add: store_ok_def)
    then obtain it' where "items s a = Some it'" "item_live s it'" by blast
    then show False using it by (simp add: item_live_def)
  qed
  then show ?thesis by blast
qed

text \<open>The part of a linked item that must not change.\<close>

definition same_core :: "item \<Rightarrow> item \<Rightarrow> bool" where
  "same_core it it' \<longleftrightarrow> same_q_item it it' \<and> hash_view it' = hash_view it \<and> it_flags it' AND ITEM_LINKED = it_flags it AND ITEM_LINKED \<and>
     (0 < refcount it \<longrightarrow> 0 < refcount it') \<and> nbytes it' = nbytes it"

lemma same_core_refl [simp]: "same_core it it"
  by (simp add: same_core_def)

lemma same_core_live: "same_core it it' \<Longrightarrow> item_live s it \<Longrightarrow> item_live s it'"
  by (auto simp: same_core_def item_live_def size_fine_def class_valid_def ITEM_clsid_def same_q_item_def qid_of_def word_unat_eq_iff [symmetric])

lemma heap_ntotal_core:
  "(\<And>it. m a = Some it \<Longrightarrow> \<exists>it'. m' a = Some it' \<and> same_core it it') \<Longrightarrow> m a \<noteq> None \<Longrightarrow> heap_ntotal m' a = heap_ntotal m a"
  by (force simp: heap_ntotal_def same_core_def same_q_item_def)

definition same_lru :: "'a cache_mem_scheme \<Rightarrow> 'a cache_mem_scheme \<Rightarrow> bool" where
  "same_lru s s' \<longleftrightarrow> heads s' = heads s \<and> tails s' = tails s \<and> lru_sizes s' = lru_sizes s \<and> sizes_bytes s' = sizes_bytes s \<and>
     slabclass s' = slabclass s \<and> power_largest s' = power_largest s \<and> curr_items s' = curr_items s \<and> curr_bytes s' = curr_bytes s"

lemma item_live_cong: "slabclass s' = slabclass s \<Longrightarrow> power_largest s' = power_largest s \<Longrightarrow> item_live s' it = item_live s it"
  by (simp add: item_live_def class_valid_def)

lemma lists_ok_cong:
  "lists_ok s F \<Longrightarrow> slabclass s' = slabclass s \<Longrightarrow> \<forall>a \<in> freed F. items s' a = items s a \<Longrightarrow> lists_ok s' F"
  unfolding lists_ok_def by (auto intro!: freelist_cong [of "items s" _ _ _ "items s'"])

lemma store_ok_frame:
  assumes ok: "store_ok hash s ch Q F" and t: "same_table s s'" and l: "same_lru s s'"
    and c: "\<And>a it. a \<in> linked ch \<Longrightarrow> items s a = Some it \<Longrightarrow> \<exists>it'. items s' a = Some it' \<and> same_core it it'"
    and f: "\<forall>a \<in> freed F. items s' a = items s a"
  shows "store_ok hash s' ch Q F" "amap hash s' = amap hash s"
proof -
  have S: "assoc_rep hash s ch" "lru_ok s Q" "lists_ok s F" "queued Q = linked ch"
    "\<forall>a \<in> linked ch. \<exists>it. items s a = Some it \<and> item_live s it"
    "curr_items s = of_nat (card (linked ch))" "curr_bytes s = (\<Sum>a \<in> linked ch. heap_ntotal (items s) a)"
    using ok by (simp_all add: store_ok_def)
  have v: "\<forall>a \<in> linked ch. map_option hash_view (items s' a) = map_option hash_view (items s a)"
    using c S(5) by (fastforce simp: same_core_def)
  show "amap hash s' = amap hash s" by (rule amap_frame [OF S(1) t v])
  have "\<forall>a \<in> queued Q. \<forall>it. items s a = Some it \<longrightarrow> (\<exists>it'. items s' a = Some it' \<and> same_q_item it it')"
    using c S(4) unfolding same_core_def by blast
  then have "lru_ok s' Q"
    using l lru_ok_cong [OF S(2), of s'] by (simp add: same_lru_def)
  moreover have "lists_ok s' F" by (rule lists_ok_cong [OF S(3) _ f]) (use l in \<open>simp add: same_lru_def\<close>)
  moreover have "\<exists>it. items s' a = Some it \<and> item_live s' it" if a: "a \<in> linked ch" for a
  proof -
    obtain it where it: "items s a = Some it" "item_live s it" using S(5) a by blast
    obtain it' where it': "items s' a = Some it'" "same_core it it'" using c [OF a it(1)] by blast
    have "item_live s' it'" using same_core_live [OF it'(2) it(2)] item_live_cong [of s' s it'] l by (simp add: same_lru_def)
    then show ?thesis using it'(1) by blast
  qed
  moreover have "heap_ntotal (items s') a = heap_ntotal (items s) a" if a: "a \<in> linked ch" for a
    using S(5) a by (intro heap_ntotal_core) (auto intro: c)
  then have "(\<Sum>a \<in> linked ch. heap_ntotal (items s') a) = (\<Sum>a \<in> linked ch. heap_ntotal (items s) a)" by (intro sum.cong) simp_all
  ultimately show "store_ok hash s' ch Q F"
    using assoc_rep_frame [OF S(1) t v] S(4,6,7) l by (simp add: store_ok_def same_lru_def)
qed

section \<open>Releasing items\<close>

lemma slabs_free_shape:
  assumes "do_slabs_free a sz cid s = Some s'" "items s a = Some it" "it_flags it AND ITEM_CHUNKED = 0"
  shows "\<exists>m cs. s' = s\<lparr>items := m, slabclass := cs\<rparr>"
proof -
  obtain s1 where s1: "put_free cid a (s\<lparr>items := (items s)(a \<mapsto> it\<lparr>it_flags := ITEM_SLABBED, slabs_clsid := 0\<rparr>)\<rparr>) = Some s1"
    "s' = take_requested cid sz s1"
    using assms by (auto simp: do_slabs_free_def split: if_splits bind_splits)
  obtain m cs where "s1 = s\<lparr>items := m, slabclass := cs\<rparr>"
    using s1(1) by (auto simp: put_free_def Let_def upd_class_def split: if_splits bind_splits)
  then show ?thesis
    by (intro exI [of _ m] exI [of _ "cs[cid := (cs ! cid)\<lparr>requested := requested (cs ! cid) - sz\<rparr>]"])
      (simp add: s1(2) take_requested_def upd_class_def)
qed

text \<open>An item that nobody refers to goes to the free list of its class.\<close>

lemma item_free_ok:
  assumes ok: "store_ok hash s ch Q F" and it: "items s a = Some it" "it_flags it AND ITEM_LINKED = 0" "refcount it = 0"
    "it_flags it AND ITEM_CHUNKED = 0" "class_valid s it" and a: "a \<notin> linked ch" "a \<notin> freed F"
  shows "\<exists>s' m cs. item_free a s = Some s' \<and> s' = s\<lparr>items := m, slabclass := cs\<rparr> \<and>
    store_ok hash s' ch Q (F(unat (ITEM_clsid it) := a # F (unat (ITEM_clsid it)))) \<and> amap hash s' = amap hash s \<and>
    (\<forall>b. b \<noteq> a \<longrightarrow> b \<notin> freed F \<longrightarrow> items s' b = items s b) \<and> length (slabclass s') = length (slabclass s) \<and> (\<forall>j. sc_size (slabclass s' ! j) = sc_size (slabclass s ! j))"
proof -
  let ?c = "unat (ITEM_clsid it)"
  have S: "assoc_rep hash s ch" "lru_ok s Q" "lists_ok s F" "queued Q = linked ch"
    "\<forall>a \<in> linked ch. \<exists>it. items s a = Some it \<and> item_live s it"
    "curr_items s = of_nat (card (linked ch))" "curr_bytes s = (\<Sum>a \<in> linked ch. heap_ntotal (items s) a)"
    using ok by (simp_all add: store_ok_def)
  have c: "?c < length (slabclass s)" "1 \<le> ?c" "?c \<le> power_largest s" using it(5) by (simp_all add: class_valid_def)
  have fl: "freelist (items s) (slabclass s ! ?c) (F ?c)" using S(3) c(1) by (simp add: lists_ok_def)
  have na: "a \<notin> set (F ?c)" using a(2) by auto
  obtain s' where s': "do_slabs_free a (ITEM_ntotal it) ?c s = Some s'" "freelist (items s') (slabclass s' ! ?c) (a # F ?c)"
    "same_slabs ?c s s'" "\<forall>b. b \<notin> set (a # F ?c) \<longrightarrow> items s' b = items s b"
    using do_slabs_free_ok [OF fl c na it(1,4)] by blast
  obtain m cs where sh: "s' = s\<lparr>items := m, slabclass := cs\<rparr>" using slabs_free_shape [OF s'(1) it(1,4)] by blast
  have "heads s ! qid_of it \<noteq> Some a \<and> tails s ! qid_of it \<noteq> Some a"
  proof -
    have q: "queue_ok (items s) (qid_of it) (heads s ! qid_of it) (tails s ! qid_of it) (lru_sizes s ! qid_of it) (sizes_bytes s ! qid_of it) (Q (qid_of it))"
      using S(2) by (simp add: lru_ok_def)
    have "a \<notin> set (Q (qid_of it))" using a(1) S(4) by auto
    moreover from q have "heads s ! qid_of it = (if Q (qid_of it) = [] then None else Some (hd (Q (qid_of it))))"
      unfolding queue_ok_def by (elim conjE) (rule dlist_hd)
    ultimately show ?thesis using q by (auto simp: queue_ok_def dest: last_in_set hd_in_set split: if_splits)
  qed
  then have run: "item_free a s = Some s'"
    using it(1-3) s'(1) by (simp add: item_free_def assert_that_def slabs_free_def)
  have keep: "items s' b = items s b" if "b \<noteq> a" "b \<notin> freed F" for b using s'(4) that by auto
  have keepl: "items s' b = items s b" if "b \<in> linked ch" for b using keep [of b] that a(1) store_disjoint [OF ok] by auto
  let ?F = "F(?c := a # F ?c)"
  have "lists_ok s' ?F"
    unfolding lists_ok_def
  proof (intro conjI allI impI)
    fix d
    assume d: "d < length (slabclass s')"
    show "freelist (items s') (slabclass s' ! d) (?F d)"
    proof (cases "d = ?c")
      case False
      have "set (F d) \<inter> set (F ?c) = {}" using S(3) False by (simp add: lists_ok_def)
      moreover have "a \<notin> set (F d)" using a(2) by auto
      ultimately have "\<forall>b \<in> set (F d). items s' b = items s b" using s'(4) by auto
      moreover have "freelist (items s) (slabclass s ! d) (F d)" using S(3) d s'(3) by (simp add: lists_ok_def same_slabs_def)
      moreover have "slabclass s' ! d = slabclass s ! d" using s'(3) False by (simp add: same_slabs_def)
      ultimately show ?thesis using False freelist_cong by force
    qed (use s'(2) in simp)
  next
    fix d
    assume d: "length (slabclass s') \<le> d"
    then show "?F d = []" using S(3) c(1) s'(3) by (auto simp: lists_ok_def same_slabs_def)
  next
    fix d e :: nat
    assume "d \<noteq> e"
    then have "set (F d) \<inter> set (F e) = {}" using S(3) by (simp add: lists_ok_def)
    moreover have "a \<notin> set (F d)" "a \<notin> set (F e)" using a(2) by auto
    ultimately show "set (?F d) \<inter> set (?F e) = {}" using \<open>d \<noteq> e\<close> by auto
  qed
  moreover have v: "\<forall>b \<in> linked ch. map_option hash_view (items s' b) = map_option hash_view (items s b)" by (simp add: keepl)
  have t: "same_table s s'" by (simp add: sh same_table_def)
  have "assoc_rep hash s' ch" by (rule assoc_rep_frame [OF S(1) t v])
  moreover have "lru_ok s' Q"
    by (rule lru_ok_cong [OF S(2)]) (use sh keepl S(4) in auto)
  moreover have "\<exists>it. items s' b = Some it \<and> item_live s' it" if "b \<in> linked ch" for b
  proof -
    have "\<exists>it. items s b = Some it \<and> item_live s it" using S(5) that by blast
    moreover have "item_live s' it = item_live s it" for it
      using s'(3) by (simp add: item_live_def class_valid_def same_slabs_def)
    ultimately show ?thesis using keepl [OF that] by simp
  qed
  moreover have "(\<Sum>a \<in> linked ch. heap_ntotal (items s') a) = (\<Sum>a \<in> linked ch. heap_ntotal (items s) a)"
    using keepl by (intro sum.cong) (simp_all add: heap_ntotal_def)
  ultimately have "store_ok hash s' ch Q ?F" using S(4,6,7) sh by (simp add: store_ok_def)
  moreover have "sc_size (slabclass s' ! j) = sc_size (slabclass s ! j)" for j
    using s'(3) by (cases "j = ?c") (simp_all add: same_slabs_def)
  moreover have "length (slabclass s') = length (slabclass s)" using s'(3) by (simp add: same_slabs_def)
  ultimately show ?thesis using run sh keep amap_frame [OF S(1) t v] by blast
qed

text \<open>\<open>do_item_remove\<close> on an item that stays, and on one whose last reference it is.\<close>

lemma do_item_remove_keeps:
  assumes ok: "store_ok hash s ch Q F" and it: "items s a = Some it" "it_flags it AND ITEM_SLABBED = 0" "1 < refcount it"
  shows "\<exists>s'. do_item_remove a s = Some s' \<and> s' = s\<lparr>items := (items s)(a \<mapsto> it\<lparr>refcount := refcount it - 1\<rparr>)\<rparr> \<and>
    store_ok hash s' ch Q F \<and> amap hash s' = amap hash s"
proof -
  let ?s' = "s\<lparr>items := (items s)(a \<mapsto> it\<lparr>refcount := refcount it - 1\<rparr>)\<rparr>"
  have r: "0 < refcount it" "refcount it - 1 \<noteq> 0" "0 < refcount it - 1"
  proof -
    have u: "1 < unat (refcount it)" using it(3) by (simp add: word_less_nat_alt)
    then show "0 < refcount it" by (simp add: word_less_nat_alt)
    then have "unat (refcount it - 1) = unat (refcount it) - 1" by (intro unat_minus_one) auto
    then show "0 < refcount it - 1" "refcount it - 1 \<noteq> 0" using u by (auto simp: word_less_nat_alt)
  qed
  have run: "do_item_remove a s = Some ?s'"
    using it r by (simp add: do_item_remove_def assert_that_def refcount_decr_def upd_item_def)
  have naf: "a \<notin> freed F" using ok it(1,2) by (intro not_freed) (simp_all add: store_ok_def)
  have "\<exists>it'. items ?s' b = Some it' \<and> same_core ib it'" if "items s b = Some ib" for b ib
    using that it r by (auto simp: same_core_def same_q_item_def hash_view_def qid_of_def ITEM_ntotal_def)
  moreover have "same_table s ?s'" "same_lru s ?s'" by (simp_all add: same_table_def same_lru_def)
  moreover have "\<forall>b \<in> freed F. items ?s' b = items s b" using naf by auto
  ultimately have "store_ok hash ?s' ch Q F" "amap hash ?s' = amap hash s" using store_ok_frame [OF ok] by blast+
  then show ?thesis using run by blast
qed

lemma do_item_remove_frees:
  assumes ok: "store_ok hash s ch Q F" and it: "items s a = Some it" "it_flags it AND ITEM_SLABBED = 0" "refcount it = 1"
    "it_flags it AND ITEM_LINKED = 0" "it_flags it AND ITEM_CHUNKED = 0" "class_valid s it" and a: "a \<notin> linked ch"
  shows "\<exists>s' m cs. do_item_remove a s = Some s' \<and> s' = s\<lparr>items := m, slabclass := cs\<rparr> \<and>
    store_ok hash s' ch Q (F(unat (ITEM_clsid it) := a # F (unat (ITEM_clsid it)))) \<and> amap hash s' = amap hash s \<and>
    (\<forall>b. b \<noteq> a \<longrightarrow> b \<notin> freed F \<longrightarrow> items s' b = items s b) \<and> length (slabclass s') = length (slabclass s) \<and> (\<forall>j. sc_size (slabclass s' ! j) = sc_size (slabclass s ! j))"
proof -
  let ?it = "it\<lparr>refcount := 0\<rparr>" and ?s1 = "s\<lparr>items := (items s)(a \<mapsto> it\<lparr>refcount := 0\<rparr>)\<rparr>"
  have naf: "a \<notin> freed F" using ok it(1,2) by (intro not_freed) (simp_all add: store_ok_def)
  have "\<exists>it'. items ?s1 b = Some it' \<and> same_core ib it'" if "b \<in> linked ch" "items s b = Some ib" for b ib
    using that a by auto
  moreover have "same_table s ?s1" "same_lru s ?s1" by (simp_all add: same_table_def same_lru_def)
  moreover have "\<forall>b \<in> freed F. items ?s1 b = items s b" using naf by auto
  ultimately have ok1: "store_ok hash ?s1 ch Q F" "amap hash ?s1 = amap hash s" using store_ok_frame [OF ok] by blast+
  have c: "ITEM_clsid ?it = ITEM_clsid it" "class_valid ?s1 ?it" using it(6) by (simp_all add: ITEM_clsid_def class_valid_def)
  have "\<exists>s' m cs. item_free a ?s1 = Some s' \<and> s' = ?s1\<lparr>items := m, slabclass := cs\<rparr> \<and>
    store_ok hash s' ch Q (F(unat (ITEM_clsid ?it) := a # F (unat (ITEM_clsid ?it)))) \<and> amap hash s' = amap hash ?s1 \<and>
    (\<forall>b. b \<noteq> a \<longrightarrow> b \<notin> freed F \<longrightarrow> items s' b = items ?s1 b) \<and> length (slabclass s') = length (slabclass ?s1) \<and> (\<forall>j. sc_size (slabclass s' ! j) = sc_size (slabclass ?s1 ! j))"
    by (rule item_free_ok [OF ok1(1)]) (use it a naf c in \<open>simp_all\<close>)
  moreover have "do_item_remove a s = item_free a ?s1"
    using it by (simp add: do_item_remove_def assert_that_def refcount_decr_def upd_item_def)
  ultimately show ?thesis unfolding c(1) ok1(2) by fastforce
qed

section \<open>Linking\<close>

text \<open>An item without its places in the lists.\<close>

definition item_core :: "item \<Rightarrow> item" where
  "item_core it = it\<lparr>it_next := None, it_prev := None, h_next := None\<rparr>"

definition same_cores :: "nat set \<Rightarrow> item_heap \<Rightarrow> item_heap \<Rightarrow> bool" where
  "same_cores D m m' \<longleftrightarrow> (\<forall>a. a \<notin> D \<longrightarrow> map_option item_core (m' a) = map_option item_core (m a))"

lemma same_cores_trans: "same_cores D m m' \<Longrightarrow> same_cores D m' m'' \<Longrightarrow> same_cores D m m''"
  by (simp add: same_cores_def)

lemma same_cores_refl [simp]: "same_cores D m m"
  by (simp add: same_cores_def)

lemma same_cores_upd: "a \<in> D \<Longrightarrow> same_cores D m (m(a := x))"
  by (auto simp: same_cores_def)

lemma same_cores_mono: "same_cores D m m' \<Longrightarrow> D \<subseteq> E \<Longrightarrow> same_cores E m m'"
  by (auto simp: same_cores_def)

lemma same_but_links_cores: "same_but_links m m' \<Longrightarrow> same_cores D m m'"
  unfolding same_cores_def
proof (intro allI impI)
  fix a
  assume l: "same_but_links m m'"
  show "map_option item_core (m' a) = map_option item_core (m a)"
  proof (cases "m a")
    case None
    then show ?thesis using l same_but_links_None [of m m' a] by simp
  next
    case (Some it)
    then obtain n p where "m' a = Some (it\<lparr>it_next := n, it_prev := p\<rparr>)" using same_but_links_at [OF l] by blast
    then show ?thesis using Some by (simp add: item_core_def)
  qed
qed

lemma same_items_cores: "same_items m m' \<Longrightarrow> same_cores D m m'"
  unfolding same_cores_def
proof (intro allI impI)
  fix a
  assume l: "same_items m m'"
  show "map_option item_core (m' a) = map_option item_core (m a)"
  proof (cases "m a")
    case None
    then show ?thesis using l same_items_None [of m m' a] by simp
  next
    case (Some it)
    then obtain p where "m' a = Some (it\<lparr>h_next := p\<rparr>)" using same_items_at [OF l] by blast
    then show ?thesis using Some by (simp add: item_core_def)
  qed
qed

lemma same_cores_at:
  assumes "same_cores D m m'" "a \<notin> D" "m a = Some it"
  obtains it' where "m' a = Some it'" "item_core it' = item_core it"
  using assms unfolding same_cores_def by (metis map_option_eq_Some)

lemma item_core_sel:
  "it_flags (item_core it) = it_flags it" "nkey (item_core it) = nkey it" "it_key (item_core it) = it_key it" "refcount (item_core it) = refcount it" "nbytes (item_core it) = nbytes it" 
  "it_time (item_core it) = it_time it" "exptime (item_core it) = exptime it" "it_cas (item_core it) = it_cas it" "it_data (item_core it) = it_data it" "it_suffix (item_core it) = it_suffix it" "nsuffix (item_core it) = nsuffix it" "slabs_clsid (item_core it) = slabs_clsid it"
  by (simp_all add: item_core_def)

lemma item_core_fields:
  assumes "item_core it' = item_core it"
  shows "qid_of it' = qid_of it" "ITEM_ntotal it' = ITEM_ntotal it" "it_flags it' = it_flags it" "nkey it' = nkey it"
    "it_key it' = it_key it" "refcount it' = refcount it" "nbytes it' = nbytes it" "it_time it' = it_time it" "exptime it' = exptime it"
    "it_cas it' = it_cas it" "it_data it' = it_data it" "it_suffix it' = it_suffix it" "nsuffix it' = nsuffix it" "slabs_clsid it' = slabs_clsid it"
    "key_of it' = key_of it" "key_ok it' = key_ok it" "size_fine it' = size_fine it" "class_valid s it' = class_valid s it"
    "item_live s it' = item_live s it" "ITEM_clsid it' = ITEM_clsid it"
proof -
  have f: "it_flags it' = it_flags it" "nkey it' = nkey it" "it_key it' = it_key it" "refcount it' = refcount it" 
    "nbytes it' = nbytes it" "it_time it' = it_time it" "exptime it' = exptime it" "it_cas it' = it_cas it" 
    "it_data it' = it_data it" "it_suffix it' = it_suffix it" "nsuffix it' = nsuffix it" "slabs_clsid it' = slabs_clsid it"
    using arg_cong [OF assms, of it_flags]
      arg_cong [OF assms, of nkey]
      arg_cong [OF assms, of it_key]
      arg_cong [OF assms, of refcount]
      arg_cong [OF assms, of nbytes]
      arg_cong [OF assms, of it_time]
      arg_cong [OF assms, of exptime]
      arg_cong [OF assms, of it_cas]
      arg_cong [OF assms, of it_data]
      arg_cong [OF assms, of it_suffix]
      arg_cong [OF assms, of nsuffix]
      arg_cong [OF assms, of slabs_clsid]
    by (simp_all only: item_core_sel)
  then show "it_flags it' = it_flags it" "nkey it' = nkey it" "it_key it' = it_key it" "refcount it' = refcount it" "nbytes it' = nbytes it"
    "it_time it' = it_time it" "exptime it' = exptime it" "it_cas it' = it_cas it" "it_data it' = it_data it" "it_suffix it' = it_suffix it"
    "nsuffix it' = nsuffix it" "slabs_clsid it' = slabs_clsid it" by simp_all
  show "qid_of it' = qid_of it" "ITEM_ntotal it' = ITEM_ntotal it" "key_of it' = key_of it" "key_ok it' = key_ok it" "size_fine it' = size_fine it"
    "class_valid s it' = class_valid s it" "ITEM_clsid it' = ITEM_clsid it" "item_live s it' = item_live s it"
    by (simp_all add: f qid_of_def ITEM_ntotal_def key_of_def key_ok_def size_fine_def class_valid_def ITEM_clsid_def item_live_def)
qed

lemma same_cores_ntotal: "same_cores D m m' \<Longrightarrow> a \<notin> D \<Longrightarrow> heap_ntotal m' a = heap_ntotal m a"
proof -
  assume c: "same_cores D m m'" "a \<notin> D"
  then have e: "map_option item_core (m' a) = map_option item_core (m a)" by (simp add: same_cores_def)
  show ?thesis
  proof (cases "m a")
    case None
    then show ?thesis using e by (simp add: heap_ntotal_def)
  next
    case (Some it)
    from same_cores_at [OF c Some] obtain it' where "m' a = Some it'" "item_core it' = item_core it" .
    then show ?thesis using Some item_core_fields(2) [of it' it] by (simp add: heap_ntotal_def)
  qed
qed

lemma same_cores_live:
  "same_cores {a} m m' \<Longrightarrow> b \<noteq> a \<Longrightarrow> \<exists>ib. m b = Some ib \<and> item_live s ib \<Longrightarrow> \<exists>ib. m' b = Some ib \<and> item_live s ib"
proof -
  assume c: "same_cores {a} m m'" "b \<noteq> a" and "\<exists>ib. m b = Some ib \<and> item_live s ib"
  then obtain ib where ib: "m b = Some ib" "item_live s ib" by blast
  have "b \<notin> {a}" using c(2) by simp
  from same_cores_at [OF c(1) this ib(1)] obtain ib' where "m' b = Some ib'" "item_core ib' = item_core ib" .
  then show ?thesis using ib(2) item_core_fields(19) [of ib' ib s] by blast
qed

lemma same_cores_akey: "same_cores {a} m m' \<Longrightarrow> b \<noteq> a \<Longrightarrow> akey m' b = akey m b"
proof -
  assume c: "same_cores {a} m m'" "b \<noteq> a"
  then have e: "map_option item_core (m' b) = map_option item_core (m b)" by (simp add: same_cores_def)
  have k: "key_of it = key_of (item_core it)" for it by (simp add: key_of_def item_core_def)
  show ?thesis
  proof (cases "m b")
    case None
    then show ?thesis using e by (simp add: akey_def)
  next
    case (Some it)
    then obtain it' where "m' b = Some it'" "item_core it' = item_core it" using e by auto
    then show ?thesis using Some k [of it] k [of it'] by (simp add: akey_def)
  qed
qed

lemma amap_insert:
  assumes "assoc_rep hash s ch" "assoc_rep hash s' ch'" "linked ch' = insert a (linked ch)" "a \<notin> linked ch"
    and "\<forall>b \<in> linked ch. akey (items s') b = akey (items s) b" "akey (items s') a = k"
  shows "amap hash s' = (amap hash s)(k \<mapsto> a)"
proof
  fix key
  have inj: "inj_on (akey (items s')) (insert a (linked ch))" using assms(2,3) by (simp add: assoc_rep_def)
  have "amap hash s' key = Some x \<longleftrightarrow> ((amap hash s)(k \<mapsto> a)) key = Some x" for x
  proof -
    have "amap hash s' key = Some x \<longleftrightarrow> x \<in> insert a (linked ch) \<and> akey (items s') x = key"
      using amap_Some [OF assms(2)] assms(3) by simp
    also have "\<dots> \<longleftrightarrow> (if key = k then x = a else x \<in> linked ch \<and> akey (items s) x = key)"
      using inj assms(4,5,6) by (auto simp: inj_on_def)
    also have "\<dots> \<longleftrightarrow> ((amap hash s)(k \<mapsto> a)) key = Some x" using amap_Some [OF assms(1)] by auto
    finally show ?thesis .
  qed
  then show "amap hash s' key = ((amap hash s)(k \<mapsto> a)) key" by (metis not_None_eq)
qed

lemma amap_remove:
  assumes "assoc_rep hash s ch" "assoc_rep hash s' ch'" "linked ch' = linked ch - {a}" "a \<in> linked ch"
    and "\<forall>b \<in> linked ch. akey (items s') b = akey (items s) b"
  shows "amap hash s' = (amap hash s)(akey (items s) a := None)"
proof
  fix key
  have inj: "inj_on (akey (items s)) (linked ch)" using assms(1) by (simp add: assoc_rep_def)
  have "amap hash s' key = Some x \<longleftrightarrow> ((amap hash s)(akey (items s) a := None)) key = Some x" for x
  proof -
    have "amap hash s' key = Some x \<longleftrightarrow> x \<in> linked ch - {a} \<and> akey (items s') x = key"
      using amap_Some [OF assms(2)] assms(3) by simp
    also have "\<dots> \<longleftrightarrow> key \<noteq> akey (items s) a \<and> x \<in> linked ch \<and> akey (items s) x = key"
      using inj assms(4,5) by (auto simp: inj_on_def)
    also have "\<dots> \<longleftrightarrow> ((amap hash s)(akey (items s) a := None)) key = Some x" using amap_Some [OF assms(1)] by auto
    finally show ?thesis .
  qed
  then show "amap hash s' key = ((amap hash s)(akey (items s) a := None)) key" by (metis not_None_eq)
qed

lemma same_but_links_view: "same_but_links m m' \<Longrightarrow> map_option hash_view (m' a) = map_option hash_view (m a)"
proof (cases "m a")
  case None
  assume "same_but_links m m'"
  then show ?thesis using None same_but_links_None [of m m' a] by simp
next
  case (Some it)
  assume "same_but_links m m'"
  from same_but_links_fields [OF this Some] show ?thesis using Some by (metis hash_view_def option.map(2))
qed

lemma akey_view: "map_option hash_view (m' a) = map_option hash_view (m a) \<Longrightarrow> akey m' a = akey m a"
  by (cases "m a"; cases "m' a") (auto simp: akey_def hash_view_def key_of_def)

lemma ITEM_ntotal_nat:
  assumes "size_fine it"
  shows "\<exists>n. ITEM_ntotal it = of_nat n \<and> 49 \<le> n \<and> n < 2147483648"
proof -
  define n where "n = 48 + unat (nkey it) + 1 + unat (nsuffix it) + nat (nbytes it) + (if it_flags it AND ITEM_CAS \<noteq> 0 then 8 else 0)"
  have "unat (nkey it) < 2 ^ 8" "unat (nsuffix it) < 2 ^ 8"
    using unsigned_less [of "nkey it"] unsigned_less [of "nsuffix it"] by simp_all
  moreover have "nat (nbytes it) < 1073741824" using assms by (simp add: size_fine_def nat_less_iff)
  ultimately have "n < 2147483648" by (simp add: n_def)
  moreover have "(of_nat (nat (nbytes it)) :: u64) = word_of_int (nbytes it)" using assms by (simp add: size_fine_def)
  moreover have "(of_nat (unat (nkey it)) :: u64) = ucast (nkey it)" "(of_nat (unat (nsuffix it)) :: u64) = ucast (nsuffix it)" by simp_all
  ultimately have "ITEM_ntotal it = of_nat n" by (simp add: ITEM_ntotal_def n_def)
  then show ?thesis using \<open>n < _\<close> by (intro exI [of _ n]) (simp add: n_def)
qed

lemma sizes_bucket_nonneg: "size_fine it \<Longrightarrow> 0 \<le> sizes_bucket it"
proof -
  assume "size_fine it"
  then obtain n where n: "ITEM_ntotal it = of_nat n" "n < 2147483648" using ITEM_ntotal_nat by blast
  then have "sint (ucast (ITEM_ntotal it) :: u32) = int n" by (simp add: ucast_of_nat64 sint_small)
  then show ?thesis by (simp add: sizes_bucket_def Let_def signed_divide_int_def signed_modulo_int_def)
qed

lemma item_stats_sizes_upd_ok:
  assumes "items s a = Some it" "size_fine it"
  shows "\<exists>h. item_stats_sizes_upd f a s = Some (s\<lparr>stats_sizes_hist := h\<rparr>)"
proof -
  have "item_stats_sizes_upd f a s = Some s \<or> (\<exists>h. item_stats_sizes_upd f a s = Some (s\<lparr>stats_sizes_hist := h\<rparr>))"
    using assms(1) sizes_bucket_nonneg [OF assms(2)] by (auto simp: item_stats_sizes_upd_def split: option.split)
  moreover have "s = s\<lparr>stats_sizes_hist := stats_sizes_hist s\<rparr>" by simp
  ultimately show ?thesis by metis
qed

text \<open>The item as \<open>do_item_link\<close> leaves it, up to its places in the lists, and the next CAS value.\<close>

definition linked_cas :: "item \<Rightarrow> 'a cache_mem_scheme \<Rightarrow> u64" where
  "linked_cas it s = (if it_flags it AND ITEM_CAS = 0 then it_cas it else if use_cas (settings s) then cas_id s + 1 else 0)"

definition linked_item :: "item \<Rightarrow> 'a cache_mem_scheme \<Rightarrow> item" where
  "linked_item it s = it\<lparr>it_flags := it_flags it OR ITEM_LINKED, it_time := current_time s, it_cas := linked_cas it s, refcount := refcount it + 1\<rparr>"

lemma do_item_link_ok:
  assumes ok: "store_ok hash s ch Q F" and it: "items s a = Some it" "key_ok it" "size_fine it" "class_valid s it"
    "it_flags it AND ITEM_LINKED = 0" "it_flags it AND ITEM_SLABBED = 0" "refcount it + 1 \<noteq> 0" and new: "amap hash s (key_of it) = None"
  shows "\<exists>s' ch'. do_item_link a (hash (key_of it)) s = Some s' \<and> store_ok hash s' ch' (Q(qid_of it := a # Q (qid_of it))) F \<and>
    amap hash s' = (amap hash s)(key_of it \<mapsto> a) \<and> linked ch' = insert a (linked ch) \<and> a \<notin> linked ch \<and>
    same_cores {a} (items s) (items s') \<and> map_option item_core (items s' a) = Some (item_core (linked_item it s)) \<and>
    settings s' = settings s \<and> slabclass s' = slabclass s \<and> power_largest s' = power_largest s \<and> current_time s' = current_time s \<and>
    cas_id s' = (if it_flags it AND ITEM_CAS \<noteq> 0 \<and> use_cas (settings s) then cas_id s + 1 else cas_id s) \<and>
    workers s' = workers s \<and> total_items s' = total_items s + 1"
proof -
  let ?hv = "hash (key_of it)" and ?q = "qid_of it"
  have S: "assoc_rep hash s ch" "lru_ok s Q" "lists_ok s F" "queued Q = linked ch"
    "\<forall>a \<in> linked ch. \<exists>it. items s a = Some it \<and> item_live s it"
    "curr_items s = of_nat (card (linked ch))" "curr_bytes s = (\<Sum>a \<in> linked ch. heap_ntotal (items s) a)" "finite (linked ch)"
    using ok by (simp_all add: store_ok_def assoc_rep_def)
  have nl: "a \<notin> linked ch" using S(5) it(1,5) by (auto simp: item_live_def)
  have nf: "a \<notin> freed F" using S(3) it(1,6) by (rule not_freed)
  text \<open>The assignments to the item before the insertion.\<close>
  define it4 where "it4 = it\<lparr>it_flags := it_flags it OR ITEM_LINKED, it_time := current_time s, it_cas := linked_cas it s\<rparr>"
  define cid' where "cid' = (if it_flags it AND ITEM_CAS \<noteq> 0 \<and> use_cas (settings s) then cas_id s + 1 else cas_id s)"
  define s4 where "s4 = s\<lparr>items := (items s)(a \<mapsto> it4), curr_bytes := curr_bytes s + ITEM_ntotal it,
    curr_items := curr_items s + 1, total_items := total_items s + 1, cas_id := cid'\<rparr>"
  have it4: "key_of it4 = key_of it" "key_ok it4" "qid_of it4 = ?q" "ITEM_ntotal it4 = ITEM_ntotal it" "size_fine it4"
    "it_flags it4 AND ITEM_SLABBED = 0" "it_flags it4 AND ITEM_LINKED \<noteq> 0" "class_valid s it4" "refcount it4 = refcount it"
    using it by (simp_all add: it4_def key_of_def key_ok_def qid_of_def ITEM_ntotal_def size_fine_def class_valid_def ITEM_clsid_def flag_facts)
  define it1 where "it1 = it\<lparr>it_flags := it_flags it OR ITEM_LINKED, it_time := current_time s\<rparr>"
  define s2 where "s2 = s\<lparr>items := (items s)(a \<mapsto> it1), curr_bytes := curr_bytes s + ITEM_ntotal it,
    curr_items := curr_items s + 1, total_items := total_items s + 1\<rparr>"
  define cas where "cas = (if it_flags it AND ITEM_CAS \<noteq> 0 \<and> use_cas (settings s) then cas_id s + 1 else 0)"
  have f1: "it_flags it1 AND ITEM_CAS = it_flags it AND ITEM_CAS" "ITEM_ntotal it1 = ITEM_ntotal it"
    by (simp_all add: it1_def flag_facts ITEM_ntotal_def)
  have set_cas: "ITEM_set_cas cas it1 = it4"
    using f1(1) by (simp add: ITEM_set_cas_def it1_def it4_def cas_def linked_cas_def)
  have e2: "(if it_flags it1 AND ITEM_CAS = 0 then (0, s2) else if use_cas (settings s2) then get_cas_id s2 else (0, s2)) = (cas, s2\<lparr>cas_id := cid'\<rparr>)"
    unfolding f1(1) by (simp add: cas_def cid'_def get_cas_id_def s2_def)
  have e3: "upd_item a (ITEM_set_cas cas) (s2\<lparr>cas_id := cid'\<rparr>) = Some s4"
    by (simp add: upd_item_def s2_def set_cas s4_def)
  let ?s1 = "s\<lparr>items := (items s)(a \<mapsto> it1)\<rparr>"
  have fc: "it_flags it AND (ITEM_LINKED OR ITEM_SLABBED) = 0"
    using it(5,6) unfolding ITEM_LINKED_def ITEM_SLABBED_def flags_clear by simp
  have u1: "upd_item a (\<lambda>it. it\<lparr>it_flags := it_flags it OR ITEM_LINKED, it_time := current_time s\<rparr>) s = Some ?s1" "items ?s1 a = Some it1"
    using it(1) by (simp_all add: upd_item_def it1_def)
  have es2: "?s1\<lparr>curr_bytes := curr_bytes ?s1 + ITEM_ntotal it1, curr_items := curr_items ?s1 + 1, total_items := total_items ?s1 + 1\<rparr> = s2"
    by (simp add: s2_def f1(2))
  have pre: "do_item_link a ?hv s = do { s5 \<leftarrow> assoc_insert a ?hv s4; s6 \<leftarrow> item_link_q a s5; s7 \<leftarrow> refcount_incr a s6; item_stats_sizes_add a s7 }"
    by (simp only: do_item_link_def it(1) Option.bind.simps assert_that_def fc if_True u1 Let_def es2 e2 prod.case e3 simp_thms)
  have t4: "same_table s s4" by (simp add: s4_def same_table_def)
  have i4: "items s4 b = items s b" if "b \<noteq> a" for b using that by (simp add: s4_def)
  have v4: "\<forall>b \<in> linked ch. map_option hash_view (items s4 b) = map_option hash_view (items s b)"
  proof
    fix b
    assume "b \<in> linked ch"
    then have "b \<noteq> a" using nl by auto
    then show "map_option hash_view (items s4 b) = map_option hash_view (items s b)" by (simp add: i4)
  qed
  have rep4: "assoc_rep hash s4 ch" by (rule assoc_rep_frame [OF S(1) t4 v4])
  have a4: "amap hash s4 = amap hash s" by (rule amap_frame [OF S(1) t4 v4])
  have "items s4 a = Some it4" by (simp add: s4_def)
  from assoc_insert_ok [OF rep4 this it4(2) nl] obtain s5 p where s5: "assoc_insert a ?hv s4 = Some s5"
    "assoc_rep hash s5 (ch(bucket_slot s4 ?hv := a # ch (bucket_slot s4 ?hv)))" "items s5 = (items s4)(a \<mapsto> it4\<lparr>h_next := p\<rparr>)"
    using new a4 it4(1) by auto
  let ?ch = "ch(bucket_slot s4 ?hv := a # ch (bucket_slot s4 ?hv))"
  have lk: "linked ?ch = insert a (linked ch)" by (rule linked_cons)
  obtain m5 ps qs n b where sh5: "s5 = s4\<lparr>items := m5, primary_hashtable := ps, old_hashtable := qs, hash_items := n, started_expanding := b\<rparr>"
    using assoc_insert_shape [OF s5(1)] by blast
  have i5: "items s5 b = items s b" if "b \<noteq> a" for b using that i4 s5(3) by simp
  have "\<forall>b \<in> queued Q. items s5 b = items s b" using i5 nl S(4) by metis
  then have lru5: "lru_ok s5 Q"
    by (intro lru_ok_cong [OF S(2)]) (simp_all add: sh5 s4_def)
  have "items s5 a = Some (it4\<lparr>h_next := p\<rparr>)" "a \<notin> queued Q" "it_flags (it4\<lparr>h_next := p\<rparr>) AND ITEM_SLABBED = 0"
    using s5(3) nl S(4) it4(6) by auto
  from do_item_link_q_ok [OF lru5 this] obtain s6 m6 hs ts ns bs where s6: "item_link_q a s5 = Some s6"
    "s6 = s5\<lparr>items := m6, heads := hs, tails := ts, lru_sizes := ns, sizes_bytes := bs\<rparr>"
    "lru_ok s6 (Q(?q := a # Q ?q))" "same_but_links (items s5) m6" "\<forall>b. b \<notin> insert a (queued Q) \<longrightarrow> m6 b = items s5 b"
    using it4(3) by (auto simp: item_link_q_def qid_of_def)
  obtain it6 where it6: "m6 a = Some it6" "item_core it6 = item_core it4"
  proof -
    have "same_cores {} (items s5) m6" by (rule same_but_links_cores [OF s6(4)])
    from same_cores_at [OF this _ \<open>items s5 a = _\<close>] show thesis using that by (auto simp: item_core_def)
  qed
  note f6 = item_core_fields [OF it6(2)]
  define s7 where "s7 = s6\<lparr>items := m6(a \<mapsto> it6\<lparr>refcount := refcount it6 + 1\<rparr>)\<rparr>"
  have s7: "refcount_incr a s6 = Some s7" using it6(1) by (simp add: refcount_incr_def upd_item_def s7_def s6(2))
  have "items s7 a = Some (it6\<lparr>refcount := refcount it6 + 1\<rparr>)" "size_fine (it6\<lparr>refcount := refcount it6 + 1\<rparr>)"
    using f6(17) it4(5) by (simp_all add: s7_def size_fine_def)
  from item_stats_sizes_upd_ok [OF this] obtain h where s8: "item_stats_sizes_add a s7 = Some (s7\<lparr>stats_sizes_hist := h\<rparr>)"
    by (auto simp: item_stats_sizes_add_def)
  let ?s' = "s7\<lparr>stats_sizes_hist := h\<rparr>"
  have run: "do_item_link a ?hv s = Some ?s'" by (simp add: pre s5(1) s6(1) s7 s8)
  text \<open>The invariant afterwards.\<close>
  have live: "\<exists>it'. items ?s' b = Some it' \<and> item_live s it'" if "b \<in> linked ?ch" for b
  proof (cases "b = a")
    case True
    have "0 < refcount it6 + 1" using it(7) it4(9) f6(6) by (metis word_gt_0)
    moreover have "size_fine it6" "class_valid s it6" "it_flags it6 AND ITEM_LINKED \<noteq> 0"
      using f6(3,17) f6(18) [of s] it4(5,7,8) by simp_all
    ultimately have "item_live s (it6\<lparr>refcount := refcount it6 + 1\<rparr>)"
      unfolding item_live_def size_fine_def class_valid_def ITEM_clsid_def by simp
    then show ?thesis using True by (simp add: s7_def)
  next
    case False
    then have "b \<in> linked ch" using that lk by simp
    then obtain ib where ib: "items s b = Some ib" "item_live s ib" using S(5) by blast
    have "same_cores {} (items s5) m6" by (rule same_but_links_cores [OF s6(4)])
    from same_cores_at [OF this, of b ib] obtain ib' where "m6 b = Some ib'" "item_core ib' = item_core ib" using i5 [OF False] ib(1) by auto
    then show ?thesis using False ib(2) item_core_fields(19) [of ib' ib s] by (simp add: s7_def)
  qed
  have q7: "lru_ok ?s' (Q(?q := a # Q ?q))"
  proof (rule lru_ok_cong [OF s6(3)])
    show "\<forall>b \<in> queued (Q(?q := a # Q ?q)). \<forall>it. items s6 b = Some it \<longrightarrow> (\<exists>it'. items ?s' b = Some it' \<and> same_q_item it it')"
      using it6(1) by (auto simp: s7_def s6(2) same_q_item_def qid_of_def ITEM_ntotal_def)
  qed (simp_all add: s7_def)
  have disj: "linked ch \<inter> freed F = {}" using store_disjoint [OF ok] .
  have keep: "items ?s' b = items s b" if "b \<in> freed F" for b
  proof -
    have "b \<noteq> a" "b \<notin> queued Q" using that nf disj S(4) by auto
    then show ?thesis using s6(5) i5 by (simp add: s7_def)
  qed
  have f': "lists_ok ?s' F"
    by (rule lists_ok_cong [OF S(3)]) (use keep in \<open>simp_all add: s7_def s6(2) sh5 s4_def\<close>)
  have v: "map_option hash_view (items ?s' b) = map_option hash_view (items s5 b)" for b
    using same_but_links_view [OF s6(4), of b] it6(1) by (auto simp: s7_def hash_view_def)
  have t5: "same_table s5 ?s'" by (simp add: same_table_def s7_def s6(2))
  have rep: "assoc_rep hash ?s' ?ch" by (rule assoc_rep_frame [OF s5(2) t5]) (rule ballI, rule v)
  have ka: "akey (items ?s') a = key_of it"
    using akey_view [of "items ?s'" a "items s5", OF v] s5(3) it4(1) by (simp add: akey_def)
  have kb: "akey (items ?s') b = akey (items s) b" if "b \<in> linked ch" for b
  proof -
    have "b \<noteq> a" using that nl by auto
    then have "items s5 b = items s b" by (rule i5)
    then show ?thesis using akey_view [of "items ?s'" b "items s5", OF v] by (simp add: akey_def)
  qed
  have am: "amap hash ?s' = (amap hash s)(key_of it \<mapsto> a)"
    by (rule amap_insert [OF S(1) rep lk nl _ ka]) (rule ballI, rule kb)
  have cores: "same_cores {a} (items s) (items ?s')"
  proof -
    have "same_cores {a} (items s) (items s5)" using i5 by (simp add: same_cores_def)
    moreover have "same_cores {a} (items s5) m6" by (rule same_but_links_cores [OF s6(4)])
    moreover have "same_cores {a} m6 (items ?s')" by (simp add: s7_def same_cores_upd)
    ultimately show ?thesis by (metis same_cores_trans)
  qed
  have core_a: "map_option item_core (items ?s' a) = Some (item_core (linked_item it s))"
  proof -
    have "item_core (it6\<lparr>refcount := refcount it6 + 1\<rparr>) = (item_core it6)\<lparr>refcount := refcount it6 + 1\<rparr>" by (simp add: item_core_def)
    also have "\<dots> = (item_core it4)\<lparr>refcount := refcount it + 1\<rparr>" unfolding it6(2) f6(6) it4(9) ..
    also have "\<dots> = item_core (linked_item it s)" by (simp add: item_core_def linked_item_def it4_def)
    finally show ?thesis by (simp add: s7_def)
  qed
  have nt: "heap_ntotal (items ?s') b = heap_ntotal (items s) b" if "b \<in> linked ch" for b
  proof -
    have "b \<noteq> a" using that nl by auto
    then show ?thesis using same_cores_ntotal [OF cores] by simp
  qed
  have nta: "heap_ntotal (items ?s') a = ITEM_ntotal it"
    using f6(2) it4(4) by (simp add: heap_ntotal_def s7_def ITEM_ntotal_def)
  have cnt: "curr_bytes ?s' = curr_bytes s + ITEM_ntotal it" "curr_items ?s' = curr_items s + 1" by (simp_all add: s7_def s6(2) sh5 s4_def)
  have "curr_bytes ?s' = (\<Sum>b \<in> linked ?ch. heap_ntotal (items ?s') b)"
  proof -
    have "(\<Sum>b \<in> insert a (linked ch). heap_ntotal (items ?s') b) = ITEM_ntotal it + (\<Sum>b \<in> linked ch. heap_ntotal (items ?s') b)"
      using S(8) nl nta by simp
    also have "(\<Sum>b \<in> linked ch. heap_ntotal (items ?s') b) = (\<Sum>b \<in> linked ch. heap_ntotal (items s) b)"
      by (intro sum.cong refl) (rule nt)
    finally show ?thesis unfolding lk cnt using S(7) by (simp only: add.commute)
  qed
  moreover have "curr_items ?s' = of_nat (card (linked ?ch))"
    unfolding lk cnt using S(6,8) nl by simp
  moreover have "queued (Q(?q := a # Q ?q)) = linked ?ch" unfolding lk S(4) [symmetric] by (auto simp: queued_def split: if_splits)
  moreover have "\<forall>b \<in> linked ?ch. \<exists>it. items ?s' b = Some it \<and> item_live ?s' it"
    using live item_live_cong [of ?s' s] by (simp add: s7_def s6(2) sh5 s4_def)
  ultimately have "store_ok hash ?s' ?ch (Q(?q := a # Q ?q)) F" using rep q7 f' unfolding store_ok_def by blast
  moreover have "settings ?s' = settings s" "slabclass ?s' = slabclass s" "power_largest ?s' = power_largest s" "current_time ?s' = current_time s"
    "cas_id ?s' = cid'" "workers ?s' = workers s" "total_items ?s' = total_items s + 1" by (simp_all add: s7_def s6(2) sh5 s4_def)
  ultimately show ?thesis using run am lk nl cores core_a unfolding cid'_def by blast
qed

section \<open>Unlinking\<close>

lemma same_q_h_next: "same_q_item it (it\<lparr>h_next := p\<rparr>)"
  by (simp add: same_q_item_def qid_of_def ITEM_ntotal_def)

lemma same_q_unlink: "same_q_item it (it\<lparr>it_flags := it_flags it AND NOT ITEM_LINKED, h_next := p\<rparr>)"
  by (simp add: same_q_item_def qid_of_def ITEM_ntotal_def and.assoc)

lemma remove_from_queue:
  assumes "lru_ok s Q" "a \<in> set (Q q)"
  shows "queued (Q(q := remove1 a (Q q))) = queued Q - {a}"
proof -
  obtain it where "items s a = Some it" "q < 256" using lru_ok_item [OF assms] .
  then have d: "distinct (Q q)" using assms(1) by (simp add: lru_ok_def queue_ok_def)
  have "a \<notin> set (Q r)" if "r \<noteq> q" for r using lru_ok_disjoint [OF assms] that by blast
  then show ?thesis using d by (auto simp: queued_def split: if_splits)
qed

text \<open>The state in which \<open>do_item_unlink\<close> calls \<open>do_item_remove\<close>.\<close>

lemma do_item_unlink_ok:
  assumes ok: "store_ok hash s ch Q F" and a: "a \<in> linked ch" and it: "items s a = Some it"
  shows "\<exists>s5 ch' it5. do_item_unlink a (hash (key_of it)) s = do_item_remove a s5 \<and>
    store_ok hash s5 ch' (Q(qid_of it := remove1 a (Q (qid_of it)))) F \<and> linked ch' = linked ch - {a} \<and>
    amap hash s5 = (amap hash s)(key_of it := None) \<and> same_cores {a} (items s) (items s5) \<and>
    items s5 a = Some it5 \<and> item_core it5 = item_core (it\<lparr>it_flags := it_flags it AND NOT ITEM_LINKED\<rparr>) \<and>
    settings s5 = settings s \<and> slabclass s5 = slabclass s \<and> power_largest s5 = power_largest s \<and> current_time s5 = current_time s \<and>
    cas_id s5 = cas_id s \<and> workers s5 = workers s \<and> total_items s5 = total_items s"
proof -
  let ?key = "key_of it" and ?q = "qid_of it" and ?it1 = "it\<lparr>it_flags := it_flags it AND NOT ITEM_LINKED\<rparr>"
  have S: "assoc_rep hash s ch" "lru_ok s Q" "lists_ok s F" "queued Q = linked ch"
    "\<forall>a \<in> linked ch. \<exists>it. items s a = Some it \<and> item_live s it"
    "curr_items s = of_nat (card (linked ch))" "curr_bytes s = (\<Sum>a \<in> linked ch. heap_ntotal (items s) a)" "finite (linked ch)"
    using ok by (simp_all add: store_ok_def assoc_rep_def)
  have live: "item_live s it" using S(5) a it by auto
  then have fl: "it_flags it AND ITEM_LINKED \<noteq> 0" "size_fine it" by (simp_all add: item_live_def)
  obtain q0 where "a \<in> set (Q q0)" using a S(4) by (auto simp: queued_def)
  with lru_ok_item [OF S(2) this] have inq: "a \<in> set (Q ?q)" and nsl: "it_flags it AND ITEM_SLABBED = 0" using it by auto
  text \<open>The assignments before the deletion from the table.\<close>
  define s2 where "s2 = s\<lparr>items := (items s)(a \<mapsto> ?it1), curr_bytes := curr_bytes s - ITEM_ntotal it, curr_items := curr_items s - 1\<rparr>"
  have "items s2 a = Some ?it1" "size_fine ?it1" using fl(2) by (simp_all add: s2_def size_fine_def)
  from item_stats_sizes_upd_ok [OF this] obtain h where h: "item_stats_sizes_remove a s2 = Some (s2\<lparr>stats_sizes_hist := h\<rparr>)"
    by (auto simp: item_stats_sizes_remove_def)
  define s3 where "s3 = s2\<lparr>stats_sizes_hist := h\<rparr>"
  let ?s1 = "s\<lparr>items := (items s)(a \<mapsto> ?it1)\<rparr>"
  have u1: "upd_item a (\<lambda>it. it\<lparr>it_flags := it_flags it AND NOT ITEM_LINKED\<rparr>) s = Some ?s1"
    using it by (simp add: upd_item_def)
  have es2: "?s1\<lparr>curr_bytes := curr_bytes ?s1 - ITEM_ntotal it, curr_items := curr_items ?s1 - 1\<rparr> = s2" by (simp add: s2_def)
  have pre: "do_item_unlink a (hash ?key) s = do { s4 \<leftarrow> assoc_delete ?key (hash ?key) s3; s5 \<leftarrow> item_unlink_q a s4; do_item_remove a s5 }"
    by (simp only: do_item_unlink_def it Option.bind.simps fl(1) if_True u1 Let_def es2 h s3_def [symmetric] simp_thms)
  have i3: "items s3 = (items s)(a \<mapsto> ?it1)" by (simp add: s3_def s2_def)
  have t3: "same_table s s3" by (simp add: s3_def s2_def same_table_def)
  have v3: "\<forall>b \<in> linked ch. map_option hash_view (items s3 b) = map_option hash_view (items s b)"
    using it by (simp add: i3 hash_view_def)
  have rep3: "assoc_rep hash s3 ch" by (rule assoc_rep_frame [OF S(1) t3 v3])
  have a3: "amap hash s3 = amap hash s" by (rule amap_frame [OF S(1) t3 v3])
  have "amap hash s3 ?key = Some a" unfolding a3 amap_Some [OF S(1)] using a it by (simp add: akey_def)
  from assoc_delete_ok [OF rep3 this] obtain s4 ch' where s4: "assoc_delete ?key (hash ?key) s3 = Some s4" "assoc_rep hash s4 ch'"
    "linked ch' = linked ch - {a}" "same_items (items s3) (items s4)" by blast
  obtain m4 ps qs n where sh4: "s4 = s3\<lparr>items := m4, primary_hashtable := ps, old_hashtable := qs, hash_items := n\<rparr>"
    using assoc_delete_shape [OF s4(1)] by blast
  have at4: "\<exists>p. items s4 b = Some (ib\<lparr>h_next := p\<rparr>)" if "items s3 b = Some ib" for b ib
    using same_items_at [OF s4(4) that] .
  have lru4: "lru_ok s4 Q"
  proof (rule lru_ok_cong [OF S(2)])
    show "\<forall>b \<in> queued Q. \<forall>ib. items s b = Some ib \<longrightarrow> (\<exists>it'. items s4 b = Some it' \<and> same_q_item ib it')"
    proof (intro ballI allI impI)
      fix b ib
      assume "items s b = Some ib"
      then have "items s3 b = Some (if b = a then ?it1 else ib)" using it by (simp add: i3)
      from at4 [OF this] obtain p where p: "items s4 b = Some ((if b = a then ?it1 else ib)\<lparr>h_next := p\<rparr>)" by blast
      have "same_q_item ib ((if b = a then ?it1 else ib)\<lparr>h_next := p\<rparr>)"
        using it \<open>items s b = Some ib\<close> same_q_unlink [of ib p] by (cases "b = a") (simp_all add: same_q_h_next)
      then show "\<exists>it'. items s4 b = Some it' \<and> same_q_item ib it'" using p by blast
    qed
  qed (simp_all add: sh4 s3_def s2_def)
  obtain p where it4: "items s4 a = Some (?it1\<lparr>h_next := p\<rparr>)" using at4 [of a ?it1] by (auto simp: i3)
  have q4: "qid_of (?it1\<lparr>h_next := p\<rparr>) = ?q" by (simp add: qid_of_def)
  obtain s5 m5 hs ts ns bs where s5: "do_item_unlink_q a s4 = Some s5"
    "s5 = s4\<lparr>items := m5, heads := hs, tails := ts, lru_sizes := ns, sizes_bytes := bs\<rparr>"
    "lru_ok s5 (Q(?q := remove1 a (Q ?q)))" "same_but_links (items s4) m5" "\<forall>b. b \<notin> queued Q \<longrightarrow> m5 b = items s4 b"
    using do_item_unlink_q_ok [OF lru4 it4] inq unfolding q4 by blast
  have run: "do_item_unlink a (hash ?key) s = do_item_remove a s5" by (simp add: pre s4(1) item_unlink_q_def s5(1))
  have cores: "same_cores {a} (items s) (items s5)"
  proof -
    have "same_cores {a} (items s) (items s3)" by (simp add: i3 same_cores_upd)
    moreover have "same_cores {a} (items s3) (items s4)" by (rule same_items_cores [OF s4(4)])
    moreover have "same_cores {a} (items s4) (items s5)" using same_but_links_cores [OF s5(4)] by (simp add: s5(2))
    ultimately show ?thesis by (metis same_cores_trans)
  qed
  obtain it5 where it5: "items s5 a = Some it5" "item_core it5 = item_core ?it1"
  proof -
    have "same_cores {} (items s4) (items s5)" using same_but_links_cores [OF s5(4)] by (simp add: s5(2))
    from same_cores_at [OF this _ it4] obtain it5 where "items s5 a = Some it5" "item_core it5 = item_core (?it1\<lparr>h_next := p\<rparr>)" by blast
    then show thesis using that by (simp add: item_core_def)
  qed
  have disj: "linked ch \<inter> freed F = {}" using store_disjoint [OF ok] .
  have keep: "map_option free_view (items s5 b) = map_option free_view (items s b)" if "b \<in> freed F" for b
  proof -
    have b: "b \<noteq> a" "b \<notin> queued Q" using that a disj S(4) by auto
    obtain ib where ib: "items s b = Some ib" using free_item [OF S(3) \<open>b \<in> freed F\<close>] .
    then obtain p where "items s4 b = Some (ib\<lparr>h_next := p\<rparr>)" using at4 [of b ib] b(1) by (auto simp: i3)
    then show ?thesis using s5(5) b(2) ib by (simp add: s5(2) free_view_def)
  qed
  have "lists_ok s5 F" using S(3) by (rule lists_ok_view) (use keep in \<open>simp_all add: s5(2) sh4 s3_def s2_def\<close>)
  moreover have "assoc_rep hash s5 ch'"
    by (rule assoc_rep_frame [OF s4(2)]) (simp_all add: s5(2) same_table_def same_but_links_view [OF s5(4)])
  moreover have "queued (Q(?q := remove1 a (Q ?q))) = linked ch'" using remove_from_queue [OF S(2) inq] S(4) s4(3) by simp
  moreover have "\<exists>ib. items s5 b = Some ib \<and> item_live s5 ib" if "b \<in> linked ch'" for b
    using that S(5) s4(3) same_cores_live [OF cores, of b s] item_live_cong [of s5 s] by (simp add: s5(2) sh4 s3_def s2_def)
  moreover have cnt: "curr_items s5 = curr_items s - 1" "curr_bytes s5 = curr_bytes s - ITEM_ntotal it" by (simp_all add: s5(2) sh4 s3_def s2_def)
  have card: "card (linked ch) = Suc (card (linked ch - {a}))" using S(8) a by (rule card.remove)
  then have "curr_items s5 = of_nat (card (linked ch'))" unfolding cnt s4(3) S(6) by simp
  moreover have "curr_bytes s5 = (\<Sum>b \<in> linked ch'. heap_ntotal (items s5) b)"
  proof -
    have "(\<Sum>b \<in> linked ch. heap_ntotal (items s) b) = ITEM_ntotal it + (\<Sum>b \<in> linked ch - {a}. heap_ntotal (items s) b)"
      using S(8) a it by (simp add: sum.remove heap_ntotal_def)
    moreover have "(\<Sum>b \<in> linked ch - {a}. heap_ntotal (items s5) b) = (\<Sum>b \<in> linked ch - {a}. heap_ntotal (items s) b)"
      by (intro sum.cong refl same_cores_ntotal [OF cores]) simp
    ultimately show ?thesis unfolding cnt s4(3) S(7) by simp
  qed
  ultimately have "store_ok hash s5 ch' (Q(?q := remove1 a (Q ?q))) F" using s5(3) unfolding store_ok_def by blast
  moreover have "amap hash s5 = (amap hash s)(?key := None)"
  proof -
    have "akey (items s5) b = akey (items s) b" if "b \<in> linked ch" for b
      using same_cores_akey [OF cores] it it5 item_core_fields(15) [OF it5(2)] by (cases "b = a") (simp_all add: akey_def key_of_def)
    then have "amap hash s5 = (amap hash s)(akey (items s) a := None)"
      by (intro amap_remove [OF S(1) \<open>assoc_rep hash s5 ch'\<close> s4(3) a]) blast
    then show ?thesis using it by (simp add: akey_def)
  qed
  moreover have "settings s5 = settings s" "slabclass s5 = slabclass s" "power_largest s5 = power_largest s" "current_time s5 = current_time s"
    "cas_id s5 = cas_id s" "workers s5 = workers s" "total_items s5 = total_items s" by (simp_all add: s5(2) sh4 s3_def s2_def)
  ultimately show ?thesis using run s4(3) cores it5 by blast
qed

end
