(* ===== verification/ItemIndex.thy ===== *)
theory ItemIndex
  imports ItemStore
begin

text \<open>
  The moves of items between the LRU queues keep the invariant of theory \<open>ItemStore\<close> and every
  lookup: taking an item out of its queue opens a gap, linking it again closes it.
\<close>

section \<open>Moves between queues\<close>

text \<open>The parts of a linked item that the store depends on, besides its queue.\<close>

definition same_keep :: "item \<Rightarrow> item \<Rightarrow> bool" where
  "same_keep it it' \<longleftrightarrow> hash_view it' = hash_view it \<and> ITEM_ntotal it' = ITEM_ntotal it \<and> ITEM_clsid it' = ITEM_clsid it \<and>
     it_flags it' AND ITEM_LINKED = it_flags it AND ITEM_LINKED \<and> it_flags it' AND ITEM_SLABBED = it_flags it AND ITEM_SLABBED \<and>
     it_flags it' AND ITEM_CHUNKED = it_flags it AND ITEM_CHUNKED \<and> refcount it' = refcount it \<and> nbytes it' = nbytes it \<and>
     it_data it' = it_data it \<and> it_suffix it' = it_suffix it \<and> exptime it' = exptime it \<and> it_cas it' = it_cas it \<and>
     nsuffix it' = nsuffix it"

lemma same_keep_refl [simp]: "same_keep it it"
  by (simp add: same_keep_def)

lemma same_keep_trans: "same_keep it it' \<Longrightarrow> same_keep it' it'' \<Longrightarrow> same_keep it it''"
  by (simp add: same_keep_def)

lemma same_keep_live: "same_keep it it' \<Longrightarrow> item_live s it' = item_live s it"
  by (simp add: same_keep_def item_live_def size_fine_def class_valid_def)

lemma same_keep_links [simp]: "same_keep it (it\<lparr>it_next := n, it_prev := p\<rparr>)"
  by (simp add: same_keep_def hash_view_def ITEM_ntotal_def ITEM_clsid_def)

definition kept :: "item_heap \<Rightarrow> item_heap \<Rightarrow> bool" where
  "kept m m' \<longleftrightarrow> (\<forall>a it. m a = Some it \<longrightarrow> (\<exists>it'. m' a = Some it' \<and> same_keep it it')) \<and> (\<forall>a. m a = None \<longrightarrow> m' a = None)"

lemma kept_refl [simp]: "kept m m"
  by (simp add: kept_def)

lemma kept_at: "kept m m' \<Longrightarrow> m a = Some it \<Longrightarrow> \<exists>it'. m' a = Some it' \<and> same_keep it it'"
  by (simp add: kept_def)

lemma kept_None: "kept m m' \<Longrightarrow> m a = None \<Longrightarrow> m' a = None"
  by (simp add: kept_def)

lemma kept_trans: "kept m m' \<Longrightarrow> kept m' m'' \<Longrightarrow> kept m m''"
  unfolding kept_def by (metis same_keep_trans)

lemma kept_links:
  assumes l: "same_but_links m m'"
  shows "kept m m'"
  unfolding kept_def
proof (intro conjI allI impI)
  fix a it assume "m a = Some it"
  then obtain n p where "m' a = Some (it\<lparr>it_next := n, it_prev := p\<rparr>)" using same_but_links_at [OF l] by blast
  then show "\<exists>it'. m' a = Some it' \<and> same_keep it it'" by simp
next
  fix a assume "m a = None"
  then show "m' a = None" using same_but_links_None [OF l] by simp
qed

lemma kept_upd: "m a = Some it \<Longrightarrow> same_keep it it' \<Longrightarrow> kept m (m(a \<mapsto> it'))"
  by (simp add: kept_def)

text \<open>The state without the queues, and the part of the invariant that does not speak of them.\<close>

definition requeued :: "'a cache_mem_scheme \<Rightarrow> 'a cache_mem_scheme \<Rightarrow> bool" where
  "requeued s s' \<longleftrightarrow> (\<exists>m hs ts ns bs st. s' = s\<lparr>items := m, heads := hs, tails := ts, lru_sizes := ns, sizes_bytes := bs, itemstats := st\<rparr>)"

lemma requeued_trans: "requeued s s' \<Longrightarrow> requeued s' s'' \<Longrightarrow> requeued s s''"
  unfolding requeued_def by (elim exE, intro exI) simp

lemma requeued_queues: "requeued s (s\<lparr>items := m, heads := hs, tails := ts, lru_sizes := ns, sizes_bytes := bs\<rparr>)"
  unfolding requeued_def
  by (intro exI [of _ m] exI [of _ hs] exI [of _ ts] exI [of _ ns] exI [of _ bs] exI [of _ "itemstats s"]) simp

lemma requeued_items: "requeued s (s\<lparr>items := m\<rparr>)"
  using requeued_queues [where s = s and m = m and hs = "heads s" and ts = "tails s" and ns = "lru_sizes s" and bs = "sizes_bytes s"] by simp

lemma requeued_stats: "requeued s (upd_stats q f s)"
  unfolding requeued_def upd_stats_def
  by (rule exI [of _ "items s"], rule exI [of _ "heads s"], rule exI [of _ "tails s"], rule exI [of _ "lru_sizes s"],
    rule exI [of _ "sizes_bytes s"], rule exI [of _ "(itemstats s)[q := f (itemstats s ! q)]"]) simp

lemma requeued_refl [simp]: "requeued s s"
  using requeued_items [of s "items s"] by simp

lemma requeued_fields:
  assumes "requeued s s'"
  shows "settings s' = settings s" "workers s' = workers s" "current_time s' = current_time s" "slabclass s' = slabclass s"
    "power_largest s' = power_largest s" "cas_id s' = cas_id s" "total_items s' = total_items s"
    "curr_items s' = curr_items s" "curr_bytes s' = curr_bytes s" "same_table s s'"
  using assms by (auto simp: requeued_def same_table_def)

definition store_base ::
  "(byte list \<Rightarrow> u32) \<Rightarrow> 'a cache_mem_scheme \<Rightarrow> (slot \<Rightarrow> nat list) \<Rightarrow> (nat \<Rightarrow> nat list) \<Rightarrow> bool" where
  "store_base hash s ch F \<longleftrightarrow> assoc_rep hash s ch \<and> lists_ok s F \<and>
     (\<forall>a \<in> linked ch. \<exists>it. items s a = Some it \<and> item_live s it) \<and>
     curr_items s = of_nat (card (linked ch)) \<and> curr_bytes s = (\<Sum>a \<in> linked ch. heap_ntotal (items s) a)"

lemma store_ok_base: "store_ok hash s ch Q F \<longleftrightarrow> store_base hash s ch F \<and> lru_ok s Q \<and> queued Q = linked ch"
  by (auto simp: store_ok_def store_base_def)

definition store_gap ::
  "(byte list \<Rightarrow> u32) \<Rightarrow> 'a cache_mem_scheme \<Rightarrow> (slot \<Rightarrow> nat list) \<Rightarrow> (nat \<Rightarrow> nat list) \<Rightarrow> (nat \<Rightarrow> nat list) \<Rightarrow> nat \<Rightarrow> bool" where
  "store_gap hash s ch Q F a \<longleftrightarrow> store_base hash s ch F \<and> lru_ok s Q \<and> queued Q = linked ch - {a} \<and> a \<in> linked ch"

lemma base_not_freed: "store_base hash s ch F \<Longrightarrow> a \<in> linked ch \<Longrightarrow> items s a = Some it \<Longrightarrow> it_flags it AND ITEM_SLABBED = 0 \<Longrightarrow> a \<notin> freed F"
  by (auto simp: store_base_def dest: not_freed)

lemma base_disjoint:
  assumes "store_base hash s ch F"
  shows "linked ch \<inter> freed F = {}"
proof -
  have "a \<notin> freed F" if "a \<in> linked ch" for a
  proof
    assume "a \<in> freed F"
    then obtain it where it: "items s a = Some it" "it_flags it = ITEM_SLABBED" using assms free_item by (metis store_base_def)
    have "\<exists>it. items s a = Some it \<and> item_live s it" using assms that by (simp add: store_base_def)
    then obtain it' where "items s a = Some it'" "item_live s it'" by blast
    then show False using it by (simp add: item_live_def)
  qed
  then show ?thesis by blast
qed

lemma store_base_frame:
  assumes ok: "store_base hash s ch F" and r: "requeued s s'" and k: "kept (items s) (items s')"
    and f: "\<forall>a \<in> freed F. items s' a = items s a"
  shows "store_base hash s' ch F" "amap hash s' = amap hash s"
proof -
  note R = requeued_fields [OF r]
  have S: "assoc_rep hash s ch" "lists_ok s F" "\<forall>a \<in> linked ch. \<exists>it. items s a = Some it \<and> item_live s it"
    "curr_items s = of_nat (card (linked ch))" "curr_bytes s = (\<Sum>a \<in> linked ch. heap_ntotal (items s) a)"
    using ok by (simp_all add: store_base_def)
  have at: "\<exists>it it'. items s a = Some it \<and> item_live s it \<and> items s' a = Some it' \<and> same_keep it it'" if "a \<in> linked ch" for a
    using S(3) k that unfolding kept_def by blast
  have v: "\<forall>a \<in> linked ch. map_option hash_view (items s' a) = map_option hash_view (items s a)"
    using at by (fastforce simp: same_keep_def)
  show "amap hash s' = amap hash s" by (rule amap_frame [OF S(1) R(10) v])
  have "lists_ok s' F" by (rule lists_ok_cong [OF S(2) R(4) f])
  moreover have "\<exists>it. items s' a = Some it \<and> item_live s' it" if "a \<in> linked ch" for a
    using at [OF that] same_keep_live item_live_cong [OF R(4,5)] by blast
  moreover have "heap_ntotal (items s') a = heap_ntotal (items s) a" if "a \<in> linked ch" for a
    using at [OF that] by (auto simp: heap_ntotal_def same_keep_def)
  then have "(\<Sum>a \<in> linked ch. heap_ntotal (items s') a) = (\<Sum>a \<in> linked ch. heap_ntotal (items s) a)" by (intro sum.cong) simp_all
  ultimately show "store_base hash s' ch F"
    using assoc_rep_frame [OF S(1) R(10) v] S(4,5) R(8,9) by (simp add: store_base_def)
qed

lemma linked_in_queue:
  assumes "store_ok hash s ch Q F" "a \<in> linked ch" "items s a = Some it"
  shows "a \<in> set (Q (qid_of it))" "it_flags it AND ITEM_SLABBED = 0" "it_flags it AND ITEM_LINKED \<noteq> 0" "size_fine it" "class_valid s it" "0 < refcount it"
proof -
  have S: "lru_ok s Q" "queued Q = linked ch" using assms(1) by (simp_all add: store_ok_def)
  obtain q0 where "a \<in> set (Q q0)" using assms(2) S(2) by (auto simp: queued_def)
  with lru_ok_item [OF S(1) this] show "a \<in> set (Q (qid_of it))" "it_flags it AND ITEM_SLABBED = 0" using assms(3) by auto
  have "item_live s it" using assms by (auto simp: store_ok_def)
  then show "it_flags it AND ITEM_LINKED \<noteq> 0" "size_fine it" "class_valid s it" "0 < refcount it" by (simp_all add: item_live_def)
qed

lemma unlink_gap:
  assumes ok: "store_ok hash s ch Q F" and a: "a \<in> linked ch" and it: "items s a = Some it"
  shows "\<exists>s' n p. do_item_unlink_q a s = Some s' \<and> requeued s s' \<and>
    store_gap hash s' ch (Q(qid_of it := remove1 a (Q (qid_of it)))) F a \<and> amap hash s' = amap hash s \<and>
    items s' a = Some (it\<lparr>it_next := n, it_prev := p\<rparr>) \<and> kept (items s) (items s') \<and> same_cores {} (items s) (items s')"
proof -
  let ?Q = "Q(qid_of it := remove1 a (Q (qid_of it)))"
  have S: "store_base hash s ch F" "lru_ok s Q" "queued Q = linked ch" using ok by (simp_all add: store_ok_base)
  note inq = linked_in_queue(1) [OF ok a it]
  obtain s' m hs ts ns bs where s': "do_item_unlink_q a s = Some s'"
    "s' = s\<lparr>items := m, heads := hs, tails := ts, lru_sizes := ns, sizes_bytes := bs\<rparr>"
    "lru_ok s' ?Q" "same_but_links (items s) m" "\<forall>b. b \<notin> queued Q \<longrightarrow> m b = items s b"
    using do_item_unlink_q_ok [OF S(2) it inq] by blast
  have r: "requeued s s'" unfolding s'(2) by (rule requeued_queues)
  have k: "kept (items s) (items s')" using kept_links [OF s'(4)] by (simp add: s'(2))
  have "\<forall>b \<in> freed F. items s' b = items s b" using s'(5) base_disjoint [OF S(1)] S(3) by (auto simp: s'(2))
  note b = store_base_frame [OF S(1) r k this]
  have "queued ?Q = linked ch - {a}" using remove_from_queue [OF S(2) inq] S(3) by simp
  then have "store_gap hash s' ch ?Q F a" using b(1) s'(3) a by (simp add: store_gap_def)
  moreover obtain n p where "items s' a = Some (it\<lparr>it_next := n, it_prev := p\<rparr>)"
    using same_but_links_at [OF s'(4) it] by (auto simp: s'(2))
  moreover have "same_cores {} (items s) (items s')" using same_but_links_cores [OF s'(4)] by (simp add: s'(2))
  ultimately show ?thesis using s'(1) r b(2) k by blast
qed

lemma upd_gap:
  assumes gap: "store_gap hash s ch Q F a" and it: "items s a = Some it" and g: "same_keep it it'" "it_flags it AND ITEM_SLABBED = 0"
  shows "store_gap hash (s\<lparr>items := (items s)(a \<mapsto> it')\<rparr>) ch Q F a" "amap hash (s\<lparr>items := (items s)(a \<mapsto> it')\<rparr>) = amap hash s"
proof -
  let ?s' = "s\<lparr>items := (items s)(a \<mapsto> it')\<rparr>"
  have S: "store_base hash s ch F" "lru_ok s Q" "queued Q = linked ch - {a}" "a \<in> linked ch" using gap by (simp_all add: store_gap_def)
  have "a \<notin> freed F" using base_not_freed [OF S(1,4) it g(2)] .
  then have "\<forall>b \<in> freed F. items ?s' b = items s b" by auto
  moreover have "kept (items s) (items ?s')" using kept_upd [of "items s", OF it g(1)] by simp
  ultimately have b: "store_base hash ?s' ch F" "amap hash ?s' = amap hash s"
    using store_base_frame [OF S(1) requeued_items] by blast+
  then show "amap hash ?s' = amap hash s" by simp
  have "lru_ok ?s' Q" by (rule lru_ok_cong [OF S(2)]) (use S(3) in auto)
  then show "store_gap hash ?s' ch Q F a" using b S by (simp add: store_gap_def)
qed

lemma link_gap:
  assumes gap: "store_gap hash s ch Q F a" and it: "items s a = Some it" "it_flags it AND ITEM_SLABBED = 0"
  shows "\<exists>s' n p. do_item_link_q a s = Some s' \<and> requeued s s' \<and>
    store_ok hash s' ch (Q(qid_of it := a # Q (qid_of it))) F \<and> amap hash s' = amap hash s \<and>
    items s' a = Some (it\<lparr>it_next := n, it_prev := p\<rparr>) \<and> kept (items s) (items s') \<and> same_cores {} (items s) (items s')"
proof -
  let ?Q = "Q(qid_of it := a # Q (qid_of it))"
  have S: "store_base hash s ch F" "lru_ok s Q" "queued Q = linked ch - {a}" "a \<in> linked ch" using gap by (simp_all add: store_gap_def)
  have "a \<notin> queued Q" using S(3) by simp
  from do_item_link_q_ok [OF S(2) it(1) this it(2)] obtain s' m hs ts ns bs where s': "do_item_link_q a s = Some s'"
    "s' = s\<lparr>items := m, heads := hs, tails := ts, lru_sizes := ns, sizes_bytes := bs\<rparr>"
    "lru_ok s' ?Q" "same_but_links (items s) m" "\<forall>b. b \<notin> insert a (queued Q) \<longrightarrow> m b = items s b" by blast
  have r: "requeued s s'" unfolding s'(2) by (rule requeued_queues)
  have k: "kept (items s) (items s')" using kept_links [OF s'(4)] by (simp add: s'(2))
  have "\<forall>b \<in> freed F. items s' b = items s b" using s'(5) base_disjoint [OF S(1)] S(3,4) by (auto simp: s'(2))
  note b = store_base_frame [OF S(1) r k this]
  have "queued ?Q = insert a (queued Q)" by (auto simp: queued_def split: if_splits)
  then have "queued ?Q = linked ch" using S(3,4) by auto
  then have "store_ok hash s' ch ?Q F" using b(1) s'(3) by (simp add: store_ok_base)
  moreover obtain n p where "items s' a = Some (it\<lparr>it_next := n, it_prev := p\<rparr>)"
    using same_but_links_at [OF s'(4) it(1)] by (auto simp: s'(2))
  moreover have "same_cores {} (items s) (items s')" using same_but_links_cores [OF s'(4)] by (simp add: s'(2))
  ultimately show ?thesis using s'(1) r b(2) k by blast
qed


section \<open>Updates of linked items\<close>

text \<open>
  What an update of the queues guarantees: the invariant with the same chains and free lists, the
  same lookups, and every item with its key, size, class, flags of membership and references.
\<close>

definition store_moved ::
  "(byte list \<Rightarrow> u32) \<Rightarrow> (slot \<Rightarrow> nat list) \<Rightarrow> (nat \<Rightarrow> nat list) \<Rightarrow> 'a cache_mem_scheme \<Rightarrow> 'a cache_mem_scheme \<Rightarrow> bool" where
  "store_moved hash ch F s s' \<longleftrightarrow> (\<exists>Q. store_ok hash s' ch Q F) \<and> amap hash s' = amap hash s \<and> requeued s s' \<and> kept (items s) (items s')"

lemma store_moved_trans: "store_moved hash ch F s s' \<Longrightarrow> store_moved hash ch F s' s'' \<Longrightarrow> store_moved hash ch F s s''"
  unfolding store_moved_def by (metis requeued_trans kept_trans)

lemma store_moved_refl: "store_ok hash s ch Q F \<Longrightarrow> store_moved hash ch F s s"
  by (auto simp: store_moved_def)

lemma store_moved_stats:
  assumes ok: "store_ok hash s ch Q F"
  shows "store_ok hash (upd_stats q f s) ch Q F" "amap hash (upd_stats q f s) = amap hash s"
  using store_ok_frame [OF ok, of "upd_stats q f s"] by (simp_all add: upd_stats_def same_table_def same_lru_def)

lemma upd_linked:
  assumes ok: "store_ok hash s ch Q F" and it: "items s a = Some it" and g: "same_keep it it'" "same_q_item it it'"
    and f: "it_flags it AND ITEM_SLABBED = 0"
  shows "store_ok hash (s\<lparr>items := (items s)(a \<mapsto> it')\<rparr>) ch Q F" "amap hash (s\<lparr>items := (items s)(a \<mapsto> it')\<rparr>) = amap hash s"
    "kept (items s) ((items s)(a \<mapsto> it'))"
proof -
  let ?s' = "s\<lparr>items := (items s)(a \<mapsto> it')\<rparr>"
  show "kept (items s) ((items s)(a \<mapsto> it'))" using kept_upd [of "items s", OF it g(1)] .
  have "a \<notin> freed F" using ok it f by (intro not_freed) (simp_all add: store_ok_def)
  then have "\<forall>b \<in> freed F. items ?s' b = items s b" by auto
  moreover have "same_core it it'" using g f by (simp add: same_core_def same_keep_def)
  then have "\<exists>it'. items ?s' b = Some it' \<and> same_core ib it'" if "items s b = Some ib" for b ib
    using that it by auto
  moreover have "same_table s ?s'" "same_lru s ?s'" by (simp_all add: same_table_def same_lru_def)
  ultimately show "store_ok hash ?s' ch Q F" "amap hash ?s' = amap hash s" using store_ok_frame [OF ok] by blast+
qed

text \<open>Out of the queue, a change, and into the queue that the class now says.\<close>

lemma requeue_item:
  assumes ok: "store_ok hash s ch Q F" and a: "a \<in> linked ch" and it: "items s a = Some it"
    and g: "\<And>n p. same_keep it (g (it\<lparr>it_next := n, it_prev := p\<rparr>))"
  shows "\<exists>s1 s2 s3. do_item_unlink_q a s = Some s1 \<and> upd_item a g s1 = Some s2 \<and> do_item_link_q a s2 = Some s3 \<and>
    requeued s s1 \<and> store_moved hash ch F s s3 \<and> same_cores {a} (items s) (items s3)"
proof -
  obtain s1 n p where s1: "do_item_unlink_q a s = Some s1" "requeued s s1"
    "store_gap hash s1 ch (Q(qid_of it := remove1 a (Q (qid_of it)))) F a" "amap hash s1 = amap hash s"
    "items s1 a = Some (it\<lparr>it_next := n, it_prev := p\<rparr>)" "kept (items s) (items s1)" "same_cores {} (items s) (items s1)"
    using unlink_gap [OF ok a it] by blast
  let ?it1 = "it\<lparr>it_next := n, it_prev := p\<rparr>"
  let ?s2 = "s1\<lparr>items := (items s1)(a \<mapsto> g ?it1)\<rparr>"
  have f: "it_flags it AND ITEM_SLABBED = 0" using linked_in_queue [OF ok a it] by simp
  have k: "same_keep ?it1 (g ?it1)" using g [where n = n and p = p] same_keep_links [where n = n and p = p and it = it] by (simp add: same_keep_def)
  have u: "upd_item a g s1 = Some ?s2" using s1(5) by (simp add: upd_item_def)
  note g2 = upd_gap [OF s1(3,5) k, simplified, OF f [simplified]]
  have "it_flags (g ?it1) AND ITEM_SLABBED = 0" using g [where n = n and p = p] f by (simp add: same_keep_def)
  from link_gap [OF g2(1) _ this] obtain s3 Q' where s3: "do_item_link_q a ?s2 = Some s3" "requeued ?s2 s3"
    "store_ok hash s3 ch Q' F" "amap hash s3 = amap hash ?s2" "kept (items ?s2) (items s3)" "same_cores {} (items ?s2) (items s3)" by auto
  have "same_cores {a} (items s) (items s3)"
    using same_cores_mono [OF s1(7), of "{a}"] same_cores_upd [of a "{a}" "items s1" "Some (g ?it1)"] same_cores_mono [OF s3(6), of "{a}"]
    by (auto intro: same_cores_trans)
  moreover have "kept (items s1) (items ?s2)" using kept_upd [of "items s1", OF s1(5) k] by simp
  then have "store_moved hash ch F s s3"
    unfolding store_moved_def using s1(2,4,6) g2(2) s3(2-5) requeued_items requeued_trans kept_trans by metis
  ultimately show ?thesis using s1(1,2) u s3(1) by blast
qed

lemma do_item_update_nolock_ok:
  assumes ok: "store_ok hash s ch Q F" and a: "a \<in> linked ch" and it: "items s a = Some it"
  shows "\<exists>s'. do_item_update_nolock a s = Some s' \<and> store_moved hash ch F s s' \<and> same_cores {a} (items s) (items s')"
proof (cases "bump_due it s")
  case False
  then show ?thesis using it store_moved_refl [OF ok] by (simp add: do_item_update_nolock_def)
next
  case True
  have "same_keep it ((\<lambda>it. it\<lparr>it_time := current_time s\<rparr>) (it\<lparr>it_next := n, it_prev := p\<rparr>))" for n p
    by (simp add: same_keep_def hash_view_def ITEM_ntotal_def ITEM_clsid_def)
  from requeue_item [OF ok a it, of "\<lambda>it. it\<lparr>it_time := current_time s\<rparr>", OF this] obtain s1 s2 s3 where
    s: "do_item_unlink_q a s = Some s1" "upd_item a (\<lambda>it. it\<lparr>it_time := current_time s\<rparr>) s1 = Some s2" "do_item_link_q a s2 = Some s3"
      "requeued s s1" "store_moved hash ch F s s3" "same_cores {a} (items s) (items s3)" by blast
  then show ?thesis
    using True it linked_in_queue [OF ok a it] requeued_fields(3) [OF s(4)]
    by (simp add: do_item_update_nolock_def assert_that_def)
qed

lemma warm_clsid: "((c :: u8) AND - 193 OR 64) AND - 193 = c AND - 193"
  by (simp add: bit.conj_disj_distrib2 and.assoc)

lemma do_item_update_ok:
  assumes ok: "store_ok hash s ch Q F" and a: "a \<in> linked ch" and it: "items s a = Some it"
  shows "\<exists>s'. do_item_update a s = Some s' \<and> store_moved hash ch F s s' \<and> same_cores {a} (items s) (items s')"
proof -
  note L = linked_in_queue [OF ok a it]
  let ?it1 = "it\<lparr>it_time := current_time s\<rparr>" and ?s1 = "s\<lparr>items := (items s)(a \<mapsto> it\<lparr>it_time := current_time s\<rparr>)\<rparr>"
  have u1: "upd_item a (\<lambda>it. it\<lparr>it_time := current_time s\<rparr>) s = Some ?s1" using it by (simp add: upd_item_def)
  have k1: "same_keep it ?it1" "same_q_item it ?it1"
    by (simp_all add: same_keep_def same_q_item_def hash_view_def ITEM_ntotal_def ITEM_clsid_def qid_of_def)
  note o1 = upd_linked [OF ok it k1 L(2)]
  have m1: "store_moved hash ch F s ?s1" using o1 requeued_items by (auto simp: store_moved_def)
  have it1: "items ?s1 a = Some ?it1" by simp
  have c1: "same_cores {a} (items s) (items ?s1)" using same_cores_upd [of a "{a}" "items s" "Some ?it1"] by simp
  let ?g = "\<lambda>it. it\<lparr>slabs_clsid := ITEM_clsid it OR WARM_LRU, it_flags := it_flags it AND NOT ITEM_ACTIVE\<rparr>"
  have "same_keep ?it1 (?g (?it1\<lparr>it_next := n, it_prev := p\<rparr>))" for n p
    by (simp add: same_keep_def hash_view_def ITEM_ntotal_def ITEM_clsid_def warm_clsid and.assoc)
  from requeue_item [OF o1(1) a it1, of ?g, OF this] obtain s2 s3 s4 where
    w: "do_item_unlink_q a ?s1 = Some s2" "upd_item a ?g s2 = Some s3" "do_item_link_q a s3 = Some s4"
      "store_moved hash ch F ?s1 s4" "same_cores {a} (items ?s1) (items s4)" by blast
  have id: "\<And>n p. same_keep ?it1 ((\<lambda>it. it) (?it1\<lparr>it_next := n, it_prev := p\<rparr>))" by simp
  from requeue_item [OF o1(1) a it1, of "\<lambda>it. it", OF id] obtain r2 r3 r4 where
    r: "do_item_unlink_q a ?s1 = Some r2" "upd_item a (\<lambda>it. it) r2 = Some r3" "do_item_link_q a r3 = Some r4"
      "store_moved hash ch F ?s1 r4" "same_cores {a} (items ?s1) (items r4)" by blast
  have r3: "r3 = r2" using r(2) by (auto simp: upd_item_def fun_upd_idem split: bind_splits)
  obtain Q4 it4 where s4: "store_ok hash s4 ch Q4 F" "items s4 a = Some it4"
    using w(4) it1 unfolding store_moved_def kept_def by blast
  let ?s5 = "upd_stats (qid_of it4) (\<lambda>t. t\<lparr>moves_to_warm := moves_to_warm t + 1\<rparr>) s4"
  have "store_moved hash ch F s4 ?s5"
    using store_moved_stats [OF s4(1)] requeued_stats by (auto simp: store_moved_def upd_stats_def)
  then have m5: "store_moved hash ch F s ?s5" using store_moved_trans m1 w(4) by blast
  have c5: "same_cores {a} (items s) (items ?s5)" "same_cores {a} (items s) (items r4)"
    using same_cores_trans [OF c1 w(5)] same_cores_trans [OF c1 r(5)] by (simp_all add: upd_stats_def)
  have warm: "do_item_update a s = Some ?s5"
    if "lru_segmented (settings s)" "ITEM_lruid it = COLD_LRU" "it_flags it AND ITEM_ACTIVE \<noteq> 0"
    using that it L u1 w(1-3) s4(2) by (simp add: do_item_update_def assert_that_def item_unlink_q_def item_link_q_warm_def)
  have flat: "do_item_update a s = Some r4" if "\<not> lru_segmented (settings s)" "bump_due it s"
    using that it L u1 r(1,3) r3 by (simp add: do_item_update_def assert_that_def item_unlink_q_def item_link_q_def)
  have rest: "do_item_update a s = Some (if lru_segmented (settings s) \<and> bump_due it s then ?s1 else s)"
    if "\<not> (lru_segmented (settings s) \<and> ITEM_lruid it = COLD_LRU \<and> it_flags it AND ITEM_ACTIVE \<noteq> 0)" 
      "lru_segmented (settings s) \<or> \<not> bump_due it s"
    using that it L u1 by (auto simp: do_item_update_def assert_that_def)
  have m4: "store_moved hash ch F s r4" using store_moved_trans m1 r(4) by blast
  consider "lru_segmented (settings s)" "ITEM_lruid it = COLD_LRU" "it_flags it AND ITEM_ACTIVE \<noteq> 0"
    | "\<not> lru_segmented (settings s)" "bump_due it s"
    | "\<not> (lru_segmented (settings s) \<and> ITEM_lruid it = COLD_LRU \<and> it_flags it AND ITEM_ACTIVE \<noteq> 0)"
      "lru_segmented (settings s) \<or> \<not> bump_due it s" by blast
  then show ?thesis
  proof cases
    case 1
    then show ?thesis using warm m5 c5(1) by blast
  next
    case 2
    then show ?thesis using flat m4 c5(2) by blast
  next
    case 3
    then show ?thesis using rest m1 c1 store_moved_refl [OF ok] by (cases "lru_segmented (settings s) \<and> bump_due it s") simp_all
  qed
qed

end
