(* ===== verification/StoreMap.thy ===== *)
theory StoreMap
  imports ItemIndex
begin

text \<open>
  The store as a map from keys to items: linking and unlinking items, with updates of the LRU
  queues, ticks of the clock and growth of the hash table in between, satisfy the contract
  \<open>growing_index\<close> of theory \<open>Assoc\<close>.
\<close>

section \<open>Growth of the table\<close>

lemma write_slot_more: "write_slot sl p s = Some s' \<Longrightarrow> assoc.more s' = assoc.more s"
  by (cases sl) (auto split: if_splits bind_splits)

lemma push_item_more: "push_item sl a s = Some s' \<Longrightarrow> assoc.more s' = assoc.more s"
  unfolding push_item_def
  by (auto split: bind_splits simp del: write_slot.simps read_slot.simps dest!: write_slot_more)

lemma migrate_chain_more: "migrate_chain hash p s = Some s' \<Longrightarrow> assoc.more s' = assoc.more s"
proof (erule migrate_chain.raw_induct [where P = "\<lambda>hash p s s'. assoc.more s' = assoc.more s", rotated])
  fix run :: "(byte list \<Rightarrow> u32) \<Rightarrow> nat option \<Rightarrow> 'a assoc_scheme \<Rightarrow> 'a assoc_scheme option" and hash p s s'
  assume IH: "\<And>hash p s s'. run hash p s = Some s' \<Longrightarrow> assoc.more s' = assoc.more s"
    and "(case p of None \<Rightarrow> Some s | Some a \<Rightarrow> do {
          it \<leftarrow> items s a;
          b \<leftarrow> int_bucket (hash (key_of it)) (hashpower s);
          s' \<leftarrow> push_item (Bucket b) a s;
          run hash (h_next it) s' }) = Some s'"
  then show "assoc.more s' = assoc.more s"
    by (auto split: option.splits bind_splits dest!: IH push_item_more)
qed

lemma migrate_bucket_more: "migrate_bucket hash s = Some s' \<Longrightarrow> assoc.more s' = assoc.more s"
  unfolding migrate_bucket_def
  by (auto simp: Let_def simp del: write_slot.simps read_slot.simps split: bind_splits if_splits
    dest!: migrate_chain_more write_slot_more)

lemma bulk_move_more: "bulk_move hash locks s = Some s' \<Longrightarrow> assoc.more s' = assoc.more s"
  by (induction locks arbitrary: s) (auto split: if_splits bind_splits dest: migrate_bucket_more)

lemma assoc_grow_more: "assoc_grow hash g s = Some s' \<Longrightarrow> assoc.more s' = assoc.more s"
  by (cases g) (auto simp: maintenance_pass_def assoc_expand_def split: if_splits bind_splits dest: bulk_move_more)

lemma more_fields:
  assumes "assoc.more s' = assoc.more (s :: 'a cache_mem_scheme)"
  shows "heads s' = heads s" "tails s' = tails s" "lru_sizes s' = lru_sizes s" "sizes_bytes s' = sizes_bytes s"
    "slabclass s' = slabclass s" "power_largest s' = power_largest s" "curr_items s' = curr_items s" "curr_bytes s' = curr_bytes s"
    "settings s' = settings s" "current_time s' = current_time s"
  using assms by (cases s, cases s', simp)+

lemma assoc_grow_rep:
  assumes rep: "assoc_rep hash s ch"
  shows "\<exists>s' ch'. assoc_grow hash g s = Some s' \<and> assoc_rep hash s' ch' \<and> linked ch' = linked ch \<and>
    same_items (items s) (items s')"
proof (cases g)
  case (Pass locks)
  then show ?thesis using maintenance_pass_ok [OF rep, of locks] by auto
next
  case (Wake c)
  show ?thesis
  proof (cases "expanding s")
    case True
    then show ?thesis using rep Wake by auto
  next
    case False
    then obtain ch' where "assoc_rep hash (assoc_expand (c \<and> hashpower s < 31) s) ch'" "linked ch' = linked ch"
      using assoc_expand_ok [OF rep False, of "c \<and> hashpower s < 31"] by auto
    then show ?thesis using Wake False by (auto simp: assoc_expand_def)
  qed
qed

lemma same_items_store:
  assumes ok: "store_ok hash s ch Q F" and rep: "assoc_rep hash s' ch'" "linked ch' = linked ch"
    and m: "assoc.more s' = assoc.more s" and i: "same_items (items s) (items s')"
  shows "store_ok hash s' ch' Q F" "amap hash s' = amap hash s"
proof -
  note M = more_fields [OF m]
  have S: "assoc_rep hash s ch" "lru_ok s Q" "lists_ok s F" "queued Q = linked ch"
    "\<forall>a \<in> linked ch. \<exists>it. items s a = Some it \<and> item_live s it"
    "curr_items s = of_nat (card (linked ch))" "curr_bytes s = (\<Sum>a \<in> linked ch. heap_ntotal (items s) a)"
    using ok by (simp_all add: store_ok_def)
  have at: "\<exists>p. items s' a = Some (it\<lparr>h_next := p\<rparr>)" if "items s a = Some it" for a it
    using same_items_at [OF i that] by blast
  show "amap hash s' = amap hash s"
  proof (rule amap_eqI [OF S(1) rep(1,2)], intro ballI)
    fix a show "akey (items s') a = akey (items s) a" by (rule same_items_akey [OF i])
  qed
  have "same_q_item it (it\<lparr>h_next := p\<rparr>)" for it p by (rule same_q_h_next)
  then have "lru_ok s' Q" using M at by (intro lru_ok_cong [OF S(2)]) (fastforce+)
  moreover have "lists_ok s' F"
  proof (rule lists_ok_view [OF S(3) M(5)])
    fix a assume "a \<in> freed F"
    then obtain it where "items s a = Some it" using free_item [OF S(3)] by blast
    then show "map_option free_view (items s' a) = map_option free_view (items s a)" using at by (force simp: free_view_def)
  qed
  moreover have "\<exists>it. items s' a = Some it \<and> item_live s' it" if "a \<in> linked ch" for a
    using S(5) that at item_live_cong [OF M(5,6)] by (fastforce simp: item_live_def size_fine_def class_valid_def ITEM_clsid_def M)
  moreover have "(\<Sum>a \<in> linked ch. heap_ntotal (items s') a) = (\<Sum>a \<in> linked ch. heap_ntotal (items s) a)"
    by (intro sum.cong refl same_cores_ntotal [OF same_items_cores [OF i, of "{}"]]) simp
  ultimately show "store_ok hash s' ch' Q F"
    using rep S(4,6,7) M by (simp add: store_ok_def)
qed

section \<open>The store and its clients\<close>

text \<open>
  The references to an item besides the link. An item is ready for the store while a client
  holds a reference to it; its key is then what the store finds it by.
\<close>

definition holders :: "item \<Rightarrow> nat" where
  "holders it = unat (refcount it) - (if it_flags it AND ITEM_LINKED \<noteq> 0 then 1 else 0)"

definition item_ready :: "'a slabs_scheme \<Rightarrow> nat \<Rightarrow> byte list option" where
  "item_ready s a = (case items s a of
       None \<Rightarrow> None
     | Some it \<Rightarrow> if key_ok it \<and> size_fine it \<and> class_valid s it \<and> it_flags it AND ITEM_SLABBED = 0 \<and>
           it_flags it AND ITEM_CHUNKED = 0 \<and> 0 < holders it \<and> holders it < 2 ^ 15
         then Some (key_of it) else None)"

definition find_item :: "(byte list \<Rightarrow> u32) \<Rightarrow> byte list \<Rightarrow> 'a cache_mem_scheme \<Rightarrow> nat option option" where
  "find_item hash k s = assoc_find k (hash k) s"

definition link_item :: "(byte list \<Rightarrow> u32) \<Rightarrow> nat \<Rightarrow> 'a cache_mem_scheme \<Rightarrow> 'a cache_mem_scheme option" where
  "link_item hash a s = do { it \<leftarrow> items s a; do_item_link a (hash (key_of it)) s }"

definition unlink_key :: "(byte list \<Rightarrow> u32) \<Rightarrow> byte list \<Rightarrow> 'a cache_mem_scheme \<Rightarrow> 'a cache_mem_scheme option" where
  "unlink_key hash k s = do {
     r \<leftarrow> assoc_find k (hash k) s;
     case r of None \<Rightarrow> Some s | Some a \<Rightarrow> do_item_unlink a (hash k) s }"

datatype store_event = Tick u32 | Bump nat | Expand growth

fun store_step :: "(byte list \<Rightarrow> u32) \<Rightarrow> store_event \<Rightarrow> 'a cache_mem_scheme \<Rightarrow> 'a cache_mem_scheme option" where
  "store_step hash (Tick now) s = Some (s\<lparr>current_time := now\<rparr>)"
| "store_step hash (Bump a) s =
     (case items s a of
        None \<Rightarrow> Some s
      | Some it \<Rightarrow> if it_flags it AND ITEM_LINKED = 0 then Some s else do_item_update a s)"
| "store_step hash (Expand g) s = assoc_grow hash g s"

definition store_good :: "(byte list \<Rightarrow> u32) \<Rightarrow> 'a cache_mem_scheme \<Rightarrow> bool" where
  "store_good hash s \<longleftrightarrow> (\<exists>ch Q F. store_ok hash s ch Q F \<and>
     (\<forall>a it. items s a = Some it \<longrightarrow> it_flags it AND ITEM_LINKED \<noteq> 0 \<longrightarrow> a \<in> linked ch \<and> it_flags it AND ITEM_CHUNKED = 0))"

lemma store_good_I:
  assumes "store_ok hash s ch Q F"
    and "\<And>a it. items s a = Some it \<Longrightarrow> it_flags it AND ITEM_LINKED \<noteq> 0 \<Longrightarrow> a \<in> linked ch \<and> it_flags it AND ITEM_CHUNKED = 0"
  shows "store_good hash s"
  using assms unfolding store_good_def by blast

lemma good_find: "store_good hash s \<Longrightarrow> find_item hash k s = Some (amap hash s k)"
  by (auto simp: store_good_def store_ok_def find_item_def amap_def assoc_find_rep split: option.splits)

text \<open>What readiness depends on.\<close>

definition ready_view :: "item \<Rightarrow> (nat option \<times> u8 \<times> byte list) \<times> u8 \<times> int \<times> nat \<times> u8 \<times> u8" where
  "ready_view it = (hash_view (it\<lparr>h_next := None\<rparr>), ITEM_clsid it, nbytes it, holders it, it_flags it AND ITEM_SLABBED, it_flags it AND ITEM_CHUNKED)"

lemma ready_view_fields:
  assumes "ready_view it' = ready_view it"
  shows "key_ok it' = key_ok it" "key_of it' = key_of it" "size_fine it' = size_fine it" "ITEM_clsid it' = ITEM_clsid it"
    "holders it' = holders it" "it_flags it' AND ITEM_SLABBED = it_flags it AND ITEM_SLABBED"
    "it_flags it' AND ITEM_CHUNKED = it_flags it AND ITEM_CHUNKED"
  using assms by (simp_all add: ready_view_def hash_view_def key_ok_def key_of_def size_fine_def)

lemma item_ready_cong:
  assumes "slabclass s' = slabclass s" "power_largest s' = power_largest s"
    and "map_option ready_view (items s' a) = map_option ready_view (items s a)"
  shows "item_ready s' a = item_ready s a"
proof (cases "items s a")
  case None
  then show ?thesis using assms(3) by (simp add: item_ready_def)
next
  case (Some it)
  then obtain it' where it': "items s' a = Some it'" "ready_view it' = ready_view it" using assms(3) by auto
  show ?thesis
    by (simp add: item_ready_def Some it'(1) class_valid_def assms(1,2) ready_view_fields [OF it'(2), simplified])
qed

lemma ready_core: "item_core it' = item_core it \<Longrightarrow> ready_view it' = ready_view it"
  using item_core_fields [of it' it] by (simp add: ready_view_def hash_view_def holders_def)

lemma ready_keep: "same_keep it it' \<Longrightarrow> ready_view it' = ready_view it"
  by (simp add: ready_view_def same_keep_def hash_view_def holders_def)

lemma ready_cores:
  "same_cores D m m' \<Longrightarrow> b \<notin> D \<Longrightarrow> map_option ready_view (m' b) = map_option ready_view (m b)"
proof -
  assume c: "same_cores D m m'" "b \<notin> D"
  show ?thesis
  proof (cases "m b")
    case None
    moreover have "map_option item_core (m' b) = map_option item_core (m b)" using c by (simp add: same_cores_def)
    ultimately show ?thesis by simp
  next
    case (Some it)
    from same_cores_at [OF c Some] obtain it' where it': "m' b = Some it'" "item_core it' = item_core it" .
    show ?thesis unfolding it'(1) Some option.map ready_core [OF it'(2)] ..
  qed
qed

lemma item_ready_Some:
  assumes "item_ready s a = Some k"
  obtains it where "items s a = Some it" "key_of it = k" "key_ok it" "size_fine it" "class_valid s it" "it_flags it AND ITEM_SLABBED = 0"
    "it_flags it AND ITEM_CHUNKED = 0" "0 < holders it" "holders it < 2 ^ 15"
proof -
  obtain it where it: "items s a = Some it" using assms by (cases "items s a") (simp_all add: item_ready_def)
  let ?c = "key_ok it \<and> size_fine it \<and> class_valid s it \<and> it_flags it AND ITEM_SLABBED = 0 \<and>
    it_flags it AND ITEM_CHUNKED = 0 \<and> 0 < holders it \<and> holders it < 2 ^ 15"
  have r: "item_ready s a = (if ?c then Some (key_of it) else None)" unfolding item_ready_def it option.case ..
  then have "?c" "key_of it = k" using assms by (metis option.distinct(1), metis option.distinct(1) option.inject)
  then show thesis using that [OF it] by blast
qed

text \<open>The items that are marked as linked, after a change that touches the marks of one item only.\<close>

lemma marks_cores:
  assumes m: "\<And>b it. items s b = Some it \<Longrightarrow> it_flags it AND ITEM_LINKED \<noteq> 0 \<Longrightarrow> b \<in> L \<and> it_flags it AND ITEM_CHUNKED = 0"
    and c: "same_cores {a} (items s) (items s')" and b: "items s' b = Some ib" "it_flags ib AND ITEM_LINKED \<noteq> 0" "b \<noteq> a"
  shows "b \<in> L - {a} \<and> it_flags ib AND ITEM_CHUNKED = 0"
proof -
  have "map_option item_core (items s' b) = map_option item_core (items s b)" using c b(3) by (simp add: same_cores_def)
  then obtain it where it: "items s b = Some it" "item_core it = item_core ib" using b(1) by (cases "items s b") auto
  then show ?thesis using m [of b it] b(2,3) item_core_fields(3) [OF it(2)] by simp
qed

lemma good_link:
  assumes good: "store_good hash s" and ready: "item_ready s a = Some k" and new: "amap hash s k = None"
  shows "\<exists>s'. link_item hash a s = Some s' \<and> store_good hash s' \<and> amap hash s' = (amap hash s)(k \<mapsto> a) \<and> item_ready s' = item_ready s"
proof -
  obtain ch Q F where ok: "store_ok hash s ch Q F"
    and marks: "\<And>b it. items s b = Some it \<Longrightarrow> it_flags it AND ITEM_LINKED \<noteq> 0 \<Longrightarrow> b \<in> linked ch \<and> it_flags it AND ITEM_CHUNKED = 0"
    using good unfolding store_good_def by blast
  obtain it where it: "items s a = Some it" "key_of it = k" "key_ok it" "size_fine it" "class_valid s it" "it_flags it AND ITEM_SLABBED = 0"
    "it_flags it AND ITEM_CHUNKED = 0" "0 < holders it" "holders it < 2 ^ 15" using item_ready_Some [OF ready] by blast
  have rep: "assoc_rep hash s ch" using ok by (simp add: store_ok_def)
  have nl: "it_flags it AND ITEM_LINKED = 0"
  proof (rule ccontr)
    assume "it_flags it AND ITEM_LINKED \<noteq> 0"
    then have "a \<in> linked ch" using marks it(1) by blast
    then have "amap hash s k = Some a" using amap_Some [OF rep] it(1,2) by (simp add: akey_def)
    then show False using new by simp
  qed
  then have h: "holders it = unat (refcount it)" by (simp add: holders_def)
  then have r: "unat (refcount it + 1) = unat (refcount it) + 1" "refcount it + 1 \<noteq> 0"
    using it(9) by (simp_all add: unat_word_ariths word_unat_eq_iff [of _ "0 :: u16"])
  obtain s' ch' where s': "do_item_link a (hash k) s = Some s'" "store_ok hash s' ch' (Q(qid_of it := a # Q (qid_of it))) F"
    "amap hash s' = (amap hash s)(k \<mapsto> a)" "linked ch' = insert a (linked ch)" "same_cores {a} (items s) (items s')"
    "map_option item_core (items s' a) = Some (item_core (linked_item it s))" "slabclass s' = slabclass s" "power_largest s' = power_largest s"
    using do_item_link_ok [OF ok it(1,3,4,5) nl it(6) r(2)] new it(2) by auto
  obtain it' where it': "items s' a = Some it'" "item_core it' = item_core (linked_item it s)" using s'(6) by auto
  note f = item_core_fields [OF it'(2)]
  have "it_flags it' AND ITEM_CHUNKED = 0" using it(7) by (simp add: f linked_item_def flag_facts)
  then have "store_good hash s'"
    using s'(4) it'(1) marks_cores [OF marks s'(5)] by (intro store_good_I [OF s'(2)]) (metis Diff_iff insertCI option.inject)+
  moreover have "item_ready s' b = item_ready s b" for b
  proof (rule item_ready_cong [OF s'(7,8)])
    have "ready_view it' = ready_view (linked_item it s)" using ready_core [OF it'(2)] .
    also have "\<dots> = ready_view it"
      using nl h r(1) by (simp add: ready_view_def linked_item_def hash_view_def ITEM_clsid_def holders_def flag_facts)
    finally show "map_option ready_view (items s' b) = map_option ready_view (items s b)"
      using it(1) it'(1) ready_cores [OF s'(5), of b] by (cases "b = a") simp_all
  qed
  then have "item_ready s' = item_ready s" by blast
  ultimately show ?thesis using s'(1,3) it(1,2) by (simp add: link_item_def)
qed

text \<open>Dropping a reference: the item stays, or goes back to the slab allocator.\<close>

lemma good_remove:
  assumes ok: "store_ok hash s ch Q F" and it: "items s a = Some it" "it_flags it AND ITEM_SLABBED = 0" "0 < refcount it"
    and frees: "refcount it = 1 \<Longrightarrow> it_flags it AND ITEM_LINKED = 0 \<and> it_flags it AND ITEM_CHUNKED = 0 \<and> class_valid s it \<and> a \<notin> linked ch"
    and marks: "\<And>b it. items s b = Some it \<Longrightarrow> it_flags it AND ITEM_LINKED \<noteq> 0 \<Longrightarrow> b \<in> linked ch \<and> it_flags it AND ITEM_CHUNKED = 0"
  shows "\<exists>s'. do_item_remove a s = Some s' \<and> store_good hash s' \<and> amap hash s' = amap hash s \<and> workers s' = workers s \<and>
    (\<forall>b. b \<noteq> a \<longrightarrow> item_ready s' b = item_ready s b) \<and> item_ready s' a =
      (if refcount it = 1 then None else item_ready (s\<lparr>items := (items s)(a \<mapsto> it\<lparr>refcount := refcount it - 1\<rparr>)\<rparr>) a)"
proof (cases "refcount it = 1")
  case False
  then have "1 < refcount it" using it(3) by (simp add: word_less_nat_alt word_unat_eq_iff)
  from do_item_remove_keeps [OF ok it(1,2) this] obtain s' where s': "do_item_remove a s = Some s'"
    "s' = s\<lparr>items := (items s)(a \<mapsto> it\<lparr>refcount := refcount it - 1\<rparr>)\<rparr>" "store_ok hash s' ch Q F" "amap hash s' = amap hash s" by blast
  have "store_good hash s'"
    by (rule store_good_I [OF s'(3)]) (use marks it(1) in \<open>auto simp: s'(2) split: if_splits\<close>)
  moreover have "item_ready s' b = item_ready s b" if "b \<noteq> a" for b
    by (rule item_ready_cong) (use that in \<open>simp_all add: s'(2)\<close>)
  ultimately show ?thesis using s'(1,2,4) False by auto
next
  case True
  note fr = frees [OF True]
  have naf: "a \<notin> freed F" using ok it(1,2) by (intro not_freed) (simp_all add: store_ok_def)
  let ?F = "F(unat (ITEM_clsid it) := a # F (unat (ITEM_clsid it)))"
  obtain s' m cs where s': "do_item_remove a s = Some s'" "s' = s\<lparr>items := m, slabclass := cs\<rparr>" "store_ok hash s' ch Q ?F"
    "amap hash s' = amap hash s" "\<forall>b. b \<noteq> a \<longrightarrow> b \<notin> freed F \<longrightarrow> items s' b = items s b" "length (slabclass s') = length (slabclass s)"
    using do_item_remove_frees [OF ok it(1,2) True] fr by blast
  have fF: "freed ?F = insert a (freed F)" by (auto simp: freed_def split: if_splits)
  have f': "\<exists>ib. items s' b = Some ib \<and> it_flags ib = ITEM_SLABBED" if "b \<in> freed ?F" for b
    using s'(3) that free_item by (metis store_ok_def)
  have f: "\<exists>ib. items s b = Some ib \<and> it_flags ib = ITEM_SLABBED" if "b \<in> freed F" for b
    using ok that free_item by (metis store_ok_def)
  have none: "item_ready t b = None" if "\<exists>ib. items t b = Some ib \<and> it_flags ib = ITEM_SLABBED" for t :: "'a cache_mem_scheme" and b
    using that by (auto simp: item_ready_def)
  have "store_good hash s'"
  proof (rule store_good_I [OF s'(3)])
    fix b ib assume b: "items s' b = Some ib" "it_flags ib AND ITEM_LINKED \<noteq> 0"
    then have "b \<notin> freed ?F" using f' by fastforce
    then show "b \<in> linked ch \<and> it_flags ib AND ITEM_CHUNKED = 0" using marks b s'(5) fF by auto
  qed
  moreover have "item_ready s' b = item_ready s b" if "b \<noteq> a" for b
  proof (cases "b \<in> freed F")
    case True
    then show ?thesis using none f f' fF by auto
  next
    case False
    then have "items s' b = items s b" using s'(5) that by blast
    moreover have "class_valid s' = class_valid s" using s'(2,6) by (auto simp: class_valid_def fun_eq_iff)
    ultimately show ?thesis by (cases "items s b") (simp_all add: item_ready_def)
  qed
  moreover have "item_ready s' a = None" using none f' fF by auto
  moreover have "workers s' = workers s" by (simp add: s'(2))
  ultimately show ?thesis using s'(1,4) True by auto
qed

lemma good_unlink:
  assumes good: "store_good hash s" and a: "amap hash s k = Some a"
  shows "\<exists>s'. do_item_unlink a (hash k) s = Some s' \<and> store_good hash s' \<and> amap hash s' = (amap hash s)(k := None) \<and>
    item_ready s' = item_ready s"
proof -
  obtain ch Q F where ok: "store_ok hash s ch Q F"
    and marks: "\<And>b it. items s b = Some it \<Longrightarrow> it_flags it AND ITEM_LINKED \<noteq> 0 \<Longrightarrow> b \<in> linked ch \<and> it_flags it AND ITEM_CHUNKED = 0"
    using good unfolding store_good_def by blast
  have rep: "assoc_rep hash s ch" using ok by (simp add: store_ok_def)
  have l: "a \<in> linked ch" "akey (items s) a = k" using amap_Some [OF rep] a by blast+
  have "\<exists>it. items s a = Some it \<and> item_live s it" using ok l(1) by (simp add: store_ok_def)
  then obtain it where it: "items s a = Some it" "item_live s it" by blast
  have k: "key_of it = k" using l(2) it(1) by (simp add: akey_def)
  note L = linked_in_queue [OF ok l(1) it(1)]
  have nc: "it_flags it AND ITEM_CHUNKED = 0" using marks [OF it(1) L(3)] by blast
  let ?it = "it\<lparr>it_flags := it_flags it AND NOT ITEM_LINKED\<rparr>"
  obtain s5 ch' it5 where s5: "do_item_unlink a (hash k) s = do_item_remove a s5"
    "store_ok hash s5 ch' (Q(qid_of it := remove1 a (Q (qid_of it)))) F" "linked ch' = linked ch - {a}"
    "amap hash s5 = (amap hash s)(k := None)" "same_cores {a} (items s) (items s5)" "items s5 a = Some it5"
    "item_core it5 = item_core ?it" "slabclass s5 = slabclass s" "power_largest s5 = power_largest s"
    using do_item_unlink_ok [OF ok l(1) it(1)] k by blast
  note f = item_core_fields [OF s5(7)]
  have fl: "it_flags it5 AND ITEM_LINKED = 0" "it_flags it5 AND ITEM_SLABBED = 0" "it_flags it5 AND ITEM_CHUNKED = 0"
    using L(2) nc by (simp_all add: f flag_facts del: bit.conj_disj_distrib) (simp_all add: and.assoc)
  have cv: "class_valid s5 it5" using L(5) s5(8,9) by (simp add: class_valid_def f ITEM_clsid_def)
  have r5: "refcount it5 = refcount it" by (simp add: f)
  have marks5: "b \<in> linked ch' \<and> it_flags ib AND ITEM_CHUNKED = 0"
    if "items s5 b = Some ib" "it_flags ib AND ITEM_LINKED \<noteq> 0" for b ib
  proof -
    have "b \<noteq> a" using that s5(6) fl(1) by auto
    then show ?thesis using marks_cores [OF marks s5(5) that] s5(3) by blast
  qed
  have "\<exists>s'. do_item_remove a s5 = Some s' \<and> store_good hash s' \<and> amap hash s' = amap hash s5 \<and> workers s' = workers s5 \<and>
    (\<forall>b. b \<noteq> a \<longrightarrow> item_ready s' b = item_ready s5 b) \<and> item_ready s' a =
      (if refcount it5 = 1 then None else item_ready (s5\<lparr>items := (items s5)(a \<mapsto> it5\<lparr>refcount := refcount it5 - 1\<rparr>)\<rparr>) a)"
    by (rule good_remove [OF s5(2,6) fl(2)]) (use L(6) r5 fl cv s5(3) marks5 in auto)
  then obtain s' where s': "do_item_remove a s5 = Some s'" "store_good hash s'" "amap hash s' = amap hash s5"
    "\<And>b. b \<noteq> a \<Longrightarrow> item_ready s' b = item_ready s5 b"
    "item_ready s' a = (if refcount it5 = 1 then None else item_ready (s5\<lparr>items := (items s5)(a \<mapsto> it5\<lparr>refcount := refcount it5 - 1\<rparr>)\<rparr>) a)"
    by blast
  have "item_ready s' b = item_ready s b" for b
  proof (cases "b = a")
    case False
    then have "b \<notin> {a}" by simp
    from item_ready_cong [OF s5(8,9) ready_cores [OF s5(5) this]] show ?thesis using s'(4) [OF False] by simp
  next
    case True
    have h: "holders it = unat (refcount it) - 1" using L(3) by (simp add: holders_def)
    show ?thesis
    proof (cases "refcount it = 1")
      case one: True
      then have "item_ready s a = None" using it(1) h by (simp add: item_ready_def)
      then show ?thesis using s'(5) True one r5 by simp
    next
      case more: False
      let ?it' = "it5\<lparr>refcount := refcount it5 - 1\<rparr>" and ?s' = "s5\<lparr>items := (items s5)(a \<mapsto> it5\<lparr>refcount := refcount it5 - 1\<rparr>)\<rparr>"
      have u: "unat (refcount it - 1) = unat (refcount it) - 1" using L(6) by (intro unat_minus_one) auto
      have "ready_view ?it' = ready_view it"
        using h u L(2) nc fl f(4,5,7,20) by (simp add: ready_view_def hash_view_def holders_def r5 ITEM_clsid_def)
      then have "item_ready ?s' a = item_ready s a"
        using s5(8,9) it(1) by (intro item_ready_cong) simp_all
      then show ?thesis using s'(5) True more r5 by simp
    qed
  qed
  then have "item_ready s' = item_ready s" by blast
  then show ?thesis using s' s5(1,4) by auto
qed

lemma good_moved:
  assumes moved: "store_moved hash ch F s s'"
    and marks: "\<And>b it. items s b = Some it \<Longrightarrow> it_flags it AND ITEM_LINKED \<noteq> 0 \<Longrightarrow> b \<in> linked ch \<and> it_flags it AND ITEM_CHUNKED = 0"
  shows "store_good hash s'" "amap hash s' = amap hash s" "item_ready s' = item_ready s"
proof -
  obtain Q where M: "store_ok hash s' ch Q F" "amap hash s' = amap hash s" "requeued s s'" "kept (items s) (items s')"
    using moved by (auto simp: store_moved_def)
  show "amap hash s' = amap hash s" by (rule M(2))
  have orig: "\<exists>it. items s b = Some it \<and> same_keep it it'" if b: "items s' b = Some it'" for b it'
  proof -
    obtain it where "items s b = Some it" using M(4) b unfolding kept_def by (cases "items s b") auto
    then show ?thesis using M(4) b unfolding kept_def by fastforce
  qed
  show "store_good hash s'"
  proof (rule store_good_I [OF M(1)])
    fix b it' assume b: "items s' b = Some it'" "it_flags it' AND ITEM_LINKED \<noteq> 0"
    then obtain it where "items s b = Some it" "same_keep it it'" using orig by blast
    then show "b \<in> linked ch \<and> it_flags it' AND ITEM_CHUNKED = 0" using marks [of b it] b(2) by (simp add: same_keep_def)
  qed
  show "item_ready s' = item_ready s"
  proof
    fix b
    have "map_option ready_view (items s' b) = map_option ready_view (items s b)"
    proof (cases "items s' b")
      case None
      then have "items s b = None" using kept_at [OF M(4), of b] by (cases "items s b") auto
      then show ?thesis using None by simp
    next
      case (Some it')
      then obtain it where "items s b = Some it" "same_keep it it'" using orig by blast
      then show ?thesis using Some ready_keep [of it it'] by simp
    qed
    then show "item_ready s' b = item_ready s b" using requeued_fields [OF M(3)] by (intro item_ready_cong) simp_all
  qed
qed

lemma good_step:
  assumes good: "store_good hash s"
  shows "\<exists>s'. store_step hash g s = Some s' \<and> store_good hash s' \<and> amap hash s' = amap hash s \<and> item_ready s' = item_ready s"
proof -
  obtain ch Q F where ok: "store_ok hash s ch Q F"
    and marks: "\<And>b it. items s b = Some it \<Longrightarrow> it_flags it AND ITEM_LINKED \<noteq> 0 \<Longrightarrow> b \<in> linked ch \<and> it_flags it AND ITEM_CHUNKED = 0"
    using good unfolding store_good_def by blast
  show ?thesis
  proof (cases g)
    case (Tick now)
    let ?s' = "s\<lparr>current_time := now\<rparr>"
    have "store_ok hash ?s' ch Q F" "amap hash ?s' = amap hash s"
      using store_ok_frame [OF ok, of ?s'] by (simp_all add: same_table_def same_lru_def)
    moreover from this(1) have "store_good hash ?s'" by (rule store_good_I) (use marks in simp_all)
    moreover have "item_ready ?s' = item_ready s" by (intro ext item_ready_cong) simp_all
    ultimately show ?thesis using Tick by simp
  next
    case (Bump a)
    show ?thesis
    proof (cases "\<exists>it. items s a = Some it \<and> it_flags it AND ITEM_LINKED \<noteq> 0")
      case False
      then show ?thesis using Bump good by (auto split: option.splits)
    next
      case True
      then obtain it where it: "items s a = Some it" "it_flags it AND ITEM_LINKED \<noteq> 0" by blast
      obtain s' where s': "do_item_update a s = Some s'" "store_moved hash ch F s s'"
        using do_item_update_ok [OF ok _ it(1)] marks it by blast
      have "store_good hash s'" "amap hash s' = amap hash s" "item_ready s' = item_ready s"
        by (rule good_moved [OF s'(2) marks]; assumption)+
      then show ?thesis using Bump it s'(1) by auto
    qed
  next
    case (Expand g')
    obtain s' ch' where s': "assoc_grow hash g' s = Some s'" "assoc_rep hash s' ch'" "linked ch' = linked ch"
      "same_items (items s) (items s')" using assoc_grow_rep [of hash s ch g'] ok by (auto simp: store_ok_def)
    have m: "assoc.more s' = assoc.more s" using assoc_grow_more [OF s'(1)] .
    note st = same_items_store [OF ok s'(2,3) m s'(4)]
    have c: "same_cores {} (items s) (items s')" by (rule same_items_cores [OF s'(4)])
    have "b \<in> linked ch' \<and> it_flags ib AND ITEM_CHUNKED = 0" if b: "items s' b = Some ib" "it_flags ib AND ITEM_LINKED \<noteq> 0" for b ib
    proof -
      have "map_option item_core (items s' b) = map_option item_core (items s b)" using c by (simp add: same_cores_def)
      then obtain it where it: "items s b = Some it" "item_core it = item_core ib" using b(1) by (cases "items s b") auto
      then show ?thesis using marks [of b it] b(2) item_core_fields(3) [OF it(2)] s'(3) by simp
    qed
    then have "store_good hash s'" using st(1) by (intro store_good_I)
    moreover have "item_ready s' = item_ready s"
      using more_fields(5,6) [OF m] ready_cores [OF c] by (intro ext item_ready_cong) simp_all
    ultimately show ?thesis using Expand s'(1) st(2) by auto
  qed
qed

interpretation store_index: growing_index "find_item hash" "link_item hash" "unlink_key hash" item_ready "amap hash" "store_good hash"
  "store_step hash" for hash
proof unfold_locales
  fix s :: "'a cache_mem_scheme" and k
  assume good: "store_good hash s"
  then show find: "find_item hash k s = Some (amap hash s k)" by (rule good_find)
  show "\<exists>s'. store_step hash g s = Some s' \<and> store_good hash s' \<and> amap hash s' = amap hash s \<and> item_ready s' = item_ready s" for g
    using good by (rule good_step)
  fix a
  show "\<exists>s'. unlink_key hash k s = Some s' \<and> store_good hash s' \<and> amap hash s' = (amap hash s)(k := None) \<and> item_ready s' = item_ready s"
    if "amap hash s k = Some a"
    using good_unlink [OF good that] find that by (simp add: unlink_key_def find_item_def)
  show "\<exists>s'. link_item hash a s = Some s' \<and> store_good hash s' \<and> amap hash s' = (amap hash s)(k \<mapsto> a) \<and> item_ready s' = item_ready s"
    if "item_ready s a = Some k" "amap hash s k = None"
    using good_link [OF good that] .
qed

section \<open>The store after the start\<close>

text \<open>Empty queues, empty free lists, no item marked as linked.\<close>

definition just_started :: "'a cache_mem_scheme \<Rightarrow> bool" where
  "just_started s \<longleftrightarrow> heads s = replicate 256 None \<and> tails s = replicate 256 None \<and> lru_sizes s = replicate 256 0 \<and>
     sizes_bytes s = replicate 256 0 \<and> curr_items s = 0 \<and> curr_bytes s = 0 \<and>
     (\<forall>p \<in> set (slabclass s). free_slots p = None \<and> sl_curr p = 0)"

lemma just_started_good:
  assumes "assoc_init n True (items s) = Some (assoc.truncate s)" "n \<le> 32" "just_started s"
    and "\<forall>a it. items s a = Some it \<longrightarrow> it_flags it AND ITEM_LINKED = 0"
  shows "store_good hash s" "amap hash s = Map.empty"
proof -
  have "hashpower s \<le> 32 \<and> \<not> expanding s \<and> primary_hashtable s = replicate (unat (hashsize (hashpower s))) None \<and> hash_items s = 0"
    using assms(1,2) by (auto simp: assoc_init_def assoc.truncate_def Let_def split: if_splits)
  then have rep: "assoc_rep hash s (\<lambda>_. [])" by (intro empty_table_rep) simp_all
  then show "amap hash s = Map.empty" using amap_Some [OF rep] by (auto simp: linked_def fun_eq_iff) (metis option.exhaust)
  have "store_ok hash s (\<lambda>_. []) (\<lambda>_. []) (\<lambda>_. [])"
    using rep assms(3) unfolding store_ok_def just_started_def lru_ok_def lists_ok_def
    by (simp add: queue_ok_def freelist_def queued_def linked_def)
  then show "store_good hash s" using assms(4) by (intro store_good_I) auto
qed

text \<open>
  Claim C30. The cache behaves as a map from keys to items. Starting from empty queues and an
  empty table, any sequence of linking items (those a client has filled in and holds, under a key
  that is not in use), unlinking keys, updates of the LRU queues, ticks of the clock and growth of
  the table (up to \<open>2 ^ 31\<close> buckets) runs without undefined behaviour, and afterwards \<open>assoc_find\<close> gives for every key what
  the map gives.
\<close>

theorem store_refines_map:
  assumes "assoc_init n True (items s) = Some (assoc.truncate s)" and "n \<le> 32" and "just_started s"
    and "\<forall>a it. items s a = Some it \<longrightarrow> it_flags it AND ITEM_LINKED = 0"
  shows "\<exists>s'. index_run (find_item hash) (link_item hash) (unlink_key hash) item_ready (store_step hash) ops s = Some s' \<and>
    (\<forall>k. assoc_find k (hash k) s' = Some (index_spec (item_ready s) ops Map.empty k))"
proof -
  note g = just_started_good [OF assms, of hash]
  obtain s' where "index_run (find_item hash) (link_item hash) (unlink_key hash) item_ready (store_step hash) ops s = Some s'"
    "store_good hash s'" "amap hash s' = index_spec (item_ready s) ops (amap hash s)"
    using store_index.run_refines [OF g(1), of ops] by blast
  then show ?thesis using g(2) good_find [of hash s'] by (auto simp: find_item_def)
qed

lemma replicate_2: "replicate 2 x = [x, x]"
  by (simp add: numeral_2_eq_2)

definition sample_store :: cache_mem where
  "sample_store = rebal.extend (sample_rebal\<lparr>settings := settings sample_slabs\<rparr>)
     (cache_mem.fields (replicate 256 None) (replicate 256 None) (replicate 256 zero_itemstats) (replicate 256 0) (replicate 256 0)
       None 0 0 100 0 0 0 [] [] (\<lambda>_ _. 0) [])"

lemma sample_store_init: "assoc_init 1 True (items sample_store) = Some (assoc.truncate sample_store)"
  by (simp add: sample_store_def sample_rebal_def two_page_slabs_def started_slabs_def sample_slabs_def assoc_init_def
      assoc.truncate_def rebal.defs cache_mem.defs slabs.defs Let_def hashsize_def replicate_2)

lemma sample_store_started: "just_started sample_store"
  by (auto simp: just_started_def sample_store_def sample_rebal_def two_page_slabs_def started_slabs_def
      rebal.defs cache_mem.defs slabs.defs empty_class_def dest!: set_update_subset_insert [THEN subsetD])

lemma sample_store_items: "items sample_store = sample_items"
  by (simp add: sample_store_def sample_rebal_def two_page_slabs_def started_slabs_def sample_slabs_def
      rebal.defs cache_mem.defs slabs.defs)

lemma sample_store_marks: "\<forall>a it. items sample_store a = Some it \<longrightarrow> it_flags it AND ITEM_LINKED = 0"
  by (auto simp: sample_store_items sample_items_def plain_item_def)

theorem store_refines_map_witness:
  "\<exists>s'. index_run (find_item (\<lambda>k. of_nat (length k))) (link_item (\<lambda>k. of_nat (length k))) (unlink_key (\<lambda>k. of_nat (length k)))
      item_ready (store_step (\<lambda>k. of_nat (length k)))
      [AddItem 1, Grow (Tick 300), Grow (Bump 1), AddItem 2, RemoveKey [97], Grow (Expand (Wake True)), AddItem 1] sample_store = Some s' \<and>
    (\<forall>k. assoc_find k (of_nat (length k)) s' = Some (index_spec (item_ready sample_store)
      ([AddItem 1, Grow (Tick 300), Grow (Bump 1), AddItem 2, RemoveKey [97], Grow (Expand (Wake True)), AddItem 1]
       :: (byte list, store_event) index_op list) Map.empty k)) \<and>
    item_ready sample_store 1 = Some [97]"
proof -
  have "item_ready sample_store 1 = Some [97]"
    by (simp add: item_ready_def sample_store_items sample_items_def plain_item_def key_ok_def size_fine_def class_valid_def
      ITEM_clsid_def holders_def key_of_def sample_store_def sample_rebal_def two_page_slabs_def started_slabs_def sample_slabs_def
      rebal.defs cache_mem.defs slabs.defs)
  moreover have "(1 :: nat) \<le> 32" by simp
  ultimately show ?thesis
    using store_refines_map [OF sample_store_init _ sample_store_started sample_store_marks] by blast
qed

end
