(* ===== verification/StoreGet.thy ===== *)
theory StoreGet
  imports StoreMap Bipbuffer
begin

text \<open>
  Fetching items: the asynchronous bumps, the hit markers and \<open>do_item_get\<close> with its lazy
  expiry, on a store that satisfies the invariant.
\<close>

section \<open>Changes that keep the chains\<close>

definition store_at :: "(byte list \<Rightarrow> u32) \<Rightarrow> (slot \<Rightarrow> nat list) \<Rightarrow> 'a cache_mem_scheme \<Rightarrow> bool" where
  "store_at hash ch s \<longleftrightarrow> (\<exists>Q F. store_ok hash s ch Q F) \<and>
     (\<forall>a it. items s a = Some it \<longrightarrow> it_flags it AND ITEM_LINKED \<noteq> 0 \<longrightarrow> a \<in> linked ch \<and> it_flags it AND ITEM_CHUNKED = 0)"

lemma store_good_at: "store_good hash s \<longleftrightarrow> (\<exists>ch. store_at hash ch s)"
  unfolding store_good_def store_at_def by blast

lemma at_marks: "store_at hash ch s \<Longrightarrow> items s a = Some it \<Longrightarrow> it_flags it AND ITEM_LINKED \<noteq> 0 \<Longrightarrow> a \<in> linked ch \<and> it_flags it AND ITEM_CHUNKED = 0"
  by (simp add: store_at_def)

lemma at_linked:
  assumes "store_at hash ch s" "a \<in> linked ch"
  obtains it where "items s a = Some it" "it_flags it AND ITEM_SLABBED = 0" "it_flags it AND ITEM_LINKED \<noteq> 0" "0 < refcount it"
    "it_flags it AND ITEM_CHUNKED = 0" "class_valid s it"
proof -
  obtain Q F where ok: "store_ok hash s ch Q F" using assms(1) by (auto simp: store_at_def)
  have "\<exists>it. items s a = Some it \<and> item_live s it" using ok assms(2) by (simp add: store_ok_def)
  then obtain it where it: "items s a = Some it" by blast
  note L = linked_in_queue [OF ok assms(2) it]
  show thesis using that [OF it] L at_marks [OF assms(1) it] by blast
qed

lemma at_amap: "store_at hash ch s \<Longrightarrow> amap hash s k = Some a \<longleftrightarrow> a \<in> linked ch \<and> akey (items s) a = k"
  by (auto simp: store_at_def store_ok_def amap_Some)

lemma at_find: "store_at hash ch s \<Longrightarrow> assoc_find k (hash k) s = Some (amap hash s k)"
  using good_find [of hash s k] by (auto simp: find_item_def store_good_at)

lemma at_upd:
  assumes at: "store_at hash ch s" and it: "items s a = Some it" "it_flags it AND ITEM_SLABBED = 0"
    and c: "same_core it it'" "it_flags it' AND ITEM_CHUNKED = it_flags it AND ITEM_CHUNKED"
  shows "store_at hash ch (s\<lparr>items := (items s)(a \<mapsto> it')\<rparr>)" "amap hash (s\<lparr>items := (items s)(a \<mapsto> it')\<rparr>) = amap hash s"
proof -
  let ?s' = "s\<lparr>items := (items s)(a \<mapsto> it')\<rparr>"
  obtain Q F where ok: "store_ok hash s ch Q F" using at by (auto simp: store_at_def)
  have "a \<notin> freed F" using ok it by (intro not_freed) (simp_all add: store_ok_def)
  then have "\<forall>b \<in> freed F. items ?s' b = items s b" by auto
  moreover have "\<exists>it'. items ?s' b = Some it' \<and> same_core ib it'" if "items s b = Some ib" for b ib
    using that it c by auto
  moreover have "same_table s ?s'" "same_lru s ?s'" by (simp_all add: same_table_def same_lru_def)
  ultimately have o: "store_ok hash ?s' ch Q F" "amap hash ?s' = amap hash s" using store_ok_frame [OF ok] by blast+
  show "amap hash ?s' = amap hash s" by (rule o(2))
  have "b \<in> linked ch \<and> it_flags ib AND ITEM_CHUNKED = 0" if "items ?s' b = Some ib" "it_flags ib AND ITEM_LINKED \<noteq> 0" for b ib
  proof (cases "b = a")
    case True
    then have "ib = it'" using that(1) by simp
    then show ?thesis using at_marks [OF at it(1)] that(2) c True by (simp add: same_core_def)
  next
    case False
    then show ?thesis using that at_marks [OF at, of b ib] by simp
  qed
  then show "store_at hash ch ?s'" using o(1) unfolding store_at_def by blast
qed

lemma at_same:
  assumes at: "store_at hash ch s" and s: "same_table s s'" "same_lru s s'" "items s' = items s"
  shows "store_at hash ch s'" "amap hash s' = amap hash s"
proof -
  obtain Q F where ok: "store_ok hash s ch Q F" using at by (auto simp: store_at_def)
  have "store_ok hash s' ch Q F" "amap hash s' = amap hash s" using store_ok_frame [OF ok s(1,2)] s(3) by simp_all
  then show "store_at hash ch s'" "amap hash s' = amap hash s" using at s(3) unfolding store_at_def by auto
qed

lemma at_worker: "store_at hash ch s \<Longrightarrow> store_at hash ch (upd_worker t f s) \<and> amap hash (upd_worker t f s) = amap hash s"
  using at_same [of hash ch s "upd_worker t f s"] by (simp add: upd_worker_def same_table_def same_lru_def)

lemma at_moved:
  assumes at: "store_at hash ch s" and m: "store_moved hash ch F s s'"
  shows "store_at hash ch s'"
  unfolding store_at_def
proof (intro conjI allI impI)
  show "\<exists>Q F. store_ok hash s' ch Q F" using m by (auto simp: store_moved_def)
  have k: "kept (items s) (items s')" using m by (simp add: store_moved_def)
  fix b ib assume b: "items s' b = Some ib" "it_flags ib AND ITEM_LINKED \<noteq> 0"
  obtain it where it: "items s b = Some it" using b(1) kept_None [OF k, of b] by (cases "items s b") auto
  then have "same_keep it ib" using kept_at [OF k it] b(1) by simp
  then show "b \<in> linked ch" "it_flags ib AND ITEM_CHUNKED = 0" using at_marks [OF at it] b(2) by (simp_all add: same_keep_def)
qed

lemma at_update:
  assumes at: "store_at hash ch s" and a: "a \<in> linked ch"
  shows "\<exists>s'. do_item_update a s = Some s' \<and> store_at hash ch s' \<and> amap hash s' = amap hash s \<and>
    kept (items s) (items s') \<and> workers s' = workers s \<and> settings s' = settings s \<and> current_time s' = current_time s \<and>
    same_cores {a} (items s) (items s')"
proof -
  obtain Q F where ok: "store_ok hash s ch Q F" using at by (auto simp: store_at_def)
  obtain it where it: "items s a = Some it" using at_linked [OF at a] by blast
  obtain s' where s': "do_item_update a s = Some s'" "store_moved hash ch F s s'" "same_cores {a} (items s) (items s')"
    using do_item_update_ok [OF ok a it] by blast
  have "requeued s s'" using s'(2) by (simp add: store_moved_def)
  note R = requeued_fields [OF this]
  show ?thesis using s' at_moved [OF at s'(2)] R by (auto simp: store_moved_def)
qed

section \<open>Bumps\<close>

text \<open>The workers' buffers hold entries of sixteen bytes; four of them are padding.\<close>

definition workers_ok :: "'a cache_mem_scheme \<Rightarrow> bool" where
  "workers_ok s \<longleftrightarrow> (\<forall>w \<in> set (workers s). bip_ok (bump_buf w))"

lemma bump_entry_length [simp]: "length (bump_entry a hv) = 12"
  by (simp add: bump_entry_def)

lemma bump_store:
  assumes ok: "bip_ok b" and r: "bipbuf_request b (int sizeof_bump) = Some off"
  shows "\<exists>b1 m pad. bip_store off (bump_entry a hv) 12 b = Some b1 \<and> bipbuf_push b1 (int sizeof_bump) = (int sizeof_bump, m) \<and>
    bip_ok m \<and> length pad = 4 \<and> bip_contents m = bip_contents b @ bump_entry a hv @ pad"
proof -
  define d where "d = bb_data b"
  define pad where "pad = take 4 (drop (off + 12) d)"
  define xs where "xs = bump_entry a hv @ pad"
  have room: "off + 16 \<le> length d"
    using bip_push_law [OF ok, of "replicate 16 0" 16] r by (simp add: d_def)
  then have lp: "length pad = 4" by (simp add: pad_def)
  then have lx: "length xs = 16" by (simp add: xs_def)
  have sp: "splice_at off xs d = splice_at off (bump_entry a hv) d"
  proof -
    have "drop (off + 12) d = pad @ drop (off + 16) d"
      using append_take_drop_id [of 4 "drop (off + 12) d"] by (simp add: pad_def add.commute add.left_commute)
    then show ?thesis using lx lp by (simp add: splice_at_def xs_def)
  qed
  obtain m where m: "bipbuf_push (b\<lparr>bb_data := splice_at off xs d\<rparr>) 16 = (16, m)" "bip_ok m" "bip_contents m = bip_contents b @ xs"
    using bip_push_law [OF ok, of xs 16 off] r lx by (auto simp: d_def)
  have "bip_store off (bump_entry a hv) 12 b = Some (b\<lparr>bb_data := splice_at off xs d\<rparr>)"
    using room sp by (simp add: bip_store_def d_def)
  then show ?thesis using m lp by (auto simp: xs_def)
qed

lemma refcount_up:
  assumes at: "store_at hash ch s" and it: "items s a = Some it" "it_flags it AND ITEM_SLABBED = 0" "refcount it + 1 \<noteq> 0"
  shows "\<exists>s'. refcount_incr a s = Some s' \<and> s' = s\<lparr>items := (items s)(a \<mapsto> it\<lparr>refcount := refcount it + 1\<rparr>)\<rparr> \<and>
    store_at hash ch s' \<and> amap hash s' = amap hash s"
proof -
  have "0 < refcount it + 1" using it(3) by (simp add: word_greater_zero_iff)
  then have "same_core it (it\<lparr>refcount := refcount it + 1\<rparr>)"
    by (simp add: same_core_def same_q_item_def hash_view_def qid_of_def ITEM_ntotal_def)
  from at_upd [OF at it(1,2) this] show ?thesis using it(1) by (simp add: refcount_incr_def upd_item_def)
qed

lemma workers_ok_upd:
  assumes "workers_ok s" "\<And>w. bip_ok (bump_buf w) \<Longrightarrow> bip_ok (bump_buf (f w))"
  shows "workers_ok (upd_worker t f s)"
proof (cases "t < length (workers s)")
  case True
  then have "bip_ok (bump_buf (f (workers s ! t)))" using assms by (simp add: workers_ok_def)
  then show ?thesis
    using assms(1) set_update_subset_insert [of "workers s" t "f (workers s ! t)"] by (auto simp: workers_ok_def upd_worker_def)
qed (use assms in \<open>simp add: workers_ok_def upd_worker_def list_update_beyond\<close>)

text \<open>The item and the buffers after an attempt to bump: one more reference if the bump is queued.\<close>

lemma lru_bump_async_ok:
  assumes at: "store_at hash ch s" and w: "workers_ok s" "t < length (workers s)"
    and it: "items s a = Some it" "it_flags it AND ITEM_SLABBED = 0" "refcount it + 1 \<noteq> 0" "0 < refcount it"
  shows "\<exists>bumped s'. lru_bump_async t a hv s = Some (bumped, s') \<and> store_at hash ch s' \<and> amap hash s' = amap hash s \<and>
    workers_ok s' \<and> length (workers s') = length (workers s) \<and> settings s' = settings s \<and> current_time s' = current_time s \<and>
    items s' = (items s)(a \<mapsto> it\<lparr>refcount := (if bumped then refcount it + 1 else refcount it)\<rparr>)"
proof -
  obtain s1 where s1: "refcount_incr a s = Some s1" "s1 = s\<lparr>items := (items s)(a \<mapsto> it\<lparr>refcount := refcount it + 1\<rparr>)\<rparr>"
    "store_at hash ch s1" "amap hash s1 = amap hash s" using refcount_up [OF at it(1-3)] by blast
  let ?b = "bump_buf (workers s ! t)"
  have bok: "bip_ok ?b" using w by (simp add: workers_ok_def)
  let ?drop = "upd_worker t (\<lambda>w. w\<lparr>bumps_dropped := bumps_dropped w + 1\<rparr>) s1"
  show ?thesis
  proof (cases "bipbuf_request ?b (int sizeof_bump)")
    case None
    have it1: "items ?drop a = Some (it\<lparr>refcount := refcount it + 1\<rparr>)" by (simp add: upd_worker_def s1(2))
    let ?s' = "?drop\<lparr>items := (items ?drop)(a \<mapsto> it)\<rparr>"
    have d: "store_at hash ch ?drop" "amap hash ?drop = amap hash s" using at_worker [OF s1(3)] s1(4) by simp_all
    have "same_core (it\<lparr>refcount := refcount it + 1\<rparr>) it"
      using it(4) by (simp add: same_core_def same_q_item_def hash_view_def qid_of_def ITEM_ntotal_def)
    from at_upd [OF d(1) it1 _ this] have o: "store_at hash ch ?s'" "amap hash ?s' = amap hash s" using it(2) d(2) by simp_all
    have "it\<lparr>refcount := refcount it + 1 - 1\<rparr> = it" by simp
    then have "lru_bump_async t a hv s = Some (False, ?s')"
      using None it1 s1(1) by (simp add: lru_bump_async_def s1(2) refcount_decr_def upd_item_def Let_def upd_worker_def)
    moreover have "workers_ok ?s'" "length (workers ?s') = length (workers s)"
      using workers_ok_upd [of s1 "\<lambda>w. w\<lparr>bumps_dropped := bumps_dropped w + 1\<rparr>" t] w(1)
      by (simp_all add: s1(2) workers_ok_def upd_worker_def)
    moreover have "items ?s' = (items s)(a \<mapsto> it)" "settings ?s' = settings s" "current_time ?s' = current_time s"
      by (simp_all add: upd_worker_def s1(2))
    ultimately show ?thesis using o by (intro exI [of _ False] exI [of _ ?s']) simp
  next
    case (Some off)
    obtain b1 m where m: "bip_store off (bump_entry a hv) 12 ?b = Some b1" "bipbuf_push b1 (int sizeof_bump) = (int sizeof_bump, m)" "bip_ok m"
      using bump_store [OF bok Some] by blast
    let ?s' = "upd_worker t (\<lambda>w. w\<lparr>bump_buf := m\<rparr>) s1"
    have "lru_bump_async t a hv s = Some (True, ?s')"
      using Some m(1,2) s1(1) by (simp add: lru_bump_async_def s1(2) Let_def)
    moreover have "workers_ok ?s'" "length (workers ?s') = length (workers s)"
      using workers_ok_upd [of s1 "\<lambda>w. w\<lparr>bump_buf := m\<rparr>" t] w(1) m(3)
      by (simp_all add: s1(2) workers_ok_def upd_worker_def)
    moreover have "items ?s' = (items s)(a \<mapsto> it\<lparr>refcount := refcount it + 1\<rparr>)" "settings ?s' = settings s" "current_time ?s' = current_time s"
      by (simp_all add: upd_worker_def s1(2))
    ultimately show ?thesis using at_worker [OF s1(3)] s1(4) by (intro exI [of _ True] exI [of _ ?s']) simp
  qed
qed

section \<open>Hits\<close>

text \<open>What a client reads of an item.\<close>

definition value_of :: "item \<Rightarrow> byte list \<times> byte list \<times> byte list \<times> u32 \<times> u64 \<times> int" where
  "value_of it = (key_of it, it_suffix it, it_data it, exptime it, it_cas it, nbytes it)"

lemma same_keep_value: "same_keep it it' \<Longrightarrow> value_of it' = value_of it"
  by (simp add: same_keep_def value_of_def hash_view_def key_of_def)

definition value_at :: "'a assoc_scheme \<Rightarrow> nat \<Rightarrow> (byte list \<times> byte list \<times> byte list \<times> u32 \<times> u64 \<times> int) option" where
  "value_at s a = map_option value_of (items s a)"

lemma kept_value: "kept (items s) (items s') \<Longrightarrow> value_at s' a = value_at s a"
  using kept_at [of "items s" "items s'" a] kept_None [of "items s" "items s'" a] same_keep_value
  by (cases "items s a") (auto simp: value_at_def)

lemma hit_flags:
  "((f :: u8) OR 8) AND 1 = f AND 1" "(f OR 8) AND 4 = f AND 4" "(f OR 8) AND 32 = f AND 32"
  "(f OR 16) AND 1 = f AND 1" "(f OR 16) AND 4 = f AND 4" "(f OR 16) AND 32 = f AND 32"
  "(f AND NOT 16) AND 1 = f AND 1" "(f AND NOT 16) AND 4 = f AND 4" "(f AND NOT 16) AND 32 = f AND 32"
  "(f OR 8) AND 2 = f AND 2" "(f OR 16) AND 2 = f AND 2" "(f AND NOT 16) AND 2 = f AND 2"
  by (simp_all add: bit.conj_disj_distrib2 and.assoc)

text \<open>Setting and clearing the hit markers.\<close>

lemma at_flags:
  assumes at: "store_at hash ch s" and it: "items s a = Some it" "it_flags it AND ITEM_SLABBED = 0"
    and f: "f = it_flags it OR ITEM_FETCHED \<or> f = it_flags it OR ITEM_ACTIVE \<or> f = it_flags it AND NOT ITEM_ACTIVE"
  shows "store_at hash ch (s\<lparr>items := (items s)(a \<mapsto> it\<lparr>it_flags := f\<rparr>)\<rparr>)"
    "amap hash (s\<lparr>items := (items s)(a \<mapsto> it\<lparr>it_flags := f\<rparr>)\<rparr>) = amap hash s"
    "f AND ITEM_SLABBED = 0"
proof -
  have g: "f AND 1 = it_flags it AND 1" "f AND 2 = it_flags it AND 2" "f AND 4 = it_flags it AND 4" "f AND 32 = it_flags it AND 32"
    using f hit_flags [of "it_flags it"] by auto
  then have "same_core it (it\<lparr>it_flags := f\<rparr>)" 
    by (simp add: same_core_def same_q_item_def hash_view_def qid_of_def ITEM_ntotal_def)
  from at_upd [OF at it this] g show "store_at hash ch (s\<lparr>items := (items s)(a \<mapsto> it\<lparr>it_flags := f\<rparr>)\<rparr>)"
    "amap hash (s\<lparr>items := (items s)(a \<mapsto> it\<lparr>it_flags := f\<rparr>)\<rparr>) = amap hash s" by simp_all
  show "f AND ITEM_SLABBED = 0" using g it(2) by simp
qed

text \<open>What a hit does to the items: a pending bump holds a reference to the item.\<close>

definition hit_kept :: "nat \<Rightarrow> item_heap \<Rightarrow> item_heap \<Rightarrow> bool" where
  "hit_kept a m m' \<longleftrightarrow> same_cores {a} m m' \<and> (\<forall>it. m a = Some it \<longrightarrow> (\<exists>it'. m' a = Some it' \<and>
     same_keep (it\<lparr>refcount := refcount it'\<rparr>) it' \<and> (refcount it' = refcount it \<or> refcount it' = refcount it + 1)))"

lemma hit_kept_kept:
  assumes k: "kept m m'" and c: "same_cores {a} m m'"
  shows "hit_kept a m m'"
  unfolding hit_kept_def
proof (intro conjI allI impI)
  fix it assume "m a = Some it"
  then obtain it' where it': "m' a = Some it'" "same_keep it it'" using kept_at [OF k] by blast
  then have "refcount it' = refcount it" by (simp add: same_keep_def)
  then show "\<exists>it'. m' a = Some it' \<and> same_keep (it\<lparr>refcount := refcount it'\<rparr>) it' \<and> (refcount it' = refcount it \<or> refcount it' = refcount it + 1)"
    using it' by (intro exI [of _ it']) simp
qed (rule c)

lemma hit_kept_upd:
  assumes "m a = Some it" "same_keep (it\<lparr>refcount := refcount it'\<rparr>) it'" "refcount it' = refcount it \<or> refcount it' = refcount it + 1"
  shows "hit_kept a m (m(a \<mapsto> it'))"
  using assms same_cores_upd [of a "{a}" m "Some it'"] by (simp add: hit_kept_def)

definition hit_ok ::
  "(byte list \<Rightarrow> u32) \<Rightarrow> (slot \<Rightarrow> nat list) \<Rightarrow> nat \<Rightarrow> 'a cache_mem_scheme \<Rightarrow> 'a cache_mem_scheme \<Rightarrow> bool" where
  "hit_ok hash ch a s s' \<longleftrightarrow> store_at hash ch s' \<and> amap hash s' = amap hash s \<and> workers_ok s' \<and>
     length (workers s') = length (workers s) \<and> value_at s' a = value_at s a \<and> hit_kept a (items s) (items s') \<and>
     settings s' = settings s \<and> current_time s' = current_time s"

lemma mark_hit_ok:
  assumes at: "store_at hash ch s" and w: "workers_ok s" "t < length (workers s)" and a: "a \<in> linked ch"
    and it: "items s a = Some it" "refcount it + 1 \<noteq> 0"
  shows "\<exists>s'. mark_hit t a hv s = Some s' \<and> hit_ok hash ch a s s'"
proof -
  have L: "it_flags it AND ITEM_SLABBED = 0" "0 < refcount it" using at_linked [OF at a] it(1) by auto
  let ?set = "\<lambda>f. s\<lparr>items := (items s)(a \<mapsto> it\<lparr>it_flags := f\<rparr>)\<rparr>"
  let ?F = "it_flags it OR ITEM_FETCHED" and ?A = "it_flags it OR ITEM_ACTIVE"
  have o: "store_at hash ch (?set f)" "amap hash (?set f) = amap hash s" "value_at (?set f) a = value_at s a" "f AND ITEM_SLABBED = 0"
    if "f = ?F \<or> f = ?A" for f
    using at_flags [OF at it(1) L(1), of f] that it(1) by (auto simp: value_at_def value_of_def key_of_def)
  have fk: "same_keep it (it\<lparr>it_flags := f\<rparr>)" "kept (items s) (items (?set f))" "same_cores {a} (items s) (items (?set f))"
    if "f = ?F \<or> f = ?A" for f
  proof -
    have "f AND 1 = it_flags it AND 1" "f AND 4 = it_flags it AND 4" "f AND 32 = it_flags it AND 32" "f AND 2 = it_flags it AND 2"
      using that hit_flags [of "it_flags it"] by auto
    then show k: "same_keep it (it\<lparr>it_flags := f\<rparr>)" by (simp add: same_keep_def hash_view_def ITEM_ntotal_def ITEM_clsid_def)
    show "same_cores {a} (items s) (items (?set f))" using same_cores_upd [of a "{a}" "items s"] by simp
    show "kept (items s) (items (?set f))" using kept_upd [of "items s" a it, OF it(1) k] by simp
  qed
  have h: "hit_ok hash ch a s (?set f)" if "f = ?F \<or> f = ?A" for f
    using o [OF that] w(1) hit_kept_kept [OF fk(2,3) [OF that]] by (simp add: hit_ok_def workers_ok_def)
  have up: "\<exists>s'. do_item_update a (?set f) = Some s' \<and> hit_ok hash ch a s s'" if f: "f = ?F \<or> f = ?A" for f
  proof -
    obtain s' where s': "do_item_update a (?set f) = Some s'" "store_at hash ch s'" "amap hash s' = amap hash (?set f)"
      "kept (items (?set f)) (items s')" "workers s' = workers (?set f)" "settings s' = settings (?set f)" "current_time s' = current_time (?set f)" "same_cores {a} (items (?set f)) (items s')"
      using at_update [OF o(1) [OF f] a] by blast
    have "value_at s' a = value_at s a" using kept_value [OF s'(4)] o(3) [OF f] by simp
    moreover have "hit_kept a (items s) (items s')" 
      by (rule hit_kept_kept [OF kept_trans [OF fk(2) [OF f] s'(4)] same_cores_trans [OF fk(3) [OF f] s'(8)]])
    ultimately show ?thesis using s' o(2) [OF f] w(1) by (simp add: hit_ok_def workers_ok_def)
  qed
  have u: "upd_item a (\<lambda>it. it\<lparr>it_flags := it_flags it OR ITEM_FETCHED\<rparr>) s = Some (?set ?F)"
    "upd_item a (\<lambda>it. it\<lparr>it_flags := it_flags it OR ITEM_ACTIVE\<rparr>) s = Some (?set ?A)"
    using it(1) by (simp_all add: upd_item_def)
  consider (same) "lru_segmented (settings s)" "it_flags it AND ITEM_ACTIVE \<noteq> 0"
    | (first) "lru_segmented (settings s)" "it_flags it AND ITEM_ACTIVE = 0" "it_flags it AND ITEM_FETCHED = 0"
    | (update) "lru_segmented (settings s)" "it_flags it AND ITEM_ACTIVE = 0" "it_flags it AND ITEM_FETCHED \<noteq> 0" "ITEM_lruid it \<noteq> COLD_LRU"
    | (bump) "lru_segmented (settings s)" "it_flags it AND ITEM_ACTIVE = 0" "it_flags it AND ITEM_FETCHED \<noteq> 0" "ITEM_lruid it = COLD_LRU"
    | (flat) "\<not> lru_segmented (settings s)" by blast
  then show ?thesis
  proof cases
    case same
    then have "mark_hit t a hv s = Some s" using it(1) by (simp add: mark_hit_def)
    then show ?thesis using at w hit_kept_kept [OF kept_refl same_cores_refl] by (simp add: hit_ok_def)
  next
    case first
    then have "mark_hit t a hv s = Some (?set ?F)" unfolding mark_hit_def u using it(1) by simp
    then show ?thesis using h [of ?F] by blast
  next
    case update
    then have "mark_hit t a hv s = do_item_update a (?set ?A)" unfolding mark_hit_def u using it(1) by simp
    then show ?thesis using up [of ?A] by simp
  next
    case flat
    then have "mark_hit t a hv s = do_item_update a (?set ?F)" unfolding mark_hit_def u using it(1) by simp
    then show ?thesis using up [of ?F] by simp
  next
    case bump
    let ?s1 = "?set ?A" and ?itA = "it\<lparr>it_flags := ?A\<rparr>"
    have i1: "items ?s1 a = Some ?itA" "it_flags ?itA AND ITEM_SLABBED = 0" "refcount ?itA + 1 \<noteq> 0" "0 < refcount ?itA"
      using it(2) L o(4) [of ?A] by simp_all
    have w1: "workers_ok ?s1" "t < length (workers ?s1)" using w by (simp_all add: workers_ok_def)
    have atA: "store_at hash ch ?s1" using o(1) [of ?A] by simp
    obtain b s2 where s2: "lru_bump_async t a hv ?s1 = Some (b, s2)" "store_at hash ch s2" "amap hash s2 = amap hash ?s1"
      "workers_ok s2" "length (workers s2) = length (workers ?s1)" "settings s2 = settings ?s1" "current_time s2 = current_time ?s1"
      "items s2 = (items ?s1)(a \<mapsto> ?itA\<lparr>refcount := (if b then refcount ?itA + 1 else refcount ?itA)\<rparr>)"
      using lru_bump_async_ok [OF atA w1 i1, of hv] by blast
    let ?it2 = "?itA\<lparr>refcount := (if b then refcount ?itA + 1 else refcount ?itA)\<rparr>"
    let ?s3 = "s2\<lparr>items := (items s2)(a \<mapsto> ?it2\<lparr>it_flags := it_flags ?it2 AND NOT ITEM_ACTIVE\<rparr>)\<rparr>"
    have i2: "items s2 a = Some ?it2" by (simp add: s2(8))
    have sl2: "it_flags ?it2 AND ITEM_SLABBED = 0" using i1(2) by simp
    note o3 = at_flags [OF s2(2) i2 sl2, of "it_flags ?it2 AND NOT ITEM_ACTIVE"]
    have run: "mark_hit t a hv s = Some (if b then s2 else ?s3)"
      unfolding mark_hit_def u using it(1) bump s2(1) i2 by (simp add: upd_item_def)
    have v: "value_at s2 a = value_at s a" "value_at ?s3 a = value_at s a"
      using it(1) i2 by (simp_all add: value_at_def value_of_def key_of_def)
    have cl: "((f :: u8) AND NOT 16) AND 1 = f AND 1" "(f AND NOT 16) AND 4 = f AND 4" "(f AND NOT 16) AND 32 = f AND 32" "(f AND NOT 16) AND 2 = f AND 2" for f
      by (rule hit_flags)+
    have kA: "same_keep (it\<lparr>refcount := r\<rparr>) (?itA\<lparr>refcount := r\<rparr>)" for r
      using fk(1) [of ?A] by (simp add: same_keep_def hash_view_def ITEM_ntotal_def ITEM_clsid_def)
    have kN: "same_keep x (x\<lparr>it_flags := it_flags x AND NOT ITEM_ACTIVE\<rparr>)" for x
      unfolding same_keep_def using cl [of "it_flags x"] by (simp add: hash_view_def ITEM_ntotal_def ITEM_clsid_def)
    have k2: "same_keep (it\<lparr>refcount := refcount ?it2\<rparr>) ?it2" using kA [of "refcount ?it2"] by simp
    have k3: "same_keep (it\<lparr>refcount := refcount ?it2\<rparr>) (?it2\<lparr>it_flags := it_flags ?it2 AND NOT ITEM_ACTIVE\<rparr>)"
      by (rule same_keep_trans [OF k2 kN])
    have k4: "hit_kept a (items s) ((items s)(a \<mapsto> x))" if "same_keep (it\<lparr>refcount := refcount x\<rparr>) x" "refcount x = refcount ?it2" for x
      using that by (intro hit_kept_upd [where it = it]) (simp_all add: it(1))
    have "hit_kept a (items s) (items s2)" "hit_kept a (items s) (items ?s3)"
      using k4 [OF k2] k4 [of "?it2\<lparr>it_flags := it_flags ?it2 AND NOT ITEM_ACTIVE\<rparr>"] k3 by (simp_all add: s2(8))
    then have "hit_ok hash ch a s s2" "hit_ok hash ch a s ?s3"
      using s2 o3 o(2) [of ?A] v by (simp_all add: hit_ok_def workers_ok_def)
    then show ?thesis using run by (cases b) auto
  qed
qed

section \<open>Fetching\<close>

text \<open>Unlinking an item that is held: it loses the link and one reference.\<close>

lemma unlink_held:
  assumes at: "store_at hash ch s" and a: "a \<in> linked ch" and it: "items s a = Some it" "1 < refcount it"
  shows "\<exists>s' ch' it'. do_item_unlink a (hash (key_of it)) s = Some s' \<and> store_at hash ch' s' \<and> linked ch' = linked ch - {a} \<and>
    amap hash s' = (amap hash s)(key_of it := None) \<and> items s' a = Some it' \<and>
    item_core it' = item_core (it\<lparr>it_flags := it_flags it AND NOT ITEM_LINKED, refcount := refcount it - 1\<rparr>) \<and>
    workers s' = workers s \<and> slabclass s' = slabclass s \<and> power_largest s' = power_largest s \<and>
    settings s' = settings s \<and> current_time s' = current_time s \<and> cas_id s' = cas_id s \<and> same_cores {a} (items s) (items s')"
proof -
  obtain Q F where ok: "store_ok hash s ch Q F" using at by (auto simp: store_at_def)
  have L: "it_flags it AND ITEM_SLABBED = 0" using at_linked [OF at a] it(1) by auto
  obtain s5 ch' it5 Q' where s5: "do_item_unlink a (hash (key_of it)) s = do_item_remove a s5"
    "store_ok hash s5 ch' Q' F" "linked ch' = linked ch - {a}"
    "amap hash s5 = (amap hash s)(key_of it := None)" "same_cores {a} (items s) (items s5)" "items s5 a = Some it5"
    "item_core it5 = item_core (it\<lparr>it_flags := it_flags it AND NOT ITEM_LINKED\<rparr>)" "slabclass s5 = slabclass s"
    "power_largest s5 = power_largest s" "workers s5 = workers s" "settings s5 = settings s" "current_time s5 = current_time s" "cas_id s5 = cas_id s"
    using do_item_unlink_ok [OF ok a it(1)] by blast
  note f = item_core_fields [OF s5(7)]
  have fl: "it_flags it5 AND ITEM_LINKED = 0" "it_flags it5 AND ITEM_SLABBED = 0"
    using L by (simp_all add: f flag_facts del: bit.conj_disj_distrib) (simp_all add: and.assoc)
  have "1 < refcount it5" using it(2) by (simp add: f)
  from do_item_remove_keeps [OF s5(2,6) fl(2) this] obtain s' where s': "do_item_remove a s5 = Some s'"
    "s' = s5\<lparr>items := (items s5)(a \<mapsto> it5\<lparr>refcount := refcount it5 - 1\<rparr>)\<rparr>" "store_ok hash s' ch' Q' F" "amap hash s' = amap hash s5" by blast
  have c: "item_core (it5\<lparr>refcount := r\<rparr>) = item_core (it\<lparr>it_flags := it_flags it AND NOT ITEM_LINKED, refcount := r\<rparr>)" for r
    using s5(7) by (cases it5; cases it; simp add: item_core_def)
  have "b \<in> linked ch' \<and> it_flags ib AND ITEM_CHUNKED = 0" if b: "items s' b = Some ib" "it_flags ib AND ITEM_LINKED \<noteq> 0" for b ib
  proof -
    have ne: "b \<noteq> a" using b fl(1) by (auto simp: s'(2))
    then have "items s5 b = Some ib" using b(1) by (simp add: s'(2))
    then show ?thesis using marks_cores [OF at_marks [OF at] s5(5) _ b(2) ne] s5(3) by blast
  qed
  then have "store_at hash ch' s'" using s'(3) unfolding store_at_def by blast
  moreover have "same_cores {a} (items s) (items s')"
    using s5(5) same_cores_upd [of a "{a}" "items s5"] by (auto simp: s'(2) intro: same_cores_trans)
  ultimately show ?thesis using s5 s' c [of "refcount it5 - 1"] f(6) by (intro exI [of _ s'] exI [of _ ch'] exI) auto
qed

lemma get_nuked:
  assumes at: "store_at hash ch s" and a: "a \<in> linked ch" and it: "items s a = Some it" "1 < refcount it"
  shows "\<exists>s2 s3. do_item_unlink a (hash (key_of it)) s = Some s2 \<and> do_item_remove a s2 = Some s3 \<and> store_good hash s3 \<and>
    amap hash s3 = (amap hash s)(key_of it := None) \<and> workers s3 = workers s"
proof -
  obtain s2 ch' it' where s2: "do_item_unlink a (hash (key_of it)) s = Some s2" "store_at hash ch' s2" "linked ch' = linked ch - {a}"
    "amap hash s2 = (amap hash s)(key_of it := None)" "items s2 a = Some it'"
    "item_core it' = item_core (it\<lparr>it_flags := it_flags it AND NOT ITEM_LINKED, refcount := refcount it - 1\<rparr>)"
    "workers s2 = workers s" "slabclass s2 = slabclass s" "power_largest s2 = power_largest s"
    using unlink_held [OF at a it] by blast
  note f = item_core_fields [OF s2(6)]
  obtain itl where "items s a = Some itl" "it_flags itl AND ITEM_SLABBED = 0" "it_flags itl AND ITEM_CHUNKED = 0" "class_valid s itl"
    using at_linked [OF at a] by blast
  then have L: "it_flags it AND ITEM_SLABBED = 0" "it_flags it AND ITEM_CHUNKED = 0" "class_valid s it" using it(1) by simp_all
  have fl: "it_flags it' AND ITEM_LINKED = 0" "it_flags it' AND ITEM_SLABBED = 0" "it_flags it' AND ITEM_CHUNKED = 0"
    using L by (simp_all add: f flag_facts del: bit.conj_disj_distrib) (simp_all add: and.assoc)
  have cv: "class_valid s2 it'" using L(3) s2(8,9) by (simp add: class_valid_def f ITEM_clsid_def)
  have "1 < unat (refcount it)" using it(2) by (simp add: word_less_nat_alt)
  then have "unat (refcount it - 1) = unat (refcount it) - 1" by (intro unat_minus_one) auto
  then have pos: "0 < refcount it'" using \<open>1 < unat (refcount it)\<close> by (simp add: f word_less_nat_alt)
  obtain Q F where ok2: "store_ok hash s2 ch' Q F" using s2(2) by (auto simp: store_at_def)
  have fr: "refcount it' = 1 \<Longrightarrow> it_flags it' AND ITEM_LINKED = 0 \<and> it_flags it' AND ITEM_CHUNKED = 0 \<and> class_valid s2 it' \<and> a \<notin> linked ch'"
    using fl cv s2(3) by simp
  obtain s3 where "do_item_remove a s2 = Some s3" "store_good hash s3" "amap hash s3 = amap hash s2" "workers s3 = workers s2"
    using good_remove [OF ok2 s2(5) fl(2) pos fr at_marks [OF s2(2)]] by blast
  then show ?thesis using s2(1,4,7) by auto
qed

definition sample_get_store :: cache_mem where
  "sample_get_store = sample_store\<lparr>workers := [\<lparr>bump_buf = \<lparr>bb_size = 0, a_start = 0, a_end = 0, b_end = 0, b_inuse = 0,
     bb_data = []\<rparr>, bumps_dropped = 0, get_expired = 0, get_flushed = 0\<rparr>]\<rparr>"

lemma sample_get_store_fields:
  "items sample_get_store = sample_items" "settings sample_get_store = settings sample_slabs"
  "power_largest sample_get_store = 3" "length (slabclass sample_get_store) = 64"
  by (simp_all add: sample_get_store_def sample_store_def sample_rebal_def two_page_slabs_def started_slabs_def sample_slabs_def
      rebal.defs cache_mem.defs slabs.defs)

lemma sample_get_store_ok: "\<exists>ch Q F. store_ok hash sample_get_store ch Q F" "store_good hash sample_get_store" "amap hash sample_get_store = Map.empty"
proof -
  note g = just_started_good [OF sample_store_init _ sample_store_started sample_store_marks, of hash]
  have t: "same_table sample_store sample_get_store" "same_lru sample_store sample_get_store" "items sample_get_store = items sample_store"
    by (simp_all add: sample_get_store_def same_table_def same_lru_def)
  obtain ch where at: "store_at hash ch sample_store" using g(1) by (auto simp: store_good_at)
  note a = at_same [OF at t]
  show "\<exists>ch Q F. store_ok hash sample_get_store ch Q F" using a(1) by (auto simp: store_at_def)
  show "store_good hash sample_get_store" using a(1) by (auto simp: store_good_at)
  show "amap hash sample_get_store = Map.empty" using a(2) g(2) by simp
qed

text \<open>An item with key \<open>a\<close> is linked.\<close>

abbreviation sample_hash :: "byte list \<Rightarrow> u32" where
  "sample_hash \<equiv> \<lambda>k. of_nat (length k)"

lemma sample_linked:
  "\<exists>s it. link_item sample_hash 1 sample_get_store = Some s \<and> store_good sample_hash s \<and> amap sample_hash s = [[97] \<mapsto> 1] \<and>
     items s 1 = Some it \<and> item_core it = item_core (linked_item (plain_item [97]) sample_get_store) \<and>
     settings s = settings sample_slabs \<and> workers s = workers sample_get_store \<and>
     power_largest s = 3 \<and> length (slabclass s) = 64"
proof -
  let ?it = "plain_item [97]"
  obtain ch Q F where ok: "store_ok sample_hash sample_get_store ch Q F" using sample_get_store_ok(1) by blast
  have it: "items sample_get_store 1 = Some ?it" by (simp add: sample_get_store_fields sample_items_def)
  have "key_ok ?it" "size_fine ?it" "class_valid sample_get_store ?it" "it_flags ?it AND ITEM_LINKED = 0"
    "it_flags ?it AND ITEM_SLABBED = 0" "refcount ?it + 1 \<noteq> 0" "amap sample_hash sample_get_store (key_of ?it) = None"
    by (simp_all add: plain_item_def key_ok_def size_fine_def class_valid_def ITEM_clsid_def sample_get_store_fields sample_get_store_ok)
  from do_item_link_ok [OF ok it this] obtain s where s: "do_item_link 1 (sample_hash (key_of ?it)) sample_get_store = Some s"
    "amap sample_hash s = (amap sample_hash sample_get_store)(key_of ?it \<mapsto> 1)"
    "map_option item_core (items s 1) = Some (item_core (linked_item ?it sample_get_store))"
    "settings s = settings sample_get_store" "workers s = workers sample_get_store"
    "slabclass s = slabclass sample_get_store" "power_largest s = power_largest sample_get_store" by blast
  have k: "key_of ?it = [97]" by (simp add: plain_item_def key_of_def)
  have link: "link_item sample_hash 1 sample_get_store = Some s" using s(1) it by (simp add: link_item_def)
  have "item_ready sample_get_store 1 = Some [97]"
    by (simp add: item_ready_def sample_get_store_fields sample_items_def plain_item_def key_ok_def size_fine_def class_valid_def
        ITEM_clsid_def holders_def key_of_def)
  then have good: "store_good sample_hash s"
    using good_link [OF sample_get_store_ok(2), of 1 "[97]" sample_hash] link sample_get_store_ok(3) by (simp only: fun_upd_same) auto
  obtain it1 where it1: "items s 1 = Some it1" "item_core it1 = item_core (linked_item ?it sample_get_store)" using s(3) by auto
  show ?thesis
    using link good it1 s(2,4-7) by (intro exI [of _ s] exI [of _ it1]) (simp add: k sample_get_store_ok sample_get_store_fields)
qed

text \<open>
  Claim C31. \<open>do_item_get\<close> expires lazily: on a store that satisfies the invariant it runs without
  undefined behaviour and keeps the invariant; it finds nothing for a key without an item; an item
  that is flushed or past its expiry time is never returned, and its key is gone afterwards; any
  other item is returned with its contents, and no key changes, whatever the hit markers, the LRU
  queues and the full or empty bump buffers do.
\<close>

theorem do_item_get_spec:
  assumes "store_good hash s" and "workers_ok s" and "t < length (workers s)"
    and "\<forall>a it. amap hash s k = Some a \<longrightarrow> items s a = Some it \<longrightarrow> unat (refcount it) < 65534"
  shows "\<exists>r s'. do_item_get t k (hash k) upd s = Some (r, s') \<and> store_good hash s' \<and> workers_ok s' \<and>
    (case amap hash s k of
       None \<Rightarrow> r = None \<and> s' = s
     | Some a \<Rightarrow> \<exists>it. items s a = Some it \<and>
         (if item_is_flushed it s \<or> exptime it \<noteq> 0 \<and> exptime it \<le> current_time s
          then r = None \<and> amap hash s' = (amap hash s)(k := None)
          else r = Some a \<and> amap hash s' = amap hash s \<and> value_at s' a = Some (value_of it)))"
proof -
  obtain ch where at: "store_at hash ch s" using assms(1) by (auto simp: store_good_at)
  note fnd = at_find [OF at, of k]
  show ?thesis
  proof (cases "amap hash s k")
    case None
    then show ?thesis using fnd assms(1,2) by (simp add: do_item_get_def)
  next
    case (Some a)
    then have a: "a \<in> linked ch" "akey (items s) a = k" using at_amap [OF at] by blast+
    obtain it where it: "items s a = Some it" "it_flags it AND ITEM_SLABBED = 0" "0 < refcount it" using at_linked [OF at a(1)] by blast
    have k: "key_of it = k" using a(2) it(1) by (simp add: akey_def)
    have u: "unat (refcount it) < 65534" using assms(4) Some it(1) by blast
    then have r: "unat (refcount it + 1) = unat (refcount it) + 1" by (simp add: unat_word_ariths)
    then have r0: "refcount it + 1 \<noteq> 0" and r1: "1 < refcount it + 1" using it(3) by (auto simp: word_less_nat_alt)
    have r2: "refcount it + 1 + 1 \<noteq> 0" using u r unat_word_ariths(1) [of "refcount it + 1" 1] by auto
    let ?it = "it\<lparr>refcount := refcount it + 1\<rparr>"
    obtain s1 where s1: "refcount_incr a s = Some s1" "s1 = s\<lparr>items := (items s)(a \<mapsto> ?it)\<rparr>" "store_at hash ch s1" "amap hash s1 = amap hash s"
      using refcount_up [OF at it(1,2) r0] by blast
    have it1: "items s1 a = Some ?it" by (simp add: s1(2))
    have fl: "item_is_flushed ?it s1 = item_is_flushed it s" by (simp add: item_is_flushed_def s1(2) ITEM_get_cas_def Let_def)
    show ?thesis
    proof (cases "item_is_flushed it s \<or> exptime it \<noteq> 0 \<and> exptime it \<le> current_time s")
      case True
      obtain s2 s3 where s3: "do_item_unlink a (hash k) s1 = Some s2" "do_item_remove a s2 = Some s3" "store_good hash s3"
        "amap hash s3 = (amap hash s)(k := None)" "workers s3 = workers s"
        using get_nuked [OF s1(3) a(1) it1] r1 k s1(2,4) by (auto simp: key_of_def)
      let ?s' = "if item_is_flushed it s then upd_worker t (\<lambda>w. w\<lparr>get_flushed := get_flushed w + 1\<rparr>) s3
        else upd_worker t (\<lambda>w. w\<lparr>get_expired := get_expired w + 1\<rparr>) s3"
      have "do_item_get t k (hash k) upd s = Some (None, ?s')"
        using fnd Some s1(1) it1 fl s3(1,2) True by (auto simp: do_item_get_def s1(2))
      moreover have "store_good hash (upd_worker t f s3) \<and> amap hash (upd_worker t f s3) = (amap hash s)(k := None)" for f
        using at_worker s3(3,4) unfolding store_good_at by metis
      moreover have "workers_ok (upd_worker t f s3)" if "\<And>w. bump_buf (f w) = bump_buf w" for f
        using workers_ok_upd [of s3 f t] that assms(2) s3(5) by (simp add: workers_ok_def)
      ultimately show ?thesis using Some it(1) True by (intro exI [of _ None] exI [of _ ?s']) auto
    next
      case False
      then have get: "do_item_get t k (hash k) upd s = do { s2 \<leftarrow> if upd then mark_hit t a (hash k) s1 else Some s1; Some (Some a, s2) }"
        using fnd Some s1(1) it1 fl by (cases upd) (auto simp: do_item_get_def s1(2))
      have w1: "workers_ok s1" "t < length (workers s1)" using assms(2,3) by (simp_all add: s1(2) workers_ok_def)
      obtain s' where s': "mark_hit t a (hash k) s1 = Some s'" "hit_ok hash ch a s1 s'"
        using mark_hit_ok [OF s1(3) w1 a(1) it1] r2 by auto
      have v: "value_at s1 a = Some (value_of it)" by (simp add: value_at_def it1 value_of_def key_of_def)
      show ?thesis
        using get s' s1(3,4) v w1 Some it(1) False by (cases upd) (auto simp: hit_ok_def store_good_at)
    qed
  qed
qed

theorem do_item_get_spec_witness:
  "\<exists>s r s'. link_item sample_hash 1 sample_get_store = Some s \<and>
     do_item_get 0 [97] (sample_hash [97]) True s = Some (r, s') \<and> r = Some 1 \<and>
     value_at s' 1 = Some ([97], [], [13, 10], 0, 0, 2)"
proof -
  obtain s it1 where s: "link_item sample_hash 1 sample_get_store = Some s" "store_good sample_hash s" "amap sample_hash s = [[97] \<mapsto> 1]"
    "items s 1 = Some it1" "item_core it1 = item_core (linked_item (plain_item [97]) sample_get_store)"
    "settings s = settings sample_slabs" "workers s = workers sample_get_store" using sample_linked by blast
  note f = item_core_fields [OF s(5)]
  have w: "workers_ok s" "0 < length (workers s)" by (simp_all add: workers_ok_def s(7) sample_get_store_def bip_ok_def)
  have r: "refcount it1 = 2" "exptime it1 = 0" by (simp_all add: f linked_item_def plain_item_def)
  have v: "value_of it1 = ([97], [], [13, 10], 0, 0, 2)"
    by (simp add: value_of_def f linked_item_def linked_cas_def plain_item_def key_of_def)
  have nf: "\<not> item_is_flushed it1 s" by (simp add: item_is_flushed_def s(6) sample_slabs_def)
  have "\<forall>a it. amap sample_hash s [97] = Some a \<longrightarrow> items s a = Some it \<longrightarrow> unat (refcount it) < 65534"
    using s(3,4) r by simp
  from do_item_get_spec [OF s(2) w this, of True] show ?thesis
    using s(1,3,4) r v nf by (auto split: option.splits)
qed

end
