(* ===== verification/LruPull.thy ===== *)
theory LruPull
  imports StoreGet
begin

text \<open>
  The walk up the tail of a queue, \<open>lru_pull_tail\<close>: it returns, keeps the invariant of the
  store, and takes away keys only where it expires, evicts or repairs.
\<close>

section \<open>Requests to the page mover\<close>

lemma pick_loop_total:
  assumes "n = 0 \<or> 1 \<le> largest" "nat largest < length cs"
  shows "\<exists>r c. pick_loop cs largest dst n cur = Some (r, c)"
  using assms
proof (induction n arbitrary: cur)
  case 0
  then show ?case by simp
next
  case (Suc n)
  define c where "c = (if largest < cur + 1 then 1 else cur + 1)"
  have "nat c \<le> nat largest" using Suc.prems by (auto simp: c_def)
  then have l: "nat c < length cs" using Suc.prems(2) by linarith
  have IH: "\<exists>r c'. pick_loop cs largest dst n c = Some (r, c')" using Suc by auto
  have "pick_loop cs largest dst (Suc n) cur = (if c = dst then pick_loop cs largest dst n c
      else if length cs \<le> nat c then None else if 1 < sc_slabs (cs ! nat c) then Some (c, c) else pick_loop cs largest dst n c)"
    unfolding pick_loop.simps Let_def c_def ..
  then show ?case using l IH by (auto simp del: pick_loop.simps)
qed

definition asked :: "'a rebal_scheme \<Rightarrow> 'a rebal_scheme \<Rightarrow> bool" where
  "asked s s' \<longleftrightarrow> (\<exists>c sc dc sg. s' = s\<lparr>pick_cur := c, s_clsid := sc, d_clsid := dc, slab_rebalance_signal := sg\<rparr>)"

lemma asked_pick: "asked s (s\<lparr>pick_cur := c\<rparr>)"
  unfolding asked_def
  by (rule exI [of _ c], rule exI [of _ "s_clsid s"], rule exI [of _ "d_clsid s"], rule exI [of _ "slab_rebalance_signal s"]) simp

lemma asked_refl: "asked s s"
  using asked_pick [of s "pick_cur s"] by simp

lemma asked_go: "asked s (s\<lparr>pick_cur := c, s_clsid := sc, d_clsid := dc, slab_rebalance_signal := sg\<rparr>)"
  unfolding asked_def by blast

lemma slabs_reassign_frame:
  assumes "power_largest s < length (slabclass s)"
  shows "\<exists>r s'. slabs_reassign locked src dst s = Some (r, s') \<and> asked s s'"
proof (cases "locked \<or> slab_rebalance_signal s \<noteq> 0 \<or> src = dst")
  case True
  then show ?thesis using asked_refl unfolding slabs_reassign_def do_slabs_reassign_def by auto
next
  case False
  have "\<exists>src' c. (if src = - 1 then slabs_reassign_pick_any dst s else Some (src, s)) = Some (src', s\<lparr>pick_cur := c\<rparr>)"
  proof (cases "src = - 1")
    case True
    have "nat (int (power_largest s)) < length (slabclass s)" using assms by simp
    then obtain r c where "pick_loop (slabclass s) (int (power_largest s)) dst (power_largest s) (pick_cur s) = Some (r, c)"
      using pick_loop_total [of "power_largest s" "int (power_largest s)"] by (cases "power_largest s") force+
    then show ?thesis using True by (auto simp: slabs_reassign_pick_any_def)
  next
    case no: False
    then show ?thesis by (intro exI [of _ src] exI [of _ "pick_cur s"]) simp
  qed
  then obtain src' c where p: "(if src = - 1 then slabs_reassign_pick_any dst s else Some (src, s)) = Some (src', s\<lparr>pick_cur := c\<rparr>)" by blast
  have eq: "slabs_reassign locked src dst s = (let s1 = s\<lparr>pick_cur := c\<rparr> in
      if src' < 1 \<or> int (power_largest s1) < src' \<or> dst < 0 \<or> int (power_largest s1) < dst then Some (REASSIGN_BADCLASS, s1)
      else if length (slabclass s1) \<le> nat src' then None
      else if sc_slabs (slabclass s1 ! nat src') < 2 then Some (REASSIGN_NOSPARE, s1)
      else Some (REASSIGN_OK, s1\<lparr>s_clsid := src', d_clsid := dst, slab_rebalance_signal := 1\<rparr>))"
    using False unfolding slabs_reassign_def do_slabs_reassign_def p by simp
  have "nat src' < length (slabclass s)" if "src' \<le> int (power_largest s)" using that assms by linarith
  then show ?thesis unfolding eq Let_def using asked_pick [of s c] asked_go [where s = s and c = c and sc = src' and dc = dst and sg = 1]
    by (cases "src' < 1 \<or> int (power_largest s) < src' \<or> dst < 0 \<or> int (power_largest s) < dst") (auto simp: not_le)
qed

section \<open>Steps that keep the environment\<close>

definition same_env :: "'a cache_mem_scheme \<Rightarrow> 'a cache_mem_scheme \<Rightarrow> bool" where
  "same_env s s' \<longleftrightarrow> settings s' = settings s \<and> current_time s' = current_time s \<and> power_largest s' = power_largest s \<and>
     length (slabclass s') = length (slabclass s)"

lemma same_env_refl [simp]: "same_env s s"
  by (simp add: same_env_def)

lemma same_env_trans: "same_env s s' \<Longrightarrow> same_env s' s'' \<Longrightarrow> same_env s s''"
  by (simp add: same_env_def)

lemma same_env_upd [simp]:
  "same_env s (s\<lparr>items := m\<rparr>)" "same_env s (upd_stats q f s)" "same_env s (snd (trylock s))" "same_env s (s\<lparr>evictions := es\<rparr>)"
  by (auto simp: same_env_def upd_stats_def trylock_def split: list.splits)

lemma at_stats: "store_at hash ch s \<Longrightarrow> store_at hash ch (upd_stats q f s) \<and> amap hash (upd_stats q f s) = amap hash s"
  using at_same [of hash ch s "upd_stats q f s"] by (simp add: upd_stats_def same_table_def same_lru_def)

lemma at_trylock: "store_at hash ch s \<Longrightarrow> store_at hash ch (snd (trylock s)) \<and> amap hash (snd (trylock s)) = amap hash s"
  using at_same [of hash ch s "snd (trylock s)"] by (auto simp: trylock_def same_table_def same_lru_def split: list.splits)

lemma at_evictions: "store_at hash ch s \<Longrightarrow> store_at hash ch (s\<lparr>evictions := es\<rparr>) \<and> amap hash (s\<lparr>evictions := es\<rparr>) = amap hash s"
  using at_same [of hash ch s "s\<lparr>evictions := es\<rparr>"] by (simp add: same_table_def same_lru_def)

lemma upd_items [simp]: "items (upd_stats q f s) = items s" "items (snd (trylock s)) = items s"
  by (auto simp: upd_stats_def trylock_def split: list.splits)

lemma at_reassign:
  assumes "store_at hash ch s" "power_largest s < length (slabclass s)"
  shows "\<exists>r s'. slabs_reassign locked src dst s = Some (r, s') \<and> store_at hash ch s' \<and> amap hash s' = amap hash s \<and>
    items s' = items s \<and> same_env s s'"
proof -
  obtain r s' where s': "slabs_reassign locked src dst s = Some (r, s')" "asked s s'"
    using slabs_reassign_frame [OF assms(2)] by blast
  have "same_table s s'" "same_lru s s'" "items s' = items s" "same_env s s'"
    using s'(2) by (auto simp: asked_def same_table_def same_lru_def same_env_def)
  then show ?thesis using s'(1) at_same [OF assms(1)] by blast
qed

section \<open>Releasing and unlinking in the walk\<close>

definition marks_ok :: "(slot \<Rightarrow> nat list) \<Rightarrow> 'a cache_mem_scheme \<Rightarrow> bool" where
  "marks_ok ch s \<longleftrightarrow> (\<forall>a it. items s a = Some it \<longrightarrow> it_flags it AND ITEM_LINKED \<noteq> 0 \<longrightarrow> a \<in> linked ch \<and> it_flags it AND ITEM_CHUNKED = 0)"

lemma store_at_marks: "store_at hash ch s \<longleftrightarrow> (\<exists>Q F. store_ok hash s ch Q F) \<and> marks_ok ch s"
  unfolding store_at_def marks_ok_def ..

lemma marks_kept:
  assumes k: "kept (items s) (items s')" and m: "marks_ok ch s"
  shows "marks_ok ch s'"
  unfolding marks_ok_def
proof (intro allI impI)
  fix b ib assume b: "items s' b = Some ib" "it_flags ib AND ITEM_LINKED \<noteq> 0"
  obtain it where it: "items s b = Some it" using b(1) kept_None [OF k, of b] by (cases "items s b") auto
  then have "same_keep it ib" using kept_at [OF k it] b(1) by simp
  then show "b \<in> linked ch \<and> it_flags ib AND ITEM_CHUNKED = 0" using m it b(2) unfolding marks_ok_def same_keep_def by metis
qed

lemma remove_at:
  assumes at: "store_at hash ch s" and it: "items s a = Some it" "it_flags it AND ITEM_SLABBED = 0" "0 < refcount it"
    and frees: "refcount it = 1 \<Longrightarrow> it_flags it AND ITEM_LINKED = 0 \<and> it_flags it AND ITEM_CHUNKED = 0 \<and> class_valid s it \<and> a \<notin> linked ch"
  shows "\<exists>s'. do_item_remove a s = Some s' \<and> store_at hash ch s' \<and> amap hash s' = amap hash s \<and> same_env s s' \<and>
    (\<forall>b \<in> linked ch - {a}. items s' b = items s b) \<and> (refcount it \<noteq> 1 \<longrightarrow> items s' a = Some (it\<lparr>refcount := refcount it - 1\<rparr>))"
proof (cases "refcount it = 1")
  case False
  obtain Q F where ok: "store_ok hash s ch Q F" and m: "marks_ok ch s" using at by (auto simp: store_at_marks)
  have "1 < refcount it" using it(3) False by (simp add: word_less_nat_alt word_unat_eq_iff)
  from do_item_remove_keeps [OF ok it(1,2) this] obtain s' where s': "do_item_remove a s = Some s'"
    "s' = s\<lparr>items := (items s)(a \<mapsto> it\<lparr>refcount := refcount it - 1\<rparr>)\<rparr>" "store_ok hash s' ch Q F" "amap hash s' = amap hash s" by blast
  have "marks_ok ch s'" using m it(1) by (auto simp: marks_ok_def s'(2))
  then have "store_at hash ch s'" using s'(3) by (auto simp: store_at_marks)
  moreover have "same_env s s'" by (simp add: s'(2))
  ultimately show ?thesis using s' by auto
next
  case True
  obtain Q F where ok: "store_ok hash s ch Q F" and m: "marks_ok ch s" using at by (auto simp: store_at_marks)
  note fr = frees [OF True]
  let ?F = "F(unat (ITEM_clsid it) := a # F (unat (ITEM_clsid it)))"
  obtain s' m' cs where s': "do_item_remove a s = Some s'" "s' = s\<lparr>items := m', slabclass := cs\<rparr>" "store_ok hash s' ch Q ?F"
    "amap hash s' = amap hash s" "\<forall>b. b \<noteq> a \<longrightarrow> b \<notin> freed F \<longrightarrow> items s' b = items s b" "length (slabclass s') = length (slabclass s)"
    using do_item_remove_frees [OF ok it(1,2) True] fr by blast
  have fF: "freed ?F = insert a (freed F)" by (auto simp: freed_def split: if_splits)
  have "marks_ok ch s'"
    unfolding marks_ok_def
  proof (intro allI impI)
    fix b ib assume b: "items s' b = Some ib" "it_flags ib AND ITEM_LINKED \<noteq> 0"
    have "b \<notin> freed ?F"
    proof
      assume "b \<in> freed ?F"
      then obtain ib' where "items s' b = Some ib'" "it_flags ib' = ITEM_SLABBED" using s'(3) free_item by (metis store_ok_def)
      then show False using b by simp
    qed
    then show "b \<in> linked ch \<and> it_flags ib AND ITEM_CHUNKED = 0" using m b s'(5) fF by (auto simp: marks_ok_def)
  qed
  then have "store_at hash ch s'" using s'(3) by (auto simp: store_at_marks)
  moreover have "\<forall>b \<in> linked ch - {a}. items s' b = items s b" using s'(5) store_disjoint [OF ok] by auto
  moreover have "same_env s s'" using s'(6) by (simp add: same_env_def s'(2))
  ultimately show ?thesis using s'(1,4) True by auto
qed

lemma unlink_nolock_eq: "do_item_unlink_nolock = do_item_unlink"
  unfolding fun_eq_iff do_item_unlink_nolock_def do_item_unlink_def item_unlink_q_def by simp

definition others_same :: "(slot \<Rightarrow> nat list) \<Rightarrow> nat \<Rightarrow> 'a assoc_scheme \<Rightarrow> 'a assoc_scheme \<Rightarrow> bool" where
  "others_same ch a s s' \<longleftrightarrow> (\<forall>b \<in> linked ch - {a}. map_option item_core (items s' b) = map_option item_core (items s b))"

lemma others_same_refl [simp]: "others_same ch a s s"
  by (simp add: others_same_def)

lemma others_same_trans: "others_same ch a s s' \<Longrightarrow> linked ch - {a} = linked ch' - {a} \<Longrightarrow> others_same ch' a s' s'' \<Longrightarrow> others_same ch a s s''"
  by (simp add: others_same_def)

lemma others_cores: "same_cores {a} (items s) (items s') \<Longrightarrow> others_same ch a s s'"
  by (simp add: others_same_def same_cores_def)

text \<open>Unlinking in the walk: an item that is held keeps its memory, one that is not goes back to its class.\<close>

lemma unlink_walk:
  assumes at: "store_at hash ch s" and a: "a \<in> linked ch" and it: "items s a = Some it"
  shows "\<exists>s' ch'. do_item_unlink_nolock a (hash (key_of it)) s = Some s' \<and> store_at hash ch' s' \<and> linked ch' = linked ch - {a} \<and>
    amap hash s' = (amap hash s)(key_of it := None) \<and> same_env s s' \<and> others_same ch a s s' \<and>
    (refcount it \<noteq> 1 \<longrightarrow> (\<exists>it'. items s' a = Some it' \<and> refcount it' = refcount it - 1 \<and> it_flags it' AND ITEM_LINKED = 0 \<and>
      it_flags it' AND ITEM_SLABBED = 0 \<and> it_flags it' AND ITEM_CHUNKED = 0 \<and> class_valid s' it'))"
proof -
  obtain itl where "items s a = Some itl" "it_flags itl AND ITEM_SLABBED = 0" "it_flags itl AND ITEM_CHUNKED = 0" "class_valid s itl" "0 < refcount itl"
    using at_linked [OF at a] by blast
  then have L: "it_flags it AND ITEM_SLABBED = 0" "it_flags it AND ITEM_CHUNKED = 0" "class_valid s it" "0 < refcount it" using it by simp_all
  obtain Q F where ok: "store_ok hash s ch Q F" using at by (auto simp: store_at_def)
  obtain s5 ch' it5 Q' where s5: "do_item_unlink a (hash (key_of it)) s = do_item_remove a s5"
    "store_ok hash s5 ch' Q' F" "linked ch' = linked ch - {a}"
    "amap hash s5 = (amap hash s)(key_of it := None)" "same_cores {a} (items s) (items s5)" "items s5 a = Some it5"
    "item_core it5 = item_core (it\<lparr>it_flags := it_flags it AND NOT ITEM_LINKED\<rparr>)" "slabclass s5 = slabclass s"
    "power_largest s5 = power_largest s" "settings s5 = settings s" "current_time s5 = current_time s"
    using do_item_unlink_ok [OF ok a it] by blast
  note f = item_core_fields [OF s5(7)]
  have fl: "it_flags it5 AND ITEM_LINKED = 0" "it_flags it5 AND ITEM_SLABBED = 0" "it_flags it5 AND ITEM_CHUNKED = 0"
    using L by (simp_all add: f flag_facts del: bit.conj_disj_distrib) (simp_all add: and.assoc)
  have cv: "class_valid s5 it5" using L(3) s5(8,9) by (simp add: class_valid_def f ITEM_clsid_def)
  have r5: "refcount it5 = refcount it" by (simp add: f)
  have "marks_ok ch' s5"
    unfolding marks_ok_def
  proof (intro allI impI)
    fix b ib assume b: "items s5 b = Some ib" "it_flags ib AND ITEM_LINKED \<noteq> 0"
    have "b \<noteq> a" using b s5(6) fl(1) by auto
    then show "b \<in> linked ch' \<and> it_flags ib AND ITEM_CHUNKED = 0" using marks_cores [OF at_marks [OF at] s5(5) b] s5(3) by blast
  qed
  then have at5: "store_at hash ch' s5" using s5(2) by (auto simp: store_at_marks)
  have e5: "same_env s s5" by (simp add: same_env_def s5(8-11))
  have pos: "0 < refcount it5" using L(4) r5 by simp
  have fr: "refcount it5 = 1 \<Longrightarrow> it_flags it5 AND ITEM_LINKED = 0 \<and> it_flags it5 AND ITEM_CHUNKED = 0 \<and> class_valid s5 it5 \<and> a \<notin> linked ch'"
    using fl cv s5(3) by simp
  obtain s' where s': "do_item_remove a s5 = Some s'" "store_at hash ch' s'" "amap hash s' = amap hash s5" "same_env s5 s'"
    "\<forall>b \<in> linked ch' - {a}. items s' b = items s5 b" "refcount it5 \<noteq> 1 \<longrightarrow> items s' a = Some (it5\<lparr>refcount := refcount it5 - 1\<rparr>)"
    using remove_at [OF at5 s5(6) fl(2) pos fr] by blast
  have "others_same ch a s s'"
    unfolding others_same_def
  proof
    fix b assume "b \<in> linked ch - {a}"
    then show "map_option item_core (items s' b) = map_option item_core (items s b)" using s'(5) s5(3,5) by (simp add: same_cores_def)
  qed
  moreover have "class_valid s' (it5\<lparr>refcount := r\<rparr>)" for r
    using cv s'(4) by (simp add: class_valid_def same_env_def ITEM_clsid_def)
  ultimately show ?thesis
    using s5(1,3,4) s' same_env_trans [OF e5 s'(4)] fl r5 unfolding unlink_nolock_eq
    by (intro exI [of _ s'] exI [of _ ch'] conjI impI exI [of _ "it5\<lparr>refcount := refcount it5 - 1\<rparr>"]) simp_all
qed

section \<open>One item\<close>

definition pull_ok :: "(byte list \<Rightarrow> u32) \<Rightarrow> (slot \<Rightarrow> nat list) \<Rightarrow> 'a cache_mem_scheme \<Rightarrow> bool" where
  "pull_ok hash ch s \<longleftrightarrow> store_at hash ch s \<and> power_largest s < length (slabclass s) \<and>
     (\<forall>b \<in> linked ch. \<forall>it. items s b = Some it \<longrightarrow> refcount it + 1 \<noteq> 0)"

text \<open>No item is due to be unlinked: no eviction, no repair, no flush, no item past its expiry time.\<close>

definition quiet :: "u8 \<Rightarrow> (slot \<Rightarrow> nat list) \<Rightarrow> 'a cache_mem_scheme \<Rightarrow> bool" where
  "quiet flags ch s \<longleftrightarrow> flags AND LRU_PULL_EVICT = 0 \<and> tail_repair_time (settings s) = 0 \<and>
     (oldest_live (settings s) = 0 \<or> current_time s < oldest_live (settings s)) \<and>
     (\<forall>b \<in> linked ch. \<forall>it. items s b = Some it \<longrightarrow> exptime it = 0 \<or> current_time s \<le> exptime it)"

text \<open>The step from one item to the next: keys may vanish, in a quiet state none does.\<close>

definition pulled :: "(byte list \<Rightarrow> u32) \<Rightarrow> u8 \<Rightarrow> (slot \<Rightarrow> nat list) \<Rightarrow> nat \<Rightarrow> 'a cache_mem_scheme \<Rightarrow> (slot \<Rightarrow> nat list) \<Rightarrow> 'a cache_mem_scheme \<Rightarrow> bool" where
  "pulled hash flags ch a s ch' s' \<longleftrightarrow> pull_ok hash ch' s' \<and> same_env s s' \<and> others_same ch a s s' \<and>
     linked ch - {a} \<subseteq> linked ch' \<and> linked ch' \<subseteq> linked ch \<and> amap hash s' \<subseteq>\<^sub>m amap hash s \<and>
     (quiet flags ch s \<longrightarrow> amap hash s' = amap hash s \<and> (a \<in> linked ch \<longrightarrow> map_option exptime (items s' a) = map_option exptime (items s a)))"

text \<open>The item taken out of the walk, with the queue it goes to: out of its queue, or still where it was, or unlinked.\<close>

definition taken :: "(byte list \<Rightarrow> u32) \<Rightarrow> u8 \<Rightarrow> (slot \<Rightarrow> nat list) \<Rightarrow> nat \<Rightarrow> u8 \<Rightarrow> 'a cache_mem_scheme \<Rightarrow> 'a cache_mem_scheme \<Rightarrow> bool" where
  "taken hash flags ch a lru s s' \<longleftrightarrow> amap hash s' \<subseteq>\<^sub>m amap hash s \<and> (quiet flags ch s \<longrightarrow> amap hash s' = amap hash s) \<and>
     (\<exists>it. items s' a = Some it \<and> it_flags it AND ITEM_SLABBED = 0 \<and> 0 < refcount it \<and>
       (if lru = 0
        then \<exists>ch'. store_at hash ch' s' \<and> (refcount it = 1 \<longrightarrow> it_flags it AND ITEM_LINKED = 0 \<and> it_flags it AND ITEM_CHUNKED = 0 \<and>
          class_valid s' it \<and> a \<notin> linked ch')
        else (lru = WARM_LRU \<or> lru = COLD_LRU) \<and> refcount it \<noteq> 1 \<and> (\<exists>Q F. store_gap hash s' ch Q F a) \<and> marks_ok ch s'))"

definition pull_result :: "(byte list \<Rightarrow> u32) \<Rightarrow> u8 \<Rightarrow> (slot \<Rightarrow> nat list) \<Rightarrow> nat \<Rightarrow> 'a cache_mem_scheme \<Rightarrow> pull \<times> 'a cache_mem_scheme \<Rightarrow> bool" where
  "pull_result hash flags ch a s r \<longleftrightarrow> (case fst r of
       PullNext n \<Rightarrow> \<exists>ch'. pulled hash flags ch a s ch' (snd r)
     | PullTake n lru \<Rightarrow> taken hash flags ch a lru s (snd r)
     | PullBlocked \<Rightarrow> snd r = s
     | PullCrawler \<Rightarrow> snd r = s)"

lemma quiet_pulled:
  assumes "pulled hash flags ch a s ch' s'" "quiet flags ch s"
  shows "quiet flags ch' s'"
proof -
  have e: "settings s' = settings s" "current_time s' = current_time s" using assms(1) by (simp_all add: pulled_def same_env_def)
  have "exptime it = 0 \<or> current_time s \<le> exptime it" if b: "b \<in> linked ch'" "items s' b = Some it" for b it
  proof -
    have l: "b \<in> linked ch" using b(1) assms(1) by (auto simp: pulled_def)
    have "map_option exptime (items s' b) = map_option exptime (items s b)"
    proof (cases "b = a")
      case True
      then show ?thesis using assms l by (simp add: pulled_def)
    next
      case False
      then have "map_option item_core (items s' b) = map_option item_core (items s b)"
        using assms(1) l by (simp add: pulled_def others_same_def)
      then obtain ib where "items s b = Some ib" "item_core ib = item_core it" using b(2) by (cases "items s b") auto
      then show ?thesis using b(2) item_core_fields(9) [of ib it] by simp
    qed
    then obtain ib where "items s b = Some ib" "exptime ib = exptime it" using b(2) by (cases "items s b") auto
    then show ?thesis using assms(2) l by (auto simp: quiet_def)
  qed
  then show ?thesis using assms(2) e by (simp add: quiet_def)
qed

lemma pulled_trans:
  assumes "pulled hash flags ch a s ch' s'" "pull_result hash flags ch' b s' r" "fst r = PullTake n lru \<or> fst r = PullBlocked \<or> fst r = PullCrawler"
  shows "amap hash (snd r) \<subseteq>\<^sub>m amap hash s" "quiet flags ch s \<Longrightarrow> amap hash (snd r) = amap hash s"
proof -
  have "amap hash (snd r) \<subseteq>\<^sub>m amap hash s'" "quiet flags ch' s' \<Longrightarrow> amap hash (snd r) = amap hash s'"
    using assms(2,3) by (auto simp: pull_result_def taken_def)
  then show "amap hash (snd r) \<subseteq>\<^sub>m amap hash s" "quiet flags ch s \<Longrightarrow> amap hash (snd r) = amap hash s"
    using assms(1) quiet_pulled [OF assms(1)] map_le_trans by (auto simp: pulled_def)
qed

text \<open>
  The state in the middle of a step, when the walk holds a reference to the item: compared
  with the start of the step only references, marks, statistics and the clock of the item have changed.
\<close>

definition inner :: "(byte list \<Rightarrow> u32) \<Rightarrow> (slot \<Rightarrow> nat list) \<Rightarrow> nat \<Rightarrow> 'a cache_mem_scheme \<Rightarrow> 'a cache_mem_scheme \<Rightarrow> bool" where
  "inner hash ch a s0 s \<longleftrightarrow> store_at hash ch s \<and> amap hash s = amap hash s0 \<and> same_env s0 s \<and> others_same ch a s0 s \<and>
     a \<in> linked ch \<and> map_option exptime (items s a) = map_option exptime (items s0 a) \<and>
     power_largest s0 < length (slabclass s0) \<and> (\<forall>b \<in> linked ch - {a}. \<forall>it. items s0 b = Some it \<longrightarrow> refcount it + 1 \<noteq> 0) \<and>
     (\<exists>it. items s a = Some it \<and> 1 < refcount it)"

lemma inner_at:
  assumes "inner hash ch a s0 s"
  obtains it where "items s a = Some it" "1 < refcount it" "it_flags it AND ITEM_SLABBED = 0" "store_at hash ch s" "a \<in> linked ch"
    "refcount it \<noteq> 1" "0 < refcount it"
proof -
  obtain it where it: "items s a = Some it" "1 < refcount it" "store_at hash ch s" "a \<in> linked ch" using assms by (auto simp: inner_def)
  moreover have "it_flags it AND ITEM_SLABBED = 0" using at_linked [OF it(3,4)] it(1) by auto
  moreover have "refcount it \<noteq> 1" "0 < refcount it" using it(2) by (auto simp: word_less_nat_alt)
  ultimately show thesis using that by blast
qed

lemma inner_stats: "inner hash ch a s0 s \<Longrightarrow> inner hash ch a s0 (upd_stats q f s)"
  using at_stats [of hash ch s q f] same_env_trans [OF _ same_env_upd(2), of s0 s q f] by (simp add: inner_def others_same_def)

lemma inner_evictions: "inner hash ch a s0 s \<Longrightarrow> inner hash ch a s0 (s\<lparr>evictions := es\<rparr>)"
  using at_evictions [of hash ch s es] same_env_trans [OF _ same_env_upd(4), of s0 s es] by (simp add: inner_def others_same_def)

lemma inner_inactive:
  assumes i: "inner hash ch a s0 s" and it: "items s a = Some it"
  shows "inner hash ch a s0 (s\<lparr>items := (items s)(a \<mapsto> it\<lparr>it_flags := it_flags it AND NOT ITEM_ACTIVE\<rparr>)\<rparr>)"
proof -
  have L: "it_flags it AND ITEM_SLABBED = 0" "1 < refcount it" "store_at hash ch s" using inner_at [OF i] it by auto
  note f = at_flags [OF L(3) it L(1), of "it_flags it AND NOT ITEM_ACTIVE"]
  let ?s' = "s\<lparr>items := (items s)(a \<mapsto> it\<lparr>it_flags := it_flags it AND NOT ITEM_ACTIVE\<rparr>)\<rparr>"
  have "same_env s0 s" using i by (simp add: inner_def)
  from same_env_trans [OF this same_env_upd(1)] have "same_env s0 ?s'" .
  then show ?thesis using i f(1,2) it L(2) unfolding inner_def others_same_def by (simp del: ITEM_ACTIVE_def)
qed

lemma inner_refs:
  assumes i: "inner hash ch a s0 s" and b: "b \<in> linked ch - {a}" "items s' b = Some it"
    and o: "map_option item_core (items s' b) = map_option item_core (items s b)"
  shows "refcount it + 1 \<noteq> 0"
proof -
  have "map_option item_core (items s' b) = map_option item_core (items s0 b)" using i b(1) o by (simp add: inner_def others_same_def)
  then obtain ib where "items s0 b = Some ib" "item_core ib = item_core it" using b(2) by (cases "items s0 b") auto
  moreover have "\<forall>it. items s0 b = Some it \<longrightarrow> refcount it + 1 \<noteq> 0" using i b(1) by (simp add: inner_def)
  ultimately show ?thesis using item_core_fields(6) [of ib it] by metis
qed

lemma inner_take: "inner hash ch a s0 s \<Longrightarrow> taken hash flags ch a 0 s0 s"
proof -
  assume i: "inner hash ch a s0 s"
  obtain it where "items s a = Some it" "1 < refcount it" "it_flags it AND ITEM_SLABBED = 0" "store_at hash ch s" "refcount it \<noteq> 1" "0 < refcount it"
    using inner_at [OF i] by blast
  moreover have "amap hash s = amap hash s0" using i by (simp add: inner_def)
  ultimately show ?thesis by (auto simp: taken_def)
qed

lemma inner_move:
  assumes i: "inner hash ch a s0 s" and lru: "lru = WARM_LRU \<or> lru = COLD_LRU"
  shows "\<exists>s'. do_item_unlink_q a s = Some s' \<and> taken hash flags ch a lru s0 s'"
proof -
  obtain it where it: "items s a = Some it" "it_flags it AND ITEM_SLABBED = 0" "store_at hash ch s" "a \<in> linked ch" "refcount it \<noteq> 1" "0 < refcount it"
    using inner_at [OF i] by blast
  obtain Q F where ok: "store_ok hash s ch Q F" and m: "marks_ok ch s" using it(3) by (auto simp: store_at_marks)
  obtain s' n p Q' where s': "do_item_unlink_q a s = Some s'" "store_gap hash s' ch Q' F a" "amap hash s' = amap hash s"
    "items s' a = Some (it\<lparr>it_next := n, it_prev := p\<rparr>)" "kept (items s) (items s')" using unlink_gap [OF ok it(4,1)] by blast
  have "lru \<noteq> 0" using lru by auto
  moreover have "amap hash s' = amap hash s0" using i s'(3) by (simp add: inner_def)
  ultimately have "taken hash flags ch a lru s0 s'"
    using s' it marks_kept [OF s'(5) m] lru by (auto simp: taken_def)
  then show ?thesis using s'(1) by blast
qed

lemma inner_warm:
  assumes i: "inner hash ch a s0 s"
  shows "\<exists>s2 s3. do_item_update_nolock a s = Some s2 \<and> do_item_remove a s2 = Some s3 \<and> pulled hash flags ch a s0 ch s3"
proof -
  obtain it where it: "items s a = Some it" "it_flags it AND ITEM_SLABBED = 0" "store_at hash ch s" "a \<in> linked ch" "refcount it \<noteq> 1" "0 < refcount it"
    using inner_at [OF i] by blast
  obtain Q F where ok: "store_ok hash s ch Q F" using it(3) by (auto simp: store_at_marks)
  obtain s2 where s2: "do_item_update_nolock a s = Some s2" "store_moved hash ch F s s2" "same_cores {a} (items s) (items s2)"
    using do_item_update_nolock_ok [OF ok it(4,1)] by blast
  have k: "kept (items s) (items s2)" and r: "requeued s s2" and am: "amap hash s2 = amap hash s" using s2(2) by (simp_all add: store_moved_def)
  obtain it2 where it2: "items s2 a = Some it2" "same_keep it it2" using kept_at [OF k it(1)] by blast
  have f2: "it_flags it2 AND ITEM_SLABBED = 0" "refcount it2 = refcount it" "exptime it2 = exptime it"
    using it2(2) it(2) by (simp_all add: same_keep_def)
  have at2: "store_at hash ch s2" by (rule at_moved [OF it(3) s2(2)])
  obtain s3 where s3: "do_item_remove a s2 = Some s3" "store_at hash ch s3" "amap hash s3 = amap hash s2" "same_env s2 s3"
    "\<forall>b \<in> linked ch - {a}. items s3 b = items s2 b" "items s3 a = Some (it2\<lparr>refcount := refcount it2 - 1\<rparr>)"
    using remove_at [OF at2 it2(1) f2(1)] it(5,6) f2(2) by auto
  have e: "same_env s s2" using requeued_fields [OF r] by (simp add: same_env_def)
  have env: "same_env s0 s3" using i same_env_trans e s3(4) unfolding inner_def by blast
  have o: "map_option item_core (items s3 b) = map_option item_core (items s b)" if "b \<in> linked ch - {a}" for b
    using that s3(5) s2(3) by (simp add: same_cores_def)
  then have os: "others_same ch a s0 s3" using i by (simp add: inner_def others_same_def)
  have refs: "refcount ib + 1 \<noteq> 0" if "b \<in> linked ch" "items s3 b = Some ib" for b ib
  proof (cases "b = a")
    case True
    then have "ib = it2\<lparr>refcount := refcount it2 - 1\<rparr>" using that(2) s3(6) by simp
    then show ?thesis using it(6) f2(2) by auto
  next
    case False
    then show ?thesis using inner_refs [OF i _ that(2)] that(1) o [of b] by blast
  qed
  have "map_option exptime (items s3 a) = map_option exptime (items s0 a)"
    using i s3(6) f2(3) it(1) by (simp add: inner_def)
  moreover have "amap hash s3 = amap hash s0" using i am s3(3) by (simp add: inner_def)
  moreover have "power_largest s3 < length (slabclass s3)" using i env by (simp add: inner_def same_env_def)
  ultimately have "pulled hash flags ch a s0 ch s3" using s3(2) refs env os by (auto simp: pulled_def pull_ok_def)
  then show ?thesis using s2(1) s3(1) by blast
qed

text \<open>Unlinking an expired item, and the repair of one with leaked references.\<close>

lemma inner_expire:
  assumes i: "inner hash ch a s0 s" and it: "items s a = Some it" and nq: "\<not> quiet flags ch s0"
  shows "\<exists>s2 s3 ch'. do_item_unlink_nolock a (hash (key_of it)) s = Some s2 \<and> do_item_remove a s2 = Some s3 \<and> pulled hash flags ch a s0 ch' s3"
proof -
  have L: "it_flags it AND ITEM_SLABBED = 0" "store_at hash ch s" "a \<in> linked ch" "refcount it \<noteq> 1" "1 < refcount it"
    using inner_at [OF i] it by auto
  obtain s2 ch' it2 where s2: "do_item_unlink_nolock a (hash (key_of it)) s = Some s2" "store_at hash ch' s2" "linked ch' = linked ch - {a}"
    "amap hash s2 = (amap hash s)(key_of it := None)" "same_env s s2" "others_same ch a s s2" "items s2 a = Some it2"
    "refcount it2 = refcount it - 1" "it_flags it2 AND ITEM_LINKED = 0" "it_flags it2 AND ITEM_SLABBED = 0"
    "it_flags it2 AND ITEM_CHUNKED = 0" "class_valid s2 it2"
    using unlink_walk [OF L(2,3) it] L(4) by blast
  have "1 < unat (refcount it)" using L(5) by (simp add: word_less_nat_alt)
  then have "unat (refcount it - 1) = unat (refcount it) - 1" by (intro unat_minus_one) auto
  then have pos: "0 < refcount it2" using s2(8) \<open>1 < unat (refcount it)\<close> by (simp add: word_less_nat_alt)
  obtain s3 where s3: "do_item_remove a s2 = Some s3" "store_at hash ch' s3" "amap hash s3 = amap hash s2" "same_env s2 s3"
    "\<forall>b \<in> linked ch' - {a}. items s3 b = items s2 b"
    using remove_at [OF s2(2,7,10) pos] s2(3,9,11,12) by blast
  have env: "same_env s0 s3" using i same_env_trans s2(5) s3(4) unfolding inner_def by blast
  have o: "map_option item_core (items s3 b) = map_option item_core (items s b)" if "b \<in> linked ch - {a}" for b
    using that s3(5) s2(3,6) by (simp add: others_same_def)
  then have os: "others_same ch a s0 s3" using i by (simp add: inner_def others_same_def)
  have "refcount ib + 1 \<noteq> 0" if "b \<in> linked ch'" "items s3 b = Some ib" for b ib
    using inner_refs [OF i _ that(2)] that(1) o [of b] s2(3) by blast
  moreover have "amap hash s3 \<subseteq>\<^sub>m amap hash s0" using i s3(3) s2(4) by (auto simp: inner_def map_le_def)
  moreover have "power_largest s3 < length (slabclass s3)" using i env by (simp add: inner_def same_env_def)
  ultimately have "pulled hash flags ch a s0 ch' s3" using s3(2) s2(3) env os nq by (auto simp: pulled_def pull_ok_def)
  then show ?thesis using s2(1) s3(1) by blast
qed

lemma inner_repair:
  assumes i: "inner hash ch a s0 s" and it: "items s a = Some it" and nq: "\<not> quiet flags ch s0"
  shows "\<exists>s2 s3 ch'. upd_item a (\<lambda>it. it\<lparr>refcount := 1\<rparr>) s = Some s2 \<and> do_item_unlink_nolock a (hash (key_of it)) s2 = Some s3 \<and>
    pulled hash flags ch a s0 ch' s3"
proof -
  have L: "it_flags it AND ITEM_SLABBED = 0" "store_at hash ch s" "a \<in> linked ch" using inner_at [OF i] it by auto
  let ?it = "it\<lparr>refcount := 1\<rparr>" and ?s2 = "s\<lparr>items := (items s)(a \<mapsto> it\<lparr>refcount := 1\<rparr>)\<rparr>"
  have "same_core it ?it" by (simp add: same_core_def same_q_item_def hash_view_def qid_of_def ITEM_ntotal_def)
  from at_upd [OF L(2) it L(1) this] have at2: "store_at hash ch ?s2" "amap hash ?s2 = amap hash s" by simp_all
  have u: "upd_item a (\<lambda>it. it\<lparr>refcount := 1\<rparr>) s = Some ?s2" using it by (simp add: upd_item_def)
  have it2: "items ?s2 a = Some ?it" "key_of ?it = key_of it" by (simp_all add: key_of_def)
  obtain s3 ch' where s3: "do_item_unlink_nolock a (hash (key_of it)) ?s2 = Some s3" "store_at hash ch' s3" "linked ch' = linked ch - {a}"
    "amap hash s3 = (amap hash ?s2)(key_of it := None)" "same_env ?s2 s3" "others_same ch a ?s2 s3"
    using unlink_walk [OF at2(1) L(3) it2(1)] unfolding it2(2) by blast
  have env: "same_env s0 s3" using i same_env_trans [OF _ same_env_trans [OF same_env_upd(1) s3(5)]] by (simp add: inner_def)
  have o: "map_option item_core (items s3 b) = map_option item_core (items s b)" if "b \<in> linked ch - {a}" for b
    using that s3(6) by (simp add: others_same_def)
  then have os: "others_same ch a s0 s3" using i by (simp add: inner_def others_same_def)
  have "refcount ib + 1 \<noteq> 0" if "b \<in> linked ch'" "items s3 b = Some ib" for b ib
    using inner_refs [OF i _ that(2)] that(1) o [of b] s3(3) by blast
  moreover have "amap hash s3 \<subseteq>\<^sub>m amap hash s0" using i s3(4) at2(2) by (auto simp: inner_def map_le_def)
  moreover have "power_largest s3 < length (slabclass s3)" using i env by (simp add: inner_def same_env_def)
  ultimately have "pulled hash flags ch a s0 ch' s3" using s3(2,3) env os nq by (auto simp: pulled_def pull_ok_def)
  then show ?thesis using u s3(1) by blast
qed

lemma upd_at: "items s a = Some it \<Longrightarrow> upd_item a g s = Some (s\<lparr>items := (items s)(a \<mapsto> g it)\<rparr>)"
  by (simp add: upd_item_def)

lemma pull_hot_warm_ok:
  assumes i: "inner hash ch a s0 s"
  shows "\<exists>r. pull_hot_warm q cur_lru tbytes age a s = Some r \<and> pull_result hash flags ch a s0 r \<and> (\<exists>n lru. fst r = PullNext n \<or> fst r = PullTake n lru)"
proof -
  obtain it where it: "items s a = Some it" using inner_at [OF i] by blast
  let ?s1 = "s\<lparr>items := (items s)(a \<mapsto> it\<lparr>it_flags := it_flags it AND NOT ITEM_ACTIVE\<rparr>)\<rparr>"
  note i1 = inner_inactive [OF i it]
  let ?warm = "upd_stats q (\<lambda>t. t\<lparr>moves_within_lru := moves_within_lru t + 1\<rparr>) ?s1"
  let ?hot = "upd_stats q (\<lambda>t. t\<lparr>moves_to_warm := moves_to_warm t + 1\<rparr>) ?s1"
  let ?cold = "upd_stats q (\<lambda>t. t\<lparr>moves_to_cold := moves_to_cold t + 1\<rparr>) s"
  obtain w2 w3 where w: "do_item_update_nolock a ?warm = Some w2" "do_item_remove a w2 = Some w3" "pulled hash flags ch a s0 ch w3"
    using inner_warm [OF inner_stats [OF i1]] by blast
  obtain h where h: "do_item_unlink_q a ?hot = Some h" "taken hash flags ch a WARM_LRU s0 h"
    using inner_move [OF inner_stats [OF i1], of WARM_LRU] by blast
  obtain c where c: "do_item_unlink_q a ?cold = Some c" "taken hash flags ch a COLD_LRU s0 c"
    using inner_move [OF inner_stats [OF i], of COLD_LRU] by blast
  have run: "pull_hot_warm q cur_lru tbytes age a s = Some (
    if it_flags it AND ITEM_ACTIVE \<noteq> 0 then (if cur_lru = WARM_LRU then (PullNext 0, w3) else (PullTake 1 WARM_LRU, h))
    else if pull_limit cur_lru tbytes s < sizes_bytes s ! q \<or> age < current_time s - it_time it then (PullTake 1 COLD_LRU, c)
    else (PullTake 0 0, s))"
    unfolding pull_hot_warm_def it bind.bind_lunit upd_at [OF it] using w(1,2) h(1) c(1) by simp
  show ?thesis unfolding run using w(3) h(2) c(2) inner_take [OF i] by (auto simp: pull_result_def)
qed

lemma pull_cold_ok:
  assumes i: "inner hash ch a s0 s" and it: "items s a = Some it"
  shows "\<exists>r. pull_cold q orig flags (hash (key_of it)) a s = Some r \<and> pull_result hash flags ch a s0 r \<and> (\<exists>n lru. fst r = PullTake n lru)"
proof -
  have L: "store_at hash ch s" "a \<in> linked ch" "refcount it \<noteq> 1" "1 < refcount it" using inner_at [OF i] it by auto
  consider (keep) "flags AND LRU_PULL_EVICT \<noteq> 0" "\<not> evict_to_free (settings s)"
    | (evict) "flags AND LRU_PULL_EVICT \<noteq> 0" "evict_to_free (settings s)"
    | (rescue) "flags AND LRU_PULL_EVICT = 0" "it_flags it AND ITEM_ACTIVE \<noteq> 0 \<and> lru_segmented (settings s)"
    | (stay) "flags AND LRU_PULL_EVICT = 0" "\<not> (it_flags it AND ITEM_ACTIVE \<noteq> 0 \<and> lru_segmented (settings s))" by blast
  then show ?thesis
  proof cases
    case keep
    then have "pull_cold q orig flags (hash (key_of it)) a s = Some (PullTake 0 0, s)" using it by (simp add: pull_cold_def)
    then show ?thesis using inner_take [OF i] by (auto simp: pull_result_def)
  next
    case stay
    then have "pull_cold q orig flags (hash (key_of it)) a s = Some (PullTake 0 0, s)" using it by (auto simp: pull_cold_def)
    then show ?thesis using inner_take [OF i] by (auto simp: pull_result_def)
  next
    case rescue
    let ?s = "upd_stats q (\<lambda>t. t\<lparr>moves_to_warm := moves_to_warm t + 1\<rparr>) s"
    have it': "items ?s a = Some it" using it by simp
    let ?s1 = "?s\<lparr>items := (items ?s)(a \<mapsto> it\<lparr>it_flags := it_flags it AND NOT ITEM_ACTIVE\<rparr>)\<rparr>"
    have "inner hash ch a s0 ?s1" by (rule inner_inactive [OF inner_stats [OF i] it'])
    from inner_move [OF this, of WARM_LRU] obtain s2 where s2: "do_item_unlink_q a ?s1 = Some s2" "taken hash flags ch a WARM_LRU s0 s2" by blast
    have "pull_cold q orig flags (hash (key_of it)) a s = Some (PullTake 1 WARM_LRU, s2)"
      unfolding pull_cold_def it bind.bind_lunit upd_at [OF it'] using rescue s2(1) by simp
    then show ?thesis using s2(2) by (auto simp: pull_result_def)
  next
    case evict
    let ?s1 = "(upd_stats q (evict_stats it (current_time s)) s)\<lparr>evictions := a # evictions s\<rparr>"
    have i1: "inner hash ch a s0 ?s1" by (rule inner_evictions [OF inner_stats [OF i]])
    have it1: "items ?s1 a = Some it" using it by simp
    have at1: "store_at hash ch ?s1" using i1 by (simp add: inner_def)
    obtain s2 ch' it2 where s2: "do_item_unlink_nolock a (hash (key_of it)) ?s1 = Some s2" "store_at hash ch' s2" "linked ch' = linked ch - {a}"
      "amap hash s2 = (amap hash ?s1)(key_of it := None)" "same_env ?s1 s2" "items s2 a = Some it2"
      "refcount it2 = refcount it - 1" "it_flags it2 AND ITEM_LINKED = 0" "it_flags it2 AND ITEM_SLABBED = 0"
      "it_flags it2 AND ITEM_CHUNKED = 0" "class_valid s2 it2"
      using unlink_walk [OF at1 L(2) it1] L(3) by blast
    have "1 < unat (refcount it)" using L(4) by (simp add: word_less_nat_alt)
    then have "unat (refcount it - 1) = unat (refcount it) - 1" by (intro unat_minus_one) auto
    then have pos: "0 < refcount it2" using s2(7) \<open>1 < unat (refcount it)\<close> by (simp add: word_less_nat_alt)
    have am: "amap hash s2 \<subseteq>\<^sub>m amap hash s0" using i1 s2(4) by (auto simp: inner_def map_le_def)
    have env: "power_largest s2 < length (slabclass s2)" using i1 s2(5) by (simp add: inner_def same_env_def)
    have nq: "\<not> quiet flags ch s0" using evict(1) by (simp add: quiet_def)
    have tk: "taken hash flags ch a 0 s0 s3" if "store_at hash ch' s3" "amap hash s3 = amap hash s2" "items s3 = items s2" "same_env s2 s3" for s3
    proof -
      have "class_valid s3 it2" using s2(11) that(4) by (simp add: class_valid_def same_env_def)
      then show ?thesis using that s2(3,6,8,9,10) am pos nq by (auto simp: taken_def)
    qed
    show ?thesis
    proof (cases "slab_automove (settings s2) = 2")
      case False
      then have "pull_cold q orig flags (hash (key_of it)) a s = Some (PullTake 1 0, s2)"
        using it evict s2(1) by (simp add: pull_cold_def Let_def)
      then show ?thesis using tk [OF s2(2)] by (auto simp: pull_result_def)
    next
      case True
      obtain free s' where t: "trylock s2 = (free, s')" by (cases "trylock s2")
      then have t': "s' = snd (trylock s2)" by simp
      have at': "store_at hash ch' s'" "amap hash s' = amap hash s2" "items s' = items s2" "same_env s2 s'"
        using at_trylock [OF s2(2)] same_env_upd(3) [of s2] by (simp_all add: t')
      have "power_largest s' < length (slabclass s')" using env at'(4) by (simp add: same_env_def)
      from at_reassign [OF at'(1) this] obtain r s3 where s3: "slabs_reassign (\<not> free) (- 1) (int orig) s' = Some (r, s3)"
        "store_at hash ch' s3" "amap hash s3 = amap hash s'" "items s3 = items s'" "same_env s' s3" by blast
      have "pull_cold q orig flags (hash (key_of it)) a s = Some (PullTake 1 0, s3)"
        using it evict s2(1) True t s3(1) by (simp add: pull_cold_def Let_def)
      then show ?thesis using tk [OF s3(2)] s3 at' same_env_trans by (auto simp: pull_result_def)
    qed
  qed
qed

lemma pull_locked_ok:
  assumes ok: "pull_ok hash ch s" and a: "a \<in> linked ch" and it: "items s a = Some it"
  shows "\<exists>r. pull_locked q orig cur_lru tbytes flags age (hash (key_of it)) a s = Some r \<and> pull_result hash flags ch a s r \<and>
    (\<exists>n lru. fst r = PullNext n \<or> fst r = PullTake n lru)"
proof -
  have at: "store_at hash ch s" using ok by (simp add: pull_ok_def)
  have L: "it_flags it AND ITEM_SLABBED = 0" "0 < refcount it" using at_linked [OF at a] it by auto
  have r0: "refcount it + 1 \<noteq> 0" using ok a it by (auto simp: pull_ok_def)
  let ?it = "it\<lparr>refcount := refcount it + 1\<rparr>"
  obtain s1 where s1: "refcount_incr a s = Some s1" "s1 = s\<lparr>items := (items s)(a \<mapsto> ?it)\<rparr>" "store_at hash ch s1" "amap hash s1 = amap hash s"
    using refcount_up [OF at it L(1) r0] by blast
  have "unat (refcount it + 1) = unat (refcount it) + 1" using unatSuc [of "refcount it"] r0 by (simp add: add.commute)
  then have "1 < refcount it + 1" using L(2) by (simp add: word_less_nat_alt)
  then have i1: "inner hash ch a s s1"
    using ok a s1(3,4) it by (auto simp: inner_def pull_ok_def s1(2) others_same_def)
  define busy where "busy \<longleftrightarrow> refcount ?it \<noteq> 2"
  define s2 where "s2 = (if busy then upd_stats q (\<lambda>t. t\<lparr>lrutail_reflocked := lrutail_reflocked t + 1\<rparr>) s1 else s1)"
  have i2: "inner hash ch a s s2" using i1 inner_stats [OF i1] unfolding s2_def by (cases busy) simp_all
  have it2: "items s2 a = Some ?it" by (simp add: s2_def s1(2))
  have env: "settings s2 = settings s" "current_time s2 = current_time s" using i2 by (simp_all add: inner_def same_env_def)
  have k: "key_of ?it = key_of it" by (simp add: key_of_def)
  define repair where "repair \<longleftrightarrow> busy \<and> tail_repair_time (settings s2) \<noteq> 0 \<and>
    it_time ?it + word_of_int (tail_repair_time (settings s2)) < current_time s2"
  define due where "due \<longleftrightarrow> exptime ?it \<noteq> 0 \<and> exptime ?it < current_time s2 \<or> item_is_flushed ?it s2"
  let ?rep = "upd_stats q (\<lambda>t. t\<lparr>tailrepairs := tailrepairs t + 1\<rparr>) s2"
  let ?exp = "upd_stats q (\<lambda>t. t\<lparr>reclaimed := reclaimed t + 1,
             expired_unfetched := expired_unfetched t + (if it_flags ?it AND ITEM_FETCHED = 0 then 1 else 0)\<rparr>) s2"
  have run: "pull_locked q orig cur_lru tbytes flags age (hash (key_of it)) a s =
    (if repair then do { s3 \<leftarrow> upd_item a (\<lambda>it. it\<lparr>refcount := 1\<rparr>) ?rep; s4 \<leftarrow> do_item_unlink_nolock a (hash (key_of it)) s3; Some (PullNext 0, s4) }
     else if due then do { s4 \<leftarrow> do_item_unlink_nolock a (hash (key_of it)) ?exp; s5 \<leftarrow> do_item_remove a s4; Some (PullNext 1, s5) }
     else if cur_lru = HOT_LRU \<or> cur_lru = WARM_LRU then pull_hot_warm q cur_lru tbytes age a s2
     else if cur_lru = COLD_LRU then pull_cold q orig flags (hash (key_of it)) a s2
     else Some (PullTake 0 0, s2))"
  proof -
    have i: "items s1 a = Some ?it" by (simp add: s1(2))
    show ?thesis unfolding pull_locked_def s1(1) bind.bind_lunit i Let_def repair_def due_def busy_def s2_def ..
  qed
  consider (repair) repair | (due) "\<not> repair" due | (live) "\<not> repair" "\<not> due" by blast
  then show ?thesis
  proof cases
    case repair
    then have nq: "\<not> quiet flags ch s" using env by (simp add: repair_def quiet_def)
    have ir: "items ?rep a = Some ?it" using it2 by simp
    obtain s3 s4 ch' where "upd_item a (\<lambda>it. it\<lparr>refcount := 1\<rparr>) ?rep = Some s3" "do_item_unlink_nolock a (hash (key_of it)) s3 = Some s4"
      "pulled hash flags ch a s ch' s4" using inner_repair [OF inner_stats [OF i2] ir nq] unfolding k by blast
    then show ?thesis using run repair by (auto simp: pull_result_def)
  next
    case due
    have "\<not> quiet flags ch s"
      using due(2) a it env unfolding due_def quiet_def by (fastforce simp: item_is_flushed_def Let_def not_le split: if_splits)
    moreover have ie: "items ?exp a = Some ?it" using it2 by simp
    ultimately obtain s4 s5 ch' where "do_item_unlink_nolock a (hash (key_of it)) ?exp = Some s4" "do_item_remove a s4 = Some s5"
      "pulled hash flags ch a s ch' s5" using inner_expire [OF inner_stats [OF i2] ie] unfolding k by blast
    then show ?thesis using run due by (auto simp: pull_result_def)
  next
    case live
    obtain r1 where r1: "pull_hot_warm q cur_lru tbytes age a s2 = Some r1" "pull_result hash flags ch a s r1" "\<exists>n lru. fst r1 = PullNext n \<or> fst r1 = PullTake n lru"
      using pull_hot_warm_ok [OF i2] by blast
    obtain r2 where r2: "pull_cold q orig flags (hash (key_of it)) a s2 = Some r2" "pull_result hash flags ch a s r2" "\<exists>n lru. fst r2 = PullTake n lru"
      using pull_cold_ok [OF i2 it2] unfolding k by blast
    have r3: "pull_result hash flags ch a s (PullTake 0 0, s2)" using inner_take [OF i2] by (simp add: pull_result_def)
    show ?thesis using run live r1 r2 r3 by (cases "cur_lru = HOT_LRU \<or> cur_lru = WARM_LRU"; cases "cur_lru = COLD_LRU") auto
  qed
qed

lemma pull_one_ok:
  assumes ok: "pull_ok hash ch s" and a: "a \<in> linked ch"
  shows "\<exists>r. pull_one hash q orig cur_lru tbytes flags age a s = Some r \<and> pull_result hash flags ch a s r"
proof -
  have at: "store_at hash ch s" using ok by (simp add: pull_ok_def)
  obtain it where it: "items s a = Some it" using at_linked [OF at a] by blast
  show ?thesis
  proof (cases "nbytes it = 0 \<and> nkey it = 0 \<and> it_flags it = 1")
    case True
    then show ?thesis using it by (simp add: pull_one_def pull_result_def)
  next
    case False
    obtain free s' where t: "trylock s = (free, s')" by (cases "trylock s")
    then have t': "s' = snd (trylock s)" by simp
    have e: "store_at hash ch s'" "amap hash s' = amap hash s" "items s' = items s" "same_env s s'"
      using at_trylock [OF at] same_env_upd(3) [of s] by (simp_all add: t')
    have ok': "pull_ok hash ch s'" using ok e by (simp add: pull_ok_def same_env_def)
    show ?thesis
    proof (cases free)
      case False
      have "pulled hash flags ch a s ch s'" using ok' e by (simp add: pulled_def others_same_def)
      then show ?thesis using it t False \<open>\<not> (nbytes it = 0 \<and> nkey it = 0 \<and> it_flags it = 1)\<close>
        by (auto simp: pull_one_def pull_result_def)
    next
      case True
      obtain r where r: "pull_locked q orig cur_lru tbytes flags age (hash (key_of it)) a s' = Some r" "pull_result hash flags ch a s' r"
        "\<exists>n lru. fst r = PullNext n \<or> fst r = PullTake n lru"
        using pull_locked_ok [OF ok' a] it e(3) by force
      have q: "quiet flags ch s' = quiet flags ch s" using e by (simp add: quiet_def same_env_def)
      have am: "amap hash s' = amap hash s" using e by simp
      have p: "pulled hash flags ch a s ch' s2" if "pulled hash flags ch a s' ch' s2" for ch' s2
        using that q am e(3) same_env_trans [OF e(4)] unfolding pulled_def others_same_def by simp
      have "taken hash flags ch a lru s s2" if "taken hash flags ch a lru s' s2" for lru s2
        using that q am unfolding taken_def by simp
      then have "pull_result hash flags ch a s r" using r(2,3) p unfolding pull_result_def by (auto; blast)
      moreover have "pull_one hash q orig cur_lru tbytes flags age a s = Some r"
        unfolding pull_one_def it bind.bind_lunit t using r(1) True False by auto
      ultimately show ?thesis by blast
    qed
  qed
qed

section \<open>The walk\<close>

lemma prev_in_queue:
  assumes ok: "store_ok hash s ch Q F" and q: "Q q = xs @ a # ys" and it: "items s a = Some it"
  shows "it_prev it = (if xs = [] then None else Some (last xs))" "distinct (xs @ a # ys)" "set (xs @ a # ys) \<subseteq> linked ch"
proof -
  have S: "lru_ok s Q" "queued Q = linked ch" using ok by (simp_all add: store_ok_def)
  have "q < 256"
  proof (rule ccontr)
    assume "\<not> q < 256"
    then show False using S(1) q by (simp add: lru_ok_def)
  qed
  then have "queue_ok (items s) q (heads s ! q) (tails s ! q) (lru_sizes s ! q) (sizes_bytes s ! q) (Q q)"
    using S(1) by (simp add: lru_ok_def)
  then have d: "dlist (items s) None (heads s ! q) (xs @ a # ys)" and dd: "distinct (xs @ a # ys)" by (simp_all add: queue_ok_def q)
  show "distinct (xs @ a # ys)" by (rule dd)
  show "it_prev it = (if xs = [] then None else Some (last xs))" using dlist_middle [OF d it] by simp
  have "set (Q q) \<subseteq> queued Q" by auto
  then show "set (xs @ a # ys) \<subseteq> linked ch" using S(2) q by simp
qed

definition walk_post ::
  "(byte list \<Rightarrow> u32) \<Rightarrow> u8 \<Rightarrow> (slot \<Rightarrow> nat list) \<Rightarrow> 'a cache_mem_scheme \<Rightarrow> (nat \<times> (nat \<times> u8) option) option \<times> 'a cache_mem_scheme \<Rightarrow> bool" where
  "walk_post hash flags ch s r \<longleftrightarrow> amap hash (snd r) \<subseteq>\<^sub>m amap hash s \<and> (quiet flags ch s \<longrightarrow> amap hash (snd r) = amap hash s) \<and>
     (case fst r of
        Some (n, Some (a, lru)) \<Rightarrow> \<exists>ch' s'. taken hash flags ch' a lru s' (snd r)
      | _ \<Rightarrow> store_good hash (snd r))"

lemma walk_post_stop: "store_at hash ch s \<Longrightarrow> walk_post hash flags ch s (Some (n, None), s) \<and> walk_post hash flags ch s (None, s)"
  by (auto simp: walk_post_def store_good_at)

lemma walk_post_step:
  assumes "pulled hash flags ch a s ch' s'" "walk_post hash flags ch' s' r"
  shows "walk_post hash flags ch s r"
  using assms quiet_pulled [OF assms(1)] map_le_trans unfolding walk_post_def pulled_def by metis

lemma pull_loop_unfold:
  "pull_loop hash q orig cur_lru tbytes flags age tries None removed s = Some (Some (removed, None), s)"
  "pull_loop hash q orig cur_lru tbytes flags age 0 search removed s = Some (Some (removed, None), s)"
  by (subst pull_loop.simps, simp split: option.split)+

lemma pull_loop_step:
  assumes "items s a = Some it" "pull_one hash q orig cur_lru tbytes flags age a s = Some r"
  shows "pull_loop hash q orig cur_lru tbytes flags age (Suc tries) (Some a) removed s = (case fst r of
     PullNext n \<Rightarrow> pull_loop hash q orig cur_lru tbytes flags age tries (it_prev it) (removed + n) (snd r)
   | PullCrawler \<Rightarrow> pull_loop hash q orig cur_lru tbytes flags age (Suc tries) (it_prev it) removed (snd r)
   | PullBlocked \<Rightarrow> Some (None, snd r)
   | PullTake n lru \<Rightarrow> Some (Some (removed + n, Some (a, lru)), snd r))"
  by (subst pull_loop.simps) (simp add: assms split: pull.split)

lemma pull_loop_ok:
  "pull_ok hash ch s \<Longrightarrow> (\<And>a. search = Some a \<Longrightarrow> a \<in> linked ch) \<Longrightarrow>
   \<exists>r. pull_loop hash q orig cur_lru tbytes flags age tries search removed s = Some r \<and> walk_post hash flags ch s r"
proof (induction tries arbitrary: ch s search removed)
  case 0
  then show ?case using walk_post_stop [of hash ch s] by (auto simp: pull_loop_unfold(2) pull_ok_def)
next
  case (Suc tries)
  note ok = Suc.prems(1)
  have at: "store_at hash ch s" using ok by (simp add: pull_ok_def)
  obtain Q F where st: "store_ok hash s ch Q F" using at by (auto simp: store_at_def)
  have walk: "\<exists>r. pull_loop hash q orig cur_lru tbytes flags age (Suc tries) (Some a) removed s = Some r \<and> walk_post hash flags ch s r"
    if "Q qa = xs @ a # ys" for qa xs a ys
    using that
  proof (induction xs arbitrary: a ys rule: measure_induct_rule [of length])
    case (less xs)
    have "a \<in> queued Q" using less.prems by (intro in_queued [of _ _ qa]) simp
    then have a0: "a \<in> linked ch" using st by (simp add: store_ok_def)
    obtain it where it: "items s a = Some it" using at_linked [OF at a0] by blast
    note p = prev_in_queue [OF st less.prems it]
    obtain r where r: "pull_one hash q orig cur_lru tbytes flags age a s = Some r" "pull_result hash flags ch a s r"
      using pull_one_ok [OF ok a0] by blast
    note step = pull_loop_step [OF it r(1), of tries removed]
    show ?case
    proof (cases "fst r")
      case (PullNext n)
      then obtain ch' where pd: "pulled hash flags ch a s ch' (snd r)" using r(2) by (auto simp: pull_result_def)
      have "b \<in> linked ch'" if "it_prev it = Some b" for b
      proof -
        have "b \<in> set xs" "b \<noteq> a" using that p(1,2) last_in_set [of xs] by (auto split: if_splits)
        then show ?thesis using p(3) pd by (auto simp: pulled_def)
      qed
      moreover have "pull_ok hash ch' (snd r)" using pd by (simp add: pulled_def)
      ultimately obtain r' where "pull_loop hash q orig cur_lru tbytes flags age tries (it_prev it) (removed + n) (snd r) = Some r'"
        "walk_post hash flags ch' (snd r) r'" using Suc.IH by blast
      then show ?thesis using step PullNext walk_post_step [OF pd] by auto
    next
      case PullCrawler
      then have s: "snd r = s" using r(2) by (simp add: pull_result_def)
      show ?thesis
      proof (cases "xs = []")
        case True
        then show ?thesis using step PullCrawler p(1) walk_post_stop [OF at] by (auto simp: s pull_loop_unfold(1))
      next
        case False
        then have "Q qa = butlast xs @ last xs # a # ys" "length (butlast xs) < length xs" using less.prems by simp_all
        from less.IH [OF this(2,1)] show ?thesis using step PullCrawler p(1) False by (simp add: s)
      qed
    next
      case PullBlocked
      then show ?thesis using step r(2) walk_post_stop [OF at] by (auto simp: pull_result_def)
    next
      case (PullTake n lru)
      then have t: "taken hash flags ch a lru s (snd r)" using r(2) by (simp add: pull_result_def)
      then have "amap hash (snd r) \<subseteq>\<^sub>m amap hash s" "quiet flags ch s \<longrightarrow> amap hash (snd r) = amap hash s"
        unfolding taken_def by blast+
      then have "walk_post hash flags ch s (Some (removed + n, Some (a, lru)), snd r)"
        using t unfolding walk_post_def by auto
      then show ?thesis using step PullTake by auto
    qed
  qed
  show ?case
  proof (cases search)
    case None
    then show ?thesis using walk_post_stop [OF at] by (auto simp: pull_loop_unfold(1))
  next
    case (Some a)
    then have "a \<in> linked ch" using Suc.prems(2) by blast
    then have "a \<in> queued Q" using st by (simp add: store_ok_def)
    then obtain qa where "a \<in> set (Q qa)" by (auto simp: queued_def)
    then obtain xs ys where "Q qa = xs @ a # ys" using split_list by metis
    from walk [OF this] show ?thesis using Some by simp
  qed
qed

lemma cold_clsid: "((c :: u8) AND - 193 OR 128) AND - 193 = c AND - 193"
  by (simp add: bit.conj_disj_distrib2 and.assoc)

text \<open>The item that the walk has taken: into its new queue if it has one, and the reference is dropped.\<close>

lemma taken_finish:
  assumes t: "taken hash flags ch a lru s0 s"
  shows "\<exists>s2 s3. (if lru \<noteq> 0 then do { s' \<leftarrow> upd_item a (\<lambda>it. it\<lparr>slabs_clsid := ITEM_clsid it OR lru\<rparr>) s; item_link_q a s' } else Some s) = Some s2 \<and>
    do_item_remove a s2 = Some s3 \<and> store_good hash s3 \<and> amap hash s3 = amap hash s"
proof -
  obtain it where it: "items s a = Some it" "it_flags it AND ITEM_SLABBED = 0" "0 < refcount it" and c:
    "if lru = 0
        then \<exists>ch'. store_at hash ch' s \<and> (refcount it = 1 \<longrightarrow> it_flags it AND ITEM_LINKED = 0 \<and> it_flags it AND ITEM_CHUNKED = 0 \<and>
          class_valid s it \<and> a \<notin> linked ch')
        else (lru = WARM_LRU \<or> lru = COLD_LRU) \<and> refcount it \<noteq> 1 \<and> (\<exists>Q F. store_gap hash s ch Q F a) \<and> marks_ok ch s"
    using t unfolding taken_def by blast
  show ?thesis
  proof (cases "lru = 0")
    case True
    then obtain ch' where ch': "store_at hash ch' s" "refcount it = 1 \<Longrightarrow> it_flags it AND ITEM_LINKED = 0 \<and> it_flags it AND ITEM_CHUNKED = 0 \<and>
          class_valid s it \<and> a \<notin> linked ch'" using c by auto
    obtain s3 where "do_item_remove a s = Some s3" "store_at hash ch' s3" "amap hash s3 = amap hash s"
      using remove_at [OF ch'(1) it ch'(2)] by blast
    then show ?thesis using True by (auto simp: store_good_at)
  next
    case False
    then obtain Q F where g: "store_gap hash s ch Q F a" "marks_ok ch s" "refcount it \<noteq> 1" "lru = WARM_LRU \<or> lru = COLD_LRU" using c by auto
    let ?it = "it\<lparr>slabs_clsid := ITEM_clsid it OR lru\<rparr>" and ?s1 = "s\<lparr>items := (items s)(a \<mapsto> it\<lparr>slabs_clsid := ITEM_clsid it OR lru\<rparr>)\<rparr>"
    have k: "same_keep it ?it"
      using g(4) by (auto simp: same_keep_def hash_view_def ITEM_ntotal_def ITEM_clsid_def warm_clsid cold_clsid)
    note g1 = upd_gap [OF g(1) it(1) k it(2)]
    have it1: "items ?s1 a = Some ?it" "it_flags ?it AND ITEM_SLABBED = 0" using it(2) by simp_all
    obtain s2 n p Q2 where s2: "do_item_link_q a ?s1 = Some s2" "store_ok hash s2 ch Q2 F" "amap hash s2 = amap hash ?s1"
      "items s2 a = Some (?it\<lparr>it_next := n, it_prev := p\<rparr>)" "kept (items ?s1) (items s2)"
      using link_gap [OF g1(1) it1] by blast
    have "kept (items s) (items ?s1)" using kept_upd [of "items s", OF it(1) k] by simp
    then have "marks_ok ch s2" using marks_kept [OF kept_trans [OF _ s2(5)] g(2)] by blast
    then have at2: "store_at hash ch s2" using s2(2) by (auto simp: store_at_marks)
    let ?it2 = "?it\<lparr>it_next := n, it_prev := p\<rparr>"
    have f: "it_flags ?it2 AND ITEM_SLABBED = 0" "0 < refcount ?it2" "refcount ?it2 \<noteq> 1" using it(2,3) g(3) by simp_all
    obtain s3 where "do_item_remove a s2 = Some s3" "store_at hash ch s3" "amap hash s3 = amap hash s2"
      using remove_at [OF at2 s2(4) f(1,2)] f(3) by blast
    moreover have "upd_item a (\<lambda>it. it\<lparr>slabs_clsid := ITEM_clsid it OR lru\<rparr>) s = Some ?s1" using it(1) by (simp add: upd_item_def)
    ultimately show ?thesis using False s2(1,3) g1(2) by (auto simp: store_good_at item_link_q_def)
  qed
qed

text \<open>
  Claim C32. Working on the tail of a queue is safe and loses nothing it should keep: on a store
  that satisfies the invariant, \<open>lru_pull_tail\<close> returns for any of the queues, any limits and any
  outcomes of the locks it tries, without undefined behaviour; the invariant holds afterwards and
  every key that is found then was there before with the same item. If nothing is to be evicted
  and no item has expired or is flushed, every key stays.
\<close>

theorem lru_pull_tail_safe:
  assumes "store_good hash s" and "power_largest s < length (slabclass s)" and "orig OR unat cur_lru < 256"
    and "\<forall>k a it. amap hash s k = Some a \<longrightarrow> items s a = Some it \<longrightarrow> refcount it + 1 \<noteq> 0"
  shows "\<exists>n s'. lru_pull_tail hash orig cur_lru tbytes flags age s = Some (n, s') \<and> store_good hash s' \<and>
    amap hash s' \<subseteq>\<^sub>m amap hash s \<and>
    (flags AND LRU_PULL_EVICT = 0 \<and> tail_repair_time (settings s) = 0 \<and>
       (oldest_live (settings s) = 0 \<or> current_time s < oldest_live (settings s)) \<and>
       (\<forall>k a it. amap hash s k = Some a \<longrightarrow> items s a = Some it \<longrightarrow> exptime it = 0 \<or> current_time s \<le> exptime it) \<longrightarrow>
     amap hash s' = amap hash s)"
proof (cases "orig = 0")
  case True
  then show ?thesis using assms(1) by (simp add: lru_pull_tail_def)
next
  case False
  obtain ch where at: "store_at hash ch s" using assms(1) by (auto simp: store_good_at)
  have key: "\<exists>k. amap hash s k = Some b" if "b \<in> linked ch" for b using at_amap [OF at] that by blast
  have ok: "pull_ok hash ch s" using at assms(2,4) key unfolding pull_ok_def by blast
  let ?q = "orig OR unat cur_lru"
  obtain Q F where st: "store_ok hash s ch Q F" using at by (auto simp: store_at_def)
  have S: "lru_ok s Q" "queued Q = linked ch" using st by (simp_all add: store_ok_def)
  have "queue_ok (items s) ?q (heads s ! ?q) (tails s ! ?q) (lru_sizes s ! ?q) (sizes_bytes s ! ?q) (Q ?q)"
    using S(1) assms(3) by (simp add: lru_ok_def)
  then have "tails s ! ?q = (if Q ?q = [] then None else Some (last (Q ?q)))" by (simp add: queue_ok_def)
  then have "a \<in> linked ch" if "tails s ! ?q = Some a" for a
    using that S(2) in_queued [of a Q ?q] last_in_set [of "Q ?q"] by (auto split: if_splits)
  from pull_loop_ok [OF ok this] obtain r where r: "pull_loop hash ?q orig cur_lru tbytes flags age 5 (tails s ! ?q) 0 s = Some r"
    "walk_post hash flags ch s r" by blast
  have q: "quiet flags ch s" if "flags AND LRU_PULL_EVICT = 0" "tail_repair_time (settings s) = 0"
    "oldest_live (settings s) = 0 \<or> current_time s < oldest_live (settings s)"
    "\<forall>k a it. amap hash s k = Some a \<longrightarrow> items s a = Some it \<longrightarrow> exptime it = 0 \<or> current_time s \<le> exptime it"
    using that key unfolding quiet_def by blast
  obtain res s1 where rs: "r = (res, s1)" by (cases r)
  have am: "amap hash s1 \<subseteq>\<^sub>m amap hash s" "quiet flags ch s \<longrightarrow> amap hash s1 = amap hash s" using r(2) by (simp_all add: walk_post_def rs)
  have "\<exists>n s'. lru_pull_tail hash orig cur_lru tbytes flags age s = Some (n, s') \<and> store_good hash s' \<and> amap hash s' = amap hash s1"
  proof (cases "\<exists>n a lru. res = Some (n, Some (a, lru))")
    case False
    then have "store_good hash s1" using r(2) by (auto simp: walk_post_def rs split: option.splits)
    then show ?thesis using r(1) \<open>orig \<noteq> 0\<close> False by (auto simp: lru_pull_tail_def rs split: option.splits)
  next
    case True
    then obtain n a lru ch' s' where t: "res = Some (n, Some (a, lru))" "taken hash flags ch' a lru s' s1"
      using r(2) by (auto simp: walk_post_def rs)
    from taken_finish [OF t(2)] obtain s2 s3 where
      f: "(if lru \<noteq> 0 then do { s' \<leftarrow> upd_item a (\<lambda>it. it\<lparr>slabs_clsid := ITEM_clsid it OR lru\<rparr>) s1; item_link_q a s' } else Some s1) = Some s2"
        "do_item_remove a s2 = Some s3" "store_good hash s3" "amap hash s3 = amap hash s1" by blast
    then have "lru_pull_tail hash orig cur_lru tbytes flags age s = Some (n, s3)"
      unfolding lru_pull_tail_def Let_def r(1) rs using \<open>orig \<noteq> 0\<close> by (simp add: t(1))
    then show ?thesis using f(3,4) by blast
  qed
  then show ?thesis using am q by auto
qed

theorem lru_pull_tail_safe_witness:
  "\<exists>s n s'. link_item sample_hash 1 sample_get_store = Some s \<and>
     lru_pull_tail sample_hash 1 HOT_LRU 0 LRU_PULL_CRAWL_BLOCKS 0 s = Some (n, s') \<and> amap sample_hash s' = [[97] \<mapsto> 1]"
proof -
  obtain s it1 where s: "link_item sample_hash 1 sample_get_store = Some s" "store_good sample_hash s" "amap sample_hash s = [[97] \<mapsto> 1]"
    "items s 1 = Some it1" "item_core it1 = item_core (linked_item (plain_item [97]) sample_get_store)"
    "settings s = settings sample_slabs" "power_largest s = 3" "length (slabclass s) = 64" using sample_linked by blast
  note f = item_core_fields [OF s(5)]
  have r: "refcount it1 = 2" "exptime it1 = 0" by (simp_all add: f linked_item_def plain_item_def)
  have one: "\<forall>k a it. amap sample_hash s k = Some a \<longrightarrow> items s a = Some it \<longrightarrow> refcount it + 1 \<noteq> 0 \<and> exptime it = 0"
    using s(3,4) r by (auto split: if_splits)
  have "\<exists>n s'. lru_pull_tail sample_hash 1 HOT_LRU 0 LRU_PULL_CRAWL_BLOCKS 0 s = Some (n, s') \<and> amap sample_hash s' = amap sample_hash s"
    using lru_pull_tail_safe [of sample_hash s 1 HOT_LRU 0 LRU_PULL_CRAWL_BLOCKS 0] s(2,6-8) one by (auto simp: sample_slabs_def)
  then show ?thesis using s(1,3) by auto
qed

end
