(* ===== verification/PrefixStats.thy ===== *)
theory PrefixStats
  imports Util
begin

text \<open>
  Experiments/memcached/stats.c: counters for each prefix of the keys, up to a delimiter,
  and the text that shows them. The chain of a bucket is a list, an entry is named by its
  bucket and its place there. The hash function is a parameter; the answers of \<open>calloc\<close> and
  \<open>malloc\<close> are part of the state, and they succeed once the list of answers is used up. The
  lock makes each operation atomic. A \<open>None\<close> is a failed assertion or undefined behaviour.
\<close>

section \<open>The state\<close>

definition NUL :: char where [simp]: "NUL = CHR 0x00"

definition crlf :: string where "crlf = [CHR 0x0D, CHR 0x0A]"

text \<open>\<open>pf_prefix\<close> is the whole buffer, with its NUL.\<close>

record prefix_entry =
  pf_prefix :: string
  prefix_len :: u64
  num_gets :: u64
  num_sets :: u64
  num_deletes :: u64
  num_hits :: u64

record prefix_table =
  prefix_stats :: "prefix_entry list list"
  num_prefixes :: int
  total_prefix_size :: int
  prefix_delimiter :: char
  alloc_plan :: "bool list"

definition stats_prefix_init :: "prefix_table \<Rightarrow> prefix_table" where
  "stats_prefix_init s = s\<lparr>prefix_stats := replicate 256 []\<rparr>"

definition stats_prefix_clear :: "prefix_table \<Rightarrow> prefix_table" where
  "stats_prefix_clear s = s\<lparr>prefix_stats := replicate 256 [], num_prefixes := 0, total_prefix_size := 0\<rparr>"

definition alloc_answer :: "prefix_table \<Rightarrow> bool \<times> prefix_table" where
  "alloc_answer s = (case alloc_plan s of [] \<Rightarrow> (True, s) | b # bs \<Rightarrow> (b, s\<lparr>alloc_plan := bs\<rparr>))"

section \<open>Finding a prefix\<close>

text \<open>The length of the prefix, \<open>None\<close> for \<open>bailout\<close>.\<close>

fun prefix_length :: "char \<Rightarrow> string \<Rightarrow> nat \<Rightarrow> nat option" where
  "prefix_length d [] n = None"
| "prefix_length d (c # cs) n = (if c = NUL then None else if c = d then Some n else prefix_length d cs (n + 1))"

text \<open>\<open>strncmp (a, b, n) == 0\<close>; \<open>None\<close> reads past the end of a buffer.\<close>

fun strncmp_eq :: "nat \<Rightarrow> string \<Rightarrow> string \<Rightarrow> bool option" where
  "strncmp_eq 0 a b = Some True"
| "strncmp_eq (Suc n) (x # a) (y # b) = (if x \<noteq> y then Some False else if x = NUL then Some True else strncmp_eq n a b)"
| "strncmp_eq (Suc n) a b = None"

fun prefix_search :: "string \<Rightarrow> nat \<Rightarrow> prefix_entry list \<Rightarrow> nat \<Rightarrow> nat option option" where
  "prefix_search key len [] i = Some None"
| "prefix_search key len (e # es) i = do {
     eq \<leftarrow> strncmp_eq len (pf_prefix e) key;
     if eq then Some (Some i) else prefix_search key len es (i + 1) }"

definition new_prefix :: "string \<Rightarrow> nat \<Rightarrow> prefix_entry" where
  "new_prefix key len = \<lparr>pf_prefix = take len key @ [NUL], prefix_len = of_nat len,
     num_gets = 0, num_sets = 0, num_deletes = 0, num_hits = 0\<rparr>"

text \<open>The new entry goes to the head of its bucket; \<open>total_prefix_size\<close> is narrowed to \<open>int\<close>.\<close>

definition stats_prefix_find ::
  "(string \<Rightarrow> u32) \<Rightarrow> string \<Rightarrow> prefix_table \<Rightarrow> ((nat \<times> nat) option \<times> prefix_table) option" where
  "stats_prefix_find hash key s =
     (case prefix_length (prefix_delimiter s) key 0 of
        None \<Rightarrow> Some (None, s)
      | Some len \<Rightarrow> do {
          let hashval = unat (hash (take len key) mod 256);
          found \<leftarrow> prefix_search key len (prefix_stats s ! hashval) 0;
          case found of
            Some i \<Rightarrow> Some (Some (hashval, i), s)
          | None \<Rightarrow>
              let (got, s1) = alloc_answer s
              in if \<not> got then Some (None, s1)
                 else let (got2, s2) = alloc_answer s1
                      in if \<not> got2 then Some (None, s2)
                         else if num_prefixes s2 = 2147483647 then None
                         else Some (Some (hashval, 0),
                           s2\<lparr>prefix_stats := (prefix_stats s2)[hashval := new_prefix key len # prefix_stats s2 ! hashval],
                              num_prefixes := num_prefixes s2 + 1,
                              total_prefix_size := sint (word_of_int (total_prefix_size s2) + of_nat len :: u32)\<rparr>) })"

definition upd_prefix :: "nat \<times> nat \<Rightarrow> (prefix_entry \<Rightarrow> prefix_entry) \<Rightarrow> prefix_table \<Rightarrow> prefix_table" where
  "upd_prefix p f s = (case p of (b, i) \<Rightarrow>
     s\<lparr>prefix_stats := (prefix_stats s)[b := (prefix_stats s ! b)[i := f (prefix_stats s ! b ! i)]]\<rparr>)"

section \<open>Counting\<close>

definition stats_prefix_record_get :: "(string \<Rightarrow> u32) \<Rightarrow> string \<Rightarrow> bool \<Rightarrow> prefix_table \<Rightarrow> prefix_table option" where
  "stats_prefix_record_get hash key is_hit s = do {
     (pfs, s1) \<leftarrow> stats_prefix_find hash key s;
     case pfs of
       None \<Rightarrow> Some s1
     | Some p \<Rightarrow> Some (upd_prefix p (\<lambda>e. let e1 = e\<lparr>num_gets := num_gets e + 1\<rparr>
                                       in if is_hit then e1\<lparr>num_hits := num_hits e1 + 1\<rparr> else e1) s1) }"

definition stats_prefix_record_delete :: "(string \<Rightarrow> u32) \<Rightarrow> string \<Rightarrow> prefix_table \<Rightarrow> prefix_table option" where
  "stats_prefix_record_delete hash key s = do {
     (pfs, s1) \<leftarrow> stats_prefix_find hash key s;
     case pfs of
       None \<Rightarrow> Some s1
     | Some p \<Rightarrow> Some (upd_prefix p (\<lambda>e. e\<lparr>num_deletes := num_deletes e + 1\<rparr>) s1) }"

definition stats_prefix_record_set :: "(string \<Rightarrow> u32) \<Rightarrow> string \<Rightarrow> prefix_table \<Rightarrow> prefix_table option" where
  "stats_prefix_record_set hash key s = do {
     (pfs, s1) \<leftarrow> stats_prefix_find hash key s;
     case pfs of
       None \<Rightarrow> Some s1
     | Some p \<Rightarrow> Some (upd_prefix p (\<lambda>e. e\<lparr>num_sets := num_sets e + 1\<rparr>) s1) }"

section \<open>The text\<close>

definition dump_format :: string where
  "dump_format = ''PREFIX %s get %llu hit %llu set %llu del %llu'' @ crlf"

definition c_string :: "string \<Rightarrow> string" where
  "c_string buf = takeWhile (\<lambda>c. c \<noteq> NUL) buf"

definition prefix_line :: "prefix_entry \<Rightarrow> string" where
  "prefix_line e = ''PREFIX '' @ c_string (pf_prefix e) @ '' get '' @ decimal (unat (num_gets e)) @
     '' hit '' @ decimal (unat (num_hits e)) @ '' set '' @ decimal (unat (num_sets e)) @
     '' del '' @ decimal (unat (num_deletes e)) @ crlf"

definition dump_size :: "prefix_table \<Rightarrow> u64" where
  "dump_size s = of_nat (length dump_format) + word_of_int (total_prefix_size s) +
     word_of_int (num_prefixes s) * (of_nat (length dump_format) - 2 + 4 * (20 - 4)) + 6"

text \<open>
  What \<open>snprintf\<close> has written is the text so far; the assertion follows each line. The
  position in the buffer is an \<open>int\<close>.
\<close>

fun dump_lines :: "nat \<Rightarrow> prefix_entry list \<Rightarrow> string \<Rightarrow> string option" where
  "dump_lines room [] out = Some out"
| "dump_lines room (e # es) out =
     (let out' = out @ prefix_line e
      in if length out' < room \<and> length out' < 2147483648 then dump_lines room es out' else None)"

text \<open>The result is the buffer up to \<open>*length\<close>, \<open>None\<close> inside for NULL.\<close>

definition stats_prefix_dump :: "prefix_table \<Rightarrow> (string option \<times> prefix_table) option" where
  "stats_prefix_dump s =
     (let room = unat (dump_size s); (got, s1) = alloc_answer s
      in if \<not> got then Some (None, s1)
         else do {
           out \<leftarrow> dump_lines room (concat (prefix_stats s1)) [];
           if length out + 6 \<le> room \<and> length out + 5 < 2147483648
           then Some (Some (out @ ''END'' @ crlf), s1) else None })"

section \<open>The text of an entry and its length\<close>

definition entry_text :: "prefix_entry \<Rightarrow> string" where
  "entry_text e = butlast (pf_prefix e)"

definition entry_ok :: "prefix_entry \<Rightarrow> bool" where
  "entry_ok e \<longleftrightarrow> pf_prefix e = entry_text e @ [NUL] \<and> NUL \<notin> set (entry_text e)"

lemma c_string_entry: "entry_ok e \<Longrightarrow> c_string (pf_prefix e) = entry_text e"
  by (auto simp: entry_ok_def c_string_def takeWhile_tail intro!: takeWhile_append2)

lemma length_decimal: "n < 10 ^ Suc k \<Longrightarrow> length (decimal n) \<le> Suc k"
proof (induction k arbitrary: n)
  case (Suc k)
  show ?case
  proof (cases "n < 10")
    case False
    have "length (decimal (n div 10)) \<le> Suc k" using Suc(2) by (intro Suc(1)) simp
    then show ?thesis using False by (subst decimal.simps) simp
  qed (subst decimal.simps, simp)
qed (subst decimal.simps, simp)

lemma length_decimal64: "length (decimal (unat (w :: u64))) \<le> 20"
proof -
  have "unat w < 10 ^ Suc 19" using unat_le_max64 [of w] by simp
  then show ?thesis using length_decimal [of "unat w" 19] by simp
qed

lemma length_prefix_line:
  assumes "entry_ok e"
  shows "length (prefix_line e) \<le> 109 + length (entry_text e)"
  using length_decimal64 [of "num_gets e"] length_decimal64 [of "num_hits e"]
    length_decimal64 [of "num_sets e"] length_decimal64 [of "num_deletes e"]
  by (simp add: prefix_line_def c_string_entry [OF assms] crlf_def)

section \<open>Searching a bucket\<close>

primrec first_index :: "('a \<Rightarrow> bool) \<Rightarrow> 'a list \<Rightarrow> nat option" where
  "first_index P [] = None"
| "first_index P (x # xs) = (if P x then Some 0 else map_option Suc (first_index P xs))"

lemma first_index_Some: "first_index P xs = Some i \<Longrightarrow> i < length xs \<and> P (xs ! i)"
  by (induction xs arbitrary: i) (auto split: if_splits)

lemma first_index_None: "first_index P xs = None \<longleftrightarrow> (\<forall>x \<in> set xs. \<not> P x)"
  by (induction xs) auto

lemma find_first: "find P xs = map_option (nth xs) (first_index P xs)"
  by (induction xs) (auto simp: option.map_comp comp_def)

text \<open>Changing the first element that satisfies \<open>P\<close>, for what other searches find.\<close>

lemma find_upd_same:
  assumes "first_index P xs = Some i" and "P (f (xs ! i))"
  shows "find P (xs[i := f (xs ! i)]) = Some (f (xs ! i))"
  using assms by (induction xs arbitrary: i) (auto split: if_splits)

lemma find_upd_other:
  assumes "i < length xs" and "\<not> Q (xs ! i)" and "\<not> Q (f (xs ! i))"
  shows "find Q (xs[i := f (xs ! i)]) = find Q xs"
  using assms by (induction xs arbitrary: i) (auto split: nat.splits)

definition key_prefix :: "char \<Rightarrow> string \<Rightarrow> string option" where
  "key_prefix d key = map_option (\<lambda>n. take n key) (prefix_length d key 0)"

lemma prefix_length_Some:
  "prefix_length d key n = Some m \<Longrightarrow> n \<le> m \<and> m - n < length key \<and> NUL \<notin> set (take (m - n) key)"
proof (induction d key n rule: prefix_length.induct)
  case (2 d c cs n)
  show ?case
  proof (cases "c = NUL \<or> c = d")
    case False
    then have "prefix_length d cs (n + 1) = Some m" using 2(2) by auto
    then have "n + 1 \<le> m \<and> m - (n + 1) < length cs \<and> NUL \<notin> set (take (m - (n + 1)) cs)" using 2(1) False by blast
    moreover from this have "m - n = Suc (m - (n + 1))" using Suc_diff_Suc [of n m] by linarith
    ultimately show ?thesis using False by auto
  qed (use 2(2) in \<open>auto split: if_splits\<close>)
qed simp

lemma key_prefix_Some:
  assumes "key_prefix d key = Some p"
  shows "prefix_length d key 0 = Some (length p) \<and> take (length p) key = p \<and> length p < length key \<and> NUL \<notin> set p"
  using assms prefix_length_Some [of d key 0] by (auto simp: key_prefix_def)

lemma strncmp_eq_prefix:
  assumes "take n key = p" and "length p = n" and "NUL \<notin> set p" and "NUL \<notin> set q"
  shows "strncmp_eq n (q @ [NUL]) key = Some (take n q = p)"
  using assms
proof (induction n arbitrary: q key p)
  case (Suc n)
  then obtain c cs where k: "key = c # cs" "c \<noteq> NUL" "p = c # take n cs" by (cases key) auto
  show ?case
  proof (cases q)
    case (Cons x q')
    then show ?thesis using Suc.IH [of cs "take n cs" q'] Suc.prems k by auto
  qed (use k in auto)
qed simp

lemma prefix_search_first:
  assumes "take n key = p" and "length p = n" and "NUL \<notin> set p" and "\<forall>e \<in> set es. entry_ok e"
  shows "prefix_search key n es i = Some (map_option ((+) i) (first_index (\<lambda>e. take n (entry_text e) = p) es))"
  using assms(4)
proof (induction es arbitrary: i)
  case (Cons e es)
  then have "strncmp_eq n (pf_prefix e) key = Some (take n (entry_text e) = p)"
    using strncmp_eq_prefix [OF assms(1-3), of "entry_text e"] by (simp add: entry_ok_def)
  then show ?case using Cons by (cases "first_index (\<lambda>e. take n (entry_text e) = p) es") simp_all
qed simp

section \<open>Sessions\<close>

datatype prefix_event = PGet string bool | PSet string | PDelete string | PClear

fun prefix_step :: "(string \<Rightarrow> u32) \<Rightarrow> prefix_event \<Rightarrow> prefix_table \<Rightarrow> prefix_table option" where
  "prefix_step hash (PGet key hit) s = stats_prefix_record_get hash key hit s"
| "prefix_step hash (PSet key) s = stats_prefix_record_set hash key s"
| "prefix_step hash (PDelete key) s = stats_prefix_record_delete hash key s"
| "prefix_step hash PClear s = Some (stats_prefix_clear s)"

primrec prefix_run :: "(string \<Rightarrow> u32) \<Rightarrow> prefix_event list \<Rightarrow> prefix_table \<Rightarrow> prefix_table option" where
  "prefix_run hash [] s = Some s"
| "prefix_run hash (e # es) s = do { s1 \<leftarrow> prefix_step hash e s; prefix_run hash es s1 }"

fun event_key :: "prefix_event \<Rightarrow> string option" where
  "event_key (PGet key hit) = Some key"
| "event_key (PSet key) = Some key"
| "event_key (PDelete key) = Some key"
| "event_key PClear = None"

fun bump_prefix :: "prefix_event \<Rightarrow> prefix_entry \<Rightarrow> prefix_entry" where
  "bump_prefix (PGet key hit) e = e\<lparr>num_gets := num_gets e + 1, num_hits := num_hits e + (if hit then 1 else 0)\<rparr>"
| "bump_prefix (PSet key) e = e\<lparr>num_sets := num_sets e + 1\<rparr>"
| "bump_prefix (PDelete key) e = e\<lparr>num_deletes := num_deletes e + 1\<rparr>"
| "bump_prefix PClear e = e"

lemma prefix_step_find:
  assumes "event_key ev = Some key"
  shows "prefix_step hash ev s = do { (pfs, s1) \<leftarrow> stats_prefix_find hash key s;
     Some (case pfs of None \<Rightarrow> s1 | Some p \<Rightarrow> upd_prefix p (bump_prefix ev) s1) }"
proof -
  have "bump_prefix (PGet key hit) = (\<lambda>e. let e1 = e\<lparr>num_gets := num_gets e + 1\<rparr>
      in if hit then e1\<lparr>num_hits := num_hits e1 + 1\<rparr> else e1)" for hit
    by (rule ext) simp
  moreover have "bump_prefix (PSet key) = (\<lambda>e. e\<lparr>num_sets := num_sets e + 1\<rparr>)"
    "bump_prefix (PDelete key) = (\<lambda>e. e\<lparr>num_deletes := num_deletes e + 1\<rparr>)" by (rule ext, simp)+
  ultimately show ?thesis
    using assms
    by (cases ev) (auto simp: stats_prefix_record_get_def stats_prefix_record_set_def
        stats_prefix_record_delete_def split: option.splits bind_splits)
qed

lemma bump_prefix_keeps [simp]: "pf_prefix (bump_prefix ev e) = pf_prefix e" "entry_text (bump_prefix ev e) = entry_text e"
  "entry_ok (bump_prefix ev e) = entry_ok e"
  by (cases ev; simp add: entry_text_def entry_ok_def)+

section \<open>The invariant and the text\<close>

definition text_sum :: "prefix_entry list \<Rightarrow> nat" where
  "text_sum es = sum_list (map (length \<circ> entry_text) es)"

definition table_inv :: "nat \<Rightarrow> prefix_table \<Rightarrow> bool" where
  "table_inv n s \<longleftrightarrow> length (prefix_stats s) = 256 \<and> (\<forall>e \<in> set (concat (prefix_stats s)). entry_ok e) \<and>
     num_prefixes s = int (length (concat (prefix_stats s))) \<and>
     total_prefix_size s = int (text_sum (concat (prefix_stats s))) \<and>
     109 * length (concat (prefix_stats s)) + text_sum (concat (prefix_stats s)) \<le> n"

lemma concat_upd:
  assumes "b < length xss"
  shows "concat (xss[b := ys]) = concat (take b xss) @ ys @ concat (drop (Suc b) xss)"
    and "concat xss = concat (take b xss) @ xss ! b @ concat (drop (Suc b) xss)"
proof -
  show "concat (xss[b := ys]) = concat (take b xss) @ ys @ concat (drop (Suc b) xss)"
    using assms by (simp add: upd_conv_take_nth_drop)
  have "xss = take b xss @ xss ! b # drop (Suc b) xss" using assms by (rule id_take_nth_drop)
  then show "concat xss = concat (take b xss) @ xss ! b @ concat (drop (Suc b) xss)"
    by (metis concat.simps(2) concat_append)
qed

lemma text_sum_simps [simp]: "text_sum [] = 0" "text_sum (e # es) = length (entry_text e) + text_sum es"
  "text_sum (xs @ ys) = text_sum xs + text_sum ys"
  by (simp_all add: text_sum_def)

lemma table_inv_upd:
  assumes "table_inv n s" and "b < 256" and "i < length (prefix_stats s ! b)"
  shows "table_inv n (upd_prefix (b, i) (bump_prefix ev) s)"
proof -
  let ?B = "prefix_stats s ! b"
  have b: "b < length (prefix_stats s)" using assms(1,2) by (simp add: table_inv_def)
  have e: "?B = take i ?B @ ?B ! i # drop (Suc i) ?B" using assms(3) by (rule id_take_nth_drop)
  have u: "?B[i := bump_prefix ev (?B ! i)] = take i ?B @ bump_prefix ev (?B ! i) # drop (Suc i) ?B"
    using assms(3) by (rule upd_conv_take_nth_drop)
  have "text_sum (?B[i := bump_prefix ev (?B ! i)]) = text_sum ?B"
    unfolding u by (subst (4) e) simp
  moreover have "\<forall>e \<in> set (?B[i := bump_prefix ev (?B ! i)]). entry_ok e" if "\<forall>e \<in> set ?B. entry_ok e"
    using that assms(3) set_update_subset_insert [of ?B i] by fastforce
  ultimately show ?thesis
    using assms(1) concat_upd [OF b]
    by (simp add: table_inv_def upd_prefix_def ball_Un)
qed

definition bucket_of :: "(string \<Rightarrow> u32) \<Rightarrow> string \<Rightarrow> nat" where
  "bucket_of hash p = unat (hash p mod 256)"

lemma bucket_of_less: "bucket_of hash p < 256"
proof -
  have "unat (hash p mod 256) = unat (hash p) mod 256" by (simp add: unat_mod_distrib)
  then show ?thesis by (simp add: bucket_of_def)
qed

lemma alloc_answer_eq: "alloc_answer s = (alloc_plan s = [] \<or> hd (alloc_plan s), s\<lparr>alloc_plan := tl (alloc_plan s)\<rparr>)"
  by (cases "alloc_plan s") (simp_all add: alloc_answer_def)

text \<open>Whether \<open>calloc\<close> and then \<open>malloc\<close> succeed, and the answers that are left.\<close>

definition entry_answers :: "bool list \<Rightarrow> bool \<times> bool list" where
  "entry_answers plan = (if plan \<noteq> [] \<and> \<not> hd plan then (False, tl plan)
     else (tl plan = [] \<or> hd (tl plan), tl (tl plan)))"

definition with_prefix :: "nat \<Rightarrow> prefix_entry \<Rightarrow> prefix_table \<Rightarrow> prefix_table" where
  "with_prefix b e s = s\<lparr>prefix_stats := (prefix_stats s)[b := e # prefix_stats s ! b],
     num_prefixes := num_prefixes s + 1, total_prefix_size := total_prefix_size s + int (length (entry_text e))\<rparr>"

lemma new_prefix_text: "entry_text (new_prefix key n) = take n key"
  by (simp add: entry_text_def new_prefix_def)

lemma find_cases:
  assumes inv: "table_inv n s" and p: "key_prefix (prefix_delimiter s) key = Some p" and bound: "109 + length key + n < 2147483648"
  obtains (found) i where "first_index (\<lambda>e. take (length p) (entry_text e) = p) (prefix_stats s ! bucket_of hash p) = Some i"
      "stats_prefix_find hash key s = Some (Some (bucket_of hash p, i), s)"
  | (failed) plan where "stats_prefix_find hash key s = Some (None, s\<lparr>alloc_plan := plan\<rparr>)" "entry_answers (alloc_plan s) = (False, plan)"
      "first_index (\<lambda>e. take (length p) (entry_text e) = p) (prefix_stats s ! bucket_of hash p) = None"
  | (added) plan where "first_index (\<lambda>e. take (length p) (entry_text e) = p) (prefix_stats s ! bucket_of hash p) = None"
      "stats_prefix_find hash key s = Some (Some (bucket_of hash p, 0),
         with_prefix (bucket_of hash p) (new_prefix key (length p)) (s\<lparr>alloc_plan := plan\<rparr>))" "entry_answers (alloc_plan s) = (True, plan)"
proof -
  let ?b = "bucket_of hash p" and ?B = "prefix_stats s ! bucket_of hash p" and ?n = "length p"
  let ?first = "first_index (\<lambda>e. take ?n (entry_text e) = p) ?B"
  note k = key_prefix_Some [OF p]
  have b: "?b < length (prefix_stats s)" using inv bucket_of_less by (simp add: table_inv_def)
  have "\<forall>e \<in> set ?B. entry_ok e" using inv concat_upd(2) [OF b] by (simp add: table_inv_def ball_Un)
  then have search: "prefix_search key ?n ?B 0 = Some ?first"
    using prefix_search_first [of ?n key p ?B 0] k by (cases ?first) simp_all
  have find: "stats_prefix_find hash key s = (case ?first of
      Some i \<Rightarrow> Some (Some (?b, i), s)
    | None \<Rightarrow> let (got, s1) = alloc_answer s
        in if \<not> got then Some (None, s1)
           else let (got2, s2) = alloc_answer s1
                in if \<not> got2 then Some (None, s2)
                   else if num_prefixes s2 = 2147483647 then None
                   else Some (Some (?b, 0),
                     s2\<lparr>prefix_stats := (prefix_stats s2)[?b := new_prefix key ?n # prefix_stats s2 ! ?b],
                        num_prefixes := num_prefixes s2 + 1,
                        total_prefix_size := sint (word_of_int (total_prefix_size s2) + of_nat ?n :: u32)\<rparr>))"
    using k search unfolding bucket_of_def by (simp add: stats_prefix_find_def Let_def split: option.split)
  show thesis
  proof (cases ?first)
    case (Some i)
    then show thesis using found find by simp
  next
    case None
    let ?t = "text_sum (concat (prefix_stats s))"
    have t: "total_prefix_size s = int ?t" "?t + ?n < 2147483648" "num_prefixes s < 2147483647"
      using inv bound k by (auto simp: table_inv_def)
    have "word_of_int (int ?t) + of_nat ?n = (of_nat (?t + ?n) :: u32)" by simp
    then have sum: "sint (word_of_int (total_prefix_size s) + of_nat ?n :: u32) = int (?t + ?n)"
      using sint_small [OF t(2)] t(1) by (simp del: of_nat_add)
    obtain ok plan where ans: "entry_answers (alloc_plan s) = (ok, plan)" by fastforce
    show thesis
    proof (cases ok)
      case True
      then show thesis
        using None find sum t k ans
        by (intro added [of plan])
           (auto simp: alloc_answer_eq with_prefix_def new_prefix_text entry_answers_def split: if_splits)
    next
      case False
      then show thesis
        using None find ans by (intro failed [of plan]) (auto simp: alloc_answer_eq entry_answers_def split: if_splits)
    qed
  qed
qed

lemma table_inv_add:
  assumes "table_inv n s" and "b < 256" and "entry_ok e"
  shows "table_inv (109 + length (entry_text e) + n) (with_prefix b e s)"
proof -
  have b: "b < length (prefix_stats s)" using assms(1,2) by (simp add: table_inv_def)
  show ?thesis using assms(1,3) concat_upd [OF b] by (simp add: table_inv_def with_prefix_def ball_Un)
qed

text \<open>What an event may add: the length of its key and the room for its line.\<close>

definition event_cost :: "prefix_event \<Rightarrow> nat" where
  "event_cost ev = (case event_key ev of None \<Rightarrow> 0 | Some key \<Rightarrow> 109 + length key)"

lemma table_inv_mono: "table_inv m s \<Longrightarrow> m \<le> n \<Longrightarrow> table_inv n s"
  by (auto simp: table_inv_def)

lemma table_inv_plan [simp]: "table_inv n (s\<lparr>alloc_plan := plan\<rparr>) = table_inv n s"
  by (simp add: table_inv_def)

lemma table_inv_clear: "length (prefix_stats s) = 256 \<Longrightarrow> table_inv 0 (stats_prefix_clear s)"
  by (simp add: table_inv_def stats_prefix_clear_def text_sum_def)

lemma prefix_step_safe:
  assumes inv: "table_inv n s" and bound: "event_cost ev + n < 2147483648"
  shows "\<exists>s'. prefix_step hash ev s = Some s' \<and> table_inv (event_cost ev + n) s'"
proof (cases "event_key ev")
  case None
  then have "ev = PClear" by (cases ev) simp_all
  moreover have "table_inv n (stats_prefix_clear s)"
    by (rule table_inv_mono [OF table_inv_clear]) (use inv in \<open>simp_all add: table_inv_def\<close>)
  ultimately show ?thesis by (simp add: event_cost_def)
next
  case (Some key)
  note step = prefix_step_find [OF Some, of hash s]
  have cost: "event_cost ev = 109 + length key" using Some by (simp add: event_cost_def)
  show ?thesis
  proof (cases "key_prefix (prefix_delimiter s) key")
    case None
    then have "stats_prefix_find hash key s = Some (None, s)"
      by (simp add: stats_prefix_find_def key_prefix_def)
    then show ?thesis using step table_inv_mono [OF inv] by simp
  next
    case p: (Some p)
    note k = key_prefix_Some [OF p]
    have b: "bucket_of hash p < 256" by (rule bucket_of_less)
    from inv p bound [unfolded cost] show ?thesis
    proof (cases rule: find_cases [where hash = hash])
      case (found i)
      have "table_inv n (upd_prefix (bucket_of hash p, i) (bump_prefix ev) s)"
        using first_index_Some [OF found(1)] by (intro table_inv_upd [OF inv b]) blast
      then show ?thesis using step found(2) table_inv_mono [where n = "event_cost ev + n"] by simp
    next
      case (failed plan)
      then show ?thesis using step table_inv_mono [OF inv, of "event_cost ev + n"] by simp
    next
      case (added plan)
      let ?e = "new_prefix key (length p)" and ?s = "s\<lparr>alloc_plan := plan\<rparr>"
      have e: "entry_ok ?e" "entry_text ?e = p" using k by (simp_all add: entry_ok_def new_prefix_text) (simp add: new_prefix_def)
      have "table_inv (109 + length p + n) (with_prefix (bucket_of hash p) ?e ?s)"
        using table_inv_add [of n ?s, OF _ b e(1)] inv e(2) by simp
      then have "table_inv (event_cost ev + n) (with_prefix (bucket_of hash p) ?e ?s)"
        using k cost by (elim table_inv_mono) simp
      moreover have "bucket_of hash p < length (prefix_stats s)" using inv b by (simp add: table_inv_def)
      ultimately show ?thesis using step added(2) by (simp add: table_inv_upd [OF _ b] with_prefix_def)
    qed
  qed
qed

section \<open>What the sessions compute\<close>

lemma prefix_run_safe:
  assumes "table_inv n s" and "sum_list (map event_cost evs) + n < 2147483648"
  shows "\<exists>s'. prefix_run hash evs s = Some s' \<and> table_inv (sum_list (map event_cost evs) + n) s'"
  using assms
proof (induction evs arbitrary: n s)
  case (Cons ev evs)
  obtain s1 where s1: "prefix_step hash ev s = Some s1" "table_inv (event_cost ev + n) s1"
    using prefix_step_safe [OF Cons.prems(1), of ev hash] Cons.prems(2) by auto
  from Cons.IH [OF s1(2)] Cons.prems(2) show ?case using s1(1) by (simp add: ac_simps)
qed simp

lemma dump_lines_fits:
  assumes "\<forall>e \<in> set es. entry_ok e" and "length out + (109 * length es + text_sum es) < room" and "room \<le> 2147483648"
  shows "dump_lines room es out = Some (out @ concat (map prefix_line es)) \<and>
    length (concat (map prefix_line es)) \<le> 109 * length es + text_sum es"
  using assms
proof (induction es arbitrary: out)
  case (Cons e es)
  have l: "length (prefix_line e) \<le> 109 + length (entry_text e)" using Cons.prems(1) by (intro length_prefix_line) simp
  have "dump_lines room es (out @ prefix_line e) = Some ((out @ prefix_line e) @ concat (map prefix_line es)) \<and>
      length (concat (map prefix_line es)) \<le> 109 * length es + text_sum es"
    using Cons.prems l by (intro Cons.IH) simp_all
  then show ?case using l Cons.prems by (simp add: Let_def)
qed simp

definition dump_text :: "prefix_table \<Rightarrow> string" where
  "dump_text s = concat (map prefix_line (concat (prefix_stats s))) @ ''END'' @ crlf"

lemma length_dump_format: "length dump_format = 47"
  by (simp add: dump_format_def crlf_def)

lemma dump_complete:
  assumes inv: "table_inv n s" and bound: "n + 53 < 2147483648"
  shows "stats_prefix_dump s = Some (if fst (alloc_answer s) then Some (dump_text s) else None, snd (alloc_answer s))"
proof -
  let ?es = "concat (prefix_stats s)"
  have w: "109 * length ?es + text_sum ?es \<le> n" and ok: "\<forall>e \<in> set ?es. entry_ok e"
    and c: "num_prefixes s = int (length ?es)" "total_prefix_size s = int (text_sum ?es)"
    using inv by (simp_all add: table_inv_def)
  have "dump_size s = of_nat (47 + text_sum ?es + length ?es * 109 + 6)"
    unfolding dump_size_def length_dump_format c by simp
  then have room: "unat (dump_size s) = 53 + text_sum ?es + length ?es * 109"
    using w bound by (simp add: unat64 del: of_nat_add of_nat_mult)
  have "dump_lines (unat (dump_size s)) ?es [] = Some ([] @ concat (map prefix_line ?es)) \<and>
      length (concat (map prefix_line ?es)) \<le> 109 * length ?es + text_sum ?es"
    using w bound by (intro dump_lines_fits [OF ok]) (simp_all add: room)
  then show ?thesis
    using w bound room by (simp add: stats_prefix_dump_def alloc_answer_eq dump_text_def Let_def)
qed

text \<open>
  The counters of a prefix, and what an event does to them: a map from prefixes to gets,
  sets, deletes and hits, with the answers of the allocator that are left. A prefix without an entry needs
  two allocations; if one of them fails the event is not counted.
\<close>

type_synonym prefix_counts = "u64 \<times> u64 \<times> u64 \<times> u64"

definition counts_of :: "prefix_entry \<Rightarrow> prefix_counts" where
  "counts_of e = (num_gets e, num_sets e, num_deletes e, num_hits e)"

definition prefix_counts :: "(string \<Rightarrow> u32) \<Rightarrow> prefix_table \<Rightarrow> string \<rightharpoonup> prefix_counts" where
  "prefix_counts hash s p = map_option counts_of (find (\<lambda>e. entry_text e = p) (prefix_stats s ! bucket_of hash p))"

fun count_event :: "prefix_event \<Rightarrow> prefix_counts \<Rightarrow> prefix_counts" where
  "count_event (PGet key hit) (g, s, d, h) = (g + 1, s, d, if hit then h + 1 else h)"
| "count_event (PSet key) (g, s, d, h) = (g, s + 1, d, h)"
| "count_event (PDelete key) (g, s, d, h) = (g, s, d + 1, h)"
| "count_event PClear c = c"

definition count_step ::
  "char \<Rightarrow> prefix_event \<Rightarrow> (string \<rightharpoonup> prefix_counts) \<times> bool list \<Rightarrow> (string \<rightharpoonup> prefix_counts) \<times> bool list" where
  "count_step d ev = (\<lambda>(m, plan). case event_key ev of
     None \<Rightarrow> (Map.empty, plan)
   | Some key \<Rightarrow> (case key_prefix d key of
       None \<Rightarrow> (m, plan)
     | Some p \<Rightarrow> (case m p of
         Some c \<Rightarrow> (m(p \<mapsto> count_event ev c), plan)
       | None \<Rightarrow> (let (ok, plan') = entry_answers plan
                  in (if ok then m(p \<mapsto> count_event ev (0, 0, 0, 0)) else m, plan')))))"

text \<open>The prefixes of a session; in one bucket none of them may start with another one.\<close>

definition session_prefixes :: "char \<Rightarrow> prefix_event list \<Rightarrow> string set" where
  "session_prefixes d evs = {p. \<exists>ev \<in> set evs. \<exists>key. event_key ev = Some key \<and> key_prefix d key = Some p}"

definition told_apart :: "(string \<Rightarrow> u32) \<Rightarrow> string set \<Rightarrow> bool" where
  "told_apart hash P \<longleftrightarrow> (\<forall>p \<in> P. \<forall>q \<in> P. bucket_of hash p = bucket_of hash q \<longrightarrow> take (length p) q = p \<longrightarrow> q = p)"

definition bucket_texts :: "(string \<Rightarrow> u32) \<Rightarrow> string set \<Rightarrow> prefix_table \<Rightarrow> bool" where
  "bucket_texts hash P s \<longleftrightarrow> (\<forall>b < 256. \<forall>e \<in> set (prefix_stats s ! b). entry_text e \<in> P \<and> bucket_of hash (entry_text e) = b)"

lemma counts_bump: "counts_of (bump_prefix ev e) = count_event ev (counts_of e)"
  by (cases ev) (simp_all add: counts_of_def)

lemma counts_upd:
  assumes b: "b < length (prefix_stats s)" and i: "first_index (\<lambda>e. entry_text e = p) (prefix_stats s ! b) = Some i"
    and p: "bucket_of hash p = b"
  shows "prefix_counts hash (upd_prefix (b, i) (bump_prefix ev) s) =
    (prefix_counts hash s)(p \<mapsto> count_event ev (counts_of (prefix_stats s ! b ! i)))"
proof
  fix q
  let ?B = "prefix_stats s ! b"
  have t: "i < length ?B" "entry_text (?B ! i) = p" using first_index_Some [OF i] by auto
  show "prefix_counts hash (upd_prefix (b, i) (bump_prefix ev) s) q =
      ((prefix_counts hash s)(p \<mapsto> count_event ev (counts_of (?B ! i)))) q"
  proof (cases "q = p")
    case True
    then show ?thesis
      using find_upd_same [OF i, of "bump_prefix ev"] t b p by (simp add: prefix_counts_def upd_prefix_def counts_bump)
  next
    case False
    then show ?thesis
      using find_upd_other [OF t(1), of "\<lambda>e. entry_text e = q" "bump_prefix ev"] t(2) b
      by (auto simp: prefix_counts_def upd_prefix_def nth_list_update)
  qed
qed

lemma texts_upd:
  assumes "bucket_texts hash P s" and "b < 256" and "length (prefix_stats s) = 256" and "i < length (prefix_stats s ! b)"
  shows "bucket_texts hash P (upd_prefix (b, i) (bump_prefix ev) s)"
proof -
  let ?B = "prefix_stats s ! b"
  have "set (?B[i := bump_prefix ev (?B ! i)]) \<subseteq> insert (bump_prefix ev (?B ! i)) (set ?B)" by (rule set_update_subset_insert)
  moreover have "?B ! i \<in> set ?B" using assms(4) by simp
  ultimately have "\<forall>e \<in> set (?B[i := bump_prefix ev (?B ! i)]). entry_text e \<in> P \<and> bucket_of hash (entry_text e) = b"
    using assms(1,2) unfolding bucket_texts_def by fastforce
  then show ?thesis using assms by (auto simp: bucket_texts_def upd_prefix_def nth_list_update)
qed

lemma first_index_cong: "(\<And>x. x \<in> set xs \<Longrightarrow> P x = Q x) \<Longrightarrow> first_index P xs = first_index Q xs"
  by (induction xs) auto

lemma counts_with_prefix:
  assumes "bucket_of hash (entry_text e) < length (prefix_stats s)"
    and "first_index (\<lambda>x. entry_text x = entry_text e) (prefix_stats s ! bucket_of hash (entry_text e)) = None"
  shows "prefix_counts hash (with_prefix (bucket_of hash (entry_text e)) e s) = (prefix_counts hash s)(entry_text e \<mapsto> counts_of e)"
  using assms by (auto simp: prefix_counts_def with_prefix_def nth_list_update fun_eq_iff)

lemma prefix_step_counts:
  assumes inv: "table_inv n s" and bound: "event_cost ev + n < 2147483648"
    and apart: "told_apart hash P" and texts: "bucket_texts hash P s" and P: "session_prefixes (prefix_delimiter s) [ev] \<subseteq> P"
  shows "\<exists>s'. prefix_step hash ev s = Some s' \<and> prefix_delimiter s' = prefix_delimiter s \<and> bucket_texts hash P s' \<and>
    (prefix_counts hash s', alloc_plan s') = count_step (prefix_delimiter s) ev (prefix_counts hash s, alloc_plan s)"
proof (cases "event_key ev")
  case None
  then have "ev = PClear" by (cases ev) simp_all
  moreover have "prefix_counts hash (stats_prefix_clear s) = Map.empty"
    by (rule ext) (simp add: prefix_counts_def stats_prefix_clear_def bucket_of_less)
  ultimately show ?thesis
    by (simp add: count_step_def) (simp add: stats_prefix_clear_def bucket_texts_def)
next
  case (Some key)
  note step = prefix_step_find [OF Some, of hash s]
  have cost: "event_cost ev = 109 + length key" using Some by (simp add: event_cost_def)
  show ?thesis
  proof (cases "key_prefix (prefix_delimiter s) key")
    case None
    then have "stats_prefix_find hash key s = Some (None, s)"
      by (simp add: stats_prefix_find_def key_prefix_def)
    then show ?thesis using step texts Some None by (simp add: count_step_def)
  next
    case p: (Some p)
    let ?b = "bucket_of hash p" and ?B = "prefix_stats s ! bucket_of hash p"
    note k = key_prefix_Some [OF p]
    have b: "?b < 256" "?b < length (prefix_stats s)" "length (prefix_stats s) = 256"
      using inv by (simp_all add: bucket_of_less table_inv_def)
    have pP: "p \<in> P" using P Some p by (auto simp: session_prefixes_def)
    have "(take (length p) (entry_text e) = p) = (entry_text e = p)" if "e \<in> set ?B" for e
      using that texts b(1) apart pP unfolding bucket_texts_def told_apart_def by (metis order_refl take_all)
    then have same: "first_index (\<lambda>e. take (length p) (entry_text e) = p) ?B = first_index (\<lambda>e. entry_text e = p) ?B"
      by (rule first_index_cong)
    have spec: "count_step (prefix_delimiter s) ev (m, plan) = (case m p of
        Some c \<Rightarrow> (m(p \<mapsto> count_event ev c), plan)
      | None \<Rightarrow> (let (ok, plan') = entry_answers plan
                 in (if ok then m(p \<mapsto> count_event ev (0, 0, 0, 0)) else m, plan')))" for m plan
      using Some p by (simp add: count_step_def)
    from inv p bound [unfolded cost] show ?thesis
    proof (cases rule: find_cases [where hash = hash])
      case (found i)
      note i = found(1) [unfolded same]
      have "prefix_counts hash s p = Some (counts_of (?B ! i))"
        by (simp add: prefix_counts_def find_first i)
      moreover have "bucket_texts hash P (upd_prefix (?b, i) (bump_prefix ev) s)"
        using first_index_Some [OF i] by (intro texts_upd [OF texts b(1,3)]) blast
      ultimately show ?thesis
        using step found(2) counts_upd [OF b(2) i refl] by (simp add: spec) (simp add: upd_prefix_def)
    next
      case (failed plan')
      have "prefix_counts hash s p = None" using failed(3) same by (simp add: prefix_counts_def find_first)
      moreover have "bucket_texts hash P (s\<lparr>alloc_plan := plan'\<rparr>)" "prefix_counts hash (s\<lparr>alloc_plan := plan'\<rparr>) = prefix_counts hash s"
        using texts by (simp_all add: bucket_texts_def prefix_counts_def fun_eq_iff)
      ultimately show ?thesis using step failed(1,2) by (simp add: spec)
    next
      case (added plan')
      let ?e = "new_prefix key (length p)" and ?s = "s\<lparr>alloc_plan := plan'\<rparr>"
      let ?t = "with_prefix ?b ?e ?s"
      have e: "entry_text ?e = p" "counts_of ?e = (0, 0, 0, 0)" using k by (simp_all add: new_prefix_text) (simp add: new_prefix_def counts_of_def)
      have none: "first_index (\<lambda>e. entry_text e = p) ?B = None" using added(1) same by simp
      have B: "prefix_stats ?t ! ?b = ?e # ?B" "length (prefix_stats ?t) = 256" using b by (simp_all add: with_prefix_def)
      have t: "bucket_texts hash P ?t"
        using texts b pP e(1) by (auto simp: bucket_texts_def with_prefix_def nth_list_update)
      have c: "prefix_counts hash ?t = (prefix_counts hash s)(p \<mapsto> (0, 0, 0, 0))"
        using counts_with_prefix [of hash ?e ?s] b(2) none e by (simp add: prefix_counts_def fun_eq_iff)
      have old: "prefix_counts hash s p = None" using none by (simp add: prefix_counts_def find_first)
      have i: "first_index (\<lambda>e. entry_text e = p) (prefix_stats ?t ! ?b) = Some 0" using B(1) e(1) by simp
      have "prefix_counts hash (upd_prefix (?b, 0) (bump_prefix ev) ?t) = (prefix_counts hash ?t)(p \<mapsto> count_event ev (0, 0, 0, 0))"
        using counts_upd [OF _ i refl] B b(1) e(2) by simp
      moreover have "bucket_texts hash P (upd_prefix (?b, 0) (bump_prefix ev) ?t)"
        using B by (intro texts_upd [OF t b(1)]) simp_all
      ultimately show ?thesis
        using step added(2,3) c old by (simp add: spec) (simp add: upd_prefix_def with_prefix_def)
    qed
  qed
qed

lemma session_prefixes_Cons: "session_prefixes d (ev # evs) = session_prefixes d [ev] \<union> session_prefixes d evs"
  by (auto simp: session_prefixes_def)

lemma prefix_run_counts:
  assumes "table_inv n s" and "sum_list (map event_cost evs) + n < 2147483648"
    and "told_apart hash P" and "bucket_texts hash P s" and "session_prefixes (prefix_delimiter s) evs \<subseteq> P"
  shows "\<exists>s'. prefix_run hash evs s = Some s' \<and>
    (prefix_counts hash s', alloc_plan s') = fold (count_step (prefix_delimiter s)) evs (prefix_counts hash s, alloc_plan s)"
  using assms
proof (induction evs arbitrary: n s)
  case (Cons ev evs)
  have b: "event_cost ev + n < 2147483648" and P: "session_prefixes (prefix_delimiter s) [ev] \<subseteq> P"
    using Cons.prems(2,5) by (simp_all add: session_prefixes_Cons [of _ ev evs])
  obtain s1 where s1: "prefix_step hash ev s = Some s1" "table_inv (event_cost ev + n) s1"
    using prefix_step_safe [OF Cons.prems(1) b] by blast
  have s1': "prefix_delimiter s1 = prefix_delimiter s" "bucket_texts hash P s1"
    "(prefix_counts hash s1, alloc_plan s1) = count_step (prefix_delimiter s) ev (prefix_counts hash s, alloc_plan s)"
    using prefix_step_counts [OF Cons.prems(1) b Cons.prems(3,4) P] s1(1) by auto
  have "\<exists>s'. prefix_run hash evs s1 = Some s' \<and>
      (prefix_counts hash s', alloc_plan s') = fold (count_step (prefix_delimiter s1)) evs (prefix_counts hash s1, alloc_plan s1)"
    using Cons.prems(2,5) s1'(1,2) by (intro Cons.IH [OF s1(2)] Cons.prems(3)) (simp_all add: session_prefixes_Cons [of _ ev evs])
  then show ?case using s1(1) s1'(1,3) by simp
qed simp

section \<open>The properties\<close>

definition prefix_start :: "char \<Rightarrow> bool list \<Rightarrow> prefix_table" where
  "prefix_start d plan = stats_prefix_init \<lparr>prefix_stats = [], num_prefixes = 0, total_prefix_size = 0,
     prefix_delimiter = d, alloc_plan = plan\<rparr>"

lemma prefix_start_inv: "table_inv 0 (prefix_start d plan)"
  by (simp add: table_inv_def prefix_start_def stats_prefix_init_def)

lemma prefix_start_counts: "prefix_counts hash (prefix_start d plan) = Map.empty"
  by (rule ext) (simp add: prefix_counts_def prefix_start_def stats_prefix_init_def bucket_of_less)

text \<open>
  Claim C33. The counters of stats.c count: whatever gets, sets, deletes and resets a session
  has and whatever \<open>calloc\<close> and \<open>malloc\<close> answer, it runs without undefined behaviour, and afterwards the counters
  of every prefix are the numbers of the events since the last reset whose key has that prefix, less
  exactly those events that found no entry for their prefix and got no memory for one; if every allocation
  succeeds none is missing. This needs that the hash function never puts two prefixes of the session into one
  bucket if one of them starts with the other, because \<open>strncmp\<close> only compares the bytes of the shorter one,
  and that the lines of all events together are shorter than 2 GiB.
\<close>

theorem prefix_sessions_count:
  assumes "told_apart hash (session_prefixes d evs)" and "sum_list (map event_cost evs) < 2147483648"
  shows "\<exists>s. prefix_run hash evs (prefix_start d plan) = Some s \<and>
    (prefix_counts hash s, alloc_plan s) = fold (count_step d) evs (Map.empty, plan)"
proof -
  have "bucket_texts hash (session_prefixes d evs) (prefix_start d plan)"
    by (simp add: bucket_texts_def prefix_start_def stats_prefix_init_def)
  moreover have "alloc_plan (prefix_start d plan) = plan" "prefix_delimiter (prefix_start d plan) = d"
    by (simp_all add: prefix_start_def stats_prefix_init_def)
  ultimately show ?thesis
    using prefix_run_counts [OF prefix_start_inv [of d plan], where evs = evs and hash = hash and P = "session_prefixes d evs"] assms
    by (simp add: prefix_start_counts)
qed

text \<open>In the example the \<open>malloc\<close> for the second prefix fails, and the first get of \<open>abc\<close> is not counted.\<close>

theorem prefix_sessions_count_witness:
  "\<exists>s. prefix_run (\<lambda>k. of_nat (length k)) [PSet ''ab:1'', PGet ''abc:2'' True, PGet ''ab:3'' False, PGet ''abc:4'' False, PGet ''plain'' True]
       (prefix_start CHR '':'' [True, True, True, False]) = Some s \<and>
     prefix_counts (\<lambda>k. of_nat (length k)) s ''ab'' = Some (1, 1, 0, 0) \<and>
     prefix_counts (\<lambda>k. of_nat (length k)) s ''abc'' = Some (1, 0, 0, 0)"
proof -
  let ?evs = "[PSet ''ab:1'', PGet ''abc:2'' True, PGet ''ab:3'' False, PGet ''abc:4'' False, PGet ''plain'' True]"
  have "session_prefixes CHR '':'' ?evs = {''ab'', ''abc''}"
    by (auto simp: session_prefixes_def key_prefix_def)
  then have "told_apart (\<lambda>k. of_nat (length k)) (session_prefixes CHR '':'' ?evs)"
    by (simp add: told_apart_def bucket_of_def)
  moreover have "sum_list (map event_cost ?evs) < 2147483648" by (simp add: event_cost_def)
  moreover have "fold (count_step CHR '':'') ?evs (Map.empty, [True, True, True, False]) = ([''ab'' \<mapsto> (1, 1, 0, 0), ''abc'' \<mapsto> (1, 0, 0, 0)], [])"
    by (simp add: count_step_def key_prefix_def entry_answers_def fun_eq_iff)
  ultimately show ?thesis
    using prefix_sessions_count [of "\<lambda>k. of_nat (length k)" "CHR '':''" ?evs "[True, True, True, False]"] by auto
qed



text \<open>
  What happens without that condition: the counters of \<open>ab\<close> go to \<open>abc\<close> if both are in one bucket.
\<close>

lemma prefix_misattributed:
  "\<exists>s. prefix_run (\<lambda>k. 0) [PGet ''abc:1'' True, PGet ''ab:1'' True] (prefix_start CHR '':'' []) = Some s \<and>
     prefix_counts (\<lambda>k. 0) s ''ab'' = None \<and> prefix_counts (\<lambda>k. 0) s ''abc'' = Some (2, 0, 0, 2)"
proof -
  have r: "replicate 256 [] = [] # replicate 255 []" by (simp add: numeral_eq_Suc)
  have m: "strncmp_eq 2 [CHR ''a'', CHR ''b'', CHR ''c'', NUL] ''ab:1'' = Some True" by (simp add: numeral_2_eq_2)
  show ?thesis
    by (simp add: prefix_start_def stats_prefix_init_def stats_prefix_record_get_def stats_prefix_find_def
        alloc_answer_def upd_prefix_def r m new_prefix_def prefix_counts_def bucket_of_def entry_text_def counts_of_def)
qed

end
