(* ===== verification/Tokens.thy ===== *)
theory Tokens
  imports PrefixStats
begin

text \<open>
  The tokenizer of the ASCII protocol (memcached.c, \<open>tokenize_command\<close>). The command is the
  list of its characters before the NUL, a pointer into it an offset. The tokenizer writes a
  NUL over the space that ends a token.
\<close>

section \<open>The model\<close>

text \<open>A token is its value, \<open>None\<close> for NULL, and its length.\<close>

type_synonym token = "nat option \<times> nat"

definition MAX_TOKENS :: nat where [simp]: "MAX_TOKENS = 8"

record token_scan =
  tk_cmd :: string
  tk_s :: nat
  tk_e :: nat
  tk_tokens :: "token list"

text \<open>One turn of the loop on \<open>*e\<close>; the result is true after \<open>break\<close>.\<close>

definition scan_char :: "nat \<Rightarrow> token_scan \<Rightarrow> bool \<times> token_scan" where
  "scan_char max_tokens t =
     (let e = tk_e t; s = tk_s t
      in if tk_cmd t ! e = CHR '' '' then
           if s \<noteq> e then
             let t1 = t\<lparr>tk_tokens := tk_tokens t @ [(Some s, e - s)], tk_cmd := (tk_cmd t)[e := NUL]\<rparr>
             in if length (tk_tokens t1) = max_tokens - 1
                then (True, t1\<lparr>tk_e := e + 1, tk_s := e + 1\<rparr>)
                else (False, t1\<lparr>tk_s := e + 1, tk_e := e + 1\<rparr>)
           else (False, t\<lparr>tk_s := e + 1, tk_e := e + 1\<rparr>)
         else (False, t\<lparr>tk_e := e + 1\<rparr>))"

primrec scan_loop :: "nat \<Rightarrow> nat \<Rightarrow> token_scan \<Rightarrow> token_scan" where
  "scan_loop max_tokens 0 t = t"
| "scan_loop max_tokens (Suc n) t =
     (case scan_char max_tokens t of (stop, t1) \<Rightarrow> if stop then t1 else scan_loop max_tokens n t1)"

text \<open>The results are the tokens with the terminal one, and the command with its NULs.\<close>

definition tokenize_command :: "string \<Rightarrow> nat \<Rightarrow> token list \<times> string" where
  "tokenize_command command max_tokens =
     (let t = scan_loop max_tokens (length command) \<lparr>tk_cmd = command, tk_s = 0, tk_e = 0, tk_tokens = []\<rparr>;
          tokens = (if tk_s t \<noteq> tk_e t then tk_tokens t @ [(Some (tk_s t), tk_e t - tk_s t)] else tk_tokens t)
      in (tokens @ [(if length command \<le> tk_e t then None else Some (tk_e t), 0)], tk_cmd t))"

text \<open>The text that starts at an offset of the buffer and ends at a NUL.\<close>

definition c_text :: "string \<Rightarrow> nat \<Rightarrow> string" where
  "c_text cmd off = c_string (drop off cmd)"

section \<open>The words of a command\<close>

fun cmd_words :: "string \<Rightarrow> string \<Rightarrow> string list" where
  "cmd_words w [] = (if w = [] then [] else [w])"
| "cmd_words w (c # cs) = (if c = CHR '' '' then (if w = [] then [] else [w]) @ cmd_words [] cs else cmd_words (w @ [c]) cs)"

definition token_text :: "string \<Rightarrow> token \<Rightarrow> string" where
  "token_text buf t = (case fst t of None \<Rightarrow> [] | Some off \<Rightarrow> c_text buf off)"

lemma cmd_words_snoc: "CHR '' '' \<notin> set w \<Longrightarrow> cmd_words v (w @ cs) = cmd_words (v @ w) cs"
  by (induction w arbitrary: v) auto

lemma c_text_token:
  assumes "off + l \<le> length buf" and "\<forall>j < l. buf ! (off + j) \<noteq> NUL" and "off + l < length buf \<longrightarrow> buf ! (off + l) = NUL"
  shows "c_text buf off = segment off l buf"
  unfolding c_text_def c_string_def segment_def
  by (rule takeWhile_eq_take_P_nth) (use assms in auto)

text \<open>What the tokens found so far are, and what the loop has written.\<close>

definition cut_command :: "string \<Rightarrow> string \<Rightarrow> bool" where
  "cut_command cmd buf \<longleftrightarrow> length buf = length cmd \<and> (\<forall>j < length cmd. buf ! j = cmd ! j \<or> buf ! j = NUL \<and> cmd ! j = CHR '' '')"

definition token_at :: "string \<Rightarrow> string \<Rightarrow> token \<Rightarrow> bool" where
  "token_at cmd buf t \<longleftrightarrow> (\<exists>off. fst t = Some off \<and> 0 < snd t \<and> off + snd t \<le> length cmd \<and>
     (off + snd t < length cmd \<longrightarrow> buf ! (off + snd t) = NUL) \<and> (\<forall>j < snd t. cmd ! (off + j) \<noteq> CHR '' ''))"

definition token_word :: "string \<Rightarrow> token \<Rightarrow> string" where
  "token_word cmd t = segment (the (fst t)) (snd t) cmd"

lemma token_at_text:
  assumes cut: "cut_command cmd buf" and nul: "NUL \<notin> set cmd" and at: "token_at cmd buf t"
  shows "token_text buf t = token_word cmd t \<and> snd t = length (token_text buf t) \<and> 0 < snd t \<and> fst t \<noteq> None"
proof -
  obtain off where o: "fst t = Some off" "0 < snd t" "off + snd t \<le> length cmd"
    "off + snd t < length cmd \<longrightarrow> buf ! (off + snd t) = NUL" "\<forall>j < snd t. cmd ! (off + j) \<noteq> CHR '' ''"
    using at by (auto simp: token_at_def)
  have same: "\<forall>j < snd t. buf ! (off + j) = cmd ! (off + j)"
    using cut o(3,5) unfolding cut_command_def by (meson add_less_cancel_left less_le_trans)
  have "cmd ! (off + j) \<noteq> NUL" if "j < snd t" for j
  proof -
    have "off + j < length cmd" using that o(3) by simp
    then have "cmd ! (off + j) \<in> set cmd" by (rule nth_mem)
    then show ?thesis using nul by auto
  qed
  then have "c_text buf off = segment off (snd t) buf"
    using cut o same by (intro c_text_token) (auto simp: cut_command_def)
  also have "\<dots> = segment off (snd t) cmd"
    using cut o(3) same by (intro nth_equalityI) (auto simp: segment_def cut_command_def)
  finally show ?thesis using o(1-3) by (simp add: token_text_def token_word_def)
qed

definition scan_inv :: "string \<Rightarrow> nat \<Rightarrow> nat \<Rightarrow> token_scan \<Rightarrow> bool" where
  "scan_inv cmd max_tokens i t \<longleftrightarrow> tk_e t = i \<and> tk_s t \<le> i \<and> i \<le> length cmd \<and> cut_command cmd (tk_cmd t) \<and>
     drop i (tk_cmd t) = drop i cmd \<and> (\<forall>k \<in> set (tk_tokens t). token_at cmd (tk_cmd t) k) \<and>
     (\<forall>j < i - tk_s t. cmd ! (tk_s t + j) \<noteq> CHR '' '')"

definition scan_words :: "string \<Rightarrow> nat \<Rightarrow> token_scan \<Rightarrow> bool" where
  "scan_words cmd i t \<longleftrightarrow>
     cmd_words [] cmd = map (token_word cmd) (tk_tokens t) @ cmd_words (segment (tk_s t) (i - tk_s t) cmd) (drop i cmd)"

lemma cut_command_upd: "cut_command cmd buf \<Longrightarrow> i < length cmd \<Longrightarrow> cmd ! i = CHR '' '' \<Longrightarrow> cut_command cmd (buf[i := NUL])"
  by (auto simp: cut_command_def nth_list_update)

lemma list_update_or: "(xs[i := x]) ! k = x \<or> (xs[i := x]) ! k = xs ! k"
  by (cases "i < length xs") (auto simp: nth_list_update list_update_beyond)

lemma token_at_upd: "token_at cmd buf t \<Longrightarrow> length buf = length cmd \<Longrightarrow> token_at cmd (buf[i := NUL]) t"
  unfolding token_at_def by (metis list_update_or)

lemma segment_Suc: "s \<le> i \<Longrightarrow> i < length xs \<Longrightarrow> segment s (Suc i - s) xs = segment s (i - s) xs @ [xs ! i]"
  by (simp add: segment_def Suc_diff_le take_Suc_conv_app_nth)

lemma scan_char_step:
  assumes inv: "scan_inv cmd m i t" and words: "scan_words cmd i t" and i: "i < length cmd" and step: "scan_char m t = (stop, t')"
  shows "scan_inv cmd m (Suc i) t' \<and> scan_words cmd (Suc i) t' \<and>
    (stop \<longrightarrow> tk_s t' = Suc i \<and> length (tk_tokens t') = m - 1) \<and>
    (\<not> stop \<longrightarrow> length (tk_tokens t) < m - 1 \<longrightarrow> length (tk_tokens t') < m - 1)"
proof -
  let ?s = "tk_s t" and ?b = "tk_cmd t"
  have e: "tk_e t = i" "?s \<le> i" and cut: "cut_command cmd ?b" and dr: "drop i ?b = drop i cmd"
    and toks: "\<forall>k \<in> set (tk_tokens t). token_at cmd ?b k" and sp: "\<forall>j < i - ?s. cmd ! (?s + j) \<noteq> CHR '' ''"
    using inv by (auto simp: scan_inv_def)
  have len: "length ?b = length cmd" using cut by (simp add: cut_command_def)
  have bi: "?b ! i = cmd ! i" using dr i len by (metis Cons_nth_drop_Suc list.inject)
  have dS: "drop i cmd = cmd ! i # drop (Suc i) cmd" using i by (rule Cons_nth_drop_Suc [symmetric])
  have dr': "drop (Suc i) ?b = drop (Suc i) cmd" using dr by (metis drop_Suc tl_drop)
  have w: "cmd_words [] cmd = map (token_word cmd) (tk_tokens t) @ cmd_words (segment ?s (i - ?s) cmd) (cmd ! i # drop (Suc i) cmd)"
    using words dS by (simp add: scan_words_def)
  show ?thesis
  proof (cases "cmd ! i = CHR '' ''")
    case False
    then have t': "stop = False" "t' = t\<lparr>tk_e := Suc i\<rparr>" using step e bi by (auto simp: scan_char_def Let_def)
    have "\<forall>j < Suc i - ?s. cmd ! (?s + j) \<noteq> CHR '' ''" using sp False e(2) by (auto simp: Suc_diff_le less_Suc_eq)
    then show ?thesis
      using e cut dr' toks w False i by (simp add: t' scan_inv_def scan_words_def segment_Suc)
  next
    case True
    show ?thesis
    proof (cases "?s = i")
      case eq: True
      then have t': "stop = False" "t' = t\<lparr>tk_s := Suc i, tk_e := Suc i\<rparr>" using step e bi True by (auto simp: scan_char_def Let_def)
      show ?thesis using e cut dr' toks w i True eq by (simp add: t' scan_inv_def scan_words_def segment_def)
    next
      case False
      let ?k = "(Some ?s, i - ?s) :: token" and ?b' = "?b[i := NUL]"
      have t': "stop = (length (tk_tokens t) + 1 = m - 1)"
        "t' = t\<lparr>tk_tokens := tk_tokens t @ [?k], tk_cmd := ?b', tk_e := Suc i, tk_s := Suc i\<rparr>"
        using step e bi True False by (auto simp: scan_char_def Let_def split: if_splits)
      have "token_at cmd ?b' ?k" using e(2) False i sp len by (auto simp: token_at_def)
      then have "\<forall>k \<in> set (tk_tokens t @ [?k]). token_at cmd ?b' k" using toks token_at_upd [OF _ len] by auto
      moreover have "cut_command cmd ?b'" using cut i True by (rule cut_command_upd)
      moreover have "drop (Suc i) ?b' = drop (Suc i) cmd" using dr' by simp
      moreover have "segment ?s (i - ?s) cmd \<noteq> []" using e(2) False i by (simp add: segment_def)
      ultimately show ?thesis
        using w i True by (simp add: t' scan_inv_def scan_words_def segment_def token_word_def)
    qed
  qed
qed

lemma scan_loop_inv:
  assumes "scan_inv cmd m i t" and "scan_words cmd i t" and "length (tk_tokens t) < m - 1" and "i + n = length cmd"
  shows "\<exists>e. scan_inv cmd m e (scan_loop m n t) \<and> scan_words cmd e (scan_loop m n t) \<and>
    (e = length cmd \<and> length (tk_tokens (scan_loop m n t)) < m - 1 \<or>
     tk_s (scan_loop m n t) = e \<and> length (tk_tokens (scan_loop m n t)) = m - 1)"
  using assms
proof (induction n arbitrary: i t)
  case (Suc n)
  obtain stop t' where st: "scan_char m t = (stop, t')" by (cases "scan_char m t")
  have i: "i < length cmd" using Suc.prems(4) by simp
  note step = scan_char_step [OF Suc.prems(1,2) i st]
  show ?case
  proof (cases stop)
    case True
    then show ?thesis using step st by (intro exI [of _ "Suc i"]) simp
  next
    case False
    then show ?thesis using Suc.IH [of "Suc i" t'] step st Suc.prems(3,4) by simp
  qed
qed auto

text \<open>What the tokenizer returns; a rest is a proper tail of the command.\<close>

lemma tokenize_words:
  assumes "NUL \<notin> set cmd" and "1 < max_tokens"
  shows "\<exists>ts v buf. tokenize_command cmd max_tokens = (ts @ [(v, 0)], buf) \<and> length ts < max_tokens \<and>
    (\<forall>t \<in> set ts. fst t \<noteq> None \<and> 0 < snd t \<and> snd t = length (token_text buf t)) \<and>
    cmd_words [] cmd = map (token_text buf) ts @ (case v of None \<Rightarrow> [] | Some off \<Rightarrow> cmd_words [] (drop off buf)) \<and>
    (v \<noteq> None \<longrightarrow> length ts = max_tokens - 1) \<and>
    (\<forall>off. v = Some off \<longrightarrow> drop off buf = drop off cmd)"
proof -
  let ?t0 = "\<lparr>tk_cmd = cmd, tk_s = 0, tk_e = 0, tk_tokens = []\<rparr>"
  define t where "t = scan_loop max_tokens (length cmd) ?t0"
  define ts where "ts = (if tk_s t \<noteq> tk_e t then tk_tokens t @ [(Some (tk_s t), tk_e t - tk_s t)] else tk_tokens t)"
  define v where "v = (if length cmd \<le> tk_e t then None else Some (tk_e t))"
  have "scan_inv cmd max_tokens 0 ?t0" "scan_words cmd 0 ?t0"
    by (simp_all add: scan_inv_def scan_words_def cut_command_def segment_def)
  then obtain e where inv: "scan_inv cmd max_tokens e t" and words: "scan_words cmd e t"
    and e: "e = length cmd \<and> length (tk_tokens t) < max_tokens - 1 \<or> tk_s t = e \<and> length (tk_tokens t) = max_tokens - 1"
    using scan_loop_inv [of cmd max_tokens 0 ?t0 "length cmd"] assms(2) unfolding t_def by auto
  have f: "tk_e t = e" "tk_s t \<le> e" "e \<le> length cmd" "cut_command cmd (tk_cmd t)" "drop e (tk_cmd t) = drop e cmd"
    "\<forall>k \<in> set (tk_tokens t). token_at cmd (tk_cmd t) k" "\<forall>j < e - tk_s t. cmd ! (tk_s t + j) \<noteq> CHR '' ''"
    using inv by (simp_all add: scan_inv_def)
  have tok: "tokenize_command cmd max_tokens = (ts @ [(v, 0)], tk_cmd t)"
    by (simp add: tokenize_command_def t_def [symmetric] ts_def v_def Let_def)
  have "\<forall>k \<in> set ts. token_at cmd (tk_cmd t) k"
    using f e by (auto simp: token_at_def ts_def)
  then have at: "\<forall>k \<in> set ts. token_text (tk_cmd t) k = token_word cmd k \<and> snd k = length (token_text (tk_cmd t) k) \<and> 0 < snd k \<and> fst k \<noteq> None"
    using token_at_text [OF f(4) assms(1)] by blast
  then have texts: "map (token_text (tk_cmd t)) ts = map (token_word cmd) ts" by (intro map_cong) auto
  show ?thesis
  proof (intro exI conjI)
    show "cmd_words [] cmd = map (token_text (tk_cmd t)) ts @ (case v of None \<Rightarrow> [] | Some off \<Rightarrow> cmd_words [] (drop off (tk_cmd t)))"
      unfolding texts using words e f by (auto simp: scan_words_def token_word_def segment_def ts_def v_def)
    show "length ts < max_tokens" using e f(1) assms(2) by (auto simp: ts_def)
    show "v \<noteq> None \<longrightarrow> length ts = max_tokens - 1" using e f(1) by (auto simp: ts_def v_def)
    show "\<forall>off. v = Some off \<longrightarrow> drop off (tk_cmd t) = drop off cmd" using f(1,5) by (auto simp: v_def)
  qed (use tok at in blast)+
qed

text \<open>
  Claim C35. \<open>tokenize_command\<close> cuts a command into its words: every token but the terminal
  one is a pointer to the text of a word, which the tokenizer ends with a NUL, with the length of
  that word; there are at most \<open>max_tokens\<close> of them with the terminal one. If the terminal
  value is NULL the tokens are all the words of the command; otherwise there are exactly
  \<open>max_tokens - 1\<close> words, and the words still missing are those of the text it points to, so
  that calling the tokenizer on it again, as the get command does, loses no word.
\<close>

theorem tokenize_command_words:
  assumes "NUL \<notin> set cmd" and "1 < max_tokens"
  shows "\<exists>ts v buf. tokenize_command cmd max_tokens = (ts @ [(v, 0)], buf) \<and> length ts < max_tokens \<and>
    (\<forall>t \<in> set ts. fst t \<noteq> None \<and> 0 < snd t \<and> snd t = length (token_text buf t)) \<and>
    cmd_words [] cmd = map (token_text buf) ts @ (case v of None \<Rightarrow> [] | Some off \<Rightarrow> cmd_words [] (drop off buf)) \<and>
    (v \<noteq> None \<longrightarrow> length ts = max_tokens - 1)"
  using tokenize_words [OF assms] by (elim exE conjE) (intro exI conjI)

theorem tokenize_command_words_witness:
  "\<exists>ts v buf. tokenize_command ''get a  bc d'' 3 = (ts @ [(v, 0)], buf) \<and>
     [''get'', ''a'', ''bc'', ''d''] = map (token_text buf) ts @ (case v of None \<Rightarrow> [] | Some off \<Rightarrow> cmd_words [] (drop off buf)) \<and>
     length ts < 3"
proof -
  have "cmd_words [] ''get a  bc d'' = [''get'', ''a'', ''bc'', ''d'']" by simp
  then show ?thesis using tokenize_command_words [of "''get a  bc d''" 3] by auto
qed

end
