(* ===== verification/Commands.thy ===== *)
theory Commands
  imports Items Tokens
begin

text \<open>
  The commands of the ASCII protocol (memcached.c, with the wrappers of thread.c): storing an
  item for set, add, replace, append, prepend and cas, incr and decr, delete, touch, and the
  answers they send. A connection holds the fields these functions use; what they use of the
  statistics of its thread is part of it. The lists of message headers and vectors are left
  out, and so are verbose output, DTrace probes and the logger; an item lock makes each
  operation on an item atomic. A \<open>None\<close> is a failed assertion or undefined behaviour.
\<close>

section \<open>Connections\<close>

datatype conn_states = conn_listening | conn_new_cmd | conn_waiting | conn_read | conn_parse_cmd | conn_write
  | conn_nread | conn_swallow | conn_closing | conn_mwrite | conn_closed | conn_watch

datatype nread = NREAD_ADD | NREAD_SET | NREAD_REPLACE | NREAD_APPEND | NREAD_PREPEND | NREAD_CAS

datatype store_item_type = NOT_STORED | STORED | EXISTS | NOT_FOUND | TOO_LARGE | NO_MEMORY

datatype delta_result_type = OK | NON_NUMERIC | EOM | DELTA_ITEM_NOT_FOUND | DELTA_ITEM_CAS_MISMATCH

record slab_stats =
  set_cmds :: u64
  get_hits :: u64
  touch_hits :: u64
  delete_hits :: u64
  cas_hits :: u64
  cas_badval :: u64
  incr_hits :: u64
  decr_hits :: u64

record thread_stats =
  get_cmds :: u64
  get_misses :: u64
  touch_cmds :: u64
  touch_misses :: u64
  delete_misses :: u64
  incr_misses :: u64
  decr_misses :: u64
  cas_misses :: u64
  slab_stats :: "slab_stats list"

text \<open>\<open>c_wbuf\<close> is what \<open>wcurr\<close> and \<open>wbytes\<close> say is to be written.\<close>

record conn =
  c_thread :: nat
  c_stats :: thread_stats
  c_state :: conn_states
  c_noreply :: bool
  c_wbuf :: string
  c_wsize :: nat
  c_write_and_go :: conn_states
  c_item :: "nat option"
  c_ritem :: "nat option"
  c_rlbytes :: int
  c_sbytes :: int
  c_cmd :: nread
  c_cas :: u64

definition count_thread :: "(thread_stats \<Rightarrow> thread_stats) \<Rightarrow> conn \<Rightarrow> conn" where
  "count_thread f c = c\<lparr>c_stats := f (c_stats c)\<rparr>"

text \<open>\<open>c->thread->stats.slab_stats[ITEM_clsid (it)].f++\<close>\<close>

definition count_slab :: "item \<Rightarrow> (slab_stats \<Rightarrow> slab_stats) \<Rightarrow> conn \<Rightarrow> conn" where
  "count_slab it f c = count_thread (\<lambda>t. t\<lparr>slab_stats :=
     (slab_stats t)[unat (ITEM_clsid it) := f (slab_stats t ! unat (ITEM_clsid it))]\<rparr>) c"

definition out_string :: "string \<Rightarrow> conn \<Rightarrow> conn" where
  "out_string str c =
     (if c_noreply c then c\<lparr>c_noreply := False, c_state := conn_new_cmd\<rparr>
      else c\<lparr>c_wbuf := (if c_wsize c < length str + 2 then ''SERVER_ERROR output line too long'' else str) @ crlf,
             c_state := conn_write, c_write_and_go := conn_new_cmd\<rparr>)"

section \<open>The wrappers of thread.c\<close>

definition item_alloc ::
  "(byte list \<Rightarrow> u32) \<Rightarrow> byte list \<Rightarrow> u32 \<Rightarrow> u32 \<Rightarrow> int \<Rightarrow> 'a cache_mem_scheme \<Rightarrow> (nat option \<times> 'a cache_mem_scheme) option" where
  "item_alloc hash key flags ex nb s = do_item_alloc hash key flags ex nb s"

definition item_get ::
  "(byte list \<Rightarrow> u32) \<Rightarrow> byte list \<Rightarrow> conn \<Rightarrow> bool \<Rightarrow> 'a cache_mem_scheme \<Rightarrow> (nat option \<times> 'a cache_mem_scheme) option" where
  "item_get hash key c do_update s = do_item_get (c_thread c) key (hash key) do_update s"

definition item_touch ::
  "(byte list \<Rightarrow> u32) \<Rightarrow> byte list \<Rightarrow> u32 \<Rightarrow> conn \<Rightarrow> 'a cache_mem_scheme \<Rightarrow> (nat option \<times> 'a cache_mem_scheme) option" where
  "item_touch hash key ex c s = do_item_touch (c_thread c) key ex (hash key) s"

definition item_link :: "(byte list \<Rightarrow> u32) \<Rightarrow> nat \<Rightarrow> 'a cache_mem_scheme \<Rightarrow> 'a cache_mem_scheme option" where
  "item_link hash a s = do { it \<leftarrow> items s a; do_item_link a (hash (key_of it)) s }"

definition item_remove :: "nat \<Rightarrow> 'a cache_mem_scheme \<Rightarrow> 'a cache_mem_scheme option" where
  "item_remove a s = do_item_remove a s"

definition item_replace :: "nat \<Rightarrow> nat \<Rightarrow> u32 \<Rightarrow> 'a cache_mem_scheme \<Rightarrow> 'a cache_mem_scheme option" where
  "item_replace a new hv s = do_item_replace a new hv s"

definition item_unlink :: "(byte list \<Rightarrow> u32) \<Rightarrow> nat \<Rightarrow> 'a cache_mem_scheme \<Rightarrow> 'a cache_mem_scheme option" where
  "item_unlink hash a s = do { it \<leftarrow> items s a; do_item_unlink a (hash (key_of it)) s }"

section \<open>Copying values\<close>

text \<open>The first chunk with free space, or the last one.\<close>

partial_function (option) free_chunk :: "nat \<Rightarrow> 'a slabs_scheme \<Rightarrow> nat option" where
  "free_chunk d s = do {
     ch \<leftarrow> get_chunk d s;
     if ch_size ch = ch_used ch
     then case ch_next ch of None \<Rightarrow> Some d | Some n \<Rightarrow> free_chunk n s
     else Some d }"

text \<open>
  Writing \<open>bytes\<close> at the end of the used part of a chunk; if the chunk is full then, a chunk for
  the \<open>remain\<close> bytes is added. The chunk to go on with, \<open>None\<close> inside if there is no memory.
\<close>

definition put_bytes ::
  "(byte list \<Rightarrow> u32) \<Rightarrow> nat \<Rightarrow> byte list \<Rightarrow> nat \<Rightarrow> 'a cache_mem_scheme \<Rightarrow> (nat option \<times> 'a cache_mem_scheme) option" where
  "put_bytes hash d bytes remain s = do {
     ch \<leftarrow> get_chunk d s;
     let used = ch_used ch + of_nat (length bytes);
     _ \<leftarrow> assert_that (used \<le> ch_size ch);
     let s1 = set_chunk d (ch\<lparr>ch_data := take (unat (ch_used ch)) (ch_data ch) @ bytes, ch_used := used\<rparr>) s;
     if ch_size ch = used then do_item_alloc_chunk hash d (of_nat remain) s1 else Some (Some d, s1) }"

partial_function (option) copy_from_plain ::
  "(byte list \<Rightarrow> u32) \<Rightarrow> byte list \<Rightarrow> nat \<Rightarrow> nat \<Rightarrow> nat \<Rightarrow> 'a cache_mem_scheme \<Rightarrow> (bool \<times> 'a cache_mem_scheme) option" where
  "copy_from_plain hash src len d done' s =
     (if done' < len
      then do {
        ch \<leftarrow> get_chunk d s;
        let todo = min (unat (ch_size ch - ch_used ch)) (len - done');
        _ \<leftarrow> assert_that (done' + todo \<le> length src);
        (r, s1) \<leftarrow> put_bytes hash d (segment done' todo src) (len - done' - todo) s;
        case r of None \<Rightarrow> Some (False, s1) | Some d' \<Rightarrow> copy_from_plain hash src len d' (done' + todo) s1 }
      else do { _ \<leftarrow> assert_that (len = done'); Some (True, s) })"

partial_function (option) copy_from_chunks ::
  "(byte list \<Rightarrow> u32) \<Rightarrow> nat option \<Rightarrow> nat \<Rightarrow> nat \<Rightarrow> nat \<Rightarrow> 'a cache_mem_scheme \<Rightarrow> (bool \<times> 'a cache_mem_scheme) option" where
  "copy_from_chunks hash src copied d remain s =
     (case src of
        None \<Rightarrow> do { _ \<leftarrow> assert_that (remain = 0); Some (True, s) }
      | Some c \<Rightarrow>
          if remain = 0 then Some (True, s)
          else do {
            sch \<leftarrow> get_chunk c s;
            ch \<leftarrow> get_chunk d s;
            _ \<leftarrow> assert_that (ch_used ch \<le> ch_size ch);
            let todo = min (min (unat (ch_size ch - ch_used ch)) (unat (ch_used sch) - copied)) remain;
            _ \<leftarrow> assert_that (copied + todo \<le> length (ch_data sch));
            (r, s1) \<leftarrow> put_bytes hash d (segment copied todo (ch_data sch)) (remain - todo) s;
            case r of
              None \<Rightarrow> Some (False, s1)
            | Some d' \<Rightarrow> do {
                sch' \<leftarrow> get_chunk c s1;
                _ \<leftarrow> assert_that (copied + todo \<le> unat (ch_used sch'));
                if copied + todo = unat (ch_used sch')
                then copy_from_chunks hash (ch_next sch') 0 d' (remain - todo) s1
                else copy_from_chunks hash (Some c) (copied + todo) d' (remain - todo) s1 } })"

text \<open>\<open>False\<close> for -1.\<close>

definition store_item_copy_chunks ::
  "(byte list \<Rightarrow> u32) \<Rightarrow> nat \<Rightarrow> nat \<Rightarrow> int \<Rightarrow> 'a cache_mem_scheme \<Rightarrow> (bool \<times> 'a cache_mem_scheme) option" where
  "store_item_copy_chunks hash d_it s_it len s = do {
     d \<leftarrow> free_chunk d_it s;
     it \<leftarrow> items s s_it;
     if it_flags it AND ITEM_CHUNKED \<noteq> 0
     then copy_from_chunks hash (Some s_it) 0 d (nat len) s
     else copy_from_plain hash (it_data it) (nat len) d 0 s }"

text \<open>\<open>memcpy (ITEM_data (d) + off, ITEM_data (s), s->nbytes)\<close>\<close>

definition copy_data :: "nat \<Rightarrow> nat \<Rightarrow> item \<Rightarrow> 'a cache_mem_scheme \<Rightarrow> 'a cache_mem_scheme option" where
  "copy_data d off src s = do {
     it \<leftarrow> items s d;
     _ \<leftarrow> assert_that (nat (nbytes src) \<le> length (it_data src) \<and> off + nat (nbytes src) \<le> length (it_data it));
     upd_item d (\<lambda>it. it\<lparr>it_data := splice_at off (take (nat (nbytes src)) (it_data src)) (it_data it)\<rparr>) s }"

definition store_item_copy_data ::
  "(byte list \<Rightarrow> u32) \<Rightarrow> nread \<Rightarrow> nat \<Rightarrow> nat \<Rightarrow> nat \<Rightarrow> 'a cache_mem_scheme \<Rightarrow> (bool \<times> 'a cache_mem_scheme) option" where
  "store_item_copy_data hash comm old_it new_it add_it s = do {
     let (first, second) = (if comm = NREAD_APPEND then (old_it, add_it) else (add_it, old_it));
     new \<leftarrow> items s new_it;
     fst_it \<leftarrow> items s first;
     snd_it \<leftarrow> items s second;
     if it_flags new AND ITEM_CHUNKED \<noteq> 0
     then do {
       (ok, s1) \<leftarrow> store_item_copy_chunks hash new_it first (nbytes fst_it - 2) s;
       if \<not> ok then Some (False, s1) else store_item_copy_chunks hash new_it second (nbytes snd_it) s1 }
     else do {
       s1 \<leftarrow> copy_data new_it 0 fst_it s;
       s2 \<leftarrow> copy_data new_it (nat (nbytes fst_it - 2)) snd_it s1;
       Some (True, s2) } }"

section \<open>Storing an item\<close>

text \<open>The client flags of an item, read back from its suffix.\<close>

definition suffix_flags :: "item \<Rightarrow> 'a slabs_scheme \<Rightarrow> u32" where
  "suffix_flags it s = (if inline_ascii_response (settings s)
     then ucast (fst (c_strtoull (map (\<lambda>b. char_of (unat b)) (it_suffix it))))
     else le_word (take 4 (it_suffix it @ it_data it)))"

definition store_cas ::
  "nat \<Rightarrow> nat option \<Rightarrow> conn \<Rightarrow> u32 \<Rightarrow> 'a cache_mem_scheme \<Rightarrow> (store_item_type \<times> conn \<times> 'a cache_mem_scheme) option" where
  "store_cas a old c hv s = do {
     it \<leftarrow> items s a;
     case old of
       None \<Rightarrow> Some (NOT_FOUND, count_thread (\<lambda>t. t\<lparr>cas_misses := cas_misses t + 1\<rparr>) c, s)
     | Some o' \<Rightarrow> do {
         old_it \<leftarrow> items s o';
         if ITEM_get_cas it = ITEM_get_cas old_it
         then do {
           s1 \<leftarrow> item_replace o' a hv s;
           Some (STORED, count_slab old_it (\<lambda>t. t\<lparr>cas_hits := cas_hits t + 1\<rparr>) c, s1) }
         else Some (EXISTS, count_slab old_it (\<lambda>t. t\<lparr>cas_badval := cas_badval t + 1\<rparr>) c, s) } }"

text \<open>Append and prepend: \<open>stored\<close>, \<open>failed_alloc\<close>, \<open>new_it\<close>, and \<open>it\<close> afterwards.\<close>

definition store_concat ::
  "(byte list \<Rightarrow> u32) \<Rightarrow> nread \<Rightarrow> nat \<Rightarrow> nat \<Rightarrow> 'a cache_mem_scheme \<Rightarrow> (store_item_type \<times> bool \<times> nat option \<times> nat \<times> 'a cache_mem_scheme) option" where
  "store_concat hash comm a old s = do {
     it \<leftarrow> items s a;
     old_it \<leftarrow> items s old;
     if ITEM_get_cas it \<noteq> 0 \<and> ITEM_get_cas it \<noteq> ITEM_get_cas old_it
     then Some (EXISTS, False, None, a, s)
     else do {
       (new, s1) \<leftarrow> do_item_alloc hash (key_of it) (suffix_flags old_it s) (exptime old_it) (nbytes it + nbytes old_it - 2) s;
       case new of
         None \<Rightarrow> Some (NOT_STORED, True, None, a, s1)
       | Some n \<Rightarrow> do {
           (ok, s2) \<leftarrow> store_item_copy_data hash comm old n a s1;
           if ok then Some (NOT_STORED, False, Some n, n, s2)
           else do { s3 \<leftarrow> item_remove n s2; Some (NOT_STORED, True, Some n, a, s3) } } } }"

text \<open>\<open>item_replace\<close> or \<open>do_item_link\<close>, and the CAS identifier for the answer.\<close>

definition store_put :: "nat \<Rightarrow> nat option \<Rightarrow> conn \<Rightarrow> u32 \<Rightarrow> 'a cache_mem_scheme \<Rightarrow> (store_item_type \<times> conn \<times> 'a cache_mem_scheme) option" where
  "store_put a old c hv s = do {
     s1 \<leftarrow> (case old of Some o' \<Rightarrow> item_replace o' a hv s | None \<Rightarrow> do_item_link a hv s);
     it \<leftarrow> items s1 a;
     Some (STORED, c\<lparr>c_cas := ITEM_get_cas it\<rparr>, s1) }"

definition release_opt :: "nat option \<Rightarrow> 'a cache_mem_scheme \<Rightarrow> 'a cache_mem_scheme option" where
  "release_opt r s = (case r of None \<Rightarrow> Some s | Some a \<Rightarrow> do_item_remove a s)"

definition do_store_item ::
  "(byte list \<Rightarrow> u32) \<Rightarrow> nat \<Rightarrow> nread \<Rightarrow> conn \<Rightarrow> u32 \<Rightarrow> 'a cache_mem_scheme \<Rightarrow> (store_item_type \<times> conn \<times> 'a cache_mem_scheme) option" where
  "do_store_item hash a comm c hv s = do {
     it \<leftarrow> items s a;
     (old, s1) \<leftarrow> do_item_get (c_thread c) (key_of it) hv False s;
     (stored, c2, new, a2, s2) \<leftarrow>
       (if old \<noteq> None \<and> comm = NREAD_ADD
        then do { s2 \<leftarrow> do_item_update (the old) s1; Some (NOT_STORED, c, None, a, s2) }
        else if old = None \<and> comm \<in> {NREAD_REPLACE, NREAD_APPEND, NREAD_PREPEND}
        then Some (NOT_STORED, c, None, a, s1)
        else if comm = NREAD_CAS
        then do { (stored, c2, s2) \<leftarrow> store_cas a old c hv s1; Some (stored, c2, None, a, s2) }
        else do {
          (stored, failed_alloc, new, a2, s2) \<leftarrow>
            (if comm = NREAD_APPEND \<or> comm = NREAD_PREPEND then store_concat hash comm a (the old) s1
             else Some (NOT_STORED, False, None, a, s1));
          if stored = NOT_STORED \<and> \<not> failed_alloc
          then do { (stored2, c2, s3) \<leftarrow> store_put a2 old c hv s2; Some (stored2, c2, new, a2, s3) }
          else Some (stored, c, new, a2, s2) });
     s3 \<leftarrow> release_opt old s2;
     s4 \<leftarrow> release_opt new s3;
     if stored = STORED
     then do { it2 \<leftarrow> items s4 a2; Some (stored, c2\<lparr>c_cas := ITEM_get_cas it2\<rparr>, s4) }
     else Some (stored, c2, s4) }"

definition store_item ::
  "(byte list \<Rightarrow> u32) \<Rightarrow> nat \<Rightarrow> nread \<Rightarrow> conn \<Rightarrow> 'a cache_mem_scheme \<Rightarrow> (store_item_type \<times> conn \<times> 'a cache_mem_scheme) option" where
  "store_item hash a comm c s = do { it \<leftarrow> items s a; do_store_item hash a comm c (hash (key_of it)) s }"

section \<open>Arithmetic\<close>

text \<open>
  \<open>safe_strtoull (ITEM_data (it), &value)\<close>. The data ends with a line break, where the number
  ends at the latest; but for a value of 2^63 or more \<open>strchr\<close> looks for a minus sign in the
  memory after the data too, unless it finds one or a NUL before, which is undefined here.
\<close>

definition data_number :: "item \<Rightarrow> (bool \<times> u64) option" where
  "data_number it = (let str = map (\<lambda>b. char_of (unat b)) (it_data it); (ok, v) = safe_strtoull (c_string str)
     in if ok \<and> sint v < 0 \<and> NUL \<notin> set str then None else Some (ok, v))"

definition delta_value :: "bool \<Rightarrow> u64 \<Rightarrow> u64 \<Rightarrow> u64" where
  "delta_value incr delta value = (if incr then value + delta else if value < delta then 0 else value - delta)"

definition delta_in_place :: "nat \<Rightarrow> string \<Rightarrow> 'a cache_mem_scheme \<Rightarrow> 'a cache_mem_scheme option" where
  "delta_in_place a buf s = do {
     s1 \<leftarrow> item_stats_sizes_remove a s;
     let (cas, s2) = (if use_cas (settings s1) then get_cas_id s1 else (0, s1));
     s3 \<leftarrow> upd_item a (ITEM_set_cas cas) s2;
     s4 \<leftarrow> item_stats_sizes_add a s3;
     s5 \<leftarrow> upd_item a (\<lambda>it. it\<lparr>it_data := bytes_of buf @ replicate (nat (nbytes it) - length buf - 2) 32 @
              drop (nat (nbytes it) - 2) (it_data it)\<rparr>) s4;
     do_item_update a s5 }"

definition delta_new_item ::
  "(byte list \<Rightarrow> u32) \<Rightarrow> nat \<Rightarrow> string \<Rightarrow> u32 \<Rightarrow> 'a cache_mem_scheme \<Rightarrow> (bool \<times> 'a cache_mem_scheme) option" where
  "delta_new_item hash a buf hv s = do {
     it \<leftarrow> items s a;
     (new, s1) \<leftarrow> do_item_alloc hash (key_of it)
        (if inline_ascii_response (settings s)
         then ucast (fst (c_strtoull (map (\<lambda>b. char_of (unat b)) (drop 1 (it_suffix it)))))
         else suffix_flags it s)
        (exptime it) (int (length buf) + 2) s;
     case new of
       None \<Rightarrow> Some (False, s1)
     | Some n \<Rightarrow> do {
         s2 \<leftarrow> upd_item n (\<lambda>it. it\<lparr>it_data := bytes_of buf @ [13, 10]\<rparr>) s1;
         s3 \<leftarrow> item_replace a n hv s2;
         nit \<leftarrow> items s3 n;
         s4 \<leftarrow> upd_item a (ITEM_set_cas (if use_cas (settings s3) then ITEM_get_cas nit else 0)) s3;
         s5 \<leftarrow> do_item_remove n s4;
         Some (True, s5) } }"

text \<open>The results are the outcome, \<open>buf\<close>, \<open>*cas\<close> (\<open>None\<close> for a NULL pointer), connection and store.\<close>

definition do_add_delta ::
  "(byte list \<Rightarrow> u32) \<Rightarrow> conn \<Rightarrow> byte list \<Rightarrow> bool \<Rightarrow> u64 \<Rightarrow> u64 option \<Rightarrow> u32 \<Rightarrow> 'a cache_mem_scheme \<Rightarrow>
   (delta_result_type \<times> string \<times> u64 option \<times> conn \<times> 'a cache_mem_scheme) option" where
  "do_add_delta hash c key incr delta cas hv s = do {
     (r, s1) \<leftarrow> do_item_get (c_thread c) key hv False s;
     case r of
       None \<Rightarrow> Some (DELTA_ITEM_NOT_FOUND, [], cas, c, s1)
     | Some a \<Rightarrow> do {
         it \<leftarrow> items s1 a;
         if nbytes it \<le> 2 \<or> it_flags it AND ITEM_CHUNKED \<noteq> 0 then Some (NON_NUMERIC, [], cas, c, s1)
         else if cas \<noteq> None \<and> the cas \<noteq> 0 \<and> ITEM_get_cas it \<noteq> the cas
         then do { s2 \<leftarrow> do_item_remove a s1; Some (DELTA_ITEM_CAS_MISMATCH, [], cas, c, s2) }
         else do {
           (ok, value0) \<leftarrow> data_number it;
           if \<not> ok then do { s2 \<leftarrow> do_item_remove a s1; Some (NON_NUMERIC, [], cas, c, s2) }
           else do {
             let value = delta_value incr delta value0;
             let c1 = count_slab it (\<lambda>t. if incr then t\<lparr>incr_hits := incr_hits t + 1\<rparr> else t\<lparr>decr_hits := decr_hits t + 1\<rparr>) c;
             let buf = decimal (unat value);
             if int (length buf) + 2 \<le> nbytes it \<and> refcount it = 2
             then do {
               s2 \<leftarrow> delta_in_place a buf s1;
               it2 \<leftarrow> items s2 a;
               s3 \<leftarrow> do_item_remove a s2;
               Some (OK, buf, map_option (\<lambda>_. ITEM_get_cas it2) cas, c1, s3) }
             else if 1 < refcount it
             then do {
               (ok2, s2) \<leftarrow> delta_new_item hash a buf hv s1;
               if \<not> ok2 then do { s3 \<leftarrow> do_item_remove a s2; Some (EOM, buf, cas, c1, s3) }
               else do {
                 it2 \<leftarrow> items s2 a;
                 s3 \<leftarrow> do_item_remove a s2;
                 Some (OK, buf, map_option (\<lambda>_. ITEM_get_cas it2) cas, c1, s3) } }
             else do {
               s2 \<leftarrow> (if refcount it = 1 then do_item_remove a s1 else Some s1);
               Some (DELTA_ITEM_NOT_FOUND, buf, cas, c1, s2) } } } } }"

definition add_delta ::
  "(byte list \<Rightarrow> u32) \<Rightarrow> conn \<Rightarrow> byte list \<Rightarrow> bool \<Rightarrow> u64 \<Rightarrow> u64 option \<Rightarrow> 'a cache_mem_scheme \<Rightarrow>
   (delta_result_type \<times> string \<times> u64 option \<times> conn \<times> 'a cache_mem_scheme) option" where
  "add_delta hash c key incr delta cas s = do_add_delta hash c key incr delta cas (hash key) s"

section \<open>The commands\<close>

text \<open>What the commands use besides the store: the prefix counters and two globals.\<close>

record server = cache_mem +
  prefixes :: prefix_table
  detail_enabled :: bool
  process_started :: int

text \<open>A token as the commands see it: the C string it points to, \<open>None\<close> for NULL, and its length.\<close>

type_synonym cmd_token = "string option \<times> nat"

definition cmd_tokens :: "token list \<Rightarrow> string \<Rightarrow> cmd_token list" where
  "cmd_tokens ts buf = map (\<lambda>(v, n). (map_option (c_text buf) v, n)) ts"

definition KEY_MAX_LENGTH :: nat where [simp]: "KEY_MAX_LENGTH = 250"

definition tok :: "cmd_token list \<Rightarrow> nat \<Rightarrow> string option" where
  "tok ts i = (if i < length ts then fst (ts ! i) else None)"

definition tok_key :: "cmd_token list \<Rightarrow> byte list option" where
  "tok_key ts = map_option (\<lambda>t. bytes_of (take (snd (ts ! 1)) t)) (tok ts 1)"

definition set_noreply_maybe :: "cmd_token list \<Rightarrow> conn \<Rightarrow> conn" where
  "set_noreply_maybe ts c = (if tok ts (length ts - 2) = Some ''noreply'' then c\<lparr>c_noreply := True\<rparr> else c)"

definition REALTIME_MAXDELTA :: int where "REALTIME_MAXDELTA = 60 * 60 * 24 * 30"

definition realtime :: "int \<Rightarrow> 'a server_scheme \<Rightarrow> u32" where
  "realtime ex s =
     (if ex = 0 then 0
      else if ex > REALTIME_MAXDELTA
      then (if ex \<le> process_started s then 1 else word_of_int (ex - process_started s))
      else word_of_int (ex + uint (current_time s)))"

definition count_prefix :: "(prefix_table \<Rightarrow> prefix_table option) \<Rightarrow> 'a server_scheme \<Rightarrow> 'a server_scheme option" where
  "count_prefix f s = (if detail_enabled s then do { p \<leftarrow> f (prefixes s); Some (s\<lparr>prefixes := p\<rparr>) } else Some s)"

definition bad_format :: string where "bad_format = ''CLIENT_ERROR bad command line format''"

text \<open>No item: the answer, and for set the old item is removed.\<close>

definition update_refused ::
  "(byte list \<Rightarrow> u32) \<Rightarrow> byte list \<Rightarrow> u32 \<Rightarrow> int \<Rightarrow> nread \<Rightarrow> conn \<Rightarrow> 'a server_scheme \<Rightarrow> (conn \<times> 'a server_scheme) option" where
  "update_refused hash key flags vlen comm c s = do {
     fits \<leftarrow> item_size_ok (of_nat (length key)) flags vlen s;
     let c1 = (if \<not> fits then out_string ''SERVER_ERROR object too large for cache'' c
               else out_string ''SERVER_ERROR out of memory storing object'' c);
     let c2 = c1\<lparr>c_write_and_go := conn_swallow, c_sbytes := vlen\<rparr>;
     if comm = NREAD_SET
     then do {
       (r, s1) \<leftarrow> item_get hash key c2 False s;
       case r of
         None \<Rightarrow> Some (c2, s1)
       | Some a \<Rightarrow> do { s2 \<leftarrow> item_unlink hash a s1; s3 \<leftarrow> item_remove a s2; Some (c2, s3) } }
     else Some (c2, s) }"

text \<open>The number tokens: flags, expiry time, length, and for cas the identifier.\<close>

definition update_numbers :: "cmd_token list \<Rightarrow> bool \<Rightarrow> (u32 \<times> int \<times> int \<times> u64) option option" where
  "update_numbers ts handle_cas = do {
     t2 \<leftarrow> tok ts 2; t3 \<leftarrow> tok ts 3; t4 \<leftarrow> tok ts 4;
     let (ok1, flags) = safe_strtoul t2; let (ok2, ex) = safe_strtol t3; let (ok3, len) = safe_strtol t4;
     if \<not> (ok1 \<and> ok2 \<and> ok3) then Some None
     else if \<not> handle_cas then Some (Some (flags, sint ex, sint len, 0))
     else do {
       t5 \<leftarrow> tok ts 5;
       let (ok4, cas) = safe_strtoull t5;
       Some (if ok4 then Some (flags, sint ex, sint len, cas) else None) } }"

definition process_update_command ::
  "(byte list \<Rightarrow> u32) \<Rightarrow> (string \<Rightarrow> u32) \<Rightarrow> cmd_token list \<Rightarrow> nread \<Rightarrow> bool \<Rightarrow> conn \<Rightarrow> 'a server_scheme \<Rightarrow> (conn \<times> 'a server_scheme) option" where
  "process_update_command hash phash ts comm handle_cas c0 s = do {
     let c = set_noreply_maybe ts c0;
     if KEY_MAX_LENGTH < snd (ts ! 1) then Some (out_string bad_format c, s)
     else do {
       key \<leftarrow> tok_key ts;
       numbers \<leftarrow> update_numbers ts handle_cas;
       case numbers of
         None \<Rightarrow> Some (out_string bad_format c, s)
       | Some (flags, ex0, vlen0, cas) \<Rightarrow>
           let ex = (if ex0 < 0 then REALTIME_MAXDELTA + 1 else ex0)
           in if vlen0 < 0 \<or> 2147483645 < vlen0 then Some (out_string bad_format c, s)
              else do {
                let vlen = vlen0 + 2;
                s1 \<leftarrow> count_prefix (stats_prefix_record_set phash (map (\<lambda>b. char_of (unat b)) key)) s;
                (r, s2) \<leftarrow> item_alloc hash key flags (realtime ex s1) vlen s1;
                case r of
                  None \<Rightarrow> update_refused hash key flags vlen comm c s2
                | Some a \<Rightarrow> do {
                    s3 \<leftarrow> upd_item a (ITEM_set_cas cas) s2;
                    it \<leftarrow> items s3 a;
                    Some (c\<lparr>c_item := Some a, c_ritem := Some a, c_rlbytes := nbytes it, c_cmd := comm, c_state := conn_nread\<rparr>, s3) } } } }"

text \<open>The last two bytes of the value: of the item, or of its last chunk \<open>c->ritem\<close>.\<close>

definition value_ends :: "item \<Rightarrow> conn \<Rightarrow> 'a slabs_scheme \<Rightarrow> bool option" where
  "value_ends it c s =
     (if it_flags it AND ITEM_CHUNKED = 0
      then do {
        _ \<leftarrow> assert_that (2 \<le> nbytes it \<and> nat (nbytes it) \<le> length (it_data it));
        Some (segment (nat (nbytes it) - 2) 2 (it_data it) = [13, 10]) }
      else do {
        r \<leftarrow> c_ritem c;
        ch \<leftarrow> get_chunk r s;
        _ \<leftarrow> assert_that (ch_used ch \<noteq> 0 \<and> unat (ch_used ch) \<le> length (ch_data ch));
        let last = ch_data ch ! (unat (ch_used ch) - 1);
        prev \<leftarrow> (if 1 < ch_used ch then Some (ch_data ch ! (unat (ch_used ch) - 2))
                else do {
                  p \<leftarrow> ch_prev ch;
                  pch \<leftarrow> get_chunk p s;
                  _ \<leftarrow> assert_that (0 < ch_used pch \<and> unat (ch_used pch) \<le> length (ch_data pch));
                  Some (ch_data pch ! (unat (ch_used pch) - 1)) });
        _ \<leftarrow> assert_that (prev = 13 \<and> last = 10);
        Some True })"

definition complete_nread_ascii :: "(byte list \<Rightarrow> u32) \<Rightarrow> conn \<Rightarrow> 'a cache_mem_scheme \<Rightarrow> (conn \<times> 'a cache_mem_scheme) option" where
  "complete_nread_ascii hash c0 s = do {
     a \<leftarrow> c_item c0;
     it \<leftarrow> items s a;
     let c = count_slab it (\<lambda>t. t\<lparr>set_cmds := set_cmds t + 1\<rparr>) c0;
     is_valid \<leftarrow> value_ends it c s;
     (c1, s1) \<leftarrow>
       (if \<not> is_valid then Some (out_string ''CLIENT_ERROR bad data chunk'' c, s)
        else do {
          (ret, c1, s1) \<leftarrow> store_item hash a (c_cmd c) c s;
          let answer = (case ret of STORED \<Rightarrow> ''STORED'' | EXISTS \<Rightarrow> ''EXISTS'' | NOT_FOUND \<Rightarrow> ''NOT_FOUND''
                          | NOT_STORED \<Rightarrow> ''NOT_STORED'' | _ \<Rightarrow> ''SERVER_ERROR Unhandled storage type.'');
          Some (out_string answer c1, s1) });
     s2 \<leftarrow> item_remove a s1;
     Some (c1\<lparr>c_item := None\<rparr>, s2) }"

definition process_touch_command ::
  "(byte list \<Rightarrow> u32) \<Rightarrow> cmd_token list \<Rightarrow> conn \<Rightarrow> 'a server_scheme \<Rightarrow> (conn \<times> 'a server_scheme) option" where
  "process_touch_command hash ts c0 s = do {
     let c = set_noreply_maybe ts c0;
     if KEY_MAX_LENGTH < snd (ts ! 1) then Some (out_string bad_format c, s)
     else do {
       key \<leftarrow> tok_key ts;
       t2 \<leftarrow> tok ts 2;
       let (ok, ex) = safe_strtol t2;
       if \<not> ok then Some (out_string ''CLIENT_ERROR invalid exptime argument'' c, s)
       else do {
         (r, s1) \<leftarrow> item_touch hash key (realtime (sint ex) s) c s;
         case r of
           Some a \<Rightarrow> do {
             it \<leftarrow> items s1 a;
             let c1 = count_slab it (\<lambda>t. t\<lparr>touch_hits := touch_hits t + 1\<rparr>) (count_thread (\<lambda>t. t\<lparr>touch_cmds := touch_cmds t + 1\<rparr>) c);
             s2 \<leftarrow> item_remove a s1;
             Some (out_string ''TOUCHED'' c1, s2) }
         | None \<Rightarrow> Some (out_string ''NOT_FOUND''
               (count_thread (\<lambda>t. t\<lparr>touch_cmds := touch_cmds t + 1, touch_misses := touch_misses t + 1\<rparr>) c), s1) } } }"

definition process_arithmetic_command ::
  "(byte list \<Rightarrow> u32) \<Rightarrow> cmd_token list \<Rightarrow> bool \<Rightarrow> conn \<Rightarrow> 'a cache_mem_scheme \<Rightarrow> (conn \<times> 'a cache_mem_scheme) option" where
  "process_arithmetic_command hash ts incr c0 s = do {
     let c = set_noreply_maybe ts c0;
     if KEY_MAX_LENGTH < snd (ts ! 1) then Some (out_string bad_format c, s)
     else do {
       key \<leftarrow> tok_key ts;
       t2 \<leftarrow> tok ts 2;
       let (ok, delta) = safe_strtoull t2;
       if \<not> ok then Some (out_string ''CLIENT_ERROR invalid numeric delta argument'' c, s)
       else do {
         (ret, temp, _, c1, s1) \<leftarrow> add_delta hash c key incr delta None s;
         Some (case ret of
             OK \<Rightarrow> out_string temp c1
           | NON_NUMERIC \<Rightarrow> out_string ''CLIENT_ERROR cannot increment or decrement non-numeric value'' c1
           | EOM \<Rightarrow> out_string ''SERVER_ERROR out of memory'' c1
           | DELTA_ITEM_NOT_FOUND \<Rightarrow> out_string ''NOT_FOUND''
               (count_thread (\<lambda>t. if incr then t\<lparr>incr_misses := incr_misses t + 1\<rparr> else t\<lparr>decr_misses := decr_misses t + 1\<rparr>) c1)
           | DELTA_ITEM_CAS_MISMATCH \<Rightarrow> c1, s1) } } }"

text \<open>The connection after looking for \<open>noreply\<close> and a hold time of 0; false for a bad line.\<close>

definition delete_format :: "cmd_token list \<Rightarrow> conn \<Rightarrow> bool \<times> conn" where
  "delete_format ts c =
     (if 3 < length ts
      then let hold_is_zero = (tok ts 2 = Some ''0''); c1 = set_noreply_maybe ts c; sets_noreply = c_noreply c1
           in (length ts = 4 \<and> (hold_is_zero \<or> sets_noreply) \<or> length ts = 5 \<and> hold_is_zero \<and> sets_noreply, c1)
      else (True, c))"

definition process_delete_command ::
  "(byte list \<Rightarrow> u32) \<Rightarrow> (string \<Rightarrow> u32) \<Rightarrow> cmd_token list \<Rightarrow> conn \<Rightarrow> 'a server_scheme \<Rightarrow> (conn \<times> 'a server_scheme) option" where
  "process_delete_command hash phash ts c0 s = do {
     let (valid, c) = delete_format ts c0;
     if \<not> valid then Some (out_string ''CLIENT_ERROR bad command line format.  Usage: delete <key> [noreply]'' c, s)
     else if KEY_MAX_LENGTH < snd (ts ! 1) then Some (out_string bad_format c, s)
     else do {
       key \<leftarrow> tok_key ts;
       s1 \<leftarrow> count_prefix (stats_prefix_record_delete phash (map (\<lambda>b. char_of (unat b)) key)) s;
       (r, s2) \<leftarrow> item_get hash key c False s1;
       case r of
         Some a \<Rightarrow> do {
           it \<leftarrow> items s2 a;
           let c1 = count_slab it (\<lambda>t. t\<lparr>delete_hits := delete_hits t + 1\<rparr>) c;
           s3 \<leftarrow> item_unlink hash a s2;
           s4 \<leftarrow> item_remove a s3;
           Some (out_string ''DELETED'' c1, s4) }
       | None \<Rightarrow> Some (out_string ''NOT_FOUND'' (count_thread (\<lambda>t. t\<lparr>delete_misses := delete_misses t + 1\<rparr>) c), s2) } }"

end
