(* ===== verification/StoreItem.thy ===== *)
theory StoreItem
  imports StoreGet Commands
begin

text \<open>
  Storing items: \<open>do_store_item\<close> of memcached.c on a store that satisfies the invariant, with
  what it does to the contents of the store.
\<close>

section \<open>What the operations leave alone\<close>

definition item_view :: "item \<Rightarrow> (u8 \<times> byte list) \<times> u8 \<times> (u8 \<times> u8 \<times> u8) \<times> u16 \<times> (byte list \<times> byte list \<times> byte list \<times> u32 \<times> u64 \<times> int)" where
  "item_view it = ((nkey it, it_key it), ITEM_clsid it,
     (it_flags it AND ITEM_LINKED, it_flags it AND ITEM_SLABBED, it_flags it AND ITEM_CHUNKED), refcount it, value_of it)"

lemma view_core: "item_core it' = item_core it \<Longrightarrow> item_view it' = item_view it"
  using item_core_fields [of it' it] by (simp add: item_view_def value_of_def)

lemma view_keep: "same_keep it it' \<Longrightarrow> item_view it' = item_view it"
  using same_keep_value [of it it'] by (simp add: item_view_def same_keep_def hash_view_def)

lemma view_fields:
  assumes "item_view it' = item_view it"
  shows "value_of it' = value_of it" "refcount it' = refcount it" "key_of it' = key_of it" "key_ok it' = key_ok it"
    "it_flags it' AND ITEM_SLABBED = it_flags it AND ITEM_SLABBED" "it_flags it' AND ITEM_LINKED = it_flags it AND ITEM_LINKED"
    "it_flags it' AND ITEM_CHUNKED = it_flags it AND ITEM_CHUNKED" "ITEM_clsid it' = ITEM_clsid it" "nbytes it' = nbytes it"
    "it_cas it' = it_cas it"
  using assms by (simp_all add: item_view_def value_of_def key_of_def key_ok_def)

definition keeps :: "nat set \<Rightarrow> 'a assoc_scheme \<Rightarrow> 'a assoc_scheme \<Rightarrow> bool" where
  "keeps D s s' \<longleftrightarrow> (\<forall>b it. b \<notin> D \<longrightarrow> items s b = Some it \<longrightarrow> it_flags it AND ITEM_SLABBED = 0 \<longrightarrow>
     (\<exists>it'. items s' b = Some it' \<and> item_view it' = item_view it))"

lemma keepsD:
  assumes "keeps D s s'" "b \<notin> D" "items s b = Some it" "it_flags it AND ITEM_SLABBED = 0"
  obtains it' where "items s' b = Some it'" "item_view it' = item_view it"
  using assms unfolding keeps_def by blast

lemma keeps_refl [simp]: "keeps D s s"
  by (simp add: keeps_def)

lemma keeps_trans:
  assumes "keeps D s s'" and "keeps D s' s''"
  shows "keeps D s s''"
  unfolding keeps_def
proof (intro allI impI)
  fix b it assume b: "b \<notin> D" "items s b = Some it" "it_flags it AND ITEM_SLABBED = 0"
  obtain it' where it': "items s' b = Some it'" "item_view it' = item_view it" using keepsD [OF assms(1) b] .
  have "it_flags it' AND ITEM_SLABBED = 0" using b(3) view_fields(5) [OF it'(2)] by simp
  then obtain it'' where "items s'' b = Some it''" "item_view it'' = item_view it'" using keepsD [OF assms(2) b(1) it'(1)] by blast
  then show "\<exists>it'. items s'' b = Some it' \<and> item_view it' = item_view it" using it'(2) by simp
qed

lemma keeps_mono: "keeps D s s' \<Longrightarrow> D \<subseteq> D' \<Longrightarrow> keeps D' s s'"
  unfolding keeps_def by blast

lemma keeps_cores: "same_cores D (items s) (items s') \<Longrightarrow> keeps D s s'"
  unfolding keeps_def by (metis same_cores_at view_core)

lemma keeps_kept: "kept (items s) (items s') \<Longrightarrow> keeps D s s'"
  unfolding keeps_def by (metis kept_at view_keep)

lemma keeps_upd: "keeps {a} s (s\<lparr>items := (items s)(a := x)\<rparr>)"
  by (simp add: keeps_def)

section \<open>The contents of the store\<close>

definition contents ::
  "(byte list \<Rightarrow> u32) \<Rightarrow> 'a cache_mem_scheme \<Rightarrow> byte list \<rightharpoonup> (byte list \<times> byte list \<times> byte list \<times> u32 \<times> u64 \<times> int)" where
  "contents hash s k = Option.bind (amap hash s k) (value_at s)"

lemma contents_same:
  assumes at: "store_at hash ch s" and k: "keeps D s s'" and m: "amap hash s' x = amap hash s x" and d: "\<And>b. b \<in> D \<Longrightarrow> amap hash s x \<noteq> Some b"
  shows "contents hash s' x = contents hash s x"
proof (cases "amap hash s x")
  case None
  then show ?thesis using m by (simp add: contents_def)
next
  case (Some b)
  then have "b \<in> linked ch" using at_amap [OF at] by blast
  then obtain it where it: "items s b = Some it" "it_flags it AND ITEM_SLABBED = 0" using at_linked [OF at] by blast
  have "b \<notin> D" using d Some by blast
  then obtain it' where it': "items s' b = Some it'" "item_view it' = item_view it" using keepsD [OF k _ it] by blast
  show ?thesis using Some m it(1) it'(1) view_fields(1) [OF it'(2)] by (simp add: contents_def value_at_def)
qed

section \<open>Releasing and linking\<close>

lemma at_release:
  assumes at: "store_at hash ch s" and it: "items s a = Some it" "it_flags it AND ITEM_SLABBED = 0" "0 < refcount it"
    and frees: "refcount it = 1 \<Longrightarrow> it_flags it AND ITEM_LINKED = 0 \<and> it_flags it AND ITEM_CHUNKED = 0 \<and> class_valid s it"
  shows "\<exists>s' m cs. do_item_remove a s = Some s' \<and> s' = s\<lparr>items := m, slabclass := cs\<rparr> \<and> length cs = length (slabclass s) \<and>
    store_at hash ch s' \<and> amap hash s' = amap hash s \<and> keeps {a} s s' \<and>
    (\<forall>b ib. b \<noteq> a \<longrightarrow> items s b = Some ib \<longrightarrow> it_flags ib AND ITEM_SLABBED = 0 \<longrightarrow> items s' b = Some ib)"
proof -
  obtain Q F where ok: "store_ok hash s ch Q F" using at by (auto simp: store_at_def)
  show ?thesis
  proof (cases "refcount it = 1")
    case False
    then have "1 < refcount it" using it(3) by (simp add: word_less_nat_alt word_unat_eq_iff)
    from do_item_remove_keeps [OF ok it(1,2) this] obtain s' where s': "do_item_remove a s = Some s'"
      "s' = s\<lparr>items := (items s)(a \<mapsto> it\<lparr>refcount := refcount it - 1\<rparr>)\<rparr>" "store_ok hash s' ch Q F" "amap hash s' = amap hash s" by blast
    have "store_at hash ch s'"
      unfolding store_at_def using s'(3) at it(1) by (auto simp: s'(2) store_at_def split: if_splits)
    moreover have "s' = s\<lparr>items := (items s)(a \<mapsto> it\<lparr>refcount := refcount it - 1\<rparr>), slabclass := slabclass s\<rparr>" by (simp add: s'(2))
    moreover have "keeps {a} s s'" unfolding s'(2) by (rule keeps_upd)
    moreover have "\<forall>b ib. b \<noteq> a \<longrightarrow> items s b = Some ib \<longrightarrow> it_flags ib AND ITEM_SLABBED = 0 \<longrightarrow> items s' b = Some ib" by (simp add: s'(2))
    ultimately show ?thesis using s'(1,4) by blast
  next
    case True
    note fr = frees [OF True]
    have nl: "a \<notin> linked ch"
    proof
      assume "a \<in> linked ch"
      then obtain it' where "items s a = Some it'" "it_flags it' AND ITEM_LINKED \<noteq> 0" using at_linked [OF at] by blast
      then show False using it(1) fr by simp
    qed
    have naf: "a \<notin> freed F" using ok it(1,2) by (intro not_freed) (simp_all add: store_ok_def)
    let ?F = "F(unat (ITEM_clsid it) := a # F (unat (ITEM_clsid it)))"
    obtain s' m cs where s': "do_item_remove a s = Some s'" "s' = s\<lparr>items := m, slabclass := cs\<rparr>" "store_ok hash s' ch Q ?F"
      "amap hash s' = amap hash s" "\<forall>b. b \<noteq> a \<longrightarrow> b \<notin> freed F \<longrightarrow> items s' b = items s b" "length (slabclass s') = length (slabclass s)"
      using do_item_remove_frees [OF ok it(1,2) True] fr nl by blast
    have fF: "freed ?F = insert a (freed F)" by (auto simp: freed_def split: if_splits)
    have f': "\<exists>ib. items s' b = Some ib \<and> it_flags ib = ITEM_SLABBED" if "b \<in> freed ?F" for b
      using s'(3) that free_item by (metis store_ok_def)
    have "b \<in> linked ch \<and> it_flags ib AND ITEM_CHUNKED = 0" if b: "items s' b = Some ib" "it_flags ib AND ITEM_LINKED \<noteq> 0" for b ib
    proof -
      have "b \<notin> freed ?F" using f' b by fastforce
      then have "items s b = Some ib" using s'(5) b(1) fF by auto
      then show ?thesis using at_marks [OF at] b(2) by blast
    qed
    then have "store_at hash ch s'" using s'(3) unfolding store_at_def by blast
    moreover have exact: "\<forall>b ib. b \<noteq> a \<longrightarrow> items s b = Some ib \<longrightarrow> it_flags ib AND ITEM_SLABBED = 0 \<longrightarrow> items s' b = Some ib"
    proof (intro allI impI)
      fix b ib assume b: "b \<noteq> a" "items s b = Some ib" "it_flags ib AND ITEM_SLABBED = 0"
      have "b \<notin> freed F" using ok b(2,3) by (intro not_freed) (simp_all add: store_ok_def)
      then show "items s' b = Some ib" using s'(5) b by auto
    qed
    moreover have "keeps {a} s s'" unfolding keeps_def using exact by blast
    moreover have "length cs = length (slabclass s)" using s'(2,6) by simp
    ultimately show ?thesis using s'(1,2,4) by blast
  qed
qed

text \<open>An item that can be linked, with a reference to it.\<close>

definition item_fits :: "'a slabs_scheme \<Rightarrow> item \<Rightarrow> bool" where
  "item_fits s it \<longleftrightarrow> key_ok it \<and> size_fine it \<and> class_valid s it \<and> it_flags it AND ITEM_SLABBED = 0 \<and>
     it_flags it AND ITEM_CHUNKED = 0 \<and> it_flags it AND ITEM_LINKED = 0 \<and> 0 < refcount it \<and> refcount it + 1 \<noteq> 0"

lemma fits_view:
  assumes "item_view it' = item_view it" "slabclass s' = slabclass s \<or> length (slabclass s') = length (slabclass s)" "power_largest s' = power_largest s"
  shows "item_fits s' it' = item_fits s it"
  using view_fields [OF assms(1)] assms(2,3) by (auto simp: item_fits_def size_fine_def class_valid_def)

lemma at_link:
  assumes at: "store_at hash ch s" and it: "items s a = Some it" "item_fits s it" and new: "amap hash s (key_of it) = None"
  shows "\<exists>s' ch' it'. do_item_link a (hash (key_of it)) s = Some s' \<and> store_at hash ch' s' \<and> linked ch' = insert a (linked ch) \<and>
    amap hash s' = (amap hash s)(key_of it \<mapsto> a) \<and> keeps {a} s s' \<and> items s' a = Some it' \<and> item_view it' = item_view (linked_item it s) \<and>
    slabclass s' = slabclass s \<and> power_largest s' = power_largest s \<and> workers s' = workers s"
proof -
  obtain Q F where ok: "store_ok hash s ch Q F" using at by (auto simp: store_at_def)
  have f: "key_ok it" "size_fine it" "class_valid s it" "it_flags it AND ITEM_SLABBED = 0" "it_flags it AND ITEM_CHUNKED = 0"
    "it_flags it AND ITEM_LINKED = 0" "refcount it + 1 \<noteq> 0" using it(2) by (simp_all add: item_fits_def)
  obtain s' ch' where s': "do_item_link a (hash (key_of it)) s = Some s'" "store_ok hash s' ch' (Q(qid_of it := a # Q (qid_of it))) F"
    "amap hash s' = (amap hash s)(key_of it \<mapsto> a)" "linked ch' = insert a (linked ch)" "same_cores {a} (items s) (items s')"
    "map_option item_core (items s' a) = Some (item_core (linked_item it s))" "slabclass s' = slabclass s" "power_largest s' = power_largest s"
    "workers s' = workers s"
    using do_item_link_ok [OF ok it(1) f(1-3,6,4,7) new] by blast
  obtain it' where it': "items s' a = Some it'" "item_core it' = item_core (linked_item it s)" using s'(6) by auto
  have "it_flags it' AND ITEM_CHUNKED = 0" using f(5) item_core_fields(3) [OF it'(2)] by (simp add: linked_item_def flag_facts)
  then have "store_at hash ch' s'"
    unfolding store_at_def using s'(2,4) it'(1) marks_cores [OF at_marks [OF at] s'(5)] by (metis Diff_iff insertCI option.inject)
  then show ?thesis using s' it' view_core [OF it'(2)] keeps_cores [OF s'(5)] by blast
qed

lemma linked_item_core:
  assumes "item_core it' = item_core it" "settings s' = settings s" "cas_id s' = cas_id s" "current_time s' = current_time s"
  shows "item_view (linked_item it' s') = item_view (linked_item it s)"
  using item_core_fields [OF assms(1)] assms(2-4)
  by (simp add: item_view_def linked_item_def linked_cas_def value_of_def key_of_def ITEM_clsid_def)

lemma fits_core:
  assumes "item_core it' = item_core it" "slabclass s' = slabclass s" "power_largest s' = power_largest s"
  shows "item_fits s' it' = item_fits s it"
  by (rule fits_view [OF view_core [OF assms(1)]]) (simp_all add: assms(2,3))

text \<open>What is left of an item that was unlinked while it is held.\<close>

definition unlinked_view :: "item \<Rightarrow> item \<Rightarrow> bool" where
  "unlinked_view it it' \<longleftrightarrow> item_view it' = item_view (it\<lparr>it_flags := it_flags it AND NOT ITEM_LINKED, refcount := refcount it - 1\<rparr>)"

lemma unlinked_fields:
  assumes "unlinked_view it it'" and "it_flags it AND ITEM_SLABBED = 0" "it_flags it AND ITEM_CHUNKED = 0"
  shows "it_flags it' AND ITEM_LINKED = 0" "it_flags it' AND ITEM_SLABBED = 0" "it_flags it' AND ITEM_CHUNKED = 0"
    "refcount it' = refcount it - 1" "ITEM_clsid it' = ITEM_clsid it"
proof -
  note v = view_fields [OF assms(1) [unfolded unlinked_view_def]]
  show "it_flags it' AND ITEM_LINKED = 0" "it_flags it' AND ITEM_SLABBED = 0" "it_flags it' AND ITEM_CHUNKED = 0"
    using v(5-7) assms(2,3) by (simp_all add: flag_facts del: bit.conj_disj_distrib) (simp_all add: and.assoc)
  show "refcount it' = refcount it - 1" using v(2) by simp
  show "ITEM_clsid it' = ITEM_clsid it" using v(8) by (simp add: ITEM_clsid_def)
qed

lemma at_unlink:
  assumes at: "store_at hash ch s" and m: "amap hash s k = Some o'" and it: "items s o' = Some ito" "1 < refcount ito"
  shows "\<exists>s' ch' it'. do_item_unlink o' (hash k) s = Some s' \<and> store_at hash ch' s' \<and> amap hash s' = (amap hash s)(k := None) \<and>
    items s' o' = Some it' \<and> unlinked_view ito it' \<and> workers s' = workers s \<and> slabclass s' = slabclass s \<and>
    power_largest s' = power_largest s \<and> settings s' = settings s \<and> current_time s' = current_time s \<and> cas_id s' = cas_id s \<and>
    same_cores {o'} (items s) (items s')"
proof -
  have l: "o' \<in> linked ch" "akey (items s) o' = k" using at_amap [OF at] m by blast+
  have k: "key_of ito = k" using l(2) it(1) by (simp add: akey_def)
  obtain s' ch' it' where "do_item_unlink o' (hash (key_of ito)) s = Some s'" "store_at hash ch' s'"
    "amap hash s' = (amap hash s)(key_of ito := None)" "items s' o' = Some it'"
    "item_core it' = item_core (ito\<lparr>it_flags := it_flags ito AND NOT ITEM_LINKED, refcount := refcount ito - 1\<rparr>)"
    "workers s' = workers s" "slabclass s' = slabclass s" "power_largest s' = power_largest s"
    "settings s' = settings s" "current_time s' = current_time s" "cas_id s' = cas_id s" "same_cores {o'} (items s) (items s')"
    using unlink_held [OF at l(1) it] by blast
  then show ?thesis using k view_core unfolding unlinked_view_def by blast
qed

lemma at_replace:
  assumes at: "store_at hash ch s" and m: "amap hash s k = Some o'" and ito: "items s o' = Some ito" "1 < refcount ito"
    and it: "items s a = Some it" "item_fits s it" "key_of it = k"
  shows "\<exists>s' ch' it' ito'. do_item_replace o' a (hash k) s = Some s' \<and> store_at hash ch' s' \<and> amap hash s' = (amap hash s)(k \<mapsto> a) \<and>
    items s' a = Some it' \<and> item_view it' = item_view (linked_item it s) \<and> items s' o' = Some ito' \<and> unlinked_view ito ito' \<and>
    keeps {o', a} s s' \<and> workers s' = workers s \<and> slabclass s' = slabclass s \<and> power_largest s' = power_largest s"
proof -
  have "o' \<in> linked ch" using at_amap [OF at] m by blast
  then obtain x where "items s o' = Some x" "it_flags x AND ITEM_SLABBED = 0" "it_flags x AND ITEM_LINKED \<noteq> 0" "it_flags x AND ITEM_CHUNKED = 0"
    using at_linked [OF at] by blast
  then have L: "it_flags ito AND ITEM_SLABBED = 0" "it_flags ito AND ITEM_LINKED \<noteq> 0" "it_flags ito AND ITEM_CHUNKED = 0" using ito(1) by simp_all
  then have ne: "a \<noteq> o'" using it ito(1) by (auto simp: item_fits_def)
  obtain s1 ch1 ito1 where s1: "do_item_unlink o' (hash k) s = Some s1" "store_at hash ch1 s1" "amap hash s1 = (amap hash s)(k := None)"
    "items s1 o' = Some ito1" "unlinked_view ito ito1" "workers s1 = workers s" "slabclass s1 = slabclass s"
    "power_largest s1 = power_largest s" "settings s1 = settings s" "current_time s1 = current_time s" "cas_id s1 = cas_id s"
    "same_cores {o'} (items s) (items s1)" using at_unlink [OF at m ito] by blast
  obtain it1 where it1: "items s1 a = Some it1" "item_core it1 = item_core it" using same_cores_at [OF s1(12) _ it(1)] ne by blast
  have k1: "key_of it1 = k" using item_core_fields(15) [OF it1(2)] it(3) by simp
  obtain s2 ch2 it2 where s2: "do_item_link a (hash k) s1 = Some s2" "store_at hash ch2 s2" "amap hash s2 = (amap hash s1)(k \<mapsto> a)"
    "keeps {a} s1 s2" "items s2 a = Some it2" "item_view it2 = item_view (linked_item it1 s1)" "slabclass s2 = slabclass s1"
    "power_largest s2 = power_largest s1" "workers s2 = workers s1"
    using at_link [OF s1(2) it1(1)] fits_core [OF it1(2) s1(7,8)] it(2) k1 s1(3) by auto
  have "it_flags ito1 AND ITEM_SLABBED = 0" using unlinked_fields [OF s1(5) L(1,3)] by simp
  then obtain ito2 where ito2: "items s2 o' = Some ito2" "item_view ito2 = item_view ito1"
    using keepsD [OF s2(4) _ s1(4)] ne by blast
  have "keeps {o', a} s s2"
    using keeps_trans [OF keeps_mono [OF keeps_cores [OF s1(12)], of "{o', a}"] keeps_mono [OF s2(4), of "{o', a}"]] by blast
  moreover have "item_view it2 = item_view (linked_item it s)" using s2(6) linked_item_core [OF it1(2) s1(9,11,10)] by simp
  moreover have "unlinked_view ito ito2" using s1(5) ito2(2) by (simp add: unlinked_view_def)
  moreover have "do_item_replace o' a (hash k) s = Some s2" using ito(1) L(1) s1(1) s2(1) by (simp add: do_item_replace_def assert_that_def)
  moreover have "amap hash s2 = (amap hash s)(k \<mapsto> a)" using s2(3) s1(3) by simp
  moreover have "workers s2 = workers s" "slabclass s2 = slabclass s" "power_largest s2 = power_largest s" using s1(6-8) s2(7-9) by simp_all
  ultimately have "do_item_replace o' a (hash k) s = Some s2 \<and> store_at hash ch2 s2 \<and> amap hash s2 = (amap hash s)(k \<mapsto> a) \<and>
    items s2 a = Some it2 \<and> item_view it2 = item_view (linked_item it s) \<and> items s2 o' = Some ito2 \<and> unlinked_view ito ito2 \<and>
    keeps {o', a} s s2 \<and> workers s2 = workers s \<and> slabclass s2 = slabclass s \<and> power_largest s2 = power_largest s"
    using s2(2,5) ito2(1) by (intro conjI)
  then show ?thesis by (intro exI)
qed

section \<open>Looking for the old item\<close>

definition expired :: "item \<Rightarrow> 'a cache_mem_scheme \<Rightarrow> bool" where
  "expired it s \<longleftrightarrow> item_is_flushed it s \<or> exptime it \<noteq> 0 \<and> exptime it \<le> current_time s"

definition live_item :: "(byte list \<Rightarrow> u32) \<Rightarrow> 'a cache_mem_scheme \<Rightarrow> byte list \<Rightarrow> item option" where
  "live_item hash s k = (case amap hash s k of
     None \<Rightarrow> None
   | Some a \<Rightarrow> (case items s a of None \<Rightarrow> None | Some it \<Rightarrow> if expired it s then None else Some it))"

text \<open>The part of the state besides items, queues and table that linking depends on.\<close>

definition same_clock :: "'a cache_mem_scheme \<Rightarrow> 'a cache_mem_scheme \<Rightarrow> bool" where
  "same_clock s s' \<longleftrightarrow> settings s' = settings s \<and> cas_id s' = cas_id s \<and> current_time s' = current_time s \<and>
     length (slabclass s') = length (slabclass s) \<and> power_largest s' = power_largest s"

definition refs_fine :: "(byte list \<Rightarrow> u32) \<Rightarrow> 'a cache_mem_scheme \<Rightarrow> byte list \<Rightarrow> bool" where
  "refs_fine hash s k \<longleftrightarrow> (\<forall>a it. amap hash s k = Some a \<longrightarrow> items s a = Some it \<longrightarrow> unat (refcount it) < 65534)"

lemma get_old:
  assumes at: "store_at hash ch s" and refs: "refs_fine hash s k"
  obtains
    (miss) s' ch' where "do_item_get t k (hash k) False s = Some (None, s')" "live_item hash s k = None"
      "store_at hash ch' s'" "amap hash s' = (amap hash s)(k := None)" "keeps {b. amap hash s k = Some b} s s'" "same_clock s s'"
      "\<And>b it. amap hash s k \<noteq> Some b \<Longrightarrow> items s b = Some it \<Longrightarrow> it_flags it AND ITEM_SLABBED = 0 \<Longrightarrow>
         \<exists>it'. items s' b = Some it' \<and> item_core it' = item_core it"
      "workers_ok s \<Longrightarrow> workers_ok s'" "length (workers s') = length (workers s)"
  | (hit) o' ito where "do_item_get t k (hash k) False s = Some (Some o', s\<lparr>items := (items s)(o' \<mapsto> ito\<lparr>refcount := refcount ito + 1\<rparr>)\<rparr>)"
      "live_item hash s k = Some ito" "amap hash s k = Some o'" "items s o' = Some ito"
      "store_at hash ch (s\<lparr>items := (items s)(o' \<mapsto> ito\<lparr>refcount := refcount ito + 1\<rparr>)\<rparr>)"
      "amap hash (s\<lparr>items := (items s)(o' \<mapsto> ito\<lparr>refcount := refcount ito + 1\<rparr>)\<rparr>) = amap hash s"
      "unat (refcount ito + 1) = unat (refcount ito) + 1" "0 < refcount ito"
      "it_flags ito AND ITEM_SLABBED = 0" "it_flags ito AND ITEM_CHUNKED = 0" "it_flags ito AND ITEM_LINKED \<noteq> 0" "class_valid s ito" "key_of ito = k"
proof (cases "amap hash s k")
  case None
  then have "do_item_get t k (hash k) False s = Some (None, s)" using at_find [OF at, of k] by (simp add: do_item_get_def)
  moreover have "(amap hash s)(k := None) = amap hash s" using None by auto
  ultimately show thesis using miss [of s ch] at None by (simp add: live_item_def same_clock_def)
next
  case (Some o')
  have l: "o' \<in> linked ch" "akey (items s) o' = k" using at_amap [OF at] Some by blast+
  obtain ito where ito: "items s o' = Some ito" "it_flags ito AND ITEM_SLABBED = 0" "it_flags ito AND ITEM_LINKED \<noteq> 0" "0 < refcount ito"
    "it_flags ito AND ITEM_CHUNKED = 0" "class_valid s ito" using at_linked [OF at l(1)] by blast
  have k: "key_of ito = k" using l(2) ito(1) by (simp add: akey_def)
  have "unat (refcount ito) < 65534" using refs Some ito(1) by (simp add: refs_fine_def)
  then have r: "unat (refcount ito + 1) = unat (refcount ito) + 1" by (simp add: unat_word_ariths)
  then have r0: "refcount ito + 1 \<noteq> 0" and r1: "1 < refcount ito + 1" using ito(4) by (auto simp: word_less_nat_alt)
  let ?it = "ito\<lparr>refcount := refcount ito + 1\<rparr>"
  let ?s1 = "s\<lparr>items := (items s)(o' \<mapsto> ?it)\<rparr>"
  have s1: "refcount_incr o' s = Some ?s1" "store_at hash ch ?s1" "amap hash ?s1 = amap hash s"
    using refcount_up [OF at ito(1,2) r0] by auto
  have fl: "item_is_flushed ?it ?s1 = item_is_flushed ito s" by (simp add: item_is_flushed_def ITEM_get_cas_def Let_def)
  show thesis
  proof (cases "expired ito s")
    case False
    then have "do_item_get t k (hash k) False s = Some (Some o', ?s1)"
      using at_find [OF at, of k] Some s1(1) fl by (auto simp: do_item_get_def expired_def)
    moreover have "live_item hash s k = Some ito" using Some ito(1) False by (simp add: live_item_def)
    ultimately show thesis using hit [of o' ito] Some ito s1(2,3) r k by blast
  next
    case True
    have it1: "items ?s1 o' = Some ?it" by simp
    have m1: "amap hash ?s1 k = Some o'" using Some s1(3) by simp
    obtain s2 ch2 it2 where s2: "do_item_unlink o' (hash k) ?s1 = Some s2" "store_at hash ch2 s2" "amap hash s2 = (amap hash ?s1)(k := None)"
      "items s2 o' = Some it2" "unlinked_view ?it it2" "workers s2 = workers ?s1" "slabclass s2 = slabclass ?s1"
      "power_largest s2 = power_largest ?s1" "settings s2 = settings ?s1" "current_time s2 = current_time ?s1" "cas_id s2 = cas_id ?s1"
      "same_cores {o'} (items ?s1) (items s2)" using at_unlink [OF s1(2) m1 it1] r1 by auto
    have u: "it_flags it2 AND ITEM_LINKED = 0" "it_flags it2 AND ITEM_SLABBED = 0" "it_flags it2 AND ITEM_CHUNKED = 0"
      "refcount it2 = refcount ito" "ITEM_clsid it2 = ITEM_clsid ito"
      using unlinked_fields [OF s2(5)] ito(2,5) by (simp_all add: ITEM_clsid_def)
    have "class_valid s2 it2" using ito(6) s2(7,8) u(5) by (simp add: class_valid_def)
    then obtain s3 m cs where s3: "do_item_remove o' s2 = Some s3" "s3 = s2\<lparr>items := m, slabclass := cs\<rparr>" "length cs = length (slabclass s2)"
      "store_at hash ch2 s3" "amap hash s3 = amap hash s2" "keeps {o'} s2 s3"
      "\<And>b ib. b \<noteq> o' \<Longrightarrow> items s2 b = Some ib \<Longrightarrow> it_flags ib AND ITEM_SLABBED = 0 \<Longrightarrow> items s3 b = Some ib"
      using at_release [OF s2(2,4) u(2)] u ito(4) by auto
    have cores: "same_cores {o'} (items s) (items s2)"
      using s2(12) by (simp add: same_cores_def)
    let ?f = "\<lambda>w. if item_is_flushed ito s then w\<lparr>get_flushed := get_flushed w + 1\<rparr> else w\<lparr>get_expired := get_expired w + 1\<rparr>"
    let ?s' = "upd_worker t ?f s3"
    have "do_item_get t k (hash k) False s = Some (None, ?s')"
      using at_find [OF at, of k] Some s1(1) it1 fl s2(1) s3(1) True by (auto simp: do_item_get_def expired_def)
    moreover have "live_item hash s k = None" using Some ito(1) True by (simp add: live_item_def)
    moreover have "store_at hash ch2 ?s'" "amap hash ?s' = (amap hash s)(k := None)"
      using at_worker [OF s3(4), of t ?f] s3(5) s2(3) s1(3) by simp_all
    moreover have "keeps {b. amap hash s k = Some b} s ?s'"
    proof -
      have "keeps {o'} s s3" by (rule keeps_trans [OF keeps_cores [OF cores] s3(6)])
      then show ?thesis using Some by (simp add: keeps_def upd_worker_def)
    qed
    moreover have "same_clock s ?s'" using s2(7-11) s3(2,3) by (simp add: same_clock_def upd_worker_def)
    moreover have "\<exists>it'. items ?s' b = Some it' \<and> item_core it' = item_core it"
      if b: "amap hash s k \<noteq> Some b" "items s b = Some it" "it_flags it AND ITEM_SLABBED = 0" for b it
    proof -
      have ne: "b \<noteq> o'" using b(1) Some by auto
      then obtain ib where ib: "items s2 b = Some ib" "item_core ib = item_core it" using same_cores_at [OF cores _ b(2)] by blast
      then have "items s3 b = Some ib" using s3(7) [OF ne ib(1)] item_core_fields(3) [OF ib(2)] b(3) by simp
      then show ?thesis using ib(2) by (simp add: upd_worker_def)
    qed
    moreover have "workers_ok ?s'" if "workers_ok s"
    proof -
      have "workers s3 = workers s" using s2(6) s3(2) by simp
      then have "workers_ok s3" using that by (simp add: workers_ok_def)
      then show ?thesis by (rule workers_ok_upd) auto
    qed
    moreover have "length (workers ?s') = length (workers s)" using s2(6) s3(2) by (simp add: upd_worker_def)
    ultimately show thesis using miss by blast
  qed
qed

lemma contents_ref:
  assumes "items s a = Some it" and "amap hash (s\<lparr>items := (items s)(a \<mapsto> it\<lparr>refcount := r\<rparr>)\<rparr>) = amap hash s"
  shows "contents hash (s\<lparr>items := (items s)(a \<mapsto> it\<lparr>refcount := r\<rparr>)\<rparr>) = contents hash s"
proof -
  have "value_at (s\<lparr>items := (items s)(a \<mapsto> it\<lparr>refcount := r\<rparr>)\<rparr>) = value_at s"
    using assms(1) by (auto simp: fun_eq_iff value_at_def value_of_def key_of_def)
  then show ?thesis by (rule_tac ext) (simp add: contents_def assms(2))
qed

lemma at_release_more:
  assumes at: "store_at hash ch s" and it: "items s a = Some it" "it_flags it AND ITEM_SLABBED = 0" "1 < refcount it"
  shows "\<exists>s'. do_item_remove a s = Some s' \<and> s' = s\<lparr>items := (items s)(a \<mapsto> it\<lparr>refcount := refcount it - 1\<rparr>)\<rparr> \<and>
    store_at hash ch s' \<and> amap hash s' = amap hash s \<and> contents hash s' = contents hash s"
proof -
  obtain Q F where ok: "store_ok hash s ch Q F" using at by (auto simp: store_at_def)
  from do_item_remove_keeps [OF ok it] obtain s' where s': "do_item_remove a s = Some s'"
    "s' = s\<lparr>items := (items s)(a \<mapsto> it\<lparr>refcount := refcount it - 1\<rparr>)\<rparr>" "store_ok hash s' ch Q F" "amap hash s' = amap hash s" by blast
  have "store_at hash ch s'" unfolding store_at_def using s'(3) at it(1) by (auto simp: s'(2) store_at_def split: if_splits)
  then show ?thesis using s'(1,2,4) contents_ref [OF it(1), of hash "refcount it - 1"] by simp
qed

lemma contents_kept:
  assumes "kept (items s) (items s')" and "amap hash s' = amap hash s"
  shows "contents hash s' = contents hash s"
  using kept_value [OF assms(1)] assms(2) by (auto simp: contents_def fun_eq_iff bind_eq_None_conv split: bind_splits)

text \<open>Linking the new item where there is no old one.\<close>

lemma put_new:
  assumes at: "store_at hash ch s" and it: "items s a = Some it" "item_fits s it" "key_of it = k" and new: "amap hash s k = None"
  obtains s' it' where "store_put a None c (hash k) s = Some (STORED, c\<lparr>c_cas := ITEM_get_cas it'\<rparr>, s')" "store_good hash s'"
    "contents hash s' = (contents hash s)(k \<mapsto> value_of (linked_item it s))" "items s' a = Some it'" "refcount it' = refcount it + 1"
proof -
  obtain s' ch' it' where s': "do_item_link a (hash k) s = Some s'" "store_at hash ch' s'" "amap hash s' = (amap hash s)(k \<mapsto> a)"
    "keeps {a} s s'" "items s' a = Some it'" "item_view it' = item_view (linked_item it s)"
    using at_link [OF at it(1,2), unfolded it(3), OF new] by blast
  have nl: "amap hash s x \<noteq> Some a" for x
  proof
    assume "amap hash s x = Some a"
    then have "a \<in> linked ch" using at_amap [OF at] by blast
    then obtain y where "items s a = Some y" "it_flags y AND ITEM_LINKED \<noteq> 0" using at_linked [OF at] by blast
    then show False using it(1,2) by (simp add: item_fits_def)
  qed
  have v: "value_of it' = value_of (linked_item it s)" "refcount it' = refcount (linked_item it s)" using view_fields [OF s'(6)] by simp_all
  have "contents hash s' x = ((contents hash s)(k \<mapsto> value_of (linked_item it s))) x" for x
  proof (cases "x = k")
    case True
    then show ?thesis using s'(3,5) v(1) by (simp add: contents_def value_at_def)
  next
    case False
    have "contents hash s' x = contents hash s x" using nl False s'(3) by (intro contents_same [OF at s'(4)]) auto
    then show ?thesis using False by simp
  qed
  then have c: "contents hash s' = (contents hash s)(k \<mapsto> value_of (linked_item it s))" by blast
  have "store_put a None c (hash k) s = Some (STORED, c\<lparr>c_cas := ITEM_get_cas it'\<rparr>, s')"
    using s'(1,5) by (simp add: store_put_def)
  moreover have "store_good hash s'" using s'(2) by (auto simp: store_good_at)
  ultimately show thesis using that c s'(5) v(2) by (simp add: linked_item_def)
qed

text \<open>Replacing an item that is held, and releasing it.\<close>

lemma put_replace:
  assumes at: "store_at hash ch s" and m: "amap hash s k = Some o'" and ito: "items s o' = Some ito" "1 < refcount ito"
    and it: "items s a = Some it" "item_fits s it" "key_of it = k"
  obtains s1 s2 it' where "do_item_replace o' a (hash k) s = Some s1" "do_item_remove o' s1 = Some s2" "store_good hash s2"
    "contents hash s2 = (contents hash s)(k \<mapsto> value_of (linked_item it s))" "items s1 a = Some it'" "items s2 a = Some it'"
    "refcount it' = refcount it + 1"
proof -
  have l: "o' \<in> linked ch" "akey (items s) o' = k" using at_amap [OF at] m by blast+
  then obtain x where "items s o' = Some x" "it_flags x AND ITEM_SLABBED = 0" "it_flags x AND ITEM_LINKED \<noteq> 0"
    "it_flags x AND ITEM_CHUNKED = 0" "class_valid s x" using at_linked [OF at] by blast
  then have L: "it_flags ito AND ITEM_SLABBED = 0" "it_flags ito AND ITEM_LINKED \<noteq> 0" "it_flags ito AND ITEM_CHUNKED = 0" "class_valid s ito"
    using ito(1) by simp_all
  have ne: "a \<noteq> o'" using it(1,2) ito(1) L(2) by (auto simp: item_fits_def)
  obtain s1 ch1 it1 ito1 where s1: "do_item_replace o' a (hash k) s = Some s1" "store_at hash ch1 s1" "amap hash s1 = (amap hash s)(k \<mapsto> a)"
    "items s1 a = Some it1" "item_view it1 = item_view (linked_item it s)" "items s1 o' = Some ito1" "unlinked_view ito ito1"
    "keeps {o', a} s s1" "slabclass s1 = slabclass s" "power_largest s1 = power_largest s"
    using at_replace [OF at m ito it] by blast
  have u: "it_flags ito1 AND ITEM_LINKED = 0" "it_flags ito1 AND ITEM_SLABBED = 0" "it_flags ito1 AND ITEM_CHUNKED = 0"
    "refcount ito1 = refcount ito - 1" "ITEM_clsid ito1 = ITEM_clsid ito" using unlinked_fields [OF s1(7) L(1,3)] by simp_all
  have "1 < unat (refcount ito)" using ito(2) by (simp add: word_less_nat_alt)
  then have "unat (refcount ito - 1) = unat (refcount ito) - 1" by (intro unat_minus_one) auto
  then have pos: "0 < refcount ito1" using \<open>1 < unat (refcount ito)\<close> by (simp add: u(4) word_less_nat_alt)
  have "class_valid s1 ito1" using L(4) s1(9,10) u(5) by (simp add: class_valid_def)
  then obtain s2 where s2: "do_item_remove o' s1 = Some s2" "store_at hash ch1 s2" "amap hash s2 = amap hash s1" "keeps {o'} s1 s2"
    "\<And>b ib. b \<noteq> o' \<Longrightarrow> items s1 b = Some ib \<Longrightarrow> it_flags ib AND ITEM_SLABBED = 0 \<Longrightarrow> items s2 b = Some ib"
    using at_release [OF s1(2,6) u(2) pos] u(1,3) by blast
  note v = view_fields [OF s1(5)]
  have "it_flags it1 AND ITEM_SLABBED = 0" using v(5) it(2) by (simp add: linked_item_def item_fits_def flag_facts)
  then have it2: "items s2 a = Some it1" using s2(5) [OF ne s1(4)] by blast
  have nl: "amap hash s x \<noteq> Some a" for x
  proof
    assume "amap hash s x = Some a"
    then have "a \<in> linked ch" using at_amap [OF at] by blast
    then obtain y where "items s a = Some y" "it_flags y AND ITEM_LINKED \<noteq> 0" using at_linked [OF at] by blast
    then show False using it(1,2) by (simp add: item_fits_def)
  qed
  have no: "amap hash s x \<noteq> Some o'" if "x \<noteq> k" for x using at_amap [OF at] l(2) that by auto
  have "contents hash s2 x = ((contents hash s)(k \<mapsto> value_of (linked_item it s))) x" for x
  proof (cases "x = k")
    case True
    then show ?thesis using s1(3) s2(3) it2 v(1) by (simp add: contents_def value_at_def)
  next
    case False
    have "keeps {o', a} s s2" using keeps_trans [OF s1(8) keeps_mono [OF s2(4)]] by blast
    then have "contents hash s2 x = contents hash s x"
      using nl no [OF False] False s1(3) s2(3) by (intro contents_same [OF at]) auto
    then show ?thesis using False by simp
  qed
  then have c: "contents hash s2 = (contents hash s)(k \<mapsto> value_of (linked_item it s))" by blast
  have "store_good hash s2" using s2(2) by (auto simp: store_good_at)
  then show thesis using that [OF s1(1) s2(1) _ c s1(4) it2] v(2) by (simp add: linked_item_def)
qed

section \<open>The commands that store\<close>

fun store_outcome :: "nread \<Rightarrow> u64 \<Rightarrow> u64 option \<Rightarrow> store_item_type" where
  "store_outcome NREAD_ADD c old = (if old = None then STORED else NOT_STORED)"
| "store_outcome NREAD_REPLACE c old = (if old = None then NOT_STORED else STORED)"
| "store_outcome NREAD_CAS c old = (case old of None \<Rightarrow> NOT_FOUND | Some d \<Rightarrow> if c = d then STORED else EXISTS)"
| "store_outcome comm c old = STORED"

definition stored_ok ::
  "(byte list \<Rightarrow> u32) \<Rightarrow> nat \<Rightarrow> item \<Rightarrow> nread \<Rightarrow> 'a cache_mem_scheme \<Rightarrow> store_item_type \<Rightarrow> conn \<Rightarrow> 'a cache_mem_scheme \<Rightarrow> bool" where
  "stored_ok hash a it comm s stored c s' \<longleftrightarrow> store_good hash s' \<and>
     stored = store_outcome comm (ITEM_get_cas it) (map_option ITEM_get_cas (live_item hash s (key_of it))) \<and>
     contents hash s' =
       (if stored = STORED then (contents hash s)(key_of it \<mapsto> value_of (linked_item it s))
        else if live_item hash s (key_of it) = None then (contents hash s)(key_of it := None) else contents hash s) \<and>
     (\<exists>it'. items s' a = Some it' \<and> refcount it' = (if stored = STORED then refcount it + 1 else refcount it) \<and>
        (stored = STORED \<longrightarrow> c_cas c = ITEM_get_cas it'))"

lemma store_item_miss:
  assumes at: "store_at hash ch s" and get: "do_item_get (c_thread c) (key_of it) (hash (key_of it)) False s = Some (None, s1)"
    and live: "live_item hash s (key_of it) = None" and at1: "store_at hash ch1 s1" and am: "amap hash s1 = (amap hash s)(key_of it := None)"
    and k: "keeps {b. amap hash s (key_of it) = Some b} s s1" and clock: "same_clock s s1"
    and cores: "\<And>b it'. amap hash s (key_of it) \<noteq> Some b \<Longrightarrow> items s b = Some it' \<Longrightarrow> it_flags it' AND ITEM_SLABBED = 0 \<Longrightarrow>
         \<exists>it''. items s1 b = Some it'' \<and> item_core it'' = item_core it'"
    and it: "items s a = Some it" "item_fits s it" and comm: "comm \<in> {NREAD_ADD, NREAD_SET, NREAD_REPLACE, NREAD_CAS}"
  shows "\<exists>stored c' s'. do_store_item hash a comm c (hash (key_of it)) s = Some (stored, c', s') \<and> stored_ok hash a it comm s stored c' s'"
proof -
  let ?k = "key_of it"
  have "amap hash s ?k \<noteq> Some a"
  proof
    assume "amap hash s ?k = Some a"
    then have "a \<in> linked ch" using at_amap [OF at] by blast
    then obtain y where "items s a = Some y" "it_flags y AND ITEM_LINKED \<noteq> 0" using at_linked [OF at] by blast
    then show False using it by (simp add: item_fits_def)
  qed
  then obtain it1 where it1: "items s1 a = Some it1" "item_core it1 = item_core it" using cores [OF _ it(1)] it(2) by (auto simp: item_fits_def)
  note f = item_core_fields [OF it1(2)]
  have cl: "settings s1 = settings s" "cas_id s1 = cas_id s" "current_time s1 = current_time s"
    "length (slabclass s1) = length (slabclass s)" "power_largest s1 = power_largest s" using clock by (simp_all add: same_clock_def)
  have fits: "item_fits s1 it1" using fits_view [OF view_core [OF it1(2)], of s1 s] cl it(2) by simp
  have val: "value_of (linked_item it1 s1) = value_of (linked_item it s)" using view_fields(1) [OF linked_item_core [OF it1(2) cl(1-3)]] .
  have c1: "contents hash s1 = (contents hash s)(?k := None)"
  proof
    fix x
    show "contents hash s1 x = ((contents hash s)(?k := None)) x"
    proof (cases "x = ?k")
      case True
      then show ?thesis using am by (simp add: contents_def)
    next
      case False
      have "contents hash s1 x = contents hash s x"
      proof (rule contents_same [OF at k])
        show "amap hash s1 x = amap hash s x" using am False by simp
        show "amap hash s x \<noteq> Some b" if "b \<in> {b. amap hash s ?k = Some b}" for b using that at_amap [OF at] False by auto
      qed
      then show ?thesis using False by simp
    qed
  qed
  have new: "amap hash s1 ?k = None" using am by simp
  have good1: "store_good hash s1" using at1 by (auto simp: store_good_at)
  obtain s2 it2 where put: "store_put a None c (hash ?k) s1 = Some (STORED, c\<lparr>c_cas := ITEM_get_cas it2\<rparr>, s2)" "store_good hash s2"
    "contents hash s2 = (contents hash s1)(?k \<mapsto> value_of (linked_item it1 s1))" "items s2 a = Some it2" "refcount it2 = refcount it1 + 1"
    by (rule put_new [OF at1 it1(1) fits f(15) new])
  have stored: "stored_ok hash a it comm s STORED (c\<lparr>c_cas := ITEM_get_cas it2\<rparr>) s2" if "comm = NREAD_ADD \<or> comm = NREAD_SET"
    using that put val c1 f(6) live by (auto simp: stored_ok_def)
  have not_stored: "stored_ok hash a it comm s r c' s1" if "comm = NREAD_REPLACE \<and> r = NOT_STORED \<or> comm = NREAD_CAS \<and> r = NOT_FOUND" for r c'
    using that good1 live c1 it1(1) f(6) by (auto simp: stored_ok_def)
  consider "comm = NREAD_ADD \<or> comm = NREAD_SET" | "comm = NREAD_REPLACE" | "comm = NREAD_CAS" using comm by auto
  then show ?thesis
  proof cases
    case 1
    then have "do_store_item hash a comm c (hash ?k) s = Some (STORED, c\<lparr>c_cas := ITEM_get_cas it2\<rparr>, s2)"
      using it(1) get put(1,4) by (auto simp: do_store_item_def release_opt_def)
    then show ?thesis using stored [OF 1] by blast
  next
    case 2
    then have "do_store_item hash a comm c (hash ?k) s = Some (NOT_STORED, c, s1)"
      using it(1) get by (simp add: do_store_item_def release_opt_def)
    then show ?thesis using not_stored 2 by blast
  next
    case 3
    then have "do_store_item hash a comm c (hash ?k) s = Some (NOT_FOUND, count_thread (\<lambda>t. t\<lparr>cas_misses := cas_misses t + 1\<rparr>) c, s1)"
      using it(1) it1(1) get by (simp add: do_store_item_def release_opt_def store_cas_def)
    then show ?thesis using not_stored 3 by blast
  qed
qed

lemma store_item_hit:
  assumes at: "store_at hash ch s" and s1: "s1 = s\<lparr>items := (items s)(o' \<mapsto> ito\<lparr>refcount := refcount ito + 1\<rparr>)\<rparr>"
    and get: "do_item_get (c_thread c) (key_of it) (hash (key_of it)) False s = Some (Some o', s1)"
    and live: "live_item hash s (key_of it) = Some ito" and m: "amap hash s (key_of it) = Some o'" and ito: "items s o' = Some ito"
    and at1: "store_at hash ch s1" and am: "amap hash s1 = amap hash s" and r: "unat (refcount ito + 1) = unat (refcount ito) + 1" "0 < refcount ito"
    and fl: "it_flags ito AND ITEM_SLABBED = 0" "it_flags ito AND ITEM_LINKED \<noteq> 0"
    and it: "items s a = Some it" "item_fits s it" and comm: "comm \<in> {NREAD_ADD, NREAD_SET, NREAD_REPLACE, NREAD_CAS}"
  shows "\<exists>stored c' s'. do_store_item hash a comm c (hash (key_of it)) s = Some (stored, c', s') \<and> stored_ok hash a it comm s stored c' s'"
proof -
  let ?k = "key_of it" and ?ito = "ito\<lparr>refcount := refcount ito + 1\<rparr>"
  have l: "o' \<in> linked ch" using at_amap [OF at] m by blast
  have ne: "a \<noteq> o'" using it fl(2) ito by (auto simp: item_fits_def)
  have it1: "items s1 a = Some it" "items s1 o' = Some ?ito" using it(1) ne by (simp_all add: s1)
  have fits: "item_fits s1 it" using it(2) by (simp add: s1 item_fits_def class_valid_def)
  have val: "linked_item it s1 = linked_item it s" by (simp add: s1 linked_item_def linked_cas_def)
  have c1: "contents hash s1 = contents hash s" using contents_ref [OF ito] am unfolding s1 by blast
  have r1: "1 < refcount ?ito" using r by (simp add: word_less_nat_alt)
  have cas: "ITEM_get_cas ?ito = ITEM_get_cas ito" by (simp add: ITEM_get_cas_def)
  have m1: "amap hash s1 ?k = Some o'" using m am by simp
  obtain s2 s3 it2 where rep: "do_item_replace o' a (hash ?k) s1 = Some s2" "do_item_remove o' s2 = Some s3" "store_good hash s3"
    "contents hash s3 = (contents hash s1)(?k \<mapsto> value_of (linked_item it s1))" "items s2 a = Some it2" "items s3 a = Some it2"
    "refcount it2 = refcount it + 1"
    by (rule put_replace [OF at1 m1 it1(2) r1 it1(1) fits refl])
  have stored: "stored_ok hash a it comm s STORED (c'\<lparr>c_cas := ITEM_get_cas it2\<rparr>) s3"
    if "comm = NREAD_SET \<or> comm = NREAD_REPLACE \<or> comm = NREAD_CAS \<and> ITEM_get_cas it = ITEM_get_cas ito" for c'
    using that rep(3,4,6,7) c1 val live by (auto simp: stored_ok_def)
  from at_release_more [OF at1 it1(2) _ r1] obtain s4 where s4: "do_item_remove o' s1 = Some s4" "store_at hash ch s4"
    "contents hash s4 = contents hash s1" "items s4 a = Some it" using fl(1) it1(1) ne by auto
  obtain s5 where s5: "do_item_update o' s1 = Some s5" "store_at hash ch s5" "amap hash s5 = amap hash s1" "kept (items s1) (items s5)"
    using at_update [OF at1 l] by blast
  obtain ito5 it5 where i5: "items s5 o' = Some ito5" "same_keep ?ito ito5" "items s5 a = Some it5" "same_keep it it5"
    using kept_at [OF s5(4) it1(1)] kept_at [OF s5(4) it1(2)] by blast
  have "it_flags ito5 AND ITEM_SLABBED = 0" "1 < refcount ito5" using i5(2) fl(1) r1 by (simp_all add: same_keep_def)
  from at_release_more [OF s5(2) i5(1) this] obtain s6 where s6: "do_item_remove o' s5 = Some s6" "store_at hash ch s6"
    "contents hash s6 = contents hash s5" "items s6 a = Some it5" using i5(3) ne by auto
  consider "comm = NREAD_ADD" | "comm = NREAD_SET \<or> comm = NREAD_REPLACE" | "comm = NREAD_CAS" "ITEM_get_cas it = ITEM_get_cas ito"
    | "comm = NREAD_CAS" "ITEM_get_cas it \<noteq> ITEM_get_cas ito" using comm by auto
  then show ?thesis
  proof cases
    case 1
    have "do_store_item hash a comm c (hash ?k) s = Some (NOT_STORED, c, s6)"
      using 1 it(1) get s5(1) s6(1) by (simp add: do_store_item_def release_opt_def)
    moreover have "contents hash s6 = contents hash s" using s6(3) contents_kept [OF s5(4,3)] c1 by simp
    moreover have "refcount it5 = refcount it" using i5(4) by (simp add: same_keep_def)
    ultimately show ?thesis using 1 s6(2,4) live by (auto simp: stored_ok_def store_good_at)
  next
    case 2
    have "do_store_item hash a comm c (hash ?k) s = Some (STORED, c\<lparr>c_cas := ITEM_get_cas it2\<rparr>, s3)"
      using 2 it(1) get rep by (auto simp: do_store_item_def release_opt_def store_put_def item_replace_def)
    then show ?thesis using stored [of c] 2 by blast
  next
    case 3
    let ?c = "count_slab ?ito (\<lambda>t. t\<lparr>cas_hits := cas_hits t + 1\<rparr>) c"
    have "do_store_item hash a comm c (hash ?k) s = Some (STORED, ?c\<lparr>c_cas := ITEM_get_cas it2\<rparr>, s3)"
      using 3 it(1) get rep it1 cas by (simp add: do_store_item_def release_opt_def store_cas_def item_replace_def)
    then show ?thesis using stored [of ?c] 3 by blast
  next
    case 4
    have "do_store_item hash a comm c (hash ?k) s = Some (EXISTS, count_slab ?ito (\<lambda>t. t\<lparr>cas_badval := cas_badval t + 1\<rparr>) c, s4)"
      using 4 it(1) get it1 cas s4(1) by (simp add: do_store_item_def release_opt_def store_cas_def)
    then show ?thesis using 4 s4(2-4) c1 live by (auto simp: stored_ok_def store_good_at)
  qed
qed

definition sample_conn :: conn where
  "sample_conn = \<lparr>c_thread = 0, c_stats = \<lparr>get_cmds = 0, get_misses = 0, touch_cmds = 0, touch_misses = 0, delete_misses = 0,
     incr_misses = 0, decr_misses = 0, cas_misses = 0, slab_stats = []\<rparr>, c_state = conn_new_cmd, c_noreply = False, c_wbuf = [],
     c_wsize = 2048, c_write_and_go = conn_new_cmd, c_item = None, c_ritem = None, c_rlbytes = 0, c_sbytes = 0, c_cmd = NREAD_SET, c_cas = 0\<rparr>"

text \<open>
  Claim C36. \<open>do_store_item\<close> implements add, set, replace and cas on the contents of the store:
  with a new item that the caller holds it runs without undefined behaviour and keeps the
  invariant of the store. The result is the one of the protocol (add stores only if there is no
  live item with the key, replace only if there is one, cas only if it has the expected CAS
  identifier), where a flushed or expired item counts as none. If the item was stored the key has
  its contents with a fresh CAS identifier, which is the one reported to the client; otherwise the
  contents of the store do not change, except that a dead item is gone. No other key changes, and
  every reference that was taken is released.
\<close>

theorem do_store_item_spec:
  assumes "store_good hash s" and "items s a = Some it" and "item_fits s it" and "refs_fine hash s (key_of it)"
    and "comm \<in> {NREAD_ADD, NREAD_SET, NREAD_REPLACE, NREAD_CAS}"
  shows "\<exists>stored c' s' it'. do_store_item hash a comm c (hash (key_of it)) s = Some (stored, c', s') \<and> store_good hash s' \<and>
    stored = store_outcome comm (ITEM_get_cas it) (map_option ITEM_get_cas (live_item hash s (key_of it))) \<and>
    contents hash s' =
      (if stored = STORED then (contents hash s)(key_of it \<mapsto> value_of (linked_item it s))
       else if live_item hash s (key_of it) = None then (contents hash s)(key_of it := None) else contents hash s) \<and>
    items s' a = Some it' \<and> refcount it' = (if stored = STORED then refcount it + 1 else refcount it) \<and>
    (stored = STORED \<longrightarrow> c_cas c' = ITEM_get_cas it')"
proof -
  obtain ch where at: "store_at hash ch s" using assms(1) by (auto simp: store_good_at)
  have "\<exists>stored c' s'. do_store_item hash a comm c (hash (key_of it)) s = Some (stored, c', s') \<and> stored_ok hash a it comm s stored c' s'"
    using at assms(4)
  proof (cases rule: get_old [where t = "c_thread c"])
    case (miss s1 ch1)
    show ?thesis using miss assms by (intro store_item_miss [OF at miss(1-6)]) auto
  next
    case (hit o' ito)
    show ?thesis using assms by (intro store_item_hit [OF at refl hit(1-8,9,11)]) auto
  qed
  then show ?thesis unfolding stored_ok_def by blast
qed

theorem do_store_item_spec_witness:
  "\<exists>c' s'. do_store_item sample_hash 1 NREAD_ADD sample_conn (sample_hash [97]) sample_get_store = Some (STORED, c', s') \<and>
     store_good sample_hash s' \<and> contents sample_hash s' = [[97] \<mapsto> ([97], [], [13, 10], 0, 0, 2)]"
proof -
  let ?it = "plain_item [97]"
  have k: "key_of ?it = [97]" by (simp add: plain_item_def key_of_def)
  have it: "items sample_get_store 1 = Some ?it" by (simp add: sample_get_store_fields sample_items_def)
  have fits: "item_fits sample_get_store ?it"
    by (simp add: item_fits_def plain_item_def key_ok_def size_fine_def class_valid_def ITEM_clsid_def sample_get_store_fields)
  have e: "amap sample_hash sample_get_store = Map.empty" by (rule sample_get_store_ok)
  have refs: "refs_fine sample_hash sample_get_store (key_of ?it)" by (simp add: refs_fine_def e)
  have live: "live_item sample_hash sample_get_store [97] = None" by (simp add: live_item_def e)
  have c: "contents sample_hash sample_get_store = Map.empty" by (simp add: contents_def e fun_eq_iff)
  have v: "value_of (linked_item ?it sample_get_store) = ([97], [], [13, 10], 0, 0, 2)"
    by (simp add: value_of_def linked_item_def linked_cas_def plain_item_def key_of_def)
  from do_store_item_spec [OF sample_get_store_ok(2) it fits refs, of NREAD_ADD sample_conn] show ?thesis
    by (auto simp: k live c v)
qed

end
