(* ===== verification/AddDelta.thy ===== *)
theory AddDelta
  imports StoreItem
begin

text \<open>
  The reference that incr and decr keep: \<open>do_add_delta\<close> on a value without digits.
\<close>

lemma leak_step:
  assumes rep: "assoc_rep hash s ch" and m: "amap hash s k = Some a" and it: "items s a = Some it" "nbytes it \<le> 2" "\<not> expired it s"
  shows "do_add_delta hash c k incr delta cas (hash k) s =
      Some (NON_NUMERIC, [], cas, c, s\<lparr>items := (items s)(a \<mapsto> it\<lparr>refcount := refcount it + 1\<rparr>)\<rparr>)"
    and "assoc_rep hash (s\<lparr>items := (items s)(a \<mapsto> it\<lparr>refcount := refcount it + 1\<rparr>)\<rparr>) ch"
    and "amap hash (s\<lparr>items := (items s)(a \<mapsto> it\<lparr>refcount := refcount it + 1\<rparr>)\<rparr>) = amap hash s"
proof -
  let ?it = "it\<lparr>refcount := refcount it + 1\<rparr>" and ?s = "s\<lparr>items := (items s)(a \<mapsto> it\<lparr>refcount := refcount it + 1\<rparr>)\<rparr>"
  have t: "same_table s ?s" by (simp add: same_table_def)
  have v: "\<forall>b \<in> linked ch. map_option hash_view (items ?s b) = map_option hash_view (items s b)"
    using it(1) by (simp add: hash_view_def)
  show "assoc_rep hash ?s ch" by (rule assoc_rep_frame [OF rep t v])
  show "amap hash ?s = amap hash s" by (rule amap_frame [OF rep t v])
  have "assoc_find k (hash k) s = Some (Some a)" using assoc_find_rep [OF rep, of k] m by (simp add: amap_def split: option.splits)
  moreover have "item_is_flushed ?it ?s = item_is_flushed it s" by (simp add: item_is_flushed_def ITEM_get_cas_def Let_def)
  ultimately have "do_item_get (c_thread c) k (hash k) False s = Some (Some a, ?s)"
    using it by (auto simp: do_item_get_def refcount_incr_def upd_item_def expired_def)
  then show "do_add_delta hash c k incr delta cas (hash k) s = Some (NON_NUMERIC, [], cas, c, ?s)"
    using it(2) by (simp add: do_add_delta_def)
qed

primrec repeat_command :: "nat \<Rightarrow> (conn \<Rightarrow> 's \<Rightarrow> (conn \<times> 's) option) \<Rightarrow> conn \<Rightarrow> 's \<Rightarrow> (conn \<times> 's) option" where
  "repeat_command 0 f c s = Some (c, s)"
| "repeat_command (Suc n) f c s = do { (c1, s1) \<leftarrow> f c s; repeat_command n f c1 s1 }"

lemma leak_command:
  assumes "assoc_rep hash s ch" and "amap hash s k = Some a" and "items s a = Some it" "nbytes it \<le> 2" "\<not> expired it s"
    and "tok_key ts = Some k" "snd (ts ! 1) \<le> KEY_MAX_LENGTH" "tok ts 2 = Some d" "fst (safe_strtoull d)"
  shows "\<exists>c'. process_arithmetic_command hash ts incr c s = Some (c', s\<lparr>items := (items s)(a \<mapsto> it\<lparr>refcount := refcount it + 1\<rparr>)\<rparr>)"
proof -
  obtain delta where "safe_strtoull d = (True, delta)" using assms(9) by (cases "safe_strtoull d") simp
  then show ?thesis
    using assms(6-8) leak_step(1) [OF assms(1-5)] by (simp add: process_arithmetic_command_def add_delta_def Let_def)
qed

lemma leak_commands:
  assumes "assoc_rep hash s ch" and "amap hash s k = Some a" and "items s a = Some it" "nbytes it \<le> 2" "\<not> expired it s"
    and ts: "tok_key ts = Some k" "snd (ts ! 1) \<le> KEY_MAX_LENGTH" "tok ts 2 = Some d" "fst (safe_strtoull d)"
  shows "\<exists>c' s'. repeat_command n (process_arithmetic_command hash ts incr) c s = Some (c', s') \<and>
    items s' a = Some (it\<lparr>refcount := refcount it + of_nat n\<rparr>) \<and> amap hash s' = amap hash s"
  using assms(1-5)
proof (induction n arbitrary: c s it)
  case 0
  then show ?case by simp
next
  case (Suc n)
  let ?it = "it\<lparr>refcount := refcount it + 1\<rparr>" and ?s = "s\<lparr>items := (items s)(a \<mapsto> it\<lparr>refcount := refcount it + 1\<rparr>)\<rparr>"
  obtain c1 where c1: "process_arithmetic_command hash ts incr c s = Some (c1, ?s)" using leak_command [OF Suc.prems ts] by blast
  note l = leak_step(2,3) [OF Suc.prems]
  have "item_is_flushed ?it ?s = item_is_flushed it s" by (simp add: item_is_flushed_def ITEM_get_cas_def Let_def)
  then have "\<not> expired ?it ?s" using Suc.prems(5) by (simp add: expired_def)
  then obtain c' s' where "repeat_command n (process_arithmetic_command hash ts incr) c1 ?s = Some (c', s')"
    "items s' a = Some (?it\<lparr>refcount := refcount ?it + of_nat n\<rparr>)" "amap hash s' = amap hash ?s"
    using Suc.IH [OF l(1), of ?it c1] Suc.prems(2,4) l(2) by auto
  then show ?case using c1 l(2) by (simp add: ac_simps)
qed

lemma count_wraps:
  assumes "unat (r :: u16) + n = 65536"
  shows "r + of_nat n = 0"
proof -
  have "r + of_nat n = of_nat (unat r + n)" by simp
  also have "\<dots> = 0" unfolding assms by simp
  finally show ?thesis .
qed

text \<open>
  Claim C37. incr and decr leak a reference: on an item whose value is empty (only the line
  break), any number of these commands in a row each answer that the value is not a number, but
  none releases the reference that \<open>do_item_get\<close> took. The item stays in the store and its 16-bit
  reference count grows by one each time, until it wraps around: after as many commands as are
  missing to 2^16 the linked item has the count 0.
\<close>

theorem incr_leaks_references:
  assumes "store_good hash s" and "amap hash s k = Some a" and "items s a = Some it" and "nbytes it \<le> 2" and "\<not> expired it s"
    and "tok_key ts = Some k" and "snd (ts ! 1) \<le> KEY_MAX_LENGTH" and "tok ts 2 = Some d" and "fst (safe_strtoull d)"
  shows "\<exists>c' s'. repeat_command n (process_arithmetic_command hash ts incr) c s = Some (c', s') \<and> amap hash s' k = Some a \<and>
    items s' a = Some (it\<lparr>refcount := refcount it + of_nat n\<rparr>) \<and> (unat (refcount it) + n = 65536 \<longrightarrow> refcount it + of_nat n = 0)"
proof -
  obtain ch Q F where "store_ok hash s ch Q F" using assms(1) by (auto simp: store_good_def)
  then have "assoc_rep hash s ch" by (simp add: store_ok_def)
  from leak_commands [OF this assms(2-9), of n incr c] show ?thesis
    using assms(2) count_wraps by metis
qed

theorem incr_leaks_references_witness:
  "\<exists>s c' s' it'. link_item sample_hash 1 sample_get_store = Some s \<and>
     repeat_command 65534 (process_arithmetic_command sample_hash [(Some ''incr'', 4), (Some ''a'', 1), (Some ''5'', 1), (None, 0)] True)
       sample_conn s = Some (c', s') \<and>
     amap sample_hash s' [97] = Some 1 \<and> items s' 1 = Some it' \<and> refcount it' = 0"
proof -
  let ?ts = "[(Some ''incr'', 4), (Some ''a'', 1), (Some ''5'', 1), (None, 0)] :: cmd_token list"
  obtain s it1 where s: "link_item sample_hash 1 sample_get_store = Some s" "store_good sample_hash s" "amap sample_hash s = [[97] \<mapsto> 1]"
    "items s 1 = Some it1" "item_core it1 = item_core (linked_item (plain_item [97]) sample_get_store)"
    "settings s = settings sample_slabs" "workers s = workers sample_get_store" using sample_linked by blast
  note f = item_core_fields [OF s(5)]
  have r: "refcount it1 = 2" "exptime it1 = 0" "nbytes it1 \<le> 2" by (simp_all add: f linked_item_def plain_item_def)
  have x: "\<not> expired it1 s" using r(2) by (simp add: expired_def item_is_flushed_def s(6) sample_slabs_def)
  have m: "amap sample_hash s [97] = Some 1" by (simp add: s(3))
  have ts: "tok_key ?ts = Some [97]" "snd (?ts ! 1) \<le> KEY_MAX_LENGTH" "tok ?ts 2 = Some ''5''" "fst (safe_strtoull ''5'')"
  proof -
    show "tok_key ?ts = Some [97]" by (simp add: tok_key_def tok_def bytes_of_def)
    have "decimal 5 = ''5''" by code_simp
    then show "fst (safe_strtoull ''5'')" using safe_strtoull_decimal [of 5 "[]"] by (simp add: ends_token_def)
  qed (simp_all add: tok_def)
  obtain c' s' where "repeat_command 65534 (process_arithmetic_command sample_hash ?ts True) sample_conn s = Some (c', s')"
    "amap sample_hash s' [97] = Some 1" "items s' 1 = Some (it1\<lparr>refcount := refcount it1 + of_nat 65534\<rparr>)"
    using incr_leaks_references [OF s(2) m s(4) r(3) x ts, of 65534 True sample_conn] by blast
  moreover have "refcount it1 + of_nat 65534 = 0" unfolding r(1) by simp
  ultimately show ?thesis
    using s(1) by (intro exI [of _ s] exI [of _ c'] exI [of _ s'] exI [of _ "it1\<lparr>refcount := refcount it1 + of_nat 65534\<rparr>"] conjI) simp_all
qed

end
