(* ===== verification/MsgVec.thy ===== *)
theory MsgVec
  imports Commands
begin

text \<open>
  The vectors of outgoing data of a connection (memcached.c): \<open>add_msghdr\<close>, \<open>ensure_iov_space\<close>,
  \<open>add_iov\<close>, \<open>build_udp_headers\<close>, \<open>transmit\<close> and the shrinking of the two arrays. What a vector
  points to is named by the caller (\<open>'r\<close>) with an offset; the bytes are read when they are sent.
  The elements of a fresh or enlarged array are indeterminate (\<open>None\<close> inside). The answers of
  \<open>realloc\<close> and \<open>malloc\<close> are part of the state, and they succeed once the list is used up.
  \<open>None\<close> is undefined behaviour or a loop that does not end.
\<close>

section \<open>The state\<close>

datatype 'r src = Null | Header nat | Data 'r nat

record 'r iovec =
  iov_base :: "'r src"
  iov_len :: nat

text \<open>\<open>msg_iov\<close> points into the array \<open>iov\<close>: an index.\<close>

record msghdr =
  msg_iov :: nat
  msg_iovlen :: nat

datatype network_transport = local_transport | tcp_transport | udp_transport

text \<open>
  \<open>iovsize\<close> and \<open>msgsize\<close> are the lengths of the arrays. \<open>bytes_written\<close> is a statistic of the
  thread; \<open>sent\<close> records the addresses of the bytes that each \<open>sendmsg\<close> took.
\<close>

record 'r outgoing =
  transport :: network_transport
  iov :: "'r iovec option list"
  iovused :: nat
  msglist :: "msghdr option list"
  msgused :: nat
  msgcurr :: nat
  msgbytes :: int
  hdrbuf :: "byte option list"
  hdrsize :: nat
  request_id :: nat
  out_answers :: "bool list"
  malloc_fails :: u64
  bytes_written :: u64
  sent :: "'r src list list"

definition IOV_MAX :: nat where "IOV_MAX = 1024"
definition UDP_MAX_PAYLOAD_SIZE :: nat where "UDP_MAX_PAYLOAD_SIZE = 1400"
definition UDP_HEADER_SIZE :: nat where [simp]: "UDP_HEADER_SIZE = 8"
definition IOV_LIST_INITIAL :: nat where "IOV_LIST_INITIAL = 400"
definition IOV_LIST_HIGHWAT :: nat where "IOV_LIST_HIGHWAT = 600"
definition MSG_LIST_INITIAL :: nat where "MSG_LIST_INITIAL = 10"
definition MSG_LIST_HIGHWAT :: nat where "MSG_LIST_HIGHWAT = 100"
definition INT_MAX :: int where "INT_MAX = 2 ^ 31 - 1"

definition is_udp :: "'r outgoing \<Rightarrow> bool" where
  "is_udp c \<longleftrightarrow> transport c = udp_transport"

text \<open>These fields of a connection that \<open>conn_new\<close> sets up.\<close>

definition new_output :: "network_transport \<Rightarrow> bool list \<Rightarrow> 'r outgoing" where
  "new_output tr answers = \<lparr>transport = tr, iov = replicate IOV_LIST_INITIAL None, iovused = 0, msglist = replicate MSG_LIST_INITIAL None,
     msgused = 0, msgcurr = 0, msgbytes = 0, hdrbuf = [], hdrsize = 0, request_id = 0, out_answers = answers,
     malloc_fails = 0, bytes_written = 0, sent = []\<rparr>"

section \<open>The operations\<close>

text \<open>The answer of \<open>realloc\<close>; a failure is counted.\<close>

definition out_alloc :: "'r outgoing \<Rightarrow> bool \<times> 'r outgoing" where
  "out_alloc c = (case out_answers c of
       [] \<Rightarrow> (True, c)
     | True # bs \<Rightarrow> (True, c\<lparr>out_answers := bs\<rparr>)
     | False # bs \<Rightarrow> (False, c\<lparr>out_answers := bs, malloc_fails := malloc_fails c + 1\<rparr>))"

text \<open>The same where the code does not count a failure.\<close>

definition out_realloc :: "'r outgoing \<Rightarrow> bool \<times> 'r outgoing" where
  "out_realloc c = (case out_answers c of [] \<Rightarrow> (True, c) | b # bs \<Rightarrow> (b, c\<lparr>out_answers := bs\<rparr>))"

text \<open>The message headers point at the new array: each one behind the vectors of those before.\<close>

fun point_headers :: "nat \<Rightarrow> nat \<Rightarrow> msghdr option list \<Rightarrow> msghdr option list option" where
  "point_headers 0 iovnum ms = Some ms"
| "point_headers (Suc n) iovnum (Some m # ms) =
     do { ms' \<leftarrow> point_headers n (iovnum + msg_iovlen m) ms; Some (Some (m\<lparr>msg_iov := iovnum\<rparr>) # ms') }"
| "point_headers (Suc n) iovnum ms = None"

text \<open>\<open>True\<close> for 0, \<open>False\<close> for -1.\<close>

definition ensure_iov_space :: "'r outgoing \<Rightarrow> (bool \<times> 'r outgoing) option" where
  "ensure_iov_space c =
     (if length (iov c) \<le> iovused c
      then let (ok, c1) = out_alloc c
           in if \<not> ok then Some (False, c1)
              else do {
                ms \<leftarrow> point_headers (msgused c1) 0 (msglist c1);
                Some (True, c1\<lparr>iov := iov c1 @ replicate (length (iov c1)) None, msglist := ms\<rparr>) }
      else Some (True, c))"

text \<open>\<open>c->msglist[c->msgused - 1]\<close>\<close>

definition last_hdr :: "'r outgoing \<Rightarrow> msghdr option" where
  "last_hdr c = (if 0 < msgused c \<and> msgused c \<le> length (msglist c) then msglist c ! (msgused c - 1) else None)"

text \<open>Writing the vector behind the ones of the last message, and counting it.\<close>

definition put_vector :: "'r src \<Rightarrow> nat \<Rightarrow> 'r outgoing \<Rightarrow> 'r outgoing option" where
  "put_vector base len c = do {
     m \<leftarrow> last_hdr c;
     let i = msg_iov m + msg_iovlen m;
     _ \<leftarrow> assert_that (i < length (iov c) \<and> msgbytes c + int len \<le> INT_MAX);
     Some (c\<lparr>iov := (iov c)[i := Some \<lparr>iov_base = base, iov_len = len\<rparr>],
             msgbytes := msgbytes c + int len, iovused := iovused c + 1,
             msglist := (msglist c)[msgused c - 1 := Some (m\<lparr>msg_iovlen := msg_iovlen m + 1\<rparr>)]\<rparr>) }"

definition forward :: "'r src \<Rightarrow> nat \<Rightarrow> 'r src" where
  "forward b n = (case b of Null \<Rightarrow> Null | Header i \<Rightarrow> Header (i + n) | Data r i \<Rightarrow> Data r (i + n))"

text \<open>
  \<open>add_iov\<close> and \<open>add_msghdr\<close> call each other: the first is written with the second as a
  parameter. The result of \<open>add_msghdr\<close> is not looked at.
\<close>

partial_function (option) udp_iov ::
  "('r outgoing \<Rightarrow> (bool \<times> 'r outgoing) option) \<Rightarrow> 'r src \<Rightarrow> nat \<Rightarrow> 'r outgoing \<Rightarrow> (bool \<times> 'r outgoing) option" where
  "udp_iov add_hdr buf len c = do {
     m \<leftarrow> last_hdr c;
     (_, c1) \<leftarrow> (if msg_iovlen m = IOV_MAX \<or> int UDP_MAX_PAYLOAD_SIZE \<le> msgbytes c then add_hdr c else Some (True, c));
     (ok, c2) \<leftarrow> ensure_iov_space c1;
     if \<not> ok then Some (False, c2)
     else do {
       _ \<leftarrow> assert_that (int len + msgbytes c2 \<le> INT_MAX);
       let leftover = nat (int len + msgbytes c2 - int UDP_MAX_PAYLOAD_SIZE);
       _ \<leftarrow> assert_that (leftover \<le> len);
       let len' = len - leftover;
       c3 \<leftarrow> put_vector buf len' c2;
       if 0 < leftover then udp_iov add_hdr (forward buf len') leftover c3 else Some (True, c3) } }"

definition tcp_iov ::
  "('r outgoing \<Rightarrow> (bool \<times> 'r outgoing) option) \<Rightarrow> 'r src \<Rightarrow> nat \<Rightarrow> 'r outgoing \<Rightarrow> (bool \<times> 'r outgoing) option" where
  "tcp_iov add_hdr buf len c = do {
     m \<leftarrow> last_hdr c;
     (_, c1) \<leftarrow> (if msg_iovlen m = IOV_MAX then add_hdr c else Some (True, c));
     (ok, c2) \<leftarrow> ensure_iov_space c1;
     if \<not> ok then Some (False, c2)
     else do { c3 \<leftarrow> put_vector buf len c2; Some (True, c3) } }"

definition add_iov_with ::
  "('r outgoing \<Rightarrow> (bool \<times> 'r outgoing) option) \<Rightarrow> 'r src \<Rightarrow> nat \<Rightarrow> 'r outgoing \<Rightarrow> (bool \<times> 'r outgoing) option" where
  "add_iov_with add_hdr buf len c = (if is_udp c then udp_iov add_hdr buf len c else tcp_iov add_hdr buf len c)"

text \<open>
  The room for the header of a UDP packet is the first vector of a new message, so that this call
  of \<open>add_iov\<close> does not ask for another message.
\<close>

definition message_room :: "'r outgoing \<Rightarrow> bool \<times> 'r outgoing" where
  "message_room c =
     (if length (msglist c) = msgused c
      then let (ok, c1) = out_alloc c
           in (ok, if ok then c1\<lparr>msglist := msglist c1 @ replicate (length (msglist c1)) None\<rparr> else c1)
      else (True, c))"

definition open_message :: "'r outgoing \<Rightarrow> (bool \<times> 'r outgoing) option" where
  "open_message c =
     (let (ok, c1) = message_room c
      in if \<not> ok then Some (False, c1)
         else if length (msglist c1) \<le> msgused c1 \<or> length (iov c1) < iovused c1 then None
         else Some (True, c1\<lparr>msglist := (msglist c1)[msgused c1 := Some \<lparr>msg_iov = iovused c1, msg_iovlen = 0\<rparr>],
                              msgbytes := 0, msgused := msgused c1 + 1\<rparr>))"

definition add_msghdr :: "'r outgoing \<Rightarrow> (bool \<times> 'r outgoing) option" where
  "add_msghdr c = do {
     (ok, c1) \<leftarrow> open_message c;
     if ok \<and> is_udp c1 then add_iov_with (\<lambda>_. None) Null UDP_HEADER_SIZE c1 else Some (ok, c1) }"

definition add_iov :: "'r src \<Rightarrow> nat \<Rightarrow> 'r outgoing \<Rightarrow> (bool \<times> 'r outgoing) option" where
  "add_iov buf len c = add_iov_with add_msghdr buf len c"

text \<open>The reset before a response (in \<open>process_command\<close> and \<open>out_string\<close>).\<close>

definition reset_output :: "'r outgoing \<Rightarrow> (bool \<times> 'r outgoing) option" where
  "reset_output c = add_msghdr (c\<lparr>msgcurr := 0, msgused := 0, iovused := 0\<rparr>)"

text \<open>The eight bytes in front of the packet \<open>i\<close>.\<close>

definition udp_header :: "nat \<Rightarrow> nat \<Rightarrow> nat \<Rightarrow> byte list" where
  "udp_header req i n =
     [of_nat (req div 256), of_nat (req mod 256), of_nat (i div 256), of_nat (i mod 256),
      of_nat (n div 256), of_nat (n mod 256), 0, 0]"

primrec fill_headers :: "nat \<Rightarrow> 'r outgoing \<Rightarrow> 'r outgoing option" where
  "fill_headers 0 c = Some c"
| "fill_headers (Suc i) c = do {
     c1 \<leftarrow> fill_headers i c;
     m \<leftarrow> (if i < length (msglist c1) then msglist c1 ! i else None);
     _ \<leftarrow> assert_that (msg_iov m < length (iov c1) \<and> i * UDP_HEADER_SIZE + UDP_HEADER_SIZE \<le> length (hdrbuf c1));
     Some (c1\<lparr>iov := (iov c1)[msg_iov m := Some \<lparr>iov_base = Header (i * UDP_HEADER_SIZE), iov_len = UDP_HEADER_SIZE\<rparr>],
              hdrbuf := splice_at (i * UDP_HEADER_SIZE) (map Some (udp_header (request_id c1) i (msgused c1))) (hdrbuf c1)\<rparr>) }"

definition header_room :: "'r outgoing \<Rightarrow> bool \<times> 'r outgoing" where
  "header_room c =
     (if hdrsize c < msgused c
      then let (ok, c1) = out_alloc c; n = msgused c * 2
           in (ok, if ok then c1\<lparr>hdrbuf := hdrbuf c1 @ replicate (n * UDP_HEADER_SIZE - length (hdrbuf c1)) None, hdrsize := n\<rparr> else c1)
      else (True, c))"

definition build_udp_headers :: "'r outgoing \<Rightarrow> (bool \<times> 'r outgoing) option" where
  "build_udp_headers c =
     (let (ok, c1) = header_room c
      in if \<not> ok then Some (False, c1) else map_option (Pair True) (fill_headers (msgused c1) c1))"

section \<open>Sending\<close>

datatype transmit_result = TRANSMIT_COMPLETE | TRANSMIT_INCOMPLETE | TRANSMIT_SOFT_ERROR | TRANSMIT_HARD_ERROR

text \<open>
  \<open>sendmsg\<close> takes some of the bytes of the message (at most all of them), or it would block, where
  the flag is the result of \<open>update_event\<close>, or it fails. Taking no byte is a failure for the code.
\<close>

datatype send_answer = Sent nat | WouldBlock bool | SendFailed

definition addresses :: "'r iovec \<Rightarrow> 'r src list" where
  "addresses v = map (forward (iov_base v)) [0..<iov_len v]"

definition vector_run :: "nat \<Rightarrow> nat \<Rightarrow> 'r iovec option list \<Rightarrow> 'r iovec list option" where
  "vector_run i n vs = (if i + n \<le> length vs \<and> None \<notin> set (segment i n vs) then Some (map the (segment i n vs)) else None)"

text \<open>The vectors that are sent completely leave the message; the results are \<open>msg_iov\<close>, \<open>msg_iovlen\<close>, \<open>res\<close>.\<close>

fun drop_vectors :: "'r iovec option list \<Rightarrow> nat \<Rightarrow> nat \<Rightarrow> nat \<Rightarrow> (nat \<times> nat \<times> nat) option" where
  "drop_vectors vs i 0 res = Some (i, 0, res)"
| "drop_vectors vs i (Suc n) res = do {
     v \<leftarrow> (if i < length vs then vs ! i else None);
     if iov_len v \<le> res then drop_vectors vs (i + 1) n (res - iov_len v) else Some (i, Suc n, res) }"

definition advance :: "msghdr \<Rightarrow> nat \<Rightarrow> 'r outgoing \<Rightarrow> 'r outgoing option" where
  "advance m res c = do {
     (i, n, rest) \<leftarrow> drop_vectors (iov c) (msg_iov m) (msg_iovlen m) res;
     let c1 = c\<lparr>msglist := (msglist c)[msgcurr c := Some \<lparr>msg_iov = i, msg_iovlen = n\<rparr>]\<rparr>;
     if 0 < rest
     then do {
       v \<leftarrow> (if i < length (iov c) then iov c ! i else None);
       _ \<leftarrow> assert_that (rest \<le> iov_len v);
       Some (c1\<lparr>iov := (iov c)[i := Some \<lparr>iov_base = forward (iov_base v) rest, iov_len = iov_len v - rest\<rparr>]\<rparr>) }
     else Some c1 }"

definition current_hdr :: "'r outgoing \<Rightarrow> msghdr option" where
  "current_hdr c = (if msgcurr c < length (msglist c) then msglist c ! msgcurr c else None)"

definition transmit :: "send_answer \<Rightarrow> conn \<Rightarrow> 'r outgoing \<Rightarrow> (transmit_result \<times> conn \<times> 'r outgoing) option" where
  "transmit ans cn c0 = do {
     c \<leftarrow> (if msgcurr c0 < msgused c0
           then do { m \<leftarrow> current_hdr c0; Some (if msg_iovlen m = 0 then c0\<lparr>msgcurr := msgcurr c0 + 1\<rparr> else c0) }
           else Some c0);
     if msgcurr c < msgused c
     then do {
       m \<leftarrow> current_hdr c;
       vs \<leftarrow> vector_run (msg_iov m) (msg_iovlen m) (iov c);
       let bytes = concat (map addresses vs);
       let hard = Some (TRANSMIT_HARD_ERROR, cn\<lparr>c_state := (if is_udp c then conn_read else conn_closing)\<rparr>, c);
       case ans of
         Sent k \<Rightarrow>
           let res = min k (length bytes)
           in if 0 < res
              then do {
                c1 \<leftarrow> advance m res (c\<lparr>bytes_written := bytes_written c + of_nat res, sent := sent c @ [take res bytes]\<rparr>);
                Some (TRANSMIT_INCOMPLETE, cn, c1) }
              else hard
       | WouldBlock ok \<Rightarrow>
           if ok then Some (TRANSMIT_SOFT_ERROR, cn, c) else Some (TRANSMIT_HARD_ERROR, cn\<lparr>c_state := conn_closing\<rparr>, c)
       | SendFailed \<Rightarrow> hard }
     else Some (TRANSMIT_COMPLETE, cn, c) }"

text \<open>The part of \<open>conn_shrink\<close> on the two arrays.\<close>

definition shrink_output :: "'r outgoing \<Rightarrow> 'r outgoing" where
  "shrink_output c =
     (if is_udp c then c
      else let c1 = (if MSG_LIST_HIGHWAT < length (msglist c)
                     then let (ok, c1) = out_realloc c in if ok then c1\<lparr>msglist := take MSG_LIST_INITIAL (msglist c1)\<rparr> else c1
                     else c)
           in if IOV_LIST_HIGHWAT < length (iov c1)
              then let (ok, c2) = out_realloc c1 in if ok then c2\<lparr>iov := take IOV_LIST_INITIAL (iov c2)\<rparr> else c2
              else c1)"

section \<open>The messages that the arrays represent\<close>

definition hdrs :: "'r outgoing \<Rightarrow> msghdr list" where
  "hdrs c = map the (take (msgused c) (msglist c))"

definition run_of :: "'r iovec option list \<Rightarrow> msghdr \<Rightarrow> 'r iovec list" where
  "run_of vs m = map the (segment (msg_iov m) (msg_iovlen m) vs)"

definition messages :: "'r outgoing \<Rightarrow> 'r iovec list list" where
  "messages c = map (run_of (iov c)) (hdrs c)"

definition msg_size :: "'r iovec list \<Rightarrow> nat" where
  "msg_size vs = sum_list (map iov_len vs)"

lemma msg_size_simps [simp]: "msg_size [] = 0" "msg_size (v # vs) = iov_len v + msg_size vs" "msg_size (vs @ ws) = msg_size vs + msg_size ws"
  by (simp_all add: msg_size_def)

fun laid_out :: "nat \<Rightarrow> msghdr list \<Rightarrow> bool" where
  "laid_out i [] \<longleftrightarrow> True"
| "laid_out i (m # ms) \<longleftrightarrow> msg_iov m = i \<and> laid_out (i + msg_iovlen m) ms"

definition vectors_used :: "msghdr list \<Rightarrow> nat" where
  "vectors_used ms = sum_list (map msg_iovlen ms)"

lemma vectors_used_simps [simp]: "vectors_used [] = 0" "vectors_used (m # ms) = msg_iovlen m + vectors_used ms"
  "vectors_used (ms @ ns) = vectors_used ms + vectors_used ns"
  by (simp_all add: vectors_used_def)

lemma laid_out_append [simp]: "laid_out i (ms @ ns) \<longleftrightarrow> laid_out i ms \<and> laid_out (i + vectors_used ms) ns"
  by (induction ms arbitrary: i) (auto simp: ac_simps)

text \<open>
  The vectors of the messages are consecutive runs that together are the used part of the array;
  \<open>msgbytes\<close> is the size of the last message.
\<close>

definition vectors_ok :: "'r outgoing \<Rightarrow> bool" where
  "vectors_ok c \<longleftrightarrow> msgused c \<le> length (msglist c) \<and> msglist c \<noteq> [] \<and> iov c \<noteq> [] \<and>
     None \<notin> set (take (msgused c) (msglist c)) \<and> laid_out 0 (hdrs c) \<and> vectors_used (hdrs c) = iovused c \<and>
     iovused c \<le> length (iov c) \<and> None \<notin> set (take (iovused c) (iov c)) \<and>
     (0 < msgused c \<longrightarrow> msgbytes c = int (msg_size (last (messages c))))"

lemma length_hdrs [simp]: "msgused c \<le> length (msglist c) \<Longrightarrow> length (hdrs c) = msgused c"
  by (simp add: hdrs_def)

lemma length_messages [simp]: "length (messages c) = length (hdrs c)"
  by (simp add: messages_def)

lemma messages_Nil [simp]: "messages c = [] \<longleftrightarrow> hdrs c = []"
  by (simp add: messages_def)

lemma run_of_prefix:
  fixes vs ws :: "'r iovec option list"
  shows "msg_iov m + msg_iovlen m \<le> n \<Longrightarrow> take n ws = take n vs \<Longrightarrow> run_of ws m = run_of vs m"
proof -
  assume le: "msg_iov m + msg_iovlen m \<le> n" and eq: "take n ws = take n vs"
  have cut: "take (msg_iovlen m) (drop (msg_iov m) xs) = drop (msg_iov m) (take (msg_iov m + msg_iovlen m) (take n xs))" for xs :: "'r iovec option list"
    using le by (simp add: take_drop min_absorb1 add.commute)
  show "run_of ws m = run_of vs m" unfolding run_of_def segment_def cut [of ws] cut [of vs] eq ..
qed

lemma laid_out_bound: "laid_out i ms \<Longrightarrow> m \<in> set ms \<Longrightarrow> msg_iov m + msg_iovlen m \<le> i + vectors_used ms"
  by (induction ms arbitrary: i) (auto, fastforce)

lemma messages_prefix:
  assumes "laid_out 0 (hdrs c)" "vectors_used (hdrs c) \<le> n" "hdrs c' = hdrs c" "take n (iov c') = take n (iov c)"
  shows "messages c' = messages c"
proof -
  have "run_of (iov c') m = run_of (iov c) m" if "m \<in> set (hdrs c)" for m
    using laid_out_bound [OF assms(1) that] assms(2) by (intro run_of_prefix [OF _ assms(4)]) simp
  then show ?thesis by (simp add: messages_def assms(3))
qed

lemma last_hdr_ok:
  assumes "vectors_ok c" "0 < msgused c"
  shows "last_hdr c = Some (last (hdrs c))" "msg_iov (last (hdrs c)) + msg_iovlen (last (hdrs c)) = iovused c"
    "hdrs c = butlast (hdrs c) @ [last (hdrs c)]"
proof -
  have h: "msgused c \<le> length (msglist c)" "None \<notin> set (take (msgused c) (msglist c))" "laid_out 0 (hdrs c)" "vectors_used (hdrs c) = iovused c"
    using assms(1) by (simp_all add: vectors_ok_def)
  have ne: "hdrs c \<noteq> []" using assms(2) h(1) by (auto simp: hdrs_def)
  then show split: "hdrs c = butlast (hdrs c) @ [last (hdrs c)]" by simp
  have "msglist c ! (msgused c - 1) \<in> set (take (msgused c) (msglist c))"
    using assms(2) h(1) by (auto simp: in_set_conv_nth intro!: exI [of _ "msgused c - 1"])
  then have "msglist c ! (msgused c - 1) \<noteq> None" using h(2) by metis
  moreover have "last (hdrs c) = the (msglist c ! (msgused c - 1))"
    using assms(2) h(1) ne by (simp add: last_conv_nth hdrs_def)
  ultimately show "last_hdr c = Some (last (hdrs c))" using assms(2) h(1) by (simp add: last_hdr_def)
  have "laid_out 0 (butlast (hdrs c) @ [last (hdrs c)])" "vectors_used (butlast (hdrs c) @ [last (hdrs c)]) = iovused c"
    using h(3,4) split by simp_all
  then show "msg_iov (last (hdrs c)) + msg_iovlen (last (hdrs c)) = iovused c" by simp
qed

section \<open>Room for another vector\<close>

lemma point_headers_same:
  "n \<le> length ms \<Longrightarrow> None \<notin> set (take n ms) \<Longrightarrow> laid_out i (map the (take n ms)) \<Longrightarrow> point_headers n i ms = Some ms"
proof (induction n i ms rule: point_headers.induct)
  case (2 n iovnum m ms)
  then show ?case by (cases m) auto
qed auto

definition all_succeed :: "'r outgoing \<Rightarrow> bool" where
  "all_succeed c \<longleftrightarrow> False \<notin> set (out_answers c)"

text \<open>What a call that may allocate does to the answers and the statistics, and nothing else.\<close>

definition answered :: "bool \<Rightarrow> 'r outgoing \<Rightarrow> 'r outgoing \<Rightarrow> bool" where
  "answered ok c c' \<longleftrightarrow> (\<exists>as mf. c' = c\<lparr>out_answers := as, malloc_fails := mf\<rparr> \<and> set as \<subseteq> set (out_answers c) \<and>
     length as \<le> length (out_answers c) \<and> (\<not> ok \<longrightarrow> length as < length (out_answers c) \<and> \<not> all_succeed c))"

lemma out_alloc_answered: "out_alloc c = (ok, c') \<Longrightarrow> answered ok c c'"
  by (cases c) (auto simp: out_alloc_def answered_def all_succeed_def split: list.splits bool.splits)

lemma answered_refl [simp]: "answered True c c"
proof -
  have "c = c\<lparr>out_answers := out_answers c, malloc_fails := malloc_fails c\<rparr>" by simp
  then show ?thesis unfolding answered_def by blast
qed

lemma vectors_ok_array:
  assumes ok: "vectors_ok c" and a: "answered b c c'"
  shows "vectors_ok (c'\<lparr>iov := iov c' @ ws\<rparr>)" "messages (c'\<lparr>iov := iov c' @ ws\<rparr>) = messages c"
    "hdrs (c'\<lparr>iov := iov c' @ ws\<rparr>) = hdrs c"
proof -
  obtain as mf where c': "c' = c\<lparr>out_answers := as, malloc_fails := mf\<rparr>" using a by (auto simp: answered_def)
  let ?d = "c'\<lparr>iov := iov c' @ ws\<rparr>"
  show h: "hdrs ?d = hdrs c" by (simp add: c' hdrs_def)
  show m: "messages ?d = messages c"
    using ok by (intro messages_prefix [where n = "iovused c"] h) (simp_all add: vectors_ok_def c')
  show "vectors_ok ?d" using ok h m by (simp add: vectors_ok_def c')
qed

lemma ensure_iov_space_ok:
  assumes ok: "vectors_ok c"
  shows "\<exists>b d ws. ensure_iov_space c = Some (b, d\<lparr>iov := iov d @ ws\<rparr>) \<and> answered b c d \<and> (b \<longrightarrow> iovused c < length (iov d @ ws))"
proof (cases "length (iov c) \<le> iovused c")
  case False
  have "ensure_iov_space c = Some (True, c\<lparr>iov := iov c @ []\<rparr>)" using False by (simp add: ensure_iov_space_def)
  then show ?thesis using False by (metis answered_refl append_Nil2 not_le)
next
  case True
  obtain b d where a: "out_alloc c = (b, d)" by (cases "out_alloc c")
  have ans: "answered b c d" by (rule out_alloc_answered [OF a])
  obtain as mf where d: "d = c\<lparr>out_answers := as, malloc_fails := mf\<rparr>" using ans by (auto simp: answered_def)
  have p: "point_headers (msgused d) 0 (msglist d) = Some (msglist d)"
    using ok by (intro point_headers_same) (simp_all add: d vectors_ok_def hdrs_def)
  show ?thesis
  proof (cases b)
    case False
    have "ensure_iov_space c = Some (b, d\<lparr>iov := iov d @ []\<rparr>)" using True False a by (simp add: ensure_iov_space_def)
    then show ?thesis using ans False by blast
  next
    case b: True
    have "ensure_iov_space c = Some (b, d\<lparr>iov := iov d @ replicate (length (iov d)) None\<rparr>)"
      using True a b p by (simp add: ensure_iov_space_def)
    moreover have "iovused c < length (iov d @ replicate (length (iov d)) None)"
      using ok True by (simp add: d vectors_ok_def)
    ultimately show ?thesis using ans by blast
  qed
qed

section \<open>Another vector, another message\<close>

definition add_last :: "'a \<Rightarrow> 'a list list \<Rightarrow> 'a list list" where
  "add_last x xss = butlast xss @ [last xss @ [x]]"

lemma put_vector_ok:
  assumes ok: "vectors_ok c" and u: "0 < msgused c" and room: "iovused c < length (iov c)" and sz: "msgbytes c + int len \<le> INT_MAX"
  shows "\<exists>c'. put_vector base len c = Some c' \<and> vectors_ok c' \<and>
    messages c' = add_last \<lparr>iov_base = base, iov_len = len\<rparr> (messages c) \<and> msgused c' = msgused c \<and> msgbytes c' = msgbytes c + int len \<and>
    transport c' = transport c \<and> out_answers c' = out_answers c \<and> msgcurr c' = msgcurr c \<and> sent c' = sent c"
proof -
  let ?v = "\<lparr>iov_base = base, iov_len = len\<rparr> :: 'a iovec" and ?m = "last (hdrs c)" and ?hs = "butlast (hdrs c)"
  let ?m' = "?m\<lparr>msg_iovlen := msg_iovlen ?m + 1\<rparr>"
  define c' where "c' = c\<lparr>iov := (iov c)[iovused c := Some ?v], msgbytes := msgbytes c + int len, iovused := iovused c + 1,
             msglist := (msglist c)[msgused c - 1 := Some ?m']\<rparr>"
  have h: "msgused c \<le> length (msglist c)" "None \<notin> set (take (msgused c) (msglist c))" "laid_out 0 (hdrs c)" "vectors_used (hdrs c) = iovused c"
     "None \<notin> set (take (iovused c) (iov c))"
    using ok by (simp_all add: vectors_ok_def)
  note l = last_hdr_ok [OF ok u]
  have put: "put_vector base len c = Some c'"
    using l(1,2) room sz by (simp add: put_vector_def c'_def Let_def assert_that_def)
  have hd': "hdrs c' = ?hs @ [?m']"
  proof -
    have "take (msgused c) ((msglist c)[msgused c - 1 := Some ?m']) = take (msgused c - 1) (msglist c) @ [Some ?m']"
      using u h(1) by (cases "msgused c") (simp_all add: take_Suc_conv_app_nth)
    moreover have "take (msgused c - 1) (msglist c) = butlast (take (msgused c) (msglist c))"
      using h(1) by (simp add: butlast_take)
    ultimately show ?thesis by (simp add: hdrs_def c'_def map_butlast)
  qed
  have lay: "laid_out 0 (?hs @ [?m])" "vectors_used (?hs @ [?m]) = iovused c" using h(3,4) l(3) by simp_all
  have pre: "map (run_of (iov c')) ?hs = map (run_of (iov c)) ?hs"
  proof -
    have "run_of (iov c') m = run_of (iov c) m" if "m \<in> set ?hs" for m
      using laid_out_bound [of 0 ?hs m] that lay by (intro run_of_prefix [where n = "iovused c"]) (auto simp: c'_def)
    then show ?thesis by simp
  qed
  have lastrun: "run_of (iov c') ?m' = run_of (iov c) ?m @ [?v]"
  proof -
    have "segment (msg_iov ?m) (msg_iovlen ?m + 1) ((iov c)[iovused c := Some ?v]) =
       segment (msg_iov ?m) (msg_iovlen ?m) ((iov c)[iovused c := Some ?v]) @ [Some ?v]"
      using l(2) room by (simp add: segment_def take_Suc_conv_app_nth flip: l(2))
    moreover have "segment (msg_iov ?m) (msg_iovlen ?m) ((iov c)[iovused c := Some ?v]) = segment (msg_iov ?m) (msg_iovlen ?m) (iov c)"
      using l(2) by (simp add: segment_def drop_update_swap)
    ultimately show ?thesis by (simp add: run_of_def c'_def)
  qed
  have msgs: "messages c' = add_last ?v (messages c)"
  proof -
    have "hdrs c \<noteq> []" using u h(1) by (auto simp: hdrs_def)
    then show ?thesis using pre lastrun by (simp add: messages_def hd' add_last_def map_butlast last_map)
  qed
  have "None \<notin> set ((take (msgused c) (msglist c))[msgused c - 1 := Some ?m'])"
    using h(2) set_update_subset_insert [of "take (msgused c) (msglist c)" "msgused c - 1" "Some ?m'"] by auto
  moreover have "take (iovused c + 1) (iov c') = take (iovused c) (iov c) @ [Some ?v]"
    using room by (simp add: c'_def take_Suc_conv_app_nth list_update_append)
  ultimately have "vectors_ok c'"
    unfolding vectors_ok_def hd' msgs
    using ok lay h u room by (auto simp: c'_def vectors_ok_def add_last_def take_update_swap)
  then show ?thesis using put msgs by (intro exI [of _ c']) (simp add: c'_def)
qed

lemma message_room_ok:
  assumes "msgused c \<le> length (msglist c)" "msglist c \<noteq> []"
  shows "\<exists>b d xs. message_room c = (b, d\<lparr>msglist := msglist d @ xs\<rparr>) \<and> answered b c d \<and>
    (b \<longrightarrow> msgused c < length (msglist d @ xs)) \<and> (\<not> b \<longrightarrow> xs = [])"
proof (cases "length (msglist c) = msgused c")
  case False
  then show ?thesis
    using assms(1) by (intro exI [of _ True] exI [of _ c] exI [of _ "[]"]) (simp add: message_room_def)
next
  case True
  obtain b d where a: "out_alloc c = (b, d)" by (cases "out_alloc c")
  have ans: "answered b c d" by (rule out_alloc_answered [OF a])
  then have d: "msglist d = msglist c" by (auto simp: answered_def)
  show ?thesis
  proof (cases b)
    case b: True
    have "0 < msgused c" using True assms(2) by (metis length_greater_0_conv)
    then show ?thesis
      using True a ans b d
      by (intro exI [of _ True] exI [of _ d] exI [of _ "replicate (length (msglist d)) None"]) (auto simp: message_room_def)
  next
    case b: False
    show ?thesis using True a ans b
      by (intro exI [of _ False] exI [of _ d] exI [of _ "[]"]) (auto simp: message_room_def)
  qed
qed

lemma open_message_ok:
  assumes ok: "vectors_ok c"
  shows "\<exists>b d c'. open_message c = Some (b, c') \<and> answered b c d \<and> vectors_ok c' \<and> transport c' = transport c \<and> out_answers c' = out_answers d \<and>
    msgcurr c' = msgcurr c \<and> sent c' = sent c \<and>
    (if b then messages c' = messages c @ [[]] \<and> msgused c' = msgused c + 1 \<and> msgbytes c' = 0
     else messages c' = messages c \<and> msgused c' = msgused c \<and> msgbytes c' = msgbytes c)"
proof -
  have h: "msgused c \<le> length (msglist c)" "msglist c \<noteq> []" "None \<notin> set (take (msgused c) (msglist c))" using ok by (simp_all add: vectors_ok_def)
  obtain b d xs where g: "message_room c = (b, d\<lparr>msglist := msglist d @ xs\<rparr>)" "answered b c d"
    "b \<longrightarrow> msgused c < length (msglist d @ xs)" "\<not> b \<longrightarrow> xs = []"
    using message_room_ok [OF h(1,2)] by blast
  obtain as mf where d: "d = c\<lparr>out_answers := as, malloc_fails := mf\<rparr>" using g(2) by (auto simp: answered_def)
  show ?thesis
  proof (cases b)
    case False
    have "d\<lparr>msglist := msglist d @ xs\<rparr> = d" using g(4) False by simp
    then have "open_message c = Some (b, d)" using False by (simp add: open_message_def g(1))
    moreover have "vectors_ok d" "messages d = messages c" using vectors_ok_array [OF ok g(2), of "[]"] by simp_all
    moreover have "transport d = transport c" "msgcurr d = msgcurr c" "sent d = sent c" "msgused d = msgused c" "msgbytes d = msgbytes c"
      by (simp_all add: d)
    ultimately show ?thesis using g(2) False by (intro exI [of _ b] exI [of _ d]) simp
  next
    case True
    let ?m = "\<lparr>msg_iov = iovused c, msg_iovlen = 0\<rparr>"
    define c' where "c' = d\<lparr>msglist := (msglist d @ xs)[msgused c := Some ?m], msgbytes := 0, msgused := msgused c + 1\<rparr>"
    have "msgused c < length (msglist d @ xs)" "iovused c \<le> length (iov c)" using g(3) True ok by (simp_all add: vectors_ok_def)
    then have o: "open_message c = Some (b, c')" using True by (simp add: open_message_def g(1) c'_def d)
    have tk: "take (msgused c + 1) (msglist c') = take (msgused c) (msglist c) @ [Some ?m]"
      using g(3) True h(1) by (simp add: c'_def d take_Suc_conv_app_nth nth_list_update_eq)
    then have hd': "hdrs c' = hdrs c @ [?m]" by (simp add: hdrs_def c'_def)
    have msgs: "messages c' = messages c @ [[]]" 
    proof -
      have "iov c' = iov c" by (simp add: c'_def d)
      then show ?thesis unfolding messages_def hd' by (simp add: run_of_def segment_def)
    qed
    have "None \<notin> set (take (msgused c') (msglist c'))" using tk h(3) by (simp add: c'_def)
    moreover have "msgused c' \<le> length (msglist c')" using g(3) True by (simp add: c'_def)
    ultimately have "vectors_ok c'" using ok h unfolding vectors_ok_def hd' msgs by (simp add: c'_def d)
    then show ?thesis using o g(2) True msgs by (intro exI [of _ b] exI [of _ d] exI [of _ c']) (simp add: c'_def d)
  qed
qed

text \<open>One turn of the loop for a packet: a vector of the part that fits.\<close>

definition fits :: "nat \<Rightarrow> 'r outgoing \<Rightarrow> nat" where
  "fits len c = min len (UDP_MAX_PAYLOAD_SIZE - nat (msgbytes c))"

lemma msgbytes_pos: "vectors_ok c \<Longrightarrow> 0 < msgused c \<Longrightarrow> 0 \<le> msgbytes c"
  by (simp add: vectors_ok_def)

definition vector_added :: "'r src \<Rightarrow> nat \<Rightarrow> 'r outgoing \<Rightarrow> 'r outgoing \<Rightarrow> bool" where
  "vector_added buf len c c' \<longleftrightarrow> vectors_ok c' \<and> messages c' = add_last \<lparr>iov_base = buf, iov_len = len\<rparr> (messages c) \<and>
     msgused c' = msgused c \<and> msgbytes c' = msgbytes c + int len \<and> transport c' = transport c \<and>
     msgcurr c' = msgcurr c \<and> sent c' = sent c"

definition same_messages :: "'r outgoing \<Rightarrow> 'r outgoing \<Rightarrow> bool" where
  "same_messages c c' \<longleftrightarrow> vectors_ok c' \<and> messages c' = messages c \<and> msgused c' = msgused c \<and> msgbytes c' = msgbytes c \<and>
     transport c' = transport c \<and> msgcurr c' = msgcurr c \<and> sent c' = sent c"

text \<open>The answers that are left, with at least one less after a failure.\<close>

definition answers_left :: "bool \<Rightarrow> 'r outgoing \<Rightarrow> 'r outgoing \<Rightarrow> bool" where
  "answers_left ok c c' \<longleftrightarrow> set (out_answers c') \<subseteq> set (out_answers c) \<and> length (out_answers c') \<le> length (out_answers c) \<and>
     (\<not> ok \<longrightarrow> length (out_answers c') < length (out_answers c) \<and> \<not> all_succeed c)"

lemma answers_left_trans:
  "answers_left b c d \<Longrightarrow> answers_left ok d e \<Longrightarrow> answers_left ok c e"
  "answers_left False c d \<Longrightarrow> answers_left b' d e \<Longrightarrow> answers_left False c e"
  unfolding answers_left_def all_succeed_def by auto

lemma answered_left: "answered ok c c' \<Longrightarrow> answers_left ok c c'"
  by (auto simp: answered_def answers_left_def)

text \<open>Room for a vector and the vector: what all branches of \<open>add_iov\<close> end with.\<close>

lemma ensure_then_put:
  assumes ok: "vectors_ok c" and u: "0 < msgused c"
  shows "\<exists>b d. ensure_iov_space c = Some (b, d) \<and> same_messages c d \<and> answers_left b c d \<and>
    (b \<longrightarrow> (\<forall>len buf. msgbytes c + int len \<le> INT_MAX \<longrightarrow>
       (\<exists>e. put_vector buf len d = Some e \<and> vector_added buf len c e \<and> answers_left True d e)))"
proof -
  obtain b d0 ws where e: "ensure_iov_space c = Some (b, d0\<lparr>iov := iov d0 @ ws\<rparr>)" "answered b c d0" "b \<longrightarrow> iovused c < length (iov d0 @ ws)"
    using ensure_iov_space_ok [OF ok] by blast
  define d where "d = d0\<lparr>iov := iov d0 @ ws\<rparr>"
  obtain as mf where d0: "d0 = c\<lparr>out_answers := as, malloc_fails := mf\<rparr>" using e(2) by (auto simp: answered_def)
  have wf: "vectors_ok d" "messages d = messages c" using vectors_ok_array [OF ok e(2), of ws] by (simp_all add: d_def)
  have f: "msgused d = msgused c" "msgbytes d = msgbytes c" "transport d = transport c" "msgcurr d = msgcurr c" "sent d = sent c"
    "out_answers d = out_answers d0" "iovused d = iovused c" "iov d = iov d0 @ ws"
    by (simp_all add: d_def d0)
  have left: "answers_left b c d" using answered_left [OF e(2)] by (simp add: answers_left_def f(6))
  have put: "\<exists>e. put_vector buf len d = Some e \<and> vector_added buf len c e \<and> answers_left True d e"
    if b and "msgbytes c + int len \<le> INT_MAX" for len buf
    using put_vector_ok [OF wf(1), of len buf] that u e(3) f wf(2) by (auto simp: vector_added_def answers_left_def)
  have "ensure_iov_space c = Some (b, d)" using e(1) by (simp add: d_def)
  moreover have "same_messages c d" using wf f by (simp add: same_messages_def)
  ultimately show ?thesis using left put by (intro exI [of _ b] exI [of _ d]) simp
qed

section \<open>The bytes of the messages\<close>

definition payload :: "'r outgoing \<Rightarrow> 'r src list" where
  "payload c = concat (map (\<lambda>m. concat (map addresses (tl m))) (messages c))"

definition udp_slot :: "'r iovec" where
  "udp_slot = \<lparr>iov_base = Null, iov_len = UDP_HEADER_SIZE\<rparr>"

text \<open>What a message of the UDP kind looks like as long as no allocation fails.\<close>

definition packet_ok :: "'r iovec list \<Rightarrow> bool" where
  "packet_ok m \<longleftrightarrow> m \<noteq> [] \<and> hd m = udp_slot \<and> msg_size m \<le> UDP_MAX_PAYLOAD_SIZE \<and> length m \<le> IOV_MAX"

lemma forward_forward [simp]: "forward (forward b m) n = forward b (m + n)"
  by (cases b) (simp_all add: forward_def)

lemma forward_0 [simp]: "forward b 0 = b"
  by (cases b) (simp_all add: forward_def)

lemma length_addresses [simp]: "length (addresses v) = iov_len v"
  by (simp add: addresses_def)

lemma addresses_split:
  assumes "k \<le> n"
  shows "addresses \<lparr>iov_base = b, iov_len = n\<rparr> = addresses \<lparr>iov_base = b, iov_len = k\<rparr> @ addresses \<lparr>iov_base = forward b k, iov_len = n - k\<rparr>"
proof -
  have "[0..<n] = [0..<k] @ [k..<n]" using assms by (metis le_add_diff_inverse le_iff_add plus_nat.add_0 upt_add_eq_append zero_le)
  moreover have "map (forward b) [k..<n] = map (forward (forward b k)) [0..<n - k]"
    using assms by (intro nth_equalityI) simp_all
  ultimately show ?thesis by (simp add: addresses_def)
qed

lemma concat_add_last: "xss \<noteq> [] \<Longrightarrow> concat (add_last x xss) = concat xss @ [x]"
  by (cases xss rule: rev_cases) (simp_all add: add_last_def)

lemma length_concat_addresses [simp]: "length (concat (map addresses vs)) = msg_size vs"
  by (induction vs) simp_all

lemma messages_used: "vectors_ok c \<Longrightarrow> messages c \<noteq> [] \<longleftrightarrow> 0 < msgused c"
  by (auto simp: vectors_ok_def hdrs_def)

lemma last_message:
  assumes "vectors_ok c" "0 < msgused c"
  shows "length (last (messages c)) = msg_iovlen (last (hdrs c))" "last (messages c) \<in> set (messages c)" "messages c \<noteq> []"
    "last_hdr c = Some (last (hdrs c))" "msgbytes c = int (msg_size (last (messages c)))"
proof -
  show ne: "messages c \<noteq> []" using messages_used [OF assms(1)] assms(2) by blast
  then show "last (messages c) \<in> set (messages c)" by simp
  show "last_hdr c = Some (last (hdrs c))" by (rule last_hdr_ok [OF assms])
  show "msgbytes c = int (msg_size (last (messages c)))" using assms by (simp add: vectors_ok_def)
  have "msg_iov (last (hdrs c)) + msg_iovlen (last (hdrs c)) \<le> length (iov c)"
    using last_hdr_ok(2) [OF assms] assms(1) by (simp add: vectors_ok_def)
  moreover have "last (messages c) = run_of (iov c) (last (hdrs c))" using ne by (simp add: messages_def last_map)
  ultimately show "length (last (messages c)) = msg_iovlen (last (hdrs c))" by (simp add: run_of_def segment_def)
qed

lemma add_last_simps:
  assumes "messages c \<noteq> []" "messages d = add_last v (messages c)"
  shows "concat (messages d) = concat (messages c) @ [v]" "last (messages c) \<noteq> [] \<Longrightarrow> payload d = payload c @ addresses v"
    "last (messages d) = last (messages c) @ [v]" "butlast (messages d) = butlast (messages c)"
proof -
  show "last (messages d) = last (messages c) @ [v]" "butlast (messages d) = butlast (messages c)" by (simp_all add: assms(2) add_last_def)
  show "concat (messages d) = concat (messages c) @ [v]" by (simp add: assms(2) concat_add_last [OF assms(1)])
  have split: "messages c = butlast (messages c) @ [last (messages c)]" using assms(1) by simp
  assume "last (messages c) \<noteq> []"
  then show "payload d = payload c @ addresses v"
    unfolding payload_def assms(2) add_last_def by (subst (3) split) simp
qed

section \<open>Streams\<close>

lemma add_msghdr_tcp: "vectors_ok c \<Longrightarrow> \<not> is_udp c \<Longrightarrow> add_msghdr c = open_message c"
  using open_message_ok [of c] by (auto simp: add_msghdr_def is_udp_def)

definition stream_added :: "bool \<Rightarrow> 'r iovec list \<Rightarrow> 'r outgoing \<Rightarrow> 'r outgoing \<Rightarrow> bool" where
  "stream_added ok vs c c' \<longleftrightarrow> vectors_ok c' \<and> 0 < msgused c' \<and> transport c' = transport c \<and> msgcurr c' = msgcurr c \<and> sent c' = sent c \<and>
     answers_left ok c c' \<and> concat (messages c') = concat (messages c) @ vs \<and> [] \<notin> set (butlast (messages c')) \<and> (ok \<longrightarrow> [] \<notin> set (messages c')) \<and>
     (all_succeed c \<and> (\<forall>m \<in> set (messages c). length m \<le> IOV_MAX) \<longrightarrow> (\<forall>m \<in> set (messages c'). length m \<le> IOV_MAX))"

definition short_messages :: "'r outgoing \<Rightarrow> bool" where
  "short_messages c \<longleftrightarrow> (\<forall>m \<in> set (messages c). length m \<le> IOV_MAX)"

text \<open>The message that the next vector goes to.\<close>

lemma stream_message:
  assumes ok: "vectors_ok c" and u: "0 < msgused c" and tcp: "\<not> is_udp c" and ne: "[] \<notin> set (butlast (messages c))"
  shows "\<exists>x d. (if msg_iovlen (last (hdrs c)) = IOV_MAX then add_msghdr c else Some (True, c)) = Some (x, d) \<and> vectors_ok d \<and> 0 < msgused d \<and>
    transport d = transport c \<and> msgcurr d = msgcurr c \<and> sent d = sent c \<and> answers_left True c d \<and> concat (messages d) = concat (messages c) \<and>
    [] \<notin> set (butlast (messages d)) \<and> msgbytes d \<le> msgbytes c \<and>
    (all_succeed c \<and> short_messages c \<longrightarrow> short_messages d \<and> length (last (messages d)) < IOV_MAX)"
proof (cases "msg_iovlen (last (hdrs c)) = IOV_MAX")
  case False
  have "short_messages c \<longrightarrow> length (last (messages c)) < IOV_MAX"
    using last_message(1,2) [OF ok u] False by (metis le_neq_implies_less short_messages_def)
  then show ?thesis using False assms by (intro exI [of _ True] exI [of _ c]) (simp add: answers_left_def)
next
  case True
  obtain b d0 d where o: "open_message c = Some (b, d)" "answered b c d0" "vectors_ok d" "transport d = transport c" "out_answers d = out_answers d0"
    "msgcurr d = msgcurr c" "sent d = sent c"
    "if b then messages d = messages c @ [[]] \<and> msgused d = msgused c + 1 \<and> msgbytes d = 0
     else messages d = messages c \<and> msgused d = msgused c \<and> msgbytes d = msgbytes c"
    using open_message_ok [OF ok] by blast
  have left: "answers_left b c d" using answered_left [OF o(2)] by (simp add: answers_left_def o(5))
  have last: "last (messages c) \<noteq> []" "messages c = butlast (messages c) @ [last (messages c)]"
    using last_message [OF ok u] True by (auto simp: IOV_MAX_def)
  then have "[] \<notin> set (messages c)" using ne by (metis Un_iff in_set_conv_decomp list.set(1) set_ConsD set_append singletonD empty_iff insert_iff list.set(2))
  then have "add_msghdr c = Some (b, d) \<and> 0 < msgused d \<and> answers_left True c d \<and> concat (messages d) = concat (messages c) \<and> [] \<notin> set (butlast (messages d)) \<and>
      msgbytes d \<le> msgbytes c \<and> (all_succeed c \<and> short_messages c \<longrightarrow> short_messages d \<and> length (last (messages d)) < IOV_MAX)"
    using o left u ne msgbytes_pos [OF ok u] add_msghdr_tcp [OF ok tcp]
    by (auto simp: answers_left_def short_messages_def IOV_MAX_def split: if_splits)
  then show ?thesis using o True by auto
qed

lemma add_iov_tcp:
  assumes ok: "vectors_ok c" and u: "0 < msgused c" and tcp: "\<not> is_udp c" and ne: "[] \<notin> set (butlast (messages c))"
    and sz: "msgbytes c + int len \<le> INT_MAX"
  shows "\<exists>b c'. add_iov buf len c = Some (b, c') \<and> msgbytes c' \<le> msgbytes c + int len \<and>
    stream_added b (if b then [\<lparr>iov_base = buf, iov_len = len\<rparr>] else []) c c'"
proof -
  let ?v = "\<lparr>iov_base = buf, iov_len = len\<rparr>"
  obtain x d where d: "(if msg_iovlen (last (hdrs c)) = IOV_MAX then add_msghdr c else Some (True, c)) = Some (x, d)" "vectors_ok d" "0 < msgused d"
    "transport d = transport c" "msgcurr d = msgcurr c" "sent d = sent c" "answers_left True c d" "concat (messages d) = concat (messages c)"
    "[] \<notin> set (butlast (messages d))" "msgbytes d \<le> msgbytes c"
    "all_succeed c \<and> short_messages c \<longrightarrow> short_messages d \<and> length (last (messages d)) < IOV_MAX"
    using stream_message [OF ok u tcp ne] by blast
  obtain b e where e: "ensure_iov_space d = Some (b, e)" "same_messages d e" "answers_left b d e"
    "b \<longrightarrow> (\<exists>f. put_vector buf len e = Some f \<and> vector_added buf len d f \<and> answers_left True e f)"
  proof -
    have "msgbytes d + int len \<le> INT_MAX" using d(10) sz by simp
    then show ?thesis using ensure_then_put [OF d(2,3)] that by metis
  qed
  have run: "add_iov buf len c = (if b then do { f \<leftarrow> put_vector buf len e; Some (True, f) } else Some (False, e))"
    using last_message(4) [OF ok u] d(1) e(1) tcp by (simp add: add_iov_def add_iov_with_def tcp_iov_def)
  have left: "answers_left b c e" using answers_left_trans(1) [OF d(7) e(3)] .
  have ne_d: "messages d \<noteq> []" using last_message(3) [OF d(2,3)] .
  show ?thesis
  proof (cases b)
    case False
    have "stream_added False [] c e"
    proof -
      have "concat (messages e) = concat (messages c)" "messages e = messages d" using e(2) d(8) by (simp_all add: same_messages_def)
      then show ?thesis using e(2) d(3-6,9,11) left False by (simp add: stream_added_def same_messages_def short_messages_def)
    qed
    then show ?thesis using run False e(2) d(10) by (intro exI [of _ False] exI [of _ e]) (simp add: same_messages_def)
  next
    case True
    obtain f where f: "put_vector buf len e = Some f" "vector_added buf len d f" "answers_left True e f" using e(4) True by blast
    have m: "messages f = add_last ?v (messages d)" using f(2) by (simp add: vector_added_def)
    note s = add_last_simps [OF ne_d m]
    have set_f: "set (messages f) = insert (last (messages d) @ [?v]) (set (butlast (messages d)))" by (simp add: m add_last_def)
    have short: "all_succeed c \<and> short_messages c \<longrightarrow> short_messages f"
      using d(11) set_f by (auto simp: short_messages_def dest: in_set_butlastD)
    have "stream_added True [?v] c f"
    proof -
      have "vectors_ok f" "0 < msgused f" "transport f = transport c" "msgcurr f = msgcurr c" "sent f = sent c"
        using f(2) d(3-6) by (simp_all add: vector_added_def)
      moreover have "answers_left True c f" using answers_left_trans(1) [OF left f(3)] .
      moreover have "[] \<notin> set (messages f)" "[] \<notin> set (butlast (messages f))" using set_f s(4) d(9) by auto
      ultimately show ?thesis using s(1) d(8) short by (simp add: stream_added_def short_messages_def)
    qed
    then show ?thesis using run True f(1,2) d(10) by (intro exI [of _ True] exI [of _ f]) (simp add: vector_added_def)
  qed
qed

section \<open>Packets\<close>

text \<open>What the loop for packets keeps, whatever the allocations return.\<close>

definition udp_kept :: "'r outgoing \<Rightarrow> 'r outgoing \<Rightarrow> bool" where
  "udp_kept c d \<longleftrightarrow> vectors_ok d \<and> transport d = transport c \<and> msgcurr d = msgcurr c \<and> sent d = sent c \<and>
     0 < msgused d \<and> msgbytes d \<le> int UDP_MAX_PAYLOAD_SIZE"

lemma add_msghdr_udp:
  assumes ok: "vectors_ok c" and udp: "is_udp c" and sz: "0 < msgused c \<longrightarrow> msgbytes c \<le> int UDP_MAX_PAYLOAD_SIZE"
  shows "\<exists>b d. add_msghdr c = Some (b, d) \<and> answers_left b c d \<and> (b \<or> 0 < msgused c \<longrightarrow> udp_kept c d) \<and>
    vectors_ok d \<and> transport d = transport c \<and> msgcurr d = msgcurr c \<and> sent d = sent c \<and>
    (b \<longrightarrow> messages d = messages c @ [[udp_slot]] \<and> msgbytes d = int UDP_HEADER_SIZE)"
proof -
  obtain b d0 d where o: "open_message c = Some (b, d)" "answered b c d0" "vectors_ok d" "transport d = transport c" "out_answers d = out_answers d0"
    "msgcurr d = msgcurr c" "sent d = sent c"
    "if b then messages d = messages c @ [[]] \<and> msgused d = msgused c + 1 \<and> msgbytes d = 0
     else messages d = messages c \<and> msgused d = msgused c \<and> msgbytes d = msgbytes c"
    using open_message_ok [OF ok] by blast
  have left: "answers_left b c d" using answered_left [OF o(2)] by (simp add: answers_left_def o(5))
  have udp': "is_udp d" using udp o(4) by (simp add: is_udp_def)
  show ?thesis
  proof (cases b)
    case False
    then have "add_msghdr c = Some (False, d)" using o(1) by (simp add: add_msghdr_def)
    then show ?thesis using o left False sz by (intro exI [of _ False] exI [of _ d]) (simp add: udp_kept_def)
  next
    case True
    then have d: "messages d = messages c @ [[]]" "0 < msgused d" "msgbytes d = 0" using o(8) by simp_all
    obtain x e where e: "ensure_iov_space d = Some (x, e)" "same_messages d e" "answers_left x d e"
      "x \<longrightarrow> (\<forall>len buf. msgbytes d + int len \<le> INT_MAX \<longrightarrow> (\<exists>f. put_vector buf len e = Some f \<and> vector_added buf len d f \<and> answers_left True e f))"
      using ensure_then_put [OF o(3) d(2)] by blast
    have lh: "last_hdr d = Some (last (hdrs d))" "msg_iovlen (last (hdrs d)) = 0"
      using last_message(1,4) [OF o(3) d(2)] d(1) by simp_all
    have be: "msgbytes e = 0" using e(2) d(3) by (simp add: same_messages_def)
    have run: "add_msghdr c = (if x then do { f \<leftarrow> put_vector Null UDP_HEADER_SIZE e; Some (True, f) } else Some (False, e))"
      using o(1) True udp' lh d(3) e(1) be
      by (simp add: add_msghdr_def add_iov_with_def udp_iov.simps IOV_MAX_def UDP_MAX_PAYLOAD_SIZE_def INT_MAX_def Let_def assert_that_def)
    have left': "answers_left x c e" using answers_left_trans(1) [OF left e(3)] .
    show ?thesis
    proof (cases x)
      case False
      then show ?thesis using run e(2) left' d o(4,6,7)
        by (intro exI [of _ False] exI [of _ e]) (simp add: same_messages_def udp_kept_def)
    next
      case x: True
      obtain f where f: "put_vector Null UDP_HEADER_SIZE e = Some f" "vector_added Null UDP_HEADER_SIZE d f" "answers_left True e f"
      proof -
        have "msgbytes d + int UDP_HEADER_SIZE \<le> INT_MAX" using d(3) by (simp add: INT_MAX_def)
        then show ?thesis using e(4) x that by blast
      qed
      have "messages f = messages c @ [[udp_slot]]" using f(2) d(1) by (simp add: vector_added_def add_last_def udp_slot_def)
      moreover have "answers_left True c f" using answers_left_trans(1) [OF left' f(3)] .
      moreover have "udp_kept c f" "msgbytes f = int UDP_HEADER_SIZE" "vectors_ok f" "transport f = transport c" "msgcurr f = msgcurr c" "sent f = sent c"
        using f(2) d o(4,6,7) by (simp_all add: udp_kept_def vector_added_def UDP_MAX_PAYLOAD_SIZE_def)
      ultimately show ?thesis using run x f(1) by (intro exI [of _ True] exI [of _ f]) simp
    qed
  qed
qed

definition packets_ok :: "'r outgoing \<Rightarrow> bool" where
  "packets_ok c \<longleftrightarrow> all_succeed c \<and> (\<forall>m \<in> set (messages c). packet_ok m)"

text \<open>The message that the next vector of a packet goes to.\<close>

lemma packet_message:
  assumes ok: "vectors_ok c" and u: "0 < msgused c" and udp: "is_udp c" and sz: "msgbytes c \<le> int UDP_MAX_PAYLOAD_SIZE"
  shows "\<exists>x d. (if msg_iovlen (last (hdrs c)) = IOV_MAX \<or> int UDP_MAX_PAYLOAD_SIZE \<le> msgbytes c then add_msghdr c else Some (True, c)) = Some (x, d) \<and>
    udp_kept c d \<and> answers_left True c d \<and> (msgbytes d < int UDP_MAX_PAYLOAD_SIZE \<or> length (out_answers d) < length (out_answers c)) \<and>
    (packets_ok c \<longrightarrow> packets_ok d \<and> payload d = payload c \<and> length (last (messages d)) < IOV_MAX \<and> msgbytes d < int UDP_MAX_PAYLOAD_SIZE)"
proof (cases "msg_iovlen (last (hdrs c)) = IOV_MAX \<or> int UDP_MAX_PAYLOAD_SIZE \<le> msgbytes c")
  case False
  have "packets_ok c \<longrightarrow> length (last (messages c)) < IOV_MAX"
    using last_message(1,2) [OF ok u] False by (metis le_neq_implies_less packet_ok_def packets_ok_def)
  then show ?thesis using False assms by (intro exI [of _ True] exI [of _ c]) (simp add: answers_left_def udp_kept_def)
next
  case True
  obtain b d where d: "add_msghdr c = Some (b, d)" "answers_left b c d" "udp_kept c d"
    "b \<longrightarrow> messages d = messages c @ [[udp_slot]] \<and> msgbytes d = int UDP_HEADER_SIZE"
    using add_msghdr_udp [OF ok udp] u sz by blast
  have "answers_left True c d" "b \<or> length (out_answers d) < length (out_answers c)" using d(2) by (auto simp: answers_left_def)
  moreover have "b" if "packets_ok c" using that d(2) by (auto simp: packets_ok_def answers_left_def)
  moreover have "packets_ok d \<and> payload d = payload c \<and> length (last (messages d)) < IOV_MAX \<and> msgbytes d < int UDP_MAX_PAYLOAD_SIZE"
    if "packets_ok c" "b"
    using that d(2,4) by (auto simp: packets_ok_def payload_def packet_ok_def udp_slot_def IOV_MAX_def UDP_MAX_PAYLOAD_SIZE_def all_succeed_def answers_left_def)
  ultimately show ?thesis using True d by (intro exI [of _ b] exI [of _ d]) (auto simp: UDP_MAX_PAYLOAD_SIZE_def)
qed

lemma udp_iov_ok:
  assumes "vectors_ok c" "0 < msgused c" "is_udp c" "msgbytes c \<le> int UDP_MAX_PAYLOAD_SIZE"
    and "int len + int UDP_MAX_PAYLOAD_SIZE \<le> INT_MAX"
  shows "\<exists>b d. udp_iov add_msghdr buf len c = Some (b, d) \<and> udp_kept c d \<and> answers_left b c d \<and>
    (packets_ok c \<longrightarrow> b \<and> packets_ok d \<and> payload d = payload c @ addresses \<lparr>iov_base = buf, iov_len = len\<rparr>)"
  using assms
proof (induction "length (out_answers c) + len" arbitrary: c len buf rule: less_induct)
  case less
  note u = less.prems(2)
  obtain x d where d: "(if msg_iovlen (last (hdrs c)) = IOV_MAX \<or> int UDP_MAX_PAYLOAD_SIZE \<le> msgbytes c then add_msghdr c else Some (True, c)) = Some (x, d)"
    "udp_kept c d" "answers_left True c d" "msgbytes d < int UDP_MAX_PAYLOAD_SIZE \<or> length (out_answers d) < length (out_answers c)"
    "packets_ok c \<longrightarrow> packets_ok d \<and> payload d = payload c \<and> length (last (messages d)) < IOV_MAX \<and> msgbytes d < int UDP_MAX_PAYLOAD_SIZE"
    using packet_message [OF less.prems(1-4)] by blast
  have dk: "vectors_ok d" "0 < msgused d" "msgbytes d \<le> int UDP_MAX_PAYLOAD_SIZE" "is_udp d" "0 \<le> msgbytes d"
    using d(2) less.prems(3) msgbytes_pos by (auto simp: udp_kept_def is_udp_def)
  obtain b e where e: "ensure_iov_space d = Some (b, e)" "same_messages d e" "answers_left b d e"
    "b \<longrightarrow> (\<forall>len buf. msgbytes d + int len \<le> INT_MAX \<longrightarrow> (\<exists>f. put_vector buf len e = Some f \<and> vector_added buf len d f \<and> answers_left True e f))"
    using ensure_then_put [OF dk(1,2)] by blast
  have be: "msgbytes e = msgbytes d" using e(2) by (simp add: same_messages_def)
  define left where "left = nat (int len + msgbytes d - int UDP_MAX_PAYLOAD_SIZE)"
  have le: "left \<le> len" "msgbytes d + int (len - left) \<le> int UDP_MAX_PAYLOAD_SIZE" using dk(3) by (auto simp: left_def)
  have run: "udp_iov add_msghdr buf len c =
      (if b then do { f \<leftarrow> put_vector buf (len - left) e; if 0 < left then udp_iov add_msghdr (forward buf (len - left)) left f else Some (True, f) }
       else Some (False, e))"
  proof -
    have "int len + msgbytes d \<le> INT_MAX" using less.prems(5) dk(3) by simp
    then show ?thesis
      using last_message(4) [OF less.prems(1,2)] d(1) e(1) le(1)
      by (subst udp_iov.simps) (simp add: Let_def assert_that_def be left_def [symmetric] del: zero_less_nat_eq nat_le_iff)
  qed
  have ce: "answers_left b c e" using answers_left_trans(1) [OF d(3) e(3)] .
  show ?case
  proof (cases b)
    case False
    have "udp_kept c e" using d(2) e(2) by (simp add: udp_kept_def same_messages_def)
    moreover have "\<not> packets_ok c" using ce False by (simp add: answers_left_def packets_ok_def)
    ultimately show ?thesis using run False ce by (intro exI [of _ False] exI [of _ e]) simp
  next
    case True
    have "msgbytes d + int (len - left) \<le> INT_MAX" using le(2) less.prems(5) by simp
    then obtain f where f: "put_vector buf (len - left) e = Some f" "vector_added buf (len - left) d f" "answers_left True e f"
      using e(4) True by blast
    have fk: "udp_kept c f" using f(2) d(2) le(2) by (simp add: udp_kept_def vector_added_def)
    have cf: "answers_left True c f" using ce f(3) True answers_left_trans(1) by blast
    have pf: "packets_ok f \<and> payload f = payload c @ addresses \<lparr>iov_base = buf, iov_len = len - left\<rparr>" if p: "packets_ok c"
    proof -
      have pd: "packets_ok d" "payload d = payload c" "length (last (messages d)) < IOV_MAX" using d(5) p by simp_all
      have m: "messages f = add_last \<lparr>iov_base = buf, iov_len = len - left\<rparr> (messages d)" using f(2) by (simp add: vector_added_def)
      have l: "packet_ok (last (messages d))" using pd(1) last_message(2) [OF dk(1,2)] by (simp add: packets_ok_def)
      have "int (msg_size (last (messages d)) + (len - left)) \<le> int UDP_MAX_PAYLOAD_SIZE" using last_message(5) [OF dk(1,2)] le(2) by simp
      then have "packet_ok (last (messages d) @ [\<lparr>iov_base = buf, iov_len = len - left\<rparr>])"
        using l pd(3) by (simp add: packet_ok_def)
      moreover have "set (messages f) = insert (last (messages d) @ [\<lparr>iov_base = buf, iov_len = len - left\<rparr>]) (set (butlast (messages d)))"
        by (simp add: m add_last_def)
      ultimately have "packets_ok f" using pd(1) p cf by (auto simp: packets_ok_def all_succeed_def answers_left_def dest: in_set_butlastD)
      then show ?thesis using add_last_simps(2) [OF last_message(3) [OF dk(1,2)] m] l pd(2) by (simp add: packet_ok_def)
    qed
    show ?thesis
    proof (cases "0 < left")
      case False
      then show ?thesis using run True f(1) fk cf pf by (intro exI [of _ True] exI [of _ f]) simp
    next
      case pos: True
      have smaller: "length (out_answers f) + left < length (out_answers c) + len"
      proof -
        have "length (out_answers f) \<le> length (out_answers d)" using e(3) f(3) by (auto simp: answers_left_def)
        moreover have "left < len \<or> length (out_answers d) < length (out_answers c)"
          using d(4) pos by (auto simp: left_def)
        moreover have "length (out_answers d) \<le> length (out_answers c)" using d(3) by (simp add: answers_left_def)
        ultimately show ?thesis using le(1) by linarith
      qed
      have fs: "vectors_ok f" "0 < msgused f" "is_udp f" "msgbytes f \<le> int UDP_MAX_PAYLOAD_SIZE" "int left + int UDP_MAX_PAYLOAD_SIZE \<le> INT_MAX"
        using fk less.prems(3,5) le(1) by (simp_all add: udp_kept_def is_udp_def)
      obtain y g where g: "udp_iov add_msghdr (forward buf (len - left)) left f = Some (y, g)" "udp_kept f g" "answers_left y f g"
        "packets_ok f \<longrightarrow> y \<and> packets_ok g \<and> payload g = payload f @ addresses \<lparr>iov_base = forward buf (len - left), iov_len = left\<rparr>"
        using less.hyps [OF smaller fs] by blast
      have "udp_kept c g" using g(2) fk by (simp add: udp_kept_def)
      moreover have "answers_left y c g" using answers_left_trans(1) [OF cf g(3)] .
      moreover have "packets_ok c \<longrightarrow> y \<and> packets_ok g \<and> payload g = payload c @ addresses \<lparr>iov_base = buf, iov_len = len\<rparr>"
        using pf g(4) addresses_split [of "len - left" len buf] le(1) by simp
      ultimately show ?thesis using run True f(1) pos g(1) by (intro exI [of _ y] exI [of _ g]) simp
    qed
  qed
qed

section \<open>Whole responses\<close>

text \<open>The calls that build a response, up to the first one that fails.\<close>

primrec add_all :: "('r src \<times> nat) list \<Rightarrow> 'r outgoing \<Rightarrow> (bool \<times> 'r outgoing) option" where
  "add_all [] c = Some (True, c)"
| "add_all (b # bs) c = do { (ok, c1) \<leftarrow> add_iov (fst b) (snd b) c; if ok then add_all bs c1 else Some (False, c1) }"

definition respond :: "('r src \<times> nat) list \<Rightarrow> 'r outgoing \<Rightarrow> (bool \<times> 'r outgoing) option" where
  "respond bs c = do { (ok, c1) \<leftarrow> reset_output c; if ok then add_all bs c1 else Some (False, c1) }"

definition vector_for :: "'r src \<times> nat \<Rightarrow> 'r iovec" where
  "vector_for b = \<lparr>iov_base = fst b, iov_len = snd b\<rparr>"

definition data_of :: "('r src \<times> nat) list \<Rightarrow> 'r src list" where
  "data_of bs = concat (map (\<lambda>b. addresses (vector_for b)) bs)"

lemma data_of_simps [simp]: "data_of [] = []" "data_of (b # bs) = addresses \<lparr>iov_base = fst b, iov_len = snd b\<rparr> @ data_of bs"
  by (simp_all add: data_of_def vector_for_def)

definition arrays_ok :: "'r outgoing \<Rightarrow> bool" where
  "arrays_ok c \<longleftrightarrow> msglist c \<noteq> [] \<and> iov c \<noteq> []"

abbreviation cleared :: "'r outgoing \<Rightarrow> 'r outgoing" where
  "cleared c \<equiv> c\<lparr>msgcurr := 0, msgused := 0, iovused := 0\<rparr>"

lemma cleared_ok: "arrays_ok c \<Longrightarrow> vectors_ok (cleared c)" "messages (cleared c) = []"
  by (simp_all add: vectors_ok_def arrays_ok_def hdrs_def messages_def)

lemma reset_tcp:
  assumes "arrays_ok c" "\<not> is_udp c"
  shows "\<exists>b d. reset_output c = Some (b, d) \<and> vectors_ok d \<and> transport d = transport c \<and> msgcurr d = 0 \<and> sent d = sent c \<and> answers_left b c d \<and>
    (b \<longrightarrow> messages d = [[]] \<and> 0 < msgused d \<and> msgbytes d = 0)"
proof -
  have udp: "\<not> is_udp (cleared c)" using assms(2) by (simp add: is_udp_def)
  obtain b d0 d where o: "open_message (cleared c) = Some (b, d)" "answered b (cleared c) d0" "vectors_ok d" "transport d = transport (cleared c)"
    "out_answers d = out_answers d0" "msgcurr d = msgcurr (cleared c)" "sent d = sent (cleared c)"
    "if b then messages d = messages (cleared c) @ [[]] \<and> msgused d = msgused (cleared c) + 1 \<and> msgbytes d = 0
     else messages d = messages (cleared c) \<and> msgused d = msgused (cleared c) \<and> msgbytes d = msgbytes (cleared c)"
    using open_message_ok [OF cleared_ok(1) [OF assms(1)]] by blast
  have "answers_left b c d" using answered_left [OF o(2)] by (auto simp: answers_left_def o(5) all_succeed_def)
  then show ?thesis
    using o add_msghdr_tcp [OF cleared_ok(1) [OF assms(1)] udp] by (auto simp: reset_output_def cleared_ok(2) split: if_splits)
qed

lemma reset_udp:
  assumes "arrays_ok c" "is_udp c"
  shows "\<exists>b d. reset_output c = Some (b, d) \<and> vectors_ok d \<and> transport d = transport c \<and> msgcurr d = 0 \<and> sent d = sent c \<and> answers_left b c d \<and>
    (b \<longrightarrow> messages d = [[udp_slot]] \<and> 0 < msgused d \<and> msgbytes d \<le> int UDP_MAX_PAYLOAD_SIZE)"
proof -
  have udp: "is_udp (cleared c)" using assms(2) by (simp add: is_udp_def)
  obtain b d where o: "add_msghdr (cleared c) = Some (b, d)" "answers_left b (cleared c) d" "b \<or> 0 < msgused (cleared c) \<longrightarrow> udp_kept (cleared c) d"
    "vectors_ok d" "transport d = transport (cleared c)" "msgcurr d = msgcurr (cleared c)" "sent d = sent (cleared c)"
    "b \<longrightarrow> messages d = messages (cleared c) @ [[udp_slot]] \<and> msgbytes d = int UDP_HEADER_SIZE"
    using add_msghdr_udp [OF cleared_ok(1) [OF assms(1)] udp] by auto
  have "answers_left b c d" using o(2) by (auto simp: answers_left_def all_succeed_def)
  then show ?thesis
    using o by (intro exI [of _ b] exI [of _ d]) (simp add: reset_output_def cleared_ok(2) udp_kept_def)
qed

lemma add_all_tcp:
  assumes "vectors_ok c" "0 < msgused c" "\<not> is_udp c" "[] \<notin> set (butlast (messages c))"
    and "msgbytes c + int (sum_list (map snd bs)) \<le> INT_MAX"
  shows "\<exists>b d n. add_all bs c = Some (b, d) \<and> vectors_ok d \<and> 0 < msgused d \<and> transport d = transport c \<and> msgcurr d = msgcurr c \<and> sent d = sent c \<and>
    answers_left b c d \<and> concat (messages d) = concat (messages c) @ map vector_for (take n bs) \<and> (b \<longrightarrow> n = length bs) \<and>
    (b \<and> bs \<noteq> [] \<longrightarrow> [] \<notin> set (messages d)) \<and> (all_succeed c \<and> short_messages c \<longrightarrow> b \<and> short_messages d) \<and>
    msgbytes d \<le> msgbytes c + int (sum_list (map snd bs))"
  using assms
proof (induction bs arbitrary: c)
  case Nil
  then show ?case by (intro exI [of _ True] exI [of _ c]) (simp add: answers_left_def)
next
  case (Cons x bs)
  have sz: "msgbytes c + int (snd x) \<le> INT_MAX" using Cons.prems(5) by simp
  obtain b d where d: "add_iov (fst x) (snd x) c = Some (b, d)" "msgbytes d \<le> msgbytes c + int (snd x)"
    "stream_added b (if b then [vector_for x] else []) c d"
    using add_iov_tcp [OF Cons.prems(1-4) sz] unfolding vector_for_def by blast
  have s: "vectors_ok d" "0 < msgused d" "transport d = transport c" "msgcurr d = msgcurr c" "sent d = sent c" "answers_left b c d"
    "[] \<notin> set (butlast (messages d))" "b \<longrightarrow> [] \<notin> set (messages d)" "all_succeed c \<and> short_messages c \<longrightarrow> short_messages d"
    using d(3) by (auto simp: stream_added_def short_messages_def)
  show ?case
  proof (cases b)
    case False
    have "\<not> all_succeed c" using s(6) False by (simp add: answers_left_def)
    then show ?thesis using d s False by (intro exI [of _ False] exI [of _ d] exI [of _ 0]) (simp add: stream_added_def)
  next
    case True
    have "\<not> is_udp d" "msgbytes d + int (sum_list (map snd bs)) \<le> INT_MAX" using Cons.prems(3,5) s(3) d(2) by (simp_all add: is_udp_def)
    then obtain y e n where e: "add_all bs d = Some (y, e)" "vectors_ok e" "0 < msgused e" "transport e = transport d" "msgcurr e = msgcurr d"
      "sent e = sent d" "answers_left y d e" "concat (messages e) = concat (messages d) @ map vector_for (take n bs)" "y \<longrightarrow> n = length bs"
      "y \<and> bs \<noteq> [] \<longrightarrow> [] \<notin> set (messages e)" "all_succeed d \<and> short_messages d \<longrightarrow> y \<and> short_messages e"
      "msgbytes e \<le> msgbytes d + int (sum_list (map snd bs))"
      using Cons.IH [OF s(1,2) _ s(7)] by blast
    have run: "add_all (x # bs) c = Some (y, e)" using d(1) True e(1) by simp
    have "answers_left y c e" using answers_left_trans(1) [OF s(6) e(7)] .
    moreover have "concat (messages e) = concat (messages c) @ map vector_for (take (Suc n) (x # bs))" using e(8) d(3) True by (simp add: stream_added_def)
    moreover have "y \<longrightarrow> [] \<notin> set (messages e)"
      using e(1,10) s(8) True by (cases bs) auto
    moreover have "all_succeed c \<longrightarrow> all_succeed d" using s(6) by (auto simp: answers_left_def all_succeed_def)
    moreover have "msgbytes e \<le> msgbytes c + int (sum_list (map snd (x # bs)))" using e(12) d(2) by simp
    ultimately show ?thesis
      using run e s(3-5,9) by (intro exI [of _ y] exI [of _ e] exI [of _ "Suc n"]) auto
  qed
qed

lemma add_all_udp:
  assumes "vectors_ok c" "0 < msgused c" "is_udp c" "msgbytes c \<le> int UDP_MAX_PAYLOAD_SIZE"
    and "int (sum_list (map snd bs)) + int UDP_MAX_PAYLOAD_SIZE \<le> INT_MAX"
  shows "\<exists>b d. add_all bs c = Some (b, d) \<and> udp_kept c d \<and> answers_left b c d \<and>
    (packets_ok c \<longrightarrow> b \<and> packets_ok d \<and> payload d = payload c @ data_of bs)"
  using assms
proof (induction bs arbitrary: c)
  case Nil
  then show ?case by (intro exI [of _ True] exI [of _ c]) (simp add: answers_left_def udp_kept_def)
next
  case (Cons x bs)
  have sz: "int (snd x) + int UDP_MAX_PAYLOAD_SIZE \<le> INT_MAX" "int (sum_list (map snd bs)) + int UDP_MAX_PAYLOAD_SIZE \<le> INT_MAX" using Cons.prems(5) by simp_all
  obtain b d where d: "udp_iov add_msghdr (fst x) (snd x) c = Some (b, d)" "udp_kept c d" "answers_left b c d"
    "packets_ok c \<longrightarrow> b \<and> packets_ok d \<and> payload d = payload c @ addresses \<lparr>iov_base = fst x, iov_len = snd x\<rparr>"
    using udp_iov_ok [OF Cons.prems(1-4) sz(1)] by blast
  have add: "add_iov (fst x) (snd x) c = Some (b, d)" using d(1) Cons.prems(3) by (simp add: add_iov_def add_iov_with_def)
  show ?case
  proof (cases b)
    case False
    then show ?thesis using add d by (intro exI [of _ False] exI [of _ d]) auto
  next
    case True
    have k: "vectors_ok d" "0 < msgused d" "is_udp d" "msgbytes d \<le> int UDP_MAX_PAYLOAD_SIZE"
      using d(2) Cons.prems(3) by (simp_all add: udp_kept_def is_udp_def)
    obtain y e where e: "add_all bs d = Some (y, e)" "udp_kept d e" "answers_left y d e" "packets_ok d \<longrightarrow> y \<and> packets_ok e \<and> payload e = payload d @ data_of bs"
      using Cons.IH [OF k sz(2)] by blast
    have "udp_kept c e" using d(2) e(2) by (simp add: udp_kept_def)
    moreover have "answers_left y c e" using answers_left_trans(1) [OF d(3) e(3)] .
    ultimately show ?thesis using add True e(1,4) d(4) by (intro exI [of _ y] exI [of _ e]) simp
  qed
qed

text \<open>
  Claim C40. A connection's lists of messages and vectors stay well formed while a response is
  built, over TCP and UDP and whatever \<open>realloc\<close> answers: \<open>add_iov\<close> returns, every message is a run
  of defined vectors, the runs follow each other and fill the used part of the array (also when
  the array has moved), and \<open>msgbytes\<close> is the size of the last message.
\<close>
theorem response_wellformed:
  assumes "arrays_ok c" "int (sum_list (map snd bs)) + int UDP_MAX_PAYLOAD_SIZE \<le> INT_MAX"
  shows "\<exists>ok d. respond bs c = Some (ok, d) \<and> vectors_ok d"
proof (cases "is_udp c")
  case True
  obtain b d where r: "reset_output c = Some (b, d)" "vectors_ok d" "transport d = transport c"
    "b \<longrightarrow> messages d = [[udp_slot]] \<and> 0 < msgused d \<and> msgbytes d \<le> int UDP_MAX_PAYLOAD_SIZE"
    using reset_udp [OF assms(1) True] by blast
  show ?thesis
  proof (cases b)
    case b: True
    then show ?thesis using add_all_udp [of d bs] r True assms(2) by (auto simp: respond_def udp_kept_def is_udp_def)
  qed (use r in \<open>auto simp: respond_def\<close>)
next
  case False
  obtain b d where r: "reset_output c = Some (b, d)" "vectors_ok d" "transport d = transport c" "b \<longrightarrow> messages d = [[]] \<and> 0 < msgused d \<and> msgbytes d = 0"
    using reset_tcp [OF assms(1) False] by blast
  show ?thesis
  proof (cases b)
    case True
    have "msgbytes d + int (sum_list (map snd bs)) \<le> INT_MAX" using r(4) True assms(2) by simp
    then show ?thesis using add_all_tcp [of d bs] r True False by (auto simp: respond_def is_udp_def)
  qed (use r in \<open>auto simp: respond_def\<close>)
qed

definition headers_ok :: "'r outgoing \<Rightarrow> bool" where
  "headers_ok c \<longleftrightarrow> hdrsize c * UDP_HEADER_SIZE \<le> length (hdrbuf c)"

lemma new_output_ok [simp]:
  "arrays_ok (new_output tr as)" "sent (new_output tr as) = []" "is_udp (new_output tr as) \<longleftrightarrow> tr = udp_transport"
  "all_succeed (new_output tr as) \<longleftrightarrow> False \<notin> set as"
  by (simp_all add: new_output_def arrays_ok_def is_udp_def all_succeed_def IOV_LIST_INITIAL_def MSG_LIST_INITIAL_def)

lemma new_output_headers [simp]: "headers_ok (new_output tr as)"
  by (simp add: headers_ok_def new_output_def)

lemma shrink_output_ok: "arrays_ok c \<Longrightarrow> arrays_ok (shrink_output c)"
  by (auto simp: shrink_output_def arrays_ok_def out_realloc_def MSG_LIST_INITIAL_def IOV_LIST_INITIAL_def Let_def
      split: list.splits bool.splits)

theorem response_wellformed_witness:
  "\<exists>ok d. respond [(Data (7 :: nat) 0, 3000), (Data 8 1, 5)] (new_output udp_transport [True, False]) = Some (ok, d) \<and> vectors_ok d"
  by (rule response_wellformed) (simp_all add: UDP_MAX_PAYLOAD_SIZE_def INT_MAX_def)

section \<open>The headers of the packets\<close>

lemma laid_out_sorted: "laid_out i ms \<Longrightarrow> sorted_wrt (\<lambda>m m'. msg_iov m + msg_iovlen m \<le> msg_iov m') ms \<and> (\<forall>m \<in> set ms. i \<le> msg_iov m)"
proof (induction ms arbitrary: i)
  case (Cons m ms)
  then have "sorted_wrt (\<lambda>m m'. msg_iov m + msg_iovlen m \<le> msg_iov m') ms" "\<forall>m' \<in> set ms. i + msg_iovlen m \<le> msg_iov m'" by auto
  then show ?case using Cons.prems by fastforce
qed simp

lemma run_of_update:
  assumes "msg_iov m + msg_iovlen m \<le> length vs"
  shows "run_of (vs[i := Some v]) m =
    (if msg_iov m \<le> i \<and> i < msg_iov m + msg_iovlen m then (run_of vs m)[i - msg_iov m := v] else run_of vs m)"
proof (rule nth_equalityI)
  show "length (run_of (vs[i := Some v]) m) =
    length (if msg_iov m \<le> i \<and> i < msg_iov m + msg_iovlen m then (run_of vs m)[i - msg_iov m := v] else run_of vs m)"
    by (simp add: run_of_def segment_def)
next
  fix j assume "j < length (run_of (vs[i := Some v]) m)"
  then have j: "j < msg_iovlen m" by (simp add: run_of_def segment_def)
  show "run_of (vs[i := Some v]) m ! j =
    (if msg_iov m \<le> i \<and> i < msg_iov m + msg_iovlen m then (run_of vs m)[i - msg_iov m := v] else run_of vs m) ! j"
    using j assms by (auto simp: run_of_def segment_def nth_list_update)
qed

definition hdr_part :: "'r outgoing \<Rightarrow> nat \<times> byte option list \<times> nat" where
  "hdr_part c = (request_id c, hdrbuf c, hdrsize c)"

lemma out_alloc_hdr: "out_alloc c = (b, d) \<Longrightarrow> hdr_part d = hdr_part c"
  by (auto simp: out_alloc_def hdr_part_def split: list.splits bool.splits)

lemma ensure_iov_space_hdr: "ensure_iov_space c = Some (b, d) \<Longrightarrow> hdr_part d = hdr_part c"
  by (auto simp: ensure_iov_space_def hdr_part_def split: if_splits prod.splits bind_splits dest!: out_alloc_hdr)

lemma put_vector_hdr: "put_vector buf len c = Some d \<Longrightarrow> hdr_part d = hdr_part c"
  by (auto simp: put_vector_def hdr_part_def Let_def split: bind_splits)

lemma open_message_hdr: "open_message c = Some (b, d) \<Longrightarrow> hdr_part d = hdr_part c"
  by (auto simp: open_message_def message_room_def hdr_part_def Let_def split: if_splits prod.splits dest!: out_alloc_hdr)

lemma udp_iov_hdr:
  assumes "udp_iov add_hdr buf len c = Some y" "\<And>c b d. add_hdr c = Some (b, d) \<Longrightarrow> hdr_part d = hdr_part c"
  shows "hdr_part (snd y) = hdr_part c"
proof -
  have "(\<forall>c b d. add_hdr c = Some (b, d) \<longrightarrow> hdr_part d = hdr_part c) \<longrightarrow> hdr_part (snd y) = hdr_part c"
    using assms(1)
  proof (rule udp_iov.raw_induct [where P = "\<lambda>add_hdr buf len c y. (\<forall>c b d. add_hdr c = Some (b, d) \<longrightarrow> hdr_part d = hdr_part c) \<longrightarrow>
      hdr_part (snd y) = hdr_part c", rotated])
    fix f :: "('r outgoing \<Rightarrow> (bool \<times> 'r outgoing) option) \<Rightarrow> 'r src \<Rightarrow> nat \<Rightarrow> 'r outgoing \<Rightarrow> (bool \<times> 'r outgoing) option"
      and add_hdr buf len c y
    assume IH: "\<And>add_hdr buf len c y. f add_hdr buf len c = Some y \<Longrightarrow>
        (\<forall>c b d. add_hdr c = Some (b, d) \<longrightarrow> hdr_part d = hdr_part c) \<longrightarrow> hdr_part (snd y) = hdr_part c"
      and run: "do {
     m \<leftarrow> last_hdr c;
     (_, c1) \<leftarrow> (if msg_iovlen m = IOV_MAX \<or> int UDP_MAX_PAYLOAD_SIZE \<le> msgbytes c then add_hdr c else Some (True, c));
     (ok, c2) \<leftarrow> ensure_iov_space c1;
     if \<not> ok then Some (False, c2)
     else do {
       _ \<leftarrow> assert_that (int len + msgbytes c2 \<le> INT_MAX);
       let leftover = nat (int len + msgbytes c2 - int UDP_MAX_PAYLOAD_SIZE);
       _ \<leftarrow> assert_that (leftover \<le> len);
       let len' = len - leftover;
       c3 \<leftarrow> put_vector buf len' c2;
       if 0 < leftover then f add_hdr (forward buf len') leftover c3 else Some (True, c3) } } = Some y"
    show "(\<forall>c b d. add_hdr c = Some (b, d) \<longrightarrow> hdr_part d = hdr_part c) \<longrightarrow> hdr_part (snd y) = hdr_part c"
    proof
      assume add: "\<forall>c b d. add_hdr c = Some (b, d) \<longrightarrow> hdr_part d = hdr_part c"
      show "hdr_part (snd y) = hdr_part c"
        using run add by (auto simp: Let_def dest!: ensure_iov_space_hdr put_vector_hdr IH [rule_format] split: bind_splits if_splits)
    qed
  qed
  then show ?thesis using assms(2) by blast
qed

lemma add_msghdr_hdr: "add_msghdr c = Some (b, d) \<Longrightarrow> hdr_part d = hdr_part c"
  by (auto simp: add_msghdr_def add_iov_with_def dest!: open_message_hdr udp_iov_hdr split: bind_splits if_splits)

lemma add_iov_hdr: "add_iov buf len c = Some (b, d) \<Longrightarrow> hdr_part d = hdr_part c"
  unfolding add_iov_def add_iov_with_def tcp_iov_def
  by (auto dest!: ensure_iov_space_hdr put_vector_hdr add_msghdr_hdr udp_iov_hdr split: bind_splits if_splits)

lemma respond_hdr:
  assumes "respond bs c = Some (b, d)"
  shows "hdr_part d = hdr_part c"
proof -
  have add: "add_all bs c = Some (b, d) \<Longrightarrow> hdr_part d = hdr_part c" for c
    by (induction bs arbitrary: c) (auto dest!: add_iov_hdr split: bind_splits if_splits)
  show ?thesis
    using assms by (auto simp: respond_def reset_output_def hdr_part_def dest!: add add_msghdr_hdr split: bind_splits if_splits)
qed

definition header_vector :: "nat \<Rightarrow> 'r iovec" where
  "header_vector i = \<lparr>iov_base = Header (i * UDP_HEADER_SIZE), iov_len = UDP_HEADER_SIZE\<rparr>"

lemma hdrs_update: "hdrs (c\<lparr>iov := vs, hdrbuf := h\<rparr>) = hdrs c"
  by (simp add: hdrs_def)

lemma header_at:
  assumes "vectors_ok c" "i < msgused c"
  shows "i < length (msglist c)" "msglist c ! i = Some (hdrs c ! i)" "msg_iov (hdrs c ! i) + msg_iovlen (hdrs c ! i) \<le> length (iov c)"
    "messages c ! i = run_of (iov c) (hdrs c ! i)" "length (messages c ! i) = msg_iovlen (hdrs c ! i)"
proof -
  have h: "msgused c \<le> length (msglist c)" "None \<notin> set (take (msgused c) (msglist c))" "laid_out 0 (hdrs c)" "vectors_used (hdrs c) \<le> length (iov c)"
    using assms(1) by (simp_all add: vectors_ok_def)
  show "i < length (msglist c)" using assms(2) h(1) by simp
  have "take (msgused c) (msglist c) ! i \<in> set (take (msgused c) (msglist c))" using assms(2) h(1) by (intro nth_mem) simp
  then have "msglist c ! i \<noteq> None" using h(2) assms(2) by (metis nth_take)
  then show "msglist c ! i = Some (hdrs c ! i)" using assms(2) h(1) by (simp add: hdrs_def)
  have "hdrs c ! i \<in> set (hdrs c)" using assms(2) h(1) by (intro nth_mem) simp
  then show b: "msg_iov (hdrs c ! i) + msg_iovlen (hdrs c ! i) \<le> length (iov c)" using laid_out_bound [OF h(3)] h(4) by fastforce
  show "messages c ! i = run_of (iov c) (hdrs c ! i)" using assms(2) h(1) by (simp add: messages_def)
  then show "length (messages c ! i) = msg_iovlen (hdrs c ! i)" using b by (simp add: run_of_def segment_def)
qed

lemma fill_headers_ok:
  assumes ok: "vectors_ok c" and ne: "[] \<notin> set (messages c)" and buf: "msgused c * UDP_HEADER_SIZE \<le> length (hdrbuf c)" and k: "k \<le> msgused c"
  shows "\<exists>vs h. fill_headers k c = Some (c\<lparr>iov := vs, hdrbuf := h\<rparr>) \<and> length vs = length (iov c) \<and> length h = length (hdrbuf c) \<and>
    (\<forall>j < msgused c. run_of vs (hdrs c ! j) = (if j < k then (messages c ! j)[0 := header_vector j] else messages c ! j)) \<and>
    (\<forall>j < k. segment (j * UDP_HEADER_SIZE) UDP_HEADER_SIZE h = map Some (udp_header (request_id c) j (msgused c)))"
  using k
proof (induction k)
  case 0
  have "fill_headers 0 c = Some (c\<lparr>iov := iov c, hdrbuf := hdrbuf c\<rparr>)" by simp
  then show ?case using header_at(4) [OF ok] by (intro exI [of _ "iov c"] exI [of _ "hdrbuf c"]) simp
next
  case (Suc k)
  obtain vs h where IH: "fill_headers k c = Some (c\<lparr>iov := vs, hdrbuf := h\<rparr>)" "length vs = length (iov c)" "length h = length (hdrbuf c)"
    "\<forall>j < msgused c. run_of vs (hdrs c ! j) = (if j < k then (messages c ! j)[0 := header_vector j] else messages c ! j)"
    "\<forall>j < k. segment (j * UDP_HEADER_SIZE) UDP_HEADER_SIZE h = map Some (udp_header (request_id c) j (msgused c))"
    using Suc by auto
  have ku: "k < msgused c" using Suc.prems by simp
  note at = header_at [OF ok ku]
  have pos: "0 < msg_iovlen (hdrs c ! k)"
  proof -
    have "messages c ! k \<in> set (messages c)" using ku ok by (intro nth_mem) (simp add: vectors_ok_def)
    then have "messages c ! k \<noteq> []" using ne by metis
    then show ?thesis using at(5) by (metis length_greater_0_conv)
  qed
  let ?i = "msg_iov (hdrs c ! k)" and ?h = "map Some (udp_header (request_id c) k (msgused c))"
  have room: "k * UDP_HEADER_SIZE + UDP_HEADER_SIZE \<le> length h" using buf ku IH(3) by simp
  have lh: "length ?h = UDP_HEADER_SIZE" by (simp add: udp_header_def)
  have run: "fill_headers (Suc k) c = Some (c\<lparr>iov := vs[?i := Some (header_vector k)], hdrbuf := splice_at (k * UDP_HEADER_SIZE) ?h h\<rparr>)"
    using IH(1,2) at(1-3) pos room by (simp add: assert_that_def header_vector_def)
  have runs: "run_of (vs[?i := Some (header_vector k)]) (hdrs c ! j) = (if j < Suc k then (messages c ! j)[0 := header_vector j] else messages c ! j)"
    if j: "j < msgused c" for j
  proof -
    have len: "msg_iov (hdrs c ! j) + msg_iovlen (hdrs c ! j) \<le> length vs" using header_at(3) [OF ok j] IH(2) by simp
    have sorted: "sorted_wrt (\<lambda>m m'. msg_iov m + msg_iovlen m \<le> msg_iov m') (hdrs c)" "length (hdrs c) = msgused c"
      using ok laid_out_sorted [of 0 "hdrs c"] by (simp_all add: vectors_ok_def)
    have "j < k \<Longrightarrow> msg_iov (hdrs c ! j) + msg_iovlen (hdrs c ! j) \<le> ?i" "k < j \<Longrightarrow> ?i + msg_iovlen (hdrs c ! k) \<le> msg_iov (hdrs c ! j)"
      using sorted_wrt_nth_less [OF sorted(1)] j ku sorted(2) by auto
    then show ?thesis
      unfolding run_of_update [OF len] using IH(4) j pos by (cases j k rule: linorder_cases) auto
  qed
  have heads: "segment (j * UDP_HEADER_SIZE) UDP_HEADER_SIZE (splice_at (k * UDP_HEADER_SIZE) ?h h) = map Some (udp_header (request_id c) j (msgused c))"
    if "j < Suc k" for j
  proof (cases "j = k")
    case True
    then show ?thesis using room lh by simp
  next
    case False
    then have "j * UDP_HEADER_SIZE + UDP_HEADER_SIZE \<le> k * UDP_HEADER_SIZE" using that by simp
    then have "segment (j * UDP_HEADER_SIZE) UDP_HEADER_SIZE (splice_at (k * UDP_HEADER_SIZE) ?h h) = segment (j * UDP_HEADER_SIZE) UDP_HEADER_SIZE h"
      using room lh by (intro segment_splice_before) simp_all
    then show ?thesis using IH(5) that False by simp
  qed
  show ?case using run runs heads IH(2,3) room lh
    by (intro exI [of _ "vs[?i := Some (header_vector k)]"] exI [of _ "splice_at (k * UDP_HEADER_SIZE) ?h h"]) simp
qed

text \<open>The eight bytes that a header vector points at, and what a packet holds behind it.\<close>

definition packet_header :: "'r outgoing \<Rightarrow> nat \<Rightarrow> byte option list" where
  "packet_header c i = segment (i * UDP_HEADER_SIZE) UDP_HEADER_SIZE (hdrbuf c)"

lemma header_room_ok:
  assumes wf: "vectors_ok d" and ok: "all_succeed d" "headers_ok d"
  shows "\<exists>h. header_room d = (True, h) \<and> vectors_ok h \<and> messages h = messages d \<and> hdrs h = hdrs d \<and> msgused h = msgused d \<and>
    request_id h = request_id d \<and> msgused h * UDP_HEADER_SIZE \<le> length (hdrbuf h)"
proof (cases "hdrsize d < msgused d")
  case False
  have "msgused d * UDP_HEADER_SIZE \<le> length (hdrbuf d)" using False ok(2) by (simp add: headers_ok_def)
  then show ?thesis using False wf by (simp add: header_room_def)
next
  case True
  obtain x a where a: "out_alloc d = (x, a)" by (cases "out_alloc d")
  have ans: "answered x d a" by (rule out_alloc_answered [OF a])
  then have x using ok(1) by (auto simp: answered_def)
  obtain as mf where ad: "a = d\<lparr>out_answers := as, malloc_fails := mf\<rparr>" using ans by (auto simp: answered_def)
  define h where "h = a\<lparr>hdrbuf := hdrbuf a @ replicate (msgused d * 2 * UDP_HEADER_SIZE - length (hdrbuf a)) None, hdrsize := msgused d * 2\<rparr>"
  have same: "hdrs h = hdrs d" by (simp add: ad h_def hdrs_def)
  then have msgs: "messages h = messages d" by (simp add: messages_def ad h_def)
  have "vectors_ok h" using wf unfolding vectors_ok_def same msgs by (simp add: ad h_def)
  moreover have "header_room d = (True, h)" using True a \<open>x\<close> by (simp add: header_room_def h_def)
  moreover have "msgused h = msgused d" "request_id h = request_id d" "msgused h * UDP_HEADER_SIZE \<le> length (hdrbuf h)" by (simp_all add: h_def ad)
  ultimately show ?thesis using same msgs by blast
qed

lemma build_udp_headers_ok:
  assumes wf: "vectors_ok d" and ok: "all_succeed d" "headers_ok d" and ne: "[] \<notin> set (messages d)"
  shows "\<exists>e. build_udp_headers d = Some (True, e) \<and> msgused e = msgused d \<and> length (messages e) = msgused d \<and>
    (\<forall>i < msgused d. messages e ! i = (messages d ! i)[0 := header_vector i] \<and>
      packet_header e i = map Some (udp_header (request_id d) i (msgused d)))"
proof -
  obtain h where h: "header_room d = (True, h)" "vectors_ok h" "messages h = messages d" "hdrs h = hdrs d" "msgused h = msgused d"
    "request_id h = request_id d" "msgused h * UDP_HEADER_SIZE \<le> length (hdrbuf h)"
    using header_room_ok [OF wf ok] by blast
  have ne': "[] \<notin> set (messages h)" using ne h(3) by simp
  obtain vs hb where f: "fill_headers (msgused h) h = Some (h\<lparr>iov := vs, hdrbuf := hb\<rparr>)"
    "\<forall>j < msgused h. run_of vs (hdrs h ! j) = (if j < msgused h then (messages h ! j)[0 := header_vector j] else messages h ! j)"
    "\<forall>j < msgused h. segment (j * UDP_HEADER_SIZE) UDP_HEADER_SIZE hb = map Some (udp_header (request_id h) j (msgused h))"
    using fill_headers_ok [OF h(2) ne' h(7) order_refl] by blast
  define e where "e = h\<lparr>iov := vs, hdrbuf := hb\<rparr>"
  have "build_udp_headers d = Some (True, e)" using f(1) h(1) by (simp add: build_udp_headers_def e_def)
  moreover have e: "hdrs e = hdrs d" "iov e = vs" "hdrbuf e = hb" "msgused e = msgused d" using h(4,5) by (simp_all add: e_def hdrs_update)
  moreover have "length (hdrs d) = msgused d" using wf by (simp add: vectors_ok_def)
  ultimately show ?thesis
    using f(2,3) h(3-6) by (intro exI [of _ e]) (simp add: messages_def packet_header_def)
qed

text \<open>
  Claim C39. A UDP response built while no allocation fails is cut into packets of at most 1400
  bytes and \<open>IOV_MAX\<close> vectors; each begins with its own eight bytes of the header buffer, which
  hold the request identifier, its number and the number of packets; and what the packets hold
  behind their headers is the data of the response, in order and without a gap.
\<close>
theorem udp_response_packets:
  assumes "arrays_ok c" "is_udp c" "all_succeed c" "headers_ok c" "int (sum_list (map snd bs)) + int UDP_MAX_PAYLOAD_SIZE \<le> INT_MAX"
  shows "\<exists>d e. respond bs c = Some (True, d) \<and> build_udp_headers d = Some (True, e) \<and> msgused e = length (messages e) \<and>
    (\<forall>i < msgused e. messages e ! i \<noteq> [] \<and> hd (messages e ! i) = header_vector i \<and> msg_size (messages e ! i) \<le> UDP_MAX_PAYLOAD_SIZE \<and>
       length (messages e ! i) \<le> IOV_MAX \<and> packet_header e i = map Some (udp_header (request_id c) i (msgused e))) \<and>
    payload e = data_of bs"
proof -
  obtain b d0 where r: "reset_output c = Some (b, d0)" "vectors_ok d0" "transport d0 = transport c" "answers_left b c d0"
    "b \<longrightarrow> messages d0 = [[udp_slot]] \<and> 0 < msgused d0 \<and> msgbytes d0 \<le> int UDP_MAX_PAYLOAD_SIZE"
    using reset_udp [OF assms(1,2)] by blast
  have b: b using r(4) assms(3) by (auto simp: answers_left_def)
  have p0: "packets_ok d0" "payload d0 = []" "is_udp d0"
    using r b assms(2,3) by (auto simp: packets_ok_def packet_ok_def udp_slot_def payload_def answers_left_def all_succeed_def
        UDP_MAX_PAYLOAD_SIZE_def IOV_MAX_def is_udp_def)
  obtain d where d: "add_all bs d0 = Some (True, d)" "udp_kept d0 d" "packets_ok d" "payload d = data_of bs"
    using add_all_udp [OF r(2) _ p0(3) _ assms(5)] r(5) b p0(1,2) by auto
  have resp: "respond bs c = Some (True, d)" using r(1) b d(1) by (simp add: respond_def)
  have hd: "request_id d = request_id c" "headers_ok d" using respond_hdr [OF resp] assms(4) by (simp_all add: hdr_part_def headers_ok_def)
  have wf: "vectors_ok d" "0 < msgused d" "\<forall>m \<in> set (messages d). packet_ok m" using d(2,3) by (simp_all add: udp_kept_def packets_ok_def)
  have ne: "[] \<notin> set (messages d)" using wf(3) by (auto simp: packet_ok_def)
  obtain e where e: "build_udp_headers d = Some (True, e)" "msgused e = msgused d" "length (messages e) = msgused d"
    "\<forall>i < msgused d. messages e ! i = (messages d ! i)[0 := header_vector i] \<and>
      packet_header e i = map Some (udp_header (request_id d) i (msgused d))"
    using build_udp_headers_ok [OF wf(1) _ hd(2) ne] d(3) by (auto simp: packets_ok_def)
  have len: "length (messages d) = msgused d" using wf(1) by (simp add: vectors_ok_def)
  have each: "messages e ! i \<noteq> [] \<and> hd (messages e ! i) = header_vector i \<and> msg_size (messages e ! i) \<le> UDP_MAX_PAYLOAD_SIZE \<and>
       length (messages e ! i) \<le> IOV_MAX \<and> tl (messages e ! i) = tl (messages d ! i)" if i: "i < msgused d" for i
  proof -
    have "packet_ok (messages d ! i)" using wf(3) i len by simp
    then obtain vs where "messages d ! i = udp_slot # vs" "msg_size (udp_slot # vs) \<le> UDP_MAX_PAYLOAD_SIZE" "length (udp_slot # vs) \<le> IOV_MAX"
      by (cases "messages d ! i") (auto simp: packet_ok_def)
    then show ?thesis using e(4) i by (simp add: udp_slot_def header_vector_def)
  qed
  have "map (\<lambda>m. concat (map addresses (tl m))) (messages e) = map (\<lambda>m. concat (map addresses (tl m))) (messages d)"
    using each e(3) len by (intro nth_equalityI) simp_all
  then have "payload e = data_of bs" using d(4) by (simp add: payload_def)
  then show ?thesis using resp e each hd(1) by (intro exI [of _ d] exI [of _ e]) simp
qed

theorem udp_response_packets_witness:
  "\<exists>d e. respond [(Data (7 :: nat) 0, 3000)] (new_output udp_transport []) = Some (True, d) \<and> build_udp_headers d = Some (True, e) \<and>
    payload e = data_of [(Data 7 0, 3000)]"
  using udp_response_packets [of "new_output udp_transport []" "[(Data 7 0, 3000)]"]
  by (auto simp: UDP_MAX_PAYLOAD_SIZE_def INT_MAX_def)

section \<open>Sending a stream\<close>

fun drop_bytes :: "nat \<Rightarrow> 'r iovec list \<Rightarrow> 'r iovec list" where
  "drop_bytes n [] = []"
| "drop_bytes n (v # vs) = (if iov_len v \<le> n then drop_bytes (n - iov_len v) vs
     else \<lparr>iov_base = forward (iov_base v) n, iov_len = iov_len v - n\<rparr> # vs)"

lemma addresses_forward: "n \<le> iov_len v \<Longrightarrow> addresses \<lparr>iov_base = forward (iov_base v) n, iov_len = iov_len v - n\<rparr> = drop n (addresses v)"
  using addresses_split [of n "iov_len v" "iov_base v"] by (simp add: addresses_def)

lemma drop_bytes_addresses: "concat (map addresses (drop_bytes n vs)) = drop n (concat (map addresses vs))"
  by (induction n vs rule: drop_bytes.induct) (auto simp: addresses_forward)

lemma drop_bytes_size: "msg_size (drop_bytes n vs) = msg_size vs - n"
  by (induction n vs rule: drop_bytes.induct) auto

lemma drop_bytes_positive: "drop_bytes n vs = [] \<or> 0 < msg_size (drop_bytes n vs)"
  by (induction n vs rule: drop_bytes.induct) auto

lemma vector_run_Cons:
  "vector_run i (Suc n) vs = Some ws \<longleftrightarrow> (\<exists>v us. ws = v # us \<and> i < length vs \<and> vs ! i = Some v \<and> vector_run (i + 1) n vs = Some us)"
proof (cases "i < length vs")
  case True
  then have "segment i (Suc n) vs = vs ! i # segment (i + 1) n vs" by (simp add: segment_def Cons_nth_drop_Suc [symmetric])
  then show ?thesis using True by (cases "vs ! i") (auto simp: vector_run_def)
qed (auto simp: vector_run_def)

lemma vector_run_0: "vector_run i 0 vs = Some ws \<Longrightarrow> ws = []"
  by (simp add: vector_run_def segment_def split: if_splits)

text \<open>What the loop over the vectors leaves, and the vector that was sent in part.\<close>

definition cut_run :: "nat \<Rightarrow> 'r iovec list \<Rightarrow> 'r iovec list" where
  "cut_run r us = (case us of [] \<Rightarrow> [] | v # us' \<Rightarrow> \<lparr>iov_base = forward (iov_base v) r, iov_len = iov_len v - r\<rparr> # us')"

definition partly_sent :: "nat \<Rightarrow> 'r iovec list \<Rightarrow> bool" where
  "partly_sent r us \<longleftrightarrow> (case us of [] \<Rightarrow> r = 0 | v # _ \<Rightarrow> r < iov_len v)"

lemma drop_vectors_run:
  assumes "vector_run i n vs = Some ws" "k \<le> msg_size ws"
  shows "\<exists>i' n' r us. drop_vectors vs i n k = Some (i', n', r) \<and> i \<le> i' \<and> i' + n' = i + n \<and> vector_run i' n' vs = Some us \<and>
    drop_bytes k ws = cut_run r us \<and> partly_sent r us"
  using assms
proof (induction n arbitrary: i k ws)
  case 0
  have ws: "ws = []" using vector_run_0 [OF 0(1)] .
  have k: "k = 0" using 0(2) unfolding ws by simp
  have "drop_vectors vs i 0 k = Some (i, 0, k)" "drop_bytes k ws = cut_run k ws" "partly_sent k ws"
    unfolding ws k by (simp_all add: cut_run_def partly_sent_def)
  then show ?case using 0(1) by (intro exI [of _ i] exI [of _ "0 :: nat"] exI [of _ k] exI [of _ ws] conjI order_refl refl)
next
  case (Suc n)
  obtain v us where v: "ws = v # us" "i < length vs" "vs ! i = Some v" "vector_run (i + 1) n vs = Some us"
    using Suc.prems(1) unfolding vector_run_Cons by blast
  show ?case
  proof (cases "iov_len v \<le> k")
    case True
    have "k - iov_len v \<le> msg_size us" using Suc.prems(2) v(1) by simp
    from Suc.IH [OF v(4) this] obtain i' n' r us' where
      IH: "drop_vectors vs (i + 1) n (k - iov_len v) = Some (i', n', r)" "i + 1 \<le> i'" "i' + n' = i + 1 + n" "vector_run i' n' vs = Some us'"
       "drop_bytes (k - iov_len v) us = cut_run r us'" "partly_sent r us'" by blast
    have "drop_vectors vs i (Suc n) k = Some (i', n', r)"
      by (simp only: drop_vectors.simps(2) v(2,3) True if_True Option.bind.bind_lunit IH(1))
    moreover have "drop_bytes k ws = cut_run r us'" using True v(1) IH(5) by simp
    moreover have "i \<le> i'" "i' + n' = i + Suc n" using IH(2,3) by simp_all
    ultimately show ?thesis using IH(4,6) by (intro exI conjI)
  next
    case False
    have "drop_vectors vs i (Suc n) k = Some (i, Suc n, k)" using False v(2,3) by simp
    moreover have "drop_bytes k ws = cut_run k ws" "partly_sent k ws" using False v(1) by (simp_all add: cut_run_def partly_sent_def)
    ultimately show ?thesis
      using Suc.prems(1) by (intro exI [of _ i] exI [of _ "Suc n"] exI [of _ k] exI [of _ ws] conjI order_refl refl)
  qed
qed

text \<open>The messages from the current one on are defined, and their runs do not overlap.\<close>

definition sending :: "'r outgoing \<Rightarrow> bool" where
  "sending c \<longleftrightarrow> msgused c \<le> length (msglist c) \<and> None \<notin> set (take (msgused c) (msglist c)) \<and>
     sorted_wrt (\<lambda>m m'. msg_iov m + msg_iovlen m \<le> msg_iov m') (hdrs c) \<and>
     (\<forall>m \<in> set (hdrs c). vector_run (msg_iov m) (msg_iovlen m) (iov c) = Some (run_of (iov c) m))"

definition pending :: "'r outgoing \<Rightarrow> 'r src list" where
  "pending c = concat (map addresses (concat (drop (msgcurr c) (messages c))))"

lemma vectors_ok_sending:
  assumes "vectors_ok c"
  shows "sending c"
proof -
  have h: "laid_out 0 (hdrs c)" "vectors_used (hdrs c) = iovused c" "iovused c \<le> length (iov c)" "None \<notin> set (take (iovused c) (iov c))"
    using assms by (simp_all add: vectors_ok_def)
  have "vector_run (msg_iov m) (msg_iovlen m) (iov c) = Some (run_of (iov c) m)" if "m \<in> set (hdrs c)" for m
  proof -
    have b: "msg_iov m + msg_iovlen m \<le> iovused c" using laid_out_bound [OF h(1) that] h(2) by simp
    have "set (segment (msg_iov m) (msg_iovlen m) (iov c)) \<subseteq> set (take (iovused c) (iov c))"
    proof -
      have eq: "segment (msg_iov m) (msg_iovlen m) (iov c) = drop (msg_iov m) (take (msg_iov m + msg_iovlen m) (iov c))"
        by (simp add: segment_def drop_take)
      have "set (segment (msg_iov m) (msg_iovlen m) (iov c)) \<subseteq> set (take (msg_iov m + msg_iovlen m) (iov c))"
        unfolding eq by (rule set_drop_subset)
      then show ?thesis by (rule subset_trans [OF _ set_take_subset_set_take [OF b]])
    qed
    then show ?thesis using h(3,4) b by (auto simp: vector_run_def run_of_def)
  qed
  then show ?thesis using assms laid_out_sorted [OF h(1)] by (simp add: sending_def vectors_ok_def)
qed

lemma current_hdr_ok:
  assumes "sending c" "msgcurr c < msgused c"
  shows "current_hdr c = Some (hdrs c ! msgcurr c)" "hdrs c ! msgcurr c \<in> set (hdrs c)" "length (hdrs c) = msgused c"
    "messages c ! msgcurr c = run_of (iov c) (hdrs c ! msgcurr c)" "length (messages c ! msgcurr c) = msg_iovlen (hdrs c ! msgcurr c)"
proof -
  have h: "msgused c \<le> length (msglist c)" "None \<notin> set (take (msgused c) (msglist c))" using assms(1) by (simp_all add: sending_def)
  show "length (hdrs c) = msgused c" using h(1) by simp
  then show m: "hdrs c ! msgcurr c \<in> set (hdrs c)" using assms(2) by (intro nth_mem) simp
  have "take (msgused c) (msglist c) ! msgcurr c \<in> set (take (msgused c) (msglist c))" using assms(2) h(1) by (intro nth_mem) simp
  then have "msglist c ! msgcurr c \<noteq> None" using h(2) assms(2) by (metis nth_take)
  then show "current_hdr c = Some (hdrs c ! msgcurr c)" using assms(2) h(1) by (simp add: current_hdr_def hdrs_def)
  show "messages c ! msgcurr c = run_of (iov c) (hdrs c ! msgcurr c)" using assms(2) h(1) by (simp add: messages_def)
  moreover have "vector_run (msg_iov (hdrs c ! msgcurr c)) (msg_iovlen (hdrs c ! msgcurr c)) (iov c) = Some (run_of (iov c) (hdrs c ! msgcurr c))"
    using assms(1) m by (simp add: sending_def)
  ultimately show "length (messages c ! msgcurr c) = msg_iovlen (hdrs c ! msgcurr c)"
    by (auto simp: vector_run_def run_of_def segment_def split: if_splits)
qed

lemma vector_run_iff: "vector_run i n vs = Some ws \<longleftrightarrow> i + n \<le> length vs \<and> length ws = n \<and> (\<forall>k < n. vs ! (i + k) = Some (ws ! k))"
proof
  assume a: "vector_run i n vs = Some ws"
  then have b: "i + n \<le> length vs" "None \<notin> set (segment i n vs)" "ws = map the (segment i n vs)"
    by (auto simp: vector_run_def split: if_splits)
  have "vs ! (i + k) = Some (ws ! k)" if "k < n" for k
  proof -
    have "segment i n vs ! k \<in> set (segment i n vs)" using that b(1) by (intro nth_mem) (simp add: segment_def)
    moreover have "segment i n vs ! k = vs ! (i + k)" using that b(1) by (simp add: segment_def)
    ultimately have "vs ! (i + k) \<noteq> None" using b(2) by metis
    then show ?thesis using that b(1,3) by (simp add: segment_def)
  qed
  then show "i + n \<le> length vs \<and> length ws = n \<and> (\<forall>k < n. vs ! (i + k) = Some (ws ! k))" using b by (simp add: segment_def)
next
  assume a: "i + n \<le> length vs \<and> length ws = n \<and> (\<forall>k < n. vs ! (i + k) = Some (ws ! k))"
  then have "segment i n vs = map Some ws" by (intro nth_equalityI) (auto simp: segment_def)
  then show "vector_run i n vs = Some ws" using a by (auto simp: vector_run_def comp_def)
qed

lemma vector_run_update:
  assumes "vector_run i n vs = Some ws"
  shows "vector_run i n (vs[j := Some v]) = Some (if i \<le> j \<and> j < i + n then ws[j - i := v] else ws)"
  using assms unfolding vector_run_iff by (auto simp: nth_list_update)

lemma vector_run_of: "vector_run (msg_iov m) (msg_iovlen m) vs = Some ws \<Longrightarrow> run_of vs m = ws"
  by (auto simp: vector_run_def run_of_def split: if_splits)

lemma sorted_wrt_shrink:
  assumes "sorted_wrt (\<lambda>m m'. msg_iov m + msg_iovlen m \<le> msg_iov m') ms" "k < length ms"
    and "msg_iov (ms ! k) \<le> msg_iov m" "msg_iov m + msg_iovlen m = msg_iov (ms ! k) + msg_iovlen (ms ! k)"
  shows "sorted_wrt (\<lambda>m m'. msg_iov m + msg_iovlen m \<le> msg_iov m') (ms[k := m])"
  unfolding sorted_wrt_iff_nth_less
proof (intro allI impI)
  fix i j assume ij: "i < j" "j < length (ms[k := m])"
  have "msg_iov (ms ! i) + msg_iovlen (ms ! i) \<le> msg_iov (ms ! j)" using assms(1) ij by (simp add: sorted_wrt_iff_nth_less)
  then show "msg_iov (ms[k := m] ! i) + msg_iovlen (ms[k := m] ! i) \<le> msg_iov (ms[k := m] ! j)"
    using assms(2-4) ij by (auto simp: nth_list_update)
qed

lemma advance_ok:
  assumes s: "sending c" and cur: "msgcurr c < msgused c" and k: "k \<le> msg_size (messages c ! msgcurr c)"
  shows "\<exists>d. advance (hdrs c ! msgcurr c) k c = Some d \<and> sending d \<and> messages d = (messages c)[msgcurr c := drop_bytes k (messages c ! msgcurr c)] \<and>
    msgused d = msgused c \<and> msgcurr d = msgcurr c \<and> transport d = transport c \<and> sent d = sent c"
proof -
  let ?m = "hdrs c ! msgcurr c" and ?q = "msgcurr c"
  note h = current_hdr_ok [OF s cur]
  have sd: "msgused c \<le> length (msglist c)" "None \<notin> set (take (msgused c) (msglist c))" "sorted_wrt (\<lambda>m m'. msg_iov m + msg_iovlen m \<le> msg_iov m') (hdrs c)"
    "\<And>m. m \<in> set (hdrs c) \<Longrightarrow> vector_run (msg_iov m) (msg_iovlen m) (iov c) = Some (run_of (iov c) m)"
    using s by (simp_all add: sending_def)
  obtain i n r us where d: "drop_vectors (iov c) (msg_iov ?m) (msg_iovlen ?m) k = Some (i, n, r)" "msg_iov ?m \<le> i" "i + n = msg_iov ?m + msg_iovlen ?m"
    "vector_run i n (iov c) = Some us" "drop_bytes k (messages c ! ?q) = cut_run r us" "partly_sent r us"
    using drop_vectors_run [OF sd(4) [OF h(2)], of k] k unfolding h(4) by blast
  let ?m' = "\<lparr>msg_iov = i, msg_iovlen = n\<rparr>"
  obtain vs where vs: "vector_run i n vs = Some (cut_run r us)" "vs = iov c \<or> (\<exists>v. vs = (iov c)[i := Some v] \<and> 0 < n)"
    "advance ?m k c = Some (c\<lparr>msglist := (msglist c)[?q := Some ?m'], iov := vs\<rparr>)"
  proof (cases us)
    case Nil
    have "advance ?m k c = Some (c\<lparr>msglist := (msglist c)[?q := Some ?m'], iov := iov c\<rparr>)" "cut_run r us = us"
      using d(1,6) Nil by (simp_all add: advance_def partly_sent_def cut_run_def)
    then show ?thesis using that [of "iov c"] d(4) by simp
  next
    case (Cons v us')
    have i: "i < length (iov c)" "iov c ! i = Some v" "0 < n" using d(4) Cons unfolding vector_run_iff by (auto simp: Suc_le_eq dest: spec [of _ 0])
    let ?v = "\<lparr>iov_base = forward (iov_base v) r, iov_len = iov_len v - r\<rparr>"
    have same: "r = 0 \<Longrightarrow> (iov c)[i := Some ?v] = iov c" using i by (cases v) (simp add: list_update_same_conv)
    have "advance ?m k c = Some (c\<lparr>msglist := (msglist c)[?q := Some ?m'], iov := (iov c)[i := Some ?v]\<rparr>)"
    proof (cases "0 < r")
      case True
      then show ?thesis using d(1,6) i Cons by (simp add: advance_def partly_sent_def assert_that_def)
    next
      case False
      then have "(iov c)[i := Some ?v] = iov c" using same by simp
      then show ?thesis using d(1) False by (simp add: advance_def del: One_nat_def)
    qed
    moreover have "vector_run i n ((iov c)[i := Some ?v]) = Some (cut_run r us)"
      using vector_run_update [OF d(4), of i ?v] i(3) Cons by (simp add: cut_run_def)
    ultimately show ?thesis using that i(3) by blast
  qed
  define e where "e = c\<lparr>msglist := (msglist c)[?q := Some ?m'], iov := vs\<rparr>"
  have hd': "hdrs e = (hdrs c)[?q := ?m']" using cur by (simp add: hdrs_def e_def take_update_swap map_update)
  have run: "vector_run (msg_iov (hdrs e ! j)) (msg_iovlen (hdrs e ! j)) vs = Some (if j = ?q then cut_run r us else messages c ! j)"
    if j: "j < msgused c" for j
  proof (cases "j = ?q")
    case True
    then show ?thesis using vs(1) h(3) cur by (simp add: hd')
  next
    case False
    have m: "hdrs c ! j \<in> set (hdrs c)" "messages c ! j = run_of (iov c) (hdrs c ! j)" using j h(3) by (simp_all add: messages_def)
    have dis: "\<not> (msg_iov (hdrs c ! j) \<le> i \<and> i < msg_iov (hdrs c ! j) + msg_iovlen (hdrs c ! j))" if "0 < n"
      using sorted_wrt_nth_less [OF sd(3), of j ?q] sorted_wrt_nth_less [OF sd(3), of ?q j] False j cur h(3) d(2,3) that
      by (cases j ?q rule: linorder_cases) auto
    have "vector_run (msg_iov (hdrs c ! j)) (msg_iovlen (hdrs c ! j)) vs = Some (messages c ! j)"
      using vs(2) sd(4) [OF m(1)] vector_run_update [OF sd(4) [OF m(1)], of i] dis m(2) by auto
    then show ?thesis using False by (simp add: hd')
  qed
  have msgs: "messages e = (messages c)[?q := drop_bytes k (messages c ! ?q)]"
  proof (rule nth_equalityI)
    fix j assume "j < length (messages e)"
    then have j: "j < msgused c" using hd' h(3) by simp
    then have "messages e ! j = run_of vs (hdrs e ! j)" using hd' h(3) by (simp add: messages_def e_def)
    then show "messages e ! j = (messages c)[?q := drop_bytes k (messages c ! ?q)] ! j"
      using vector_run_of [OF run [OF j]] d(5) j h(3) by (auto simp: nth_list_update)
  qed (use hd' in simp)
  have "sorted_wrt (\<lambda>m m'. msg_iov m + msg_iovlen m \<le> msg_iov m') (hdrs e)"
    unfolding hd' using d(2,3) cur h(3) by (intro sorted_wrt_shrink sd(3)) simp_all
  moreover have "vector_run (msg_iov m) (msg_iovlen m) (iov e) = Some (run_of (iov e) m)" if m: "m \<in> set (hdrs e)" for m
  proof -
    obtain j where "j < length (hdrs e)" "m = hdrs e ! j" using m by (auto simp: in_set_conv_nth)
    moreover have "length (hdrs e) = msgused c" using hd' h(3) by simp
    ultimately have j: "j < msgused c" "m = hdrs e ! j" by simp_all
    have "iov e = vs" by (simp add: e_def)
    then show ?thesis unfolding j(2) using run [OF j(1)] vector_run_of [OF run [OF j(1)]] by simp
  qed
  moreover have "None \<notin> set (take (msgused e) (msglist e))"
    using sd(2) set_update_subset_insert [of "take (msgused c) (msglist c)" ?q "Some ?m'"] by (auto simp: e_def take_update_swap)
  ultimately have "sending e" using sd(1) by (simp add: sending_def e_def)
  then show ?thesis using vs(3) msgs by (intro exI [of _ e]) (simp add: e_def)
qed

section \<open>The stream that the peer sees\<close>

text \<open>A message that is sent leaves the current place first.\<close>

definition skipped :: "'r outgoing \<Rightarrow> 'r outgoing" where
  "skipped c = (if msgcurr c < msgused c \<and> messages c ! msgcurr c = [] then c\<lparr>msgcurr := msgcurr c + 1\<rparr> else c)"

lemma skipped_ok:
  assumes "sending c"
  shows "sending (skipped c)" "pending (skipped c) = pending c" "messages (skipped c) = messages c" "hdrs (skipped c) = hdrs c"
    "msgused (skipped c) = msgused c" "sent (skipped c) = sent c" "transport (skipped c) = transport c" "iov (skipped c) = iov c"
proof -
  show h: "hdrs (skipped c) = hdrs c" by (simp add: skipped_def hdrs_def)
  show i: "iov (skipped c) = iov c" by (simp add: skipped_def)
  show m: "messages (skipped c) = messages c" by (simp add: messages_def h i)
  show u: "msgused (skipped c) = msgused c" "sent (skipped c) = sent c" "transport (skipped c) = transport c" by (simp_all add: skipped_def)
  show "sending (skipped c)" using assms by (simp add: sending_def h i u) (simp add: skipped_def)
  show "pending (skipped c) = pending c"
  proof (cases "msgcurr c < msgused c \<and> messages c ! msgcurr c = []")
    case True
    then have "drop (msgcurr c) (messages c) = [] # drop (Suc (msgcurr c)) (messages c)"
      using current_hdr_ok(3) [OF assms] by (simp add: Cons_nth_drop_Suc [symmetric])
    then show ?thesis using True m by (simp add: pending_def skipped_def)
  qed (auto simp: skipped_def)
qed

lemma transmit_skipped:
  assumes "sending c0"
  shows "transmit ans cn c0 =
     (if msgcurr (skipped c0) < msgused (skipped c0)
      then (case ans of
              Sent k \<Rightarrow> if 0 < min k (msg_size (messages (skipped c0) ! msgcurr (skipped c0)))
                then do {
                  c1 \<leftarrow> advance (hdrs (skipped c0) ! msgcurr (skipped c0)) (min k (msg_size (messages (skipped c0) ! msgcurr (skipped c0))))
                    ((skipped c0)\<lparr>bytes_written := bytes_written (skipped c0) + of_nat (min k (msg_size (messages (skipped c0) ! msgcurr (skipped c0)))),
                       sent := sent (skipped c0) @ [take (min k (msg_size (messages (skipped c0) ! msgcurr (skipped c0)))) (concat (map addresses (messages (skipped c0) ! msgcurr (skipped c0))))]\<rparr>);
                  Some (TRANSMIT_INCOMPLETE, cn, c1) }
                else Some (TRANSMIT_HARD_ERROR, cn\<lparr>c_state := (if is_udp (skipped c0) then conn_read else conn_closing)\<rparr>, (skipped c0))
            | WouldBlock ok \<Rightarrow> if ok then Some (TRANSMIT_SOFT_ERROR, cn, (skipped c0)) else Some (TRANSMIT_HARD_ERROR, cn\<lparr>c_state := conn_closing\<rparr>, (skipped c0))
            | SendFailed \<Rightarrow> Some (TRANSMIT_HARD_ERROR, cn\<lparr>c_state := (if is_udp (skipped c0) then conn_read else conn_closing)\<rparr>, (skipped c0)))
      else Some (TRANSMIT_COMPLETE, cn, (skipped c0)))"
proof -
  have s: "sending (skipped c0)" by (rule skipped_ok(1) [OF assms(1)])
  have first: "(if msgcurr c0 < msgused c0
           then do { m \<leftarrow> current_hdr c0; Some (if msg_iovlen m = 0 then c0\<lparr>msgcurr := msgcurr c0 + 1\<rparr> else c0) }
           else Some c0) = Some (skipped c0)"
  proof (cases "msgcurr c0 < msgused c0")
    case True
    have "messages c0 ! msgcurr c0 = [] \<longleftrightarrow> msg_iovlen (hdrs c0 ! msgcurr c0) = 0"
      using current_hdr_ok(5) [OF assms(1) True] by (metis length_0_conv)
    then show ?thesis using True current_hdr_ok(1) [OF assms(1) True] by (simp add: skipped_def)
  qed (simp add: skipped_def)
  show ?thesis
  proof (cases "msgcurr (skipped c0) < msgused (skipped c0)")
    case True
    note h = current_hdr_ok [OF s True]
    have "vector_run (msg_iov (hdrs (skipped c0) ! msgcurr (skipped c0))) (msg_iovlen (hdrs (skipped c0) ! msgcurr (skipped c0))) (iov (skipped c0)) =
        Some (messages (skipped c0) ! msgcurr (skipped c0))"
      using s h(2,4) by (simp add: sending_def)
    then show ?thesis unfolding transmit_def first using True h(1) by (cases ans) (simp_all add: Let_def del: length_greater_0_conv)
  next
    case False
    then show ?thesis unfolding transmit_def first by simp
  qed
qed

text \<open>What one call of \<open>transmit\<close> does to the stream.\<close>

definition lively :: "'r outgoing \<Rightarrow> bool" where
  "lively c \<longleftrightarrow> (\<forall>m \<in> set (drop (msgcurr c) (messages c)). m = [] \<or> 0 < msg_size m) \<and> [] \<notin> set (drop (Suc (msgcurr c)) (messages c))"

lemma lively_skipped:
  assumes "lively c" "sending c"
  shows "lively (skipped c)" "msgcurr (skipped c) < msgused c \<Longrightarrow> 0 < msg_size (messages c ! msgcurr (skipped c))"
proof -
  have len: "length (messages c) = msgused c" using assms(2) by (simp add: sending_def)
  have l: "\<And>m. m \<in> set (drop (msgcurr c) (messages c)) \<Longrightarrow> m = [] \<or> 0 < msg_size m" "[] \<notin> set (drop (Suc (msgcurr c)) (messages c))"
    using assms(1) by (simp_all add: lively_def)
  have sub: "set (drop (Suc k) xs) \<subseteq> set (drop k xs)" for k and xs :: "'a iovec list list" by (rule set_drop_subset_set_drop) simp
  show "lively (skipped c)"
  proof -
    have "msgcurr (skipped c) = msgcurr c \<or> msgcurr (skipped c) = Suc (msgcurr c)" by (simp add: skipped_def)
    then show ?thesis
      using assms(1) sub [of "msgcurr c" "messages c"] sub [of "Suc (msgcurr c)" "messages c"]
      unfolding lively_def skipped_ok(3) [OF assms(2)] by (elim disjE) (simp, fastforce)
  qed
  assume cur: "msgcurr (skipped c) < msgused c"
  show "0 < msg_size (messages c ! msgcurr (skipped c))"
  proof (cases "msgcurr c < msgused c \<and> messages c ! msgcurr c = []")
    case True
    then have "messages c ! Suc (msgcurr c) \<in> set (drop (Suc (msgcurr c)) (messages c))"
      using cur len by (auto simp: skipped_def in_set_conv_nth intro!: exI [of _ 0])
    then have "messages c ! Suc (msgcurr c) \<noteq> []" "messages c ! Suc (msgcurr c) \<in> set (drop (msgcurr c) (messages c))"
      using l(2) sub by (metis, blast)
    then show ?thesis using l(1) True by (auto simp: skipped_def)
  next
    case False
    then have "skipped c = c" by (auto simp: skipped_def)
    then have "messages c ! msgcurr c \<in> set (drop (msgcurr c) (messages c))" "messages c ! msgcurr c \<noteq> []"
      using cur len False by (auto simp: in_set_conv_nth intro!: exI [of _ 0])
    then show ?thesis using l(1) \<open>skipped c = c\<close> by auto
  qed
qed

lemma pending_current:
  assumes "sending c" "msgcurr c < msgused c"
  shows "pending c = concat (map addresses (messages c ! msgcurr c)) @ concat (map addresses (concat (drop (Suc (msgcurr c)) (messages c))))"
proof -
  have "drop (msgcurr c) (messages c) = messages c ! msgcurr c # drop (Suc (msgcurr c)) (messages c)"
    using assms current_hdr_ok(3) [OF assms] by (simp add: Cons_nth_drop_Suc)
  then show ?thesis by (simp add: pending_def)
qed

definition transmit_kept :: "conn \<Rightarrow> 'r outgoing \<Rightarrow> transmit_result \<Rightarrow> conn \<Rightarrow> 'r outgoing \<Rightarrow> nat \<Rightarrow> bool" where
  "transmit_kept cn c r cn' d k \<longleftrightarrow> sending d \<and> transport d = transport c \<and> k \<le> length (pending c) \<and>
    concat (sent d) = concat (sent c) @ take k (pending c) \<and> pending d = drop k (pending c) \<and>
    (r = TRANSMIT_COMPLETE \<longrightarrow> pending d = []) \<and> (r = TRANSMIT_HARD_ERROR \<and> \<not> is_udp c \<longrightarrow> c_state cn' = conn_closing)"

lemma transmit_kept_skipped:
  assumes "sending c" "r = TRANSMIT_COMPLETE \<longrightarrow> pending (skipped c) = []" "r = TRANSMIT_HARD_ERROR \<and> \<not> is_udp c \<longrightarrow> c_state cn' = conn_closing"
  shows "transmit_kept cn c r cn' (skipped c) 0"
  using skipped_ok [OF assms(1)] assms by (simp add: transmit_kept_def)

lemma transmit_sent:
  assumes s: "sending c" and cur: "msgcurr c < msgused c" and k: "0 < k" "k \<le> msg_size (messages c ! msgcurr c)"
  shows "\<exists>d. advance (hdrs c ! msgcurr c) k (c\<lparr>bytes_written := w, sent := sent c @ [take k (concat (map addresses (messages c ! msgcurr c)))]\<rparr>) = Some d \<and>
    transmit_kept cn c TRANSMIT_INCOMPLETE cn d k \<and> (lively c \<longrightarrow> lively d)"
proof -
  let ?bytes = "concat (map addresses (messages c ! msgcurr c))"
  define c1 where "c1 = c\<lparr>bytes_written := w, sent := sent c @ [take k ?bytes]\<rparr>"
  have same: "hdrs c1 = hdrs c" "messages c1 = messages c" "msgcurr c1 = msgcurr c" "msgused c1 = msgused c" "transport c1 = transport c" "sending c1"
    using s by (simp_all add: c1_def hdrs_def messages_def sending_def)
  obtain d where d: "advance (hdrs c ! msgcurr c) k c1 = Some d" "sending d" "messages d = (messages c)[msgcurr c := drop_bytes k (messages c ! msgcurr c)]"
    "msgused d = msgused c" "msgcurr d = msgcurr c" "transport d = transport c" "sent d = sent c1"
    using advance_ok [OF same(6), of k] same cur k(2) by auto
  have len: "length (messages c) = msgused c" using current_hdr_ok(3) [OF s cur] by simp
  have rest: "drop (Suc (msgcurr c)) (messages d) = drop (Suc (msgcurr c)) (messages c)" using d(3) by simp
  have pend: "pending d = drop k (pending c)"
    unfolding pending_current [OF s cur] pending_current [OF d(2), unfolded d(4,5), OF cur] rest
    using k(2) cur len by (simp add: d(3) drop_bytes_addresses)
  have "take k (pending c) = take k ?bytes" unfolding pending_current [OF s cur] using k(2) by simp
  then have "concat (sent d) = concat (sent c) @ take k (pending c)" using d(7) by (simp add: c1_def)
  moreover have "k \<le> length (pending c)" unfolding pending_current [OF s cur] using k(2) by simp
  ultimately have kept: "transmit_kept cn c TRANSMIT_INCOMPLETE cn d k" using d(2,6) pend by (simp add: transmit_kept_def)
  have "lively d" if "lively c"
  proof -
    have "drop (msgcurr c) (messages d) = drop_bytes k (messages c ! msgcurr c) # drop (Suc (msgcurr c)) (messages c)"
      using d(3) cur len by (metis Cons_nth_drop_Suc length_list_update nth_list_update_eq rest)
    moreover have "set (drop (Suc (msgcurr c)) (messages c)) \<subseteq> set (drop (msgcurr c) (messages c))" by (rule set_drop_subset_set_drop) simp
    ultimately show ?thesis
      using that drop_bytes_positive [of k "messages c ! msgcurr c"] unfolding lively_def d(5) rest by auto
  qed
  then show ?thesis using d(1) kept by (simp add: c1_def)
qed

lemma transmit_step:
  assumes s: "sending c"
  shows "\<exists>r cn' d k. transmit ans cn c = Some (r, cn', d) \<and> transmit_kept cn c r cn' d k \<and>
    (lively c \<and> (\<exists>n > 0. ans = Sent n) \<longrightarrow> lively d \<and> (r = TRANSMIT_COMPLETE \<or> r = TRANSMIT_INCOMPLETE \<and> 0 < k))"
proof (cases "msgcurr (skipped c) < msgused (skipped c)")
  case False
  have "pending (skipped c) = []"
    using False skipped_ok(1) [OF s] by (simp add: pending_def sending_def)
  moreover have "transmit ans cn c = Some (TRANSMIT_COMPLETE, cn, skipped c)" using False by (simp add: transmit_skipped [OF s])
  ultimately show ?thesis
    using transmit_kept_skipped [OF s] lively_skipped(1) [OF _ s]
    by (intro exI [of _ TRANSMIT_COMPLETE] exI [of _ cn] exI [of _ "skipped c"] exI [of _ 0]) simp
next
  case True
  let ?e = "skipped c" and ?bytes = "concat (map addresses (messages (skipped c) ! msgcurr (skipped c)))"
    and ?len = "msg_size (messages (skipped c) ! msgcurr (skipped c))"
  note e = skipped_ok [OF s]
  have hard: ?thesis if "transmit ans cn c = Some (TRANSMIT_HARD_ERROR, cn\<lparr>c_state := st\<rparr>, ?e)" "\<not> is_udp c \<longrightarrow> st = conn_closing"
    "lively c \<and> (\<exists>n > 0. ans = Sent n) \<longrightarrow> False" for st
    using that transmit_kept_skipped [OF s, of TRANSMIT_HARD_ERROR "cn\<lparr>c_state := st\<rparr>" cn] by fastforce
  have udp: "is_udp ?e = is_udp c" using e(7) by (simp add: is_udp_def)
  show ?thesis
  proof (cases ans)
    case (Sent n)
    show ?thesis
    proof (cases "0 < min n ?len")
      case pos: True
      have le: "min n ?len \<le> ?len" by simp
      obtain d where d: "advance (hdrs ?e ! msgcurr ?e) (min n ?len) (?e\<lparr>bytes_written := bytes_written ?e + of_nat (min n ?len),
          sent := sent ?e @ [take (min n ?len) ?bytes]\<rparr>) = Some d"
        "transmit_kept cn ?e TRANSMIT_INCOMPLETE cn d (min n ?len)" "lively ?e \<longrightarrow> lively d"
        using transmit_sent [OF e(1) True pos le] by blast
      have "transmit ans cn c = Some (TRANSMIT_INCOMPLETE, cn, d)"
        using True pos d(1) by (simp add: transmit_skipped [OF s] Sent)
      moreover have "transmit_kept cn c TRANSMIT_INCOMPLETE cn d (min n ?len)"
        using d(2) e(2,6,7) by (simp add: transmit_kept_def)
      ultimately show ?thesis using pos d(3) lively_skipped(1) [OF _ s] by blast
    next
      case none: False
      have "\<not> (lively c \<and> (\<exists>n > 0. ans = Sent n))"
        using none lively_skipped(2) [OF _ s] True e(3,5) Sent by auto
      moreover have "transmit ans cn c = Some (TRANSMIT_HARD_ERROR, cn\<lparr>c_state := (if is_udp ?e then conn_read else conn_closing)\<rparr>, ?e)"
        by (simp only: transmit_skipped [OF s] Sent True none if_True if_False send_answer.case)
      ultimately show ?thesis using udp by (intro hard) auto
    qed
  next
    case (WouldBlock ok)
    show ?thesis
    proof (cases ok)
      case ok: True
      have "transmit ans cn c = Some (TRANSMIT_SOFT_ERROR, cn, ?e)" using True ok by (simp add: transmit_skipped [OF s] WouldBlock)
      then show ?thesis
        using transmit_kept_skipped [OF s, of TRANSMIT_SOFT_ERROR cn cn] WouldBlock
        by (intro exI [of _ TRANSMIT_SOFT_ERROR] exI [of _ cn] exI [of _ ?e] exI [of _ 0]) simp
    next
      case False
      then show ?thesis using hard [of conn_closing] True by (simp add: transmit_skipped [OF s] WouldBlock)
    qed
  next
    case SendFailed
    then show ?thesis using hard [of "if is_udp ?e then conn_read else conn_closing"] True udp by (simp add: transmit_skipped [OF s])
  qed
qed

text \<open>
  The state \<open>conn_mwrite\<close> of the connection: \<open>transmit\<close> is called until everything is sent or the
  connection fails, with an answer of the kernel for each call.
\<close>

primrec send_run :: "send_answer list \<Rightarrow> conn \<Rightarrow> 'r outgoing \<Rightarrow> (transmit_result option \<times> conn \<times> 'r outgoing) option" where
  "send_run [] cn c = Some (None, cn, c)"
| "send_run (a # as) cn c = do {
     (r, cn1, c1) \<leftarrow> transmit a cn c;
     if r = TRANSMIT_COMPLETE \<or> r = TRANSMIT_HARD_ERROR then Some (Some r, cn1, c1) else send_run as cn1 c1 }"

lemma send_run_ok:
  assumes "sending c"
  shows "\<exists>r cn' d k. send_run as cn c = Some (r, cn', d) \<and> k \<le> length (pending c) \<and> concat (sent d) = concat (sent c) @ take k (pending c) \<and>
    (r = Some TRANSMIT_COMPLETE \<longrightarrow> k = length (pending c)) \<and> (r = Some TRANSMIT_HARD_ERROR \<and> \<not> is_udp c \<longrightarrow> c_state cn' = conn_closing) \<and>
    (lively c \<and> (\<forall>a \<in> set as. \<exists>n > 0. a = Sent n) \<and> length (pending c) < length as \<longrightarrow> r = Some TRANSMIT_COMPLETE)"
  using assms
proof (induction as arbitrary: cn c)
  case Nil
  show ?case by (intro exI [of _ None] exI [of _ cn] exI [of _ c] exI [of _ 0]) simp
next
  case (Cons a as)
  obtain r cn1 d k where t: "transmit a cn c = Some (r, cn1, d)" "transmit_kept cn c r cn1 d k"
    "lively c \<and> (\<exists>n > 0. a = Sent n) \<longrightarrow> lively d \<and> (r = TRANSMIT_COMPLETE \<or> r = TRANSMIT_INCOMPLETE \<and> 0 < k)"
    using transmit_step [OF Cons.prems] by blast
  have kept: "sending d" "is_udp d = is_udp c" "k \<le> length (pending c)" "concat (sent d) = concat (sent c) @ take k (pending c)"
    "pending d = drop k (pending c)" "r = TRANSMIT_COMPLETE \<longrightarrow> pending d = []" "r = TRANSMIT_HARD_ERROR \<and> \<not> is_udp c \<longrightarrow> c_state cn1 = conn_closing"
  proof -
    show "is_udp d = is_udp c" using t(2) by (simp add: transmit_kept_def is_udp_def)
  qed (use t(2) in \<open>unfold transmit_kept_def, blast+\<close>)
  show ?case
  proof (cases "r = TRANSMIT_COMPLETE \<or> r = TRANSMIT_HARD_ERROR")
    case True
    then show ?thesis using t(1,3) kept by (intro exI [of _ "Some r"] exI [of _ cn1] exI [of _ d] exI [of _ k]) auto
  next
    case False
    obtain q cn2 e l where e: "send_run as cn1 d = Some (q, cn2, e)" "l \<le> length (pending d)" "concat (sent e) = concat (sent d) @ take l (pending d)"
      "q = Some TRANSMIT_COMPLETE \<longrightarrow> l = length (pending d)" "q = Some TRANSMIT_HARD_ERROR \<and> \<not> is_udp d \<longrightarrow> c_state cn2 = conn_closing"
      "lively d \<and> (\<forall>a \<in> set as. \<exists>n > 0. a = Sent n) \<and> length (pending d) < length as \<longrightarrow> q = Some TRANSMIT_COMPLETE"
      using Cons.IH [OF kept(1)] by blast
    have run: "send_run (a # as) cn c = Some (q, cn2, e)" using t(1) False e(1) by simp
    have "concat (sent e) = concat (sent c) @ take (k + l) (pending c)" using e(3) kept(4,5) by (simp add: take_add)
    moreover have "k + l \<le> length (pending c)" "q = Some TRANSMIT_COMPLETE \<longrightarrow> k + l = length (pending c)" using e(2,4) kept(3,5) by auto
    moreover have "q = Some TRANSMIT_COMPLETE"
      if "lively c" "\<forall>x \<in> set (a # as). \<exists>n > 0. x = Sent n" "length (pending c) < length (a # as)"
    proof -
      have "lively d" "0 < k" using t(3) that(1,2) False by auto
      moreover have "length (pending d) < length as" using that(3) kept(3,5) \<open>0 < k\<close> by simp
      ultimately show ?thesis using e(6) that(2) by simp
    qed
    ultimately show ?thesis using run e(5) kept(2) by (intro exI [of _ q] exI [of _ cn2] exI [of _ e] exI [of _ "k + l"]) simp
  qed
qed

lemma lively_vectors:
  assumes "\<forall>v \<in> set (concat (messages c)). 0 < iov_len v" "[] \<notin> set (butlast (messages c))" "messages c \<noteq> []" "msgcurr c = 0"
    and "[] \<notin> set (messages c) \<or> length (messages c) = 1"
  shows "lively c"
proof -
  have "m = [] \<or> 0 < msg_size m" if m: "m \<in> set (messages c)" for m
  proof (cases m)
    case (Cons v vs)
    then have "v \<in> set m" by simp
    then have "v \<in> set (concat (messages c))" unfolding set_concat using m by blast
    then have "0 < iov_len v" using assms(1) by blast
    then show ?thesis using Cons by simp
  qed simp
  moreover have "[] \<notin> set (drop (Suc 0) (messages c))" using assms(5) by (cases "messages c") (auto dest: in_set_dropD)
  ultimately show ?thesis by (simp add: lively_def assms(4))
qed

text \<open>
  Claim C38. A TCP response is sent as one stream of bytes: however the kernel cuts the writes,
  what \<open>transmit\<close> hands to it is a prefix of the data that was added, in order; it reports
  \<open>TRANSMIT_COMPLETE\<close> only when all of it is sent, and after an error the connection closes. If
  no vector is empty and each write takes at least a byte, everything is sent after at most one
  call per byte. While no \<open>realloc\<close> fails the response is built, with at most \<open>IOV_MAX\<close> vectors
  in a message.
\<close>
theorem stream_response_sent:
  assumes "arrays_ok c" "\<not> is_udp c" "sent c = []" "int (sum_list (map snd bs)) \<le> INT_MAX"
  shows "\<exists>ok d. respond bs c = Some (ok, d) \<and> (all_succeed c \<longrightarrow> ok \<and> short_messages d) \<and>
    (ok \<longrightarrow> (\<forall>as cn. \<exists>r cn' e k. send_run as cn d = Some (r, cn', e) \<and> concat (sent e) = take k (data_of bs) \<and>
       (r = Some TRANSMIT_COMPLETE \<longrightarrow> concat (sent e) = data_of bs) \<and> (r = Some TRANSMIT_HARD_ERROR \<longrightarrow> c_state cn' = conn_closing) \<and>
       ((\<forall>b \<in> set bs. 0 < snd b) \<and> (\<forall>a \<in> set as. \<exists>n > 0. a = Sent n) \<and> length (data_of bs) < length as \<longrightarrow> r = Some TRANSMIT_COMPLETE)))"
proof -
  obtain b d0 where r: "reset_output c = Some (b, d0)" "vectors_ok d0" "transport d0 = transport c" "msgcurr d0 = 0" "sent d0 = sent c" "answers_left b c d0"
    "b \<longrightarrow> messages d0 = [[]] \<and> 0 < msgused d0 \<and> msgbytes d0 = 0"
    using reset_tcp [OF assms(1,2)] by blast
  show ?thesis
  proof (cases b)
    case False
    then show ?thesis using r(1,6) by (auto simp: respond_def answers_left_def)
  next
    case True
    have tcp: "\<not> is_udp d0" using assms(2) r(3) by (simp add: is_udp_def)
    have m0: "messages d0 = [[]]" "0 < msgused d0" "msgbytes d0 + int (sum_list (map snd bs)) \<le> INT_MAX" "[] \<notin> set (butlast (messages d0))"
      using r(7) True assms(4) by simp_all
    obtain ok d n where d: "add_all bs d0 = Some (ok, d)" "vectors_ok d" "0 < msgused d" "transport d = transport d0" "msgcurr d = msgcurr d0"
      "sent d = sent d0" "answers_left ok d0 d" "concat (messages d) = concat (messages d0) @ map vector_for (take n bs)" "ok \<longrightarrow> n = length bs"
      "ok \<and> bs \<noteq> [] \<longrightarrow> [] \<notin> set (messages d)" "all_succeed d0 \<and> short_messages d0 \<longrightarrow> ok \<and> short_messages d"
      using add_all_tcp [OF r(2) m0(2) tcp m0(4,3)] by blast
    have resp: "respond bs c = Some (ok, d)" using r(1) True d(1) by (simp add: respond_def)
    have succ: "all_succeed c \<longrightarrow> ok \<and> short_messages d"
      using d(11) r(6) m0(1) by (auto simp: answers_left_def all_succeed_def short_messages_def)
    have s: "sending d" by (rule vectors_ok_sending [OF d(2)])
    have vs: "concat (messages d) = map vector_for bs" if ok using d(8,9) that m0(1) by simp
    have pend: "pending d = data_of bs" if ok
      using vs [OF that] d(5) r(4) by (simp add: pending_def data_of_def comp_def)
    have live: "lively d" if ok "\<forall>b \<in> set bs. 0 < snd b"
    proof (rule lively_vectors)
      show "\<forall>v \<in> set (concat (messages d)). 0 < iov_len v" using vs [OF that(1)] that(2) by (simp add: vector_for_def)
      show ne: "messages d \<noteq> []" using last_message(3) [OF d(2,3)] .
      show "msgcurr d = 0" using d(5) r(4) by simp
      have "messages d = [[]]" if "bs = []" using d(1) that m0(1) by simp
      then show "[] \<notin> set (messages d) \<or> length (messages d) = 1" using d(10) that(1) by (cases "bs = []") simp_all
      then show "[] \<notin> set (butlast (messages d))" using ne by (cases "messages d" rule: rev_cases) auto
    qed
    have udp: "\<not> is_udp d" using tcp d(4) by (simp add: is_udp_def)
    have main: "\<exists>r cn' e k. send_run as cn d = Some (r, cn', e) \<and> concat (sent e) = take k (data_of bs) \<and>
       (r = Some TRANSMIT_COMPLETE \<longrightarrow> concat (sent e) = data_of bs) \<and> (r = Some TRANSMIT_HARD_ERROR \<longrightarrow> c_state cn' = conn_closing) \<and>
       ((\<forall>b \<in> set bs. 0 < snd b) \<and> (\<forall>a \<in> set as. \<exists>n > 0. a = Sent n) \<and> length (data_of bs) < length as \<longrightarrow> r = Some TRANSMIT_COMPLETE)"
      if ok: ok for as cn
    proof -
      obtain q cn' e k where "send_run as cn d = Some (q, cn', e) \<and> k \<le> length (pending d) \<and> concat (sent e) = concat (sent d) @ take k (pending d) \<and>
        (q = Some TRANSMIT_COMPLETE \<longrightarrow> k = length (pending d)) \<and> (q = Some TRANSMIT_HARD_ERROR \<and> \<not> is_udp d \<longrightarrow> c_state cn' = conn_closing) \<and>
        (lively d \<and> (\<forall>a \<in> set as. \<exists>n > 0. a = Sent n) \<and> length (pending d) < length as \<longrightarrow> q = Some TRANSMIT_COMPLETE)"
        using send_run_ok [OF s, of as cn] by (elim exE)
      then have e: "send_run as cn d = Some (q, cn', e)" "concat (sent e) = concat (sent d) @ take k (pending d)"
        "q = Some TRANSMIT_COMPLETE \<longrightarrow> k = length (pending d)" "q = Some TRANSMIT_HARD_ERROR \<and> \<not> is_udp d \<longrightarrow> c_state cn' = conn_closing"
        "lively d \<and> (\<forall>a \<in> set as. \<exists>n > 0. a = Sent n) \<and> length (pending d) < length as \<longrightarrow> q = Some TRANSMIT_COMPLETE"
        by simp_all
      have "concat (sent e) = take k (data_of bs)" using e(2) pend [OF ok] d(6) r(5) assms(3) by simp
      moreover have "q = Some TRANSMIT_COMPLETE \<longrightarrow> concat (sent e) = data_of bs" using e(3) calculation pend [OF ok] by simp
      moreover have "(\<forall>b \<in> set bs. 0 < snd b) \<and> (\<forall>a \<in> set as. \<exists>n > 0. a = Sent n) \<and> length (data_of bs) < length as \<longrightarrow> q = Some TRANSMIT_COMPLETE"
        using e(5) live [OF ok] unfolding pend [OF ok] by blast
      moreover have "q = Some TRANSMIT_HARD_ERROR \<longrightarrow> c_state cn' = conn_closing" using e(4) udp by blast
      ultimately show ?thesis using e(1) by (intro exI conjI)
    qed
    show ?thesis
      by (rule exI [of _ ok], rule exI [of _ d], rule conjI [OF resp], rule conjI [OF succ], intro impI allI, rule main)
  qed
qed

theorem stream_response_sent_witness:
  "\<exists>ok d. respond [(Data (7 :: nat) 0, 3), (Data 8 1, 2)] (new_output tcp_transport []) = Some (ok, d) \<and>
    (\<forall>cn. \<exists>r cn' e. send_run (replicate 6 (Sent 2)) cn d = Some (r, cn', e) \<and> r = Some TRANSMIT_COMPLETE \<and>
      concat (sent e) = [Data 7 0, Data 7 1, Data 7 2, Data 8 1, Data 8 2])"
proof -
  let ?bs = "[(Data (7 :: nat) 0, 3 :: nat), (Data 8 1, 2)]"
  have data: "data_of ?bs = [Data 7 0, Data 7 1, Data 7 2, Data 8 1, Data 8 2]" by (simp add: addresses_def forward_def upt_rec)
  have "\<exists>ok d. respond ?bs (new_output tcp_transport []) = Some (ok, d) \<and> (all_succeed (new_output tcp_transport [] :: nat outgoing) \<longrightarrow> ok \<and> short_messages d) \<and>
    (ok \<longrightarrow> (\<forall>as cn. \<exists>r cn' e k. send_run as cn d = Some (r, cn', e) \<and> concat (sent e) = take k (data_of ?bs) \<and>
       (r = Some TRANSMIT_COMPLETE \<longrightarrow> concat (sent e) = data_of ?bs) \<and> (r = Some TRANSMIT_HARD_ERROR \<longrightarrow> c_state cn' = conn_closing) \<and>
       ((\<forall>b \<in> set ?bs. 0 < snd b) \<and> (\<forall>a \<in> set as. \<exists>n > 0. a = Sent n) \<and> length (data_of ?bs) < length as \<longrightarrow> r = Some TRANSMIT_COMPLETE)))"
    by (rule stream_response_sent) (simp_all add: INT_MAX_def)
  then obtain d where d: "respond ?bs (new_output tcp_transport []) = Some (True, d)"
    "\<forall>as cn. \<exists>r cn' e k. send_run as cn d = Some (r, cn', e) \<and> concat (sent e) = take k (data_of ?bs) \<and>
       (r = Some TRANSMIT_COMPLETE \<longrightarrow> concat (sent e) = data_of ?bs) \<and> (r = Some TRANSMIT_HARD_ERROR \<longrightarrow> c_state cn' = conn_closing) \<and>
       ((\<forall>b \<in> set ?bs. 0 < snd b) \<and> (\<forall>a \<in> set as. \<exists>n > 0. a = Sent n) \<and> length (data_of ?bs) < length as \<longrightarrow> r = Some TRANSMIT_COMPLETE)"
    by auto
  have "\<exists>r cn' e. send_run (replicate 6 (Sent 2)) cn d = Some (r, cn', e) \<and> r = Some TRANSMIT_COMPLETE \<and>
      concat (sent e) = [Data 7 0, Data 7 1, Data 7 2, Data 8 1, Data 8 2]" for cn
    using spec [OF spec [OF d(2), of "replicate 6 (Sent 2)"], of cn] unfolding data by auto
  then show ?thesis using d(1) by blast
qed

text \<open>
  When there is no memory for another message header, \<open>add_iov\<close> goes on with the full message and
  reports success: the message has one vector more than \<open>sendmsg\<close> accepts.
\<close>

lemma too_many_vectors:
  assumes ok: "vectors_ok c" and tcp: "\<not> is_udp c" and full: "0 < msgused c" "length (last (messages c)) = IOV_MAX"
    and mem: "length (msglist c) = msgused c" "out_answers c = False # as" and room: "iovused c < length (iov c)" "msgbytes c + int len \<le> INT_MAX"
  shows "\<exists>d. add_iov buf len c = Some (True, d) \<and> length (last (messages d)) = IOV_MAX + 1"
proof -
  define d where "d = c\<lparr>out_answers := as, malloc_fails := malloc_fails c + 1\<rparr>"
  have add: "add_msghdr c = Some (False, d)"
    using mem by (simp add: add_msghdr_tcp [OF ok tcp] open_message_def message_room_def out_alloc_def d_def)
  have same: "hdrs d = hdrs c" by (simp add: d_def hdrs_def)
  then have msgs: "messages d = messages c" by (simp add: messages_def d_def)
  have wf: "vectors_ok d" using ok unfolding vectors_ok_def same msgs by (simp add: d_def)
  have f: "0 < msgused d" "iovused d < length (iov d)" "msgbytes d + int len \<le> INT_MAX" using full room by (simp_all add: d_def)
  obtain e where e: "put_vector buf len d = Some e" "messages e = add_last \<lparr>iov_base = buf, iov_len = len\<rparr> (messages d)"
    using put_vector_ok [OF wf f] by blast
  have "add_iov buf len c = Some (True, e)"
    using tcp last_message(1,4) [OF ok full(1)] full(2) add e(1) f(2)
    by (simp add: add_iov_def add_iov_with_def tcp_iov_def ensure_iov_space_def)
  then show ?thesis using full(2) e(2) msgs by (intro exI [of _ e]) (simp add: add_last_def)
qed

end
