(* ===== verification/Spec2Isabelle.thy ===== *)
theory Spec2Isabelle
  imports MemServer CharDev TouchPages UffdHandlers Bipbuffer Itoa Hashes Util ObjCache LruPull PrefixStats AddDelta MsgVec
begin

text \<open>
  \<^bold>\<open>Rack-scale memory: a verification development\<close>

  The repository holds a prototype that extends the memory of a machine by the memory of
  another one on the network, and the memcached server it is measured with.

  \<^item> \<open>RSApi\<close> is the client library: byte streams, sockets, and the call
    \<open>rsa_download_more_ram\<close> that fetches a page from the memory server.
  \<^item> \<open>RSA_Mem_Server\<close> answers such requests; it uses the same byte streams.
  \<^item> \<open>RSA_App\<close> holds programs that catch page faults of their own with \<open>userfaultfd\<close> and answer
    them, \<open>touch-pages.c\<close> with pages from the library.
  \<^item> \<open>char_device\<close> is a kernel module with a buffer behind a character device.
  \<^item> \<open>Experiments/memcached\<close> is memcached 1.4: a store of items with a hash table (assoc.c), a slab
    allocator (slabs.c), LRU queues (items.c) and the protocol (memcached.c, thread.c), beside
    utilities.

  \<^bold>\<open>How the C code is read.\<close> A machine integer is a word of its width (\<open>u8\<close>, \<open>u16\<close>, \<open>u32\<close>, \<open>u64\<close>); a
  signed one is an \<open>int\<close> where the code keeps it within its range. A struct is a \<open>record\<close> with the names of
  its fields. A pointer to a heap object is its address, \<open>nat\<close>, and NULL is \<open>None\<close>. A function that
  changes memory takes the state and returns it. A result type \<open>option\<close> around the whole answer
  says that the C program has a meaning there: \<open>None\<close> is undefined behaviour, a failed
  \<open>assert\<close> or a loop that does not end, never an error return of the code, which is a value
  (\<open>store_item_type\<close>, \<open>reassign_result\<close>, \<open>transmit_result\<close> and so on). What the outside
  world answers (\<open>malloc\<close>, the kernel, a lock that is tried, the other host) is part of the state as a list of
  answers that is used up, or a parameter; the theorems hold for all of them. Where a loop need not
  end it is a \<open>partial_function\<close>, and the theorems say that it does. A lock makes the operation it
  guards atomic.
\<close>

text \<open>
  \<^bold>\<open>The theories and the sources they model\<close>

  \<^item> \<open>Prelude\<close>: widths, runs of bytes in a buffer, the checks of the option monad; shared lemmas.
  \<^item> \<open>Host\<close>: the memory of a C program as cells that are allocated, written, read and freed, the answers of
    \<open>malloc\<close>, the byte order of the host and its sockets; the structs of RSApi/structs.h.
  \<^item> \<open>ByteStream\<close>: RSApi/rsa_buffer_utils.c, function by function. The macro \<open>BAIL_ERROR\<close> is \<open>bail_then\<close>.
  \<^item> \<open>NetHelper\<close>, \<open>MemData\<close>: rsa_network_helper.c and rsa_api.c. The steps of \<open>rsa_download_more_ram\<close> up to its cleanup
    label are the definitions \<open>dl_create\<close> to \<open>dl_deserialize\<close>.
  \<^item> \<open>MemServer\<close>: RSA_Mem_Server: \<open>srv_iteration\<close> is one turn of the accept loop, over a list of clients;
    its reply is the literal of 23 bytes that the code has (\<open>server_dummy\<close>).
  \<^item> \<open>CharDev\<close>: char_device/chr_drv_udev.c: \<open>cdev_state\<close> is the buffer and the device registration, and one file.
  \<^item> \<open>Uffd\<close>, \<open>TouchPages\<close>, \<open>UffdHandlers\<close>: RSA_App. The faults are a list of events of the descriptor.
  \<^item> \<open>Bipbuffer\<close>, \<open>Itoa\<close>, \<open>Hashes\<close>, \<open>Util\<close>, \<open>ObjCache\<close>, \<open>PrefixStats\<close>: bipbuffer.c, itoa_ljust.c, jenkins_hash.c with murmur3_hash.c and
    hash.c, util.c, cache.c and stats.c of memcached.
  \<^item> \<open>Assoc\<close>: assoc.c. \<open>item\<close> is \<open>struct _stritem\<close>, the heap of items a map from addresses, \<open>assoc\<close> the two tables. One pass of the
    maintenance thread is \<open>maintenance_pass\<close>.
  \<^item> \<open>ItemList\<close>, \<open>Slabs\<close>, \<open>SlabMove\<close>: the linked lists that queues and free lists share, slabs.c, and the request, start and
    finish of moving a page between classes. Chunks are runs of addresses inside the pages that \<open>malloc\<close> returned
    (\<open>layout\<close>). \<open>slabs\<close> extends \<open>assoc\<close>, \<open>rebal\<close> is \<open>struct slab_rebalance\<close>.
  \<^item> \<open>Items\<close>: items.c; \<open>cache_mem\<close> extends the state by the queues and the statistics, a \<open>worker\<close> is one bump buffer.
  \<^item> \<open>LruQueues\<close>, \<open>ItemStore\<close>, \<open>ItemIndex\<close>, \<open>StoreMap\<close>, \<open>StoreGet\<close>, \<open>LruPull\<close>: the invariants of that state and the correctness of the operations of
    \<open>Items\<close> on it.
  \<^item> \<open>Tokens\<close>, \<open>Commands\<close>: the tokenizer and the commands set, add, replace, append, prepend, cas, incr, decr, delete and
    touch of memcached.c, with the locked wrappers of thread.c. \<open>conn\<close> is the part of \<open>struct conn\<close> they use, \<open>server\<close> adds
    the prefix statistics to the store.
  \<^item> \<open>StoreItem\<close>, \<open>AddDelta\<close>: the correctness of \<open>do_store_item\<close>, and a reference that \<open>do_add_delta\<close> keeps.
  \<^item> \<open>MsgVec\<close>: the lists of messages and vectors of a response and \<open>transmit\<close> (memcached.c). \<open>outgoing\<close> is that part of
    \<open>struct conn\<close>.

  How they interact: \<open>MemData\<close> and \<open>MemServer\<close> send messages to each other through the streams of \<open>ByteStream\<close>;
  \<open>TouchPages\<close> calls \<open>MemData\<close> for every fault. The commands call the store, which calls the hash table,
  the slab allocator and the bump buffers; \<open>Items\<close>, \<open>Slabs\<close> and \<open>Assoc\<close> work on one heap of items, and the
  links of an item belong to whichever of them holds it.
\<close>

text \<open>
  \<^bold>\<open>What the lemmas show\<close>

  \<^item> Streams and messages: each writer appends the encoding of its value or fails without writing; what one host
    writes another reads, whatever their byte orders; a request and its reply as a whole; every
    partial send ends. The interface is the locale \<open>wire_writer\<close> with its extension \<open>wire_pair\<close>, interpreted as
    \<open>u64_writer\<close>, \<open>blob_writer\<close> and \<open>message_writer\<close>.
  \<^item> Drivers and demos: positions stay inside the device (an inductive \<open>dev_reachable\<close>), faults are answered with the
    page that was fetched.
  \<^item> Containers: the bip buffer refines a bounded queue of bytes (locale \<open>byte_fifo\<close>, interpretation \<open>bip_fifo\<close>); object cache
    and slab classes refine pools of distinct objects that keep their contents (locale \<open>object_pool\<close>,
    interpretations \<open>cache_pool\<close> and \<open>class_pool\<close>); the hash table refines a map (locale \<open>key_index\<close>, extended by
    \<open>growing_index\<close>, interpretation \<open>assoc_index\<close>), and so does the whole store (\<open>store_index\<close>).
  \<^item> The store: \<open>store_at\<close> says that the linked items are exactly those of the hash table and of the queue of their
    class, that free items are in free lists, and that counters and statistics agree with the lists. Linking,
    unlinking, fetching, bumping, the walk of the LRU maintainer and \<open>do_store_item\<close> keep it, and their effect is
    stated on the map from keys to items.
  \<^item> Moving pages: from the request to the end no page is lost or doubled while other threads add pages
    (\<open>moving\<close>), and the last step is defined exactly where the target class has room.
  \<^item> Text: tokens, numbers, printed integers (with the values where a product of digits leaves the range of
    \<open>int\<close>, \<open>int_mul\<close>), URI encoding, the text of the statistics.
  \<^item> Responses: \<open>vectors_ok\<close> is the well-formedness of the lists; a TCP response is one stream that reaches the kernel in
    order and completely, a UDP response is cut into packets with right headers.

  \<^bold>\<open>Bounds and fuel.\<close> The hash table grows to at most \<open>2 ^ 31\<close> buckets, because the maintenance thread keeps the index of a bucket in
  an \<open>int\<close> (\<open>int_bucket\<close>). The search of a slab class (\<open>clsid_loop\<close>) has the number of classes as its fuel; \<open>pull_loop\<close> is bounded by the five
  tries of the code and \<open>alloc_pull_loop\<close> by its ten rounds; \<open>scan_loop\<close> takes one step for each character of the
  command; \<open>drop_vectors\<close> one for each vector of the message. \<open>bulk_move\<close> and the loops of the maintenance take
  one outcome of a lock for each try, and \<open>expansion_completes\<close> says how many are enough. \<open>add_iov\<close> and \<open>add_msghdr\<close> call each
  other, but the inner call adds the first vector of a message and so never asks for another one: two
  levels are exact. The \<open>partial_function\<close>s are shown to return under the invariants: \<open>send_loop\<close>, \<open>udp_iov\<close> and
  \<open>pull_loop\<close> by a measure, the walks over chains because the lists they represent are finite.

  \<^bold>\<open>Not modelled.\<close> The connection state machine over libevent and the reading of requests, the binary protocol, the
  dispatch of commands, \<open>get\<close> and the administrative commands, the start of threads and their queues, the logger, the
  crawler, the evacuation of the items of a page (\<open>slab_rebalance_move\<close>), the printers of statistics, options and
  daemon support: they are event and system-call glue around the parts above, or text output. Tests,
  documentation, build files and the vendored uthash (which no function uses) are left aside.
\<close>

end
